(* ===== verification/Prelude.thy ===== *)
theory Prelude
  imports Main "HOL-Library.Word" "HOL-Library.Product_Lexorder"
begin

text \<open>
  Shared vocabulary of the development: machine integers, byte strings, and the parts of
  the Rust standard library the modelled sources call (\<open>str\<close> and slice methods, decimal
  parsing and printing, saturating and checked arithmetic), with the generic lemmas the
  component theories use.

  A Rust \<open>str\<close> or \<open>[u8]\<close> is a \<open>string\<close>: a HOL character is one byte, so a \<open>str\<close> is
  the list of its UTF-8 bytes and \<open>len()\<close> is \<open>length\<close>. Searching a \<open>str\<close> for an ASCII
  character is a search of its bytes, because no byte of a multi-byte sequence is ASCII.
  A \<open>HashMap\<close> that is only looked up is a partial function; one that is iterated is an
  association list with distinct keys.
\<close>

type_synonym u8 = "8 word"
type_synonym u16 = "16 word"
type_synonym u32 = "32 word"
type_synonym u64 = "64 word"
type_synonym bytes = string

section \<open>Slices and options\<close>

definition get_at :: "'a list \<Rightarrow> nat \<Rightarrow> 'a option" where
  "get_at xs i = (if i < length xs then Some (xs ! i) else None)"

definition get_prefix :: "'a list \<Rightarrow> nat \<Rightarrow> 'a list option" where
  "get_prefix xs n = (if n \<le> length xs then Some (take n xs) else None)"

definition get_range :: "'a list \<Rightarrow> nat \<Rightarrow> nat \<Rightarrow> 'a list option" where
  "get_range xs i j = (if i \<le> j \<and> j \<le> length xs then Some (take (j - i) (drop i xs)) else None)"

fun position :: "('a \<Rightarrow> bool) \<Rightarrow> 'a list \<Rightarrow> nat option" where
  "position p [] = None"
| "position p (x # xs) = (if p x then Some 0 else map_option Suc (position p xs))"

definition ok_or :: "'e \<Rightarrow> 'a option \<Rightarrow> 'e + 'a" where
  "ok_or e x = (case x of None \<Rightarrow> Inl e | Some v \<Rightarrow> Inr v)"

fun sum_bind :: "'e + 'a \<Rightarrow> ('a \<Rightarrow> 'e + 'b) \<Rightarrow> 'e + 'b" where
  "sum_bind (Inl e) f = Inl e"
| "sum_bind (Inr a) f = f a"

definition opt_or :: "'a \<Rightarrow> 'a option \<Rightarrow> 'a" where
  "opt_or d x = (case x of None \<Rightarrow> d | Some v \<Rightarrow> v)"

text \<open>\<open>HashMap::insert\<close> on the contents of a map, in an order that is not specified.\<close>

definition hm_insert :: "'k \<Rightarrow> 'v \<Rightarrow> ('k \<times> 'v) list \<Rightarrow> ('k \<times> 'v) list" where
  "hm_insert k v m = (k, v) # filter (\<lambda>e. fst e \<noteq> k) m"

section \<open>ASCII and \<open>str\<close> methods\<close>

abbreviation byte_val :: "char \<Rightarrow> nat" where
  "byte_val c \<equiv> of_char c"

definition is_ascii_uppercase :: "char \<Rightarrow> bool" where
  "is_ascii_uppercase c \<longleftrightarrow> 65 \<le> byte_val c \<and> byte_val c \<le> 90"

definition is_ascii_lowercase :: "char \<Rightarrow> bool" where
  "is_ascii_lowercase c \<longleftrightarrow> 97 \<le> byte_val c \<and> byte_val c \<le> 122"

definition is_ascii_digit :: "char \<Rightarrow> bool" where
  "is_ascii_digit c \<longleftrightarrow> 48 \<le> byte_val c \<and> byte_val c \<le> 57"

definition is_ascii_alphanumeric :: "char \<Rightarrow> bool" where
  "is_ascii_alphanumeric c \<longleftrightarrow>
     is_ascii_uppercase c \<or> is_ascii_lowercase c \<or> is_ascii_digit c"

definition to_ascii_lowercase :: "char \<Rightarrow> char" where
  "to_ascii_lowercase c = (if is_ascii_uppercase c then char_of (byte_val c + 32) else c)"

definition lower :: "string \<Rightarrow> string" where
  "lower s = map to_ascii_lowercase s"

definition eq_ignore_ascii_case :: "string \<Rightarrow> string \<Rightarrow> bool" where
  "eq_ignore_ascii_case s t \<longleftrightarrow> lower s = lower t"

definition trim_end_matches :: "char \<Rightarrow> string \<Rightarrow> string" where
  "trim_end_matches c s = rev (dropWhile (\<lambda>x. x = c) (rev s))"

fun split_once :: "char \<Rightarrow> string \<Rightarrow> (string \<times> string) option" where
  "split_once c [] = None"
| "split_once c (x # xs) =
     (if x = c then Some ([], xs)
      else map_option (\<lambda>(a, b). (x # a, b)) (split_once c xs))"

definition rsplit_once :: "char \<Rightarrow> string \<Rightarrow> (string \<times> string) option" where
  "rsplit_once c s = map_option (\<lambda>(b, a). (rev a, rev b)) (split_once c (rev s))"

text \<open>\<open>split(c)\<close>: always at least one part; an empty input is one empty part.\<close>

fun split_on :: "char \<Rightarrow> string \<Rightarrow> string list" where
  "split_on c [] = [[]]"
| "split_on c (x # xs) =
     (if x = c then [] # split_on c xs
      else (case split_on c xs of [] \<Rightarrow> [[x]] | p # ps \<Rightarrow> (x # p) # ps))"

definition strip_prefix :: "string \<Rightarrow> string \<Rightarrow> string option" where
  "strip_prefix p s = (if take (length p) s = p then Some (drop (length p) s) else None)"

definition starts_with :: "string \<Rightarrow> string \<Rightarrow> bool" where
  "starts_with p s \<longleftrightarrow> take (length p) s = p"

text \<open>
  \<open>str::trim\<close> strips Unicode \<open>White_Space\<close>. \<open>ws_len\<close> is the number of bytes of the
  white-space character a byte string starts with, or 0: one byte for U+0009 to U+000D
  and the space, two for U+0085 and U+00A0, three for the rest of the property.
\<close>

fun ws_len :: "nat list \<Rightarrow> nat" where
  "ws_len [] = 0"
| "ws_len [a] = (if a = 32 \<or> 9 \<le> a \<and> a \<le> 13 then 1 else 0)"
| "ws_len [a, b] =
     (if a = 32 \<or> 9 \<le> a \<and> a \<le> 13 then 1
      else if a = 194 \<and> (b = 133 \<or> b = 160) then 2 else 0)"
| "ws_len (a # b # c # r) =
     (if a = 32 \<or> 9 \<le> a \<and> a \<le> 13 then 1
      else if a = 194 \<and> (b = 133 \<or> b = 160) then 2
      else if a = 225 \<and> b = 154 \<and> c = 128 then 3
      else if a = 226 \<and> b = 128 \<and> (128 \<le> c \<and> c \<le> 138 \<or> c = 168 \<or> c = 169 \<or> c = 175) then 3
      else if a = 226 \<and> b = 129 \<and> c = 159 then 3
      else if a = 227 \<and> b = 128 \<and> c = 128 then 3
      else 0)"

definition ws_at_start :: "string \<Rightarrow> nat" where
  "ws_at_start s = ws_len (map byte_val s)"

text \<open>The length of the white-space character a string ends with, or 0.\<close>

definition ws_at_end :: "string \<Rightarrow> nat" where
  "ws_at_end s =
     (let n = length s
      in if 1 \<le> n \<and> ws_at_start (drop (n - 1) s) = 1 then 1
         else if 2 \<le> n \<and> ws_at_start (drop (n - 2) s) = 2 then 2
         else if 3 \<le> n \<and> ws_at_start (drop (n - 3) s) = 3 then 3
         else 0)"

lemma ws_len_bound: "ws_len s \<le> length s"
  by (induction s rule: ws_len.induct) auto

lemma ws_at_start_bound: "ws_at_start s \<le> length s"
  unfolding ws_at_start_def using ws_len_bound[of "map byte_val s"] by simp

function trim_start :: "string \<Rightarrow> string" where
  "trim_start s = (if ws_at_start s = 0 then s else trim_start (drop (ws_at_start s) s))"
  by pat_completeness auto
termination
proof (relation "measure length")
  fix s :: string
  assume "ws_at_start s \<noteq> 0"
  with ws_at_start_bound[of s] show "(drop (ws_at_start s) s, s) \<in> measure length"
    by auto
qed simp

function trim_end :: "string \<Rightarrow> string" where
  "trim_end s = (if ws_at_end s = 0 then s else trim_end (take (length s - ws_at_end s) s))"
  by pat_completeness auto
termination
  by (relation "measure length") (auto simp: ws_at_end_def Let_def split: if_splits)

definition trim :: "string \<Rightarrow> string" where
  "trim s = trim_end (trim_start s)"

declare trim_start.simps [simp del] trim_end.simps [simp del]

text \<open>
  The invariant of a Rust \<open>str\<close>, which is also what \<open>str::from_utf8\<close> tests: the
  well-formed byte sequences of the Unicode standard (no overlong forms, no surrogates,
  nothing past U+10FFFF).
\<close>

abbreviation cont_byte :: "nat \<Rightarrow> bool" where
  "cont_byte b \<equiv> 128 \<le> b \<and> b \<le> 191"

text \<open>
  The ranges the continuation bytes after a lead byte lie in; \<open>None\<close> when no character
  starts with that byte.
\<close>

definition utf8_lead :: "nat \<Rightarrow> (nat \<times> nat) list option" where
  "utf8_lead a =
     (if a < 128 then Some []
      else if 194 \<le> a \<and> a \<le> 223 then Some [(128, 191)]
      else if a = 224 then Some [(160, 191), (128, 191)]
      else if a = 237 then Some [(128, 159), (128, 191)]
      else if 225 \<le> a \<and> a \<le> 239 then Some [(128, 191), (128, 191)]
      else if a = 240 then Some [(144, 191), (128, 191), (128, 191)]
      else if 241 \<le> a \<and> a \<le> 243 then Some [(128, 191), (128, 191), (128, 191)]
      else if a = 244 then Some [(128, 143), (128, 191), (128, 191)]
      else None)"

fun utf8_run :: "(nat \<times> nat) list \<Rightarrow> nat list \<Rightarrow> bool" where
  "utf8_run [] [] = True"
| "utf8_run (p # ps) [] = False"
| "utf8_run [] (a # r) = (case utf8_lead a of None \<Rightarrow> False | Some ps \<Rightarrow> utf8_run ps r)"
| "utf8_run (p # ps) (b # r) = (fst p \<le> b \<and> b \<le> snd p \<and> utf8_run ps r)"

definition utf8_bytes :: "nat list \<Rightarrow> bool" where
  "utf8_bytes bs \<longleftrightarrow> utf8_run [] bs"

definition from_utf8 :: "bytes \<Rightarrow> string option" where
  "from_utf8 s = (if utf8_bytes (map byte_val s) then Some s else None)"

text \<open>\<open>str::get(..n)\<close>: \<open>None\<close> out of range or inside a multi-byte character.\<close>

definition is_char_boundary :: "string \<Rightarrow> nat \<Rightarrow> bool" where
  "is_char_boundary s n \<longleftrightarrow>
     n = length s \<or> n < length s \<and> \<not> cont_byte (byte_val (s ! n))"

definition str_prefix :: "string \<Rightarrow> nat \<Rightarrow> string option" where
  "str_prefix s n = (if is_char_boundary s n then Some (take n s) else None)"

section \<open>Decimal numbers\<close>

definition digit_val :: "char \<Rightarrow> nat" where
  "digit_val c = byte_val c - 48"

definition digits_val :: "string \<Rightarrow> nat" where
  "digits_val s = foldl (\<lambda>n c. 10 * n + digit_val c) 0 s"

text \<open>
  \<open>uN::from_str\<close>: an optional \<open>+\<close>, then at least one decimal digit, and \<open>None\<close> when the
  value does not fit.
\<close>

definition parse_unsigned :: "nat \<Rightarrow> string \<Rightarrow> nat option" where
  "parse_unsigned w s =
     (let d = (case s of c # r \<Rightarrow> if c = CHR ''+'' then r else s | [] \<Rightarrow> [])
      in if d \<noteq> [] \<and> list_all is_ascii_digit d \<and> digits_val d < 2 ^ w
         then Some (digits_val d) else None)"

definition parse_u16 :: "string \<Rightarrow> u16 option" where
  "parse_u16 s = map_option of_nat (parse_unsigned 16 s)"

definition parse_u32 :: "string \<Rightarrow> u32 option" where
  "parse_u32 s = map_option of_nat (parse_unsigned 32 s)"

definition parse_u64 :: "string \<Rightarrow> u64 option" where
  "parse_u64 s = map_option of_nat (parse_unsigned 64 s)"

text \<open>\<open>i32::from_str\<close>, the value read as an integer in range.\<close>

definition parse_i32 :: "string \<Rightarrow> int option" where
  "parse_i32 s =
     (case s of
        c # r \<Rightarrow>
          if c = CHR ''-''
          then (if r \<noteq> [] \<and> list_all is_ascii_digit r \<and> digits_val r \<le> 2 ^ 31
                then Some (- int (digits_val r)) else None)
          else map_option int (parse_unsigned 31 s)
      | [] \<Rightarrow> None)"

definition digit_char :: "nat \<Rightarrow> char" where
  "digit_char d = char_of (48 + d)"

fun show_nat :: "nat \<Rightarrow> string" where
  "show_nat n = (if n < 10 then [digit_char n] else show_nat (n div 10) @ [digit_char (n mod 10)])"

declare show_nat.simps [simp del]

definition show_int :: "int \<Rightarrow> string" where
  "show_int i = (if i < 0 then CHR ''-'' # show_nat (nat (- i)) else show_nat (nat i))"

section \<open>Arithmetic at machine width\<close>

definition saturating_sub :: "'a::len word \<Rightarrow> 'a word \<Rightarrow> 'a word" where
  "saturating_sub a b = (if b \<le> a then a - b else 0)"

definition saturating_add :: "'a::len word \<Rightarrow> 'a word \<Rightarrow> 'a word" where
  "saturating_add a b = (if unat a + unat b < 2 ^ LENGTH('a) then a + b else - 1)"

definition saturating_mul :: "'a::len word \<Rightarrow> 'a word \<Rightarrow> 'a word" where
  "saturating_mul a b = (if unat a * unat b < 2 ^ LENGTH('a) then a * b else - 1)"

definition checked_mul_u64 :: "u64 \<Rightarrow> u64 \<Rightarrow> u64 option" where
  "checked_mul_u64 a b = (if unat a * unat b < 2 ^ 64 then Some (a * b) else None)"

definition checked_add_u64 :: "u64 \<Rightarrow> u64 \<Rightarrow> u64 option" where
  "checked_add_u64 a b = (if unat a + unat b < 2 ^ 64 then Some (a + b) else None)"

section \<open>Lemmas\<close>

lemma get_at_Some [simp]: "get_at xs i = Some x \<longleftrightarrow> i < length xs \<and> xs ! i = x"
  by (auto simp: get_at_def)

lemma get_at_None [simp]: "get_at xs i = None \<longleftrightarrow> length xs \<le> i"
  by (auto simp: get_at_def)

lemma get_at_in_set: "get_at xs i = Some x \<Longrightarrow> x \<in> set xs"
  by auto

lemma position_Some_iff:
  "position p xs = Some i \<longleftrightarrow> i < length xs \<and> p (xs ! i) \<and> (\<forall>j < i. \<not> p (xs ! j))"
proof (induction xs arbitrary: i)
  case Nil
  show ?case by simp
next
  case (Cons x xs)
  show ?case
  proof (cases "p x")
    case True
    then show ?thesis by (auto simp: nth_Cons' split: if_splits)
  next
    case False
    then show ?thesis
      by (cases i) (auto simp: Cons.IH less_Suc_eq_0_disj)
  qed
qed

lemma position_None_iff: "position p xs = None \<longleftrightarrow> (\<forall>x \<in> set xs. \<not> p x)"
  by (induction xs) auto

lemma position_takeWhile:
  "position p xs = Some i \<Longrightarrow> take i xs = takeWhile (\<lambda>x. \<not> p x) xs"
  by (induction xs arbitrary: i) (auto split: if_splits)

lemma sum_bind_Inr_iff: "sum_bind r f = Inr b \<longleftrightarrow> (\<exists>a. r = Inr a \<and> f a = Inr b)"
  by (cases r) auto

lemma sum_bind_assoc: "sum_bind (sum_bind r f) g = sum_bind r (\<lambda>a. sum_bind (f a) g)"
  by (cases r) auto

lemma ok_or_simps [simp]: "ok_or e None = Inl e" "ok_or e (Some v) = Inr v"
  by (simp_all add: ok_or_def)

lemma map_of_hm_insert [simp]: "map_of (hm_insert k v m) = (map_of m)(k \<mapsto> v)"
proof
  fix x
  have "map_of (filter (\<lambda>e. fst e \<noteq> k) m) x = map_of m x" if "x \<noteq> k"
    using that by (induction m) auto
  then show "map_of (hm_insert k v m) x = ((map_of m)(k \<mapsto> v)) x"
    by (simp add: hm_insert_def)
qed

lemma distinct_hm_insert [simp]:
  "distinct (map fst m) \<Longrightarrow> distinct (map fst (hm_insert k v m))"
  by (auto simp: hm_insert_def distinct_map_filter)

lemma byte_val_less [simp]: "byte_val c < 256"
  by (metis of_char_mod_256 mod_less_divisor zero_less_numeral)

lemma byte_val_eq_iff [simp]: "byte_val c = byte_val d \<longleftrightarrow> c = d"
  by (rule of_char_eq_iff)

lemma byte_val_char_of: "n < 256 \<Longrightarrow> byte_val (char_of n) = n"
  by (simp add: of_char_of)

lemma to_ascii_lowercase_not_upper [simp]: "\<not> is_ascii_uppercase (to_ascii_lowercase c)"
  by (auto simp: to_ascii_lowercase_def is_ascii_uppercase_def byte_val_char_of)

lemma to_ascii_lowercase_id: "\<not> is_ascii_uppercase c \<Longrightarrow> to_ascii_lowercase c = c"
  by (simp add: to_ascii_lowercase_def)

lemma to_ascii_lowercase_idem [simp]:
  "to_ascii_lowercase (to_ascii_lowercase c) = to_ascii_lowercase c"
  by (simp add: to_ascii_lowercase_id)

lemma to_ascii_lowercase_neq:
  assumes "\<not> is_ascii_lowercase d" "\<not> is_ascii_uppercase d"
  shows "to_ascii_lowercase c = d \<longleftrightarrow> c = d"
proof -
  have "is_ascii_lowercase (char_of (byte_val c + 32))" if "is_ascii_uppercase c"
    using that by (simp add: is_ascii_uppercase_def is_ascii_lowercase_def byte_val_char_of)
  with assms show ?thesis by (auto simp: to_ascii_lowercase_def)
qed

lemma length_lower [simp]: "length (lower s) = length s"
  by (simp add: lower_def)

lemma lower_idem [simp]: "lower (lower s) = lower s"
  by (simp add: lower_def)

lemma lower_append [simp]: "lower (s @ t) = lower s @ lower t"
  by (simp add: lower_def)

lemma lower_Nil [simp]: "lower [] = []"
  by (simp add: lower_def)

lemma lower_eq_Nil [simp]: "lower s = [] \<longleftrightarrow> s = []"
  by (simp add: lower_def)

lemma lower_no_upper: "list_all (\<lambda>c. \<not> is_ascii_uppercase c) (lower s)"
  by (auto simp: lower_def list_all_iff)

lemma lower_id: "list_all (\<lambda>c. \<not> is_ascii_uppercase c) s \<Longrightarrow> lower s = s"
  by (induction s) (auto simp: lower_def to_ascii_lowercase_id)

lemma eq_ignore_ascii_case_refl [simp]: "eq_ignore_ascii_case s s"
  by (simp add: eq_ignore_ascii_case_def)

lemma eq_ignore_ascii_case_sym: "eq_ignore_ascii_case s t \<longleftrightarrow> eq_ignore_ascii_case t s"
  by (auto simp: eq_ignore_ascii_case_def)

lemma eq_ignore_ascii_case_trans:
  "eq_ignore_ascii_case s t \<Longrightarrow> eq_ignore_ascii_case t u \<Longrightarrow> eq_ignore_ascii_case s u"
  by (simp add: eq_ignore_ascii_case_def)

lemma split_once_Some_iff:
  "split_once c s = Some (a, b) \<longleftrightarrow> s = a @ c # b \<and> c \<notin> set a"
proof (induction s arbitrary: a)
  case Nil
  show ?case by simp
next
  case (Cons x xs)
  show ?case
  proof (cases "x = c")
    case True
    then show ?thesis by (cases a) auto
  next
    case False
    then show ?thesis using Cons.IH by (cases a) auto
  qed
qed

lemma split_once_None_iff: "split_once c s = None \<longleftrightarrow> c \<notin> set s"
  by (induction s) auto

lemma rsplit_once_Some_iff:
  "rsplit_once c s = Some (a, b) \<longleftrightarrow> s = a @ c # b \<and> c \<notin> set b"
proof -
  have "rsplit_once c s = Some (a, b) \<longleftrightarrow> split_once c (rev s) = Some (rev b, rev a)"
    by (auto simp: rsplit_once_def)
  also have "\<dots> \<longleftrightarrow> rev s = rev b @ c # rev a \<and> c \<notin> set b"
    by (simp add: split_once_Some_iff)
  also have "rev s = rev b @ c # rev a \<longleftrightarrow> s = a @ c # b"
    by (metis append.assoc append_Cons append_Nil rev.simps(2) rev_append rev_rev_ident)
  finally show ?thesis .
qed

lemma split_on_not_Nil [simp]: "split_on c s \<noteq> []"
  by (induction s) (auto split: list.splits)

lemma split_on_parts: "p \<in> set (split_on c s) \<Longrightarrow> c \<notin> set p"
  by (induction s arbitrary: p) (auto split: if_splits list.splits)

lemma split_on_no_sep: "c \<notin> set s \<Longrightarrow> split_on c s = [s]"
  by (induction s) auto

lemma split_on_append:
  "c \<notin> set a \<Longrightarrow> split_on c (a @ c # b) = a # split_on c b"
  by (induction a) auto

lemma strip_prefix_Some_iff: "strip_prefix p s = Some r \<longleftrightarrow> s = p @ r"
  by (auto simp: strip_prefix_def)
     (metis append_take_drop_id)

lemma starts_with_iff: "starts_with p s \<longleftrightarrow> (\<exists>r. s = p @ r)"
  by (auto simp: starts_with_def) (metis append_take_drop_id)

lemma trim_end_matches_last: "trim_end_matches c s \<noteq> [] \<Longrightarrow> last (trim_end_matches c s) \<noteq> c"
  using hd_dropWhile[of "\<lambda>x. x = c" "rev s"]
  by (simp add: trim_end_matches_def last_rev del: dropWhile_eq_Nil_conv)

lemma trim_end_matches_append:
  "\<exists>n. s = trim_end_matches c s @ replicate n c"
proof -
  have "rev s = takeWhile (\<lambda>x. x = c) (rev s) @ dropWhile (\<lambda>x. x = c) (rev s)"
    by simp
  moreover have "takeWhile (\<lambda>x. x = c) (rev s) =
      replicate (length (takeWhile (\<lambda>x. x = c) (rev s))) c"
    by (rule replicate_length_same [symmetric]) (auto dest: set_takeWhileD)
  ultimately show ?thesis
    unfolding trim_end_matches_def
    by (metis rev_append rev_replicate rev_rev_ident)
qed

lemma trim_end_matches_id: "s = [] \<or> last s \<noteq> c \<Longrightarrow> trim_end_matches c s = s"
  by (cases "rev s") (auto simp: trim_end_matches_def last_rev [symmetric] hd_rev)

lemma trim_end_matches_idem [simp]:
  "trim_end_matches c (trim_end_matches c s) = trim_end_matches c s"
  by (metis trim_end_matches_id trim_end_matches_last)

lemma utf8_lead_ranges: "utf8_lead a = Some ps \<Longrightarrow> p \<in> set ps \<Longrightarrow> 128 \<le> fst p \<and> snd p \<le> 191"
  by (auto simp: utf8_lead_def split: if_splits)

lemma utf8_lead_ascii [simp]: "a < 128 \<Longrightarrow> utf8_lead a = Some []"
  by (simp add: utf8_lead_def)

lemma utf8_run_append_ascii:
  assumes "utf8_run ps (xs @ a # ys)" "a < 128" "\<forall>p \<in> set ps. 128 \<le> fst p"
  shows "utf8_run ps xs \<and> utf8_run [] ys"
  using assms
proof (induction ps xs rule: utf8_run.induct)
  case (3 x r)
  then show ?case by (auto split: option.splits dest: utf8_lead_ranges)
qed auto

lemma utf8_run_snoc_ascii: "utf8_run ps xs \<Longrightarrow> a < 128 \<Longrightarrow> utf8_run ps (xs @ [a])"
  by (induction ps xs rule: utf8_run.induct) (auto split: option.splits)

lemma utf8_bytes_append_ascii:
  "utf8_bytes (xs @ a # ys) \<Longrightarrow> a < 128 \<Longrightarrow> utf8_bytes xs \<and> utf8_bytes ys"
  unfolding utf8_bytes_def by (rule utf8_run_append_ascii) auto

lemma utf8_bytes_hd: "utf8_bytes (b # ys) \<Longrightarrow> \<not> cont_byte b"
  by (auto simp: utf8_bytes_def utf8_lead_def split: if_splits)

lemma to_ascii_lowercase_byte:
  "byte_val (to_ascii_lowercase c) =
     (if 65 \<le> byte_val c \<and> byte_val c \<le> 90 then byte_val c + 32 else byte_val c)"
  by (simp add: to_ascii_lowercase_def is_ascii_uppercase_def byte_val_char_of)

lemma utf8_bytes_lower:
  "utf8_bytes (map byte_val s) \<Longrightarrow> utf8_bytes (map byte_val (lower s))"
proof -
  define f :: "nat \<Rightarrow> nat" where "f a = (if 65 \<le> a \<and> a \<le> 90 then a + 32 else a)" for a
  have lead: "utf8_lead (f x) = utf8_lead x" for x
    by (simp add: f_def utf8_lead_def)
  have "utf8_run ps bs \<Longrightarrow> \<forall>p \<in> set ps. 128 \<le> fst p \<Longrightarrow> utf8_run ps (map f bs)" for ps bs
  proof (induction ps bs rule: utf8_run.induct)
    case (3 x r)
    then show ?case by (auto simp: lead split: option.splits dest: utf8_lead_ranges)
  next
    case (4 p ps b r)
    then have "f b = b" by (auto simp: f_def)
    with 4 show ?case by auto
  qed auto
  then have "utf8_bytes bs \<Longrightarrow> utf8_bytes (map f bs)" for bs
    by (simp add: utf8_bytes_def)
  moreover have "map byte_val (lower s) = map f (map byte_val s)"
    by (simp add: lower_def f_def to_ascii_lowercase_byte)
  ultimately show "utf8_bytes (map byte_val s) \<Longrightarrow> utf8_bytes (map byte_val (lower s))"
    by metis
qed

lemma utf8_take_before_ascii:
  assumes "utf8_bytes (map byte_val s)" "i < length s" "byte_val (s ! i) < 128"
  shows "utf8_bytes (map byte_val (take i s))" and "is_char_boundary s i"
    and "utf8_bytes (map byte_val (take (Suc i) s))" and "is_char_boundary s (Suc i)"
proof -
  have split: "map byte_val s =
      map byte_val (take i s) @ byte_val (s ! i) # map byte_val (drop (Suc i) s)"
    using assms(2) by (metis id_take_nth_drop list.simps(9) map_append)
  from utf8_bytes_append_ascii[of "map byte_val (take i s)"] assms(1,3) split
  have pre: "utf8_bytes (map byte_val (take i s))"
    and suf: "utf8_bytes (map byte_val (drop (Suc i) s))" by auto
  show "utf8_bytes (map byte_val (take i s))" by (rule pre)
  show "is_char_boundary s i"
    using assms(2,3) by (simp add: is_char_boundary_def)
  show "is_char_boundary s (Suc i)"
  proof (cases "Suc i < length s")
    case True
    then have "drop (Suc i) s = s ! Suc i # drop (Suc (Suc i)) s"
      by (rule Cons_nth_drop_Suc [symmetric])
    with suf utf8_bytes_hd[of "byte_val (s ! Suc i)"] True show ?thesis
      by (simp add: is_char_boundary_def)
  next
    case False
    with assms(2) show ?thesis by (simp add: is_char_boundary_def)
  qed
  have app: "utf8_bytes (xs @ [a])" if "utf8_bytes xs" "a < 128" for xs a
    using that by (simp add: utf8_bytes_def utf8_run_snoc_ascii)
  show "utf8_bytes (map byte_val (take (Suc i) s))"
    using app[OF pre assms(3)] assms(2) by (simp add: take_Suc_conv_app_nth)
qed

lemma digit_char_digit: "d < 10 \<Longrightarrow> is_ascii_digit (digit_char d)"
  by (simp add: digit_char_def is_ascii_digit_def byte_val_char_of)

lemma digit_val_digit_char: "d < 10 \<Longrightarrow> digit_val (digit_char d) = d"
  by (simp add: digit_char_def digit_val_def byte_val_char_of)

lemma show_nat_not_Nil [simp]: "show_nat n \<noteq> []"
  by (subst show_nat.simps) simp

lemma show_nat_digits: "list_all is_ascii_digit (show_nat n)"
proof (induction n rule: show_nat.induct)
  case (1 n)
  then show ?case
    by (subst show_nat.simps) (auto simp: digit_char_digit)
qed

lemma digits_val_snoc: "digits_val (s @ [c]) = 10 * digits_val s + digit_val c"
  by (simp add: digits_val_def)

lemma digits_val_show_nat [simp]: "digits_val (show_nat n) = n"
proof (induction n rule: show_nat.induct)
  case (1 n)
  show ?case
  proof (cases "n < 10")
    case True
    then show ?thesis
      by (subst show_nat.simps) (simp add: digits_val_def digit_val_digit_char)
  next
    case False
    with 1 show ?thesis
      by (subst show_nat.simps) (simp add: digits_val_snoc digit_val_digit_char)
  qed
qed

lemma show_nat_inject [simp]: "show_nat m = show_nat n \<longleftrightarrow> m = n"
  by (metis digits_val_show_nat)

lemma digit_not_plus: "is_ascii_digit c \<Longrightarrow> c \<noteq> CHR ''+'' \<and> c \<noteq> CHR ''-''"
  by (auto simp: is_ascii_digit_def)

lemma parse_unsigned_show_nat: "n < 2 ^ w \<Longrightarrow> parse_unsigned w (show_nat n) = Some n"
  using show_nat_digits[of n] show_nat_not_Nil[of n]
  by (cases "show_nat n") (auto simp: parse_unsigned_def Let_def dest: digit_not_plus,
      (metis digits_val_show_nat)+)

lemma parse_unsigned_bound: "parse_unsigned w s = Some n \<Longrightarrow> n < 2 ^ w"
  by (auto simp: parse_unsigned_def Let_def split: if_splits)

lemma parse_u64_unat:
  assumes "parse_u64 s = Some v"
  shows "parse_unsigned 64 s = Some (unat v)"
proof -
  from assms obtain n where n: "parse_unsigned 64 s = Some n" "v = of_nat n"
    by (auto simp: parse_u64_def)
  with parse_unsigned_bound[OF n(1)] show ?thesis
    by (simp add: unat_of_nat take_bit_nat_eq_self)
qed

lemma unat_saturating_sub: "unat (saturating_sub a b) = unat a - unat b"
  by (auto simp: saturating_sub_def unat_sub word_le_nat_alt)

lemma unat_saturating_add:
  fixes a b :: "'a::len word"
  shows "unat (saturating_add a b) = min (unat a + unat b) (2 ^ LENGTH('a) - 1)"
  by (auto simp: saturating_add_def unat_add_lem [THEN iffD1] unsigned_minus_1_eq_mask mask_eq_exp_minus_1)

lemma card_word_less: "card {r :: 'a::len word. r < w} = unat w"
proof -
  have small: "unat (of_nat n :: 'a word) = n" if "n < unat w" for n
    using less_trans[OF that unsigned_less[of w]] by (simp add: unat_of_nat take_bit_nat_eq_self)
  have "{r :: 'a word. r < w} = of_nat ` {..<unat w}"
  proof (intro equalityI subsetI)
    fix r :: "'a word"
    assume "r \<in> {r. r < w}"
    then have "unat r \<in> {..<unat w}" by (simp add: word_less_nat_alt)
    then have "of_nat (unat r) \<in> (of_nat :: nat \<Rightarrow> 'a word) ` {..<unat w}" by (rule imageI)
    then show "r \<in> of_nat ` {..<unat w}" by simp
  next
    fix r :: "'a word"
    assume "r \<in> of_nat ` {..<unat w}"
    then obtain n where n: "n < unat w" "r = of_nat n" by auto
    then have "unat r = n" by (simp add: small)
    with n show "r \<in> {r. r < w}" by (simp add: word_less_nat_alt)
  qed
  moreover have "inj_on (of_nat :: nat \<Rightarrow> 'a word) {..<unat w}"
    by (rule inj_onI) (metis lessThan_iff small)
  ultimately show ?thesis by (simp add: card_image)
qed

lemma checked_mul_u64_Some: "checked_mul_u64 a b = Some c \<Longrightarrow> unat c = unat a * unat b"
  by (auto simp: checked_mul_u64_def unat_mult_lem [THEN iffD1] split: if_splits)

lemma checked_add_u64_Some: "checked_add_u64 a b = Some c \<Longrightarrow> unat c = unat a + unat b"
  by (auto simp: checked_add_u64_def unat_add_lem [THEN iffD1] split: if_splits)

lemmas ascii_defs = is_ascii_uppercase_def is_ascii_lowercase_def is_ascii_digit_def
  is_ascii_alphanumeric_def to_ascii_lowercase_def

end
