(* ===== verification/Host.thy ===== *)
theory Host
  imports Prelude
begin

text \<open>
  \<open>crates/ramjet-router/src/host.rs\<close>: normalisation of a \<open>Host\<close> header (or an SNI name)
  into a lookup key, and the parent domain used for wildcard lookups. \<open>scan\<close> is the code's
  single pass: it finds the cut (closing bracket, first colon or the end), drops one
  trailing dot, and classifies the name. \<open>FxHasher\<close> is modelled as the function from the
  bytes written to the 64-bit state; a \<open>HashMap\<close> does not depend on it and is modelled by
  its contents.
\<close>

section \<open>Definitions\<close>

definition MAX_HOST_LEN :: nat where
  "MAX_HOST_LEN = 253"

datatype scan_result = Clean string | Fold string | Invalid

text \<open>The loop of \<open>scan\<close> over an unbracketed host: the cut and the uppercase flag.\<close>

fun scan_colon :: "string \<Rightarrow> nat \<Rightarrow> bool \<Rightarrow> nat \<times> bool" where
  "scan_colon [] i upper = (i, upper)"
| "scan_colon (b # bs) i upper =
     (if b = CHR '':'' then (i, upper)
      else scan_colon bs (i + 1) (upper \<or> is_ascii_uppercase b))"

text \<open>The cut before the root dot is considered; \<open>None\<close> is the unclosed bracket.\<close>

definition scan_cut :: "string \<Rightarrow> (nat \<times> bool) option" where
  "scan_cut host =
     (if get_at host 0 = Some (CHR ''['')
      then (case position (\<lambda>b. b = CHR '']'') host of
              Some close \<Rightarrow> Some (close + 1, list_ex is_ascii_uppercase (take (close + 1) host))
            | None \<Rightarrow> None)
      else Some (scan_colon host 0 False))"

definition scan :: "string \<Rightarrow> scan_result" where
  "scan host =
     (case scan_cut host of
        None \<Rightarrow> Invalid
      | Some (stop, upper) \<Rightarrow>
          (let end = (if stop > 1 \<and> get_at host (stop - 1) = Some (CHR ''.'') then stop - 1 else stop)
           in if end = 0 \<or> end > MAX_HOST_LEN then Invalid
              else case str_prefix host end of
                     Some trimmed \<Rightarrow> if upper then Fold trimmed else Clean trimmed
                   | None \<Rightarrow> Invalid))"

definition fold_lower :: "string \<Rightarrow> string option" where
  "fold_lower host =
     (if length host \<le> MAX_HOST_LEN then from_utf8 (map to_ascii_lowercase host) else None)"

definition parent_domain :: "string \<Rightarrow> string option" where
  "parent_domain host =
     (case split_once (CHR ''.'') host of
        None \<Rightarrow> None
      | Some (label, parent) \<Rightarrow> if label = [] \<or> parent = [] then None else Some parent)"

text \<open>
  What both lookups do with a scan: \<open>RouteTable::match_request\<close> and \<open>SniMap::resolve\<close>
  use the clean name, or its folded copy, as the key, and nothing when there is none.
\<close>

definition lookup_key :: "string \<Rightarrow> string option" where
  "lookup_key host =
     (case scan host of Clean h \<Rightarrow> Some h | Fold raw \<Rightarrow> fold_lower raw | Invalid \<Rightarrow> None)"

section \<open>The hasher\<close>

unbundle bit_operations_syntax

definition FX_SEED :: u64 where
  "FX_SEED = 0x517cc1b727220a95"

definition fx_add :: "u64 \<Rightarrow> u64 \<Rightarrow> u64" where
  "fx_add hash w = (word_rotl 5 hash XOR w) * FX_SEED"

text \<open>\<open>u64::from_ne_bytes\<close> on a little-endian target.\<close>

definition from_ne_bytes :: "string \<Rightarrow> u64" where
  "from_ne_bytes bs = of_nat (foldr (\<lambda>b n. byte_val b + 256 * n) bs 0)"

fun fx_tail :: "u64 \<Rightarrow> string \<Rightarrow> u64" where
  "fx_tail t [] = t"
| "fx_tail t (b # bs) = fx_tail (push_bit 8 t OR of_nat (byte_val b)) bs"

fun fx_write :: "u64 \<Rightarrow> string \<Rightarrow> u64" where
  "fx_write hash bs =
     (if 8 \<le> length bs then fx_write (fx_add hash (from_ne_bytes (take 8 bs))) (drop 8 bs)
      else fx_add hash (fx_tail 0 bs))"

declare fx_write.simps [simp del]

section \<open>The cut\<close>

text \<open>Reference description of the cut: what \<open>scan\<close> trims the host to, before its checks.\<close>

definition host_cut :: "string \<Rightarrow> string" where
  "host_cut host = takeWhile (\<lambda>b. b \<noteq> CHR '':'') host"

definition drop_root_dot :: "string \<Rightarrow> string" where
  "drop_root_dot s = (if 1 < length s \<and> last s = CHR ''.'' then butlast s else s)"

lemma scan_colon_eq:
  "scan_colon bs i u =
     (i + length (host_cut bs), u \<or> list_ex is_ascii_uppercase (host_cut bs))"
  by (induction bs i u rule: scan_colon.induct) (auto simp: host_cut_def)

text \<open>
  The bytes kept by the first cut: a bracketed literal up to its first closing bracket, or
  everything before the first colon.
\<close>

definition authority_name :: "string \<Rightarrow> string option" where
  "authority_name host =
     (if get_at host 0 = Some (CHR ''['')
      then map_option (\<lambda>close. take (close + 1) host) (position (\<lambda>b. b = CHR '']'') host)
      else Some (host_cut host))"

lemma host_cut_take: "host_cut host = take (length (host_cut host)) host"
  unfolding host_cut_def by (rule takeWhile_eq_take)

lemma scan_cut_eq:
  "scan_cut host =
     map_option (\<lambda>n. (length n, list_ex is_ascii_uppercase n)) (authority_name host)"
proof (cases "get_at host 0 = Some (CHR ''['')")
  case True
  note br = True
  show ?thesis
  proof (cases "position (\<lambda>b. b = CHR '']'') host")
    case None
    then show ?thesis by (simp only: scan_cut_def authority_name_def br if_True option.simps HOL.simp_thms)
  next
    case (Some i)
    then have "Suc i \<le> length host" by (simp add: position_Some_iff)
    then have "length (take (i + 1) host) = i + 1" by simp
    then show ?thesis
      by (simp only: scan_cut_def authority_name_def br if_True option.simps HOL.simp_thms Some prod.case)
  qed
next
  case False
  then have "scan_cut host = Some (scan_colon host 0 False)"
    and "authority_name host = Some (host_cut host)"
    by (simp_all only: scan_cut_def authority_name_def if_False)
  then show ?thesis by (simp add: scan_colon_eq)
qed

lemma authority_name_prefix:
  assumes "authority_name host = Some n"
  shows "take (length n) host = n" "length n \<le> length host"
proof -
  have *: "\<exists>k. n = take k host"
    using assms host_cut_take[of host] unfolding authority_name_def by (auto split: if_splits)
  then show "take (length n) host = n" by (auto simp: min_def)
  from * show "length n \<le> length host" by auto
qed

lemma authority_name_boundary:
  assumes "utf8_bytes (map byte_val host)" "authority_name host = Some n"
  shows "utf8_bytes (map byte_val n) \<and> is_char_boundary host (length n)"
proof (cases "get_at host 0 = Some (CHR ''['')")
  case True
  with assms(2) obtain i where i: "position (\<lambda>b. b = CHR '']'') host = Some i"
    "n = take (Suc i) host"
    by (auto simp: authority_name_def simp del: get_at_Some)
  then have "i < length host" "host ! i = CHR '']''" by (simp_all add: position_Some_iff)
  moreover from this i(2) have "length n = Suc i" by simp
  ultimately show ?thesis using utf8_take_before_ascii(3,4)[OF assms(1), of i] i(2) by simp
next
  case False
  with assms(2) have n: "n = takeWhile (\<lambda>b. b \<noteq> CHR '':'') host"
    by (simp add: authority_name_def host_cut_def del: get_at_Some)
  show ?thesis
  proof (cases "length n < length host")
    case True
    with n have "host ! length n = CHR '':''"
      using nth_length_takeWhile[of "\<lambda>b. b \<noteq> CHR '':''" host] by simp
    with utf8_take_before_ascii(1,2)[OF assms(1) True] show ?thesis
      using n by (simp add: takeWhile_eq_take[of _ host, symmetric])
  next
    case False
    with n have "n = host"
      by (metis length_takeWhile_le nat_less_le takeWhile_eq_take take_all)
    with assms(1) show ?thesis by (simp add: is_char_boundary_def)
  qed
qed

text \<open>
  On a valid \<open>str\<close> the final \<open>get(..end)\<close> never fails, so \<open>scan\<close> is: cut, drop one root
  dot, check the length, classify.
\<close>

lemma scan_eq:
  assumes "utf8_bytes (map byte_val host)"
  shows "scan host =
     (case authority_name host of
        None \<Rightarrow> Invalid
      | Some n \<Rightarrow>
          (let t = drop_root_dot n
           in if t = [] \<or> length t > MAX_HOST_LEN then Invalid
              else if list_ex is_ascii_uppercase t then Fold t else Clean t))"
proof (cases "authority_name host")
  case None
  then show ?thesis by (simp add: scan_def scan_cut_eq)
next
  case (Some n)
  note pre = authority_name_prefix[OF Some] and bnd = authority_name_boundary[OF assms Some]
  have last: "get_at host (length n - 1) = Some (CHR ''.'') \<longleftrightarrow> last n = CHR ''.''"
    if "1 < length n"
  proof -
    from that pre have "last n = host ! (length n - 1)"
      by (metis last_conv_nth length_0_conv less_not_refl2 nth_take diff_less less_one
          zero_less_diff not_one_less_zero gr_zeroI)
    with that pre(2) show ?thesis by auto
  qed
  show ?thesis
  proof (cases "1 < length n \<and> last n = CHR ''.''")
    case True
    have t: "drop_root_dot n = take (length n - 1) host"
      using True pre by (metis butlast_conv_take drop_root_dot_def min_def take_take diff_le_self)
    from True have "n \<noteq> []" by auto
    with True have "n ! (length n - 1) = CHR ''.''" by (simp add: last_conv_nth)
    then have dot: "host ! (length n - 1) = CHR ''.''"
      using pre True by (metis nth_take diff_less less_trans zero_less_one)
    have "is_char_boundary host (length n - 1)"
      using utf8_take_before_ascii(2)[OF assms, of "length n - 1"] dot pre(2) True by force
    moreover have "length (take (length n - 1) host) = length n - 1" using pre(2) by simp
    moreover have "n = take (length n - 1) host @ [CHR ''.'']"
      using True t unfolding drop_root_dot_def
      by (metis append_butlast_last_id length_0_conv not_one_less_zero)
    then have "list_ex is_ascii_uppercase n = list_ex is_ascii_uppercase (take (length n - 1) host @ [CHR ''.''])"
      by simp
    then have "list_ex is_ascii_uppercase n = list_ex is_ascii_uppercase (take (length n - 1) host)"
      by (simp add: is_ascii_uppercase_def)
    moreover have "host \<noteq> []" using True pre(2) by auto
    ultimately show ?thesis
      using True Some last t by (simp add: scan_def scan_cut_eq str_prefix_def Let_def)
  next
    case False
    then have "drop_root_dot n = n" by (auto simp: drop_root_dot_def)
    moreover have "(if 1 < length n \<and> get_at host (length n - 1) = Some (CHR ''.'')
        then length n - 1 else length n) = length n"
      using False last by auto
    ultimately show ?thesis
      using Some bnd pre by (simp add: scan_def scan_cut_eq str_prefix_def Let_def)
  qed
qed

section \<open>The lookup key\<close>

lemma nat_of_char_dot: "byte_val (CHR ''.'') = 46"
  by simp

lemma drop_root_dot_suffix: "n = drop_root_dot n \<or> n = drop_root_dot n @ [CHR ''.'']"
proof (cases "1 < length n \<and> last n = CHR ''.''")
  case True
  then have "n \<noteq> []" by auto
  with True append_butlast_last_id[of n] show ?thesis by (simp add: drop_root_dot_def)
qed (auto simp: drop_root_dot_def)

lemma utf8_drop_root_dot:
  assumes "utf8_bytes (map byte_val host)" "authority_name host = Some n"
  shows "utf8_bytes (map byte_val (drop_root_dot n))"
proof (cases "n = drop_root_dot n")
  case True
  with authority_name_boundary[OF assms] show ?thesis by simp
next
  case False
  with drop_root_dot_suffix[of n]
  have "map byte_val n = map byte_val (drop_root_dot n) @ [46]"
    by (metis (no_types, lifting) list.simps(8,9) map_append nat_of_char_dot)
  with authority_name_boundary[OF assms] show ?thesis
    using utf8_bytes_append_ascii[of _ 46 "[]"] by simp
qed

lemma lower_drop_root_dot: "lower (drop_root_dot n) = drop_root_dot (lower n)"
proof -
  have "to_ascii_lowercase (last n) = CHR ''.'' \<longleftrightarrow> last n = CHR ''.''"
    by (rule to_ascii_lowercase_neq) (simp_all add: ascii_defs)
  then show ?thesis
    by (cases "n = []") (simp_all add: drop_root_dot_def lower_def last_map map_butlast)
qed

lemma lookup_key_eq:
  assumes "utf8_bytes (map byte_val host)"
  shows "lookup_key host =
     (case authority_name host of
        None \<Rightarrow> None
      | Some n \<Rightarrow>
          (let t = drop_root_dot n
           in if t = [] \<or> length t > MAX_HOST_LEN then None else Some (lower t)))"
proof (cases "authority_name host")
  case None
  then show ?thesis by (simp add: lookup_key_def scan_eq[OF assms])
next
  case (Some n)
  have u: "from_utf8 (map to_ascii_lowercase (drop_root_dot n)) = Some (lower (drop_root_dot n))"
    using utf8_bytes_lower[OF utf8_drop_root_dot[OF assms Some]]
    by (simp add: from_utf8_def lower_def)
  have c: "lower (drop_root_dot n) = drop_root_dot n"
    if "\<not> list_ex is_ascii_uppercase (drop_root_dot n)"
    using that by (intro lower_id) (auto simp: list_all_iff list_ex_iff)
  show ?thesis
    using Some u c by (simp add: lookup_key_def scan_eq[OF assms] Let_def fold_lower_def)
qed

lemma lookup_key_utf8:
  assumes "utf8_bytes (map byte_val host)" "lookup_key host = Some k"
  obtains n where "authority_name host = Some n" "k = lower (drop_root_dot n)"
    "drop_root_dot n \<noteq> []" "length k \<le> MAX_HOST_LEN"
  using assms(2) that
  by (auto simp: lookup_key_eq[OF assms(1)] Let_def split: option.splits if_splits)

lemma position_lower:
  assumes "\<not> is_ascii_lowercase d" "\<not> is_ascii_uppercase d"
  shows "position (\<lambda>b. b = d) (lower s) = position (\<lambda>b. b = d) s"
  using assms by (induction s) (auto simp: lower_def to_ascii_lowercase_neq)

lemma authority_name_lower: "authority_name (lower host) = map_option lower (authority_name host)"
proof -
  have br: "get_at (lower host) 0 = Some (CHR ''['') \<longleftrightarrow> get_at host 0 = Some (CHR ''['')"
    by (cases host) (auto simp: lower_def to_ascii_lowercase_neq ascii_defs(1-3))
  have pos: "position (\<lambda>b. b = CHR '']'') (lower host) = position (\<lambda>b. b = CHR '']'') host"
    by (rule position_lower) (simp_all add: ascii_defs)
  have cut': "host_cut (lower host) = lower (host_cut host)"
    by (simp add: host_cut_def lower_def takeWhile_map o_def to_ascii_lowercase_neq ascii_defs(1-3))
  show ?thesis
    unfolding authority_name_def br pos cut'
    by (simp add: option.map_comp o_def lower_def take_map del: get_at_Some)
qed

lemma lookup_key_lower:
  assumes "utf8_bytes (map byte_val host)"
  shows "lookup_key (lower host) = lookup_key host"
  by (simp add: lookup_key_eq[OF assms] lookup_key_eq[OF utf8_bytes_lower[OF assms]]
      authority_name_lower lower_drop_root_dot [symmetric] Let_def split: option.splits)

text \<open>
  Host names are compared case-insensitively: two \<open>Host\<close> values that differ only in
  ASCII case give the same lookup key, so they reach the same virtual host and certificate.
\<close>

theorem lookup_key_case_insensitive:
  assumes "utf8_bytes (map byte_val h)" "utf8_bytes (map byte_val h')"
    and "eq_ignore_ascii_case h h'"
  shows "lookup_key h = lookup_key h'"
  using assms by (metis lookup_key_lower eq_ignore_ascii_case_def)

theorem lookup_key_case_insensitive_witness:
  "lookup_key ''Shop.Example.COM:443'' = lookup_key ''shop.example.com:443''"
  by (rule lookup_key_case_insensitive)
     code_simp+

lemma authority_name_unbracketed:
  assumes "hd name \<noteq> CHR ''[''" "CHR '':'' \<notin> set name" "name \<noteq> []"
    and "rest = [] \<or> hd rest = CHR '':''"
  shows "authority_name (name @ rest) = Some name"
proof -
  have "host_cut (name @ rest) = name"
    using assms(2,4) unfolding host_cut_def
    by (subst takeWhile_append2) (auto simp: neq_Nil_conv takeWhile_eq_Nil_iff)
  with assms show ?thesis
    by (cases name) (simp_all add: authority_name_def)
qed

text \<open>
  The port and the root dot are not part of the name: for a non-empty name without
  colon or trailing dot that is not a bracketed literal, adding a root dot, a port or both
  gives the key of the bare name.
\<close>

theorem lookup_key_port_and_root_dot:
  assumes "utf8_bytes (map byte_val (name @ rest))"
    and "name \<noteq> []" "CHR '':'' \<notin> set name" "hd name \<noteq> CHR ''[''" "last name \<noteq> CHR ''.''"
    and "rest \<in> {[CHR ''.''], CHR '':'' # port, CHR ''.'' # CHR '':'' # port}"
  shows "lookup_key (name @ rest) = lookup_key name"
proof -
  obtain n r where split: "name @ rest = n @ r" "n \<in> {name, name @ [CHR ''.'']}"
    "r = [] \<or> hd r = CHR '':''"
    using assms(6) by (metis (no_types, opaque_lifting) append.assoc append_Cons append_Nil
        append_Nil2 insert_iff list.sel(1) singletonD)
  have a: "authority_name (name @ rest) = Some n"
    unfolding split(1) using assms split by (intro authority_name_unbracketed) auto
  have name: "authority_name name = Some name"
    using authority_name_unbracketed[of name "[]"] assms by simp
  obtain a' where a': "rest = [] \<or> rest = CHR ''.'' # a' \<or> rest = CHR '':'' # a'"
    using assms(6) by auto
  have u: "utf8_bytes (map byte_val name)"
    using utf8_bytes_append_ascii[of "map byte_val name" "byte_val (hd rest)" "map byte_val a'"]
      assms(1,6) a' by auto
  have "drop_root_dot n = name" "drop_root_dot name = name"
    using split(2) assms(2,5) by (auto simp: drop_root_dot_def)
  with a name show ?thesis
    by (simp add: lookup_key_eq[OF assms(1)] lookup_key_eq[OF u] Let_def)
qed

theorem lookup_key_port_and_root_dot_witness:
  "lookup_key (''shop.example.com'' @ ''.:8443'') = lookup_key ''shop.example.com''"
  by (rule lookup_key_port_and_root_dot[where port = "''8443''"])
     (simp_all add: utf8_bytes_def)

text \<open>
  Every lookup key is canonical: ASCII-lowercase, between 1 and 253 bytes, valid UTF-8,
  and free of a colon unless the host is a bracketed literal.
\<close>

theorem lookup_key_canonical:
  assumes "utf8_bytes (map byte_val host)" "lookup_key host = Some k"
  shows "lower k = k \<and> k \<noteq> [] \<and> length k \<le> 253 \<and> utf8_bytes (map byte_val k)
         \<and> (hd host \<noteq> CHR ''['' \<longrightarrow> CHR '':'' \<notin> set k)"
proof -
  obtain n where n: "authority_name host = Some n" "k = lower (drop_root_dot n)"
    "drop_root_dot n \<noteq> []" "length k \<le> MAX_HOST_LEN"
    using lookup_key_utf8[OF assms] by blast
  have u: "utf8_bytes (map byte_val k)"
    using utf8_drop_root_dot[OF assms(1) n(1)] n(2) utf8_bytes_lower by simp
  have colon: "to_ascii_lowercase x = CHR '':'' \<longleftrightarrow> x = CHR '':''" for x
    by (rule to_ascii_lowercase_neq) (simp_all add: ascii_defs)
  have "CHR '':'' \<notin> set k" if "hd host \<noteq> CHR ''[''"
  proof -
    from that n(1) have "n = host_cut host \<or> host = []"
      by (cases host) (auto simp: authority_name_def)
    then have "CHR '':'' \<notin> set n"
      using n(1) by (auto simp: host_cut_def authority_name_def dest: set_takeWhileD)
    then have "CHR '':'' \<notin> set (drop_root_dot n)"
      by (auto simp: drop_root_dot_def dest: in_set_butlastD)
    then show ?thesis
      using n(2) colon by (simp add: lower_def image_iff eq_commute[of "CHR '':''"])
  qed
  with u n(2-4) show ?thesis by (simp add: MAX_HOST_LEN_def)
qed

theorem lookup_key_canonical_witness:
  "lookup_key ''[2001:DB8::1]:8080'' = Some ''[2001:db8::1]''
   \<and> lower ''[2001:db8::1]'' = ''[2001:db8::1]''"
  using lookup_key_canonical[of "''[2001:DB8::1]:8080''" "''[2001:db8::1]''"]
  by code_simp

lemma parent_domain_label:
  assumes "label \<noteq> []" "CHR ''.'' \<notin> set label" "parent \<noteq> []"
  shows "parent_domain (label @ CHR ''.'' # parent) = Some parent"
proof -
  have "split_once (CHR ''.'') (label @ CHR ''.'' # parent) = Some (label, parent)"
    using assms(2) by (simp add: split_once_Some_iff)
  with assms show ?thesis by (simp add: parent_domain_def)
qed

text \<open>
  \<open>parent_domain\<close> cuts exactly one left-most label: it returns \<open>p\<close> precisely when the
  host is a non-empty dot-free label, a dot and the non-empty \<open>p\<close>.
\<close>

theorem parent_domain_iff:
  "parent_domain host = Some p \<longleftrightarrow>
     p \<noteq> [] \<and> (\<exists>label. label \<noteq> [] \<and> CHR ''.'' \<notin> set label \<and> host = label @ CHR ''.'' # p)"
proof (cases "split_once (CHR ''.'') host")
  case None
  then have "CHR ''.'' \<notin> set host" by (simp add: split_once_None_iff)
  with None show ?thesis by (auto simp: parent_domain_def)
next
  case (Some lp)
  obtain l q where lp: "lp = (l, q)" by (cases lp)
  then have host: "host = l @ CHR ''.'' # q" "CHR ''.'' \<notin> set l"
    using Some by (simp_all add: split_once_Some_iff)
  have uniq: "label = l \<and> p = q"
    if "host = label @ CHR ''.'' # p" "CHR ''.'' \<notin> set label" for label
    using that Some lp split_once_Some_iff[of "CHR ''.''" host label p] by simp
  have pd: "parent_domain host = (if l = [] \<or> q = [] then None else Some q)"
    by (simp add: parent_domain_def Some lp)
  show ?thesis
  proof
    assume "parent_domain host = Some p"
    then have "l \<noteq> []" "q \<noteq> []" "p = q" by (simp_all add: pd split: if_splits)
    with host show "p \<noteq> [] \<and> (\<exists>label. label \<noteq> [] \<and> CHR ''.'' \<notin> set label \<and> host = label @ CHR ''.'' # p)"
      by blast
  next
    assume "p \<noteq> [] \<and> (\<exists>label. label \<noteq> [] \<and> CHR ''.'' \<notin> set label \<and> host = label @ CHR ''.'' # p)"
    then have "l \<noteq> []" "p \<noteq> []" "p = q" using uniq by blast+
    then show "parent_domain host = Some p" by (simp add: pd)
  qed
qed

end
