(* ===== verification/Ip_Addr.thy ===== *)
theory Ip_Addr
  imports Prelude "HOL-Library.Char_ord" "HOL-Library.List_Lexorder"
begin

text \<open>
  Internet addresses as the Rust standard library has them: \<open>Ipv4Addr\<close>, \<open>Ipv6Addr\<close>, socket
  addresses, and the textual parser behind \<open>str::parse\<close> (\<open>core::net::parser\<close>): a cursor over
  the bytes, each reader giving its value and the rest, or nothing and leaving the cursor where
  it was.
\<close>

datatype ip_addr = IPv4 u8 u8 u8 u8 | IPv6 "u8 list"

datatype socket_addr = SocketAddr (sa_ip: ip_addr) (sa_port: u16)

definition byte_word :: "char \<Rightarrow> u8" where
  "byte_word c = of_nat (byte_val c)"

definition from_be_bytes :: "u8 \<Rightarrow> u8 \<Rightarrow> u16" where
  "from_be_bytes high low = of_nat (unat high * 256 + unat low)"

definition be_high :: "u16 \<Rightarrow> u8" where
  "be_high w = of_nat (unat w div 256)"

definition be_low :: "u16 \<Rightarrow> u8" where
  "be_low w = of_nat (unat w mod 256)"

definition ipv6_of_groups :: "u16 list \<Rightarrow> ip_addr" where
  "ipv6_of_groups gs = IPv6 (concat (map (\<lambda>g. [be_high g, be_low g]) gs))"

section \<open>The textual parser\<close>

definition to_digit :: "nat \<Rightarrow> char \<Rightarrow> nat option" where
  "to_digit radix c =
     (let v = (if is_ascii_digit c then byte_val c - 48
               else if is_ascii_lowercase c then byte_val c - 87
               else if is_ascii_uppercase c then byte_val c - 55
               else radix)
      in if v < radix then Some v else None)"

text \<open>The digit loop: value, number of digits and rest; \<open>None\<close> past the digit limit.\<close>

fun digits_run :: "nat \<Rightarrow> nat \<Rightarrow> nat \<Rightarrow> nat \<Rightarrow> string \<Rightarrow> (nat \<times> nat \<times> string) option" where
  "digits_run radix max_digits acc n [] = Some (acc, n, [])"
| "digits_run radix max_digits acc n (c # cs) =
     (case to_digit radix c of
        None \<Rightarrow> Some (acc, n, c # cs)
      | Some d \<Rightarrow> if n + 1 > max_digits then None else digits_run radix max_digits (acc * radix + d) (n + 1) cs)"

definition read_number :: "nat \<Rightarrow> nat \<Rightarrow> bool \<Rightarrow> nat \<Rightarrow> string \<Rightarrow> (nat \<times> string) option" where
  "read_number radix max_digits allow_zero_prefix bits s =
     (case digits_run radix max_digits 0 0 s of
        None \<Rightarrow> None
      | Some (v, n, rest) \<Rightarrow>
          if n = 0 then None
          else if \<not> allow_zero_prefix \<and> starts_with ''0'' s \<and> n > 1 then None
          else if v < 2 ^ bits then Some (v, rest) else None)"

fun read_given_char :: "char \<Rightarrow> string \<Rightarrow> string option" where
  "read_given_char c [] = None"
| "read_given_char c (x # xs) = (if x = c then Some xs else None)"

definition read_separator :: "char \<Rightarrow> nat \<Rightarrow> (string \<Rightarrow> 'a option) \<Rightarrow> string \<Rightarrow> 'a option" where
  "read_separator sep i inner s =
     (if i > 0 then (case read_given_char sep s of None \<Rightarrow> None | Some s' \<Rightarrow> inner s') else inner s)"

definition read_octet :: "nat \<Rightarrow> string \<Rightarrow> (nat \<times> string) option" where
  "read_octet i s = read_separator (CHR ''.'') i (read_number 10 3 False 8) s"

definition read_ipv4 :: "string \<Rightarrow> ((u8 \<times> u8 \<times> u8 \<times> u8) \<times> string) option" where
  "read_ipv4 s0 =
     (case read_octet 0 s0 of None \<Rightarrow> None | Some (a, s1) \<Rightarrow>
     (case read_octet 1 s1 of None \<Rightarrow> None | Some (b, s2) \<Rightarrow>
     (case read_octet 2 s2 of None \<Rightarrow> None | Some (c, s3) \<Rightarrow>
     (case read_octet 3 s3 of None \<Rightarrow> None | Some (d, s4) \<Rightarrow>
        Some ((of_nat a, of_nat b, of_nat c, of_nat d), s4)))))"

text \<open>
  \<open>read_groups\<close>: from group \<open>i\<close> of \<open>limit\<close>, the groups read, whether they end with an embedded
  IPv4 address, and the rest.
\<close>

function read_groups :: "nat \<Rightarrow> nat \<Rightarrow> u16 list \<Rightarrow> string \<Rightarrow> u16 list \<times> bool \<times> string" where
  "read_groups limit i gs s =
     (if limit \<le> i then (gs, False, s)
      else case (if i < limit - 1 then read_separator (CHR '':'') i read_ipv4 s else None) of
             Some ((a, b, c, d), rest) \<Rightarrow> (gs @ [from_be_bytes a b, from_be_bytes c d], True, rest)
           | None \<Rightarrow>
               (case read_separator (CHR '':'') i (read_number 16 4 True 16) s of
                  None \<Rightarrow> (gs, False, s)
                | Some (g, rest) \<Rightarrow> read_groups limit (i + 1) (gs @ [of_nat g]) rest))"
  by pat_completeness auto
termination
  by (relation "measure (\<lambda>(limit, i, gs, s). limit - i)") auto

declare read_groups.simps [simp del]

definition read_ipv6 :: "string \<Rightarrow> (ip_addr \<times> string) option" where
  "read_ipv6 s =
     (let (head, head_ipv4, s1) = read_groups 8 0 [] s
      in if length head = 8 then Some (ipv6_of_groups head, s1)
         else if head_ipv4 then None
         else case read_given_char (CHR '':'') s1 of None \<Rightarrow> None | Some s2 \<Rightarrow>
              (case read_given_char (CHR '':'') s2 of None \<Rightarrow> None | Some s3 \<Rightarrow>
                 (let (rest, _, s4) = read_groups (8 - (length head + 1)) 0 [] s3
                  in Some (ipv6_of_groups (head @ replicate (8 - length head - length rest) 0 @ rest), s4))))"

definition parse_ipv4 :: "string \<Rightarrow> ip_addr option" where
  "parse_ipv4 s =
     (if length s > 15 then None
      else case read_ipv4 s of
             Some ((a, b, c, d), []) \<Rightarrow> Some (IPv4 a b c d)
           | _ \<Rightarrow> None)"

definition parse_ipv6 :: "string \<Rightarrow> ip_addr option" where
  "parse_ipv6 s = (case read_ipv6 s of Some (a, []) \<Rightarrow> Some a | _ \<Rightarrow> None)"

definition show_ipv4 :: "u8 \<Rightarrow> u8 \<Rightarrow> u8 \<Rightarrow> u8 \<Rightarrow> string" where
  "show_ipv4 a b c d =
     show_nat (unat a) @ ''.'' @ show_nat (unat b) @ ''.'' @ show_nat (unat c) @ ''.'' @ show_nat (unat d)"

definition parse_ip :: "string \<Rightarrow> ip_addr option" where
  "parse_ip s =
     (case read_ipv4 s of
        Some ((a, b, c, d), rest) \<Rightarrow> if rest = [] then Some (IPv4 a b c d) else None
      | None \<Rightarrow> parse_ipv6 s)"

subsection \<open>Printing\<close>

definition hex_char :: "nat \<Rightarrow> char" where
  "hex_char d = char_of (if d < 10 then 48 + d else 87 + d)"

fun show_hex :: "nat \<Rightarrow> string" where
  "show_hex n = (if n < 16 then [hex_char n] else show_hex (n div 16) @ [hex_char (n mod 16)])"

declare show_hex.simps [simp del]

fun groups_of :: "u8 list \<Rightarrow> u16 list" where
  "groups_of (a # b # r) = from_be_bytes a b # groups_of r"
| "groups_of _ = []"

text \<open>The longest run of zero groups, the first of them: its start and length.\<close>

fun zero_span :: "nat \<Rightarrow> nat \<times> nat \<Rightarrow> nat \<times> nat \<Rightarrow> u16 list \<Rightarrow> nat \<times> nat" where
  "zero_span i longest current [] = longest"
| "zero_span i longest current (g # gs) =
     (if g = 0
      then let c = (if snd current = 0 then (i, 1) else (fst current, snd current + 1))
           in zero_span (i + 1) (if snd c > snd longest then c else longest) c gs
      else zero_span (i + 1) longest (0, 0) gs)"

fun show_groups :: "u16 list \<Rightarrow> string" where
  "show_groups [] = []"
| "show_groups [g] = show_hex (unat g)"
| "show_groups (g # gs) = show_hex (unat g) @ '':'' @ show_groups gs"

fun show_ip :: "ip_addr \<Rightarrow> string" where
  "show_ip (IPv4 a b c d) = show_ipv4 a b c d"
| "show_ip (IPv6 os) =
     (let gs = groups_of os
      in if take 12 os = replicate 10 0 @ [255, 255]
         then ''::ffff:'' @ show_ipv4 (os ! 12) (os ! 13) (os ! 14) (os ! 15)
         else let (start, len) = zero_span 0 (0, 0) (0, 0) gs
              in if len > 1
                 then show_groups (take start gs) @ ''::'' @ show_groups (drop (start + len) gs)
                 else show_groups gs)"

fun show_socket_addr :: "socket_addr \<Rightarrow> string" where
  "show_socket_addr (SocketAddr ip port) =
     (case ip of
        IPv4 _ _ _ _ \<Rightarrow> show_ip ip
      | IPv6 _ \<Rightarrow> ''['' @ show_ip ip @ '']'') @ '':'' @ show_nat (unat port)"

subsection \<open>Order\<close>

text \<open>Addresses are ordered by family, then by octets, then by port.\<close>

fun ip_key :: "ip_addr \<Rightarrow> nat \<times> u8 list" where
  "ip_key (IPv4 a b c d) = (0, [a, b, c, d])"
| "ip_key (IPv6 os) = (1, os)"

definition addr_key :: "socket_addr \<Rightarrow> (nat \<times> u8 list) \<times> u16" where
  "addr_key a = (ip_key (sa_ip a), sa_port a)"

lemma addr_key_inject: "addr_key a = addr_key b \<longleftrightarrow> a = b"
  by (cases a; cases b; cases "sa_ip a"; cases "sa_ip b") (auto simp: addr_key_def)

instantiation socket_addr :: linorder
begin

definition less_eq_socket_addr :: "socket_addr \<Rightarrow> socket_addr \<Rightarrow> bool" where
  "less_eq_socket_addr a b \<longleftrightarrow> addr_key a \<le> addr_key b"

definition less_socket_addr :: "socket_addr \<Rightarrow> socket_addr \<Rightarrow> bool" where
  "less_socket_addr a b \<longleftrightarrow> addr_key a < addr_key b"

instance
  by intro_classes (auto simp: less_eq_socket_addr_def less_socket_addr_def addr_key_inject
      dest: order_antisym)

end

section \<open>Laws\<close>

lemma to_digit_10: "to_digit 10 c = (if is_ascii_digit c then Some (digit_val c) else None)"
  by (auto simp: to_digit_def digit_val_def ascii_defs Let_def)

lemma digits_run_10:
  assumes "list_all is_ascii_digit ds" "n + length ds \<le> m" "rest = [] \<or> \<not> is_ascii_digit (hd rest)"
  shows "digits_run 10 m acc n (ds @ rest)
       = Some (foldl (\<lambda>v c. 10 * v + digit_val c) acc ds, n + length ds, rest)"
  using assms
proof (induction ds arbitrary: acc n)
  case Nil
  then show ?case by (cases rest) (auto simp: to_digit_10)
next
  case (Cons c cs)
  then show ?case by (simp add: to_digit_10 mult.commute)
qed

lemma show_nat_byte_length: "n < 256 \<Longrightarrow> length (show_nat n) \<le> 3"
  by (simp add: show_nat.simps)

lemma hd_show_nat: "hd (show_nat n) = CHR ''0'' \<longleftrightarrow> n = 0"
proof (induction n rule: show_nat.induct)
  case (1 n)
  have digit: "m < 10 \<Longrightarrow> digit_char m = CHR ''0'' \<longleftrightarrow> m = 0" for m
  proof -
    assume "m < 10"
    have "digit_val (CHR ''0'') = 0" "digit_char 0 = CHR ''0''" by code_simp+
    with digit_val_digit_char[OF \<open>m < 10\<close>] show ?thesis by auto
  qed
  show ?case
  proof (cases "n < 10")
    case True
    then show ?thesis by (subst show_nat.simps) (simp add: digit)
  next
    case False
    with 1 show ?thesis by (subst show_nat.simps) (simp add: div_eq_0_iff)
  qed
qed

lemma read_number_byte:
  assumes "n < 256" "rest = [] \<or> \<not> is_ascii_digit (hd rest)"
  shows "read_number 10 3 False 8 (show_nat n @ rest) = Some (n, rest)"
proof -
  have run: "digits_run 10 3 0 0 (show_nat n @ rest) = Some (n, length (show_nat n), rest)"
    using digits_run_10[OF show_nat_digits, of 0 n 3 rest 0] show_nat_byte_length[OF assms(1)] assms(2)
    by (simp flip: digits_val_def)
  have "starts_with ''0'' (show_nat n @ rest) \<Longrightarrow> n = 0"
    using hd_show_nat[of n] by (cases "show_nat n") (auto simp: starts_with_iff)
  moreover have "length (show_nat 0) = 1" by (simp add: show_nat.simps)
  ultimately show ?thesis using assms(1) by (auto simp: read_number_def run)
qed

lemma digits_run_10_inv:
  assumes "digits_run 10 m acc n s = Some (v, k, rest)"
  shows "\<exists>ds. s = ds @ rest \<and> list_all is_ascii_digit ds \<and> k = n + length ds
           \<and> v = foldl (\<lambda>v c. 10 * v + digit_val c) acc ds \<and> (rest = [] \<or> \<not> is_ascii_digit (hd rest))"
  using assms
proof (induction s arbitrary: acc n)
  case (Cons c cs)
  show ?case
  proof (cases "is_ascii_digit c")
    case True
    with Cons.prems have "digits_run 10 m (10 * acc + digit_val c) (n + 1) cs = Some (v, k, rest)"
      by (simp add: to_digit_10 mult.commute split: if_splits)
    from Cons.IH[OF this] obtain ds where "cs = ds @ rest" "list_all is_ascii_digit ds"
      "k = n + 1 + length ds" "v = foldl (\<lambda>v c. 10 * v + digit_val c) (10 * acc + digit_val c) ds"
      "rest = [] \<or> \<not> is_ascii_digit (hd rest)" by auto
    with True show ?thesis by (intro exI[of _ "c # ds"]) simp
  qed (use Cons.prems in \<open>auto simp: to_digit_10\<close>)
qed simp

lemma digits_without_zero:
  assumes "list_all is_ascii_digit ds" "ds \<noteq> []" "hd ds = CHR ''0'' \<longrightarrow> length ds = 1"
  shows "show_nat (digits_val ds) = ds"
  using assms
proof (induction ds rule: rev_induct)
  case (snoc c cs)
  have c: "digit_char (digit_val c) = c" "digit_val c < 10"
    using snoc.prems(1) by (auto simp: digit_char_def digit_val_def is_ascii_digit_def)
  show ?case
  proof (cases "cs = []")
    case True
    with c show ?thesis by (subst show_nat.simps) (simp add: digits_val_def)
  next
    case False
    with snoc.prems have nz: "hd cs \<noteq> CHR ''0''" by (cases cs) auto
    with snoc False have IH: "show_nat (digits_val cs) = cs" by auto
    with nz have "digits_val cs \<noteq> 0" using hd_show_nat[of "digits_val cs"] by simp
    with c IH show ?thesis by (subst show_nat.simps) (simp add: digits_val_snoc)
  qed
qed simp

lemma read_number_byte_iff:
  "read_number 10 3 False 8 s = Some (n, rest) \<longleftrightarrow>
     n < 256 \<and> s = show_nat n @ rest \<and> (rest = [] \<or> \<not> is_ascii_digit (hd rest))"
proof
  assume "read_number 10 3 False 8 s = Some (n, rest)"
  then obtain k where run: "digits_run 10 3 0 0 s = Some (n, k, rest)" and k: "k \<noteq> 0"
    and z: "starts_with ''0'' s \<longrightarrow> k \<le> 1" and n: "n < 256"
    by (auto simp: read_number_def split: option.splits if_splits)
  from digits_run_10_inv[OF run] obtain ds where s: "s = ds @ rest" "list_all is_ascii_digit ds"
    "k = length ds" "n = digits_val ds" "rest = [] \<or> \<not> is_ascii_digit (hd rest)"
    by (auto simp: digits_val_def)
  moreover have "hd ds = CHR ''0'' \<longrightarrow> length ds = 1"
    using k z s by (cases ds) (auto simp: starts_with_iff)
  ultimately show "n < 256 \<and> s = show_nat n @ rest \<and> (rest = [] \<or> \<not> is_ascii_digit (hd rest))"
    using k n digits_without_zero[of ds] by auto
qed (use read_number_byte in auto)

lemma read_octet_iff:
  "read_octet i s = Some (n, rest) \<longleftrightarrow>
     n < 256 \<and> s = (if i > 0 then ''.'' else []) @ show_nat n @ rest \<and> (rest = [] \<or> \<not> is_ascii_digit (hd rest))"
  by (cases s) (auto simp: read_octet_def read_separator_def read_number_byte_iff split: option.splits)

lemma byte_word_cases: "n < 256 \<Longrightarrow> unat (of_nat n :: u8) = n"
  by (simp add: unat_of_nat)

lemma unat_byte_less [simp]: "unat (w :: u8) < 256"
  using unsigned_less[of w] by simp

text \<open>The textual form of an IPv4 address is unique: the parser accepts exactly what the printer prints.\<close>

lemma parse_ipv4_iff: "parse_ipv4 s = Some (IPv4 a b c d) \<longleftrightarrow> s = show_ipv4 a b c d"
proof
  assume "parse_ipv4 s = Some (IPv4 a b c d)"
  then have "read_ipv4 s = Some ((a, b, c, d), [])"
    by (auto simp: parse_ipv4_def split: if_splits option.splits list.splits)
  then show "s = show_ipv4 a b c d"
    by (auto simp: read_ipv4_def read_octet_iff show_ipv4_def byte_word_cases split: option.splits)
next
  assume s: "s = show_ipv4 a b c d"
  have dot: "\<not> is_ascii_digit (CHR ''.'')" by (simp add: is_ascii_digit_def)
  have "read_octet 0 s = Some (unat a, ''.'' @ show_nat (unat b) @ ''.'' @ show_nat (unat c) @ ''.'' @ show_nat (unat d))"
    "read_octet 1 (''.'' @ show_nat (unat b) @ ''.'' @ show_nat (unat c) @ ''.'' @ show_nat (unat d))
       = Some (unat b, ''.'' @ show_nat (unat c) @ ''.'' @ show_nat (unat d))"
    "read_octet 2 (''.'' @ show_nat (unat c) @ ''.'' @ show_nat (unat d)) = Some (unat c, ''.'' @ show_nat (unat d))"
    "read_octet 3 (''.'' @ show_nat (unat d)) = Some (unat d, [])"
    using dot by (auto simp: read_octet_iff s show_ipv4_def)
  then have "read_ipv4 s = Some ((a, b, c, d), [])" by (simp add: read_ipv4_def)
  moreover have "length s \<le> 15"
    using show_nat_byte_length[OF unat_byte_less, of a] show_nat_byte_length[OF unat_byte_less, of b]
      show_nat_byte_length[OF unat_byte_less, of c] show_nat_byte_length[OF unat_byte_less, of d]
    by (simp add: s show_ipv4_def)
  ultimately show "parse_ipv4 s = Some (IPv4 a b c d)" by (simp add: parse_ipv4_def)
qed

lemma parse_ipv4_IPv4: "parse_ipv4 s = Some a \<Longrightarrow> \<exists>w x y z. a = IPv4 w x y z"
  by (auto simp: parse_ipv4_def split: if_splits option.splits list.splits prod.splits)

lemma from_be_bytes_split [simp]: "from_be_bytes (be_high w) (be_low w) = w"
proof -
  have "unat w div 256 < 256" using unsigned_less[of w, where ?'a = nat] by (simp add: div_less_iff_less_mult)
  then have "unat w div 256 mod 256 = unat w div 256" by simp
  then show ?thesis
    by (simp add: from_be_bytes_def be_high_def be_low_def unat_of_nat)
qed

section \<open>IPv6 text\<close>

lemma read_groups_length:
  assumes "read_groups limit i gs s = (hs, v4, rest)" "length gs = i" "i \<le> limit"
  shows "length hs \<le> limit"
  using assms
proof (induction limit i gs s arbitrary: hs v4 rest rule: read_groups.induct)
  case (1 limit i gs s)
  note unfolded = "1.prems"(1)[unfolded read_groups.simps[of limit i gs s]]
  show ?case
  proof (cases "limit \<le> i")
    case True
    with "1.prems" unfolded show ?thesis by simp
  next
    case False
    let ?v4 = "if i < limit - 1 then read_separator (CHR '':'') i read_ipv4 s else None"
    let ?g = "read_separator (CHR '':'') i (read_number 16 4 True 16) s"
    consider v where "?v4 = Some v" | "?v4 = None" "?g = None" | g where "?v4 = None" "?g = Some g"
      by (cases ?v4; cases ?g) auto
    then show ?thesis
    proof cases
      case 1
      then have "i < limit - 1" by (simp split: if_splits)
      with 1 unfolded False "1.prems"(2) show ?thesis by (cases v) auto
    next
      case 2
      with unfolded False "1.prems" show ?thesis by auto
    next
      case 3
      obtain x y where g: "g = (x, y)" by (cases g)
      from 3 unfolded False g have "read_groups limit (i + 1) (gs @ [of_nat x]) y = (hs, v4, rest)" by simp
      from "1.IH"[OF False 3(1) 3(2) g[symmetric] this] False "1.prems"(2) show ?thesis by simp
    qed
  qed
qed

lemma parse_ipv6_octets:
  assumes "parse_ipv6 s = Some a"
  obtains os where "a = IPv6 os" "length os = 16"
proof -
  have octets: "length (concat (map (\<lambda>g. [be_high g, be_low g]) gs)) = 2 * length gs" for gs
    by (induction gs) auto
  obtain hd v4 s1 where h: "read_groups 8 0 [] s = (hd, v4, s1)" by (metis prod_cases3)
  from read_groups_length[OF h] have "length hd \<le> 8" by simp
  moreover have "read_groups l 0 [] s3 = (tl', v4', s4) \<Longrightarrow> length tl' \<le> l" for l s3 tl' v4' s4
    using read_groups_length[of l 0 "[]" s3 tl' v4' s4] by simp
  moreover have "length (concat (replicate n [be_high 0, be_low 0])) = 2 * n" for n
    by (induction n) auto
  ultimately have len: "read_ipv6 s = Some (b, r) \<Longrightarrow> \<exists>os. b = IPv6 os \<and> length os = 16" for b r
    unfolding read_ipv6_def h Let_def
    by (force simp: ipv6_of_groups_def octets split: option.splits if_splits prod.splits)
  from assms have "read_ipv6 s = Some (a, [])"
    by (auto simp: parse_ipv6_def split: option.splits list.splits prod.splits)
  with len that show ?thesis by blast
qed

text \<open>Only hexadecimal digits, colons and dots are consumed.\<close>

definition ip_char :: "char \<Rightarrow> bool" where
  "ip_char c \<longleftrightarrow> to_digit 16 c \<noteq> None \<or> c = CHR '':'' \<or> c = CHR ''.''"

definition consumes :: "string \<Rightarrow> string \<Rightarrow> bool" where
  "consumes s rest \<longleftrightarrow> (\<exists>pre. s = pre @ rest \<and> list_all ip_char pre)"

lemma consumes_refl [simp]: "consumes s s"
  by (auto simp: consumes_def)

lemma consumes_trans: "consumes s t \<Longrightarrow> consumes t u \<Longrightarrow> consumes s u"
  unfolding consumes_def by (metis append_assoc list_all_append)

lemma consumes_Cons: "ip_char c \<Longrightarrow> consumes s rest \<Longrightarrow> consumes (c # s) rest"
  unfolding consumes_def by (metis append_Cons list.pred_inject(2))

lemma to_digit_ip_char: "to_digit 10 c = Some d \<or> to_digit 16 c = Some d \<Longrightarrow> ip_char c"
  by (auto simp: ip_char_def to_digit_def Let_def split: if_splits)

lemma digits_run_consumes:
  "digits_run radix m acc n s = Some (v, k, rest) \<Longrightarrow> radix = 10 \<or> radix = 16 \<Longrightarrow> consumes s rest"
proof (induction s arbitrary: acc n)
  case (Cons c cs)
  show ?case
  proof (cases "to_digit radix c")
    case (Some d)
    with Cons.prems have "digits_run radix m (acc * radix + d) (n + 1) cs = Some (v, k, rest)"
      by (simp split: if_splits)
    from Cons.IH[OF this Cons.prems(2)] Some Cons.prems(2) show ?thesis
      by (auto intro: consumes_Cons to_digit_ip_char)
  qed (use Cons.prems in simp)
qed simp

lemma read_number_consumes:
  "read_number radix m z w s = Some (v, rest) \<Longrightarrow> radix = 10 \<or> radix = 16 \<Longrightarrow> consumes s rest"
  by (auto simp: read_number_def split: option.splits if_splits dest: digits_run_consumes)

lemma read_given_char_consumes: "read_given_char c s = Some rest \<Longrightarrow> ip_char c \<Longrightarrow> consumes s rest"
  by (cases s) (auto intro: consumes_Cons split: if_splits)

lemma ip_char_punct [simp]: "ip_char (CHR '':'')" "ip_char (CHR ''.'')"
  by (simp_all add: ip_char_def)

lemma read_separator_consumes:
  assumes "read_separator c i inner s = Some (v, rest)" "ip_char c"
    and "\<And>t. inner t = Some (v, rest) \<Longrightarrow> consumes t rest"
  shows "consumes s rest"
  using assms by (auto simp: read_separator_def split: if_splits option.splits
      intro: consumes_trans read_given_char_consumes)

lemma read_octet_consumes: "read_octet i s = Some (v, rest) \<Longrightarrow> consumes s rest"
  unfolding read_octet_def by (erule read_separator_consumes) (auto dest: read_number_consumes)

lemma read_ipv4_consumes: "read_ipv4 s = Some (v, rest) \<Longrightarrow> consumes s rest"
  by (auto simp: read_ipv4_def split: option.splits dest!: read_octet_consumes)
     (blast intro: consumes_trans)

lemma read_groups_consumes: "read_groups limit i gs s = (hs, v4, rest) \<Longrightarrow> consumes s rest"
proof (induction limit i gs s arbitrary: hs v4 rest rule: read_groups.induct)
  case (1 limit i gs s)
  note unfolded = "1.prems"[unfolded read_groups.simps[of limit i gs s]]
  let ?v4 = "if i < limit - 1 then read_separator (CHR '':'') i read_ipv4 s else None"
  let ?g = "read_separator (CHR '':'') i (read_number 16 4 True 16) s"
  consider "limit \<le> i" | v r where "\<not> limit \<le> i" "?v4 = Some (v, r)" | "\<not> limit \<le> i" "?v4 = None" "?g = None"
    | x y where "\<not> limit \<le> i" "?v4 = None" "?g = Some (x, y)"
    by (cases "limit \<le> i"; cases ?v4; cases ?g) auto
  then show ?case
  proof cases
    case 2
    with unfolded have "r = rest" by (cases v) auto
    moreover from 2 have "read_separator (CHR '':'') i read_ipv4 s = Some (v, r)" by (simp split: if_splits)
    ultimately show ?thesis by (auto elim!: read_separator_consumes dest: read_ipv4_consumes)
  next
    case 4
    then have "consumes s y" by (auto elim!: read_separator_consumes dest: read_number_consumes)
    moreover from 4 unfolded have "read_groups limit (i + 1) (gs @ [of_nat x]) y = (hs, v4, rest)" by simp
    ultimately show ?thesis using "1.IH"[OF 4 refl] by (blast intro: consumes_trans)
  qed (use unfolded in auto)
qed

lemma parse_ipv6_chars: "parse_ipv6 s = Some a \<Longrightarrow> list_all ip_char s"
proof -
  assume "parse_ipv6 s = Some a"
  then have "read_ipv6 s = Some (a, [])"
    by (auto simp: parse_ipv6_def split: option.splits list.splits prod.splits)
  then have "consumes s []"
    by (auto simp: read_ipv6_def Let_def split: prod.splits if_splits option.splits
        dest!: read_groups_consumes read_given_char_consumes intro: consumes_trans)
       (blast intro: consumes_trans)?
  then show ?thesis by (auto simp: consumes_def)
qed

lemma ip_char_plain: "ip_char c \<Longrightarrow> byte_val c < 128 \<and> c \<noteq> CHR '' ''"
  by (auto simp: ip_char_def to_digit_def ascii_defs Let_def split: if_splits)

lemma show_ipv4_chars: "list_all ip_char (show_ipv4 a b c d)"
  using parse_ipv4_iff[of "show_ipv4 a b c d" a b c d] read_ipv4_consumes[of "show_ipv4 a b c d" _ "[]"]
  by (auto simp: parse_ipv4_def consumes_def split: if_splits option.splits list.splits)

end
