(* ===== verification/Path_Rules.thy ===== *)
theory Path_Rules
  imports Prelude
begin

text \<open>
  \<open>crates/ramjet-router/src/{path,canary,mirror}.rs\<close>: the path rules of a virtual host, the
  canary and the mirror a rule may carry, and their decisions. The regular-expression
  engine is the third-party \<open>regex\<close> crate: the compiled-expression type is a type
  variable \<open>'r\<close> and \<open>Regex::is_match\<close> is the argument \<open>is_match\<close>.
\<close>

section \<open>Canary\<close>

type_synonym backend_id = u32

datatype 'r header_match = AlwaysNever | Value string | Pattern 'r

record 'r header_rule =
  hr_name :: string
  hr_test :: "'r header_match"

record 'r header_spec =
  hs_name :: string
  hs_value :: "string option"
  hs_pattern :: "'r option"

record 'r canary_spec =
  cs_backend :: backend_id
  cs_header :: "'r header_rule option"
  cs_cookie :: "string option"
  cs_weight :: u32
  cs_weight_total :: u32

definition canary_new ::
  "backend_id \<Rightarrow> 'r header_spec option \<Rightarrow> string option \<Rightarrow> u32 \<Rightarrow> u32 \<Rightarrow> 'r canary_spec" where
  "canary_new backend header cookie weight weight_total =
     \<lparr> cs_backend = backend,
       cs_header = map_option (\<lambda>spec.
         \<lparr> hr_name = hs_name spec,
           hr_test = (case (hs_value spec, hs_pattern spec) of
                        (_, Some re) \<Rightarrow> Pattern re
                      | (Some v, None) \<Rightarrow> Value v
                      | (None, None) \<Rightarrow> AlwaysNever) \<rparr>) header,
       cs_cookie = cookie,
       cs_weight = weight,
       cs_weight_total = weight_total \<rparr>"

definition weight_percent :: "'r canary_spec \<Rightarrow> u32" where
  "weight_percent c =
     (if cs_weight_total c = 0 then 0
      else saturating_mul (cs_weight c) 100 div cs_weight_total c)"

text \<open>
  \<open>CanarySpec::decide\<close>. Each block either returns (\<open>Some\<close>) or falls through to the next.
\<close>

definition header_step ::
  "('r \<Rightarrow> string \<Rightarrow> bool) \<Rightarrow> 'r canary_spec \<Rightarrow> string option \<Rightarrow> bool option" where
  "header_step is_match c header_value =
     (case (cs_header c, header_value) of
        (Some rule, Some v) \<Rightarrow>
          (case hr_test rule of
             AlwaysNever \<Rightarrow>
               if v = ''always'' then Some True else if v = ''never'' then Some False else None
           | Value want \<Rightarrow> if v = want then Some True else None
           | Pattern re \<Rightarrow> if is_match re v then Some True else None)
      | _ \<Rightarrow> None)"

definition cookie_step :: "'r canary_spec \<Rightarrow> string option \<Rightarrow> bool option" where
  "cookie_step c cookie_value =
     (if cs_cookie c = None then None
      else case cookie_value of
        None \<Rightarrow> None
      | Some v \<Rightarrow> if v = ''always'' then Some True else if v = ''never'' then Some False else None)"

definition decide ::
  "('r \<Rightarrow> string \<Rightarrow> bool) \<Rightarrow> 'r canary_spec \<Rightarrow> string option \<Rightarrow> string option \<Rightarrow> u32 \<Rightarrow> bool" where
  "decide is_match c header_value cookie_value roll =
     (case header_step is_match c header_value of
        Some d \<Rightarrow> d
      | None \<Rightarrow>
          (case cookie_step c cookie_value of
             Some d \<Rightarrow> d
           | None \<Rightarrow> cs_weight c > 0 \<and> roll < cs_weight c))"

section \<open>Mirror\<close>

definition MIRROR_PERCENT_TOTAL :: u32 where
  "MIRROR_PERCENT_TOTAL = 100"

record mirror_spec =
  ms_backend :: backend_id
  ms_percent :: u32
  ms_host :: "string option"

definition mirror_new :: "backend_id \<Rightarrow> u32 \<Rightarrow> string option \<Rightarrow> mirror_spec" where
  "mirror_new backend percent host =
     \<lparr> ms_backend = backend, ms_percent = min percent MIRROR_PERCENT_TOTAL, ms_host = host \<rparr>"

definition sample :: "mirror_spec \<Rightarrow> u32 \<Rightarrow> bool" where
  "sample m roll \<longleftrightarrow> ms_percent m > 0 \<and> roll < ms_percent m"

section \<open>Path rules\<close>

datatype path_type = Exact | Prefix | ImplementationSpecific

fun rank :: "path_type \<Rightarrow> nat" where
  "rank Exact = 0"
| "rank Prefix = 1"
| "rank ImplementationSpecific = 2"

fun path_type_as_str :: "path_type \<Rightarrow> string" where
  "path_type_as_str Exact = ''Exact''"
| "path_type_as_str Prefix = ''Prefix''"
| "path_type_as_str ImplementationSpecific = ''ImplementationSpecific''"

definition prefix_match_len :: "string \<Rightarrow> nat" where
  "prefix_match_len path =
     (let trimmed = trim_end_matches (CHR ''/'') path
      in if trimmed = [] then 0 else length trimmed)"

definition prefix_matches :: "string \<Rightarrow> nat \<Rightarrow> string \<Rightarrow> bool" where
  "prefix_matches rule_path match_len path =
     (case (get_prefix path match_len, get_prefix rule_path match_len) of
        (Some head, Some rule) \<Rightarrow>
          head = rule \<and> (length path = match_len \<or> get_at path match_len = Some (CHR ''/''))
      | _ \<Rightarrow> False)"

record 'r rule_extras =
  re_canary :: "'r canary_spec option"
  re_mirror :: "mirror_spec option"

definition extras_build ::
  "'r canary_spec option \<Rightarrow> mirror_spec option \<Rightarrow> 'r rule_extras option" where
  "extras_build canary mirror =
     (if canary = None \<and> mirror = None then None
      else Some \<lparr> re_canary = canary, re_mirror = mirror \<rparr>)"

record 'r path_rule =
  pr_path :: string
  pr_match_len :: u32
  pr_path_type :: path_type
  pr_regex :: "'r option"
  pr_backend :: backend_id
  pr_stats_index :: u32
  pr_extras :: "'r rule_extras option"

definition rule_new ::
  "string \<Rightarrow> path_type \<Rightarrow> 'r option \<Rightarrow> backend_id \<Rightarrow> 'r rule_extras option \<Rightarrow> 'r path_rule" where
  "rule_new path ptype regex backend extras =
     \<lparr> pr_path = path,
       pr_match_len = (if ptype = Prefix then of_nat (prefix_match_len path) else 0),
       pr_path_type = ptype,
       pr_regex = regex,
       pr_backend = backend,
       pr_stats_index = 0,
       pr_extras = extras \<rparr>"

definition set_stats_index :: "'r path_rule \<Rightarrow> u32 \<Rightarrow> 'r path_rule" where
  "set_stats_index r index = r\<lparr> pr_stats_index := index \<rparr>"

definition rule_matches :: "('r \<Rightarrow> string \<Rightarrow> bool) \<Rightarrow> 'r path_rule \<Rightarrow> string \<Rightarrow> bool" where
  "rule_matches is_match r path =
     (case pr_path_type r of
        Exact \<Rightarrow> path = pr_path r
      | Prefix \<Rightarrow> prefix_matches (pr_path r) (unat (pr_match_len r)) path
      | ImplementationSpecific \<Rightarrow>
          (case pr_regex r of None \<Rightarrow> False | Some re \<Rightarrow> is_match re path))"

text \<open>\<open>(u8, Reverse<u32>)\<close>: the reversed order is the order of the negated length.\<close>

definition rule_sort_key :: "'r path_rule \<Rightarrow> nat \<times> int" where
  "rule_sort_key r = (rank (pr_path_type r), - int (unat (pr_match_len r)))"

definition rule_canary :: "'r path_rule \<Rightarrow> 'r canary_spec option" where
  "rule_canary r = Option.bind (pr_extras r) re_canary"

definition rule_mirror :: "'r path_rule \<Rightarrow> mirror_spec option" where
  "rule_mirror r = Option.bind (pr_extras r) re_mirror"

section \<open>Lemmas\<close>

text \<open>
  The Ingress specification of a prefix rule: split both paths into elements at slashes,
  ignore trailing slashes of the rule, and ask for a prefix of elements.
\<close>

definition path_elements :: "string \<Rightarrow> string list" where
  "path_elements p = split_on (CHR ''/'') p"

definition rule_elements :: "string \<Rightarrow> string list" where
  "rule_elements p = path_elements (trim_end_matches (CHR ''/'') p)"

lemma split_on_prefix_iff:
  "(\<exists>ys. split_on c s = split_on c p @ ys) \<longleftrightarrow>
     take (length p) s = p \<and> (length s = length p \<or> get_at s (length p) = Some c)"
proof (induction p arbitrary: s)
  case Nil
  show ?case
  proof (cases s)
    case Nil
    then show ?thesis by simp
  next
    case (Cons x xs)
    then show ?thesis by (cases "split_on c xs") auto
  qed
next
  case (Cons a p)
  show ?case
  proof (cases s)
    case Nil
    then show ?thesis by (cases "split_on c p") auto
  next
    case (Cons x xs)
    have ne: "split_on c xs \<noteq> []" "split_on c p \<noteq> []" by simp_all
    then obtain u us v vs where uv: "split_on c xs = u # us" "split_on c p = v # vs"
      by (meson list.exhaust)
    with Cons Cons.IH[of xs] show ?thesis by auto
  qed
qed

lemma prefix_match_len_trim:
  "prefix_match_len p = length (trim_end_matches (CHR ''/'') p)"
  by (simp add: prefix_match_len_def Let_def)

lemma trim_end_matches_take:
  "take (length (trim_end_matches c p)) p = trim_end_matches c p"
  "length (trim_end_matches c p) \<le> length p"
  using trim_end_matches_append[of p c] by (metis append_eq_conv_conj, metis le_add1 length_append)

lemma prefix_matches_trim:
  "prefix_matches rule (prefix_match_len rule) path \<longleftrightarrow>
     take (prefix_match_len rule) path = trim_end_matches (CHR ''/'') rule \<and>
     (length path = prefix_match_len rule \<or>
      get_at path (prefix_match_len rule) = Some (CHR ''/''))"
proof -
  let ?t = "trim_end_matches (CHR ''/'') rule"
  have "length ?t \<le> length path" if "take (length ?t) path = ?t"
    using that by (metis length_take min.absorb_iff2)
  then show ?thesis
    using trim_end_matches_take[of "CHR ''/''" rule]
    by (auto simp: prefix_matches_def get_prefix_def prefix_match_len_trim)
qed

text \<open>
  A prefix rule matches element-wise, as the Ingress specification asks: the rule's
  path elements (trailing slashes ignored) must be a prefix of the request's path elements.
\<close>

theorem prefix_matches_elementwise:
  "prefix_matches rule (prefix_match_len rule) path \<longleftrightarrow>
     (\<exists>rest. path_elements path = rule_elements rule @ rest)"
  unfolding prefix_matches_trim path_elements_def rule_elements_def split_on_prefix_iff
  by (simp add: prefix_match_len_trim)

lemma prefix_match_len_le: "prefix_match_len p \<le> length p"
  by (simp add: prefix_match_len_trim trim_end_matches_take)

lemma rule_new_match_len:
  assumes "length path < 2 ^ 32"
  shows "unat (pr_match_len (rule_new path Prefix re b e)) = prefix_match_len path"
  using prefix_match_len_le[of path] assms
  by (simp add: rule_new_def unat_of_nat take_bit_nat_eq_self)

text \<open>
  A rule built by \<open>PathRule::new\<close> matches by its kind: equality for \<open>Exact\<close>, whole path
  elements for \<open>Prefix\<close> (for paths shorter than 4 GiB, where the stored 32-bit length is
  exact), the compiled expression for \<open>ImplementationSpecific\<close>.
\<close>

theorem rule_new_matches:
  assumes "length path < 2 ^ 32"
  shows "rule_matches is_match (rule_new path ptype regex b extras) req \<longleftrightarrow>
     (case ptype of
        Exact \<Rightarrow> req = path
      | Prefix \<Rightarrow> \<exists>rest. path_elements req = rule_elements path @ rest
      | ImplementationSpecific \<Rightarrow> \<exists>re. regex = Some re \<and> is_match re req)"
proof (cases ptype)
  case Exact
  then show ?thesis by (auto simp: rule_matches_def rule_new_def)
next
  case Prefix
  then have "rule_matches is_match (rule_new path ptype regex b extras) req =
      prefix_matches path (prefix_match_len path) req"
    using rule_new_match_len[OF assms, of regex b extras]
    by (simp add: rule_matches_def) (simp add: rule_new_def)
  then show ?thesis
    using Prefix prefix_matches_trim[of path req]
    by (simp add: path_elements_def rule_elements_def split_on_prefix_iff prefix_match_len_trim)
next
  case ImplementationSpecific
  then show ?thesis by (auto simp: rule_matches_def rule_new_def split: option.splits)
qed

theorem rule_new_matches_witness:
  "rule_matches (\<lambda>_ _. False) (rule_new ''/foo/'' Prefix (None :: nat option) 3 None) ''/foo/bar''
   \<and> \<not> rule_matches (\<lambda>_ _. False) (rule_new ''/foo/'' Prefix (None :: nat option) 3 None) ''/foobar''"
  using rule_new_matches[of "''/foo/''" "\<lambda>_ _. False" Prefix "None :: nat option" 3 None "''/foo/bar''"]
    rule_new_matches[of "''/foo/''" "\<lambda>_ _. False" Prefix "None :: nat option" 3 None "''/foobar''"]
  by (simp add: path_elements_def rule_elements_def trim_end_matches_def)

lemma decide_steps:
  "header_step is_match c hv = Some d \<Longrightarrow> decide is_match c hv cv roll = d"
  "header_step is_match c hv = None \<Longrightarrow> cookie_step c cv = Some d \<Longrightarrow>
     decide is_match c hv cv roll = d"
  "header_step is_match c hv = None \<Longrightarrow> cookie_step c cv = None \<Longrightarrow>
     decide is_match c hv cv roll = (roll < cs_weight c)"
  by (auto simp: decide_def word_less_nat_alt)

text \<open>
  A header that names the canary explicitly decides alone, whatever the cookie and the
  roll: \<open>always\<close> (or the configured value, or a match of the configured pattern) sends the
  request to the canary, \<open>never\<close> keeps it off; a decisive cookie decides when the header
  does not.
\<close>

theorem decide_precedence:
  "(cs_header c = Some r \<and>
      (case hr_test r of
         AlwaysNever \<Rightarrow> v = ''always'' | Value want \<Rightarrow> v = want | Pattern re \<Rightarrow> is_match re v)
    \<longrightarrow> decide is_match c (Some v) cv roll)
   \<and> (cs_header c = Some r \<and> hr_test r = AlwaysNever
    \<longrightarrow> \<not> decide is_match c (Some ''never'') cv roll)
   \<and> (cs_cookie c \<noteq> None \<and> hv = None \<longrightarrow>
        decide is_match c hv (Some ''always'') roll \<and> \<not> decide is_match c hv (Some ''never'') roll)"
proof (intro conjI impI; (elim conjE)?)
  assume "cs_header c = Some r"
    and "case hr_test r of
      AlwaysNever \<Rightarrow> v = ''always'' | Value want \<Rightarrow> v = want | Pattern re \<Rightarrow> is_match re v"
  then have "header_step is_match c (Some v) = Some True"
    by (cases "hr_test r") (simp_all add: header_step_def)
  from decide_steps(1)[OF this] show "decide is_match c (Some v) cv roll" by simp
next
  assume "cs_header c = Some r" "hr_test r = AlwaysNever"
  then have "header_step is_match c (Some ''never'') = Some False" by (simp add: header_step_def)
  from decide_steps(1)[OF this] show "\<not> decide is_match c (Some ''never'') cv roll" by simp
next
  assume c: "cs_cookie c \<noteq> None" and hv: "hv = None"
  then have h: "header_step is_match c hv = None"
    by (simp add: header_step_def split: option.splits)
  have "cookie_step c (Some ''always'') = Some True" "cookie_step c (Some ''never'') = Some False"
    using c by (simp_all add: cookie_step_def)
  with decide_steps(2)[OF h] show "decide is_match c hv (Some ''always'') roll"
    and "\<not> decide is_match c hv (Some ''never'') roll" by blast+
qed

definition sample_canary :: "nat canary_spec" where
  "sample_canary = canary_new 7 (Some \<lparr> hs_name = ''X-Canary'', hs_value = None, hs_pattern = None \<rparr>)
     (Some ''canary'') 20 100"

theorem decide_precedence_witness:
  "decide (\<lambda>_ _. False) sample_canary (Some ''always'') (Some ''never'') 99
   \<and> \<not> decide (\<lambda>_ _. False) sample_canary (Some ''never'') (Some ''always'') 0
   \<and> decide (\<lambda>_ _. False) sample_canary None (Some ''always'') 99"
  using decide_precedence[of sample_canary "\<lparr> hr_name = ''X-Canary'', hr_test = AlwaysNever \<rparr>"
      "''always''" "\<lambda>_ _. False" "Some ''never''" 99 None]
    decide_precedence[of sample_canary "\<lparr> hr_name = ''X-Canary'', hr_test = AlwaysNever \<rparr>"
      "''never''" "\<lambda>_ _. False" "Some ''always''" 0 None]
    decide_precedence[of sample_canary "\<lparr> hr_name = ''X-Canary'', hr_test = AlwaysNever \<rparr>"
      "''always''" "\<lambda>_ _. False" "Some ''always''" 99 None]
  by (simp add: sample_canary_def canary_new_def)

text \<open>
  The weight split is exact: of the \<open>weight_total\<close> equally likely rolls, exactly
  \<open>min weight weight_total\<close> send a request that neither header nor cookie decides to the
  canary.
\<close>

theorem canary_weight_share:
  assumes "header_step is_match c hv = None" "cookie_step c cv = None"
  shows "card {roll. roll < cs_weight_total c \<and> decide is_match c hv cv roll}
         = min (unat (cs_weight c)) (unat (cs_weight_total c))"
proof -
  have "{roll. roll < cs_weight_total c \<and> decide is_match c hv cv roll}
      = {roll. roll < min (cs_weight c) (cs_weight_total c)}"
    using assms by (auto simp: decide_steps)
  then show ?thesis
    by (simp add: card_word_less min_def word_le_nat_alt)
qed

theorem canary_weight_share_witness:
  "card {roll. roll < 100 \<and> decide (\<lambda>_ _. False) sample_canary (Some ''maybe'') None roll} = 20"
  using canary_weight_share[of "\<lambda>_ _. False" sample_canary "Some ''maybe''" None]
  by (simp add: sample_canary_def canary_new_def header_step_def cookie_step_def)

text \<open>
  Mirror sampling is exact, with no rounding: of the 100 rolls exactly the configured
  percentage (capped at 100 by the constructor) is sampled.
\<close>

theorem mirror_sample_share:
  "card {roll. roll < MIRROR_PERCENT_TOTAL \<and> sample (mirror_new b percent h) roll}
     = min (unat percent) 100"
proof -
  have "{roll. roll < MIRROR_PERCENT_TOTAL \<and> sample (mirror_new b percent h) roll}
      = {roll. roll < min percent MIRROR_PERCENT_TOTAL}"
    using le_less_trans[of 0 _ "min percent MIRROR_PERCENT_TOTAL"]
    by (auto simp: sample_def mirror_new_def)
  then show ?thesis
    by (auto simp: card_word_less min_def MIRROR_PERCENT_TOTAL_def word_le_nat_alt)
qed

text \<open>The displayed percentage never exceeds 100 for a weight within its total.\<close>

lemma weight_percent_bound:
  assumes "cs_weight c \<le> cs_weight_total c"
  shows "unat (weight_percent c) \<le> 100"
proof -
  have "unat (saturating_mul (cs_weight c) 100) \<le> unat (cs_weight c) * 100"
    using unsigned_less[of "cs_weight c"]
    by (auto simp: saturating_mul_def unat_mult_lem [THEN iffD1] unsigned_minus_1_eq_mask
        mask_eq_exp_minus_1)
  also have "\<dots> \<le> unat (cs_weight_total c) * 100"
    using assms by (simp add: word_le_nat_alt)
  finally have "unat (saturating_mul (cs_weight c) 100) div unat (cs_weight_total c) \<le> 100"
    by (metis div_by_0 div_le_mono nonzero_mult_div_cancel_left zero_le)
  then show ?thesis by (simp add: weight_percent_def unat_div)
qed

end
