(* ===== verification/Stats.thy ===== *)
theory Stats
  imports Ip_Addr Path_Rules
begin

text \<open>
  \<open>crates/ramjet-router/src/stats.rs\<close>: the counters that outlive a route table. Successive
  tables share them through \<open>Arc\<close>s, so the model has an explicit store: an \<open>Arc<AtomicU32>\<close>
  is an index into \<open>hp_counters\<close>, an \<open>Arc<BackendSlot>\<close> an index into \<open>hp_slots\<close>, an
  \<open>Arc<RouteSlot>\<close> an index into a list of route slots. An in-flight guard is the index of the
  counter it borrows. All atomics are relaxed read-modify-write operations, so a run is an
  interleaving of the operations below.
\<close>

section \<open>Backend counters\<close>

record backend_slot =
  sl_cursor :: u32
  sl_inflight :: "nat list"
  sl_addrs :: "socket_addr list"

record heap =
  hp_counters :: "u32 list"
  hp_slots :: "backend_slot list"

definition inflight_count :: "heap \<Rightarrow> backend_slot \<Rightarrow> nat \<Rightarrow> u32" where
  "inflight_count hp slot index =
     (case get_at (sl_inflight slot) index of
        None \<Rightarrow> 0
      | Some a \<Rightarrow> hp_counters hp ! a)"

definition fetch_add :: "nat \<Rightarrow> u32 \<Rightarrow> heap \<Rightarrow> heap" where
  "fetch_add a d hp = hp\<lparr> hp_counters := (hp_counters hp)[a := hp_counters hp ! a + d] \<rparr>"

text \<open>\<open>acquire\<close> returns the guard, which is the counter's address.\<close>

definition acquire :: "heap \<Rightarrow> backend_slot \<Rightarrow> nat \<Rightarrow> heap \<times> nat option" where
  "acquire hp slot index =
     (case get_at (sl_inflight slot) index of
        None \<Rightarrow> (hp, None)
      | Some a \<Rightarrow> (fetch_add a 1 hp, Some a))"

definition drop_guard :: "heap \<Rightarrow> nat \<Rightarrow> heap" where
  "drop_guard hp guard = fetch_add guard (- 1) hp"

text \<open>\<open>next_cursor\<close> on the slot at address \<open>s\<close>: the old position, the cursor advanced.\<close>

definition next_cursor :: "heap \<Rightarrow> nat \<Rightarrow> heap \<times> u32" where
  "next_cursor hp s =
     (let slot = hp_slots hp ! s
      in (hp\<lparr> hp_slots := (hp_slots hp)[s := slot\<lparr> sl_cursor := sl_cursor slot + 1 \<rparr>] \<rparr>,
          sl_cursor slot))"

record backend_stats =
  bs_slots :: "nat list"
  bs_by_name :: "string \<Rightarrow> nat option"

definition stats_default :: backend_stats where
  "stats_default = \<lparr> bs_slots = [], bs_by_name = (\<lambda>_. None) \<rparr>"

definition stats_slot :: "backend_stats \<Rightarrow> u32 \<Rightarrow> nat option" where
  "stats_slot st index = get_at (bs_slots st) (unat index)"

text \<open>The counter of one address: the surviving one, or a fresh zero.\<close>

definition carried :: "backend_slot option \<Rightarrow> socket_addr \<Rightarrow> nat option" where
  "carried old addr =
     (case old of
        None \<Rightarrow> None
      | Some prev \<Rightarrow>
          (case position (\<lambda>a. a = addr) (sl_addrs prev) of
             None \<Rightarrow> None
           | Some i \<Rightarrow> get_at (sl_inflight prev) i))"

fun inflight_for ::
  "backend_slot option \<Rightarrow> heap \<Rightarrow> socket_addr list \<Rightarrow> heap \<times> nat list" where
  "inflight_for old hp [] = (hp, [])"
| "inflight_for old hp (addr # addrs) =
     (let (hp1, a) =
        (case carried old addr of
           Some a \<Rightarrow> (hp, a)
         | None \<Rightarrow> (hp\<lparr> hp_counters := hp_counters hp @ [0] \<rparr>, length (hp_counters hp)));
          (hp2, as) = inflight_for old hp1 addrs
      in (hp2, a # as))"

text \<open>One iteration of \<open>rebuild\<close>: the slot of one backend.\<close>

definition slot_for ::
  "backend_stats option \<Rightarrow> heap \<Rightarrow> string \<times> socket_addr list \<Rightarrow> heap \<times> nat" where
  "slot_for previous hp spec =
     (let (name, addrs) = spec;
          old = Option.bind previous (\<lambda>p. bs_by_name p name);
          fresh =
            (\<lambda>old_slot.
               let (hp1, inflight) = inflight_for old_slot hp addrs;
                   cursor = (case old_slot of None \<Rightarrow> 0 | Some prev \<Rightarrow> sl_cursor prev)
               in (hp1\<lparr> hp_slots := hp_slots hp1 @
                     [\<lparr> sl_cursor = cursor, sl_inflight = inflight, sl_addrs = addrs \<rparr>] \<rparr>,
                   length (hp_slots hp1)))
      in case old of
           Some s \<Rightarrow>
             if sl_addrs (hp_slots hp ! s) = addrs then (hp, s) else fresh (Some (hp_slots hp ! s))
         | None \<Rightarrow> fresh None)"

fun rebuild_loop ::
  "backend_stats option \<Rightarrow> heap \<Rightarrow> (string \<times> socket_addr list) list \<Rightarrow> nat list
   \<Rightarrow> (string \<Rightarrow> nat option) \<Rightarrow> heap \<times> nat list \<times> (string \<Rightarrow> nat option)" where
  "rebuild_loop previous hp [] slots by_name = (hp, slots, by_name)"
| "rebuild_loop previous hp (spec # specs) slots by_name =
     (let (hp1, slot) = slot_for previous hp spec
      in rebuild_loop previous hp1 specs (slots @ [slot]) (by_name(fst spec \<mapsto> slot)))"

definition stats_rebuild ::
  "heap \<Rightarrow> (string \<times> socket_addr list) list \<Rightarrow> backend_stats option \<Rightarrow> heap \<times> backend_stats" where
  "stats_rebuild hp specs previous =
     (let (hp1, slots, by_name) = rebuild_loop previous hp specs [] (\<lambda>_. None)
      in (hp1, \<lparr> bs_slots = slots, bs_by_name = by_name \<rparr>))"

section \<open>Route counters\<close>

definition ROUTE_STAT_SHARDS :: nat where
  "ROUTE_STAT_SHARDS = 4"

text \<open>\<open>RouteCounters\<close> and \<open>RouteTotals\<close> have the same four fields.\<close>

record route_counters =
  rc_requests :: u64
  rc_errors_5xx :: u64
  rc_latency_micros :: u64
  rc_latency_count :: u64

definition counters_default :: route_counters where
  "counters_default =
     \<lparr> rc_requests = 0, rc_errors_5xx = 0, rc_latency_micros = 0, rc_latency_count = 0 \<rparr>"

definition record_response :: "u16 \<Rightarrow> route_counters \<Rightarrow> route_counters" where
  "record_response status c =
     (let c1 = c\<lparr> rc_requests := rc_requests c + 1 \<rparr>
      in if 500 \<le> status \<and> status < 600
         then c1\<lparr> rc_errors_5xx := rc_errors_5xx c1 + 1 \<rparr> else c1)"

text \<open>\<open>elapsed.as_micros()\<close> is unbounded here; values past \<open>u64\<close> are clamped.\<close>

definition record_upstream_latency :: "nat \<Rightarrow> route_counters \<Rightarrow> route_counters" where
  "record_upstream_latency micros c =
     c\<lparr> rc_latency_micros :=
          rc_latency_micros c + (if micros < 2 ^ 64 then of_nat micros else - 1),
        rc_latency_count := rc_latency_count c + 1 \<rparr>"

definition totals_saturating_sub :: "route_counters \<Rightarrow> route_counters \<Rightarrow> route_counters" where
  "totals_saturating_sub a b =
     \<lparr> rc_requests = saturating_sub (rc_requests a) (rc_requests b),
       rc_errors_5xx = saturating_sub (rc_errors_5xx a) (rc_errors_5xx b),
       rc_latency_micros = saturating_sub (rc_latency_micros a) (rc_latency_micros b),
       rc_latency_count = saturating_sub (rc_latency_count a) (rc_latency_count b) \<rparr>"

record route_slot =
  rs_shards :: "route_counters list"
  rs_canary_shards :: "route_counters list"

definition route_slot_default :: route_slot where
  "route_slot_default =
     \<lparr> rs_shards = replicate ROUTE_STAT_SHARDS counters_default,
       rs_canary_shards = replicate ROUTE_STAT_SHARDS counters_default \<rparr>"

text \<open>The block a runtime writes to; the update is applied through the shared reference.\<close>

definition on_shard ::
  "nat \<Rightarrow> (route_counters \<Rightarrow> route_counters) \<Rightarrow> route_counters list \<Rightarrow> route_counters list" where
  "on_shard shard f blocks =
     (let index = shard mod ROUTE_STAT_SHARDS;
          at = (if index < length blocks then index else 0)
      in blocks[at := f (blocks ! at)])"

definition update_shard ::
  "nat \<Rightarrow> (route_counters \<Rightarrow> route_counters) \<Rightarrow> route_slot \<Rightarrow> route_slot" where
  "update_shard shard f s = s\<lparr> rs_shards := on_shard shard f (rs_shards s) \<rparr>"

definition update_canary_shard ::
  "nat \<Rightarrow> (route_counters \<Rightarrow> route_counters) \<Rightarrow> route_slot \<Rightarrow> route_slot" where
  "update_canary_shard shard f s = s\<lparr> rs_canary_shards := on_shard shard f (rs_canary_shards s) \<rparr>"

fun sum_shards :: "route_counters \<Rightarrow> route_counters list \<Rightarrow> route_counters" where
  "sum_shards t [] = t"
| "sum_shards t (c # cs) =
     sum_shards
       \<lparr> rc_requests = rc_requests t + rc_requests c,
         rc_errors_5xx = rc_errors_5xx t + rc_errors_5xx c,
         rc_latency_micros = rc_latency_micros t + rc_latency_micros c,
         rc_latency_count = rc_latency_count t + rc_latency_count c \<rparr> cs"

definition route_totals :: "route_slot \<Rightarrow> route_counters" where
  "route_totals s = sum_shards counters_default (rs_shards s)"

definition route_canary_totals :: "route_slot \<Rightarrow> route_counters" where
  "route_canary_totals s = sum_shards counters_default (rs_canary_shards s)"

text \<open>
  \<open>Recorder\<close> of \<open>crates/ramjet-proxy/src/forward.rs\<close>, which the engine's worker repeats: a
  response goes to the route's block, and to the canary block as well when the canary took
  the request.
\<close>

definition recorder_response :: "nat \<Rightarrow> bool \<Rightarrow> u16 \<Rightarrow> route_slot \<Rightarrow> route_slot" where
  "recorder_response shard canaried status s =
     (let s1 = update_shard shard (record_response status) s
      in if canaried then update_canary_shard shard (record_response status) s1 else s1)"

definition recorder_latency :: "nat \<Rightarrow> bool \<Rightarrow> nat \<Rightarrow> route_slot \<Rightarrow> route_slot" where
  "recorder_latency shard canaried micros s =
     (let s1 = update_shard shard (record_upstream_latency micros) s
      in if canaried then update_canary_shard shard (record_upstream_latency micros) s1 else s1)"

record route_identity =
  ri_host :: string
  ri_path :: string
  ri_path_type :: path_type
  ri_backend :: string

record route_stats =
  rst_slots :: "nat list"
  rst_by_identity :: "route_identity \<Rightarrow> nat option"

definition route_stats_slot :: "route_stats \<Rightarrow> u32 \<Rightarrow> nat option" where
  "route_stats_slot st index = get_at (rst_slots st) (unat index)"

definition route_slot_for ::
  "route_stats option \<Rightarrow> route_slot list \<Rightarrow> route_identity \<Rightarrow> route_slot list \<times> nat" where
  "route_slot_for previous hp identity =
     (case Option.bind previous (\<lambda>p. rst_by_identity p identity) of
        Some s \<Rightarrow> (hp, s)
      | None \<Rightarrow> (hp @ [route_slot_default], length hp))"

fun route_rebuild_loop ::
  "route_stats option \<Rightarrow> route_slot list \<Rightarrow> route_identity list \<Rightarrow> nat list
   \<Rightarrow> (route_identity \<Rightarrow> nat option)
   \<Rightarrow> route_slot list \<times> nat list \<times> (route_identity \<Rightarrow> nat option)" where
  "route_rebuild_loop previous hp [] slots by_identity = (hp, slots, by_identity)"
| "route_rebuild_loop previous hp (identity # identities) slots by_identity =
     (let (hp1, slot) = route_slot_for previous hp identity
      in route_rebuild_loop previous hp1 identities (slots @ [slot])
           (by_identity(identity \<mapsto> slot)))"

definition route_stats_rebuild ::
  "route_slot list \<Rightarrow> route_identity list \<Rightarrow> route_stats option \<Rightarrow> route_slot list \<times> route_stats" where
  "route_stats_rebuild hp identities previous =
     (let (hp1, slots, by_identity) = route_rebuild_loop previous hp identities [] (\<lambda>_. None)
      in (hp1, \<lparr> rst_slots = slots, rst_by_identity = by_identity \<rparr>))"

section \<open>Carrying state forward by identity\<close>

text \<open>
  Both rebuilds are the same loop: one slot per spec, reused or allocated, recorded in
  index order and by key. The interface: every allocation keeps the store good and only
  extends it, and delivers a slot that meets its spec, a fact that later extensions keep.
\<close>

locale carry_forward =
  fixes key :: "'s \<Rightarrow> 'k"
    and alloc :: "'h \<Rightarrow> 's \<Rightarrow> 'h \<times> nat"
    and loop :: "'h \<Rightarrow> 's list \<Rightarrow> nat list \<Rightarrow> ('k \<Rightarrow> nat option)
                 \<Rightarrow> 'h \<times> nat list \<times> ('k \<Rightarrow> nat option)"
    and good :: "'h \<Rightarrow> bool"
    and ext :: "'h \<Rightarrow> 'h \<Rightarrow> bool"
    and meets :: "'h \<Rightarrow> 's \<Rightarrow> nat \<Rightarrow> bool"
  assumes loop_Nil: "loop h [] sl bn = (h, sl, bn)"
    and loop_Cons: "loop h (s # ss) sl bn =
          (let (h1, a) = alloc h s in loop h1 ss (sl @ [a]) (bn(key s \<mapsto> a)))"
    and ext_refl: "ext h h"
    and ext_trans: "ext h1 h2 \<Longrightarrow> ext h2 h3 \<Longrightarrow> ext h1 h3"
    and alloc_meets: "good h \<Longrightarrow> alloc h s = (h', a) \<Longrightarrow> good h' \<and> ext h h' \<and> meets h' s a"
    and meets_ext: "meets h s a \<Longrightarrow> ext h h' \<Longrightarrow> meets h' s a"
begin

lemma loop_meets:
  assumes "good h" "loop h ss sl bn = (h', sl', bn')"
  shows "good h' \<and> ext h h' \<and>
    (\<exists>as. sl' = sl @ as \<and> list_all2 (meets h') ss as \<and>
          bn' = bn ++ map_of (rev (zip (map key ss) as)))"
  using assms
proof (induction ss arbitrary: h sl bn)
  case Nil
  then show ?case by (simp add: loop_Nil ext_refl)
next
  case (Cons s ss)
  obtain h1 a where alloc: "alloc h s = (h1, a)" by (cases "alloc h s")
  note m = alloc_meets[OF Cons.prems(1) alloc]
  have "loop h1 ss (sl @ [a]) (bn(key s \<mapsto> a)) = (h', sl', bn')"
    using Cons.prems(2) by (simp add: loop_Cons alloc)
  from Cons.IH[OF _ this] m obtain as where
    IH: "good h'" "ext h1 h'" "sl' = (sl @ [a]) @ as" "list_all2 (meets h') ss as"
      "bn' = bn(key s \<mapsto> a) ++ map_of (rev (zip (map key ss) as))" by blast
  have "meets h' s a" using m IH(2) meets_ext by blast
  moreover have "ext h h'" using m IH(2) ext_trans by blast
  ultimately show ?case using IH by auto
qed

lemma loop_result:
  assumes "good h" "loop h ss [] (\<lambda>_. None) = (h', sl', bn')"
  shows "good h'" "ext h h'" "list_all2 (meets h') ss sl'"
    and "\<And>k a. bn' k = Some a \<Longrightarrow> a \<in> set sl'"
    and "distinct (map key ss) \<Longrightarrow> i < length ss \<Longrightarrow> bn' (key (ss ! i)) = Some (sl' ! i)"
proof -
  from loop_meets[OF assms] have *: "good h'" "ext h h'" "list_all2 (meets h') ss sl'"
    "bn' = map_of (rev (zip (map key ss) sl'))" by auto
  then show "good h'" "ext h h'" "list_all2 (meets h') ss sl'" by auto
  show "\<And>k a. bn' k = Some a \<Longrightarrow> a \<in> set sl'"
    using *(4) by (auto dest!: map_of_SomeD dest: set_zip_rightD)
  assume d: "distinct (map key ss)" "i < length ss"
  have len: "length sl' = length ss" using *(3) by (simp add: list_all2_lengthD)
  have "distinct (map fst (rev (zip (map key ss) sl')))"
    using d(1) len by (simp flip: rev_map)
  moreover have "(key (ss ! i), sl' ! i) \<in> set (rev (zip (map key ss) sl'))"
    using d(2) len by (auto simp: set_zip intro!: exI[of _ i])
  ultimately show "bn' (key (ss ! i)) = Some (sl' ! i)"
    unfolding *(4) by (rule map_of_is_SomeI)
qed

end

section \<open>Backend counters across a rebuild\<close>

definition wf_heap :: "heap \<Rightarrow> bool" where
  "wf_heap hp \<longleftrightarrow>
     (\<forall>slot \<in> set (hp_slots hp).
        length (sl_inflight slot) = length (sl_addrs slot) \<and>
        (\<forall>a \<in> set (sl_inflight slot). a < length (hp_counters hp)))"

definition wf_stats :: "heap \<Rightarrow> backend_stats \<Rightarrow> bool" where
  "wf_stats hp st \<longleftrightarrow>
     (\<forall>s \<in> set (bs_slots st). s < length (hp_slots hp)) \<and>
     (\<forall>name s. bs_by_name st name = Some s \<longrightarrow> s < length (hp_slots hp))"

text \<open>A later store has every old cell unchanged and only zeroed new counters.\<close>

definition heap_ext :: "heap \<Rightarrow> heap \<Rightarrow> bool" where
  "heap_ext hp hp' \<longleftrightarrow>
     (\<exists>n slots. hp_counters hp' = hp_counters hp @ replicate n 0 \<and>
                hp_slots hp' = hp_slots hp @ slots)"

abbreviation old_addr :: "backend_stats option \<Rightarrow> string \<Rightarrow> nat option" where
  "old_addr previous name \<equiv> Option.bind previous (\<lambda>p. bs_by_name p name)"

text \<open>
  What a rebuilt slot promises, relative to the store \<open>hp0\<close> the rebuild started from: the
  addresses asked for, and either the old slot itself, or per address the surviving counter
  or a counter that did not exist before.
\<close>

definition slot_meets ::
  "heap \<Rightarrow> backend_stats option \<Rightarrow> heap \<Rightarrow> string \<times> socket_addr list \<Rightarrow> nat \<Rightarrow> bool" where
  "slot_meets hp0 previous hp spec a \<longleftrightarrow>
     a < length (hp_slots hp) \<and> sl_addrs (hp_slots hp ! a) = snd spec \<and>
     length (sl_inflight (hp_slots hp ! a)) = length (snd spec) \<and>
     (old_addr previous (fst spec) = Some a \<or>
      (\<forall>i < length (snd spec).
         case carried (map_option (\<lambda>s. hp_slots hp0 ! s) (old_addr previous (fst spec)))
                (snd spec ! i) of
           Some c \<Rightarrow> sl_inflight (hp_slots hp ! a) ! i = c
         | None \<Rightarrow> length (hp_counters hp0) \<le> sl_inflight (hp_slots hp ! a) ! i \<and>
                   sl_inflight (hp_slots hp ! a) ! i < length (hp_counters hp)))"

definition heap_good :: "heap \<Rightarrow> backend_stats option \<Rightarrow> heap \<Rightarrow> bool" where
  "heap_good hp0 previous hp \<longleftrightarrow>
     wf_heap hp \<and> heap_ext hp0 hp \<and> (\<forall>st. previous = Some st \<longrightarrow> wf_stats hp0 st)"

lemma heap_ext_refl: "heap_ext hp hp"
  unfolding heap_ext_def by (rule exI[of _ 0], rule exI[of _ "[]"]) simp

lemma heap_ext_trans: "heap_ext h1 h2 \<Longrightarrow> heap_ext h2 h3 \<Longrightarrow> heap_ext h1 h3"
  unfolding heap_ext_def by (metis append.assoc replicate_add)

lemma carried_wf:
  assumes "wf_heap hp" "s < length (hp_slots hp)" "carried (Some (hp_slots hp ! s)) addr = Some c"
  shows "c < length (hp_counters hp)"
proof -
  from assms(3) have "c \<in> set (sl_inflight (hp_slots hp ! s))"
    by (auto simp: carried_def split: option.splits)
  with assms(1,2) show ?thesis unfolding wf_heap_def by (meson nth_mem)
qed

lemma inflight_for_spec:
  assumes "inflight_for old hp addrs = (hp', as)"
    and "\<forall>addr c. carried old addr = Some c \<longrightarrow> c < length (hp_counters hp)"
  shows "\<exists>n. hp' = hp\<lparr> hp_counters := hp_counters hp @ replicate n 0 \<rparr> \<and>
    list_all2 (\<lambda>addr a. a < length (hp_counters hp') \<and>
       (case carried old addr of Some c \<Rightarrow> a = c | None \<Rightarrow> length (hp_counters hp) \<le> a)) addrs as"
  using assms
proof (induction addrs arbitrary: hp as)
  case Nil
  then show ?case by (auto intro: exI[of _ 0])
next
  case (Cons addr addrs)
  show ?case
  proof (cases "carried old addr")
    case (Some c)
    obtain as' where *: "inflight_for old hp addrs = (hp', as')" "as = c # as'"
      using Cons.prems(1) Some by (auto split: prod.splits)
    with Cons.IH[OF *(1) Cons.prems(2)] obtain n where n: "hp' = hp\<lparr> hp_counters := hp_counters hp @ replicate n 0 \<rparr>"
      "list_all2 (\<lambda>addr a. a < length (hp_counters hp') \<and>
         (case carried old addr of Some c \<Rightarrow> a = c | None \<Rightarrow> length (hp_counters hp) \<le> a)) addrs as'"
      by blast
    moreover have "c < length (hp_counters hp')" using Cons.prems(2) Some n(1) by (simp add: trans_less_add1)
    ultimately show ?thesis using * Some by auto
  next
    case None
    let ?hp1 = "hp\<lparr> hp_counters := hp_counters hp @ [0] \<rparr>"
    obtain as' where *: "inflight_for old ?hp1 addrs = (hp', as')" "as = length (hp_counters hp) # as'"
      using Cons.prems(1) None by (auto split: prod.splits)
    have c1: "\<forall>addr c. carried old addr = Some c \<longrightarrow> c < length (hp_counters ?hp1)"
      using Cons.prems(2) by (simp add: less_Suc_eq)
    from Cons.IH[OF *(1) c1] obtain n where n: "hp' = ?hp1\<lparr> hp_counters := hp_counters ?hp1 @ replicate n 0 \<rparr>"
      "list_all2 (\<lambda>addr a. a < length (hp_counters hp') \<and>
         (case carried old addr of Some c \<Rightarrow> a = c | None \<Rightarrow> length (hp_counters ?hp1) \<le> a)) addrs as'"
      by blast
    have "list_all2 (\<lambda>addr a. a < length (hp_counters hp') \<and>
         (case carried old addr of Some c \<Rightarrow> a = c | None \<Rightarrow> length (hp_counters hp) \<le> a)) addrs as'"
      using n(2) by (rule list_all2_mono) (auto split: option.splits)
    moreover have "hp' = hp\<lparr> hp_counters := hp_counters hp @ replicate (Suc n) 0 \<rparr>"
      using n(1) by simp
    ultimately show ?thesis using * None by (intro exI[of _ "Suc n"]) auto
  qed
qed

lemma heap_ext_slot:
  "heap_ext hp hp' \<Longrightarrow> s < length (hp_slots hp) \<Longrightarrow>
     hp_slots hp' ! s = hp_slots hp ! s \<and> s < length (hp_slots hp')"
  by (auto simp: heap_ext_def nth_append)

lemma heap_ext_counter:
  "heap_ext hp hp' \<Longrightarrow> a < length (hp_counters hp) \<Longrightarrow>
     hp_counters hp' ! a = hp_counters hp ! a \<and> a < length (hp_counters hp')"
  by (auto simp: heap_ext_def nth_append)

lemma heap_ext_fresh:
  "heap_ext hp hp' \<Longrightarrow> length (hp_counters hp) \<le> a \<Longrightarrow> a < length (hp_counters hp') \<Longrightarrow>
     hp_counters hp' ! a = 0"
  by (auto simp: heap_ext_def nth_append)

lemma slot_meets_ext:
  assumes "slot_meets hp0 previous hp spec a" "heap_ext hp hp'"
  shows "slot_meets hp0 previous hp' spec a"
proof -
  have "a < length (hp_slots hp)" using assms(1) by (simp add: slot_meets_def)
  note s = heap_ext_slot[OF assms(2) this]
  have "length (hp_counters hp) \<le> length (hp_counters hp')"
    using assms(2) by (auto simp: heap_ext_def)
  with assms(1) s show ?thesis
    by (auto simp: slot_meets_def split: option.splits)
qed

lemma fresh_slot_meets:
  assumes good: "heap_good hp0 previous hp"
    and old: "old = map_option (\<lambda>s. hp_slots hp0 ! s) (old_addr previous name)"
    and fl: "inflight_for old hp addrs = (hp1, as)"
    and hp': "hp' = hp1\<lparr> hp_slots := hp_slots hp1 @
          [\<lparr> sl_cursor = c, sl_inflight = as, sl_addrs = addrs \<rparr>] \<rparr>"
  shows "heap_good hp0 previous hp' \<and> heap_ext hp hp' \<and>
         slot_meets hp0 previous hp' (name, addrs) (length (hp_slots hp1))"
proof -
  have ext0: "heap_ext hp0 hp" and wf: "wf_heap hp" using good by (auto simp: heap_good_def)
  have car: "\<forall>addr c. carried old addr = Some c \<longrightarrow> c < length (hp_counters hp)"
  proof (intro allI impI)
    fix addr c assume c: "carried old addr = Some c"
    then obtain s where s: "old_addr previous name = Some s" "old = Some (hp_slots hp0 ! s)"
      using old by (cases "old_addr previous name") (auto simp: carried_def)
    then have lt: "s < length (hp_slots hp0)"
      using good by (cases previous) (auto simp: heap_good_def wf_stats_def)
    then have "carried (Some (hp_slots hp ! s)) addr = Some c"
      using c s(2) heap_ext_slot[OF ext0 lt] by simp
    then show "c < length (hp_counters hp)"
      using carried_wf[OF wf] heap_ext_slot[OF ext0 lt] by blast
  qed
  obtain n where n: "hp1 = hp\<lparr> hp_counters := hp_counters hp @ replicate n 0 \<rparr>"
    and as: "list_all2 (\<lambda>addr a. a < length (hp_counters hp1) \<and>
       (case carried old addr of Some c \<Rightarrow> a = c | None \<Rightarrow> length (hp_counters hp) \<le> a)) addrs as"
    using inflight_for_spec[OF fl car] by blast
  have ext: "heap_ext hp hp'" using n hp' by (auto simp: heap_ext_def)
  have len: "length as = length addrs" using as by (simp add: list_all2_lengthD)
  have "\<forall>a \<in> set as. a < length (hp_counters hp1)"
    using as len by (auto simp: list_all2_conv_all_nth in_set_conv_nth)
  then have wf': "wf_heap hp'"
    using wf n hp' len by (auto simp: wf_heap_def trans_less_add1)
  have "length (hp_counters hp0) \<le> length (hp_counters hp)"
    using ext0 by (auto simp: heap_ext_def)
  then have "slot_meets hp0 previous hp' (name, addrs) (length (hp_slots hp1))"
    using as len hp' old
    by (auto simp: slot_meets_def list_all2_conv_all_nth split: option.splits)
  with wf' ext heap_ext_trans[OF ext0 ext] good show ?thesis by (simp add: heap_good_def)
qed

lemma slot_for_meets:
  assumes good: "heap_good hp0 previous hp" and sf: "slot_for previous hp spec = (hp', a)"
  shows "heap_good hp0 previous hp' \<and> heap_ext hp hp' \<and> slot_meets hp0 previous hp' spec a"
proof -
  obtain name addrs where spec: "spec = (name, addrs)" by (cases spec)
  have ext0: "heap_ext hp0 hp" and wf: "wf_heap hp" using good by (auto simp: heap_good_def)
  show ?thesis
  proof (cases "old_addr previous name")
    case None
    with sf show ?thesis
      using fresh_slot_meets[OF good, of None name addrs]
      by (auto simp: slot_for_def spec split: prod.splits)
  next
    case (Some s)
    then have lt: "s < length (hp_slots hp0)"
      using good by (cases previous) (auto simp: heap_good_def wf_stats_def)
    note same = heap_ext_slot[OF ext0 lt]
    show ?thesis
    proof (cases "sl_addrs (hp_slots hp ! s) = addrs")
      case True
      then have "hp' = hp" "a = s" using sf Some by (auto simp: slot_for_def spec)
      moreover have "length (sl_inflight (hp_slots hp ! s)) = length addrs"
        using wf same True unfolding wf_heap_def by (metis nth_mem)
      ultimately show ?thesis
        using good True Some same by (simp add: slot_meets_def spec heap_ext_refl)
    next
      case False
      with sf Some same show ?thesis
        using fresh_slot_meets[OF good, of "Some (hp_slots hp0 ! s)" name addrs]
        by (auto simp: slot_for_def spec split: prod.splits)
    qed
  qed
qed

interpretation backend_carry: carry_forward
  fst "slot_for previous" "rebuild_loop previous" "heap_good hp0 previous" heap_ext
  "slot_meets hp0 previous"
  for previous hp0
  by unfold_locales
     (simp_all add: heap_ext_refl slot_for_meets slot_meets_ext, blast intro: heap_ext_trans)

lemma stats_rebuild_result:
  assumes "wf_heap hp" "\<And>st. previous = Some st \<Longrightarrow> wf_stats hp st"
    and "stats_rebuild hp specs previous = (hp', st')"
  shows "wf_heap hp'" "heap_ext hp hp'" "wf_stats hp' st'"
    and "list_all2 (slot_meets hp previous hp') specs (bs_slots st')"
    and "distinct (map fst specs) \<Longrightarrow> i < length specs \<Longrightarrow>
           bs_by_name st' (fst (specs ! i)) = Some (bs_slots st' ! i)"
proof -
  have good: "heap_good hp previous hp"
    using assms(1,2) by (auto simp: heap_good_def heap_ext_refl)
  have loop: "rebuild_loop previous hp specs [] (\<lambda>_. None) = (hp', bs_slots st', bs_by_name st')"
    using assms(3) by (auto simp: stats_rebuild_def split: prod.splits)
  note r = backend_carry.loop_result[OF good loop]
  show "wf_heap hp'" "heap_ext hp hp'" using r(1,2) by (auto simp: heap_good_def)
  show l: "list_all2 (slot_meets hp previous hp') specs (bs_slots st')" by (rule r(3))
  have "\<forall>s \<in> set (bs_slots st'). s < length (hp_slots hp')"
    using l by (auto simp: list_all2_conv_all_nth in_set_conv_nth slot_meets_def)
  then show "wf_stats hp' st'" using r(4) by (auto simp: wf_stats_def)
  show "distinct (map fst specs) \<Longrightarrow> i < length specs \<Longrightarrow>
      bs_by_name st' (fst (specs ! i)) = Some (bs_slots st' ! i)" by (rule r(5))
qed

text \<open>
  A rebuild keeps every surviving in-flight counter: when backend \<open>i\<close> of the new
  generation existed before, an address of its list that was in the old list keeps the very
  counter it had, with its value, so a request in flight across the swap stays counted; an
  address that is new to the backend has a counter that reads zero.
\<close>

theorem stats_rebuild_carries_counters:
  assumes "wf_heap hp" "wf_stats hp st" "stats_rebuild hp specs (Some st) = (hp', st')"
    and "i < length specs" "specs ! i = (name, addrs)" "j < length addrs"
    and "bs_by_name st name = Some s" "distinct (sl_addrs (hp_slots hp ! s))"
  shows "let slot' = hp_slots hp' ! (bs_slots st' ! i) in
    sl_addrs slot' = addrs \<and>
    (\<forall>k < length (sl_addrs (hp_slots hp ! s)).
       sl_addrs (hp_slots hp ! s) ! k = addrs ! j \<longrightarrow>
         sl_inflight slot' ! j = sl_inflight (hp_slots hp ! s) ! k \<and>
         inflight_count hp' slot' j = inflight_count hp (hp_slots hp ! s) k) \<and>
    (addrs ! j \<notin> set (sl_addrs (hp_slots hp ! s)) \<longrightarrow> inflight_count hp' slot' j = 0)"
proof -
  let ?old = "hp_slots hp ! s" and ?a = "bs_slots st' ! i"
  let ?new = "hp_slots hp' ! ?a"
  have s: "s < length (hp_slots hp)" using assms(2,7) by (auto simp: wf_stats_def)
  have wfs: "length (sl_inflight ?old) = length (sl_addrs ?old)"
    "\<forall>a \<in> set (sl_inflight ?old). a < length (hp_counters hp)"
    using assms(1) s by (auto simp: wf_heap_def)
  note r = stats_rebuild_result[OF assms(1) _ assms(3)]
  have ext: "heap_ext hp hp'" using r(2) assms(2) by simp
  have "slot_meets hp (Some st) hp' (specs ! i) ?a"
    using r(4) assms(2,4) by (simp add: list_all2_conv_all_nth)
  then have m: "sl_addrs ?new = addrs" "length (sl_inflight ?new) = length addrs"
    "s = ?a \<or> (case carried (Some ?old) (addrs ! j) of
        Some c \<Rightarrow> sl_inflight ?new ! j = c
      | None \<Rightarrow> length (hp_counters hp) \<le> sl_inflight ?new ! j \<and>
                sl_inflight ?new ! j < length (hp_counters hp'))"
    using assms(5-7) by (auto simp: slot_meets_def)
  have same: "?new = ?old" if "s = ?a"
    using that heap_ext_slot[OF ext s] by simp
  have carry: "sl_inflight ?new ! j = sl_inflight ?old ! k"
    if k: "k < length (sl_addrs ?old)" "sl_addrs ?old ! k = addrs ! j" for k
  proof (cases "s = ?a")
    case True
    from same[OF True] m(1) have "sl_addrs ?old = addrs" by simp
    with k assms(6) nth_eq_iff_index_eq[OF assms(8), of k j] have "k = j" by simp
    with same[OF True] show ?thesis by simp
  next
    case False
    have "position (\<lambda>a. a = addrs ! j) (sl_addrs ?old) = Some k"
      unfolding position_Some_iff k(2) [symmetric] using k(1) nth_eq_iff_index_eq[OF assms(8)]
      by auto
    with False m(3) k(1) wfs(1) show ?thesis by (auto simp: carried_def get_at_def)
  qed
  have count: "inflight_count hp' ?new j = inflight_count hp ?old k"
    if k: "k < length (sl_addrs ?old)" "sl_addrs ?old ! k = addrs ! j" for k
    using carry[OF k] k(1) m(2) assms(6) wfs heap_ext_counter[OF ext]
    by (simp add: inflight_count_def get_at_def)
  have fresh: "inflight_count hp' ?new j = 0" if "addrs ! j \<notin> set (sl_addrs ?old)"
  proof -
    have "s \<noteq> ?a"
    proof
      assume "s = ?a"
      from same[OF this] m(1) assms(6) that show False by simp
    qed
    moreover have "position (\<lambda>a. a = addrs ! j) (sl_addrs ?old) = None"
      using that by (auto simp: position_None_iff)
    then have "carried (Some ?old) (addrs ! j) = None" by (simp add: carried_def)
    ultimately show ?thesis
      using m heap_ext_fresh[OF ext] assms(6) by (simp add: inflight_count_def get_at_def)
  qed
  show ?thesis using m(1) carry count fresh by (simp add: Let_def)
qed

definition addr_a :: socket_addr where
  "addr_a = SocketAddr (IPv4 10 0 0 1) 8080"

definition addr_b :: socket_addr where
  "addr_b = SocketAddr (IPv4 10 0 0 2) 8080"

definition sample_heap :: heap where
  "sample_heap =
     \<lparr> hp_counters = [5], hp_slots = [\<lparr> sl_cursor = 9, sl_inflight = [0], sl_addrs = [addr_a] \<rparr>] \<rparr>"

definition sample_stats :: backend_stats where
  "sample_stats = \<lparr> bs_slots = [0], bs_by_name = [''api'' \<mapsto> 0] \<rparr>"

definition sample_specs :: "(string \<times> socket_addr list) list" where
  "sample_specs = [(''api'', [addr_b, addr_a])]"

lemmas sample_stats_defs = sample_heap_def sample_stats_def sample_specs_def addr_a_def addr_b_def

lemma sample_rebuild:
  "stats_rebuild sample_heap sample_specs (Some sample_stats) =
     (\<lparr> hp_counters = [5, 0],
        hp_slots = [\<lparr> sl_cursor = 9, sl_inflight = [0], sl_addrs = [addr_a] \<rparr>,
                    \<lparr> sl_cursor = 9, sl_inflight = [1, 0], sl_addrs = [addr_b, addr_a] \<rparr>] \<rparr>,
      \<lparr> bs_slots = [1], bs_by_name = [''api'' \<mapsto> 1] \<rparr>)"
  by (simp add: stats_rebuild_def slot_for_def carried_def get_at_def sample_stats_defs)

theorem stats_rebuild_carries_counters_witness:
  "sl_inflight (hp_slots (fst (stats_rebuild sample_heap sample_specs (Some sample_stats)))
     ! (bs_slots (snd (stats_rebuild sample_heap sample_specs (Some sample_stats))) ! 0)) ! 1 = 0"
proof -
  have "wf_heap sample_heap" "wf_stats sample_heap sample_stats"
    by (auto simp: wf_heap_def wf_stats_def sample_stats_defs split: if_splits)
  from stats_rebuild_carries_counters[OF this, of sample_specs _ _ 0 "''api''" "[addr_b, addr_a]" 1 0,
      OF surjective_pairing]
  show ?thesis by (simp add: Let_def sample_stats_defs)
qed

section \<open>In-flight accounting\<close>

text \<open>
  A run of the data plane: guards are taken through any slot a table of this or an earlier
  generation holds, dropped in any order, and the controller rebuilds in between.
\<close>

record world =
  w_heap :: heap
  w_stats :: backend_stats
  w_guards :: "nat list"

definition world_init :: world where
  "world_init = \<lparr> w_heap = \<lparr> hp_counters = [], hp_slots = [] \<rparr>, w_stats = stats_default, w_guards = [] \<rparr>"

inductive wstep :: "world \<Rightarrow> world \<Rightarrow> bool" where
  take_guard:
    "s < length (hp_slots (w_heap w)) \<Longrightarrow>
     acquire (w_heap w) (hp_slots (w_heap w) ! s) i = (hp', Some g) \<Longrightarrow>
     wstep w (w\<lparr> w_heap := hp', w_guards := g # w_guards w \<rparr>)"
| release_guard:
    "g \<in> set (w_guards w) \<Longrightarrow>
     wstep w (w\<lparr> w_heap := drop_guard (w_heap w) g, w_guards := remove1 g (w_guards w) \<rparr>)"
| advance_cursor:
    "s < length (hp_slots (w_heap w)) \<Longrightarrow>
     wstep w (w\<lparr> w_heap := fst (next_cursor (w_heap w) s) \<rparr>)"
| rebuild_stats:
    "stats_rebuild (w_heap w) specs (Some (w_stats w)) = (hp', st') \<Longrightarrow>
     wstep w (w\<lparr> w_heap := hp', w_stats := st' \<rparr>)"

inductive_cases wstepE: "wstep w w'"

definition winv :: "world \<Rightarrow> bool" where
  "winv w \<longleftrightarrow>
     wf_heap (w_heap w) \<and> wf_stats (w_heap w) (w_stats w) \<and>
     (\<forall>g \<in> set (w_guards w). g < length (hp_counters (w_heap w))) \<and>
     (\<forall>a < length (hp_counters (w_heap w)).
        hp_counters (w_heap w) ! a = of_nat (count_list (w_guards w) a))"

lemma fetch_add_fields [simp]:
  "hp_slots (fetch_add a d hp) = hp_slots hp"
  "length (hp_counters (fetch_add a d hp)) = length (hp_counters hp)"
  "b < length (hp_counters hp) \<Longrightarrow>
     hp_counters (fetch_add a d hp) ! b = hp_counters hp ! b + (if b = a then d else 0)"
  by (simp_all add: fetch_add_def nth_list_update)

lemma wf_fetch_add [simp]:
  "wf_heap (fetch_add a d hp) = wf_heap hp" "wf_stats (fetch_add a d hp) st = wf_stats hp st"
  by (simp_all add: wf_heap_def wf_stats_def)

lemma next_cursor_fields [simp]:
  "hp_counters (fst (next_cursor hp s)) = hp_counters hp"
  "length (hp_slots (fst (next_cursor hp s))) = length (hp_slots hp)"
  by (simp_all add: next_cursor_def Let_def)

lemma wf_next_cursor:
  assumes "wf_heap hp" "s < length (hp_slots hp)"
  shows "wf_heap (fst (next_cursor hp s))"
proof -
  have "slot \<in> set (hp_slots hp) \<or> slot = (hp_slots hp ! s)\<lparr> sl_cursor := sl_cursor (hp_slots hp ! s) + 1 \<rparr>"
    if "slot \<in> set (hp_slots (fst (next_cursor hp s)))" for slot
    using that set_update_subset_insert[of "hp_slots hp" s] by (auto simp: next_cursor_def Let_def)
  moreover have "hp_slots hp ! s \<in> set (hp_slots hp)" using assms(2) by simp
  ultimately show ?thesis using assms(1) unfolding wf_heap_def by fastforce
qed

lemma count_list_remove1:
  "g \<in> set gs \<Longrightarrow> count_list gs a = count_list (remove1 g gs) a + (if a = g then 1 else 0)"
  by (induction gs) auto

lemma winvD:
  assumes "winv w"
  shows "wf_heap (w_heap w)" "wf_stats (w_heap w) (w_stats w)"
    "g \<in> set (w_guards w) \<Longrightarrow> g < length (hp_counters (w_heap w))"
    "a < length (hp_counters (w_heap w)) \<Longrightarrow>
       hp_counters (w_heap w) ! a = of_nat (count_list (w_guards w) a)"
  using assms by (simp_all add: winv_def)

lemma winv_take_guard:
  assumes "winv w" "s < length (hp_slots (w_heap w))"
    and "acquire (w_heap w) (hp_slots (w_heap w) ! s) i = (hp', Some g)"
  shows "winv (w\<lparr> w_heap := hp', w_guards := g # w_guards w \<rparr>)"
proof -
  let ?slot = "hp_slots (w_heap w) ! s"
  have g: "g \<in> set (sl_inflight ?slot)" "hp' = fetch_add g 1 (w_heap w)"
    using assms(3) by (auto simp: acquire_def split: option.splits)
  have "g < length (hp_counters (w_heap w))"
    using winvD(1)[OF assms(1)] g(1) nth_mem[OF assms(2)] unfolding wf_heap_def by blast
  with winvD[OF assms(1)] show ?thesis by (simp add: winv_def g(2))
qed

lemma winv_release_guard:
  assumes "winv w" "g \<in> set (w_guards w)"
  shows "winv (w\<lparr> w_heap := drop_guard (w_heap w) g, w_guards := remove1 g (w_guards w) \<rparr>)"
proof -
  have "of_nat (count_list (w_guards w) a) + (if a = g then - 1 else 0) =
      (of_nat (count_list (remove1 g (w_guards w)) a) :: u32)" for a
    unfolding count_list_remove1[OF assms(2), of a] by simp
  moreover have "\<forall>h \<in> set (remove1 g (w_guards w)). h < length (hp_counters (w_heap w))"
    using winvD(3)[OF assms(1)] set_remove1_subset[of g "w_guards w"] by blast
  ultimately show ?thesis using winvD[OF assms(1)] by (simp add: winv_def drop_guard_def)
qed

lemma winv_advance_cursor:
  assumes "winv w" "s < length (hp_slots (w_heap w))"
  shows "winv (w\<lparr> w_heap := fst (next_cursor (w_heap w) s) \<rparr>)"
proof -
  have "wf_stats (fst (next_cursor (w_heap w) s)) (w_stats w)"
    using winvD(2)[OF assms(1)] by (simp add: wf_stats_def)
  with wf_next_cursor[OF winvD(1)[OF assms(1)] assms(2)] winvD(3,4)[OF assms(1)]
  show ?thesis by (simp add: winv_def)
qed

lemma winv_rebuild_stats:
  assumes "winv w" "stats_rebuild (w_heap w) specs (Some (w_stats w)) = (hp', st')"
  shows "winv (w\<lparr> w_heap := hp', w_stats := st' \<rparr>)"
proof -
  have wf': "wf_stats (w_heap w) st" if "Some (w_stats w) = Some st" for st
    using that winvD(2)[OF assms(1)] by simp
  note r = stats_rebuild_result(1-3)[OF winvD(1)[OF assms(1)] wf' assms(2)]
  have "hp_counters hp' ! a = of_nat (count_list (w_guards w) a)"
    if "a < length (hp_counters hp')" for a
  proof (cases "a < length (hp_counters (w_heap w))")
    case True
    with winvD(4)[OF assms(1)] heap_ext_counter[OF r(2) True] show ?thesis by simp
  next
    case False
    with winvD(3)[OF assms(1)] have "a \<notin> set (w_guards w)" by blast
    with False heap_ext_fresh[OF r(2) _ that] show ?thesis by (simp add: count_notin)
  qed
  moreover have "\<forall>g \<in> set (w_guards w). g < length (hp_counters hp')"
    using winvD(3)[OF assms(1)] heap_ext_counter[OF r(2)] by simp
  ultimately show ?thesis using r by (simp add: winv_def)
qed

lemma wstep_winv: "wstep w w' \<Longrightarrow> winv w \<Longrightarrow> winv w'"
  by (erule wstepE) (simp_all only: winv_take_guard winv_release_guard winv_advance_cursor
      winv_rebuild_stats)

lemma winv_init: "winv world_init"
  by (simp add: winv_def world_init_def wf_heap_def wf_stats_def stats_default_def)

lemma reachable_winv: "wstep\<^sup>*\<^sup>* world_init w \<Longrightarrow> winv w"
  by (induction rule: rtranclp_induct) (auto intro: winv_init wstep_winv)

text \<open>
  C4. In-flight accounting is exact in every reachable state, across any interleaving of
  acquires, drops, cursor moves and rebuilds: a counter equals the number of outstanding
  guards on it (for fewer than \<open>2\<^sup>3\<^sup>2\<close> outstanding guards, the width of the counter).
\<close>

theorem inflight_accounting:
  assumes "wstep\<^sup>*\<^sup>* world_init w" "length (w_guards w) < 2 ^ 32"
    and "a < length (hp_counters (w_heap w))"
  shows "unat (hp_counters (w_heap w) ! a) = count_list (w_guards w) a"
proof -
  have "count_list (w_guards w) a < 2 ^ 32"
    using assms(2) count_le_length[of "w_guards w" a] by simp
  with reachable_winv[OF assms(1)] assms(3) show ?thesis
    by (simp add: winv_def unat_of_nat take_bit_nat_eq_self)
qed

definition world_one :: world where
  "world_one =
     \<lparr> w_heap = \<lparr> hp_counters = [1],
                   hp_slots = [\<lparr> sl_cursor = 0, sl_inflight = [0], sl_addrs = [addr_a] \<rparr>] \<rparr>,
       w_stats = \<lparr> bs_slots = [0], bs_by_name = [''api'' \<mapsto> 0] \<rparr>, w_guards = [0] \<rparr>"

lemma world_one_reachable: "wstep\<^sup>*\<^sup>* world_init world_one"
proof -
  let ?w = "world_one\<lparr> w_guards := [], w_heap := (w_heap world_one)\<lparr> hp_counters := [0] \<rparr> \<rparr>"
  have "wstep world_init (world_init\<lparr> w_heap := w_heap ?w, w_stats := w_stats ?w \<rparr>)"
    by (rule rebuild_stats[of _ "[(''api'', [addr_a])]"])
       (simp add: world_init_def world_one_def stats_default_def stats_rebuild_def slot_for_def carried_def)
  moreover have "world_init\<lparr> w_heap := w_heap ?w, w_stats := w_stats ?w \<rparr> = ?w"
    by (simp add: world_init_def world_one_def)
  ultimately have "wstep world_init ?w" by simp
  moreover have "wstep ?w (?w\<lparr> w_heap := w_heap world_one, w_guards := 0 # w_guards ?w \<rparr>)"
    by (rule take_guard[of 0 _ 0]) (simp_all add: world_one_def acquire_def fetch_add_def get_at_def)
  moreover have "?w\<lparr> w_heap := w_heap world_one, w_guards := 0 # w_guards ?w \<rparr> = world_one"
    by (simp add: world_one_def)
  ultimately show ?thesis by (metis converse_rtranclp_into_rtranclp rtranclp.rtrancl_refl)
qed

theorem inflight_accounting_witness:
  "unat (hp_counters (w_heap world_one) ! 0) = 1"
  using inflight_accounting[OF world_one_reachable, of 0] by (simp add: world_one_def)

section \<open>Route counters\<close>

definition routes_ext :: "route_slot list \<Rightarrow> route_slot list \<Rightarrow> bool" where
  "routes_ext hp hp' \<longleftrightarrow> (\<exists>new. hp' = hp @ new)"

abbreviation old_route :: "route_stats option \<Rightarrow> route_identity \<Rightarrow> nat option" where
  "old_route previous identity \<equiv> Option.bind previous (\<lambda>p. rst_by_identity p identity)"

definition routes_good :: "route_slot list \<Rightarrow> route_stats option \<Rightarrow> route_slot list \<Rightarrow> bool" where
  "routes_good hp0 previous hp \<longleftrightarrow>
     routes_ext hp0 hp \<and> (\<forall>id s. old_route previous id = Some s \<longrightarrow> s < length hp0)"

definition route_meets ::
  "route_slot list \<Rightarrow> route_stats option \<Rightarrow> route_slot list \<Rightarrow> route_identity \<Rightarrow> nat \<Rightarrow> bool" where
  "route_meets hp0 previous hp identity a \<longleftrightarrow>
     a < length hp \<and>
     (case old_route previous identity of
        Some s \<Rightarrow> a = s
      | None \<Rightarrow> length hp0 \<le> a \<and> hp ! a = route_slot_default)"

lemma routes_ext_trans: "routes_ext h1 h2 \<Longrightarrow> routes_ext h2 h3 \<Longrightarrow> routes_ext h1 h3"
  by (auto simp: routes_ext_def)

lemma route_slot_for_meets:
  assumes "routes_good hp0 previous hp" "route_slot_for previous hp identity = (hp', a)"
  shows "routes_good hp0 previous hp' \<and> routes_ext hp hp' \<and> route_meets hp0 previous hp' identity a"
proof (cases "old_route previous identity")
  case None
  with assms have "hp' = hp @ [route_slot_default]" "a = length hp" "length hp0 \<le> length hp"
    by (auto simp: route_slot_for_def routes_good_def routes_ext_def)
  with None assms(1) show ?thesis by (auto simp: routes_good_def routes_ext_def route_meets_def)
next
  case (Some s)
  with assms(2) have "hp' = hp" "a = s" by (auto simp: route_slot_for_def)
  moreover have "s < length hp"
    using assms(1) Some unfolding routes_good_def routes_ext_def by fastforce
  ultimately show ?thesis using Some assms(1) by (auto simp: routes_ext_def route_meets_def)
qed

interpretation route_carry: carry_forward
  "\<lambda>identity. identity" "route_slot_for previous" "route_rebuild_loop previous"
  "routes_good hp0 previous" routes_ext "route_meets hp0 previous"
  for previous hp0
proof unfold_locales
  show "routes_ext h1 h3" if "routes_ext h1 h2" "routes_ext h2 h3" for h1 h2 h3
    using that by (rule routes_ext_trans)
  show "route_meets hp0 previous h' s a" if "route_meets hp0 previous h s a" "routes_ext h h'"
    for h s a h'
    using that by (auto simp: route_meets_def routes_ext_def nth_append split: option.splits)
  show "routes_good hp0 previous h' \<and> routes_ext h h' \<and> route_meets hp0 previous h' s a"
    if "routes_good hp0 previous h" "route_slot_for previous h s = (h', a)" for h s h' a
    using that by (rule route_slot_for_meets)
qed (simp_all add: routes_ext_def)

text \<open>
  Route counters are carried across a rebuild by identity, not by position: every route
  of the new generation whose host, path, path type and backend existed before gets the
  same counter block, wherever it moved in the table, and every other route a fresh block of
  zeros; no existing block is touched.
\<close>

theorem route_stats_rebuild_by_identity:
  assumes "\<forall>id s. rst_by_identity st id = Some s \<longrightarrow> s < length hp"
    and "route_stats_rebuild hp ids (Some st) = (hp', st')" "i < length ids"
  shows "take (length hp) hp' = hp \<and>
    (case rst_by_identity st (ids ! i) of
       Some s \<Rightarrow> rst_slots st' ! i = s
     | None \<Rightarrow> rst_slots st' ! i \<ge> length hp \<and> hp' ! (rst_slots st' ! i) = route_slot_default)"
proof -
  have good: "routes_good hp (Some st) hp" using assms(1) by (simp add: routes_good_def routes_ext_def)
  have loop: "route_rebuild_loop (Some st) hp ids [] (\<lambda>_. None) = (hp', rst_slots st', rst_by_identity st')"
    using assms(2) by (auto simp: route_stats_rebuild_def split: prod.splits)
  note r = route_carry.loop_result[OF good loop]
  have "route_meets hp (Some st) hp' (ids ! i) (rst_slots st' ! i)"
    using r(3) assms(3) by (simp add: list_all2_conv_all_nth)
  with r(2) show ?thesis by (auto simp: route_meets_def routes_ext_def split: option.splits)
qed

definition identity_api :: route_identity where
  "identity_api = \<lparr> ri_host = ''shop.example.com'', ri_path = ''/api'', ri_path_type = Prefix, ri_backend = ''api'' \<rparr>"

definition identity_web :: route_identity where
  "identity_web = \<lparr> ri_host = ''*'', ri_path = ''/'', ri_path_type = Prefix, ri_backend = ''web'' \<rparr>"

theorem route_stats_rebuild_by_identity_witness:
  "rst_slots (snd (route_stats_rebuild [route_slot_default] [identity_web, identity_api]
     (Some \<lparr> rst_slots = [0], rst_by_identity = [identity_api \<mapsto> 0] \<rparr>))) ! 1 = 0"
  using route_stats_rebuild_by_identity[of "\<lparr> rst_slots = [0], rst_by_identity = [identity_api \<mapsto> 0] \<rparr>"
      "[route_slot_default]" "[identity_web, identity_api]" _ _ 1, OF _ surjective_pairing]
  by (simp add: identity_api_def)

subsection \<open>Totals\<close>

lemma sum_shards_fields:
  "rc_requests (sum_shards t cs) = rc_requests t + sum_list (map rc_requests cs)"
  "rc_errors_5xx (sum_shards t cs) = rc_errors_5xx t + sum_list (map rc_errors_5xx cs)"
  by (induction t cs rule: sum_shards.induct) (simp_all add: add.assoc)

lemma sum_list_on_shard:
  fixes proj :: "route_counters \<Rightarrow> u64"
  assumes "length cs = ROUTE_STAT_SHARDS" "\<And>c. proj (f c) = proj c + d"
  shows "sum_list (map proj (on_shard k f cs)) = sum_list (map proj cs) + d"
proof -
  have upd: "sum_list (map proj (xs[i := f (xs ! i)])) = sum_list (map proj xs) + d"
    if "i < length xs" for i and xs :: "route_counters list"
    using that
  proof (induction xs arbitrary: i)
    case (Cons x xs)
    then show ?case by (cases i) (simp_all add: assms(2))
  qed simp
  have "k mod ROUTE_STAT_SHARDS < length cs" using assms(1) by (simp add: ROUTE_STAT_SHARDS_def)
  with upd show ?thesis by (simp add: on_shard_def Let_def)
qed

definition is_5xx :: "u16 \<Rightarrow> bool" where
  "is_5xx status \<longleftrightarrow> 500 \<le> status \<and> status < 600"

lemma record_response_fields:
  "rc_requests (record_response status c) = rc_requests c + 1"
  "rc_errors_5xx (record_response status c) = rc_errors_5xx c + (if is_5xx status then 1 else 0)"
  by (simp_all add: record_response_def is_5xx_def Let_def)

definition slot_shape :: "route_slot \<Rightarrow> bool" where
  "slot_shape s \<longleftrightarrow>
     length (rs_shards s) = ROUTE_STAT_SHARDS \<and> length (rs_canary_shards s) = ROUTE_STAT_SHARDS"

lemma recorder_response_totals:
  assumes "slot_shape s"
  shows "slot_shape (recorder_response k canaried status s)"
    "rc_requests (route_totals (recorder_response k canaried status s)) = rc_requests (route_totals s) + 1"
    "rc_requests (route_canary_totals (recorder_response k canaried status s)) =
       rc_requests (route_canary_totals s) + (if canaried then 1 else 0)"
    "rc_errors_5xx (route_totals (recorder_response k canaried status s)) =
       rc_errors_5xx (route_totals s) + (if is_5xx status then 1 else 0)"
    "rc_errors_5xx (route_canary_totals (recorder_response k canaried status s)) =
       rc_errors_5xx (route_canary_totals s) + (if canaried \<and> is_5xx status then 1 else 0)"
proof -
  have len: "length (rs_shards s) = ROUTE_STAT_SHARDS" "length (rs_canary_shards s) = ROUTE_STAT_SHARDS"
    using assms by (simp_all add: slot_shape_def)
  note sums = sum_list_on_shard[of _ rc_requests "record_response status", OF _ record_response_fields(1)]
    sum_list_on_shard[of _ rc_errors_5xx "record_response status", OF _ record_response_fields(2)]
  note defs = recorder_response_def update_shard_def update_canary_shard_def Let_def
  show "slot_shape (recorder_response k canaried status s)"
    using len by (simp add: slot_shape_def defs on_shard_def)
  show "rc_requests (route_totals (recorder_response k canaried status s)) = rc_requests (route_totals s) + 1"
    using len by (simp add: defs route_totals_def sum_shards_fields sums counters_default_def)
  show "rc_requests (route_canary_totals (recorder_response k canaried status s)) =
       rc_requests (route_canary_totals s) + (if canaried then 1 else 0)"
    using len by (simp add: defs route_canary_totals_def sum_shards_fields sums counters_default_def)
  show "rc_errors_5xx (route_totals (recorder_response k canaried status s)) =
       rc_errors_5xx (route_totals s) + (if is_5xx status then 1 else 0)"
    using len by (simp add: defs route_totals_def sum_shards_fields sums counters_default_def)
  show "rc_errors_5xx (route_canary_totals (recorder_response k canaried status s)) =
       rc_errors_5xx (route_canary_totals s) + (if canaried \<and> is_5xx status then 1 else 0)"
    using len by (simp add: defs route_canary_totals_def sum_shards_fields sums counters_default_def)
qed

definition recorded :: "(nat \<times> bool \<times> u16) list \<Rightarrow> route_slot" where
  "recorded log = fold (\<lambda>(k, canaried, status). recorder_response k canaried status) log route_slot_default"

lemma recorded_totals:
  "slot_shape (recorded log) \<and>
   rc_requests (route_totals (recorded log)) = of_nat (length log) \<and>
   rc_requests (route_canary_totals (recorded log)) = of_nat (length (filter (\<lambda>(_, c, _). c) log)) \<and>
   rc_errors_5xx (route_totals (recorded log)) = of_nat (length (filter (\<lambda>(_, _, st). is_5xx st) log)) \<and>
   rc_errors_5xx (route_canary_totals (recorded log)) =
     of_nat (length (filter (\<lambda>(_, c, st). c \<and> is_5xx st) log))"
proof (induction log rule: rev_induct)
  case Nil
  show ?case
    by (simp add: recorded_def slot_shape_def route_slot_default_def route_totals_def
        route_canary_totals_def counters_default_def sum_shards_fields sum_list_replicate)
next
  case (snoc x log)
  obtain k c st where x: "x = (k, c, st)" by (cases x)
  have r: "recorded (log @ [x]) = recorder_response k c st (recorded log)"
    by (simp add: recorded_def x)
  have "slot_shape (recorded log)" using snoc.IH by simp
  note t = recorder_response_totals[OF this, of k c st]
  show ?case unfolding r using t snoc.IH by (simp add: x)
qed

lemma unat_of_nat_u64: "n < 2 ^ 64 \<Longrightarrow> unat (of_nat n :: u64) = n"
  by (simp add: unat_of_nat take_bit_nat_eq_self)

text \<open>
  The canary block is a subset of the route's totals: after any sequence of fewer than
  \<open>2\<^sup>6\<^sup>4\<close> responses recorded from any cores, the totals count every response, and the stable
  share \<open>totals - canary\<close> counts exactly the responses the canary did not take, and exactly
  the 5xx responses among them.
\<close>

theorem stable_share_exact:
  assumes "length log < 2 ^ 64"
  shows "let s = recorded log;
             stable = totals_saturating_sub (route_totals s) (route_canary_totals s)
         in unat (rc_requests (route_totals s)) = length log \<and>
            unat (rc_requests stable) = length (filter (\<lambda>(_, c, _). \<not> c) log) \<and>
            unat (rc_errors_5xx stable) = length (filter (\<lambda>(_, c, st). \<not> c \<and> is_5xx st) log)"
proof -
  have lens: "length (filter P log) < 2 ^ 64" for P
    using assms length_filter_le[of P log] by (rule le_less_trans [rotated])
  have all: "length (filter (\<lambda>(_, c, _). c) log) + length (filter (\<lambda>(_, c, _). \<not> c) log) = length log"
    by (induction log) auto
  have err: "length (filter (\<lambda>(_, c, st). c \<and> is_5xx st) log) + length (filter (\<lambda>(_, c, st). \<not> c \<and> is_5xx st) log)
      = length (filter (\<lambda>(_, _, st). is_5xx st) log)"
    by (induction log) auto
  have all': "length log - length (filter (\<lambda>(_, c, _). c) log) = length (filter (\<lambda>(_, c, _). \<not> c) log)"
    unfolding all [symmetric] by (rule diff_add_inverse)
  have err': "length (filter (\<lambda>(_, _, st). is_5xx st) log) - length (filter (\<lambda>(_, c, st). c \<and> is_5xx st) log)
      = length (filter (\<lambda>(_, c, st). \<not> c \<and> is_5xx st) log)"
    unfolding err [symmetric] by (rule diff_add_inverse)
  show ?thesis
    using recorded_totals[of log]
    by (simp add: Let_def totals_saturating_sub_def unat_saturating_sub
        unat_of_nat_u64[OF assms] unat_of_nat_u64[OF lens] all' err')
qed

theorem stable_share_exact_witness:
  "unat (rc_requests (totals_saturating_sub (route_totals (recorded [(0, False, 200), (5, True, 503)]))
     (route_canary_totals (recorded [(0, False, 200), (5, True, 503)])))) = 1"
  using stable_share_exact[of "[(0, False, 200), (5, True, 503)]"]
  by (simp add: Let_def)

end
