(* ===== verification/Backend.thy ===== *)
theory Backend
  imports Stats
begin

text \<open>
  \<open>crates/ramjet-router/src/backend.rs\<close>: backends, the precomputed weighted rotation and
  endpoint selection. A \<open>usize\<close> is 64 bits; an endpoint list is shorter than \<open>2\<^sup>3\<^sup>2\<close>, so the
  ring's \<open>u32\<close> entries are kept as \<open>nat\<close> indices with the cast written out.
\<close>

section \<open>Definitions\<close>

record endpoint =
  ep_addr :: socket_addr
  ep_weight :: u32

definition endpoint_new :: "socket_addr \<Rightarrow> endpoint" where
  "endpoint_new addr = \<lparr> ep_addr = addr, ep_weight = 1 \<rparr>"

datatype backend_protocol = Http1 | H2c

fun protocol_as_str :: "backend_protocol \<Rightarrow> string" where
  "protocol_as_str Http1 = ''http''"
| "protocol_as_str H2c = ''h2c''"

datatype lb_policy = RoundRobin | Random | LeastConn

definition MAX_RING :: nat where
  "MAX_RING = 4096"

record backend =
  be_name :: string
  be_endpoints :: "endpoint list"
  be_policy :: lb_policy
  be_protocol :: backend_protocol
  be_stats_index :: u32
  be_ring :: "u32 list option"

text \<open>
  The weights are summed in \<open>u64\<close>; with fewer than \<open>2\<^sup>3\<^sup>2\<close> endpoints the sum and the
  product below \<open>2\<^sup>6\<^sup>4\<close> cannot overflow, so they are computed in \<open>nat\<close>.
\<close>

definition ring_total :: "endpoint list \<Rightarrow> nat" where
  "ring_total endpoints = sum_list (map (\<lambda>e. unat (ep_weight e)) endpoints)"

definition ring_scale :: "nat \<Rightarrow> nat \<Rightarrow> nat" where
  "ring_scale tot w =
     (if w = 0 then 0
      else if tot \<le> MAX_RING then w
      else max (w * MAX_RING div tot) 1)"

text \<open>One pass of the interleaving loop: the indices emitted and the slots left.\<close>

fun ring_pass :: "nat \<Rightarrow> nat list \<Rightarrow> u32 list \<times> nat list" where
  "ring_pass i [] = ([], [])"
| "ring_pass i (left # rest) =
     (let (out, rest') = ring_pass (i + 1) rest
      in if left > 0 then (of_nat i # out, (left - 1) # rest') else (out, left # rest'))"

function ring_loop :: "nat \<Rightarrow> u32 list \<Rightarrow> nat list \<Rightarrow> u32 list" where
  "ring_loop slots ring remaining =
     (if length ring < slots
      then (let (out, remaining') = ring_pass 0 remaining
            in if out = [] then ring else ring_loop slots (ring @ out) remaining')
      else ring)"
  by pat_completeness auto
termination
  by (relation "measure (\<lambda>(slots, ring, _). slots - length ring)") (auto intro!: diff_less_mono2)

declare ring_loop.simps [simp del]

definition build_ring :: "endpoint list \<Rightarrow> u32 list option" where
  "build_ring endpoints =
     (case endpoints of
        [] \<Rightarrow> None
      | first # _ \<Rightarrow>
          if list_all (\<lambda>e. ep_weight e = ep_weight first) endpoints then None
          else if ring_total endpoints = 0 then None
          else
            let remaining = map (\<lambda>e. ring_scale (ring_total endpoints) (unat (ep_weight e))) endpoints;
                slots = sum_list remaining
            in if slots = 0 then None else Some (ring_loop slots [] remaining))"

definition backend_new ::
  "string \<Rightarrow> endpoint list \<Rightarrow> lb_policy \<Rightarrow> backend_protocol \<Rightarrow> u32 \<Rightarrow> backend" where
  "backend_new name endpoints policy protocol stats_index =
     \<lparr> be_name = name, be_endpoints = endpoints, be_policy = policy, be_protocol = protocol,
       be_stats_index = stats_index, be_ring = build_ring endpoints \<rparr>"

text \<open>The \<open>LeastConn\<close> scan: the running best index, its load and its weight.\<close>

fun least_conn :: "(nat \<Rightarrow> nat) \<Rightarrow> nat \<Rightarrow> endpoint list \<Rightarrow> nat \<Rightarrow> nat \<Rightarrow> nat \<Rightarrow> nat" where
  "least_conn load i [] best best_n best_w = best"
| "least_conn load i (ep # eps) best best_n best_w =
     (let n = load i;
          w = max (unat (ep_weight ep)) 1
      in if n * best_w < best_n * w
         then least_conn load (i + 1) eps i n w
         else least_conn load (i + 1) eps best best_n best_w)"

text \<open>
  \<open>select_endpoint\<close>. The store is threaded through because round robin advances the
  backend's cursor.
\<close>

definition select_endpoint ::
  "heap \<Rightarrow> backend \<Rightarrow> backend_stats \<Rightarrow> u64 \<Rightarrow> heap \<times> (nat \<times> endpoint) option" where
  "select_endpoint hp backend stats rng =
     (let len = length (be_endpoints backend);
          pick = (\<lambda>hp' index. (hp', map_option (Pair index) (get_at (be_endpoints backend) index)))
      in if len = 0 then (hp, None)
         else case be_policy backend of
           RoundRobin \<Rightarrow>
             (case stats_slot stats (be_stats_index backend) of
                None \<Rightarrow> (hp, None)
              | Some s \<Rightarrow>
                  (let (hp', cursor) = next_cursor hp s
                   in case be_ring backend of
                        Some ring \<Rightarrow>
                          (case get_at ring (unat cursor mod length ring) of
                             None \<Rightarrow> (hp', None)
                           | Some i \<Rightarrow> pick hp' (unat i))
                      | None \<Rightarrow> pick hp' (unat cursor mod len)))
         | Random \<Rightarrow>
             (case be_ring backend of
                Some ring \<Rightarrow>
                  (case get_at ring (unat rng mod length ring) of
                     None \<Rightarrow> (hp, None)
                   | Some i \<Rightarrow> pick hp (unat i))
              | None \<Rightarrow> pick hp (unat rng mod len))
         | LeastConn \<Rightarrow>
             (case stats_slot stats (be_stats_index backend) of
                None \<Rightarrow> (hp, None)
              | Some s \<Rightarrow>
                  (let slot = hp_slots hp ! s;
                       load = (\<lambda>i. unat (inflight_count hp slot i));
                       first = hd (be_endpoints backend)
                   in pick hp (least_conn load 1 (tl (be_endpoints backend)) 0 (load 0)
                                 (max (unat (ep_weight first)) 1)))))"

section \<open>The weighted rotation\<close>

lemma ring_pass_spec:
  assumes "ring_pass i xs = (out, xs')" "i + length xs \<le> 2 ^ 32"
  shows "xs' = map (\<lambda>x. x - 1) xs \<and>
    out = map of_nat (filter (\<lambda>k. xs ! (k - i) > 0) [i..<i + length xs])"
  using assms
proof (induction i xs arbitrary: out xs' rule: ring_pass.induct)
  case (1 i)
  then show ?case by simp
next
  case (2 i left rest)
  obtain out1 rest1 where p: "ring_pass (i + 1) rest = (out1, rest1)" by fastforce
  have IH: "rest1 = map (\<lambda>x. x - 1) rest"
    "out1 = map of_nat (filter (\<lambda>k. rest ! (k - (i + 1)) > 0) [i + 1..<i + 1 + length rest])"
    using "2.IH"[OF p] "2.prems"(2) by auto
  have "filter (\<lambda>k. (left # rest) ! (k - i) > 0) [Suc i..<Suc (i + length rest)]
      = filter (\<lambda>k. rest ! (k - Suc i) > 0) [Suc i..<Suc (i + length rest)]"
    by (rule filter_cong) (auto simp: nth_Cons' Suc_diff_Suc)
  moreover have "[i..<i + length (left # rest)] = i # [Suc i..<Suc (i + length rest)]"
    by (simp add: upt_conv_Cons del: upt_Suc)
  ultimately show ?case
    using "2.prems"(1) p IH by (auto simp: Let_def simp del: upt_Suc split: if_splits)
qed

lemma distinct_count_list: "distinct xs \<Longrightarrow> count_list xs k = (if k \<in> set xs then 1 else 0)"
  by (induction xs) auto

lemma ring_pass_count:
  assumes "ring_pass 0 xs = (out, xs')" "length xs \<le> 2 ^ 32" "k < length xs"
  shows "count_list (map unat out) k = (if xs ! k > 0 then 1 else 0)"
proof -
  let ?f = "filter (\<lambda>k. xs ! k > 0) [0..<length xs]"
  have out: "out = map of_nat ?f" using ring_pass_spec[OF assms(1)] assms(2) by simp
  have "map (unat \<circ> (of_nat :: nat \<Rightarrow> u32)) ?f = map (\<lambda>k. k) ?f"
    using assms(2) by (intro map_cong) (auto simp: unat_of_nat take_bit_nat_eq_self)
  then have "map unat out = ?f" by (simp add: out)
  moreover have "count_list ?f k = (if k \<in> set ?f then 1 else 0)"
    by (rule distinct_count_list) simp
  ultimately show ?thesis using assms(3) by simp
qed

lemma ring_pass_lengths:
  assumes "ring_pass 0 xs = (out, xs')" "length xs \<le> 2 ^ 32"
  shows "length xs' = length xs" "length out + sum_list xs' = sum_list xs"
    "k < length xs \<Longrightarrow> xs' ! k = xs ! k - 1"
    "\<And>i. i \<in> set out \<Longrightarrow> unat i < length xs"
proof -
  have s: "xs' = map (\<lambda>x. x - 1) xs" "out = map of_nat (filter (\<lambda>k. xs ! k > 0) [0..<length xs])"
    using ring_pass_spec[OF assms(1)] assms(2) by simp_all
  show "length xs' = length xs" "k < length xs \<Longrightarrow> xs' ! k = xs ! k - 1" using s by simp_all
  show "\<And>i. i \<in> set out \<Longrightarrow> unat i < length xs"
    using s(2) assms(2) by (auto simp: unat_of_nat take_bit_nat_eq_self)
  have "length (filter (\<lambda>k. xs ! k > 0) [0..<length xs]) = length (filter (\<lambda>x. x > 0) xs)"
    by (simp add: length_filter_conv_card cong: conj_cong)
  moreover have "length (filter (\<lambda>x. x > 0) xs) + sum_list (map (\<lambda>x. x - 1) xs) = sum_list xs"
    by (induction xs) auto
  ultimately show "length out + sum_list xs' = sum_list xs" using s by simp
qed

lemma ring_loop_spec:
  assumes "slots = length ring + sum_list remaining" "length remaining \<le> 2 ^ 32"
  shows "(\<forall>k < length remaining.
            count_list (map unat (ring_loop slots ring remaining)) k
            = count_list (map unat ring) k + remaining ! k) \<and>
         length (ring_loop slots ring remaining) = slots \<and>
         (\<forall>i \<in> set (ring_loop slots ring remaining). i \<in> set ring \<or> unat i < length remaining)"
  using assms
proof (induction slots ring remaining rule: ring_loop.induct)
  case (1 slots ring remaining)
  obtain out rem' where p: "ring_pass 0 remaining = (out, rem')" by fastforce
  note L = ring_pass_lengths[OF p "1.prems"(2)]
  show ?case
  proof (cases "length ring < slots")
    case False
    then have z: "sum_list remaining = 0" and l: "length ring = slots" using "1.prems"(1) by auto
    from z have "remaining ! k = 0" if "k < length remaining" for k using that by simp
    with False l show ?thesis by (subst (1 2 3) ring_loop.simps) simp
  next
    case True
    have ne: "out \<noteq> []"
    proof
      assume "out = []"
      then have "filter (\<lambda>k. remaining ! k > 0) [0..<length remaining] = []"
        using ring_pass_spec[OF p] "1.prems"(2) by simp
      then have "\<forall>x \<in> set remaining. x = 0" by (auto simp: filter_empty_conv in_set_conv_nth)
      then have "sum_list remaining = 0" by (simp add: sum_list_eq_0_iff)
      with True "1.prems"(1) show False by simp
    qed
    have eq: "ring_loop slots ring remaining = ring_loop slots (ring @ out) rem'"
      using True ne p by (subst ring_loop.simps) simp
    have "slots = length (ring @ out) + sum_list rem'" using "1.prems"(1) L(2) by simp
    moreover have "length rem' \<le> 2 ^ 32" using L(1) "1.prems"(2) by simp
    ultimately have IH: "\<forall>k < length rem'.
        count_list (map unat (ring_loop slots (ring @ out) rem')) k
        = count_list (map unat (ring @ out)) k + rem' ! k"
      "length (ring_loop slots (ring @ out) rem') = slots"
      "\<forall>i \<in> set (ring_loop slots (ring @ out) rem'). i \<in> set (ring @ out) \<or> unat i < length rem'"
      using "1.IH"[OF True p [symmetric] refl ne] by blast+
    have "count_list (map unat (ring @ out)) k + rem' ! k = count_list (map unat ring) k + remaining ! k"
      if "k < length remaining" for k
      using ring_pass_count[OF p "1.prems"(2) that] L(3)[OF that] by simp
    with IH L(1,4) show ?thesis unfolding eq by auto
  qed
qed

lemma ring_scale_le: "ring_scale tot w \<le> max w 1"
proof (cases "w = 0 \<or> tot \<le> MAX_RING")
  case False
  then have "w * MAX_RING div tot \<le> w"
    by (metis div_le_mono le_cases mult_le_mono2 nat_le_linear nonzero_mult_div_cancel_right
        zero_le div_by_0 bot_nat_0.extremum)
  with False show ?thesis by (simp add: ring_scale_def)
qed (auto simp: ring_scale_def)

lemma build_ring_spec:
  assumes "build_ring endpoints = Some ring" "length endpoints < 2 ^ 32"
  shows "\<And>k. k < length endpoints \<Longrightarrow> count_list (map unat ring) k
            = ring_scale (ring_total endpoints) (unat (ep_weight (endpoints ! k)))"
    and "length ring = (\<Sum>e\<leftarrow>endpoints. ring_scale (ring_total endpoints) (unat (ep_weight e)))"
    and "\<And>i. i \<in> set ring \<Longrightarrow> unat i < length endpoints"
    and "ring \<noteq> []"
proof -
  let ?rem = "map (\<lambda>e. ring_scale (ring_total endpoints) (unat (ep_weight e))) endpoints"
  have ring: "ring = ring_loop (sum_list ?rem) [] ?rem" and nz: "sum_list ?rem \<noteq> 0"
    using assms(1) by (auto simp: build_ring_def Let_def split: list.splits if_splits)
  have spec: "(\<forall>k < length ?rem. count_list (map unat ring) k = ?rem ! k) \<and>
      length ring = sum_list ?rem \<and> (\<forall>i \<in> set ring. unat i < length ?rem)"
    using ring_loop_spec[of "sum_list ?rem" "[]" ?rem] assms(2) by (simp add: ring)
  show "\<And>k. k < length endpoints \<Longrightarrow> count_list (map unat ring) k
            = ring_scale (ring_total endpoints) (unat (ep_weight (endpoints ! k)))"
    "\<And>i. i \<in> set ring \<Longrightarrow> unat i < length endpoints"
    "length ring = (\<Sum>e\<leftarrow>endpoints. ring_scale (ring_total endpoints) (unat (ep_weight e)))"
    using spec by auto
  show "ring \<noteq> []" using spec nz by auto
qed

text \<open>
  The precomputed rotation has the configured shares: endpoint \<open>k\<close> occupies exactly its
  scaled weight in slots, which is the weight itself when the weights sum to at most
  \<open>MAX_RING\<close>; a drained endpoint (weight 0) has none and a live one at least one.
\<close>

theorem build_ring_shares:
  assumes "build_ring endpoints = Some ring" "length endpoints < 2 ^ 32" "k < length endpoints"
  defines "w \<equiv> unat (ep_weight (endpoints ! k))"
  shows "count_list (map unat ring) k = ring_scale (ring_total endpoints) w
    \<and> (ring_total endpoints \<le> MAX_RING \<longrightarrow> count_list (map unat ring) k = w)
    \<and> (w = 0 \<longleftrightarrow> k \<notin> set (map unat ring))"
proof -
  note c = build_ring_spec(1)[OF assms(1-3)]
  have "w = 0 \<longleftrightarrow> ring_scale (ring_total endpoints) w = 0"
    by (auto simp: ring_scale_def)
  moreover have "count_list (map unat ring) k = 0 \<longleftrightarrow> k \<notin> set (map unat ring)"
    by (rule count_list_0_iff)
  moreover have "ring_total endpoints \<le> MAX_RING \<Longrightarrow> ring_scale (ring_total endpoints) w = w"
    by (simp add: ring_scale_def)
  ultimately show ?thesis using c unfolding w_def by metis
qed

definition sample_endpoints :: "endpoint list" where
  "sample_endpoints = [\<lparr> ep_addr = addr_a, ep_weight = 2 \<rparr>, \<lparr> ep_addr = addr_b, ep_weight = 0 \<rparr>,
                       \<lparr> ep_addr = SocketAddr (IPv4 10 0 0 3) 8080, ep_weight = 1 \<rparr>]"

lemma sample_ring: "build_ring sample_endpoints = Some [0, 2, 0]"
  by (simp add: sample_endpoints_def build_ring_def ring_total_def ring_scale_def MAX_RING_def
      ring_loop.simps Let_def)

theorem build_ring_shares_witness:
  "count_list (map unat ([0, 2, 0] :: u32 list)) 0 = 2 \<and> 1 \<notin> set (map unat ([0, 2, 0] :: u32 list))"
  using build_ring_shares[OF sample_ring, of 0] build_ring_shares[OF sample_ring, of 1]
  by (simp add: sample_endpoints_def ring_total_def MAX_RING_def)

section \<open>Selection\<close>

definition wf_backend :: "backend \<Rightarrow> bool" where
  "wf_backend b \<longleftrightarrow> be_ring b = build_ring (be_endpoints b) \<and> length (be_endpoints b) < 2 ^ 32"

lemma backend_new_wf:
  "length endpoints < 2 ^ 32 \<Longrightarrow> wf_backend (backend_new name endpoints policy protocol i)"
  by (simp add: wf_backend_def backend_new_def)

text \<open>The rotation of a backend: its period and the endpoint at a position.\<close>

definition period :: "backend \<Rightarrow> nat" where
  "period b = (case be_ring b of Some ring \<Rightarrow> length ring | None \<Rightarrow> length (be_endpoints b))"

definition slot_at :: "backend \<Rightarrow> nat \<Rightarrow> nat" where
  "slot_at b i = (case be_ring b of Some ring \<Rightarrow> unat (ring ! i) | None \<Rightarrow> i)"

lemma slot_at_range:
  assumes "wf_backend b" "be_endpoints b \<noteq> []" "i < period b"
  shows "slot_at b i < length (be_endpoints b)"
  using assms build_ring_spec(3)
  by (auto simp: slot_at_def period_def wf_backend_def split: option.splits)

lemma period_pos:
  assumes "wf_backend b" "be_endpoints b \<noteq> []"
  shows "0 < period b"
  using assms build_ring_spec(4) by (auto simp: period_def wf_backend_def split: option.splits)

lemma slot_at_not_drained:
  assumes "wf_backend b" "be_ring b \<noteq> None" "i < period b"
  shows "ep_weight (be_endpoints b ! slot_at b i) \<noteq> 0"
proof -
  obtain ring where ring: "be_ring b = Some ring" using assms(2) by auto
  have b: "build_ring (be_endpoints b) = Some ring" "length (be_endpoints b) < 2 ^ 32"
    using assms(1) ring by (simp_all add: wf_backend_def)
  have i: "i < length ring" using assms(3) ring by (simp add: period_def)
  let ?k = "unat (ring ! i)"
  have k: "?k < length (be_endpoints b)" using build_ring_spec(3)[OF b] i by simp
  have "count_list (map unat ring) ?k \<noteq> 0"
    using i by (simp add: count_list_0_iff)
  then have "ring_scale (ring_total (be_endpoints b)) (unat (ep_weight (be_endpoints b ! ?k))) \<noteq> 0"
    using build_ring_spec(1)[OF b k] by simp
  then show ?thesis using ring by (auto simp: ring_scale_def slot_at_def)
qed

lemma select_round_robin:
  assumes "wf_backend b" "be_endpoints b \<noteq> []" "be_policy b = RoundRobin"
    and "stats_slot st (be_stats_index b) = Some s"
  shows "select_endpoint hp b st rng =
    (let i = slot_at b (unat (sl_cursor (hp_slots hp ! s)) mod period b)
     in (fst (next_cursor hp s), Some (i, be_endpoints b ! i)))"
proof -
  let ?p = "unat (sl_cursor (hp_slots hp ! s)) mod period b"
  have p: "?p < period b" using period_pos[OF assms(1,2)] by simp
  obtain hp' where cur: "next_cursor hp s = (hp', sl_cursor (hp_slots hp ! s))"
    by (simp add: next_cursor_def Let_def)
  from slot_at_range[OF assms(1,2) p] p assms(2-4) show ?thesis
    unfolding select_endpoint_def cur
    by (auto simp: cur Let_def get_at_def slot_at_def period_def split: option.splits)
qed

lemma select_random:
  assumes "wf_backend b" "be_endpoints b \<noteq> []" "be_policy b = Random"
  shows "select_endpoint hp b st rng =
    (let i = slot_at b (unat rng mod period b) in (hp, Some (i, be_endpoints b ! i)))"
proof -
  have p: "unat rng mod period b < period b" using period_pos[OF assms(1,2)] by simp
  from slot_at_range[OF assms(1,2) p] p assms(2,3) show ?thesis
    unfolding select_endpoint_def
    by (auto simp: Let_def get_at_def slot_at_def period_def split: option.splits)
qed

lemma cross_trans:
  fixes a b c :: nat
  assumes "a * wb \<le> b * wa" "b * wc \<le> c * wb" "0 < wb"
  shows "a * wc \<le> c * wa"
proof -
  have "(a * wc) * wb \<le> (b * wa) * wc" using mult_le_mono1[OF assms(1), of wc] by (simp add: ac_simps)
  also have "\<dots> \<le> (c * wb) * wa" using mult_le_mono1[OF assms(2), of wa] by (simp add: ac_simps)
  finally show ?thesis using assms(3) by (simp add: ac_simps)
qed

lemma least_conn_minimal:
  fixes load W :: "nat \<Rightarrow> nat" and eps :: "endpoint list" and i best :: nat
  assumes "\<And>j. j < length eps \<Longrightarrow> W (i + j) = max (unat (ep_weight (eps ! j))) 1" "0 < W best"
  shows "let r = least_conn load i eps best (load best) (W best) in
    (r = best \<or> i \<le> r \<and> r < i + length eps) \<and> load r * W best \<le> load best * W r \<and>
    (\<forall>j. i \<le> j \<and> j < i + length eps \<longrightarrow> load r * W j \<le> load j * W r)"
  using assms
proof (induction eps arbitrary: i best)
  case Nil
  then show ?case by simp
next
  case (Cons ep eps)
  have w: "W i = max (unat (ep_weight ep)) 1" using Cons.prems(1)[of 0] by simp
  have rest: "\<And>j. j < length eps \<Longrightarrow> W (Suc i + j) = max (unat (ep_weight (eps ! j))) 1"
    using Cons.prems(1)[of "Suc _"] by simp
  let ?b = "if load i * W best < load best * W i then i else best"
  let ?r = "least_conn load (Suc i) eps ?b (load ?b) (W ?b)"
  have eq: "least_conn load i (ep # eps) best (load best) (W best) = ?r"
    by (simp add: Let_def w)
  have wb: "0 < W ?b" using w Cons.prems(2) by (simp add: less_max_iff_disj)
  note IH = Cons.IH[OF rest wb, unfolded Let_def]
  have b1: "load ?b * W best \<le> load best * W ?b" and b2: "load ?b * W i \<le> load i * W ?b"
    by (auto simp: not_less)
  have "load ?r * W best \<le> load best * W ?r" "load ?r * W i \<le> load i * W ?r"
    using cross_trans[OF _ b1 wb] cross_trans[OF _ b2 wb] IH by blast+
  moreover have "j = i \<or> Suc i \<le> j" if "i \<le> j" for j using that by auto
  ultimately show ?case unfolding eq Let_def using IH by (auto split: if_splits)
qed

lemma select_least_conn:
  fixes hp :: heap and s :: nat
  assumes "be_endpoints b \<noteq> []" "be_policy b = LeastConn"
    and "stats_slot st (be_stats_index b) = Some s"
  defines "load \<equiv> \<lambda>i. unat (inflight_count hp (hp_slots hp ! s) i)"
  shows "\<exists>i < length (be_endpoints b).
    select_endpoint hp b st rng = (hp, Some (i, be_endpoints b ! i)) \<and>
    (\<forall>j < length (be_endpoints b).
       load i * max (unat (ep_weight (be_endpoints b ! j))) 1
       \<le> load j * max (unat (ep_weight (be_endpoints b ! i))) 1)"
proof -
  let ?W = "\<lambda>i. max (unat (ep_weight (be_endpoints b ! i))) 1"
  let ?r = "least_conn load 1 (tl (be_endpoints b)) 0 (load 0) (?W 0)"
  have tl: "?W (1 + j) = max (unat (ep_weight (tl (be_endpoints b) ! j))) 1"
    if "j < length (tl (be_endpoints b))" for j
    using that by (simp add: nth_tl)
  have len: "1 + length (tl (be_endpoints b)) = length (be_endpoints b)" using assms(1) by simp
  have m: "(?r = 0 \<or> 1 \<le> ?r \<and> ?r < length (be_endpoints b)) \<and> load ?r * ?W 0 \<le> load 0 * ?W ?r \<and>
      (\<forall>j. 1 \<le> j \<and> j < length (be_endpoints b) \<longrightarrow> load ?r * ?W j \<le> load j * ?W ?r)"
    using least_conn_minimal[of "tl (be_endpoints b)" ?W 1 0 load, OF tl] unfolding len Let_def by simp
  then have r: "?r < length (be_endpoints b)" using assms(1) by auto
  have all: "load ?r * ?W j \<le> load j * ?W ?r" if "j < length (be_endpoints b)" for j
    using m that by (cases "j = 0") auto
  have "select_endpoint hp b st rng = (hp, Some (?r, be_endpoints b ! ?r))"
    using assms(1-3) r by (simp add: select_endpoint_def Let_def load_def get_at_def hd_conv_nth)
  with r all show ?thesis by blast
qed

text \<open>
  Selection never fails for a backend with endpoints: it returns an index in range with
  the endpoint stored there, under every policy; when weights differ, round robin and random
  never pick a drained endpoint.
\<close>

theorem select_endpoint_total:
  assumes "wf_backend b" "be_endpoints b \<noteq> []"
    and "stats_slot st (be_stats_index b) \<noteq> None"
  shows "\<exists>hp' i. select_endpoint hp b st rng = (hp', Some (i, be_endpoints b ! i)) \<and>
    i < length (be_endpoints b) \<and>
    (be_ring b \<noteq> None \<and> be_policy b \<noteq> LeastConn \<longrightarrow> ep_weight (be_endpoints b ! i) \<noteq> 0)"
proof -
  obtain s where s: "stats_slot st (be_stats_index b) = Some s" using assms(3) by auto
  have p: "n mod period b < period b" for n using period_pos[OF assms(1,2)] by simp
  note range = slot_at_range[OF assms(1,2) p] and live = slot_at_not_drained[OF assms(1) _ p]
  show ?thesis
  proof (cases "be_policy b")
    case RoundRobin
    with select_round_robin[OF assms(1,2) _ s] range live show ?thesis by (simp add: Let_def)
  next
    case Random
    with select_random[OF assms(1,2)] range live show ?thesis by (simp add: Let_def)
  next
    case LeastConn
    with select_least_conn[OF assms(2) _ s] show ?thesis by blast
  qed
qed

definition sample_backend :: "lb_policy \<Rightarrow> backend" where
  "sample_backend policy = backend_new ''api'' sample_endpoints policy Http1 0"

lemma sample_backend_fields:
  "be_ring (sample_backend policy) = Some [0, 2, 0]"
  "be_endpoints (sample_backend policy) = sample_endpoints"
  "be_policy (sample_backend policy) = policy"
  "be_stats_index (sample_backend policy) = 0"
  by (simp_all add: sample_backend_def backend_new_def sample_ring)

lemma sample_backend_wf: "wf_backend (sample_backend policy)" "be_endpoints (sample_backend policy) \<noteq> []"
  by (simp_all add: sample_backend_def backend_new_def wf_backend_def sample_endpoints_def)

theorem select_endpoint_total_witness:
  "snd (select_endpoint sample_heap (sample_backend Random) sample_stats 5) \<noteq> None"
proof -
  have "stats_slot sample_stats (be_stats_index (sample_backend Random)) \<noteq> None"
    by (simp add: sample_backend_def backend_new_def stats_slot_def sample_stats_def)
  from select_endpoint_total[OF sample_backend_wf this, of sample_heap 5] show ?thesis by auto
qed

text \<open>\<open>n\<close> selections in a row, with the indices picked.\<close>

fun select_many :: "nat \<Rightarrow> heap \<Rightarrow> backend \<Rightarrow> backend_stats \<Rightarrow> nat list" where
  "select_many 0 hp b st = []"
| "select_many (Suc n) hp b st =
     (case select_endpoint hp b st 0 of
        (hp', None) \<Rightarrow> []
      | (hp', Some (i, _)) \<Rightarrow> i # select_many n hp' b st)"

lemma select_many_rotation:
  assumes "wf_backend b" "be_endpoints b \<noteq> []" "be_policy b = RoundRobin"
    and "stats_slot st (be_stats_index b) = Some s" "s < length (hp_slots hp)"
    and "unat (sl_cursor (hp_slots hp ! s)) + n \<le> 2 ^ 32 \<or> period b dvd 2 ^ 32"
  shows "select_many n hp b st =
    map (\<lambda>j. slot_at b ((unat (sl_cursor (hp_slots hp ! s)) + j) mod period b)) [0..<n]"
  using assms(5,6)
proof (induction n arbitrary: hp)
  case 0
  show ?case by simp
next
  case (Suc n)
  let ?c = "sl_cursor (hp_slots hp ! s)"
  let ?hp' = "fst (next_cursor hp s)"
  have s': "s < length (hp_slots ?hp')" using Suc.prems(1) by simp
  have c': "sl_cursor (hp_slots ?hp' ! s) = ?c + 1"
    using Suc.prems(1) by (simp add: next_cursor_def Let_def)
  have sel: "select_many (Suc n) hp b st = slot_at b (unat ?c mod period b) # select_many n ?hp' b st"
    using select_round_robin[OF assms(1-4), of hp 0] by (simp add: Let_def)
  show ?case
  proof (cases n)
    case 0
    then show ?thesis unfolding sel by simp
  next
    case (Suc m)
    have u: "unat (?c + 1) = (unat ?c + 1) mod 2 ^ 32" by (simp add: unat_word_ariths)
    have room: "unat (?c + 1) + n \<le> 2 ^ 32 \<or> period b dvd 2 ^ 32"
      and same: "unat (?c + 1) mod period b = (unat ?c + 1) mod period b"
      using Suc.prems(2) Suc mod_mod_cancel [of "period b" "2 ^ 32" "unat ?c + 1"] unfolding u by auto
    have turn: "(unat (?c + 1) + j) mod period b = (unat ?c + 1 + j) mod period b" for j
      by (rule mod_add_cong [OF same refl])
    have "select_many n ?hp' b st =
        map (\<lambda>j. slot_at b ((unat ?c + 1 + j) mod period b)) [0..<n]"
      using Suc.IH[OF s'] room unfolding c' turn by simp
    then show ?thesis
      unfolding sel by (simp add: map_upt_Suc del: upt_Suc)
  qed
qed

lemma count_list_rotate: "count_list (rotate c xs) k = count_list xs k"
proof -
  let ?n = "c mod length xs"
  have "count_list xs k = count_list (take ?n xs @ drop ?n xs) k" by simp
  also have "\<dots> = count_list (rotate c xs) k"
    unfolding rotate_drop_take count_list_append by simp
  finally show ?thesis by simp
qed

text \<open>
  C5. Round robin is exact over a full rotation: in one period of consecutive selections
  every endpoint is picked exactly as often as its slots in the rotation, which is once each when the
  weights are equal. The 32-bit cursor must not wrap within the period, unless the length of the
  rotation divides \<open>2 ^ 32\<close>, when the wrap does no harm.
\<close>

theorem round_robin_exact_share:
  assumes "wf_backend b" "be_endpoints b \<noteq> []" "be_policy b = RoundRobin"
    and "stats_slot st (be_stats_index b) = Some s" "s < length (hp_slots hp)"
    and "unat (sl_cursor (hp_slots hp ! s)) + period b \<le> 2 ^ 32 \<or> period b dvd 2 ^ 32"
    and "k < length (be_endpoints b)"
  shows "count_list (select_many (period b) hp b st) k =
    (if be_ring b = None then 1
     else ring_scale (ring_total (be_endpoints b)) (unat (ep_weight (be_endpoints b ! k))))"
proof -
  let ?c = "unat (sl_cursor (hp_slots hp ! s))"
  have "map (\<lambda>j. (?c + j) mod period b) [0..<period b] = rotate ?c [0..<period b]"
    by (rule nth_equalityI) (simp_all add: nth_rotate)
  moreover have "select_many (period b) hp b st =
      map (slot_at b) (map (\<lambda>j. (?c + j) mod period b) [0..<period b])"
    unfolding select_many_rotation[OF assms(1-6)] by simp
  ultimately have "count_list (select_many (period b) hp b st) k =
      count_list (map (slot_at b) [0..<period b]) k"
    by (simp only: rotate_map [symmetric] count_list_rotate)
  also have "\<dots> = (if be_ring b = None then 1
     else ring_scale (ring_total (be_endpoints b)) (unat (ep_weight (be_endpoints b ! k))))"
  proof (cases "be_ring b")
    case None
    then have "map (slot_at b) [0..<period b] = [0..<length (be_endpoints b)]"
      by (intro nth_equalityI) (simp_all add: slot_at_def period_def)
    with None assms(7) show ?thesis by (simp add: distinct_count_list)
  next
    case (Some ring)
    then have "map (slot_at b) [0..<period b] = map unat ring"
      by (intro nth_equalityI) (simp_all add: slot_at_def period_def)
    moreover have "build_ring (be_endpoints b) = Some ring" "length (be_endpoints b) < 2 ^ 32"
      using assms(1) Some by (simp_all add: wf_backend_def)
    ultimately show ?thesis using build_ring_spec(1)[OF _ _ assms(7)] Some by simp
  qed
  finally show ?thesis .
qed

theorem round_robin_exact_share_witness:
  "count_list (select_many 3 sample_heap (sample_backend RoundRobin) sample_stats) 0 = 2"
proof -
  have p: "period (sample_backend RoundRobin) = 3" by (simp add: period_def sample_backend_fields)
  have "unat (sl_cursor (hp_slots sample_heap ! 0)) = 9" by (simp add: sample_heap_def)
  then show ?thesis
    using round_robin_exact_share[OF sample_backend_wf, of RoundRobin sample_stats 0 sample_heap 0]
    unfolding p sample_backend_fields
    by (simp add: stats_slot_def sample_stats_def sample_heap_def)
       (simp add: sample_endpoints_def ring_scale_def ring_total_def MAX_RING_def)
qed

text \<open>
  Least-connections picks an endpoint of minimal load ratio: for the chosen \<open>i\<close> and any
  \<open>j\<close>, in-flight of \<open>i\<close> per unit of weight is at most that of \<open>j\<close>, compared by cross
  multiplication with a weight of 0 counted as 1.
\<close>

theorem least_conn_picks_minimal_ratio:
  assumes "be_endpoints b \<noteq> []" "be_policy b = LeastConn"
    and "stats_slot st (be_stats_index b) = Some s"
  shows "\<exists>i < length (be_endpoints b).
    select_endpoint hp b st rng = (hp, Some (i, be_endpoints b ! i)) \<and>
    (\<forall>j < length (be_endpoints b).
       unat (inflight_count hp (hp_slots hp ! s) i) * max (unat (ep_weight (be_endpoints b ! j))) 1
       \<le> unat (inflight_count hp (hp_slots hp ! s) j) * max (unat (ep_weight (be_endpoints b ! i))) 1)"
  by (rule select_least_conn[OF assms])

theorem least_conn_picks_minimal_ratio_witness:
  "\<exists>i < 3. select_endpoint sample_heap (sample_backend LeastConn) sample_stats 0
      = (sample_heap, Some (i, sample_endpoints ! i))"
  using least_conn_picks_minimal_ratio[of "sample_backend LeastConn" sample_stats 0 sample_heap 0]
  by (auto simp: sample_backend_def backend_new_def stats_slot_def sample_stats_def sample_endpoints_def)

text \<open>
  A drained endpoint is not excluded by least-connections: next to a busy live endpoint,
  an idle endpoint of weight 0 is the one selected, although weight 0 is documented to drain
  an endpoint.
\<close>

theorem least_conn_selects_drained:
  assumes "be_endpoints b = [live, drained]" "be_policy b = LeastConn"
    and "ep_weight drained = 0" "stats_slot st (be_stats_index b) = Some s"
    and "inflight_count hp (hp_slots hp ! s) 0 > 0" "inflight_count hp (hp_slots hp ! s) 1 = 0"
  shows "select_endpoint hp b st rng = (hp, Some (1, drained))"
  using assms by (simp add: select_endpoint_def Let_def get_at_def word_less_nat_alt)

definition busy_heap :: heap where
  "busy_heap = \<lparr> hp_counters = [5, 0],
     hp_slots = [\<lparr> sl_cursor = 0, sl_inflight = [0, 1], sl_addrs = [addr_a, addr_b] \<rparr>] \<rparr>"

definition draining_backend :: backend where
  "draining_backend = backend_new ''api''
     [\<lparr> ep_addr = addr_a, ep_weight = 1 \<rparr>, \<lparr> ep_addr = addr_b, ep_weight = 0 \<rparr>] LeastConn Http1 0"

theorem least_conn_selects_drained_witness:
  "select_endpoint busy_heap draining_backend sample_stats 0
     = (busy_heap, Some (1, \<lparr> ep_addr = addr_b, ep_weight = 0 \<rparr>))"
  by (rule least_conn_selects_drained[of _ "\<lparr> ep_addr = addr_a, ep_weight = 1 \<rparr>" _ _ 0])
     (simp_all add: draining_backend_def backend_new_def busy_heap_def sample_stats_def stats_slot_def
        inflight_count_def get_at_def)

end
