(* ===== verification/Table.thy ===== *)
theory Table
  imports Host Backend
begin

text \<open>
  \<open>crates/ramjet-router/src/{table,tls}.rs\<close>: the immutable route table with its request
  matcher, the SNI certificate map, and the published snapshot pointer. The two host maps
  are iterated for reporting, so they are association lists with distinct keys; a lookup is
  \<open>map_of\<close>. An \<open>Arc<CertifiedKeyHandle>\<close> is its id.
\<close>

section \<open>Definitions\<close>

subsection \<open>SNI\<close>

type_synonym cert_handle = u64

record sni_map =
  sni_exact :: "(string \<times> cert_handle) list"
  sni_wildcard :: "(string \<times> cert_handle) list"
  sni_default :: "cert_handle option"

definition sni_resolve_normalized :: "sni_map \<Rightarrow> string \<Rightarrow> cert_handle option" where
  "sni_resolve_normalized m name =
     (case map_of (sni_exact m) name of
        Some key \<Rightarrow> Some key
      | None \<Rightarrow>
          (case parent_domain name of
             Some parent \<Rightarrow>
               (case map_of (sni_wildcard m) parent of
                  Some key \<Rightarrow> Some key
                | None \<Rightarrow> sni_default m)
           | None \<Rightarrow> sni_default m))"

definition sni_resolve :: "sni_map \<Rightarrow> string \<Rightarrow> cert_handle option" where
  "sni_resolve m server_name =
     (case scan server_name of
        Clean name \<Rightarrow> sni_resolve_normalized m name
      | Fold name \<Rightarrow>
          (case fold_lower name of
             Some folded \<Rightarrow> sni_resolve_normalized m folded
           | None \<Rightarrow> None)
      | Invalid \<Rightarrow> sni_default m)"

definition sni_len :: "sni_map \<Rightarrow> nat" where
  "sni_len m = length (sni_exact m) + length (sni_wildcard m)"

definition sni_is_empty :: "sni_map \<Rightarrow> bool" where
  "sni_is_empty m \<longleftrightarrow> sni_exact m = [] \<and> sni_wildcard m = []"

subsection \<open>The table\<close>

type_synonym 'r virtual_host = "'r path_rule list"

definition match_path :: "('r \<Rightarrow> string \<Rightarrow> bool) \<Rightarrow> 'r virtual_host \<Rightarrow> string \<Rightarrow> 'r path_rule option" where
  "match_path is_match routes path = find (\<lambda>rule. rule_matches is_match rule path) routes"

datatype route_host = RExact string | RWildcard string | RCatchAll

fun route_host_display :: "route_host \<Rightarrow> string" where
  "route_host_display (RExact name) = name"
| "route_host_display (RWildcard parent) = ''*.'' @ parent"
| "route_host_display RCatchAll = ''*''"

definition sni_entries :: "sni_map \<Rightarrow> (route_host \<times> u64) list" where
  "sni_entries m =
     map (\<lambda>(name, key). (RExact name, key)) (sni_exact m)
     @ map (\<lambda>(parent, key). (RWildcard parent, key)) (sni_wildcard m)
     @ (case sni_default m of None \<Rightarrow> [] | Some key \<Rightarrow> [(RCatchAll, key)])"

datatype host_match = HExact | HWildcard | HCatchAll | HDefaultBackend

record 'r match_result =
  mr_backend :: backend
  mr_rule :: "'r path_rule option"
  mr_host_match :: host_match

record 'r route_table =
  rt_hosts :: "(string \<times> 'r virtual_host) list"
  rt_wildcard_hosts :: "(string \<times> 'r virtual_host) list"
  rt_catch_all :: "'r virtual_host option"
  rt_default_backend :: "backend_id option"
  rt_backends :: "backend list"
  rt_stats :: backend_stats
  rt_routes :: route_stats
  rt_tls :: sni_map
  rt_generation :: u64

definition match_canary :: "'r match_result \<Rightarrow> 'r canary_spec option" where
  "match_canary m = Option.bind (mr_rule m) rule_canary"

definition match_mirror :: "'r match_result \<Rightarrow> mirror_spec option" where
  "match_mirror m = Option.bind (mr_rule m) rule_mirror"

definition table_backend :: "'r route_table \<Rightarrow> backend_id \<Rightarrow> backend option" where
  "table_backend t bid = get_at (rt_backends t) (unat bid)"

definition hit :: "'r route_table \<Rightarrow> 'r path_rule \<Rightarrow> host_match \<Rightarrow> 'r match_result option" where
  "hit t rule hm =
     (case get_at (rt_backends t) (unat (pr_backend rule)) of
        None \<Rightarrow> None
      | Some b \<Rightarrow> Some \<lparr> mr_backend = b, mr_rule = Some rule, mr_host_match = hm \<rparr>)"

definition default_result :: "'r route_table \<Rightarrow> 'r match_result option" where
  "default_result t =
     (case rt_default_backend t of
        None \<Rightarrow> None
      | Some bid \<Rightarrow>
          (case get_at (rt_backends t) (unat bid) of
             None \<Rightarrow> None
           | Some b \<Rightarrow> Some \<lparr> mr_backend = b, mr_rule = None, mr_host_match = HDefaultBackend \<rparr>))"

definition catch_all_or_default ::
  "('r \<Rightarrow> string \<Rightarrow> bool) \<Rightarrow> 'r route_table \<Rightarrow> string \<Rightarrow> 'r match_result option" where
  "catch_all_or_default is_match t path =
     (case Option.bind (rt_catch_all t) (\<lambda>v. match_path is_match v path) of
        Some rule \<Rightarrow> hit t rule HCatchAll
      | None \<Rightarrow> default_result t)"

text \<open>The head of \<open>match_normalized\<close>: the virtual host that claims a normalised name.\<close>

definition select_vhost :: "'r route_table \<Rightarrow> string \<Rightarrow> ('r virtual_host \<times> host_match) option" where
  "select_vhost t host =
     (case map_of (rt_hosts t) host of
        Some v \<Rightarrow> Some (v, HExact)
      | None \<Rightarrow>
          (case Option.bind (parent_domain host) (map_of (rt_wildcard_hosts t)) of
             Some v \<Rightarrow> Some (v, HWildcard)
           | None \<Rightarrow>
               (case rt_catch_all t of
                  Some v \<Rightarrow> Some (v, HCatchAll)
                | None \<Rightarrow> None)))"

definition match_normalized ::
  "('r \<Rightarrow> string \<Rightarrow> bool) \<Rightarrow> 'r route_table \<Rightarrow> string \<Rightarrow> string \<Rightarrow> 'r match_result option" where
  "match_normalized is_match t host path =
     (case select_vhost t host of
        None \<Rightarrow> default_result t
      | Some (vhost, hm) \<Rightarrow>
          (case match_path is_match vhost path of
             Some rule \<Rightarrow> hit t rule hm
           | None \<Rightarrow> default_result t))"

definition match_request ::
  "('r \<Rightarrow> string \<Rightarrow> bool) \<Rightarrow> 'r route_table \<Rightarrow> string \<Rightarrow> string \<Rightarrow> 'r match_result option" where
  "match_request is_match t host path =
     (case scan host of
        Clean name \<Rightarrow> match_normalized is_match t name path
      | Fold name \<Rightarrow>
          (case fold_lower name of
             Some folded \<Rightarrow> match_normalized is_match t folded path
           | None \<Rightarrow> catch_all_or_default is_match t path)
      | Invalid \<Rightarrow> catch_all_or_default is_match t path)"

definition virtual_hosts :: "'r route_table \<Rightarrow> (route_host \<times> 'r virtual_host) list" where
  "virtual_hosts t =
     map (\<lambda>(name, v). (RExact name, v)) (rt_hosts t)
     @ map (\<lambda>(parent, v). (RWildcard parent, v)) (rt_wildcard_hosts t)
     @ (case rt_catch_all t of None \<Rightarrow> [] | Some v \<Rightarrow> [(RCatchAll, v)])"

definition table_routes :: "'r route_table \<Rightarrow> (route_host \<times> 'r path_rule) list" where
  "table_routes t = concat (map (\<lambda>(host, v). map (Pair host) v) (virtual_hosts t))"

definition route_count :: "'r route_table \<Rightarrow> nat" where
  "route_count t =
     sum_list (map length (map snd (rt_hosts t) @ map snd (rt_wildcard_hosts t)
       @ (case rt_catch_all t of None \<Rightarrow> [] | Some v \<Rightarrow> [v])))"

subsection \<open>The published pointer\<close>

text \<open>
  \<open>SharedRouteTable\<close> holds one table at a time; a load returns the current snapshot, which
  the reader keeps. A step publishes a table, or lets a reader take or drop a snapshot.
\<close>

record 'r shared =
  sh_current :: "'r route_table"
  sh_snapshots :: "'r route_table list"

definition shared_new :: "'r route_table \<Rightarrow> 'r shared" where
  "shared_new t = \<lparr> sh_current = t, sh_snapshots = [] \<rparr>"

definition shared_load :: "'r shared \<Rightarrow> 'r route_table \<times> 'r shared" where
  "shared_load s = (sh_current s, s\<lparr> sh_snapshots := sh_current s # sh_snapshots s \<rparr>)"

definition shared_store :: "'r shared \<Rightarrow> 'r route_table \<Rightarrow> 'r route_table \<times> 'r shared" where
  "shared_store s t = (sh_current s, s\<lparr> sh_current := t \<rparr>)"

definition shared_generation :: "'r shared \<Rightarrow> u64" where
  "shared_generation s = rt_generation (sh_current s)"

section \<open>Name resolution\<close>

text \<open>
  The contract both lookups share: normalise the name, then an exact entry, then the
  single-label wildcard, then the fallback.
\<close>

locale name_resolution =
  fixes resolve :: "'m \<Rightarrow> string \<Rightarrow> 'v option"
    and exact :: "'m \<Rightarrow> string \<Rightarrow> 'v option"
    and wildcard :: "'m \<Rightarrow> string \<Rightarrow> 'v option"
    and fallback :: "'m \<Rightarrow> 'v option"
  assumes resolve_key: "utf8_bytes (map byte_val host) \<Longrightarrow> lookup_key host = Some k \<Longrightarrow>
      resolve m host =
        (case exact m k of
           Some v \<Rightarrow> Some v
         | None \<Rightarrow>
             (case Option.bind (parent_domain k) (wildcard m) of
                Some v \<Rightarrow> Some v
              | None \<Rightarrow> fallback m))"
    and resolve_invalid: "utf8_bytes (map byte_val host) \<Longrightarrow> lookup_key host = None \<Longrightarrow>
      resolve m host = fallback m"
begin

lemma resolve_same_key:
  assumes "utf8_bytes (map byte_val h)" "utf8_bytes (map byte_val h')" "lookup_key h = lookup_key h'"
  shows "resolve m h = resolve m h'"
proof (cases "lookup_key h'")
  case None
  with assms show ?thesis using resolve_invalid[of h] resolve_invalid[of h'] by simp
next
  case (Some k)
  with assms show ?thesis using resolve_key[of h k] resolve_key[of h' k] by simp
qed

lemma resolve_exact:
  assumes "utf8_bytes (map byte_val h)" "lookup_key h = Some k" "exact m k = Some v"
  shows "resolve m h = Some v"
  using resolve_key[OF assms(1,2)] assms(3) by simp

lemma resolve_wildcard:
  assumes "utf8_bytes (map byte_val h)" "lookup_key h = Some (label @ CHR ''.'' # parent)"
    and "exact m (label @ CHR ''.'' # parent) = None"
    and "label \<noteq> []" "CHR ''.'' \<notin> set label" "parent \<noteq> []" "wildcard m parent = Some v"
  shows "resolve m h = Some v"
proof -
  have "parent_domain (label @ CHR ''.'' # parent) = Some parent"
    using assms(4-6) by (intro parent_domain_label)
  with resolve_key[OF assms(1,2)] assms(3,7) show ?thesis by simp
qed

end

lemma lookup_key_cases:
  "lookup_key host =
     (case scan host of Clean h \<Rightarrow> Some h | Fold raw \<Rightarrow> fold_lower raw | Invalid \<Rightarrow> None)"
  by (rule lookup_key_def)

lemma fold_lower_of_scan:
  assumes "utf8_bytes (map byte_val host)" "scan host = Fold raw"
  shows "fold_lower raw \<noteq> None"
proof -
  obtain n where n: "authority_name host = Some n" "raw = drop_root_dot n" "length raw \<le> MAX_HOST_LEN"
    using assms(2) by (auto simp: scan_eq[OF assms(1)] Let_def split: option.splits if_splits)
  from utf8_bytes_lower[OF utf8_drop_root_dot[OF assms(1) n(1)]] n(2,3)
  show ?thesis by (simp add: fold_lower_def from_utf8_def lower_def)
qed

text \<open>The virtual host that claims a raw \<open>Host\<close> header.\<close>

definition request_vhost :: "'r route_table \<Rightarrow> string \<Rightarrow> ('r virtual_host \<times> host_match) option" where
  "request_vhost t host =
     (case lookup_key host of
        Some k \<Rightarrow> select_vhost t k
      | None \<Rightarrow> map_option (\<lambda>v. (v, HCatchAll)) (rt_catch_all t))"

lemma match_request_vhost:
  "match_request is_match t host path =
     (case request_vhost t host of
        None \<Rightarrow> default_result t
      | Some (vhost, hm) \<Rightarrow>
          (case match_path is_match vhost path of
             Some rule \<Rightarrow> hit t rule hm
           | None \<Rightarrow> default_result t))"
  by (auto simp: match_request_def request_vhost_def lookup_key_def match_normalized_def
      catch_all_or_default_def split: scan_result.splits option.splits)

lemma sni_normalized_eq:
  "sni_resolve_normalized m k =
     (case map_of (sni_exact m) k of
        Some v \<Rightarrow> Some v
      | None \<Rightarrow>
          (case Option.bind (parent_domain k) (map_of (sni_wildcard m)) of
             Some v \<Rightarrow> Some v
           | None \<Rightarrow> sni_default m))"
  by (simp add: sni_resolve_normalized_def split: option.splits)

interpretation sni_names: name_resolution
  sni_resolve "\<lambda>m. map_of (sni_exact m)" "\<lambda>m. map_of (sni_wildcard m)" sni_default
proof
  fix host m
  assume u: "utf8_bytes (map byte_val host)"
  show "sni_resolve m host =
      (case map_of (sni_exact m) k of
         Some v \<Rightarrow> Some v
       | None \<Rightarrow>
           (case Option.bind (parent_domain k) (map_of (sni_wildcard m)) of
              Some v \<Rightarrow> Some v
            | None \<Rightarrow> sni_default m))" if "lookup_key host = Some k" for k
    using that by (simp add: sni_resolve_def lookup_key_def sni_normalized_eq
        split: scan_result.splits)
  show "sni_resolve m host = sni_default m" if "lookup_key host = None"
    using that fold_lower_of_scan[OF u]
    by (auto simp: sni_resolve_def lookup_key_def split: scan_result.splits)
qed

interpretation host_names: name_resolution
  request_vhost
  "\<lambda>t k. map_option (\<lambda>v. (v, HExact)) (map_of (rt_hosts t) k)"
  "\<lambda>t k. map_option (\<lambda>v. (v, HWildcard)) (map_of (rt_wildcard_hosts t) k)"
  "\<lambda>t. map_option (\<lambda>v. (v, HCatchAll)) (rt_catch_all t)"
proof
  fix host and m :: "'a route_table"
  show "request_vhost m host =
      (case map_option (\<lambda>v. (v, HExact)) (map_of (rt_hosts m) k) of
         Some v \<Rightarrow> Some v
       | None \<Rightarrow>
           (case Option.bind (parent_domain k)
                   (\<lambda>k. map_option (\<lambda>v. (v, HWildcard)) (map_of (rt_wildcard_hosts m) k)) of
              Some v \<Rightarrow> Some v
            | None \<Rightarrow> map_option (\<lambda>v. (v, HCatchAll)) (rt_catch_all m)))"
    if "lookup_key host = Some k" for k
    using that by (cases "parent_domain k")
      (simp_all add: request_vhost_def select_vhost_def split: option.splits)
qed (simp add: request_vhost_def)

text \<open>
  Routing depends on a \<open>Host\<close> header only through its normalised name: two headers with
  the same lookup key (differing in case, port or root dot) get the same answer for every
  path, and the same certificate.
\<close>

theorem routing_by_normalized_name:
  assumes "utf8_bytes (map byte_val h)" "utf8_bytes (map byte_val h')" "lookup_key h = lookup_key h'"
  shows "match_request is_match t h path = match_request is_match t h' path
    \<and> sni_resolve (rt_tls t) h = sni_resolve (rt_tls t) h'"
  by (simp add: match_request_vhost host_names.resolve_same_key[OF assms]
      sni_names.resolve_same_key[OF assms])

section \<open>Path precedence\<close>

text \<open>Rules are stored in precedence order.\<close>

definition wf_vhost :: "'r virtual_host \<Rightarrow> bool" where
  "wf_vhost rules \<longleftrightarrow> sorted (map rule_sort_key rules)"

lemma match_path_None_iff:
  "match_path is_match rules path = None \<longleftrightarrow> (\<forall>r \<in> set rules. \<not> rule_matches is_match r path)"
  by (auto simp: match_path_def find_None_iff)

lemma match_path_best:
  assumes "wf_vhost rules" "match_path is_match rules path = Some r"
  shows "r \<in> set rules" "rule_matches is_match r path"
    and "\<And>r'. r' \<in> set rules \<Longrightarrow> rule_matches is_match r' path \<Longrightarrow> rule_sort_key r \<le> rule_sort_key r'"
proof -
  from assms(2) obtain i where i: "i < length rules" "rule_matches is_match (rules ! i) path"
    "r = rules ! i" "\<And>j. j < i \<Longrightarrow> \<not> rule_matches is_match (rules ! j) path"
    unfolding match_path_def find_Some_iff by auto
  then show "r \<in> set rules" "rule_matches is_match r path" by auto
  fix r' assume r': "r' \<in> set rules" "rule_matches is_match r' path"
  then obtain j where j: "j < length rules" "r' = rules ! j" by (auto simp: in_set_conv_nth)
  with r'(2) i(4) have "i \<le> j" using not_le by blast
  with assms(1) i(1,3) j show "rule_sort_key r \<le> rule_sort_key r'"
    using sorted_nth_mono[of "map rule_sort_key rules" i j] by (simp add: wf_vhost_def)
qed

lemma rule_sort_key_le_iff:
  "rule_sort_key r \<le> rule_sort_key r' \<longleftrightarrow>
     rank (pr_path_type r) < rank (pr_path_type r') \<or>
     pr_path_type r = pr_path_type r' \<and> unat (pr_match_len r') \<le> unat (pr_match_len r)"
  by (cases "pr_path_type r"; cases "pr_path_type r'")
     (simp_all add: rule_sort_key_def less_eq_prod_def flip: word_le_def word_le_nat_alt)

text \<open>
  The first hit of the linear scan is the rule of highest precedence: it matches, and any
  other matching rule of the host has a weaker kind (Exact before Prefix before regular
  expression) or the same kind with a prefix that is no longer. The scan fails only if no
  rule matches.
\<close>

theorem match_path_precedence:
  assumes "wf_vhost rules"
  shows "case match_path is_match rules path of
      None \<Rightarrow> \<forall>r \<in> set rules. \<not> rule_matches is_match r path
    | Some r \<Rightarrow> r \<in> set rules \<and> rule_matches is_match r path \<and>
        (\<forall>r' \<in> set rules. rule_matches is_match r' path \<longrightarrow>
           rank (pr_path_type r) < rank (pr_path_type r') \<or>
           pr_path_type r = pr_path_type r' \<and> unat (pr_match_len r') \<le> unat (pr_match_len r))"
proof (cases "match_path is_match rules path")
  case None
  then show ?thesis using match_path_None_iff[of is_match rules path] by simp
next
  case (Some r)
  with match_path_best[OF assms Some] show ?thesis
    by (simp add: rule_sort_key_le_iff [symmetric])
qed

definition sample_rules :: "nat virtual_host" where
  "sample_rules =
     [rule_new ''/foo'' Exact None 0 None, rule_new ''/foo/bar'' Prefix None 1 None,
      rule_new ''/foo'' Prefix None 0 None, rule_new ''/fo.*'' ImplementationSpecific (Some 7) 1 None]"

lemma sample_rules_wf: "wf_vhost sample_rules"
  by (simp add: wf_vhost_def sample_rules_def rule_new_def rule_sort_key_def less_eq_prod_def
      prefix_match_len_def trim_end_matches_def Let_def)

theorem match_path_precedence_witness:
  "case match_path (\<lambda>_ _. True) sample_rules ''/foo/bar/x'' of
     None \<Rightarrow> False | Some r \<Rightarrow> r \<in> set sample_rules"
  using match_path_precedence[OF sample_rules_wf, of "\<lambda>_ _. True" "''/foo/bar/x''"]
  by (auto simp: sample_rules_def rule_matches_def rule_new_def split: option.splits)

section \<open>Well-formed tables\<close>

text \<open>
  What the builder guarantees: every virtual host is in precedence order, every backend id a
  rule, canary, mirror or the default carries names a backend of the table, every rule and
  backend has a counter block, and the host maps have distinct keys.
\<close>

definition all_rules :: "'r route_table \<Rightarrow> 'r path_rule list" where
  "all_rules t = map snd (table_routes t)"

definition rule_ids :: "'r path_rule \<Rightarrow> backend_id list" where
  "rule_ids r = pr_backend r #
     (case rule_canary r of None \<Rightarrow> [] | Some c \<Rightarrow> [cs_backend c]) @
     (case rule_mirror r of None \<Rightarrow> [] | Some m \<Rightarrow> [ms_backend m])"

definition wf_table :: "'r route_table \<Rightarrow> bool" where
  "wf_table t \<longleftrightarrow>
     list_all wf_vhost (map snd (virtual_hosts t)) \<and>
     list_all (\<lambda>r. list_all (\<lambda>b. unat b < length (rt_backends t)) (rule_ids r)) (all_rules t) \<and>
     (case rt_default_backend t of None \<Rightarrow> True | Some b \<Rightarrow> unat b < length (rt_backends t)) \<and>
     list_all (\<lambda>r. unat (pr_stats_index r) < length (rst_slots (rt_routes t))) (all_rules t) \<and>
     list_all wf_backend (rt_backends t) \<and>
     list_all (\<lambda>b. unat (be_stats_index b) < length (bs_slots (rt_stats t))) (rt_backends t) \<and>
     distinct (map fst (rt_hosts t)) \<and> distinct (map fst (rt_wildcard_hosts t))"

lemma request_vhost_member:
  assumes "request_vhost t host = Some (rules, hm)"
  shows "rules \<in> set (map snd (virtual_hosts t))"
proof -
  have "\<exists>k. (k, rules) \<in> set (rt_hosts t) \<or> (k, rules) \<in> set (rt_wildcard_hosts t) \<or>
      rt_catch_all t = Some rules"
    using assms
    by (auto simp: request_vhost_def select_vhost_def split: option.splits dest!: map_of_SomeD)
       (metis bind_eq_Some_conv map_of_SomeD)
  then show ?thesis by (auto simp: virtual_hosts_def image_iff split: option.splits) force+
qed

lemma all_rules_member:
  assumes "rules \<in> set (map snd (virtual_hosts t))" "r \<in> set rules"
  shows "r \<in> set (all_rules t)"
  using assms by (force simp: all_rules_def table_routes_def)

lemma wf_table_rule:
  assumes "wf_table t" "request_vhost t host = Some (rules, hm)" "r \<in> set rules"
  shows "wf_vhost rules" "unat (pr_backend r) < length (rt_backends t)"
    and "unat (pr_stats_index r) < length (rst_slots (rt_routes t))"
proof -
  note m = request_vhost_member[OF assms(2)]
  from assms(1) m show "wf_vhost rules" unfolding wf_table_def list_all_iff by blast
  from all_rules_member[OF m assms(3)] assms(1)
  show "unat (pr_backend r) < length (rt_backends t)"
    "unat (pr_stats_index r) < length (rst_slots (rt_routes t))"
    by (simp_all add: wf_table_def list_all_iff rule_ids_def)
qed

lemma hit_Some:
  "unat (pr_backend r) < length (rt_backends t) \<Longrightarrow>
     hit t r hm = Some \<lparr> mr_backend = rt_backends t ! unat (pr_backend r), mr_rule = Some r,
                         mr_host_match = hm \<rparr>"
  by (simp add: hit_def get_at_def)

text \<open>The reference semantics of a request: what the claiming virtual host says.\<close>

definition answers ::
  "('r \<Rightarrow> string \<Rightarrow> bool) \<Rightarrow> 'r route_table \<Rightarrow> string \<Rightarrow> string \<Rightarrow> 'r path_rule \<Rightarrow> host_match \<Rightarrow> bool" where
  "answers is_match t host path r hm \<longleftrightarrow>
     (\<exists>rules. request_vhost t host = Some (rules, hm) \<and> r \<in> set rules \<and> rule_matches is_match r path \<and>
        (\<forall>r' \<in> set rules. rule_matches is_match r' path \<longrightarrow> rule_sort_key r \<le> rule_sort_key r'))"

text \<open>
  C1. On a well-formed table \<open>match_request\<close> implements the documented routing: a rule in the
  result is a highest-precedence matching rule of the virtual host that claims the name,
  with the backend it names; otherwise no rule of that host matches and the default backend
  answers; there is no answer only when there is no default backend either. A matched rule
  never loses its backend.
\<close>

theorem match_request_refines:
  assumes "wf_table t"
  shows "case match_request is_match t host path of
      Some m \<Rightarrow>
        (case mr_rule m of
           Some r \<Rightarrow> answers is_match t host path r (mr_host_match m) \<and>
                     mr_backend m = rt_backends t ! unat (pr_backend r)
         | None \<Rightarrow> (\<nexists>r hm. answers is_match t host path r hm) \<and>
                   (\<exists>d. rt_default_backend t = Some d \<and> mr_backend m = rt_backends t ! unat d) \<and>
                   mr_host_match m = HDefaultBackend)
    | None \<Rightarrow> (\<nexists>r hm. answers is_match t host path r hm) \<and> rt_default_backend t = None"
proof (cases "\<exists>rules hm r. request_vhost t host = Some (rules, hm) \<and> match_path is_match rules path = Some r")
  case True
  then obtain rules hm r where v: "request_vhost t host = Some (rules, hm)"
    and r: "match_path is_match rules path = Some r" by blast
  have r_in: "r \<in> set rules" using r by (auto simp: match_path_def find_Some_iff)
  note wf = wf_table_rule[OF assms v r_in]
  have "match_request is_match t host path =
      Some \<lparr> mr_backend = rt_backends t ! unat (pr_backend r), mr_rule = Some r, mr_host_match = hm \<rparr>"
    using v r hit_Some[OF wf(2)] by (simp add: match_request_vhost)
  moreover have "answers is_match t host path r hm"
    using v match_path_best[OF wf(1) r] by (auto simp: answers_def)
  ultimately show ?thesis by simp
next
  case False
  then have none: "\<nexists>r hm. answers is_match t host path r hm"
    by (auto simp: answers_def match_path_None_iff)
  have "match_request is_match t host path = default_result t"
    using False by (auto simp: match_request_vhost split: option.splits)
  moreover have "default_result t = map_option (\<lambda>d. \<lparr> mr_backend = rt_backends t ! unat d,
      mr_rule = None, mr_host_match = HDefaultBackend \<rparr>) (rt_default_backend t)"
    using assms by (cases "rt_default_backend t") (simp_all add: default_result_def wf_table_def get_at_def)
  ultimately show ?thesis using none by (cases "rt_default_backend t") simp_all
qed

definition sample_table :: "nat route_table" where
  "sample_table =
     \<lparr> rt_hosts = [(''shop.example.com'', sample_rules)],
       rt_wildcard_hosts = [(''example.com'', [rule_new ''/'' Prefix None 1 None])],
       rt_catch_all = None,
       rt_default_backend = Some 0,
       rt_backends = [backend_new ''web'' [endpoint_new addr_a] RoundRobin Http1 0,
                      backend_new ''api'' [endpoint_new addr_b] RoundRobin H2c 1],
       rt_stats = \<lparr> bs_slots = [0, 1], bs_by_name = [''web'' \<mapsto> 0, ''api'' \<mapsto> 1] \<rparr>,
       rt_routes = \<lparr> rst_slots = [0], rst_by_identity = (\<lambda>_. None) \<rparr>,
       rt_tls = \<lparr> sni_exact = [(''shop.example.com'', 7)], sni_wildcard = [(''example.com'', 8)],
                  sni_default = Some 1 \<rparr>,
       rt_generation = 3 \<rparr>"

lemma sample_table_wf: "wf_table sample_table"
proof -
  have v: "map snd (virtual_hosts sample_table) = [sample_rules, [rule_new ''/'' Prefix None 1 None]]"
    by (simp add: sample_table_def virtual_hosts_def)
  have r: "all_rules sample_table = sample_rules @ [rule_new ''/'' Prefix None 1 None]"
    by (simp add: all_rules_def table_routes_def sample_table_def virtual_hosts_def o_def)
  have wf_single: "wf_vhost [x]" for x :: "nat path_rule" by (simp add: wf_vhost_def)
  show ?thesis
    unfolding wf_table_def v r
    by (simp add: sample_rules_wf wf_single rule_ids_def rule_canary_def rule_mirror_def backend_new_wf)
       (simp add: sample_table_def sample_rules_def rule_new_def rule_ids_def rule_canary_def
          rule_mirror_def backend_new_def wf_backend_def endpoint_new_def)
qed

theorem routing_by_normalized_name_witness:
  "match_request (\<lambda>_ _. True) sample_table ''Shop.example.com:443'' ''/x''
     = match_request (\<lambda>_ _. True) sample_table ''shop.EXAMPLE.com.'' ''/x''"
proof -
  have "utf8_bytes (map byte_val ''Shop.example.com:443'')"
    "utf8_bytes (map byte_val ''shop.EXAMPLE.com.'')"
    "lookup_key ''Shop.example.com:443'' = lookup_key ''shop.EXAMPLE.com.''"
    by code_simp+
  from routing_by_normalized_name[OF this] show ?thesis by blast
qed

theorem match_request_refines_witness:
  "match_request (\<lambda>_ _. False) sample_table ''shop.example.com'' ''/foo'' \<noteq> None"
  using match_request_refines[OF sample_table_wf, of "\<lambda>_ _. False" "''shop.example.com''" "''/foo''"]
  by (auto simp: sample_table_def split: option.splits)

text \<open>
  The host tiers are tried in order and only one is used: an exact entry claims the name
  outright, even when none of its paths match; without one, a wildcard claims exactly the
  names with one more label than its parent domain; the catch-all gets the rest.
\<close>

theorem host_tiers:
  assumes "utf8_bytes (map byte_val host)" "lookup_key host = Some k"
  shows "request_vhost t host =
    (if k \<in> dom (map_of (rt_hosts t)) then Some (the (map_of (rt_hosts t) k), HExact)
     else if \<exists>label parent. k = label @ CHR ''.'' # parent \<and> label \<noteq> [] \<and> CHR ''.'' \<notin> set label \<and>
               parent \<noteq> [] \<and> parent \<in> dom (map_of (rt_wildcard_hosts t))
     then Some (the (map_of (rt_wildcard_hosts t) (the (parent_domain k))), HWildcard)
     else map_option (\<lambda>v. (v, HCatchAll)) (rt_catch_all t))"
proof (cases "map_of (rt_hosts t) k")
  case (Some v)
  then show ?thesis using host_names.resolve_exact[OF assms, of t "(v, HExact)"] by auto
next
  case None
  have "(\<exists>label parent. k = label @ CHR ''.'' # parent \<and> label \<noteq> [] \<and> CHR ''.'' \<notin> set label \<and>
               parent \<noteq> [] \<and> parent \<in> dom (map_of (rt_wildcard_hosts t)))
      \<longleftrightarrow> Option.bind (parent_domain k) (map_of (rt_wildcard_hosts t)) \<noteq> None" (is "?L \<longleftrightarrow> ?R")
  proof
    assume ?L
    then show ?R using parent_domain_label by fastforce
  next
    assume ?R
    then obtain parent where p: "parent_domain k = Some parent" "parent \<in> dom (map_of (rt_wildcard_hosts t))"
      by (cases "parent_domain k") auto
    from p(1) obtain label where "split_once (CHR ''.'') k = Some (label, parent)" "label \<noteq> []" "parent \<noteq> []"
      by (auto simp: parent_domain_def split: option.splits if_splits)
    with p(2) show ?L unfolding split_once_Some_iff by blast
  qed
  moreover have "request_vhost t host =
      (case Option.bind (parent_domain k) (map_of (rt_wildcard_hosts t)) of
         Some v \<Rightarrow> Some (v, HWildcard) | None \<Rightarrow> map_option (\<lambda>v. (v, HCatchAll)) (rt_catch_all t))"
    using None assms(2) by (simp add: request_vhost_def select_vhost_def split: option.splits)
  ultimately show ?thesis using None
    by (cases "parent_domain k") (auto simp: domIff split: option.splits)
qed

theorem host_tiers_witness:
  "request_vhost sample_table ''a.example.com'' = Some ([rule_new ''/'' Prefix None 1 None], HWildcard)"
proof -
  have k: "lookup_key ''a.example.com'' = Some ''a.example.com''"
    and u: "utf8_bytes (map byte_val ''a.example.com'')"
    and p: "parent_domain ''a.example.com'' = Some ''example.com''" by code_simp+
  have "''a.example.com'' = ''a'' @ CHR ''.'' # ''example.com'' \<and> ''a'' \<noteq> [] \<and> CHR ''.'' \<notin> set ''a'' \<and>
      ''example.com'' \<noteq> [] \<and> ''example.com'' \<in> dom (map_of (rt_wildcard_hosts sample_table))"
    by (simp add: sample_table_def)
  then have "\<exists>label parent. ''a.example.com'' = label @ CHR ''.'' # parent \<and> label \<noteq> [] \<and>
      CHR ''.'' \<notin> set label \<and> parent \<noteq> [] \<and> parent \<in> dom (map_of (rt_wildcard_hosts sample_table))" by blast
  with host_tiers[OF u k, of sample_table] show ?thesis by (simp add: p sample_table_def)
qed

text \<open>
  Certificates resolve like host routing: when the certificate map has an entry for
  exactly the exact and wildcard names the table serves, the handshake takes an exact
  certificate precisely when the request is routed by an exact host, and a wildcard
  certificate precisely when it is routed by a wildcard.
\<close>

theorem sni_mirrors_host_routing:
  assumes "utf8_bytes (map byte_val host)" "lookup_key host = Some k"
    and "dom (map_of (sni_exact (rt_tls t))) = dom (map_of (rt_hosts t))"
    and "dom (map_of (sni_wildcard (rt_tls t))) = dom (map_of (rt_wildcard_hosts t))"
  shows "case request_vhost t host of
      Some (_, HExact) \<Rightarrow> sni_resolve (rt_tls t) host = map_of (sni_exact (rt_tls t)) k
    | Some (_, HWildcard) \<Rightarrow>
        sni_resolve (rt_tls t) host = map_of (sni_wildcard (rt_tls t)) (the (parent_domain k))
    | _ \<Rightarrow> sni_resolve (rt_tls t) host = sni_default (rt_tls t)"
proof -
  have e: "map_of (sni_exact (rt_tls t)) k = None \<longleftrightarrow> map_of (rt_hosts t) k = None"
    and w: "\<And>p. map_of (sni_wildcard (rt_tls t)) p = None \<longleftrightarrow> map_of (rt_wildcard_hosts t) p = None"
    using assms(3,4) by (metis domIff)+
  note r = sni_names.resolve_key[OF assms(1,2), of "rt_tls t"]
  show ?thesis
  proof (cases "map_of (rt_hosts t) k")
    case (Some v)
    with e obtain c where "map_of (sni_exact (rt_tls t)) k = Some c" by (metis not_Some_eq)
    with Some r assms(2) show ?thesis by (simp add: request_vhost_def select_vhost_def)
  next
    case None
    with e have n: "map_of (sni_exact (rt_tls t)) k = None" by simp
    show ?thesis
    proof (cases "Option.bind (parent_domain k) (map_of (rt_wildcard_hosts t))")
      case None': None
      then have "Option.bind (parent_domain k) (map_of (sni_wildcard (rt_tls t))) = None"
        using w by (cases "parent_domain k") simp_all
      with None None' n r assms(2) show ?thesis
        by (simp add: request_vhost_def select_vhost_def split: option.splits)
    next
      case (Some v)
      then obtain p where p: "parent_domain k = Some p" "map_of (rt_wildcard_hosts t) p = Some v"
        by (cases "parent_domain k") simp_all
      with w obtain c where "map_of (sni_wildcard (rt_tls t)) p = Some c" by (metis not_Some_eq)
      with None n r p assms(2) show ?thesis by (simp add: request_vhost_def select_vhost_def)
    qed
  qed
qed

theorem sni_mirrors_host_routing_witness:
  "sni_resolve (rt_tls sample_table) ''shop.example.com'' = Some 7"
proof -
  have k: "lookup_key ''shop.example.com'' = Some ''shop.example.com''"
    and u: "utf8_bytes (map byte_val ''shop.example.com'')" by code_simp+
  from sni_mirrors_host_routing[OF u k, of sample_table] show ?thesis
    by (simp add: sample_table_def request_vhost_def select_vhost_def k)
qed

end
