(* ===== verification/Builder.thy ===== *)
theory Builder
  imports Table
begin

text \<open>
  \<open>crates/ramjet-router/src/builder.rs\<close>: validation and construction of a route table. Every
  \<open>BuildError\<close> is a constructor of \<open>build_error\<close>. \<open>compile\<close> stands for the \<open>regex\<close> crate's
  builder (pattern and case-insensitivity to a compiled expression or its error); \<open>iter\<close> is the
  order in which the hash map of buckets is drained, which the code leaves unspecified. The
  counter stores of \<open>Stats\<close> are threaded through \<open>build\<close>.
\<close>

section \<open>Definitions\<close>

definition DEFAULT_WEIGHT_TOTAL :: u32 where
  "DEFAULT_WEIGHT_TOTAL = 100"

datatype 'e build_error =
    HostLength string
  | HostSyntax string char
  | WildcardShape string
  | PathNotAbsolute string
  | BadPattern string 'e
  | BadCanaryPattern string 'e
  | DuplicatePath string string path_type
  | DuplicateBackend string
  | UnknownBackend string string
  | CanaryHeaderConflict string string
  | CanaryWeight u32 u32
  | MirrorPercent u32
  | MirrorBackendMissing string string

record canary_rules =
  cr_backend :: string
  cr_header :: "string option"
  cr_header_value :: "string option"
  cr_header_pattern :: "string option"
  cr_cookie :: "string option"
  cr_weight :: u32
  cr_weight_total :: u32

record mirror_rules =
  mru_backend :: string
  mru_percent :: u32
  mru_host :: "string option"

record route_options =
  ro_canary :: "canary_rules option"
  ro_mirror :: "mirror_rules option"

datatype host_slot = SExact string | SWildcard string | SCatchAll

fun slot_display :: "host_slot \<Rightarrow> string" where
  "slot_display (SExact h) = h"
| "slot_display (SWildcard h) = h"
| "slot_display SCatchAll = ''*''"

record 'r canary_draft =
  cd_backend :: string
  cd_header :: "'r header_spec option"
  cd_cookie :: "string option"
  cd_weight :: u32
  cd_weight_total :: u32

record mirror_draft =
  md_backend :: string
  md_percent :: u32
  md_host :: "string option"

record backend_options =
  bo_policy :: lb_policy
  bo_protocol :: backend_protocol

record backend_draft =
  bd_name :: string
  bd_options :: backend_options
  bd_endpoints :: "endpoint list"

record 'r route_draft =
  rd_slot :: host_slot
  rd_path :: string
  rd_path_type :: path_type
  rd_regex :: "'r option"
  rd_backend :: string
  rd_canary :: "'r canary_draft option"
  rd_mirror :: "mirror_draft option"

record 'r builder =
  b_generation :: u64
  b_previous :: "backend_stats option"
  b_previous_routes :: "route_stats option"
  b_backends :: "backend_draft list"
  b_backend_ids :: "string \<Rightarrow> backend_id option"
  b_routes :: "'r route_draft list"
  b_default_backend :: "string option"
  b_tls_exact :: "(string \<times> cert_handle) list"
  b_tls_wildcard :: "(string \<times> cert_handle) list"
  b_tls_default :: "cert_handle option"

definition builder_new :: "'r builder" where
  "builder_new =
     \<lparr> b_generation = 0, b_previous = None, b_previous_routes = None, b_backends = [],
       b_backend_ids = (\<lambda>_. None), b_routes = [], b_default_backend = None, b_tls_exact = [],
       b_tls_wildcard = [], b_tls_default = None \<rparr>"

definition from_previous :: "'r route_table \<Rightarrow> 'r builder" where
  "from_previous t = builder_new\<lparr> b_generation := saturating_add (rt_generation t) 1,
     b_previous := Some (rt_stats t), b_previous_routes := Some (rt_routes t) \<rparr>"

definition set_generation :: "u64 \<Rightarrow> 'r builder \<Rightarrow> 'r builder" where
  "set_generation g b = b\<lparr> b_generation := g \<rparr>"

definition backend_with ::
  "'r builder \<Rightarrow> string \<Rightarrow> endpoint list \<Rightarrow> backend_options
   \<Rightarrow> 'e build_error + ('r builder \<times> backend_id)" where
  "backend_with b name endpoints options =
     (if b_backend_ids b name \<noteq> None then Inl (DuplicateBackend name)
      else
        let bid = of_nat (length (b_backends b))
        in Inr (b\<lparr> b_backend_ids := (b_backend_ids b)(name \<mapsto> bid),
                   b_backends := b_backends b @
                     [\<lparr> bd_name = name, bd_options = options, bd_endpoints = endpoints \<rparr>] \<rparr>, bid))"

definition add_backend ::
  "'r builder \<Rightarrow> string \<Rightarrow> lb_policy \<Rightarrow> endpoint list \<Rightarrow> 'e build_error + ('r builder \<times> backend_id)" where
  "add_backend b name policy endpoints =
     backend_with b name endpoints \<lparr> bo_policy = policy, bo_protocol = Http1 \<rparr>"

definition set_default_backend :: "'r builder \<Rightarrow> string \<Rightarrow> 'r builder" where
  "set_default_backend b name = b\<lparr> b_default_backend := Some name \<rparr>"

definition host_forbidden :: "char \<Rightarrow> bool" where
  "host_forbidden c \<longleftrightarrow> c = CHR '':'' \<or> c = CHR ''/'' \<or> c = CHR ''*'' \<or> c = CHR '' ''"

definition normalize_config_host :: "string \<Rightarrow> 'e build_error + host_slot" where
  "normalize_config_host raw =
     (let host = trim_end_matches (CHR ''.'') raw
      in if host = [] \<or> length host > MAX_HOST_LEN then Inl (HostLength host)
         else
           let (is_wildcard, name) =
             (case strip_prefix ''*.'' host of Some rest \<Rightarrow> (True, rest) | None \<Rightarrow> (False, host))
           in case find host_forbidden name of
                Some found \<Rightarrow>
                  if found = CHR ''*'' then Inl (WildcardShape host) else Inl (HostSyntax host found)
              | None \<Rightarrow>
                  if name = [] then Inl (WildcardShape host)
                  else Inr (if is_wildcard then SWildcard (lower name) else SExact (lower name)))"

definition canary_draft_of ::
  "(string \<Rightarrow> bool \<Rightarrow> 'e + 'r) \<Rightarrow> canary_rules \<Rightarrow> host_slot \<Rightarrow> string
   \<Rightarrow> 'e build_error + 'r canary_draft" where
  "canary_draft_of compile canary slot path =
     (if cr_header_value canary \<noteq> None \<and> cr_header_pattern canary \<noteq> None
      then Inl (CanaryHeaderConflict (slot_display slot) path)
      else
        let weight_total = (if cr_weight_total canary = 0 then DEFAULT_WEIGHT_TOTAL
                            else cr_weight_total canary)
        in if cr_weight canary > weight_total
           then Inl (CanaryWeight (cr_weight canary) weight_total)
           else
             let header =
               (case cr_header canary of
                  None \<Rightarrow> Inr None
                | Some name \<Rightarrow>
                    (case cr_header_pattern canary of
                       None \<Rightarrow>
                         Inr (Some \<lparr> hs_name = name, hs_value = cr_header_value canary,
                                     hs_pattern = None \<rparr>)
                     | Some p \<Rightarrow>
                         (case compile (''^(?:'' @ p @ '')$'') False of
                            Inl source \<Rightarrow> Inl (BadCanaryPattern p source)
                          | Inr re \<Rightarrow>
                              Inr (Some \<lparr> hs_name = name, hs_value = cr_header_value canary,
                                          hs_pattern = Some re \<rparr>))))
             in sum_bind header (\<lambda>h.
                  Inr \<lparr> cd_backend = cr_backend canary, cd_header = h, cd_cookie = cr_cookie canary,
                        cd_weight = cr_weight canary, cd_weight_total = weight_total \<rparr>))"

definition mirror_draft_of ::
  "mirror_rules \<Rightarrow> host_slot \<Rightarrow> string \<Rightarrow> 'e build_error + mirror_draft" where
  "mirror_draft_of mirror slot path =
     (if mru_backend mirror = [] then Inl (MirrorBackendMissing (slot_display slot) path)
      else if mru_percent mirror > MIRROR_PERCENT_TOTAL then Inl (MirrorPercent (mru_percent mirror))
      else Inr \<lparr> md_backend = mru_backend mirror, md_percent = mru_percent mirror,
                 md_host = mru_host mirror \<rparr>)"

definition draft ::
  "(string \<Rightarrow> bool \<Rightarrow> 'e + 'r) \<Rightarrow> string option \<Rightarrow> string \<Rightarrow> path_type \<Rightarrow> string
   \<Rightarrow> 'e build_error + 'r route_draft" where
  "draft compile host path ptype backend =
     sum_bind (case host of Some h \<Rightarrow> normalize_config_host h | None \<Rightarrow> Inr SCatchAll) (\<lambda>slot.
     sum_bind
       (if ptype = ImplementationSpecific
        then (case compile (''^(?:'' @ path @ '')'') True of
                Inl source \<Rightarrow> Inl (BadPattern path source)
              | Inr re \<Rightarrow> Inr (Some re))
        else if \<not> starts_with ''/'' path then Inl (PathNotAbsolute path)
        else Inr None) (\<lambda>regex.
     Inr \<lparr> rd_slot = slot, rd_path = path, rd_path_type = ptype, rd_regex = regex,
           rd_backend = backend, rd_canary = None, rd_mirror = None \<rparr>))"

definition route_with ::
  "(string \<Rightarrow> bool \<Rightarrow> 'e + 'r) \<Rightarrow> 'r builder \<Rightarrow> string option \<Rightarrow> string \<Rightarrow> path_type \<Rightarrow> string
   \<Rightarrow> route_options \<Rightarrow> 'e build_error + 'r builder" where
  "route_with compile b host path ptype backend options =
     sum_bind (draft compile host path ptype backend) (\<lambda>d0.
     sum_bind
       (case ro_canary options of
          None \<Rightarrow> Inr d0
        | Some canary \<Rightarrow>
            sum_bind (canary_draft_of compile canary (rd_slot d0) path)
              (\<lambda>c. Inr (d0\<lparr> rd_canary := Some c \<rparr>))) (\<lambda>d1.
     sum_bind
       (case ro_mirror options of
          None \<Rightarrow> Inr d1
        | Some mirror \<Rightarrow>
            sum_bind (mirror_draft_of mirror (rd_slot d1) path)
              (\<lambda>m. Inr (d1\<lparr> rd_mirror := Some m \<rparr>))) (\<lambda>d2.
     Inr (b\<lparr> b_routes := b_routes b @ [d2] \<rparr>))))"

definition add_route ::
  "(string \<Rightarrow> bool \<Rightarrow> 'e + 'r) \<Rightarrow> 'r builder \<Rightarrow> string option \<Rightarrow> string \<Rightarrow> path_type \<Rightarrow> string
   \<Rightarrow> 'e build_error + 'r builder" where
  "add_route compile b host path ptype backend =
     route_with compile b host path ptype backend \<lparr> ro_canary = None, ro_mirror = None \<rparr>"

definition canary_route ::
  "(string \<Rightarrow> bool \<Rightarrow> 'e + 'r) \<Rightarrow> 'r builder \<Rightarrow> string option \<Rightarrow> string \<Rightarrow> path_type \<Rightarrow> string
   \<Rightarrow> canary_rules \<Rightarrow> 'e build_error + 'r builder" where
  "canary_route compile b host path ptype backend canary =
     route_with compile b host path ptype backend \<lparr> ro_canary = Some canary, ro_mirror = None \<rparr>"

definition add_certificate ::
  "'r builder \<Rightarrow> string \<Rightarrow> cert_handle \<Rightarrow> 'e build_error + 'r builder" where
  "add_certificate b host key =
     sum_bind (normalize_config_host host) (\<lambda>slot.
       Inr (case slot of
              SExact h \<Rightarrow> b\<lparr> b_tls_exact := hm_insert h key (b_tls_exact b) \<rparr>
            | SWildcard h \<Rightarrow> b\<lparr> b_tls_wildcard := hm_insert h key (b_tls_wildcard b) \<rparr>
            | SCatchAll \<Rightarrow> b\<lparr> b_tls_default := Some key \<rparr>))"

definition default_certificate :: "'r builder \<Rightarrow> cert_handle \<Rightarrow> 'r builder" where
  "default_certificate b key = b\<lparr> b_tls_default := Some key \<rparr>"

definition resolve_backend ::
  "(string \<Rightarrow> backend_id option) \<Rightarrow> string \<Rightarrow> host_slot \<Rightarrow> string \<Rightarrow> 'e build_error + backend_id" where
  "resolve_backend ids name slot path =
     ok_or (UnknownBackend name (slot_display slot @ path)) (ids name)"

subsection \<open>\<open>build\<close>\<close>

type_synonym 'r buckets = "(host_slot \<times> 'r path_rule list) list"

definition bucket_push :: "host_slot \<Rightarrow> 'r path_rule \<Rightarrow> 'r buckets \<Rightarrow> 'r buckets" where
  "bucket_push slot rule bs =
     (case map_of bs slot of
        None \<Rightarrow> bs @ [(slot, [rule])]
      | Some _ \<Rightarrow> map (\<lambda>(s, rs). if s = slot then (s, rs @ [rule]) else (s, rs)) bs)"

text \<open>The rule of one draft: its backend, canary and mirror names resolved in that order.\<close>

definition build_rule ::
  "(string \<Rightarrow> backend_id option) \<Rightarrow> 'r route_draft \<Rightarrow> 'e build_error + 'r path_rule" where
  "build_rule ids d =
     sum_bind (resolve_backend ids (rd_backend d) (rd_slot d) (rd_path d)) (\<lambda>backend_id.
     sum_bind
       (case rd_canary d of
          None \<Rightarrow> Inr None
        | Some c \<Rightarrow>
            sum_bind (resolve_backend ids (cd_backend c) (rd_slot d) (rd_path d)) (\<lambda>bid.
              Inr (Some (canary_new bid (cd_header c) (cd_cookie c) (cd_weight c)
                           (cd_weight_total c))))) (\<lambda>canary.
     sum_bind
       (case rd_mirror d of
          None \<Rightarrow> Inr None
        | Some m \<Rightarrow>
            sum_bind (resolve_backend ids (md_backend m) (rd_slot d) (rd_path d)) (\<lambda>bid.
              Inr (Some (mirror_new bid (md_percent m) (md_host m))))) (\<lambda>mirror.
     Inr (rule_new (rd_path d) (rd_path_type d) (rd_regex d) backend_id
            (extras_build canary mirror)))))"

definition draft_key :: "'r route_draft \<Rightarrow> host_slot \<times> string \<times> path_type" where
  "draft_key d = (rd_slot d, rd_path d, rd_path_type d)"

fun group_routes ::
  "(string \<Rightarrow> backend_id option) \<Rightarrow> (host_slot \<times> string \<times> path_type) set \<Rightarrow> 'r buckets
   \<Rightarrow> 'r route_draft list \<Rightarrow> 'e build_error + 'r buckets" where
  "group_routes ids seen bs [] = Inr bs"
| "group_routes ids seen bs (d # ds) =
     (if draft_key d \<in> seen
      then Inl (DuplicatePath (slot_display (rd_slot d)) (rd_path d) (rd_path_type d))
      else
        sum_bind (build_rule ids d) (\<lambda>rule.
          group_routes ids (insert (draft_key d) seen) (bucket_push (rd_slot d) rule bs) ds))"

fun index_rules ::
  "backend list \<Rightarrow> string \<Rightarrow> route_identity list \<Rightarrow> 'r path_rule list
   \<Rightarrow> route_identity list \<times> 'r path_rule list" where
  "index_rules backends host identities [] = (identities, [])"
| "index_rules backends host identities (r # rs) =
     (let r' = set_stats_index r (of_nat (length identities));
          identity =
            \<lparr> ri_host = host, ri_path = pr_path r, ri_path_type = pr_path_type r,
              ri_backend = (case get_at backends (unat (pr_backend r)) of
                              None \<Rightarrow> '''' | Some b \<Rightarrow> be_name b) \<rparr>;
          (identities', rs') = index_rules backends host (identities @ [identity]) rs
      in (identities', r' # rs'))"

fun slot_host :: "host_slot \<Rightarrow> string" where
  "slot_host (SExact h) = h"
| "slot_host (SWildcard h) = ''*.'' @ h"
| "slot_host SCatchAll = ''*''"

record 'r placed =
  pl_hosts :: "(string \<times> 'r virtual_host) list"
  pl_wildcard :: "(string \<times> 'r virtual_host) list"
  pl_catch_all :: "'r virtual_host option"
  pl_identities :: "route_identity list"

definition place_bucket ::
  "backend list \<Rightarrow> host_slot \<times> 'r path_rule list \<Rightarrow> 'r placed \<Rightarrow> 'r placed" where
  "place_bucket backends bucket p =
     (let (slot, rules) = bucket;
          (identities, rules') =
            index_rules backends (slot_host slot) (pl_identities p) (sort_key rule_sort_key rules);
          p1 = p\<lparr> pl_identities := identities \<rparr>
      in case slot of
           SExact h \<Rightarrow> p1\<lparr> pl_hosts := hm_insert h rules' (pl_hosts p1) \<rparr>
         | SWildcard h \<Rightarrow> p1\<lparr> pl_wildcard := hm_insert h rules' (pl_wildcard p1) \<rparr>
         | SCatchAll \<Rightarrow> p1\<lparr> pl_catch_all := Some rules' \<rparr>)"

definition place_empty :: "'r placed" where
  "place_empty = \<lparr> pl_hosts = [], pl_wildcard = [], pl_catch_all = None, pl_identities = [] \<rparr>"

definition build_backends :: "backend_draft list \<Rightarrow> backend list" where
  "build_backends ds =
     map (\<lambda>(i, d). backend_new (bd_name d) (bd_endpoints d) (bo_policy (bd_options d))
                     (bo_protocol (bd_options d)) (of_nat i))
       (zip [0..<length ds] ds)"

definition build ::
  "('r buckets \<Rightarrow> 'r buckets) \<Rightarrow> heap \<Rightarrow> route_slot list \<Rightarrow> 'r builder
   \<Rightarrow> 'e build_error + (heap \<times> route_slot list \<times> 'r route_table)" where
  "build iter hp rhp b =
     (let specs = map (\<lambda>d. (bd_name d, map ep_addr (bd_endpoints d))) (b_backends b);
          (hp', stats) = stats_rebuild hp specs (b_previous b);
          backends = build_backends (b_backends b)
      in sum_bind (group_routes (b_backend_ids b) {} [] (b_routes b)) (\<lambda>bs.
         let p = fold (place_bucket backends) (iter bs) place_empty;
             (rhp', route_stats) = route_stats_rebuild rhp (pl_identities p) (b_previous_routes b)
         in sum_bind
              (case b_default_backend b of
                 None \<Rightarrow> Inr None
               | Some name \<Rightarrow>
                   sum_bind (ok_or (UnknownBackend name ''default backend'') (b_backend_ids b name))
                     (\<lambda>bid. Inr (Some bid))) (\<lambda>default_backend.
              Inr (hp', rhp',
                \<lparr> rt_hosts = pl_hosts p, rt_wildcard_hosts = pl_wildcard p,
                  rt_catch_all = pl_catch_all p, rt_default_backend = default_backend,
                  rt_backends = backends, rt_stats = stats, rt_routes = route_stats,
                  rt_tls = \<lparr> sni_exact = b_tls_exact b, sni_wildcard = b_tls_wildcard b,
                             sni_default = b_tls_default b \<rparr>,
                  rt_generation = b_generation b \<rparr>))))"

section \<open>Backends\<close>

text \<open>
  The registry is a bijection between names and ids: id \<open>i\<close> is the backend at position \<open>i\<close>.
\<close>

definition wf_builder :: "'r builder \<Rightarrow> bool" where
  "wf_builder b \<longleftrightarrow>
     length (b_backends b) \<le> 2 ^ 32 \<and>
     (\<forall>name bid. b_backend_ids b name = Some bid \<longrightarrow>
        unat bid < length (b_backends b) \<and> bd_name (b_backends b ! unat bid) = name) \<and>
     (\<forall>i < length (b_backends b). b_backend_ids b (bd_name (b_backends b ! i)) = Some (of_nat i))"

lemma wf_builder_new: "wf_builder builder_new"
  by (simp add: wf_builder_def builder_new_def)

lemma wf_from_previous: "wf_builder (from_previous t)"
  by (simp add: wf_builder_def from_previous_def builder_new_def)

lemma wf_builder_cong:
  "b_backends b' = b_backends b \<Longrightarrow> b_backend_ids b' = b_backend_ids b \<Longrightarrow>
     wf_builder b' = wf_builder b"
  by (simp add: wf_builder_def)

lemma wf_backend_with:
  assumes "wf_builder b" "backend_with b name endpoints options = Inr (b', bid)"
    and "length (b_backends b) < 2 ^ 32"
  shows "wf_builder b' \<and> b_backend_ids b' = (b_backend_ids b)(name \<mapsto> bid) \<and>
    unat bid = length (b_backends b)"
proof -
  have new: "b_backend_ids b name = None"
    and bid: "bid = of_nat (length (b_backends b))"
    and b': "b_backend_ids b' = (b_backend_ids b)(name \<mapsto> bid)"
      "b_backends b' = b_backends b @ [\<lparr> bd_name = name, bd_options = options, bd_endpoints = endpoints \<rparr>]"
    using assms(2) by (auto simp: backend_with_def Let_def split: if_splits)
  have u: "unat bid = length (b_backends b)"
    using assms(3) by (simp add: bid unat_of_nat take_bit_nat_eq_self)
  have other: "bd_name (b_backends b ! i) \<noteq> name" if "i < length (b_backends b)" for i
    using assms(1) new that unfolding wf_builder_def by (metis option.distinct(1))
  have "wf_builder b'"
    unfolding wf_builder_def b'
    using assms(1,3) u bid other
    by (auto simp: wf_builder_def nth_append less_Suc_eq split: if_splits)
  with b'(1) u show ?thesis by simp
qed

lemma wf_route_with:
  "route_with compile b host path ptype backend options = Inr b' \<Longrightarrow>
     wf_builder b' = wf_builder b \<and> b_backend_ids b' = b_backend_ids b"
  by (auto simp: route_with_def sum_bind_Inr_iff wf_builder_def)

section \<open>Grouping\<close>

definition rule_of :: "(string \<Rightarrow> backend_id option) \<Rightarrow> 'r route_draft \<Rightarrow> 'r path_rule" where
  "rule_of ids d =
     rule_new (rd_path d) (rd_path_type d) (rd_regex d) (the (ids (rd_backend d)))
       (extras_build
          (map_option (\<lambda>c. canary_new (the (ids (cd_backend c))) (cd_header c) (cd_cookie c)
                             (cd_weight c) (cd_weight_total c)) (rd_canary d))
          (map_option (\<lambda>m. mirror_new (the (ids (md_backend m))) (md_percent m) (md_host m))
             (rd_mirror d)))"

definition draft_names :: "'r route_draft \<Rightarrow> string list" where
  "draft_names d = rd_backend d #
     (case rd_canary d of None \<Rightarrow> [] | Some c \<Rightarrow> [cd_backend c]) @
     (case rd_mirror d of None \<Rightarrow> [] | Some m \<Rightarrow> [md_backend m])"

lemma build_rule_iff:
  "build_rule ids d = Inr r \<longleftrightarrow> set (draft_names d) \<subseteq> dom ids \<and> r = rule_of ids d"
  by (cases "rd_canary d"; cases "rd_mirror d"; cases "ids (rd_backend d)")
     (auto simp: build_rule_def resolve_backend_def rule_of_def draft_names_def ok_or_def
        sum_bind_Inr_iff split: option.splits)

lemma build_rule_ok: "set (draft_names d) \<subseteq> dom ids \<Longrightarrow> build_rule ids d = Inr (rule_of ids d)"
  by (simp add: build_rule_iff)

definition bucket :: "'r buckets \<Rightarrow> host_slot \<Rightarrow> 'r path_rule list" where
  "bucket bs slot = (case map_of bs slot of None \<Rightarrow> [] | Some rs \<Rightarrow> rs)"

lemma map_of_bucket_push:
  "map_of (bucket_push slot r bs) = (map_of bs)(slot \<mapsto> bucket bs slot @ [r])"
proof (cases "map_of bs slot")
  case None
  then show ?thesis
    by (auto simp: bucket_push_def bucket_def map_add_def fun_eq_iff split: option.splits)
next
  case (Some rs)
  have "map_of (map (\<lambda>(s, rs). if s = slot then (s, rs @ [r]) else (s, rs)) bs) x =
      map_option (\<lambda>rs. if x = slot then rs @ [r] else rs) (map_of bs x)" for x
    by (induction bs) auto
  with Some show ?thesis by (auto simp: bucket_push_def bucket_def fun_eq_iff option.map_ident)
qed

lemma distinct_bucket_push:
  "distinct (map fst bs) \<Longrightarrow> distinct (map fst (bucket_push slot r bs))"
proof (cases "map_of bs slot")
  case None
  then show "distinct (map fst bs) \<Longrightarrow> distinct (map fst (bucket_push slot r bs))"
    by (simp add: bucket_push_def) (simp add: map_of_eq_None_iff)
next
  case (Some rs)
  have "map fst (map (\<lambda>(s, rs). if s = slot then (s, rs @ [r]) else (s, rs)) bs) = map fst bs"
    by (induction bs) auto
  with Some show "distinct (map fst bs) \<Longrightarrow> distinct (map fst (bucket_push slot r bs))"
    by (simp only: bucket_push_def option.case)
qed

lemma group_routes_spec:
  assumes "(group_routes ids seen bs ds :: 'e build_error + 'r buckets) = Inr bs'"
    and "distinct (map fst bs)"
  shows "distinct (map draft_key ds) \<and> draft_key ` set ds \<inter> seen = {} \<and>
    (\<forall>d \<in> set ds. set (draft_names d) \<subseteq> dom ids) \<and> distinct (map fst bs') \<and>
    (\<forall>slot. map_of bs' slot =
       (if map_of bs slot = None \<and> (\<forall>d \<in> set ds. rd_slot d \<noteq> slot) then None
        else Some (bucket bs slot @ map (rule_of ids) (filter (\<lambda>d. rd_slot d = slot) ds))))"
  using assms
proof (induction ids seen bs ds rule: group_routes.induct)
  case (1 ids seen bs)
  then show ?case by (auto simp: bucket_def split: option.splits)
next
  case (2 ids seen bs d ds)
  from "2.prems"(1) have nk: "draft_key d \<notin> seen" and r': "set (draft_names d) \<subseteq> dom ids"
    and rest: "(group_routes ids (insert (draft_key d) seen) (bucket_push (rd_slot d) (rule_of ids d) bs) ds
        :: 'e build_error + 'r buckets) = Inr bs'"
    by (auto simp: sum_bind_Inr_iff build_rule_iff split: if_splits)
  note IH = "2.IH"[OF nk rest distinct_bucket_push[OF "2.prems"(2)]]
  have "map_of bs' slot =
       (if map_of bs slot = None \<and> (\<forall>d \<in> set (d # ds). rd_slot d \<noteq> slot) then None
        else Some (bucket bs slot @ map (rule_of ids) (filter (\<lambda>d. rd_slot d = slot) (d # ds))))" for slot
    using IH r' by (simp add: map_of_bucket_push bucket_def)
  with IH r' nk show ?case by auto
qed

lemma group_routes_total:
  assumes "distinct (map draft_key ds)" "draft_key ` set ds \<inter> seen = {}"
    and "\<forall>d \<in> set ds. set (draft_names d) \<subseteq> dom ids"
  shows "\<exists>bs'. group_routes ids seen bs ds = Inr bs'"
  using assms
proof (induction ds arbitrary: seen bs)
  case (Cons d ds)
  then show ?case by (simp add: build_rule_ok)
qed simp

section \<open>Placing\<close>

abbreviation unindexed :: "'r path_rule \<Rightarrow> 'r path_rule" where
  "unindexed r \<equiv> r\<lparr> pr_stats_index := 0 \<rparr>"

lemma unindexed_same [simp]:
  "rule_sort_key (unindexed r) = rule_sort_key r"
  "rule_matches is_match (unindexed r) path = rule_matches is_match r path"
  "rule_ids (unindexed r) = rule_ids r"
  by (cases "pr_path_type r";
      simp add: rule_sort_key_def rule_matches_def rule_ids_def rule_canary_def rule_mirror_def)+

lemma rule_of_unindexed: "unindexed (rule_of ids d) = rule_of ids d"
  by (simp add: rule_of_def rule_new_def)

lemma index_rules_spec:
  assumes "index_rules backends host ids0 rs = (ids', rs')"
  shows "length ids' = length ids0 + length rs \<and> map unindexed rs' = map unindexed rs \<and>
    (\<forall>i < length rs. pr_stats_index (rs' ! i) = of_nat (length ids0 + i))"
  using assms
proof (induction rs arbitrary: ids0 ids' rs')
  case (Cons r rs)
  obtain ids1 rs1 where *: "index_rules backends host (ids0 @ [\<lparr> ri_host = host, ri_path = pr_path r,
      ri_path_type = pr_path_type r, ri_backend = (case get_at backends (unat (pr_backend r)) of
        None \<Rightarrow> '''' | Some b \<Rightarrow> be_name b) \<rparr>]) rs = (ids1, rs1)" by fastforce
  then have out: "ids' = ids1" "rs' = set_stats_index r (of_nat (length ids0)) # rs1"
    using Cons.prems by (auto simp: Let_def)
  have "pr_stats_index (rs' ! i) = of_nat (length ids0 + i)" if "i < length (r # rs)" for i
    using that Cons.IH[OF *] out(2) by (cases i) (simp_all add: set_stats_index_def ac_simps)
  then show ?case using Cons.IH[OF *] out by (simp add: set_stats_index_def)
qed simp

definition placed_at :: "'r placed \<Rightarrow> host_slot \<Rightarrow> 'r virtual_host option" where
  "placed_at p slot =
     (case slot of SExact h \<Rightarrow> map_of (pl_hosts p) h | SWildcard h \<Rightarrow> map_of (pl_wildcard p) h
      | SCatchAll \<Rightarrow> pl_catch_all p)"

definition vhost_of :: "'r placed \<Rightarrow> 'r path_rule list \<Rightarrow> 'r virtual_host \<Rightarrow> bool" where
  "vhost_of p rs v \<longleftrightarrow>
     map unindexed v = map unindexed (sort_key rule_sort_key rs) \<and>
     (\<forall>r \<in> set v. unat (pr_stats_index r) < length (pl_identities p))"

definition placed_inv :: "'r buckets \<Rightarrow> 'r placed \<Rightarrow> bool" where
  "placed_inv bs p \<longleftrightarrow>
     distinct (map fst (pl_hosts p)) \<and> distinct (map fst (pl_wildcard p)) \<and>
     length (pl_identities p) = sum_list (map (length \<circ> snd) bs) \<and>
     (\<forall>slot. rel_option (vhost_of p) (map_of bs slot) (placed_at p slot))"

lemma placed_inv_empty: "placed_inv [] place_empty"
  by (simp add: placed_inv_def place_empty_def placed_at_def split: host_slot.splits)

lemma place_bucket_inv:
  assumes "placed_inv bs p" "slot \<notin> fst ` set bs"
    and "length (pl_identities p) + length rs < 2 ^ 32"
  shows "placed_inv ((slot, rs) # bs) (place_bucket backends (slot, rs) p)"
proof -
  let ?sorted = "sort_key rule_sort_key rs"
  obtain ids' v where iv: "index_rules backends (slot_host slot) (pl_identities p) ?sorted = (ids', v)"
    by fastforce
  note s = index_rules_spec[OF iv]
  let ?p = "place_bucket backends (slot, rs) p"
  have ids: "pl_identities ?p = ids'"
    by (simp add: place_bucket_def iv Let_def split: host_slot.splits)
  have at: "placed_at ?p = (placed_at p)(slot \<mapsto> v)"
    by (rule ext) (auto simp: place_bucket_def iv Let_def placed_at_def split: host_slot.splits)
  have len: "length ids' = length (pl_identities p) + length rs" using s by simp
  have "length v = length rs" using s by (metis length_map length_sort)
  moreover have "unat (of_nat (length (pl_identities p) + i) :: u32) = length (pl_identities p) + i"
    if "i < length rs" for i
    using that assms(3) by (subst unat_of_nat) (simp add: take_bit_nat_eq_self)
  ultimately have "\<forall>r \<in> set v. unat (pr_stats_index r) < length ids'"
    using s len by (auto simp: in_set_conv_nth simp del: of_nat_add)
  then have new: "vhost_of ?p rs v" using s by (simp add: vhost_of_def ids)
  have mono: "vhost_of ?p rs' v'" if "vhost_of p rs' v'" for rs' v'
    using that len unfolding vhost_of_def ids by (metis trans_less_add1)
  have "rel_option (vhost_of ?p) (map_of ((slot, rs) # bs) sl) (placed_at ?p sl)" for sl
  proof (cases "sl = slot")
    case True
    with at new show ?thesis by simp
  next
    case False
    have "rel_option (vhost_of p) (map_of bs sl) (placed_at p sl)"
      using assms(1) by (simp add: placed_inv_def)
    then have "rel_option (vhost_of ?p) (map_of bs sl) (placed_at p sl)"
      using mono by (rule option.rel_mono_strong)
    with False at show ?thesis by simp
  qed
  moreover have "distinct (map fst (pl_hosts ?p))" "distinct (map fst (pl_wildcard ?p))"
    using assms(1) by (auto simp: placed_inv_def place_bucket_def iv Let_def split: host_slot.splits)
  moreover have "length (pl_identities ?p) = sum_list (map (length \<circ> snd) ((slot, rs) # bs))"
    using assms(1) len ids by (simp add: placed_inv_def)
  ultimately show ?thesis by (simp add: placed_inv_def)
qed

lemma fold_place_inv:
  assumes "distinct (map fst bs)" "placed_inv done_bs p" "fst ` set bs \<inter> fst ` set done_bs = {}"
    and "sum_list (map (length \<circ> snd) (bs @ done_bs)) < 2 ^ 32"
  shows "placed_inv (rev bs @ done_bs) (fold (place_bucket backends) bs p)"
  using assms
proof (induction bs arbitrary: done_bs p)
  case (Cons b bs)
  obtain slot rs where b: "b = (slot, rs)" by (cases b)
  have "length (pl_identities p) = sum_list (map (length \<circ> snd) done_bs)"
    using Cons.prems(2) by (simp add: placed_inv_def)
  then have "placed_inv ((slot, rs) # done_bs) (place_bucket backends (slot, rs) p)"
    using Cons.prems by (intro place_bucket_inv) (auto simp: b o_def)
  from Cons.IH[OF _ this] Cons.prems show ?case by (auto simp: b)
qed simp

text \<open>The hash map of buckets is drained in some order: every bucket once.\<close>

definition hash_order :: "('r buckets \<Rightarrow> 'r buckets) \<Rightarrow> bool" where
  "hash_order iter \<longleftrightarrow>
     (\<forall>bs. distinct (map fst bs) \<longrightarrow> distinct (map fst (iter bs)) \<and> set (iter bs) = set bs)"

lemma hash_order_map_of:
  assumes "hash_order iter" "distinct (map fst bs)"
  shows "map_of (iter bs) = map_of bs" "sum_list (map f (iter bs)) = (sum_list (map f bs) :: nat)"
proof -
  have *: "distinct (map fst (iter bs))" "set (iter bs) = set bs"
    using assms by (auto simp: hash_order_def)
  show "map_of (iter bs) = map_of bs"
    by (rule map_of_inject_set [THEN iffD2]) (use * assms(2) in simp_all)
  have "distinct (iter bs)" "distinct bs" using *(1) assms(2) by (simp_all add: distinct_map)
  then show "sum_list (map f (iter bs)) = sum_list (map f bs)"
    using *(2) by (simp add: sum_list_distinct_conv_sum_set)
qed

section \<open>The built table\<close>

lemma build_Inr_iff:
  "(build iter hp rhp b :: 'e build_error + heap \<times> route_slot list \<times> 'r route_table) = Inr (hp', rhp', t) \<longleftrightarrow>
     (\<exists>bs p stats route_stats db.
        group_routes (b_backend_ids b) {} [] (b_routes b) = (Inr bs :: 'e build_error + 'r buckets) \<and>
        stats_rebuild hp (map (\<lambda>d. (bd_name d, map ep_addr (bd_endpoints d))) (b_backends b))
          (b_previous b) = (hp', stats) \<and>
        p = fold (place_bucket (build_backends (b_backends b))) (iter bs) place_empty \<and>
        route_stats_rebuild rhp (pl_identities p) (b_previous_routes b) = (rhp', route_stats) \<and>
        (case b_default_backend b of
           None \<Rightarrow> db = None | Some name \<Rightarrow> db = b_backend_ids b name \<and> db \<noteq> None) \<and>
        t = \<lparr> rt_hosts = pl_hosts p, rt_wildcard_hosts = pl_wildcard p,
              rt_catch_all = pl_catch_all p, rt_default_backend = db,
              rt_backends = build_backends (b_backends b), rt_stats = stats, rt_routes = route_stats,
              rt_tls = \<lparr> sni_exact = b_tls_exact b, sni_wildcard = b_tls_wildcard b,
                         sni_default = b_tls_default b \<rparr>,
              rt_generation = b_generation b \<rparr>)"
  for b :: "'r builder"
proof -
  obtain hp1 st1 where s: "stats_rebuild hp (map (\<lambda>d. (bd_name d, map ep_addr (bd_endpoints d)))
      (b_backends b)) (b_previous b) = (hp1, st1)" by fastforce
  show ?thesis
    by (cases "b_default_backend b"; cases "group_routes (b_backend_ids b) {} [] (b_routes b)
          :: 'e build_error + 'r buckets")
       (auto simp: build_def s Let_def ok_or_def split: prod.splits option.splits)
qed

lemma rebuild_loop_length:
  "rebuild_loop previous hp specs sl bn = (hp', sl', bn') \<Longrightarrow> length sl' = length sl + length specs"
  by (induction previous hp specs sl bn rule: rebuild_loop.induct) (auto split: prod.splits)

lemma route_rebuild_loop_length:
  "route_rebuild_loop previous hp ids sl bn = (hp', sl', bn') \<Longrightarrow> length sl' = length sl + length ids"
  by (induction previous hp ids sl bn rule: route_rebuild_loop.induct) (auto split: prod.splits)

lemma rebuild_lengths:
  "stats_rebuild hp specs previous = (hp', st) \<Longrightarrow> length (bs_slots st) = length specs"
  "route_stats_rebuild rhp ids previous' = (rhp', rst) \<Longrightarrow> length (rst_slots rst) = length ids"
  by (auto simp: stats_rebuild_def route_stats_rebuild_def split: prod.splits
      dest: rebuild_loop_length route_rebuild_loop_length)

definition table_at :: "'r route_table \<Rightarrow> host_slot \<Rightarrow> 'r virtual_host option" where
  "table_at t slot =
     (case slot of SExact h \<Rightarrow> map_of (rt_hosts t) h | SWildcard h \<Rightarrow> map_of (rt_wildcard_hosts t) h
      | SCatchAll \<Rightarrow> rt_catch_all t)"

definition drafts_at :: "'r builder \<Rightarrow> host_slot \<Rightarrow> 'r route_draft list" where
  "drafts_at b slot = filter (\<lambda>d. rd_slot d = slot) (b_routes b)"

lemma sum_buckets:
  assumes "group_routes ids seen bs ds = (Inr bs' :: 'e build_error + 'r buckets)"
    and "distinct (map fst bs)"
  shows "sum_list (map (length \<circ> snd) bs') = sum_list (map (length \<circ> snd) bs) + length ds"
  using assms
proof (induction ids seen bs ds rule: group_routes.induct)
  case (2 ids seen bs d ds)
  have nk: "draft_key d \<notin> seen"
    and rest: "(group_routes ids (insert (draft_key d) seen) (bucket_push (rd_slot d) (rule_of ids d) bs) ds
        :: 'e build_error + 'r buckets) = Inr bs'"
    using "2.prems"(1) by (auto simp: sum_bind_Inr_iff build_rule_iff split: if_splits)
  have push: "sum_list (map (length \<circ> snd) (bucket_push (rd_slot d) r bs)) =
      Suc (sum_list (map (length \<circ> snd) bs))" for r
  proof (cases "map_of bs (rd_slot d)")
    case (Some rs)
    from "2.prems"(2) Some show ?thesis
    proof (induction bs)
      case (Cons x xs)
      obtain s us where x: "x = (s, us)" by (cases x)
      have "map (\<lambda>(s, rs). if s = rd_slot d then (s, rs @ [r]) else (s, rs)) xs = xs"
        if "rd_slot d \<notin> fst ` set xs"
        using that by (intro map_idI) force
      with Cons x show ?case
        by (cases "s = rd_slot d") (auto simp: bucket_push_def split: option.splits)
    qed simp
  qed (simp add: bucket_push_def)
  show ?case
    unfolding "2.IH"[OF nk rest distinct_bucket_push[OF "2.prems"(2)]] push by (simp add: o_def)
qed simp

lemma build_placed:
  assumes "hash_order iter" "length (b_routes b) < 2 ^ 32"
    and "build iter hp rhp b = (Inr (hp', rhp', t) :: 'e build_error + _)"
  obtains p where "placed_at p = table_at t" "length (pl_identities p) = length (rst_slots (rt_routes t))"
    "distinct (map fst (rt_hosts t))" "distinct (map fst (rt_wildcard_hosts t))"
    "\<And>slot. rel_option (vhost_of p)
       (if drafts_at b slot = [] then None else Some (map (rule_of (b_backend_ids b)) (drafts_at b slot)))
       (table_at t slot)"
    "\<And>d. d \<in> set (b_routes b) \<Longrightarrow> set (draft_names d) \<subseteq> dom (b_backend_ids b)"
proof -
  obtain bs p stats rst where
    g: "group_routes (b_backend_ids b) {} [] (b_routes b) = (Inr bs :: 'e build_error + _)"
    and p: "p = fold (place_bucket (build_backends (b_backends b))) (iter bs) place_empty"
    and rst: "route_stats_rebuild rhp (pl_identities p) (b_previous_routes b) = (rhp', rst)"
    and t: "rt_hosts t = pl_hosts p" "rt_wildcard_hosts t = pl_wildcard p"
      "rt_catch_all t = pl_catch_all p" "rt_routes t = rst"
    using assms(3) unfolding build_Inr_iff by auto
  note gs = group_routes_spec[OF g] and sb = sum_buckets[OF g]
  have db: "distinct (map fst bs)" using gs by simp
  note ho = hash_order_map_of[OF assms(1) db]
  have di: "distinct (map fst (iter bs))" using assms(1) db by (simp add: hash_order_def)
  have "placed_inv (rev (iter bs) @ []) p"
    unfolding p using di placed_inv_empty ho(2)[of "length \<circ> snd"] sb assms(2)
    by (intro fold_place_inv) simp_all
  then have inv: "placed_inv (rev (iter bs)) p" by simp
  have rev_map: "map_of (rev (iter bs)) = map_of bs"
    unfolding ho(1) [symmetric]
    by (rule map_of_inject_set [THEN iffD2]) (use di in \<open>simp_all add: rev_map [symmetric]\<close>)
  have slots: "map_of bs slot = (if drafts_at b slot = [] then None
      else Some (map (rule_of (b_backend_ids b)) (drafts_at b slot)))" for slot
    using gs by (auto simp: drafts_at_def filter_empty_conv bucket_def)
  have at: "placed_at p = table_at t" by (rule ext) (simp add: placed_at_def table_at_def t split: host_slot.splits)
  show ?thesis
  proof (rule that[of p])
    show "placed_at p = table_at t" by (rule at)
    show "length (pl_identities p) = length (rst_slots (rt_routes t))"
      using rebuild_lengths(2)[OF rst] t by simp
    show "distinct (map fst (rt_hosts t))" "distinct (map fst (rt_wildcard_hosts t))"
      using inv t by (simp_all add: placed_inv_def)
    show "rel_option (vhost_of p)
       (if drafts_at b slot = [] then None else Some (map (rule_of (b_backend_ids b)) (drafts_at b slot)))
       (table_at t slot)" for slot
      using inv unfolding placed_inv_def rev_map slots at by blast
    show "\<And>d. d \<in> set (b_routes b) \<Longrightarrow> set (draft_names d) \<subseteq> dom (b_backend_ids b)"
      using gs by simp
  qed
qed

lemma build_backends_props:
  assumes "length ds \<le> 2 ^ 32" "\<forall>d \<in> set ds. length (bd_endpoints d) < 2 ^ 32"
  shows "length (build_backends ds) = length ds" "list_all wf_backend (build_backends ds)"
    and "\<forall>b \<in> set (build_backends ds). unat (be_stats_index b) < length ds"
    and "\<And>i. i < length ds \<Longrightarrow> be_name (build_backends ds ! i) = bd_name (ds ! i)"
proof -
  show len: "length (build_backends ds) = length ds" by (simp add: build_backends_def)
  have nth: "build_backends ds ! i = backend_new (bd_name (ds ! i)) (bd_endpoints (ds ! i))
      (bo_policy (bd_options (ds ! i))) (bo_protocol (bd_options (ds ! i))) (of_nat i)"
    if "i < length ds" for i
    using that by (simp add: build_backends_def)
  then show "\<And>i. i < length ds \<Longrightarrow> be_name (build_backends ds ! i) = bd_name (ds ! i)"
    by (simp add: backend_new_def)
  show "list_all wf_backend (build_backends ds)"
    using assms(2) len nth by (simp add: list_all_length backend_new_wf)
  show "\<forall>b \<in> set (build_backends ds). unat (be_stats_index b) < length ds"
  proof
    fix b assume "b \<in> set (build_backends ds)"
    then obtain i where i: "i < length ds" "b = build_backends ds ! i" using len by (auto simp: in_set_conv_nth)
    then have "unat (of_nat i :: u32) = i"
      using assms(1) by (simp add: unat_of_nat take_bit_nat_eq_self)
    with i nth show "unat (be_stats_index b) < length ds" by (simp add: backend_new_def)
  qed
qed

lemma rule_of_ids:
  assumes "wf_builder b" "set (draft_names d) \<subseteq> dom (b_backend_ids b)"
    and "x \<in> set (rule_ids (rule_of (b_backend_ids b) d))"
  shows "unat x < length (b_backends b)"
proof -
  have "\<exists>name \<in> set (draft_names d). x = the (b_backend_ids b name)"
    using assms(3)
    by (cases "rd_canary d"; cases "rd_mirror d")
       (auto simp: rule_of_def rule_new_def rule_ids_def rule_canary_def rule_mirror_def extras_build_def
          draft_names_def canary_new_def mirror_new_def)
  with assms(1,2) show ?thesis unfolding wf_builder_def by (metis domD option.sel subsetD)
qed

lemma virtual_host_at:
  assumes "distinct (map fst (rt_hosts t))" "distinct (map fst (rt_wildcard_hosts t))"
    and "v \<in> snd ` set (virtual_hosts t)"
  shows "\<exists>slot. table_at t slot = Some v"
proof -
  from assms(3) consider h where "(h, v) \<in> set (rt_hosts t)" | h where "(h, v) \<in> set (rt_wildcard_hosts t)"
    | "rt_catch_all t = Some v"
    by (auto simp: virtual_hosts_def split: option.splits)
  then show ?thesis
  proof cases
    case (1 h)
    then show ?thesis using assms(1) by (intro exI[of _ "SExact h"]) (simp add: table_at_def)
  next
    case (2 h)
    then show ?thesis using assms(2) by (intro exI[of _ "SWildcard h"]) (simp add: table_at_def)
  next
    case 3
    then show ?thesis by (intro exI[of _ SCatchAll]) (simp add: table_at_def)
  qed
qed

lemma vhost_of_sorted:
  assumes "vhost_of p rs v"
  shows "wf_vhost v"
proof -
  have "map rule_sort_key (map unindexed v) = map rule_sort_key (map unindexed (sort_key rule_sort_key rs))"
    using assms by (simp add: vhost_of_def)
  then have "map rule_sort_key v = map rule_sort_key (sort_key rule_sort_key rs)"
    by (simp add: o_def)
  then show ?thesis by (simp add: wf_vhost_def)
qed

lemma vhost_of_member:
  assumes "vhost_of p rs v" "r \<in> set v"
  shows "\<exists>r0 \<in> set rs. unindexed r = unindexed r0 \<and> rule_ids r = rule_ids r0"
    and "unat (pr_stats_index r) < length (pl_identities p)"
proof -
  have m: "map unindexed v = map unindexed (sort_key rule_sort_key rs)"
    using assms(1) by (simp add: vhost_of_def)
  have "unindexed r \<in> set (map unindexed v)" using assms(2) by simp
  then obtain r0 where "r0 \<in> set rs" "unindexed r = unindexed r0" unfolding m by auto
  then show "\<exists>r0 \<in> set rs. unindexed r = unindexed r0 \<and> rule_ids r = rule_ids r0"
    by (metis unindexed_same(3))
  show "unat (pr_stats_index r) < length (pl_identities p)"
    using assms by (simp add: vhost_of_def)
qed

text \<open>
  C2. A successful build yields a well-formed table, whatever order the bucket map is drained
  in: virtual hosts in precedence order, every backend id a rule, canary, mirror or the
  default carries in range, and every rule and backend with its own counter index.
\<close>

theorem build_wf:
  assumes "hash_order iter" "wf_builder b" "length (b_routes b) < 2 ^ 32"
    and "\<forall>d \<in> set (b_backends b). length (bd_endpoints d) < 2 ^ 32"
    and "build iter hp rhp b = (Inr (hp', rhp', t) :: 'e build_error + _)"
  shows "wf_table t"
proof -
  obtain p where p: "placed_at p = table_at t" "length (pl_identities p) = length (rst_slots (rt_routes t))"
    "distinct (map fst (rt_hosts t))" "distinct (map fst (rt_wildcard_hosts t))"
    "\<And>slot. rel_option (vhost_of p)
       (if drafts_at b slot = [] then None else Some (map (rule_of (b_backend_ids b)) (drafts_at b slot)))
       (table_at t slot)"
    "\<And>d. d \<in> set (b_routes b) \<Longrightarrow> set (draft_names d) \<subseteq> dom (b_backend_ids b)"
    using build_placed[OF assms(1,3,5)] by blast
  have bk: "rt_backends t = build_backends (b_backends b)"
    and db: "case b_default_backend b of None \<Rightarrow> rt_default_backend t = None
       | Some name \<Rightarrow> rt_default_backend t = b_backend_ids b name"
    and st: "length (bs_slots (rt_stats t)) = length (b_backends b)"
    using assms(5) unfolding build_Inr_iff by (auto dest: rebuild_lengths(1) split: option.splits)
  have len: "length (b_backends b) \<le> 2 ^ 32" using assms(2) by (simp add: wf_builder_def)
  note bp = build_backends_props[OF len assms(4)]
  have at: "\<exists>slot. vhost_of p (map (rule_of (b_backend_ids b)) (drafts_at b slot)) v"
    if v: "v \<in> snd ` set (virtual_hosts t)" for v
  proof -
    obtain slot where s: "table_at t slot = Some v" using virtual_host_at[OF p(3,4) v] by blast
    then show ?thesis using p(5)[of slot] by (auto split: if_splits)
  qed
  have rules: "(\<forall>x \<in> set (rule_ids r). unat x < length (b_backends b)) \<and>
      unat (pr_stats_index r) < length (rst_slots (rt_routes t))" if r: "r \<in> set (all_rules t)" for r
  proof -
    from r obtain v where v: "v \<in> snd ` set (virtual_hosts t)" "r \<in> set v"
      by (force simp: all_rules_def table_routes_def)
    obtain slot where s: "vhost_of p (map (rule_of (b_backend_ids b)) (drafts_at b slot)) v"
      using at[OF v(1)] by blast
    from vhost_of_member[OF s v(2)] obtain d where d: "d \<in> set (drafts_at b slot)"
      "rule_ids r = rule_ids (rule_of (b_backend_ids b) d)"
      "unat (pr_stats_index r) < length (pl_identities p)" by auto
    moreover have "set (draft_names d) \<subseteq> dom (b_backend_ids b)"
      using d(1) p(6) by (simp add: drafts_at_def)
    ultimately show ?thesis using rule_of_ids[OF assms(2)] p(2) by metis
  qed
  have default: "case rt_default_backend t of None \<Rightarrow> True | Some x \<Rightarrow> unat x < length (b_backends b)"
    using db assms(2) by (auto simp: wf_builder_def split: option.splits)
  have "\<forall>v \<in> snd ` set (virtual_hosts t). wf_vhost v" using at vhost_of_sorted by blast
  then show ?thesis
    unfolding wf_table_def bk
    using rules default bp st p(3,4) by (simp add: list_all_iff split: option.splits)
qed

lemma build_exists:
  "(\<exists>r. (build iter hp rhp b :: 'e build_error + heap \<times> route_slot list \<times> 'r route_table) = Inr r) \<longleftrightarrow>
     distinct (map draft_key (b_routes b)) \<and>
     (\<forall>d \<in> set (b_routes b). set (draft_names d) \<subseteq> dom (b_backend_ids b)) \<and>
     (\<forall>name. b_default_backend b = Some name \<longrightarrow> name \<in> dom (b_backend_ids b))"
  (is "?L \<longleftrightarrow> ?R")
proof
  assume ?L
  then obtain hp' rhp' t where "(build iter hp rhp b :: 'e build_error + _) = Inr (hp', rhp', t)"
    by (metis prod_cases3)
  then obtain bs where g: "group_routes (b_backend_ids b) {} [] (b_routes b) = (Inr bs :: 'e build_error + _)"
    and d: "\<forall>name. b_default_backend b = Some name \<longrightarrow> b_backend_ids b name \<noteq> None"
    unfolding build_Inr_iff by (auto split: option.splits)
  with group_routes_spec[OF g] show ?R by auto
next
  assume R: ?R
  then obtain bs where g: "group_routes (b_backend_ids b) {} [] (b_routes b) = (Inr bs :: 'e build_error + _)"
    using group_routes_total[of "b_routes b" "{}" "b_backend_ids b" "[]"] by auto
  obtain hp' stats where s: "stats_rebuild hp (map (\<lambda>d. (bd_name d, map ep_addr (bd_endpoints d)))
      (b_backends b)) (b_previous b) = (hp', stats)" by fastforce
  obtain rhp' rst where r: "route_stats_rebuild rhp (pl_identities
      (fold (place_bucket (build_backends (b_backends b))) (iter bs) place_empty)) (b_previous_routes b)
      = (rhp', rst)" by fastforce
  show ?L
    using R by (cases "b_default_backend b") (auto simp: build_def Let_def g s r)
qed

text \<open>
  C3. The build succeeds exactly when no two rules of one host share path and path type, every
  backend, canary and mirror name a rule mentions is registered, and so is the default
  backend; anything else is an error and no table.
\<close>

theorem build_succeeds_iff:
  "(\<exists>r. (build iter hp rhp b :: 'e build_error + heap \<times> route_slot list \<times> 'r route_table) = Inr r) \<longleftrightarrow>
     distinct (map draft_key (b_routes b)) \<and>
     list_all (\<lambda>d. set (draft_names d) \<subseteq> dom (b_backend_ids b)) (b_routes b) \<and>
     set_option (b_default_backend b) \<subseteq> dom (b_backend_ids b)"
  unfolding build_exists by (auto simp: list_all_iff elem_set)

text \<open>
  A built table serves exactly the registered rules: a host (exact, wildcard or none) has
  a virtual host precisely when a rule was registered for it, and that virtual host holds
  the rules of those registrations, stably sorted into precedence order, with nothing added,
  dropped or changed but the counter index.
\<close>

theorem build_contents:
  assumes "hash_order iter" "length (b_routes b) < 2 ^ 32"
    and "build iter hp rhp b = (Inr (hp', rhp', t) :: 'e build_error + _)"
  shows "map_option (map unindexed) (table_at t slot) =
    (if drafts_at b slot = [] then None
     else Some (sort_key rule_sort_key (map (rule_of (b_backend_ids b)) (drafts_at b slot))))"
proof -
  obtain p where "rel_option (vhost_of p)
       (if drafts_at b slot = [] then None else Some (map (rule_of (b_backend_ids b)) (drafts_at b slot)))
       (table_at t slot)"
    using build_placed[OF assms] by metis
  moreover have "map unindexed (sort_key rule_sort_key (map (rule_of ids) ds)) =
      sort_key rule_sort_key (map (rule_of ids) ds)" for ids and ds :: "'a route_draft list"
    by (rule map_idI) (auto simp: rule_of_unindexed)
  ultimately show ?thesis by (auto simp: vhost_of_def option_rel_Some1 split: if_splits)
qed

definition sample_draft :: "nat route_draft" where
  "sample_draft = \<lparr> rd_slot = SExact ''shop.example.com'', rd_path = ''/'', rd_path_type = Prefix,
     rd_regex = None, rd_backend = ''web'', rd_canary = None, rd_mirror = None \<rparr>"

definition sample_builder :: "nat builder" where
  "sample_builder = builder_new
     \<lparr> b_backends := [\<lparr> bd_name = ''web'', bd_options = \<lparr> bo_policy = RoundRobin, bo_protocol = Http1 \<rparr>,
                        bd_endpoints = [endpoint_new addr_a] \<rparr>],
       b_backend_ids := [''web'' \<mapsto> 0], b_routes := [sample_draft], b_default_backend := Some ''web'' \<rparr>"

lemma sample_builder_ok:
  "wf_builder sample_builder" "hash_order rev"
  "\<exists>r. (build rev sample_heap [] sample_builder :: unit build_error + _) = Inr r"
proof -
  show "wf_builder sample_builder" by (simp add: wf_builder_def sample_builder_def builder_new_def)
  show "hash_order rev" by (simp add: hash_order_def rev_map [symmetric])
  show "\<exists>r. (build rev sample_heap [] sample_builder :: unit build_error + _) = Inr r"
    unfolding build_exists
    by (simp add: sample_builder_def builder_new_def sample_draft_def draft_names_def)
qed

definition sample_built :: "nat route_table" where
  "sample_built = snd (snd (projr (build rev sample_heap [] sample_builder :: unit build_error + _)))"

lemma sample_built_eq:
  "\<exists>hp' rhp'. build rev sample_heap [] sample_builder = (Inr (hp', rhp', sample_built) :: unit build_error + _)"
  using sample_builder_ok(3) unfolding sample_built_def by auto

theorem build_wf_witness: "wf_table sample_built"
proof -
  obtain hp' rhp' where "build rev sample_heap [] sample_builder =
      (Inr (hp', rhp', sample_built) :: unit build_error + _)" using sample_built_eq by blast
  from build_wf[OF sample_builder_ok(2,1) _ _ this] show ?thesis
    by (simp add: sample_builder_def builder_new_def)
qed

theorem build_contents_witness:
  "map_option (map unindexed) (table_at sample_built (SExact ''shop.example.com''))
     = Some [rule_new ''/'' Prefix None 0 None]"
proof -
  obtain hp' rhp' where "build rev sample_heap [] sample_builder =
      (Inr (hp', rhp', sample_built) :: unit build_error + _)" using sample_built_eq by blast
  from build_contents[OF sample_builder_ok(2) _ this, of "SExact ''shop.example.com''"] show ?thesis
    by (simp add: sample_builder_def builder_new_def drafts_at_def sample_draft_def rule_of_def
        extras_build_def)
qed

section \<open>Configured hosts\<close>

lemma normalize_config_host_Inr:
  assumes "normalize_config_host raw = (Inr slot :: 'e build_error + _)"
  obtains name where "name \<noteq> []" "length name \<le> MAX_HOST_LEN" "last name \<noteq> CHR ''.''"
    "\<forall>c \<in> set name. \<not> host_forbidden c"
    "slot = SExact (lower name) \<and> trim_end_matches (CHR ''.'') raw = name \<or>
     slot = SWildcard (lower name) \<and> trim_end_matches (CHR ''.'') raw = ''*.'' @ name"
proof -
  let ?h = "trim_end_matches (CHR ''.'') raw"
  have ne: "?h \<noteq> []" and len: "length ?h \<le> MAX_HOST_LEN"
    using assms by (auto simp: normalize_config_host_def Let_def split: if_splits)
  have last: "last ?h \<noteq> CHR ''.''" using trim_end_matches_last[OF ne] .
  show ?thesis
  proof (cases "strip_prefix ''*.'' ?h")
    case None
    then have "find host_forbidden ?h = None" "slot = SExact (lower ?h)"
      using assms ne len by (auto simp: normalize_config_host_def Let_def split: option.splits if_splits)
    with ne len last that[of ?h] show ?thesis by (auto simp: find_None_iff)
  next
    case (Some name)
    then have h: "?h = ''*.'' @ name" by (simp add: strip_prefix_Some_iff)
    have "find host_forbidden name = None" "name \<noteq> []" "slot = SWildcard (lower name)"
      using assms ne len Some by (auto simp: normalize_config_host_def Let_def split: option.splits if_splits)
    with h len last that[of name] show ?thesis by (auto simp: find_None_iff)
  qed
qed

text \<open>
  A host that the builder accepts is the key its own requests resolve to: for an accepted
  exact host, the stored name is a fixed point of the request-side normalisation, so the
  configured spelling, in any case and with or without trailing dots, is reachable.
\<close>

theorem configured_host_reachable:
  assumes "normalize_config_host raw = (Inr (SExact h) :: 'e build_error + _)"
    and "utf8_bytes (map byte_val h)" "hd h \<noteq> CHR ''[''"
  shows "lookup_key h = Some h \<and> lower h = h \<and> h = lower (trim_end_matches (CHR ''.'') raw)"
proof -
  obtain name where n: "name \<noteq> []" "length name \<le> MAX_HOST_LEN" "last name \<noteq> CHR ''.''"
    "\<forall>c \<in> set name. \<not> host_forbidden c" "h = lower name" "trim_end_matches (CHR ''.'') raw = name"
    by (rule normalize_config_host_Inr[OF assms(1)]) blast
  have keep: "to_ascii_lowercase x = CHR '':'' \<longleftrightarrow> x = CHR '':''"
    "to_ascii_lowercase x = CHR ''.'' \<longleftrightarrow> x = CHR ''.''" for x
    by (rule to_ascii_lowercase_neq; simp add: ascii_defs)+
  have colon: "CHR '':'' \<notin> set h"
    using n(4,5) keep(1) by (simp add: lower_def image_iff eq_commute[of "CHR '':''"])
      (metis host_forbidden_def)
  have "last h \<noteq> CHR ''.''" using n(1,3,5) keep(2) by (simp add: lower_def last_map)
  then have dot: "drop_root_dot h = h" by (simp add: drop_root_dot_def)
  have "h \<noteq> []" using n(1,5) by simp
  then have "authority_name h = Some h"
    using authority_name_unbracketed[OF assms(3) colon, of "[]"] by simp
  moreover have "length h \<le> MAX_HOST_LEN" using n(2,5) by simp
  ultimately have "lookup_key h = Some (lower h)"
    unfolding lookup_key_eq[OF assms(2)] using dot \<open>h \<noteq> []\<close> by (simp add: Let_def)
  with n(5,6) show ?thesis by simp
qed

theorem configured_host_reachable_witness:
  "normalize_config_host ''Shop.Example.com.'' = (Inr (SExact ''shop.example.com'') :: unit build_error + _)
   \<and> lookup_key ''shop.example.com'' = Some ''shop.example.com''"
proof
  show n: "normalize_config_host ''Shop.Example.com.'' =
      (Inr (SExact ''shop.example.com'') :: unit build_error + _)"
    by code_simp
  show "lookup_key ''shop.example.com'' = Some ''shop.example.com''"
  proof -
    have "utf8_bytes (map byte_val ''shop.example.com'')" by code_simp
    moreover have "hd ''shop.example.com'' \<noteq> CHR ''[''" by simp
    ultimately show ?thesis using configured_host_reachable[OF n] by blast
  qed
qed

end
