(* ===== verification/F64.thy ===== *)
theory F64
  imports Complex_Main Prelude
begin

text \<open>
  The part of Rust's \<open>f64\<close> the program uses: conversion from \<open>u64\<close>, multiplication, division,
  comparison, \<open>is_finite\<close>, \<open>str::parse\<close> and fixed-precision formatting. A finite value is a
  sign and an exact rational magnitude; every operation is the exact one followed by \<open>rnd\<close>,
  which rounds to the nearest binary64 value, ties to even, and to infinity from \<open>2 ^ 1024\<close> on.
\<close>

section \<open>Definitions\<close>

datatype f64 = NaN | Inf bool | Fin bool rat

text \<open>The nearest integer, ties to even.\<close>

definition round_even :: "rat \<Rightarrow> int" where
  "round_even x =
     (let f = \<lfloor>x\<rfloor>; r = x - of_int f
      in if r < 1 / 2 then f else if r > 1 / 2 then f + 1 else if even f then f else f + 1)"

text \<open>The exponent of the last place of a magnitude: 53 bits above it, never below the subnormals.\<close>

definition last_place :: "rat \<Rightarrow> int option" where
  "last_place q = find (\<lambda>e. q < 2 powi (e + 53)) [-1074..971]"

definition rnd :: "bool \<Rightarrow> rat \<Rightarrow> f64" where
  "rnd neg q =
     (case last_place q of
        None \<Rightarrow> Inf neg
      | Some e \<Rightarrow>
          (let v = of_int (round_even (q / 2 powi e)) * 2 powi e
           in if v \<ge> 2 powi 1024 then Inf neg else Fin neg v))"

definition f64_of_u64 :: "u64 \<Rightarrow> f64" where
  "f64_of_u64 n = rnd False (of_nat (unat n))"

fun f64_mul :: "f64 \<Rightarrow> f64 \<Rightarrow> f64" where
  "f64_mul NaN _ = NaN"
| "f64_mul _ NaN = NaN"
| "f64_mul (Inf s) (Inf t) = Inf (s \<noteq> t)"
| "f64_mul (Inf s) (Fin t q) = (if q = 0 then NaN else Inf (s \<noteq> t))"
| "f64_mul (Fin s p) (Inf t) = (if p = 0 then NaN else Inf (s \<noteq> t))"
| "f64_mul (Fin s p) (Fin t q) = rnd (s \<noteq> t) (p * q)"

fun f64_div :: "f64 \<Rightarrow> f64 \<Rightarrow> f64" where
  "f64_div NaN _ = NaN"
| "f64_div _ NaN = NaN"
| "f64_div (Inf s) (Inf t) = NaN"
| "f64_div (Inf s) (Fin t q) = Inf (s \<noteq> t)"
| "f64_div (Fin s p) (Inf t) = Fin (s \<noteq> t) 0"
| "f64_div (Fin s p) (Fin t q) =
     (if q = 0 then if p = 0 then NaN else Inf (s \<noteq> t) else rnd (s \<noteq> t) (p / q))"

definition signed :: "bool \<Rightarrow> rat \<Rightarrow> rat" where
  "signed neg q = (if neg then - q else q)"

fun f64_lt :: "f64 \<Rightarrow> f64 \<Rightarrow> bool" where
  "f64_lt NaN _ = False"
| "f64_lt _ NaN = False"
| "f64_lt (Inf s) (Inf t) = (s \<and> \<not> t)"
| "f64_lt (Inf s) (Fin _ _) = s"
| "f64_lt (Fin _ _) (Inf t) = (\<not> t)"
| "f64_lt (Fin s p) (Fin t q) = (signed s p < signed t q)"

fun f64_le :: "f64 \<Rightarrow> f64 \<Rightarrow> bool" where
  "f64_le NaN _ = False"
| "f64_le _ NaN = False"
| "f64_le (Inf s) (Inf t) = (s \<or> \<not> t)"
| "f64_le (Inf s) (Fin _ _) = s"
| "f64_le (Fin _ _) (Inf t) = (\<not> t)"
| "f64_le (Fin s p) (Fin t q) = (signed s p \<le> signed t q)"

fun is_finite :: "f64 \<Rightarrow> bool" where
  "is_finite (Fin _ _) = True"
| "is_finite _ = False"

text \<open>\<open>str::parse::<f64>\<close>: an optional sign, then a name or a decimal with an optional exponent.\<close>

definition split_sign :: "string \<Rightarrow> bool \<times> string" where
  "split_sign s =
     (case s of
        c # r \<Rightarrow> if c = CHR ''-'' then (True, r) else if c = CHR ''+'' then (False, r) else (False, s)
      | [] \<Rightarrow> (False, []))"

definition parse_exponent :: "string \<Rightarrow> int option" where
  "parse_exponent s =
     (if s = [] then Some 0
      else if hd s = CHR ''e'' \<or> hd s = CHR ''E''
      then (let (neg, ds) = split_sign (tl s)
            in if ds \<noteq> [] \<and> list_all is_ascii_digit ds
               then Some (if neg then - int (digits_val ds) else int (digits_val ds)) else None)
      else None)"

definition parse_magnitude :: "string \<Rightarrow> rat option" where
  "parse_magnitude s =
     (let whole = takeWhile is_ascii_digit s; r = dropWhile is_ascii_digit s;
          point = (r \<noteq> [] \<and> hd r = CHR ''.'');
          frac = (if point then takeWhile is_ascii_digit (tl r) else []);
          rest = (if point then dropWhile is_ascii_digit (tl r) else r)
      in if whole = [] \<and> frac = [] then None
         else map_option (\<lambda>e. of_nat (digits_val (whole @ frac)) * 10 powi (e - int (length frac)))
                (parse_exponent rest))"

definition parse_f64 :: "string \<Rightarrow> f64 option" where
  "parse_f64 s =
     (let (neg, r) = split_sign s
      in if eq_ignore_ascii_case r ''inf'' \<or> eq_ignore_ascii_case r ''infinity'' then Some (Inf neg)
         else if eq_ignore_ascii_case r ''nan'' then Some NaN
         else map_option (rnd neg) (parse_magnitude r))"

text \<open>\<open>{:.k}\<close>: the exact value rounded to \<open>k \<ge> 1\<close> decimals, ties to even.\<close>

definition pad_zeros :: "nat \<Rightarrow> string \<Rightarrow> string" where
  "pad_zeros n s = replicate (n - length s) (CHR ''0'') @ s"

fun format_fixed :: "nat \<Rightarrow> f64 \<Rightarrow> string" where
  "format_fixed k NaN = ''NaN''"
| "format_fixed k (Inf neg) = (if neg then ''-inf'' else ''inf'')"
| "format_fixed k (Fin neg q) =
     (let m = nat (round_even (q * 10 ^ k)); ds = pad_zeros (k + 1) (show_nat m)
      in (if neg then ''-'' else '''') @ take (length ds - k) ds @ ''.'' @ drop (length ds - k) ds)"


section \<open>Rounding\<close>

lemma round_even_of_int [simp]: "round_even (of_int k) = k"
  by (simp add: round_even_def)

lemma round_even_bounds: "\<lfloor>x\<rfloor> \<le> round_even x" "round_even x \<le> \<lfloor>x\<rfloor> + 1"
  by (simp_all add: round_even_def Let_def)

lemma round_even_mono:
  assumes "x \<le> y"
  shows "round_even x \<le> round_even y"
proof (cases "\<lfloor>x\<rfloor> = \<lfloor>y\<rfloor>")
  case True
  then have "x - of_int \<lfloor>x\<rfloor> \<le> y - of_int \<lfloor>y\<rfloor>" using assms by simp
  with True show ?thesis by (simp add: round_even_def Let_def)
next
  case False
  then have "\<lfloor>x\<rfloor> + 1 \<le> \<lfloor>y\<rfloor>" using floor_mono[OF assms] by simp
  then show ?thesis using round_even_bounds[of x] round_even_bounds[of y] by linarith
qed

lemma round_even_le: "x \<le> of_int k \<Longrightarrow> round_even x \<le> k"
  using round_even_mono[of x "of_int k"] by simp

lemma round_even_ge: "of_int k \<le> x \<Longrightarrow> k \<le> round_even x"
  using round_even_mono[of "of_int k" x] by simp

lemma round_even_of_nat [simp]: "round_even (of_nat n) = int n"
  using round_even_of_int[of "int n"] by simp

lemma powi_2_mono: "a \<le> b \<Longrightarrow> (2 :: rat) powi a \<le> 2 powi b"
  by (rule power_int_increasing) simp_all

lemma powi_2_pos [simp]: "(0 :: rat) < 2 powi a"
  by simp

lemma find_upto_Some:
  "find P [a..b] = Some e \<longleftrightarrow> a \<le> e \<and> e \<le> b \<and> P e \<and> (\<forall>e'. a \<le> e' \<and> e' < e \<longrightarrow> \<not> P e')"
proof (induction "nat (b - a + 1)" arbitrary: a)
  case 0
  then show ?case by simp
next
  case (Suc n)
  then have ab: "a \<le> b" by simp
  have IH: "find P [a + 1..b] = Some e \<longleftrightarrow>
      a + 1 \<le> e \<and> e \<le> b \<and> P e \<and> (\<forall>e'. a + 1 \<le> e' \<and> e' < e \<longrightarrow> \<not> P e')"
    using Suc(2) by (intro Suc(1)) simp
  have split: "(\<forall>e'. a \<le> e' \<and> e' < e \<longrightarrow> \<not> P e') \<longleftrightarrow>
      (a < e \<longrightarrow> \<not> P a) \<and> (\<forall>e'. a + 1 \<le> e' \<and> e' < e \<longrightarrow> \<not> P e')"
    by (metis add1_zle_eq order.order_iff_strict)
  show ?case
  proof (cases "P a")
    case True
    then show ?thesis using ab by (auto simp: upto_rec1 split)
  next
    case False
    then have "a \<le> e \<and> P e \<longleftrightarrow> a + 1 \<le> e \<and> P e" by (metis add1_zle_eq order.order_iff_strict)
    then show ?thesis using ab False by (simp add: upto_rec1 IH split) blast
  qed
qed

lemma last_place_Some:
  "last_place q = Some e \<longleftrightarrow>
     -1074 \<le> e \<and> e \<le> 971 \<and> q < 2 powi (e + 53) \<and> (e = -1074 \<or> 2 powi (e + 52) \<le> q)"
proof -
  have "(\<forall>e'. -1074 \<le> e' \<and> e' < e \<longrightarrow> \<not> q < 2 powi (e' + 53)) \<longleftrightarrow> (e = -1074 \<or> 2 powi (e + 52) \<le> q)"
    if "-1074 \<le> e"
  proof
    assume a: "\<forall>e'. -1074 \<le> e' \<and> e' < e \<longrightarrow> \<not> q < 2 powi (e' + 53)"
    show "e = -1074 \<or> 2 powi (e + 52) \<le> q"
      using that a[rule_format, of "e - 1"] by (cases "e = -1074") (auto simp: not_less add.commute)
  next
    assume a: "e = -1074 \<or> 2 powi (e + 52) \<le> q"
    show "\<forall>e'. -1074 \<le> e' \<and> e' < e \<longrightarrow> \<not> q < 2 powi (e' + 53)"
    proof (intro allI impI)
      fix e' :: int assume e': "-1074 \<le> e' \<and> e' < e"
      then have "2 powi (e' + 53) \<le> (2 powi (e + 52) :: rat)" by (intro powi_2_mono) simp
      with a e' show "\<not> q < 2 powi (e' + 53)" by auto
    qed
  qed
  then show ?thesis unfolding last_place_def find_upto_Some by blast
qed

lemma last_place_None: "last_place q = None \<longleftrightarrow> 2 powi 1024 \<le> q"
proof
  assume "last_place q = None"
  moreover have "(971 :: int) \<in> set [-1074..971]" by (simp only: set_upto atLeastAtMost_iff) simp
  ultimately have "\<not> q < 2 powi (971 + 53)" unfolding last_place_def find_None_iff by blast
  then show "2 powi 1024 \<le> q" by simp
next
  assume a: "2 powi 1024 \<le> q"
  show "last_place q = None"
  proof (rule ccontr)
    assume "last_place q \<noteq> None"
    then obtain e where e: "e \<le> 971" "q < 2 powi (e + 53)" using last_place_Some by auto
    have "2 powi (e + 53) \<le> (2 powi 1024 :: rat)" using e(1) by (intro powi_2_mono) simp
    with a e(2) show False by linarith
  qed
qed


lemma powi_2_add: "(2 :: rat) powi (a + b) = 2 powi a * 2 powi b"
  by (simp add: power_int_add)

lemma rounded_bounds:
  assumes "last_place q = Some e" "0 \<le> q"
  defines "v \<equiv> (of_int (round_even (q / 2 powi e)) * 2 powi e :: rat)"
  shows "0 \<le> v" "v \<le> 2 powi (e + 53)" "e \<noteq> -1074 \<Longrightarrow> 2 powi (e + 52) \<le> v"
proof -
  have e: "q < 2 powi (e + 53)" "e \<noteq> -1074 \<Longrightarrow> 2 powi (e + 52) \<le> q"
    using assms(1) by (auto simp: last_place_Some)
  have "0 \<le> round_even (q / 2 powi e)" using assms(2) by (intro round_even_ge) simp
  then show "0 \<le> v" by (simp add: v_def)
  have "q / 2 powi e \<le> of_int (2 ^ 53)"
    using e(1) by (simp add: powi_2_add divide_le_eq)
  then have "of_int (round_even (q / 2 powi e)) \<le> (of_int (2 ^ 53) :: rat)"
    using round_even_le of_int_le_iff by blast
  then have "v \<le> of_int (2 ^ 53) * 2 powi e" unfolding v_def by (intro mult_right_mono) simp_all
  then show "v \<le> 2 powi (e + 53)" by (simp add: powi_2_add)
  assume "e \<noteq> -1074"
  then have "of_int (2 ^ 52) \<le> q / 2 powi e"
    using e(2) by (simp add: powi_2_add le_divide_eq)
  then have "(of_int (2 ^ 52) :: rat) \<le> of_int (round_even (q / 2 powi e))"
    using round_even_ge of_int_le_iff by blast
  then have "of_int (2 ^ 52) * 2 powi e \<le> v" unfolding v_def by (intro mult_right_mono) simp_all
  then show "2 powi (e + 52) \<le> v" by (simp add: powi_2_add)
qed

lemma last_place_mono:
  assumes "p \<le> q" "last_place p = Some e" "last_place q = Some e'"
  shows "e \<le> e'"
proof (rule ccontr)
  assume "\<not> e \<le> e'"
  then have "2 powi (e' + 53) \<le> (2 powi (e + 52) :: rat)" "e \<noteq> -1074"
    using assms(3) by (auto intro!: powi_2_mono simp: last_place_Some)
  with assms show False by (auto simp: last_place_Some)
qed

lemma rnd_mono:
  assumes "0 \<le> p" "p \<le> q"
  shows "f64_le (rnd False p) (rnd False q)"
proof (cases "last_place q")
  case None
  then show ?thesis by (simp add: rnd_def Let_def split: option.split)
next
  case (Some e')
  then have "last_place p \<noteq> None" using assms(2) last_place_None[of p] last_place_None[of q] by auto
  then obtain e where e: "last_place p = Some e" by blast
  let ?v = "\<lambda>x e. of_int (round_even (x / 2 powi e)) * 2 powi e :: rat"
  have "?v p e \<le> ?v q e'"
  proof (cases "e = e'")
    case True
    have "round_even (p / 2 powi e) \<le> round_even (q / 2 powi e)"
      using assms(2) by (intro round_even_mono divide_right_mono) simp_all
    with True show ?thesis by (simp add: mult_right_mono)
  next
    case False
    then have "e < e'" using last_place_mono[OF assms(2) e Some] by simp
    then have "2 powi (e + 53) \<le> (2 powi (e' + 52) :: rat)" "e' \<noteq> -1074"
      using e by (auto intro!: powi_2_mono simp: last_place_Some)
    moreover have "0 \<le> q" using assms by simp
    ultimately show ?thesis
      using rounded_bounds(2)[OF e assms(1)] rounded_bounds(3)[OF Some] by force
  qed
  then show ?thesis using e Some by (simp add: rnd_def Let_def signed_def)
qed

lemma rnd_exact:
  assumes "q = of_int m * 2 powi k" "0 \<le> m" "m < 2 ^ 53" "-1074 \<le> k" "q < 2 powi 1024"
  shows "rnd neg q = Fin neg q"
proof -
  obtain e where e: "last_place q = Some e" using assms(5) last_place_None[of q] by (cases "last_place q") auto
  have "(of_int m :: rat) < of_int (2 ^ 53)" using assms(3) of_int_less_iff by blast
  then have "q < of_int (2 ^ 53) * 2 powi k" unfolding assms(1) by (intro mult_strict_right_mono) simp_all
  then have small: "q < 2 powi (k + 53)" by (simp add: powi_2_add)
  have ek: "e \<le> k"
  proof (rule ccontr)
    assume "\<not> e \<le> k"
    then have "2 powi (k + 53) \<le> (2 powi (e + 52) :: rat)" "e \<noteq> -1074"
      using assms(4) by (auto intro!: powi_2_mono)
    with small e show False by (auto simp: last_place_Some)
  qed
  have "q = of_int (m * 2 ^ nat (k - e)) * 2 powi e"
  proof -
    have "(2 :: rat) powi k = 2 ^ nat (k - e) * 2 powi e"
      using ek powi_2_add[of "k - e" e] by (simp add: power_int_def)
    then show ?thesis using assms(1) by simp
  qed
  then have "q / 2 powi e = of_int (m * 2 ^ nat (k - e))" by simp
  then have "of_int (round_even (q / 2 powi e)) * 2 powi e = q"
    using \<open>q = of_int (m * 2 ^ nat (k - e)) * 2 powi e\<close> by (simp only: round_even_of_int)
  then show ?thesis using e assms(5) by (simp add: rnd_def Let_def)
qed

lemma rnd_nat: "n < 2 ^ 53 \<Longrightarrow> rnd neg (of_nat n) = Fin neg (of_nat n)"
proof (rule rnd_exact[of _ "int n" 0])
  assume n: "n < 2 ^ 53"
  have "(of_nat n :: rat) < of_nat (2 ^ 53)" using n by (subst of_nat_less_iff)
  also have "(of_nat (2 ^ 53) :: rat) = 2 powi 53" by simp
  also have "(2 powi 53 :: rat) \<le> 2 powi 1024" by (rule powi_2_mono) simp
  finally show "(of_nat n :: rat) < 2 powi 1024" .
qed simp_all

lemma f64_of_u64_exact: "unat n < 2 ^ 53 \<Longrightarrow> f64_of_u64 n = Fin False (of_nat (unat n))"
  unfolding f64_of_u64_def by (rule rnd_nat)

text \<open>A magnitude that is a binary64 value.\<close>

definition representable :: "rat \<Rightarrow> bool" where
  "representable q \<longleftrightarrow> 0 \<le> q \<and> rnd False q = Fin False q"

lemma rnd_sign: "rnd neg q = (case rnd False q of Inf _ \<Rightarrow> Inf neg | Fin _ v \<Rightarrow> Fin neg v | NaN \<Rightarrow> NaN)"
  by (auto simp: rnd_def Let_def split: option.split)

lemma rnd_representable:
  assumes "0 \<le> q" "rnd neg q = Fin neg v"
  shows "representable v"
proof -
  obtain e where e: "last_place q = Some e" using assms(2) by (cases "last_place q") (auto simp: rnd_def)
  let ?m = "round_even (q / 2 powi e)"
  have v: "v = of_int ?m * 2 powi e" "v < 2 powi 1024"
    using assms(2) e by (auto simp: rnd_def Let_def split: if_splits)
  have e74: "-1074 \<le> e" using e by (simp add: last_place_Some)
  have pos: "0 \<le> v" using rounded_bounds(1)[OF e assms(1)] v(1) by simp
  have m0: "0 \<le> ?m" using assms(1) by (intro round_even_ge) simp
  have "(of_int ?m :: rat) * 2 powi e \<le> of_int (2 ^ 53) * 2 powi e"
    using rounded_bounds(2)[OF e assms(1)] by (simp add: powi_2_add)
  then have m: "?m \<le> 2 ^ 53"
    by (metis mult_le_cancel_right_pos of_int_le_iff powi_2_pos)
  have "rnd False v = Fin False v"
  proof (cases "?m = 2 ^ 53")
    case True
    have "v = of_int (2 ^ 52) * 2 powi (e + 1)" unfolding v(1) True by (simp add: powi_2_add)
    then show ?thesis by (rule rnd_exact) (use e74 v(2) in simp_all)
  next
    case False
    then show ?thesis using m m0 by (intro rnd_exact[OF v(1)]) (use e74 v(2) in simp_all)
  qed
  with pos show ?thesis by (simp add: representable_def)
qed

lemma rnd_le_representable:
  assumes "representable t" "0 \<le> q" "q \<le> t"
  shows "\<not> f64_lt (Fin False t) (rnd False q)"
  using rnd_mono[OF assms(2,3)] assms(1)
  by (cases "rnd False q") (auto simp: representable_def rnd_def Let_def split: option.splits if_splits)

lemma rnd_ge_representable:
  assumes "representable t" "t \<le> q"
  shows "f64_le (Fin False t) (rnd False q)"
  using rnd_mono[of t q] assms by (simp add: representable_def)

lemma f64_lt_le_trans: "f64_lt a b \<Longrightarrow> f64_le b c \<Longrightarrow> f64_lt a c"
  by (cases a; cases b; cases c) auto

lemma f64_not_lt: "a \<noteq> NaN \<Longrightarrow> b \<noteq> NaN \<Longrightarrow> \<not> f64_lt a b \<longleftrightarrow> f64_le b a"
  by (cases a; cases b) auto

lemma rnd_not_NaN [simp]: "rnd neg q \<noteq> NaN"
  by (simp add: rnd_def Let_def split: option.split)

end
