(* ===== verification/Annotations.thy ===== *)
theory Annotations
  imports F64 Backend
begin

text \<open>
  \<open>crates/ramjet-controller/src/annotations.rs\<close>: the Ingress annotations the controller reads.
  An annotation map is a partial function. A \<open>Duration\<close> here is a whole number of seconds.
\<close>

section \<open>Definitions\<close>

type_synonym annotations = "string \<Rightarrow> string option"

definition ANNOTATION_CANARY :: string where
  "ANNOTATION_CANARY = ''nginx.ingress.kubernetes.io/canary''"

definition ANNOTATION_CANARY_WEIGHT :: string where
  "ANNOTATION_CANARY_WEIGHT = ''nginx.ingress.kubernetes.io/canary-weight''"

definition ANNOTATION_CANARY_WEIGHT_TOTAL :: string where
  "ANNOTATION_CANARY_WEIGHT_TOTAL = ''nginx.ingress.kubernetes.io/canary-weight-total''"

definition ANNOTATION_CANARY_BY_HEADER :: string where
  "ANNOTATION_CANARY_BY_HEADER = ''nginx.ingress.kubernetes.io/canary-by-header''"

definition ANNOTATION_CANARY_BY_HEADER_VALUE :: string where
  "ANNOTATION_CANARY_BY_HEADER_VALUE = ''nginx.ingress.kubernetes.io/canary-by-header-value''"

definition ANNOTATION_CANARY_BY_HEADER_PATTERN :: string where
  "ANNOTATION_CANARY_BY_HEADER_PATTERN = ''nginx.ingress.kubernetes.io/canary-by-header-pattern''"

definition ANNOTATION_CANARY_BY_COOKIE :: string where
  "ANNOTATION_CANARY_BY_COOKIE = ''nginx.ingress.kubernetes.io/canary-by-cookie''"

definition ANNOTATION_BACKEND_PROTOCOL :: string where
  "ANNOTATION_BACKEND_PROTOCOL = ''nginx.ingress.kubernetes.io/backend-protocol''"

definition ANNOTATION_MIRROR_BACKEND :: string where
  "ANNOTATION_MIRROR_BACKEND = ''ramjet.dev/mirror-backend''"

definition ANNOTATION_MIRROR_PERCENT :: string where
  "ANNOTATION_MIRROR_PERCENT = ''ramjet.dev/mirror-percent''"

definition ANNOTATION_MIRROR_HOST :: string where
  "ANNOTATION_MIRROR_HOST = ''ramjet.dev/mirror-host''"

definition ANNOTATION_AUTO_PROMOTE :: string where
  "ANNOTATION_AUTO_PROMOTE = ''ramjet.dev/auto-promote''"

definition ANNOTATION_AUTO_PROMOTE_INTERVAL :: string where
  "ANNOTATION_AUTO_PROMOTE_INTERVAL = ''ramjet.dev/auto-promote-interval''"

definition ANNOTATION_AUTO_PROMOTE_STEPS :: string where
  "ANNOTATION_AUTO_PROMOTE_STEPS = ''ramjet.dev/auto-promote-steps''"

definition ANNOTATION_AUTO_PROMOTE_MAX_5XX :: string where
  "ANNOTATION_AUTO_PROMOTE_MAX_5XX = ''ramjet.dev/auto-promote-max-5xx-percent''"

definition ANNOTATION_AUTO_PROMOTE_MAX_LATENCY :: string where
  "ANNOTATION_AUTO_PROMOTE_MAX_LATENCY = ''ramjet.dev/auto-promote-max-latency-factor''"

definition ANNOTATION_AUTO_PROMOTE_MIN_REQUESTS :: string where
  "ANNOTATION_AUTO_PROMOTE_MIN_REQUESTS = ''ramjet.dev/auto-promote-min-requests''"

definition ANNOTATION_AUTO_PROMOTE_STATUS :: string where
  "ANNOTATION_AUTO_PROMOTE_STATUS = ''ramjet.dev/auto-promote-status''"

lemmas annotation_keys = ANNOTATION_CANARY_def ANNOTATION_CANARY_WEIGHT_def
  ANNOTATION_CANARY_WEIGHT_TOTAL_def ANNOTATION_CANARY_BY_HEADER_def
  ANNOTATION_CANARY_BY_HEADER_VALUE_def ANNOTATION_CANARY_BY_HEADER_PATTERN_def
  ANNOTATION_CANARY_BY_COOKIE_def ANNOTATION_BACKEND_PROTOCOL_def ANNOTATION_MIRROR_BACKEND_def
  ANNOTATION_MIRROR_PERCENT_def ANNOTATION_MIRROR_HOST_def ANNOTATION_AUTO_PROMOTE_def
  ANNOTATION_AUTO_PROMOTE_INTERVAL_def ANNOTATION_AUTO_PROMOTE_STEPS_def
  ANNOTATION_AUTO_PROMOTE_MAX_5XX_def ANNOTATION_AUTO_PROMOTE_MAX_LATENCY_def
  ANNOTATION_AUTO_PROMOTE_MIN_REQUESTS_def ANNOTATION_AUTO_PROMOTE_STATUS_def

definition is_true :: "string \<Rightarrow> bool" where
  "is_true v = eq_ignore_ascii_case (trim v) ''true''"

text \<open>The \<open>get\<close> closure of the later parsers: trimmed, and absent when blank.\<close>

definition get_trimmed :: "annotations \<Rightarrow> string \<Rightarrow> string option" where
  "get_trimmed m key =
     (case m key of
        None \<Rightarrow> None
      | Some v \<Rightarrow> (let t = trim v in if t = [] then None else Some t))"

subsection \<open>Canary\<close>

record canary_annotations =
  ca_enabled :: bool
  ca_weight :: u32
  ca_weight_total :: u32
  ca_header :: "string option"
  ca_header_value :: "string option"
  ca_header_pattern :: "string option"
  ca_cookie :: "string option"
  ca_invalid :: "string list"

text \<open>The \<open>number\<close> closure: the value, and the key when it could not be parsed.\<close>

definition canary_number :: "annotations \<Rightarrow> string \<Rightarrow> u32 \<times> string list" where
  "canary_number m key =
     (case m key of
        None \<Rightarrow> (0, [])
      | Some raw \<Rightarrow> (case parse_u32 (trim raw) of Some v \<Rightarrow> (v, []) | None \<Rightarrow> (0, [key])))"

definition canary_parse :: "annotations \<Rightarrow> canary_annotations" where
  "canary_parse m =
     (let (weight, inv1) = canary_number m ANNOTATION_CANARY_WEIGHT;
          (weight_total, inv2) = canary_number m ANNOTATION_CANARY_WEIGHT_TOTAL
      in \<lparr> ca_enabled = (case m ANNOTATION_CANARY of None \<Rightarrow> False | Some v \<Rightarrow> is_true v),
           ca_weight = weight,
           ca_weight_total = weight_total,
           ca_header = m ANNOTATION_CANARY_BY_HEADER,
           ca_header_value = m ANNOTATION_CANARY_BY_HEADER_VALUE,
           ca_header_pattern = m ANNOTATION_CANARY_BY_HEADER_PATTERN,
           ca_cookie = m ANNOTATION_CANARY_BY_COOKIE,
           ca_invalid = inv1 @ inv2 \<rparr>)"

definition canary_is_inert :: "canary_annotations \<Rightarrow> bool" where
  "canary_is_inert c \<longleftrightarrow> ca_weight c = 0 \<and> ca_header c = None \<and> ca_cookie c = None"

subsection \<open>Mirror\<close>

definition DEFAULT_MIRROR_PERCENT :: u32 where
  "DEFAULT_MIRROR_PERCENT = 100"

record mirror_annotations =
  ma_backend :: "string option"
  ma_percent :: u32
  ma_host :: "string option"
  ma_invalid :: "string list"

definition mirror_parse :: "annotations \<Rightarrow> mirror_annotations" where
  "mirror_parse m =
     (let (percent, invalid) =
        (case get_trimmed m ANNOTATION_MIRROR_PERCENT of
           None \<Rightarrow> (DEFAULT_MIRROR_PERCENT, [])
         | Some raw \<Rightarrow>
             (case parse_u32 raw of
                Some v \<Rightarrow> if v \<le> 100 then (v, []) else (DEFAULT_MIRROR_PERCENT, [ANNOTATION_MIRROR_PERCENT])
              | None \<Rightarrow> (DEFAULT_MIRROR_PERCENT, [ANNOTATION_MIRROR_PERCENT])))
      in \<lparr> ma_backend = get_trimmed m ANNOTATION_MIRROR_BACKEND, ma_percent = percent,
           ma_host = get_trimmed m ANNOTATION_MIRROR_HOST, ma_invalid = invalid \<rparr>)"

definition mirror_enabled :: "mirror_annotations \<Rightarrow> bool" where
  "mirror_enabled a \<longleftrightarrow> ma_backend a \<noteq> None"

subsection \<open>Backend protocol\<close>

record backend_protocol_annotation =
  bp_protocol :: backend_protocol
  bp_unsupported :: "string option"

definition backend_protocol_default :: backend_protocol_annotation where
  "backend_protocol_default = \<lparr> bp_protocol = Http1, bp_unsupported = None \<rparr>"

definition backend_protocol_parse :: "annotations \<Rightarrow> backend_protocol_annotation" where
  "backend_protocol_parse m =
     (case get_trimmed m ANNOTATION_BACKEND_PROTOCOL of
        None \<Rightarrow> backend_protocol_default
      | Some raw \<Rightarrow>
          if eq_ignore_ascii_case raw ''HTTP'' then backend_protocol_default
          else if eq_ignore_ascii_case raw ''GRPC'' then \<lparr> bp_protocol = H2c, bp_unsupported = None \<rparr>
          else \<lparr> bp_protocol = Http1, bp_unsupported = Some raw \<rparr>)"

subsection \<open>Automatic promotion\<close>

definition DEFAULT_PROMOTE_INTERVAL :: u64 where
  "DEFAULT_PROMOTE_INTERVAL = 60"

definition DEFAULT_PROMOTE_STEPS :: "u32 list" where
  "DEFAULT_PROMOTE_STEPS = [5, 10, 25, 50, 100]"

definition DEFAULT_PROMOTE_MAX_5XX_PERCENT :: f64 where
  "DEFAULT_PROMOTE_MAX_5XX_PERCENT = Fin False 1"

definition DEFAULT_PROMOTE_MAX_LATENCY_FACTOR :: f64 where
  "DEFAULT_PROMOTE_MAX_LATENCY_FACTOR = Fin False (3 / 2)"

definition DEFAULT_PROMOTE_MIN_REQUESTS :: u64 where
  "DEFAULT_PROMOTE_MIN_REQUESTS = 50"

definition STATUS_ROLLED_BACK :: string where
  "STATUS_ROLLED_BACK = ''rolled-back''"

definition STATUS_PROMOTED :: string where
  "STATUS_PROMOTED = ''promoted''"

record promotion_annotations =
  pa_enabled :: bool
  pa_interval :: u64
  pa_steps :: "u32 list"
  pa_max_5xx_percent :: f64
  pa_max_latency_factor :: f64
  pa_min_requests :: u64
  pa_status :: "string option"
  pa_invalid :: "string list"

definition promotion_default :: promotion_annotations where
  "promotion_default =
     \<lparr> pa_enabled = False, pa_interval = DEFAULT_PROMOTE_INTERVAL, pa_steps = DEFAULT_PROMOTE_STEPS,
       pa_max_5xx_percent = DEFAULT_PROMOTE_MAX_5XX_PERCENT,
       pa_max_latency_factor = DEFAULT_PROMOTE_MAX_LATENCY_FACTOR,
       pa_min_requests = DEFAULT_PROMOTE_MIN_REQUESTS, pa_status = None, pa_invalid = [] \<rparr>"

definition parse_duration :: "string \<Rightarrow> u64 option" where
  "parse_duration raw0 =
     (let raw = trim raw0
      in if raw = [] then None
         else let (v, multiplier) =
                (if last raw = CHR ''s'' then (butlast raw, 1)
                 else if last raw = CHR ''m'' then (butlast raw, 60)
                 else if last raw = CHR ''h'' then (butlast raw, 3600)
                 else (raw, 1))
              in case parse_u64 (trim v) of
                   None \<Rightarrow> None
                 | Some seconds \<Rightarrow>
                     if seconds > 0 then Some (saturating_mul seconds multiplier) else None)"

fun steps_loop :: "u32 list \<Rightarrow> string list \<Rightarrow> u32 list option" where
  "steps_loop steps [] = Some steps"
| "steps_loop steps (f # fs) =
     (let field = trim f
      in if field = [] then steps_loop steps fs
         else case parse_u32 field of
                None \<Rightarrow> None
              | Some step \<Rightarrow>
                  if step = 0 \<or> step > 100 then None else steps_loop (steps @ [step]) fs)"

definition parse_steps :: "string \<Rightarrow> u32 list option" where
  "parse_steps raw =
     (case steps_loop [] (split_on (CHR '','') raw) of
        None \<Rightarrow> None
      | Some steps \<Rightarrow> if steps = [] then None else Some (remdups_adj (sort steps)))"

text \<open>One \<open>if let Some(raw) = get(key)\<close> block: use the value, or report the key.\<close>

definition with_annotation ::
  "annotations \<Rightarrow> string \<Rightarrow> (string \<Rightarrow> 'v option) \<Rightarrow> ('v \<Rightarrow> promotion_annotations \<Rightarrow> promotion_annotations)
   \<Rightarrow> promotion_annotations \<Rightarrow> promotion_annotations" where
  "with_annotation m key parse put p =
     (case get_trimmed m key of
        None \<Rightarrow> p
      | Some raw \<Rightarrow>
          (case parse raw of
             Some v \<Rightarrow> put v p
           | None \<Rightarrow> p\<lparr> pa_invalid := pa_invalid p @ [key] \<rparr>))"

definition parse_at_least :: "f64 \<Rightarrow> string \<Rightarrow> f64 option" where
  "parse_at_least low raw =
     (case parse_f64 raw of
        Some v \<Rightarrow> if is_finite v \<and> f64_le low v then Some v else None
      | None \<Rightarrow> None)"

definition promotion_parse :: "annotations \<Rightarrow> promotion_annotations" where
  "promotion_parse m =
     (let p0 = promotion_default\<lparr>
                 pa_enabled := (case get_trimmed m ANNOTATION_AUTO_PROMOTE of None \<Rightarrow> False | Some v \<Rightarrow> is_true v),
                 pa_status := get_trimmed m ANNOTATION_AUTO_PROMOTE_STATUS \<rparr>;
          p1 = with_annotation m ANNOTATION_AUTO_PROMOTE_INTERVAL parse_duration
                 (\<lambda>v p. p\<lparr> pa_interval := v \<rparr>) p0;
          p2 = with_annotation m ANNOTATION_AUTO_PROMOTE_STEPS parse_steps
                 (\<lambda>v p. p\<lparr> pa_steps := v \<rparr>) p1;
          p3 = with_annotation m ANNOTATION_AUTO_PROMOTE_MAX_5XX (parse_at_least (Fin False 0))
                 (\<lambda>v p. p\<lparr> pa_max_5xx_percent := v \<rparr>) p2;
          p4 = with_annotation m ANNOTATION_AUTO_PROMOTE_MAX_LATENCY (parse_at_least (Fin False 1))
                 (\<lambda>v p. p\<lparr> pa_max_latency_factor := v \<rparr>) p3
      in with_annotation m ANNOTATION_AUTO_PROMOTE_MIN_REQUESTS parse_u64
           (\<lambda>v p. p\<lparr> pa_min_requests := v \<rparr>) p4)"

definition rolled_back :: "promotion_annotations \<Rightarrow> bool" where
  "rolled_back p = (case pa_status p of None \<Rightarrow> False | Some s \<Rightarrow> starts_with STATUS_ROLLED_BACK s)"

definition next_step :: "promotion_annotations \<Rightarrow> u32 \<Rightarrow> u32 option" where
  "next_step p weight = find (\<lambda>step. step > weight) (pa_steps p)"

definition final_step :: "promotion_annotations \<Rightarrow> u32" where
  "final_step p = (if pa_steps p = [] then 100 else last (pa_steps p))"


section \<open>Values that survive trimming\<close>

definition visible :: "char \<Rightarrow> bool" where
  "visible c \<longleftrightarrow> 32 < byte_val c \<and> byte_val c < 128"

lemma ws_len_visible: "32 < a \<Longrightarrow> a < 128 \<Longrightarrow> ws_len (a # r) = 0"
  by (cases r; cases "tl r") auto

lemma ws_len_last: "32 < z \<Longrightarrow> z < 128 \<Longrightarrow> ws_len [z] = 0 \<and> ws_len [b, z] \<noteq> 2 \<and> ws_len [a, b, z] \<noteq> 3"
  by auto

lemma drop_last:
  assumes "s \<noteq> []"
  shows "drop (length s - 1) s = [last s]"
    "2 \<le> length s \<Longrightarrow> \<exists>b. drop (length s - 2) s = [b, last s]"
    "3 \<le> length s \<Longrightarrow> \<exists>a b. drop (length s - 3) s = [a, b, last s]"
proof -
  obtain p z where s: "s = p @ [z]" using assms by (meson rev_exhaust)
  then show "drop (length s - 1) s = [last s]" by simp
  show "\<exists>b. drop (length s - 2) s = [b, last s]" if "2 \<le> length s"
  proof -
    have "p \<noteq> []" using that s by auto
    then obtain q b where "p = q @ [b]" by (meson rev_exhaust)
    with s show ?thesis by simp
  qed
  show "\<exists>a b. drop (length s - 3) s = [a, b, last s]" if n: "3 \<le> length s"
  proof -
    have "p \<noteq> []" using n s by auto
    then obtain q b where p: "p = q @ [b]" by (meson rev_exhaust)
    have "q \<noteq> []" using n s p by auto
    then obtain r a where "q = r @ [a]" by (meson rev_exhaust)
    with s p show ?thesis by simp
  qed
qed

lemma trim_visible:
  assumes "s \<noteq> []" "visible (hd s)" "visible (last s)"
  shows "trim s = s"
proof -
  have "ws_at_start s = 0"
    using assms(1,2) ws_len_visible by (cases s) (auto simp: ws_at_start_def visible_def)
  then have st: "trim_start s = s" by (simp add: trim_start.simps)
  have l: "32 < byte_val (last s)" "byte_val (last s) < 128" using assms(3) by (simp_all add: visible_def)
  note L = ws_len_last[OF l]
  have "ws_at_start (drop (length s - 1) s) \<noteq> 1"
    unfolding drop_last(1)[OF assms(1)] using L by (simp add: ws_at_start_def)
  moreover have "2 \<le> length s \<Longrightarrow> ws_at_start (drop (length s - 2) s) \<noteq> 2"
    using drop_last(2)[OF assms(1)] L by (auto simp: ws_at_start_def simp del: ws_len.simps)
  moreover have "3 \<le> length s \<Longrightarrow> ws_at_start (drop (length s - 3) s) \<noteq> 3"
    using drop_last(3)[OF assms(1)] L by (auto simp: ws_at_start_def simp del: ws_len.simps)
  ultimately have "ws_at_end s = 0" unfolding ws_at_end_def Let_def by auto
  then show ?thesis using st by (simp add: trim_def trim_end.simps)
qed

lemma digit_visible: "is_ascii_digit c \<Longrightarrow> visible c"
  by (simp add: is_ascii_digit_def visible_def)

lemma trim_show_nat [simp]: "trim (show_nat n) = show_nat n"
  using show_nat_digits[of n]
  by (intro trim_visible digit_visible) (simp_all add: list_all_iff)

section \<open>Well-formed policies\<close>

text \<open>A threshold of the gates: finite, binary64, and not below \<open>low\<close>.\<close>

definition threshold :: "rat \<Rightarrow> f64 \<Rightarrow> bool" where
  "threshold low v \<longleftrightarrow> (\<exists>s t. v = Fin s t \<and> representable t \<and> low \<le> signed s t)"

definition promotion_wf :: "promotion_annotations \<Rightarrow> bool" where
  "promotion_wf p \<longleftrightarrow>
     pa_interval p > 0 \<and> pa_steps p \<noteq> [] \<and> sorted_wrt (<) (pa_steps p)
     \<and> (\<forall>w \<in> set (pa_steps p). 1 \<le> w \<and> w \<le> 100)
     \<and> threshold 0 (pa_max_5xx_percent p) \<and> threshold 1 (pa_max_latency_factor p)"

lemma steps_loop_bounds:
  "steps_loop acc fs = Some steps \<Longrightarrow> \<forall>w \<in> set acc. 1 \<le> w \<and> w \<le> 100 \<Longrightarrow> \<forall>w \<in> set steps. 1 \<le> w \<and> w \<le> 100"
proof (induction acc fs rule: steps_loop.induct)
  case (2 acc f fs)
  have pos: "step \<noteq> 0 \<Longrightarrow> 1 \<le> step" for step :: u32
    by (simp add: word_le_nat_alt unat_gt_0 Suc_le_eq)
  show ?case
  proof (cases "trim f = []")
    case True
    with 2 show ?thesis by simp
  next
    case False
    with "2.prems"(1) obtain step where s: "parse_u32 (trim f) = Some step" "\<not> (step = 0 \<or> step > 100)"
      "steps_loop (acc @ [step]) fs = Some steps"
      by (auto simp: Let_def split: option.splits if_splits)
    then have "\<forall>w \<in> set (acc @ [step]). 1 \<le> w \<and> w \<le> 100"
      using "2.prems"(2) pos by auto
    with "2.IH"(2)[OF refl False s(1,2,3)] show ?thesis by simp
  qed
qed auto

lemma strict_sorted_dedup: "sorted_wrt (<) (remdups_adj (sort (xs :: 'a::linorder list)))"
proof -
  have "distinct (remdups_adj xs)" if "sorted xs" for xs :: "'a list"
    using that by (induction xs rule: remdups_adj.induct) (auto simp: order.antisym)
  then show ?thesis by (simp add: strict_sorted_iff sorted_remdups_adj)
qed

lemma parse_steps_ok:
  assumes "parse_steps raw = Some steps"
  shows "steps \<noteq> []" "sorted_wrt (<) steps" "\<forall>w \<in> set steps. 1 \<le> w \<and> w \<le> 100"
proof -
  obtain xs where xs: "steps_loop [] (split_on (CHR '','') raw) = Some xs" "xs \<noteq> []"
    "steps = remdups_adj (sort xs)"
    using assms by (auto simp: parse_steps_def split: option.splits if_splits)
  then have "set steps \<noteq> {}" by simp
  then show "steps \<noteq> []" by auto
  show "sorted_wrt (<) steps" unfolding xs(3) by (rule strict_sorted_dedup)
  show "\<forall>w \<in> set steps. 1 \<le> w \<and> w \<le> 100" using steps_loop_bounds[OF xs(1)] xs(3) by simp
qed

lemma saturating_mul_pos:
  assumes "a > 0" "b > 0"
  shows "saturating_mul a b > (0 :: 'w::len word)"
proof (cases "unat a * unat b < 2 ^ LENGTH('w)")
  case True
  have "0 < unat a * unat b" using assms by (simp add: unat_gt_0 word_neq_0_conv)
  with True have "0 < unat (a * b)" by (simp add: unat_mult_lem[THEN iffD1])
  with True show ?thesis by (simp add: saturating_mul_def unat_gt_0 word_neq_0_conv)
next
  case False
  then show ?thesis by (simp add: saturating_mul_def word_neq_0_conv[symmetric])
qed

lemma parse_duration_pos: "parse_duration raw = Some d \<Longrightarrow> d > 0"
  by (auto simp: parse_duration_def Let_def saturating_mul_pos split: if_splits option.splits prod.splits)

lemma parse_magnitude_nonneg: "parse_magnitude s = Some q \<Longrightarrow> 0 \<le> q"
  by (auto simp: parse_magnitude_def Let_def split: if_splits)

lemma parse_at_least_threshold:
  assumes "parse_at_least (Fin False low) raw = Some v"
  shows "threshold low v"
proof -
  from assms obtain s t where v: "v = Fin s t" "low \<le> signed s t" "parse_f64 raw = Some v"
    by (cases v) (auto simp: parse_at_least_def signed_def split: option.splits if_splits)
  obtain neg r where s: "split_sign raw = (neg, r)" by fastforce
  with v(1,3) obtain q where q: "parse_magnitude r = Some q" "rnd neg q = Fin s t"
    by (auto simp: parse_f64_def split: if_splits)
  then have "s = neg" by (auto simp: rnd_def Let_def split: option.splits if_splits)
  with q rnd_representable[OF parse_magnitude_nonneg[OF q(1)]] v show ?thesis
    by (auto simp: threshold_def)
qed

lemma representable_defaults: "representable 1" "representable (3 / 2)"
proof -
  have one: "(1 :: rat) < 2 powi 1024" "(3 / 2 :: rat) < 2 powi 1024"
    using powi_2_mono[of 1 1024] by simp_all
  have "rnd False 1 = Fin False 1" by (rule rnd_exact[of _ 1 0]) (use one in simp_all)
  then show "representable 1" by (simp add: representable_def)
  have "rnd False (3 / 2) = Fin False (3 / 2)" by (rule rnd_exact[of _ 3 "-1"]) (use one in simp_all)
  then show "representable (3 / 2)" by (simp add: representable_def)
qed

lemma threshold_Fin: "representable t \<Longrightarrow> low \<le> t \<Longrightarrow> threshold low (Fin False t)"
  by (auto simp: threshold_def signed_def)

lemma promotion_default_wf: "promotion_wf promotion_default"
proof -
  have "threshold 0 (Fin False 1)" "threshold 1 (Fin False (3 / 2))"
    using threshold_Fin[of 1 0] threshold_Fin[of "3 / 2" 1] representable_defaults by simp_all
  moreover have "sorted_wrt (<) DEFAULT_PROMOTE_STEPS" "\<forall>w \<in> set DEFAULT_PROMOTE_STEPS. 1 \<le> w \<and> w \<le> 100"
    "DEFAULT_PROMOTE_STEPS \<noteq> []"
    by (simp_all add: DEFAULT_PROMOTE_STEPS_def)
  ultimately show ?thesis
    by (simp add: promotion_wf_def promotion_default_def DEFAULT_PROMOTE_INTERVAL_def
        DEFAULT_PROMOTE_MAX_5XX_PERCENT_def DEFAULT_PROMOTE_MAX_LATENCY_FACTOR_def)
qed

lemma with_annotation_wf:
  assumes "promotion_wf p" "\<And>raw v. parse raw = Some v \<Longrightarrow> promotion_wf (put v p)"
  shows "promotion_wf (with_annotation m key parse put p)"
proof -
  have "promotion_wf (p\<lparr> pa_invalid := xs \<rparr>)" for xs using assms(1) by (simp add: promotion_wf_def)
  then show ?thesis using assms by (simp add: with_annotation_def split: option.split)
qed


section \<open>Properties\<close>

text \<open>
  C11. Whatever an operator writes, the promotion policy that comes out is safe to run with: the
  interval is never zero, the steps are non-empty, strictly ascending and within 1 to 100, the
  error budget is a finite binary64 number not below 0 and the latency factor one not below 1.
  (Any traffic floor is accepted, zero included.)
\<close>
theorem promotion_parse_wf:
  "pa_interval (promotion_parse m) > 0
   \<and> pa_steps (promotion_parse m) \<noteq> [] \<and> sorted_wrt (<) (pa_steps (promotion_parse m))
   \<and> list_all (\<lambda>w. 1 \<le> w \<and> w \<le> 100) (pa_steps (promotion_parse m))
   \<and> threshold 0 (pa_max_5xx_percent (promotion_parse m))
   \<and> threshold 1 (pa_max_latency_factor (promotion_parse m))"
proof -
  have upd: "promotion_wf (p\<lparr> pa_enabled := a, pa_status := b \<rparr>)"
    "promotion_wf (p\<lparr> pa_min_requests := n \<rparr>)"
    "d > 0 \<Longrightarrow> promotion_wf (p\<lparr> pa_interval := d \<rparr>)"
    "threshold 0 v \<Longrightarrow> promotion_wf (p\<lparr> pa_max_5xx_percent := v \<rparr>)"
    "threshold 1 v \<Longrightarrow> promotion_wf (p\<lparr> pa_max_latency_factor := v \<rparr>)"
    "parse_steps raw = Some ws \<Longrightarrow> promotion_wf (p\<lparr> pa_steps := ws \<rparr>)"
    if "promotion_wf p" for p a b n d v ws raw
    using that parse_steps_ok[of raw ws] by (simp_all add: promotion_wf_def)
  have "promotion_wf (promotion_parse m)"
    unfolding promotion_parse_def Let_def
    by (intro with_annotation_wf upd promotion_default_wf)
       (auto dest: parse_duration_pos parse_at_least_threshold)
  then show ?thesis by (simp add: promotion_wf_def list_all_iff)
qed

text \<open>
  Stepping is monotone and complete: the next step is strictly above the current weight, no
  configured step lies between, and there is none exactly when the weight has reached the last
  step.
\<close>
theorem next_step_least:
  assumes "sorted_wrt (<) (pa_steps p)" "pa_steps p \<noteq> []"
  shows "case next_step p w of
      Some to \<Rightarrow> w < to \<and> to \<in> set (pa_steps p) \<and> list_all (\<lambda>x. x \<le> w \<or> to \<le> x) (pa_steps p)
    | None \<Rightarrow> final_step p \<le> w"
proof (cases "next_step p w")
  case None
  then have "\<forall>x \<in> set (pa_steps p). x \<le> w" by (auto simp: next_step_def find_None_iff not_less)
  then have "final_step p \<le> w" using assms(2) by (simp add: final_step_def)
  with None show ?thesis by simp
next
  case (Some to)
  then obtain i where i: "i < length (pa_steps p)" "w < pa_steps p ! i" "to = pa_steps p ! i"
    "\<forall>j<i. \<not> w < pa_steps p ! j"
    by (auto simp: next_step_def find_Some_iff)
  have "x \<le> w \<or> to \<le> x" if "x \<in> set (pa_steps p)" for x
  proof -
    obtain j where j: "j < length (pa_steps p)" "x = pa_steps p ! j"
      using \<open>x \<in> set (pa_steps p)\<close> by (auto simp: in_set_conv_nth)
    show ?thesis
    proof (cases "j < i")
      case True
      then show ?thesis using i(4) j by (auto simp: not_less)
    next
      case False
      then have "pa_steps p ! i \<le> pa_steps p ! j"
        using j(1) sorted_wrt_nth_less[OF assms(1), of i j] by (cases "i = j") (auto simp: less_imp_le)
      with i j show ?thesis by simp
    qed
  qed
  with i Some show ?thesis by (auto simp: list_all_iff)
qed

theorem next_step_least_witness:
  "case next_step promotion_default 10 of
     Some to \<Rightarrow> 10 < to \<and> to \<in> set (pa_steps promotion_default)
       \<and> list_all (\<lambda>x. x \<le> 10 \<or> to \<le> x) (pa_steps promotion_default)
   | None \<Rightarrow> final_step promotion_default \<le> 10"
  by (rule next_step_least) (simp_all add: promotion_default_def DEFAULT_PROMOTE_STEPS_def)

text \<open>
  A mirrored share is a percentage: it is at most 100 however \<open>mirror-percent\<close> is spelled,
  a number in range is taken as written, and anything else is reported.
\<close>
theorem mirror_percent_bounded:
  "ma_percent (mirror_parse m) \<le> 100
   \<and> (case get_trimmed m ANNOTATION_MIRROR_PERCENT of
        None \<Rightarrow> ma_percent (mirror_parse m) = DEFAULT_MIRROR_PERCENT \<and> ma_invalid (mirror_parse m) = []
      | Some raw \<Rightarrow>
          (case parse_u32 raw of
             Some v \<Rightarrow> ma_invalid (mirror_parse m) = [] \<and> ma_percent (mirror_parse m) = v \<or>
                        v > 100 \<and> ma_invalid (mirror_parse m) = [ANNOTATION_MIRROR_PERCENT]
           | None \<Rightarrow> ma_invalid (mirror_parse m) = [ANNOTATION_MIRROR_PERCENT]))"
  by (auto simp: mirror_parse_def DEFAULT_MIRROR_PERCENT_def not_le split: option.split)

end
