(* ===== verification/Cluster.thy ===== *)
theory Cluster
  imports Annotations
begin

text \<open>
  The control plane's inputs and the parts of the translator that look at one kind of object:
  the objects of a cluster snapshot (\<open>snapshot.rs\<close>, with the fields of the API types that the
  code reads), service references and options (\<open>config.rs\<close>), the class filter (\<open>class.rs\<close>), the
  content digest (\<open>digest.rs\<close>), endpoint resolution (\<open>endpoints.rs\<close>) and certificate material
  (\<open>tls.rs\<close>), all of \<open>crates/ramjet-controller/src\<close>.

  An index that the code builds as a hash map is the map itself. A \<open>BTreeMap\<close> is an association
  list whose iteration sorts by the key.
\<close>

section \<open>Objects\<close>

record object_meta =
  om_namespace :: "string option"
  om_name :: "string option"
  om_generate_name :: "string option"
  om_uid :: "string option"
  om_created :: "int option"
  om_annotations :: annotations
  om_labels :: "string \<Rightarrow> string option"

definition name_any :: "object_meta \<Rightarrow> string" where
  "name_any m =
     (case om_name m of
        Some n \<Rightarrow> n
      | None \<Rightarrow> opt_or [] (om_generate_name m))"

record object_key =
  ok_namespace :: string
  ok_name :: string

definition key_of :: "object_meta \<Rightarrow> object_key" where
  "key_of m = \<lparr> ok_namespace = opt_or [] (om_namespace m), ok_name = opt_or [] (om_name m) \<rparr>"

definition object_key_display :: "object_key \<Rightarrow> string" where
  "object_key_display k = (if ok_namespace k = [] then ok_name k else ok_namespace k @ ''/'' @ ok_name k)"

record ingress_class_spec =
  ics_controller :: "string option"

record ingress_class =
  ic_meta :: object_meta
  ic_spec :: "ingress_class_spec option"

record service_backend_port =
  sbp_number :: "int option"
  sbp_name :: "string option"

record ingress_service_backend =
  isb_name :: string
  isb_port :: "service_backend_port option"

record ingress_backend =
  ib_service :: "ingress_service_backend option"

record ingress_path =
  ipa_path :: "string option"
  ipa_path_type :: string
  ipa_backend :: ingress_backend

record ingress_rule =
  iru_host :: "string option"
  iru_http :: "ingress_path list option"

record ingress_tls =
  itl_hosts :: "string list option"
  itl_secret_name :: "string option"

record ingress_spec =
  isp_class_name :: "string option"
  isp_rules :: "ingress_rule list option"
  isp_default_backend :: "ingress_backend option"
  isp_tls :: "ingress_tls list option"

record ingress =
  ing_meta :: object_meta
  ing_spec :: "ingress_spec option"

record service_port =
  svp_name :: "string option"
  svp_port :: int

record service_spec =
  svs_type :: "string option"
  svs_external_name :: "string option"
  svs_ports :: "service_port list option"

record service =
  svc_meta :: object_meta
  svc_spec :: "service_spec option"

record endpoint_conditions =
  ec_ready :: "bool option"
  ec_terminating :: "bool option"

record slice_endpoint =
  sle_addresses :: "string list"
  sle_conditions :: "endpoint_conditions option"

record endpoint_port =
  epo_name :: "string option"
  epo_port :: "int option"

record endpoint_slice =
  esl_meta :: object_meta
  esl_address_type :: string
  esl_ports :: "endpoint_port list option"
  esl_endpoints :: "slice_endpoint list option"

record secret =
  sec_meta :: object_meta
  sec_type :: "string option"
  sec_data :: "(string \<Rightarrow> bytes option) option"

record cluster_snapshot =
  sn_ingresses :: "ingress list"
  sn_ingress_classes :: "ingress_class list"
  sn_services :: "service list"
  sn_endpoint_slices :: "endpoint_slice list"
  sn_secrets :: "secret list"

section \<open>Configuration\<close>

definition CONTROLLER_NAME :: string where
  "CONTROLLER_NAME = ''ramjet.dev/ingress''"

datatype backend_port = PortNumber int | PortName string

fun backend_port_display :: "backend_port \<Rightarrow> string" where
  "backend_port_display (PortNumber n) = show_int n"
| "backend_port_display (PortName n) = n"

record service_ref =
  sr_namespace :: string
  sr_name :: string
  sr_port :: backend_port

definition backend_name :: "service_ref \<Rightarrow> string" where
  "backend_name r = sr_namespace r @ ''/'' @ sr_name r @ '':'' @ backend_port_display (sr_port r)"

text \<open>The derived order: namespace, name, then numbers before names.\<close>

fun port_key :: "backend_port \<Rightarrow> nat \<times> int \<times> string" where
  "port_key (PortNumber n) = (0, n, [])"
| "port_key (PortName s) = (1, 0, s)"

definition service_ref_key :: "service_ref \<Rightarrow> string \<times> string \<times> nat \<times> int \<times> string" where
  "service_ref_key r = (sr_namespace r, sr_name r, port_key (sr_port r))"

datatype service_ref_error = RefShape string | RefPort string string

fun service_ref_error_display :: "service_ref_error \<Rightarrow> string" where
  "service_ref_error_display (RefShape s) = ''`'' @ s @ ''` is not of the form `namespace/name:port`''"
| "service_ref_error_display (RefPort input port) =
     ''`'' @ port @ ''` in `'' @ input @ ''` is not a valid port number or name''"

definition parse_service_ref :: "string \<Rightarrow> service_ref_error + service_ref" where
  "parse_service_ref s =
     (case split_once (CHR ''/'') s of
        None \<Rightarrow> Inl (RefShape s)
      | Some (namespace, rest) \<Rightarrow>
          (case rsplit_once (CHR '':'') rest of
             None \<Rightarrow> Inl (RefShape s)
           | Some (name, port) \<Rightarrow>
               if namespace = [] \<or> name = [] \<or> port = [] then Inl (RefShape s)
               else sum_bind
                      (if is_ascii_digit (hd port)
                       then map_sum (\<lambda>e. e) PortNumber (ok_or (RefPort s port) (parse_i32 port))
                       else Inr (PortName port))
                      (\<lambda>p. Inr \<lparr> sr_namespace = namespace, sr_name = name, sr_port = p \<rparr>)))"

record controller_opts =
  co_class_name :: string
  co_default_backend :: "service_ref option"
  co_default_tls_secret :: "string option"
  co_lb_policy :: lb_policy

record promotion_route =
  pt_host :: string
  pt_path :: string
  pt_path_type :: path_type

record promotion_target =
  tg_ingress :: object_key
  tg_uid :: "string option"
  tg_routes :: "promotion_route list"
  tg_weight :: u32
  tg_policy :: promotion_annotations

record cert_material =
  cm_handle_id :: u64
  cm_cert_chain_pem :: bytes
  cm_key_pem :: bytes

section \<open>The class filter\<close>

definition ANNOTATION_LEGACY_CLASS :: string where
  "ANNOTATION_LEGACY_CLASS = ''kubernetes.io/ingress.class''"

definition ANNOTATION_IS_DEFAULT_CLASS :: string where
  "ANNOTATION_IS_DEFAULT_CLASS = ''ingressclass.kubernetes.io/is-default-class''"

record class_filter =
  cf_ours :: "string set"
  cf_known :: "string set"
  cf_default_is_ours :: bool
  cf_legacy_value :: string

definition class_is_ours :: "ingress_class \<Rightarrow> bool" where
  "class_is_ours c =
     (case ic_spec c of None \<Rightarrow> False | Some s \<Rightarrow> ics_controller s = Some CONTROLLER_NAME)"

definition filter_step :: "ingress_class \<Rightarrow> class_filter \<Rightarrow> class_filter" where
  "filter_step c f =
     (let name = name_any (ic_meta c);
          f1 = f\<lparr> cf_known := insert name (cf_known f) \<rparr>
      in if \<not> class_is_ours c then f1
         else f1\<lparr> cf_default_is_ours := cf_default_is_ours f1 \<or>
                    (case om_annotations (ic_meta c) ANNOTATION_IS_DEFAULT_CLASS of
                       None \<Rightarrow> False | Some v \<Rightarrow> eq_ignore_ascii_case (trim v) ''true''),
                  cf_ours := insert name (cf_ours f1) \<rparr>)"

definition class_filter_new :: "ingress_class list \<Rightarrow> string \<Rightarrow> class_filter" where
  "class_filter_new classes legacy_value =
     fold filter_step classes
       \<lparr> cf_ours = {}, cf_known = {}, cf_default_is_ours = False, cf_legacy_value = legacy_value \<rparr>"

datatype claim_via = ViaClassName | ViaLegacyAnnotation | ViaDefaultClass

datatype claim = Ours claim_via | OtherController | UnknownClassClaim | NoClass

definition classify :: "class_filter \<Rightarrow> ingress \<Rightarrow> claim" where
  "classify f ing =
     (case om_annotations (ing_meta ing) ANNOTATION_LEGACY_CLASS of
        Some annotated \<Rightarrow>
          if trim annotated = cf_legacy_value f then Ours ViaLegacyAnnotation else OtherController
      | None \<Rightarrow>
          (case Option.bind (ing_spec ing) isp_class_name of
             Some name \<Rightarrow>
               if name \<in> cf_ours f then Ours ViaClassName
               else if name \<in> cf_known f then OtherController
               else UnknownClassClaim
           | None \<Rightarrow> if cf_default_is_ours f then Ours ViaDefaultClass else NoClass))"

definition manages :: "class_filter \<Rightarrow> ingress \<Rightarrow> bool" where
  "manages f ing = (case classify f ing of Ours _ \<Rightarrow> True | _ \<Rightarrow> False)"

section \<open>The digest\<close>

definition FNV_OFFSET :: u64 where
  "FNV_OFFSET = 0xcbf29ce484222325"

definition FNV_PRIME :: u64 where
  "FNV_PRIME = 0x100000001b3"

definition digest_byte :: "u64 \<Rightarrow> u8 \<Rightarrow> u64" where
  "digest_byte d b = (xor d (ucast b)) * FNV_PRIME"

definition digest_bytes :: "bytes \<Rightarrow> u64 \<Rightarrow> u64" where
  "digest_bytes bs d = foldl digest_byte d (map byte_word bs)"

definition digest_u64 :: "u64 \<Rightarrow> u64 \<Rightarrow> u64" where
  "digest_u64 v d = foldl digest_byte d (map (\<lambda>i. ucast (drop_bit (8 * i) v)) [0..<8])"

definition digest_str :: "string \<Rightarrow> u64 \<Rightarrow> u64" where
  "digest_str s d = digest_bytes s (digest_u64 (of_nat (length s)) d)"

definition digest_u8 :: "u8 \<Rightarrow> u64 \<Rightarrow> u64" where
  "digest_u8 v d = digest_byte d v"

definition digest_opt_str :: "string option \<Rightarrow> u64 \<Rightarrow> u64" where
  "digest_opt_str s d = (case s of Some v \<Rightarrow> digest_str v (digest_u8 1 d) | None \<Rightarrow> digest_u8 0 d)"

definition cert_handle_id :: "string \<Rightarrow> string \<Rightarrow> bytes \<Rightarrow> bytes \<Rightarrow> u64" where
  "cert_handle_id namespace name cert key =
     digest_bytes key (digest_u64 (of_nat (length key))
       (digest_bytes cert (digest_u64 (of_nat (length cert))
         (digest_str name (digest_str namespace FNV_OFFSET)))))"

section \<open>Endpoints\<close>

definition SERVICE_NAME_LABEL :: string where
  "SERVICE_NAME_LABEL = ''kubernetes.io/service-name''"

definition EXTERNAL_NAME :: string where
  "EXTERNAL_NAME = ''ExternalName''"

datatype resolve_issue = ServiceMissing | ExternalNameIssue string | PortMissing | NoReadyEndpoints nat

record resolution =
  re_endpoints :: "endpoint list"
  re_skipped :: nat

record endpoint_index =
  ei_services :: "string \<times> string \<Rightarrow> service option"
  ei_slices :: "string \<times> string \<Rightarrow> endpoint_slice list"

definition index_service :: "service \<Rightarrow> (string \<times> string \<Rightarrow> service option) \<Rightarrow> string \<times> string \<Rightarrow> service option" where
  "index_service s m =
     (case (om_namespace (svc_meta s), om_name (svc_meta s)) of
        (Some ns, Some name) \<Rightarrow> m((ns, name) \<mapsto> s)
      | _ \<Rightarrow> m)"

definition index_slice ::
  "endpoint_slice \<Rightarrow> (string \<times> string \<Rightarrow> endpoint_slice list) \<Rightarrow> string \<times> string \<Rightarrow> endpoint_slice list" where
  "index_slice s m =
     (case (om_namespace (esl_meta s), om_labels (esl_meta s) SERVICE_NAME_LABEL) of
        (Some ns, Some service) \<Rightarrow> m((ns, service) := m (ns, service) @ [s])
      | _ \<Rightarrow> m)"

definition endpoint_index_new :: "service list \<Rightarrow> endpoint_slice list \<Rightarrow> endpoint_index" where
  "endpoint_index_new services slices =
     \<lparr> ei_services = fold index_service services (\<lambda>_. None),
       ei_slices = fold index_slice slices (\<lambda>_. []) \<rparr>"

definition index_service_of :: "endpoint_index \<Rightarrow> string \<Rightarrow> string \<Rightarrow> service option" where
  "index_service_of ix namespace name = ei_services ix (namespace, name)"

fun port_matches :: "service_port \<Rightarrow> backend_port \<Rightarrow> bool" where
  "port_matches p (PortNumber n) = (svp_port p = n)"
| "port_matches p (PortName name) = (svp_name p = Some name)"

definition slice_port :: "endpoint_slice \<Rightarrow> service_port \<Rightarrow> int option" where
  "slice_port s p =
     (let wanted = opt_or [] (svp_name p)
      in Option.bind (find (\<lambda>q. opt_or [] (epo_name q) = wanted) (opt_or [] (esl_ports s))) epo_port)"

definition is_serving :: "slice_endpoint \<Rightarrow> bool" where
  "is_serving e =
     (case sle_conditions e of
        None \<Rightarrow> True
      | Some c \<Rightarrow> opt_or True (ec_ready c) \<and> \<not> opt_or False (ec_terminating c))"

text \<open>The addresses of one endpoint, and how many of them are skipped.\<close>

fun parse_addresses :: "u16 \<Rightarrow> string list \<Rightarrow> socket_addr list \<times> nat" where
  "parse_addresses port [] = ([], 0)"
| "parse_addresses port (raw # rs) =
     (let (addrs, skipped) = parse_addresses port rs
      in case parse_ip raw of
           Some ip \<Rightarrow> (SocketAddr ip port # addrs, skipped)
         | None \<Rightarrow> (addrs, skipped + 1))"

definition endpoint_addresses :: "u16 \<Rightarrow> slice_endpoint \<Rightarrow> socket_addr list \<times> nat" where
  "endpoint_addresses port e =
     (if is_serving e then parse_addresses port (sle_addresses e) else ([], length (sle_addresses e)))"

definition slice_target_port :: "endpoint_slice \<Rightarrow> service_port \<Rightarrow> u16 option" where
  "slice_target_port s p =
     (if esl_address_type s \<noteq> ''IPv4'' \<and> esl_address_type s \<noteq> ''IPv6'' then None
      else case slice_port s p of
             None \<Rightarrow> None
           | Some n \<Rightarrow> if 0 \<le> n \<and> n < 65536 then Some (of_int n) else None)"

definition slice_addresses :: "service_port \<Rightarrow> endpoint_slice \<Rightarrow> socket_addr list \<times> nat" where
  "slice_addresses p s =
     (case slice_target_port s p of
        None \<Rightarrow> ([], 0)
      | Some port \<Rightarrow>
          (let found = map (endpoint_addresses port) (opt_or [] (esl_endpoints s))
           in (concat (map fst found), sum_list (map snd found))))"

definition resolve :: "endpoint_index \<Rightarrow> service_ref \<Rightarrow> resolve_issue + resolution" where
  "resolve ix target =
     sum_bind (ok_or ServiceMissing (index_service_of ix (sr_namespace target) (sr_name target))) (\<lambda>svc.
       if Option.bind (svc_spec svc) svs_type = Some EXTERNAL_NAME
       then Inl (ExternalNameIssue (opt_or [] (Option.bind (svc_spec svc) svs_external_name)))
       else sum_bind (ok_or PortMissing
              (find (\<lambda>p. port_matches p (sr_port target)) (opt_or [] (Option.bind (svc_spec svc) svs_ports)))) (\<lambda>port.
         let found = map (slice_addresses port) (ei_slices ix (sr_namespace target, sr_name target));
             addrs = remdups_adj (sort (concat (map fst found)));
             skipped = sum_list (map snd found)
         in if addrs = [] then Inl (NoReadyEndpoints skipped)
            else Inr \<lparr> re_endpoints = map endpoint_new addrs, re_skipped = skipped \<rparr>))"

section \<open>Certificates\<close>

definition TLS_SECRET_TYPE :: string where
  "TLS_SECRET_TYPE = ''kubernetes.io/tls''"

definition TLS_CRT :: string where
  "TLS_CRT = ''tls.crt''"

definition TLS_KEY :: string where
  "TLS_KEY = ''tls.key''"

definition PEM_MARKER :: bytes where
  "PEM_MARKER = ''-----BEGIN''"

datatype cert_issue = CertMissing | WrongType string | IncompleteData string | NotPem

fun cert_issue_display :: "cert_issue \<Rightarrow> string" where
  "cert_issue_display CertMissing = ''secret does not exist''"
| "cert_issue_display (WrongType found) =
     ''secret type is `'' @ found @ ''`, not `'' @ TLS_SECRET_TYPE @ ''`''"
| "cert_issue_display (IncompleteData field) = ''secret has no usable `'' @ field @ ''`''"
| "cert_issue_display NotPem = ''`tls.crt` is not PEM''"

definition index_secret :: "secret \<Rightarrow> (string \<times> string \<Rightarrow> secret option) \<Rightarrow> string \<times> string \<Rightarrow> secret option" where
  "index_secret s m =
     (case (om_namespace (sec_meta s), om_name (sec_meta s)) of
        (Some ns, Some name) \<Rightarrow> m((ns, name) \<mapsto> s)
      | _ \<Rightarrow> m)"

definition secret_index_new :: "secret list \<Rightarrow> string \<times> string \<Rightarrow> secret option" where
  "secret_index_new secrets = fold index_secret secrets (\<lambda>_. None)"

definition secret_field :: "secret \<Rightarrow> string \<Rightarrow> cert_issue + bytes" where
  "secret_field s key =
     sum_bind (ok_or (IncompleteData key) (Option.bind (sec_data s) (\<lambda>d. d key))) (\<lambda>b.
       if b = [] then Inl (IncompleteData key) else Inr b)"

fun contains_bytes :: "bytes \<Rightarrow> bytes \<Rightarrow> bool" where
  "contains_bytes [] needle = (needle = [])"
| "contains_bytes (c # cs) needle = (starts_with needle (c # cs) \<or> contains_bytes cs needle)"

definition material ::
  "(string \<times> string \<Rightarrow> secret option) \<Rightarrow> string \<Rightarrow> string \<Rightarrow> cert_issue + cert_material" where
  "material ix namespace name =
     sum_bind (ok_or CertMissing (ix (namespace, name))) (\<lambda>s.
       if sec_type s \<noteq> Some TLS_SECRET_TYPE
       then Inl (WrongType (opt_or ''<none>'' (sec_type s)))
       else sum_bind (secret_field s TLS_CRT) (\<lambda>cert.
            sum_bind (secret_field s TLS_KEY) (\<lambda>key.
              if \<not> contains_bytes cert PEM_MARKER then Inl NotPem
              else Inr \<lparr> cm_handle_id = cert_handle_id namespace name cert key,
                         cm_cert_chain_pem = cert, cm_key_pem = key \<rparr>)))"

section \<open>Service references\<close>

text \<open>
  What the API server's validation gives of a reference: a namespace is a DNS label, a port number
  is not negative, and a port name has a letter and no colon.
\<close>

definition port_name_ok :: "string \<Rightarrow> bool" where
  "port_name_ok s \<longleftrightarrow> CHR '':'' \<notin> set s \<and> \<not> (s \<noteq> [] \<and> list_all is_ascii_digit s)"

definition ref_ok :: "service_ref \<Rightarrow> bool" where
  "ref_ok r \<longleftrightarrow> CHR ''/'' \<notin> set (sr_namespace r) \<and>
     (case sr_port r of PortNumber n \<Rightarrow> 0 \<le> n | PortName s \<Rightarrow> port_name_ok s)"

lemma show_nat_no_colon: "CHR '':'' \<notin> set (show_nat n)"
  using show_nat_digits[of n] by (auto simp: list_all_iff is_ascii_digit_def)

lemma port_display_inject:
  assumes "case p of PortNumber n \<Rightarrow> 0 \<le> n | PortName s \<Rightarrow> port_name_ok s"
    and "case q of PortNumber n \<Rightarrow> 0 \<le> n | PortName s \<Rightarrow> port_name_ok s"
  shows "CHR '':'' \<notin> set (backend_port_display p)"
    and "backend_port_display p = backend_port_display q \<Longrightarrow> p = q"
proof -
  show "CHR '':'' \<notin> set (backend_port_display p)"
    using assms(1) by (cases p) (auto simp: show_int_def show_nat_no_colon port_name_ok_def)
  have num: "\<not> port_name_ok (show_nat n)" for n
    using show_nat_digits[of n] show_nat_not_Nil[of n] by (simp only: port_name_ok_def) blast
  assume eq: "backend_port_display p = backend_port_display q"
  show "p = q"
  proof (cases p)
    case (PortNumber m)
    with assms(1) have m: "0 \<le> m" "backend_port_display p = show_nat (nat m)" by (simp_all add: show_int_def)
    show ?thesis
    proof (cases q)
      case (PortNumber n)
      with assms(2) have "0 \<le> n" "backend_port_display q = show_nat (nat n)" by (simp_all add: show_int_def)
      with m eq \<open>p = PortNumber m\<close> PortNumber show ?thesis by simp
    next
      case (PortName s)
      with assms(2) eq m num[of "nat m"] show ?thesis by simp
    qed
  next
    case (PortName s)
    show ?thesis
    proof (cases q)
      case (PortNumber n)
      with assms(2) have "backend_port_display q = show_nat (nat n)" by (simp add: show_int_def)
      with assms(1) eq \<open>p = PortName s\<close> num[of "nat n"] show ?thesis by simp
    next
      case (PortName t)
      with eq \<open>p = PortName s\<close> show ?thesis by simp
    qed
  qed
qed

text \<open>Names of valid references are unique.\<close>

lemma backend_name_inject:
  assumes "ref_ok r" "ref_ok s" "backend_name r = backend_name s"
  shows "r = s"
proof -
  let ?r = "sr_name r @ CHR '':'' # backend_port_display (sr_port r)"
    and ?s = "sr_name s @ CHR '':'' # backend_port_display (sr_port s)"
  have sr: "split_once (CHR ''/'') (backend_name r) = Some (sr_namespace r, ?r)"
    and ss: "split_once (CHR ''/'') (backend_name s) = Some (sr_namespace s, ?s)"
    using assms(1,2) by (simp_all add: split_once_Some_iff ref_ok_def backend_name_def)
  have ns: "sr_namespace r = sr_namespace s" and rest: "?r = ?s"
    using sr ss unfolding assms(3) by (simp_all only: option.inject prod.inject)
  have rr: "rsplit_once (CHR '':'') ?r = Some (sr_name r, backend_port_display (sr_port r))"
    and rs: "rsplit_once (CHR '':'') ?s = Some (sr_name s, backend_port_display (sr_port s))"
    using assms(1,2) port_display_inject(1)[of "sr_port r" "sr_port r"] port_display_inject(1)[of "sr_port s" "sr_port s"]
    by (simp_all add: rsplit_once_Some_iff ref_ok_def)
  have name: "sr_name r = sr_name s"
    and "backend_port_display (sr_port r) = backend_port_display (sr_port s)"
    using rr rs unfolding rest by (simp_all only: option.inject prod.inject)
  with port_display_inject(2)[of "sr_port r" "sr_port s"] assms(1,2) have "sr_port r = sr_port s"
    by (simp add: ref_ok_def)
  with ns name show ?thesis by simp
qed

lemma parse_service_ref_ok:
  assumes "parse_service_ref s = Inr r"
  shows "ref_ok r \<and> sr_namespace r \<noteq> [] \<and> sr_name r \<noteq> []"
proof -
  from assms obtain ns rest name port p where s: "split_once (CHR ''/'') s = Some (ns, rest)"
    "rsplit_once (CHR '':'') rest = Some (name, port)" "ns \<noteq> []" "name \<noteq> []" "port \<noteq> []"
    and p: "(if is_ascii_digit (hd port) then map_sum (\<lambda>e. e) PortNumber (ok_or (RefPort s port) (parse_i32 port))
             else Inr (PortName port)) = Inr p"
    and r: "r = \<lparr> sr_namespace = ns, sr_name = name, sr_port = p \<rparr>"
    by (auto simp: parse_service_ref_def sum_bind_Inr_iff split: option.splits if_splits)
  have "CHR ''/'' \<notin> set ns" "CHR '':'' \<notin> set port"
    using s by (auto simp: split_once_Some_iff rsplit_once_Some_iff)
  moreover have "case p of PortNumber n \<Rightarrow> 0 \<le> n | PortName t \<Rightarrow> port_name_ok t"
  proof (cases "is_ascii_digit (hd port)")
    case True
    with s(5) have "hd port \<noteq> CHR ''-''" using digit_not_plus by blast
    with True p s(5) show ?thesis by (cases port) (auto simp: ok_or_def parse_i32_def split: option.splits if_splits)
  next
    case False
    with p s(5) calculation show ?thesis by (cases port) (auto simp: port_name_ok_def)
  qed
  ultimately show ?thesis using r s by (simp add: ref_ok_def)
qed

text \<open>
  A reference that can be written is read back: printing one whose parts are not empty, with a
  port number in range or a port name that does not start with a digit, and parsing the result
  gives the reference.
\<close>

lemma service_ref_roundtrip:
  assumes "ref_ok r" "sr_namespace r \<noteq> []" "sr_name r \<noteq> []"
    and "case sr_port r of PortNumber n \<Rightarrow> n < 2 ^ 31 | PortName s \<Rightarrow> s \<noteq> [] \<and> \<not> is_ascii_digit (hd s)"
  shows "parse_service_ref (backend_name r) = Inr r"
proof -
  let ?p = "backend_port_display (sr_port r)"
  let ?r = "sr_name r @ CHR '':'' # ?p"
  have split: "split_once (CHR ''/'') (sr_namespace r @ CHR ''/'' # ?r) = Some (sr_namespace r, ?r)"
    "rsplit_once (CHR '':'') ?r = Some (sr_name r, ?p)"
    using assms(1) port_display_inject(1)[of "sr_port r" "sr_port r"]
    by (auto simp: split_once_Some_iff rsplit_once_Some_iff ref_ok_def)
  have name: "backend_name r = sr_namespace r @ CHR ''/'' # ?r" by (simp add: backend_name_def)
  have "?p \<noteq> [] \<and> (if is_ascii_digit (hd ?p) then map_sum (\<lambda>e. e) PortNumber (ok_or (RefPort (backend_name r) ?p) (parse_i32 ?p))
          else Inr (PortName ?p)) = Inr (sr_port r)"
  proof (cases "sr_port r")
    case (PortNumber n)
    with assms have n: "0 \<le> n" "nat n < 2 ^ 31" by (auto simp: ref_ok_def)
    then have disp: "?p = show_nat (nat n)" using PortNumber by (simp add: show_int_def)
    have "is_ascii_digit (hd (show_nat (nat n)))" using show_nat_digits[of "nat n"] by (cases "show_nat (nat n)") auto
    moreover have "parse_i32 (show_nat (nat n)) = Some n"
      using n parse_unsigned_show_nat[of "nat n" 31] calculation digit_not_plus[of "hd (show_nat (nat n))"]
      by (cases "show_nat (nat n)") (auto simp: parse_i32_def)
    ultimately show ?thesis unfolding disp by (simp add: PortNumber)
  next
    case (PortName s)
    with assms(4) show ?thesis by simp
  qed
  with split assms(2,3) show ?thesis unfolding name by (simp add: parse_service_ref_def)
qed

section \<open>Endpoint resolution\<close>

text \<open>The addresses a Service port should be balanced over.\<close>

definition ready_addresses :: "endpoint_slice list \<Rightarrow> string \<Rightarrow> string \<Rightarrow> service_port \<Rightarrow> socket_addr set" where
  "ready_addresses slices ns name p =
     {SocketAddr ip port | s e raw ip port.
        s \<in> set slices \<and> om_namespace (esl_meta s) = Some ns
        \<and> om_labels (esl_meta s) SERVICE_NAME_LABEL = Some name
        \<and> slice_target_port s p = Some port
        \<and> e \<in> set (opt_or [] (esl_endpoints s)) \<and> is_serving e
        \<and> raw \<in> set (sle_addresses e) \<and> parse_ip raw = Some ip}"

definition slice_belongs :: "string \<Rightarrow> string \<Rightarrow> endpoint_slice \<Rightarrow> bool" where
  "slice_belongs ns name s \<longleftrightarrow>
     om_namespace (esl_meta s) = Some ns \<and> om_labels (esl_meta s) SERVICE_NAME_LABEL = Some name"

lemma ei_slices_eq:
  "ei_slices (endpoint_index_new services slices) (ns, name) = filter (slice_belongs ns name) slices"
proof -
  have "fold index_slice slices m (ns, name) = m (ns, name) @ filter (slice_belongs ns name) slices" for m
    by (induction slices arbitrary: m) (auto simp: index_slice_def slice_belongs_def split: option.splits)
  then show ?thesis by (simp add: endpoint_index_new_def)
qed

lemma parse_addresses_set:
  "set (fst (parse_addresses port rs)) = {SocketAddr ip port | raw ip. raw \<in> set rs \<and> parse_ip raw = Some ip}"
proof (induction rs)
  case (Cons raw rs)
  obtain addrs k where p: "parse_addresses port rs = (addrs, k)" by (cases "parse_addresses port rs")
  have "set (fst (parse_addresses port (raw # rs))) = (case parse_ip raw of Some ip \<Rightarrow> {SocketAddr ip port} | None \<Rightarrow> {}) \<union> set addrs"
    by (simp add: p split: option.splits)
  also have "\<dots> = {SocketAddr ip port | r ip. r \<in> set (raw # rs) \<and> parse_ip r = Some ip}"
    using Cons by (auto simp: p split: option.splits)
  finally show ?case .
qed simp

lemma slice_addresses_set:
  "set (fst (slice_addresses p s)) =
     {SocketAddr ip port | e raw ip port. slice_target_port s p = Some port
        \<and> e \<in> set (opt_or [] (esl_endpoints s)) \<and> is_serving e
        \<and> raw \<in> set (sle_addresses e) \<and> parse_ip raw = Some ip}"
proof (cases "slice_target_port s p")
  case (Some port)
  have "set (fst (endpoint_addresses port e)) =
      (if is_serving e then {SocketAddr ip port | raw ip. raw \<in> set (sle_addresses e) \<and> parse_ip raw = Some ip} else {})"
    for e by (simp add: endpoint_addresses_def parse_addresses_set)
  with Some show ?thesis by (fastforce simp: slice_addresses_def Let_def split: if_splits)
qed (simp add: slice_addresses_def)

lemma ready_addresses_set:
  "ready_addresses slices ns name p = set (concat (map fst (map (slice_addresses p) (filter (slice_belongs ns name) slices))))"
  by (fastforce simp: ready_addresses_def slice_addresses_set slice_belongs_def)

lemma sorted_distinct_list: "remdups_adj (sort xs) = sorted_list_of_set (set xs)" for xs :: "'a::linorder list"
proof -
  have "sorted_wrt (<) (remdups_adj (sort xs))" by (rule strict_sorted_dedup)
  then show ?thesis
    by (intro sorted_distinct_set_unique) (simp_all add: strict_sorted_iff)
qed

lemma resolve_found:
  assumes "index_service_of (endpoint_index_new services slices) (sr_namespace target) (sr_name target) = Some svc"
    and "Option.bind (svc_spec svc) svs_type \<noteq> Some EXTERNAL_NAME"
    and "find (\<lambda>p. port_matches p (sr_port target)) (opt_or [] (Option.bind (svc_spec svc) svs_ports)) = Some p"
  shows "resolve (endpoint_index_new services slices) target =
    (let ready = ready_addresses slices (sr_namespace target) (sr_name target) p;
         skipped = sum_list (map snd (map (slice_addresses p)
                     (filter (slice_belongs (sr_namespace target) (sr_name target)) slices)))
     in if ready = {} then Inl (NoReadyEndpoints skipped)
        else Inr \<lparr> re_endpoints = map endpoint_new (sorted_list_of_set ready), re_skipped = skipped \<rparr>)"
proof -
  let ?found = "map (slice_addresses p) (filter (slice_belongs (sr_namespace target) (sr_name target)) slices)"
  have set: "ready_addresses slices (sr_namespace target) (sr_name target) p = set (concat (map fst ?found))"
    by (rule ready_addresses_set)
  show ?thesis
    unfolding resolve_def assms(1) ok_or_simps sum_bind.simps if_not_P[OF assms(2)] assms(3)
      ei_slices_eq Let_def sorted_distinct_list set sorted_list_of_set_eq_Nil_iff[OF finite_set] by simp
qed

text \<open>
  A Service port that exists resolves to the addresses of its ready endpoints and to no
  others: one endpoint of weight one for each address of a serving endpoint in an IPv4 or IPv6
  slice of the Service that carries the port, in address order without repetition, whatever the
  order of the slices; with no such address the backend is reported as having none.
\<close>

theorem resolve_ready_addresses:
  assumes "index_service_of (endpoint_index_new services slices) (sr_namespace target) (sr_name target) = Some svc"
    and "Option.bind (svc_spec svc) svs_type \<noteq> Some EXTERNAL_NAME"
    and "find (\<lambda>p. port_matches p (sr_port target)) (opt_or [] (Option.bind (svc_spec svc) svs_ports)) = Some p"
  shows "\<exists>skipped. resolve (endpoint_index_new services slices) target =
    (let ready = ready_addresses slices (sr_namespace target) (sr_name target) p
     in if ready = {} then Inl (NoReadyEndpoints skipped)
        else Inr \<lparr> re_endpoints = map endpoint_new (sorted_list_of_set ready), re_skipped = skipped \<rparr>)"
  unfolding resolve_found[OF assms] Let_def by blast

definition sample_meta :: "string \<Rightarrow> string \<Rightarrow> object_meta" where
  "sample_meta ns name =
     \<lparr> om_namespace = Some ns, om_name = Some name, om_generate_name = None, om_uid = None, om_created = Some 0,
       om_annotations = Map.empty, om_labels = Map.empty \<rparr>"

definition sample_service :: service where
  "sample_service =
     \<lparr> svc_meta = sample_meta ''shop'' ''web'',
       svc_spec = Some \<lparr> svs_type = Some ''ClusterIP'', svs_external_name = None,
                         svs_ports = Some [\<lparr> svp_name = Some ''http'', svp_port = 80 \<rparr>] \<rparr> \<rparr>"

definition sample_slice :: endpoint_slice where
  "sample_slice =
     \<lparr> esl_meta = (sample_meta ''shop'' ''web-1'')\<lparr> om_labels := [SERVICE_NAME_LABEL \<mapsto> ''web''] \<rparr>,
       esl_address_type = ''IPv4'',
       esl_ports = Some [\<lparr> epo_name = Some ''http'', epo_port = Some 8080 \<rparr>],
       esl_endpoints = Some
         [\<lparr> sle_addresses = [''10.0.0.9''], sle_conditions = None \<rparr>,
          \<lparr> sle_addresses = [''10.0.0.7''], sle_conditions = Some \<lparr> ec_ready = Some False, ec_terminating = None \<rparr> \<rparr>] \<rparr>"

definition sample_ref :: service_ref where
  "sample_ref = \<lparr> sr_namespace = ''shop'', sr_name = ''web'', sr_port = PortNumber 80 \<rparr>"

lemma sample_resolve:
  "resolve (endpoint_index_new [sample_service] [sample_slice]) sample_ref =
     Inr \<lparr> re_endpoints = [endpoint_new (SocketAddr (IPv4 10 0 0 9) 8080)], re_skipped = 1 \<rparr>"
  by code_simp

theorem resolve_ready_addresses_witness:
  "ready_addresses [sample_slice] ''shop'' ''web'' \<lparr> svp_name = Some ''http'', svp_port = 80 \<rparr>
     = {SocketAddr (IPv4 10 0 0 9) 8080}"
proof -
  let ?p = "\<lparr> svp_name = Some ''http'', svp_port = 80 \<rparr>" and ?ix = "endpoint_index_new [sample_service] [sample_slice]"
  have "index_service_of ?ix (sr_namespace sample_ref) (sr_name sample_ref) = Some sample_service"
    by (simp add: index_service_of_def endpoint_index_new_def index_service_def sample_service_def sample_ref_def sample_meta_def)
  moreover have "Option.bind (svc_spec sample_service) svs_type \<noteq> Some EXTERNAL_NAME" by code_simp
  moreover have "find (\<lambda>p. port_matches p (sr_port sample_ref)) (opt_or [] (Option.bind (svc_spec sample_service) svs_ports)) = Some ?p"
    by code_simp
  ultimately have "\<exists>skipped. resolve ?ix sample_ref =
    (let ready = ready_addresses [sample_slice] (sr_namespace sample_ref) (sr_name sample_ref) ?p
     in if ready = {} then Inl (NoReadyEndpoints skipped)
        else Inr \<lparr> re_endpoints = map endpoint_new (sorted_list_of_set ready), re_skipped = skipped \<rparr>)"
    by (rule resolve_ready_addresses)
  then have "map ep_addr [endpoint_new (SocketAddr (IPv4 10 0 0 9) 8080)] =
      map ep_addr (map endpoint_new (sorted_list_of_set (ready_addresses [sample_slice] ''shop'' ''web'' ?p)))"
    unfolding sample_resolve by (auto simp: Let_def sample_ref_def split: if_splits)
  then have "[SocketAddr (IPv4 10 0 0 9) 8080] = sorted_list_of_set (ready_addresses [sample_slice] ''shop'' ''web'' ?p)"
    by (simp add: endpoint_new_def comp_def)
  then show ?thesis
    by (metis finite_set list.simps(15) ready_addresses_set set_empty set_sorted_list_of_set)
qed

end
