(* ===== verification/History.thy ===== *)
theory History
  imports Table
begin

text \<open>
  \<open>crates/ramjet-proxy/src/history.rs\<close>, with the certificate store and the SNI resolver of
  \<open>crates/ramjet-proxy/src/tls.rs\<close>. The published table and the published keys are two
  independent pointers, so \<open>apply\<close> is two stores and a handshake is two loads. A lock that a
  panic has poisoned is a flag of the state.
\<close>

section \<open>Definitions\<close>

type_synonym 'k cert_keys = "(u64 \<times> 'k) list"

subsection \<open>The certificate store\<close>

text \<open>\<open>CertStore::publish\<close> replaces the whole map; \<open>get\<close> reads the current one.\<close>

definition cert_publish :: "'k cert_keys \<Rightarrow> 'k cert_keys \<Rightarrow> 'k cert_keys" where
  "cert_publish store certs = certs"

definition cert_get :: "'k cert_keys \<Rightarrow> u64 \<Rightarrow> 'k option" where
  "cert_get store i = map_of store i"

text \<open>\<open>resolve_name\<close>, from the table it loads first and the store it loads after.\<close>

definition resolve_name :: "'r route_table \<Rightarrow> 'k cert_keys \<Rightarrow> string \<Rightarrow> 'k option" where
  "resolve_name table store name =
     (case sni_resolve (rt_tls table) name of
        None \<Rightarrow> None
      | Some handle \<Rightarrow> cert_get store handle)"

subsection \<open>The ring of generations\<close>

record ('r, 'k, 'd) generation_record =
  gr_generation :: u64
  gr_applied_at :: nat
  gr_published :: bool
  gr_digest :: u64
  gr_diff :: 'd
  gr_table :: "'r route_table"
  gr_keys :: "'k cert_keys"

definition record_routes :: "('r, 'k, 'd) generation_record \<Rightarrow> u64" where
  "record_routes r = of_nat (route_count (gr_table r))"

definition record_hosts :: "('r, 'k, 'd) generation_record \<Rightarrow> u64" where
  "record_hosts r =
     of_nat (length (rt_hosts (gr_table r)) + length (rt_wildcard_hosts (gr_table r)))"

definition record_certs :: "('r, 'k, 'd) generation_record \<Rightarrow> u64" where
  "record_certs r = of_nat (length (gr_keys r))"

datatype pin_error = Unknown u64 | AlreadyPinned u64

fun pin_error_display :: "pin_error \<Rightarrow> string" where
  "pin_error_display (Unknown g) = ''generation '' @ show_nat (unat g) @ '' is not in the history''"
| "pin_error_display (AlreadyPinned g) = ''already pinned to generation '' @ show_nat (unat g)"

datatype pin_change = Pinned u64 u64 | Resumed u64

record ('r, 'k, 'd) history =
  gh_routes :: "'r route_table"
  gh_certs :: "'k cert_keys"
  gh_capacity :: nat
  gh_poisoned :: bool
  gh_ring :: "('r, 'k, 'd) generation_record list"
  gh_pinned :: "u64 option"
  gh_sender :: "nat option"
  gh_sent :: "(nat \<times> pin_change) list"

definition history_new :: "'r route_table \<Rightarrow> 'k cert_keys \<Rightarrow> nat \<Rightarrow> ('r, 'k, 'd) history" where
  "history_new routes certs capacity =
     \<lparr> gh_routes = routes, gh_certs = certs, gh_capacity = max capacity 1, gh_poisoned = False,
       gh_ring = [], gh_pinned = None, gh_sender = None, gh_sent = [] \<rparr>"

definition history_notify :: "nat \<Rightarrow> ('r, 'k, 'd) history \<Rightarrow> ('r, 'k, 'd) history" where
  "history_notify sender h = (if gh_sender h = None then h\<lparr> gh_sender := Some sender \<rparr> else h)"

definition history_pinned :: "('r, 'k, 'd) history \<Rightarrow> u64 option" where
  "history_pinned h = (if gh_poisoned h then None else gh_pinned h)"

definition history_serving :: "('r, 'k, 'd) history \<Rightarrow> u64" where
  "history_serving h = rt_generation (gh_routes h)"

text \<open>\<open>apply\<close>: certificates first, then the table that names them.\<close>

definition store_certs :: "'k cert_keys \<Rightarrow> ('r, 'k, 'd) history \<Rightarrow> ('r, 'k, 'd) history" where
  "store_certs keys h = h\<lparr> gh_certs := cert_publish (gh_certs h) keys \<rparr>"

definition store_table :: "'r route_table \<Rightarrow> ('r, 'k, 'd) history \<Rightarrow> ('r, 'k, 'd) history" where
  "store_table table h = h\<lparr> gh_routes := table \<rparr>"

definition history_apply ::
  "'k cert_keys \<Rightarrow> 'r route_table \<Rightarrow> ('r, 'k, 'd) history \<Rightarrow> ('r, 'k, 'd) history" where
  "history_apply keys table h = store_table table (store_certs keys h)"

definition announce :: "pin_change \<Rightarrow> ('r, 'k, 'd) history \<Rightarrow> ('r, 'k, 'd) history" where
  "announce change h =
     (case gh_sender h of
        None \<Rightarrow> h
      | Some sender \<Rightarrow> h\<lparr> gh_sent := gh_sent h @ [(sender, change)] \<rparr>)"

fun evict :: "nat \<Rightarrow> 'a list \<Rightarrow> 'a list" where
  "evict capacity [] = []"
| "evict capacity (x # xs) = (if length (x # xs) > capacity then evict capacity xs else x # xs)"

definition ring_push ::
  "('r, 'k, 'd) generation_record \<Rightarrow> nat \<Rightarrow> ('r, 'k, 'd) generation_record list
   \<Rightarrow> ('r, 'k, 'd) generation_record list" where
  "ring_push r capacity ring =
     evict capacity (filter (\<lambda>held. gr_generation held \<noteq> gr_generation r) ring @ [r])"

definition mark_published ::
  "u64 \<Rightarrow> ('r, 'k, 'd) generation_record list \<Rightarrow> ('r, 'k, 'd) generation_record list" where
  "mark_published g ring =
     map (\<lambda>r. if gr_generation r = g then r\<lparr> gr_published := True \<rparr> else r) ring"

definition history_record ::
  "nat \<Rightarrow> u64 \<Rightarrow> u64 \<Rightarrow> 'd \<Rightarrow> 'r route_table \<Rightarrow> 'k cert_keys \<Rightarrow> ('r, 'k, 'd) history
   \<Rightarrow> bool \<times> ('r, 'k, 'd) history" where
  "history_record now generation digest diff table keys h =
     (if gh_poisoned h then (False, h)
      else let publish = (gh_pinned h = None);
               h1 = (if publish then history_apply keys table h else h);
               r = \<lparr> gr_generation = generation, gr_applied_at = now, gr_published = publish,
                     gr_digest = digest, gr_diff = diff, gr_table = table, gr_keys = keys \<rparr>
           in (publish, h1\<lparr> gh_ring := ring_push r (gh_capacity h1) (gh_ring h1) \<rparr>))"

definition history_pin :: "u64 \<Rightarrow> ('r, 'k, 'd) history \<Rightarrow> (pin_error + unit) \<times> ('r, 'k, 'd) history" where
  "history_pin generation h =
     (if gh_poisoned h then (Inl (Unknown generation), h)
      else case gh_pinned h of
             Some current \<Rightarrow> (Inl (AlreadyPinned current), h)
           | None \<Rightarrow>
               (case find (\<lambda>r. gr_generation r = generation) (gh_ring h) of
                  None \<Rightarrow> (Inl (Unknown generation), h)
                | Some r \<Rightarrow>
                    let replaced = history_serving h;
                        h1 = history_apply (gr_keys r) (gr_table r) h;
                        h2 = h1\<lparr> gh_pinned := Some generation,
                                 gh_ring := mark_published generation (gh_ring h1) \<rparr>
                    in (Inr (), announce (Pinned generation replaced) h2)))"

definition history_unpin :: "('r, 'k, 'd) history \<Rightarrow> u64 option \<times> ('r, 'k, 'd) history" where
  "history_unpin h =
     (if gh_poisoned h then (None, h)
      else case gh_pinned h of
             None \<Rightarrow> (None, h)
           | Some _ \<Rightarrow>
               (let h1 = h\<lparr> gh_pinned := None \<rparr>
                in if gh_ring h = [] then (None, h1)
                   else let r = last (gh_ring h); g = gr_generation r;
                            h2 = history_apply (gr_keys r) (gr_table r) h1;
                            h3 = h2\<lparr> gh_ring := mark_published g (gh_ring h2) \<rparr>
                        in (Some g, announce (Resumed g) h3)))"

definition with_records ::
  "('r, 'k, 'd) history \<Rightarrow> (u64 option \<Rightarrow> ('r, 'k, 'd) generation_record list \<Rightarrow> 'x) \<Rightarrow> 'x" where
  "with_records h f = f (gh_pinned h) (gh_ring h)"


section \<open>Runs\<close>

text \<open>
  A history under any sequence of calls from the applier and the admin listener; the list is
  every generation ever handed over, oldest first.
\<close>

inductive hist_run ::
  "(u64 \<times> 'r route_table \<times> 'k cert_keys) list \<Rightarrow> ('r, 'k, 'd) history \<Rightarrow> bool" where
  start: "hist_run [] (history_new routes certs capacity)"
| recorded: "hist_run rs h \<Longrightarrow> history_record now g digest diff t k h = (b, h') \<Longrightarrow> hist_run (rs @ [(g, t, k)]) h'"
| pin: "hist_run rs h \<Longrightarrow> history_pin g h = (r, h') \<Longrightarrow> hist_run rs h'"
| unpin: "hist_run rs h \<Longrightarrow> history_unpin h = (g, h') \<Longrightarrow> hist_run rs h'"
| notify: "hist_run rs h \<Longrightarrow> hist_run rs (history_notify sender h)"

definition handed :: "('r, 'k, 'd) generation_record \<Rightarrow> u64 \<times> 'r route_table \<times> 'k cert_keys" where
  "handed r = (gr_generation r, gr_table r, gr_keys r)"

definition hist_inv ::
  "(u64 \<times> 'r route_table \<times> 'k cert_keys) list \<Rightarrow> ('r, 'k, 'd) history \<Rightarrow> bool" where
  "hist_inv rs h \<longleftrightarrow>
     \<not> gh_poisoned h \<and> 1 \<le> gh_capacity h \<and> length (gh_ring h) \<le> gh_capacity h
     \<and> distinct (map gr_generation (gh_ring h))
     \<and> (gh_ring h = [] \<longleftrightarrow> rs = []) \<and> handed ` set (gh_ring h) \<subseteq> set rs
     \<and> (rs \<noteq> [] \<longrightarrow> handed (last (gh_ring h)) = last rs)
     \<and> (case gh_pinned h of
          None \<Rightarrow> rs \<noteq> [] \<longrightarrow> (gh_routes h, gh_certs h) = snd (last rs)
        | Some g \<Rightarrow> (g, gh_routes h, gh_certs h) \<in> set rs)"

lemma evict_drop: "evict c xs = drop (length xs - c) xs"
  by (induction c xs rule: evict.induct) (auto simp: Suc_diff_le)

lemma ring_push_facts:
  assumes "1 \<le> c" "distinct (map gr_generation ring)"
  shows "length (ring_push r c ring) \<le> c" "ring_push r c ring \<noteq> []" "last (ring_push r c ring) = r"
    "set (ring_push r c ring) \<subseteq> insert r (set ring)" "distinct (map gr_generation (ring_push r c ring))"
proof -
  let ?xs = "filter (\<lambda>held. gr_generation held \<noteq> gr_generation r) ring @ [r]"
  have p: "ring_push r c ring = drop (length ?xs - c) ?xs" by (simp add: ring_push_def evict_drop)
  show "length (ring_push r c ring) \<le> c" unfolding p by simp
  show ne: "ring_push r c ring \<noteq> []" unfolding p using assms(1) by simp
  show "last (ring_push r c ring) = r" unfolding p by (subst last_drop) (use assms(1) in simp_all)
  show "set (ring_push r c ring) \<subseteq> insert r (set ring)"
    unfolding p using set_drop_subset[of _ ?xs] by fastforce
  have "distinct (map gr_generation ?xs)" using assms(2) by (auto simp: distinct_map inj_on_def)
  then show "distinct (map gr_generation (ring_push r c ring))"
    unfolding p by (simp only: drop_map[symmetric] distinct_drop)
qed

lemma mark_published_simps [simp]:
  "length (mark_published g ring) = length ring"
  "map gr_generation (mark_published g ring) = map gr_generation ring"
  "handed ` set (mark_published g ring) = handed ` set ring"
  "mark_published g ring = [] \<longleftrightarrow> ring = []"
  "ring \<noteq> [] \<Longrightarrow> handed (last (mark_published g ring)) = handed (last ring)"
proof -
  have m: "map handed (mark_published g ring) = map handed ring"
    by (induction ring) (auto simp: mark_published_def handed_def)
  show "handed ` set (mark_published g ring) = handed ` set ring"
    using arg_cong[OF m, of set] by simp
  show "ring \<noteq> [] \<Longrightarrow> handed (last (mark_published g ring)) = handed (last ring)"
    using arg_cong[OF m, of last] by (simp add: last_map mark_published_def)
qed (simp_all add: mark_published_def comp_def)

lemma mark_published_handed: "x \<in> set (mark_published g ring) \<Longrightarrow> handed x \<in> handed ` set ring"
  using mark_published_simps(3)[of g ring] by blast

lemma history_apply_simps [simp]:
  "gh_routes (history_apply k t h) = t" "gh_certs (history_apply k t h) = k"
  "gh_capacity (history_apply k t h) = gh_capacity h" "gh_poisoned (history_apply k t h) = gh_poisoned h"
  "gh_ring (history_apply k t h) = gh_ring h" "gh_pinned (history_apply k t h) = gh_pinned h"
  by (simp_all add: history_apply_def store_table_def store_certs_def cert_publish_def)

lemma announce_simps [simp]:
  "gh_routes (announce c h) = gh_routes h" "gh_certs (announce c h) = gh_certs h"
  "gh_capacity (announce c h) = gh_capacity h" "gh_poisoned (announce c h) = gh_poisoned h"
  "gh_ring (announce c h) = gh_ring h" "gh_pinned (announce c h) = gh_pinned h"
  by (simp_all add: announce_def split: option.split)

lemma hist_inv_recorded:
  assumes "hist_inv rs h" "history_record now g digest diff t k h = (b, h')"
  shows "hist_inv (rs @ [(g, t, k)]) h'"
proof -
  let ?r = "\<lparr> gr_generation = g, gr_applied_at = now, gr_published = gh_pinned h = None,
    gr_digest = digest, gr_diff = diff, gr_table = t, gr_keys = k \<rparr>"
  have i: "\<not> gh_poisoned h" "1 \<le> gh_capacity h" "distinct (map gr_generation (gh_ring h))"
    "handed ` set (gh_ring h) \<subseteq> set rs"
    using assms(1) by (simp_all add: hist_inv_def)
  note P = ring_push_facts[OF i(2,3), of ?r]
  have ring: "gh_ring h' = ring_push ?r (gh_capacity h) (gh_ring h)"
    and same: "gh_capacity h' = gh_capacity h" "gh_poisoned h' = gh_poisoned h" "gh_pinned h' = gh_pinned h"
    and pub: "gh_pinned h = None \<Longrightarrow> gh_routes h' = t \<and> gh_certs h' = k"
      "gh_pinned h \<noteq> None \<Longrightarrow> gh_routes h' = gh_routes h \<and> gh_certs h' = gh_certs h"
    using assms(2) i(1) by (auto simp: history_record_def Let_def)
  have hr: "handed ?r = (g, t, k)" by (simp add: handed_def)
  have sub: "handed ` set (gh_ring h') \<subseteq> set (rs @ [(g, t, k)])"
    using P(4) i(4) hr unfolding ring by fastforce
  have lst: "handed (last (gh_ring h')) = (g, t, k)" unfolding ring P(3) by (rule hr)
  show ?thesis
    using i same pub sub lst P(1,2,5) assms(1) unfolding hist_inv_def ring
    by (auto split: option.splits)
qed

lemma hist_inv_pin:
  assumes "hist_inv rs h" "history_pin g h = (r, h')"
  shows "hist_inv rs h'"
proof (cases "gh_pinned h = None \<and> find (\<lambda>r. gr_generation r = g) (gh_ring h) \<noteq> None")
  case True
  then obtain x where x: "find (\<lambda>r. gr_generation r = g) (gh_ring h) = Some x" by blast
  then have x': "x \<in> set (gh_ring h)" "gr_generation x = g" by (auto simp: find_Some_iff)
  then have "(g, gr_table x, gr_keys x) \<in> set rs"
    using assms(1) by (auto simp: hist_inv_def handed_def)
  moreover have "\<not> gh_poisoned h" using assms(1) by (simp add: hist_inv_def)
  ultimately show ?thesis
    using assms True x by (auto simp: history_pin_def hist_inv_def Let_def dest!: mark_published_handed)
next
  case False
  then have "h' = h" using assms(2) by (auto simp: history_pin_def split: if_splits option.splits)
  with assms(1) show ?thesis by simp
qed

lemma hist_inv_unpin:
  assumes "hist_inv rs h" "history_unpin h = (r, h')"
  shows "hist_inv rs h'"
proof (cases "gh_pinned h")
  case None
  then have "h' = h" using assms(2) by (auto simp: history_unpin_def split: if_splits)
  with assms(1) show ?thesis by simp
next
  case (Some g)
  then have rs: "rs \<noteq> []" using assms(1) by (auto simp: hist_inv_def)
  then have ring: "gh_ring h \<noteq> []" "handed (last (gh_ring h)) = last rs"
    using assms(1) by (auto simp: hist_inv_def)
  then have "snd (last rs) = (gr_table (last (gh_ring h)), gr_keys (last (gh_ring h)))"
    by (metis handed_def snd_conv)
  with assms Some ring rs show ?thesis
    by (auto simp: history_unpin_def hist_inv_def Let_def split: if_splits dest!: mark_published_handed)
qed

lemma hist_run_inv: "hist_run rs h \<Longrightarrow> hist_inv rs h"
proof (induction rule: hist_run.induct)
  case (start routes certs capacity)
  show ?case by (simp add: hist_inv_def history_new_def)
next
  case (notify rs h sender)
  then show ?case
    by (cases "gh_sender h = None") (auto simp: history_notify_def hist_inv_def split: option.splits)
qed (auto intro: hist_inv_recorded hist_inv_pin hist_inv_unpin)


section \<open>Properties\<close>

text \<open>The applier handing over a batch of generations while the admin listener is idle.\<close>

fun record_all ::
  "(u64 \<times> 'r route_table \<times> 'k cert_keys) list \<Rightarrow> ('r, 'k, unit) history \<Rightarrow> ('r, 'k, unit) history" where
  "record_all [] h = h"
| "record_all ((g, t, k) # gs) h = record_all gs (snd (history_record 0 g 0 () t k h))"

lemma record_all_run: "hist_run rs h \<Longrightarrow> hist_run (rs @ gs) (record_all gs h)"
proof (induction gs arbitrary: rs h)
  case (Cons x gs)
  obtain g t k where x: "x = (g, t, k)" by (cases x)
  have "hist_run (rs @ [(g, t, k)]) (snd (history_record 0 g 0 () t k h))"
    by (rule hist_run.recorded[OF Cons.prems]) (simp add: prod_eq_iff)
  from Cons.IH[OF this] x show ?case by simp
qed simp

lemma record_all_pinned:
  assumes "gh_pinned h = Some g" "\<not> gh_poisoned h"
  shows "gh_pinned (record_all gs h) = Some g \<and> gh_routes (record_all gs h) = gh_routes h
    \<and> gh_certs (record_all gs h) = gh_certs h \<and> \<not> gh_poisoned (record_all gs h)
    \<and> gh_capacity (record_all gs h) = gh_capacity h"
  using assms
proof (induction gs h rule: record_all.induct)
  case (2 g' t k gs h)
  then show ?case by (simp add: history_record_def Let_def)
qed simp

text \<open>
  C12. What is on the wire is always accounted for. Without a pin, the published table and keys
  are those of the newest generation handed over; under a pin they are those of a generation
  that was handed over under the pinned number; and the ring holds at most its capacity, one
  record per generation number.
\<close>
theorem serving_accounted_for:
  assumes "hist_run rs h"
  shows "(case history_pinned h of
      None \<Rightarrow> rs \<noteq> [] \<longrightarrow> (gh_routes h, gh_certs h) = snd (last rs)
    | Some g \<Rightarrow> (g, gh_routes h, gh_certs h) \<in> set rs)
    \<and> length (gh_ring h) \<le> gh_capacity h \<and> distinct (map gr_generation (gh_ring h))"
  using hist_run_inv[OF assms] by (auto simp: hist_inv_def history_pinned_def split: option.split)

text \<open>
  A pin holds and a release catches up. After a successful pin nothing that is handed over
  reaches the data plane; the release publishes the newest generation handed over in the
  meantime, and reports its number.
\<close>
theorem pin_holds_then_resumes:
  assumes "hist_run rs h" "history_pin g h = (Inr (), h1)" "gs \<noteq> []"
  shows "history_pinned (record_all gs h1) = Some g
    \<and> gh_routes (record_all gs h1) = gh_routes h1 \<and> gh_certs (record_all gs h1) = gh_certs h1
    \<and> fst (history_unpin (record_all gs h1)) = Some (fst (last gs))
    \<and> (gh_routes (snd (history_unpin (record_all gs h1))), gh_certs (snd (history_unpin (record_all gs h1))))
        = snd (last gs)
    \<and> history_pinned (snd (history_unpin (record_all gs h1))) = None"
proof -
  have r1: "hist_run rs h1" by (rule hist_run.pin[OF assms(1,2)])
  have p1: "gh_pinned h1 = Some g" "\<not> gh_poisoned h1"
    using assms(2) hist_run_inv[OF assms(1)]
    by (auto simp: history_pin_def hist_inv_def Let_def split: option.splits if_splits)
  note R = record_all_pinned[OF p1, of gs]
  let ?h = "record_all gs h1"
  have run: "hist_run (rs @ gs) ?h" by (rule record_all_run[OF r1])
  have inv: "gh_ring ?h \<noteq> []" "handed (last (gh_ring ?h)) = last gs"
    using hist_run_inv[OF run] assms(3) by (auto simp: hist_inv_def)
  then have "fst (last gs) = gr_generation (last (gh_ring ?h))"
    "snd (last gs) = (gr_table (last (gh_ring ?h)), gr_keys (last (gh_ring ?h)))"
    by (metis handed_def fst_conv, metis handed_def snd_conv)
  with R inv show ?thesis by (simp add: history_pinned_def history_unpin_def Let_def)
qed

lemma record_all_snoc: "record_all (gs @ [(g, t, k)]) h = snd (history_record 0 g 0 () t k (record_all gs h))"
  by (induction gs h rule: record_all.induct) simp_all

text \<open>The last generations handed over are at the end of the ring.\<close>

lemma record_all_ring:
  assumes "\<not> gh_poisoned h" "length gs \<le> gh_capacity h" "distinct (map fst gs)"
  shows "\<exists>pre. map gr_generation (gh_ring (record_all gs h)) = pre @ map fst gs
    \<and> \<not> gh_poisoned (record_all gs h) \<and> gh_capacity (record_all gs h) = gh_capacity h"
  using assms(2,3)
proof (induction gs rule: rev_induct)
  case (snoc x gs)
  obtain g t k where x: "x = (g, t, k)" by (cases x)
  let ?h = "record_all gs h"
  obtain pre where pre: "map gr_generation (gh_ring ?h) = pre @ map fst gs" and ok: "\<not> gh_poisoned ?h"
    "gh_capacity ?h = gh_capacity h"
    using snoc by auto
  let ?xs = "filter (\<lambda>held. gr_generation held \<noteq> g) (gh_ring ?h)"
  let ?pre = "filter (\<lambda>y. y \<noteq> g) pre"
  have "map gr_generation ?xs = filter (\<lambda>y. y \<noteq> g) (map gr_generation (gh_ring ?h))"
    by (simp add: filter_map comp_def)
  moreover have "filter (\<lambda>y. y \<noteq> g) (map fst gs) = map fst gs"
    using snoc.prems(2) x by (auto simp: filter_id_conv)
  ultimately have xs: "map gr_generation ?xs = ?pre @ map fst gs" using pre by simp
  have ring: "map gr_generation (gh_ring (record_all (gs @ [x]) h)) =
      drop (length ?xs + 1 - gh_capacity h) (map gr_generation ?xs @ [g])"
    using ok unfolding x record_all_snoc
    by (simp add: history_record_def Let_def ring_push_def evict_drop drop_map[symmetric])
  have "length ?xs + 1 - gh_capacity h \<le> length ?pre"
    using arg_cong[OF xs, of length] snoc.prems(1) by simp
  then have "drop (length ?xs + 1 - gh_capacity h) (map gr_generation ?xs @ [g]) =
      drop (length ?xs + 1 - gh_capacity h) ?pre @ map fst (gs @ [x])"
    unfolding xs x by simp
  moreover have "\<not> gh_poisoned (record_all (gs @ [x]) h)" "gh_capacity (record_all (gs @ [x]) h) = gh_capacity h"
    using ok unfolding x record_all_snoc by (simp_all add: history_record_def Let_def)
  ultimately show ?case using ring by auto
qed (use assms(1) in simp)

text \<open>
  A pinned generation is not kept in the ring: once as many other generations as the ring
  holds have been handed over, it is evicted like any other, and after the release it can no
  longer be pinned again.
\<close>
theorem pinned_generation_evicted:
  assumes "hist_run rs h" "history_pin g h = (Inr (), h1)" "length gs = gh_capacity h"
    "distinct (map fst gs)" "g \<notin> set (map fst gs)"
  shows "g \<notin> set (map gr_generation (gh_ring (record_all gs h1)))
    \<and> fst (history_pin g (snd (history_unpin (record_all gs h1)))) = Inl (Unknown g)"
proof -
  have p1: "gh_pinned h1 = Some g" "\<not> gh_poisoned h1" "gh_capacity h1 = gh_capacity h"
    using assms(2) hist_run_inv[OF assms(1)]
    by (auto simp: history_pin_def hist_inv_def Let_def split: option.splits if_splits)
  have r: "hist_run rs h1" by (rule hist_run.pin[OF assms(1,2)])
  have len: "length gs \<le> gh_capacity h1" using assms(3) p1(3) by simp
  obtain pre where pre: "map gr_generation (gh_ring (record_all gs h1)) = pre @ map fst gs"
    using record_all_ring[OF p1(2) len assms(4)] by blast
  have "length (gh_ring (record_all gs h1)) \<le> gh_capacity h1"
    using hist_run_inv[OF record_all_run[OF r, of gs]] record_all_pinned[OF p1(1,2), of gs]
    by (simp add: hist_inv_def)
  then have "pre = []" using arg_cong[OF pre, of length] assms(3) p1(3) by simp
  then have gone: "g \<notin> set (map gr_generation (gh_ring (record_all gs h1)))" using pre assms(5) by simp
  let ?u = "snd (history_unpin (record_all gs h1))"
  have "map gr_generation (gh_ring ?u) = map gr_generation (gh_ring (record_all gs h1))"
    "gh_pinned ?u = None" "\<not> gh_poisoned ?u"
    using record_all_pinned[OF p1(1,2), of gs] by (simp_all add: history_unpin_def Let_def)
  moreover from this(1) gone have "find (\<lambda>r. gr_generation r = g) (gh_ring ?u) = None"
    unfolding find_None_iff by (metis image_eqI set_map)
  ultimately show ?thesis using gone by (simp add: history_pin_def)
qed

text \<open>
  Publication is not seamless for a rotated certificate. When a generation replaces the
  key behind a name by one with another id, a handshake that has loaded the old table finds no
  key between the two stores, and none either when it looks after both, although the name
  resolves before the publication and after it.
\<close>
theorem rotation_gap:
  assumes "sni_resolve (rt_tls (gh_routes h)) name = Some i" "cert_get (gh_certs h) i = Some old"
    "resolve_name table keys name = Some new" "cert_get keys i = None"
  shows "resolve_name (gh_routes h) (gh_certs h) name = Some old
    \<and> resolve_name (gh_routes (store_certs keys h)) (gh_certs (store_certs keys h)) name = None
    \<and> resolve_name (gh_routes h) (gh_certs (history_apply keys table h)) name = None
    \<and> resolve_name (gh_routes (history_apply keys table h)) (gh_certs (history_apply keys table h)) name
        = Some new"
  using assms by (simp add: resolve_name_def store_certs_def cert_publish_def)

definition rotated_table :: "nat route_table" where
  "rotated_table =
     sample_table\<lparr> rt_tls := \<lparr> sni_exact = [(''shop.example.com'', 9)], sni_wildcard = [], sni_default = None \<rparr>,
                   rt_generation := 4 \<rparr>"

definition sample_history :: "(nat, string, unit) history" where
  "sample_history = record_all [(3, sample_table, [(7, ''old''), (8, ''wild''), (1, ''default'')])]
     (history_new sample_table [] 2)"

lemma sample_history_run:
  "hist_run [(3, sample_table, [(7, ''old''), (8, ''wild''), (1, ''default'')])] sample_history"
  using record_all_run[OF hist_run.start[of sample_table "[]" 2], of "[(3, sample_table, [(7, ''old''), (8, ''wild''), (1, ''default'')])]"]
  by (simp add: sample_history_def)

lemma sample_sni: "sni_resolve (rt_tls sample_table) ''shop.example.com'' = Some 7"
  "sni_resolve (rt_tls rotated_table) ''shop.example.com'' = Some 9"
proof -
  have "scan ''shop.example.com'' = Clean ''shop.example.com''" by code_simp
  then show "sni_resolve (rt_tls sample_table) ''shop.example.com'' = Some 7"
    "sni_resolve (rt_tls rotated_table) ''shop.example.com'' = Some 9"
    by (simp_all add: sni_resolve_def sni_resolve_normalized_def sample_table_def rotated_table_def)
qed

lemma sample_history_state:
  "gh_routes sample_history = sample_table" "gh_pinned sample_history = None" "\<not> gh_poisoned sample_history"
  "gh_certs sample_history = [(7, ''old''), (8, ''wild''), (1, ''default'')]"
  "gh_capacity sample_history = 2" "map gr_generation (gh_ring sample_history) = [3]"
  by (simp_all add: sample_history_def history_record_def history_new_def ring_push_def)

theorem rotation_gap_witness:
  "resolve_name (gh_routes (store_certs [(9, ''new'')] sample_history))
     (gh_certs (store_certs [(9, ''new'')] sample_history)) ''shop.example.com'' = None"
  using rotation_gap[of sample_history "''shop.example.com''" 7 "''old''" rotated_table "[(9, ''new'')]" "''new''"]
  by (simp add: sample_history_state sample_sni cert_get_def resolve_name_def)

lemma sample_pin:
  "fst (history_pin 3 sample_history) = Inr ()"
  using sample_history_state(2,3,6)
  by (auto simp: history_pin_def Let_def find_None_iff split: option.split)

theorem serving_accounted_for_witness: "gh_routes sample_history = sample_table"
  using serving_accounted_for[OF sample_history_run] by (simp add: history_pinned_def sample_history_state)

theorem pin_holds_then_resumes_witness:
  "fst (history_unpin (record_all [(4, rotated_table, [])] (snd (history_pin 3 sample_history)))) = Some 4"
proof -
  have "history_pin 3 sample_history = (Inr (), snd (history_pin 3 sample_history))"
    using sample_pin by (simp add: prod_eq_iff)
  from pin_holds_then_resumes[OF sample_history_run this, of "[(4, rotated_table, [])]"]
  show ?thesis by simp
qed

theorem pinned_generation_evicted_witness:
  "fst (history_pin 3 (snd (history_unpin
     (record_all [(4, rotated_table, []), (5, rotated_table, [])] (snd (history_pin 3 sample_history))))))
   = Inl (Unknown 3)"
proof -
  have "history_pin 3 sample_history = (Inr (), snd (history_pin 3 sample_history))"
    using sample_pin by (simp add: prod_eq_iff)
  from pinned_generation_evicted[OF sample_history_run this, of "[(4, rotated_table, []), (5, rotated_table, [])]"]
  show ?thesis by (simp add: sample_history_state)
qed

end
