(* ===== verification/Promotion.thy ===== *)
theory Promotion
  imports Cluster History
begin

text \<open>
  \<open>crates/ramjet-ingressd/src/promotion.rs\<close>: automatic canary promotion, with the report
  functions of \<open>RouteTotals\<close>. A point in time is a number of nanoseconds. What a pass reads
  from outside (the table and counters each evaluation loads, and the answer of each patch)
  is its environment; the patches sent and the audit records are logs of the state. Adding an
  interval to an \<open>Instant\<close> panics past the range of its 64-bit seconds: a pass that panics
  is \<open>None\<close>. The sums of counters wrap, as in a release build.
\<close>

section \<open>Definitions\<close>

subsection \<open>Reading the totals\<close>

definition upstream_latency_ms :: "route_counters \<Rightarrow> f64" where
  "upstream_latency_ms t = f64_div (f64_of_u64 (rc_latency_micros t)) (Fin False 1000)"

definition error_percent :: "route_counters \<Rightarrow> f64 option" where
  "error_percent t =
     (if rc_requests t > 0
      then Some (f64_div (f64_mul (f64_of_u64 (rc_errors_5xx t)) (Fin False 100)) (f64_of_u64 (rc_requests t)))
      else None)"

definition avg_latency_ms :: "route_counters \<Rightarrow> f64 option" where
  "avg_latency_ms t =
     (if rc_latency_count t > 0
      then Some (f64_div (upstream_latency_ms t) (f64_of_u64 (rc_latency_count t)))
      else None)"

subsection \<open>The decision\<close>

record window =
  wn_canary :: route_counters
  wn_stable :: route_counters

datatype verdict = Hold (low_canary: u64) (low_stable: u64) | Step u32 | Promote | RollBack string

definition error_gate :: "promotion_annotations \<Rightarrow> window \<Rightarrow> string option" where
  "error_gate p w =
     (case error_percent (wn_canary w) of
        None \<Rightarrow> None
      | Some percent \<Rightarrow>
          if f64_lt (pa_max_5xx_percent p) percent
          then Some (''5xx '' @ format_fixed 2 percent @ ''% over '' @ format_fixed 2 (pa_max_5xx_percent p) @ ''%'')
          else None)"

definition latency_gate :: "promotion_annotations \<Rightarrow> window \<Rightarrow> string option" where
  "latency_gate p w =
     (case (avg_latency_ms (wn_canary w), avg_latency_ms (wn_stable w)) of
        (Some canary_ms, Some stable_ms) \<Rightarrow>
          (let ceiling = f64_mul stable_ms (pa_max_latency_factor p)
           in if f64_lt ceiling canary_ms
              then Some (''latency '' @ format_fixed 1 canary_ms @ ''ms over '' @ format_fixed 1 ceiling
                     @ ''ms ('' @ format_fixed 1 stable_ms @ ''ms x ''
                     @ format_fixed 2 (pa_max_latency_factor p) @ '')'')
              else None)
      | _ \<Rightarrow> None)"

definition promote_decide :: "promotion_annotations \<Rightarrow> u32 \<Rightarrow> window \<Rightarrow> verdict" where
  "promote_decide p weight w =
     (if rc_requests (wn_canary w) < pa_min_requests p \<or> rc_requests (wn_stable w) < pa_min_requests p
      then Hold (rc_requests (wn_canary w)) (rc_requests (wn_stable w))
      else case error_gate p w of
             Some reason \<Rightarrow> RollBack reason
           | None \<Rightarrow>
               (case latency_gate p w of
                  Some reason \<Rightarrow> RollBack reason
                | None \<Rightarrow>
                    (case next_step p weight of
                       Some to \<Rightarrow> Step to
                     | None \<Rightarrow> Promote)))"

definition is_finished :: "promotion_annotations \<Rightarrow> bool" where
  "is_finished p \<longleftrightarrow> rolled_back p \<or> pa_status p = Some STATUS_PROMOTED"

subsection \<open>Targets and readings\<close>

fun host_matches :: "route_host \<Rightarrow> string \<Rightarrow> bool" where
  "host_matches (RExact name) wanted = (wanted = name)"
| "host_matches (RWildcard parent) wanted = (strip_prefix ''*.'' wanted = Some parent)"
| "host_matches RCatchAll wanted = (wanted = ''*'')"

record baseline =
  bl_totals :: route_counters
  bl_canary :: route_counters

definition baseline_default :: baseline where
  "baseline_default = \<lparr> bl_totals = counters_default, bl_canary = counters_default \<rparr>"

definition baseline_stable :: "baseline \<Rightarrow> route_counters" where
  "baseline_stable b = totals_saturating_sub (bl_totals b) (bl_canary b)"

definition add_totals :: "route_counters \<Rightarrow> route_counters \<Rightarrow> route_counters" where
  "add_totals a b =
     \<lparr> rc_requests = rc_requests a + rc_requests b,
       rc_errors_5xx = rc_errors_5xx a + rc_errors_5xx b,
       rc_latency_micros = rc_latency_micros a + rc_latency_micros b,
       rc_latency_count = rc_latency_count a + rc_latency_count b \<rparr>"

definition route_wanted :: "promotion_route list \<Rightarrow> route_host \<Rightarrow> 'r path_rule \<Rightarrow> bool" where
  "route_wanted routes host rule =
     list_ex (\<lambda>wanted. host_matches host (pt_host wanted) \<and> pt_path wanted = pr_path rule
                \<and> pt_path_type wanted = pr_path_type rule) routes"

fun read_loop ::
  "promotion_route list \<Rightarrow> route_stats \<Rightarrow> route_slot list \<Rightarrow> (route_host \<times> 'r path_rule) list
   \<Rightarrow> baseline \<Rightarrow> bool \<Rightarrow> baseline option" where
  "read_loop routes st slots [] reading found = (if found then Some reading else None)"
| "read_loop routes st slots ((host, rule) # rest) reading found =
     (if \<not> route_wanted routes host rule then read_loop routes st slots rest reading found
      else case route_stats_slot st (pr_stats_index rule) of
             None \<Rightarrow> read_loop routes st slots rest reading found
           | Some a \<Rightarrow>
               read_loop routes st slots rest
                 \<lparr> bl_totals = add_totals (bl_totals reading) (route_totals (slots ! a)),
                   bl_canary = add_totals (bl_canary reading) (route_canary_totals (slots ! a)) \<rparr> True)"

definition read_counters ::
  "'r route_table \<Rightarrow> route_slot list \<Rightarrow> promotion_route list \<Rightarrow> baseline option" where
  "read_counters table slots routes =
     read_loop routes (rt_routes table) slots (table_routes table) baseline_default False"

subsection \<open>The promoter\<close>

definition IDLE_POLL :: nat where
  "IDLE_POLL = 30 * 10 ^ 9"

definition MIN_TICK :: nat where
  "MIN_TICK = 10 ^ 9"

datatype audit_reason = ConfigApplied | ConfigPinned | ConfigResumed
  | CanaryStepped | CanaryPromoted | CanaryRolledBack

record canary_decision =
  cd_ingress :: string
  cd_subject :: "(string \<times> string \<times> string) option"
  cd_from_weight :: u32
  cd_to_weight :: u32
  cd_detail :: string
  cd_canary_requests :: u64
  cd_canary_5xx_percent :: f64
  cd_canary_latency_ms :: f64
  cd_stable_requests :: u64
  cd_stable_5xx_percent :: f64
  cd_stable_latency_ms :: f64

record promoter =
  pm_baselines :: "object_key \<Rightarrow> baseline option"
  pm_due :: "object_key \<Rightarrow> nat option"
  pm_finished :: "object_key set"
  pm_pinned_reported :: bool
  pm_patches :: "(object_key \<times> (string \<times> string) list) list"
  pm_audit :: "(audit_reason \<times> canary_decision) list"

definition promoter_new :: promoter where
  "promoter_new =
     \<lparr> pm_baselines = Map.empty, pm_due = Map.empty, pm_finished = {}, pm_pinned_reported = False,
       pm_patches = [], pm_audit = [] \<rparr>"

text \<open>What an evaluation finds outside: the loaded table and counters, the patch's answer.\<close>

record 'r eval_env =
  ev_table :: "'r route_table"
  ev_slots :: "route_slot list"
  ev_patch :: "string + unit"

text \<open>The patch of a verdict, with its reason, detail and resulting weight; a hold has none.\<close>

fun verdict_patch ::
  "promotion_target \<Rightarrow> verdict \<Rightarrow> (audit_reason \<times> string \<times> u32 \<times> (string \<times> string) list) option" where
  "verdict_patch t (Hold _ _) = None"
| "verdict_patch t (Step to) =
     Some (CanaryStepped,
       ''canary healthy; weight '' @ show_nat (unat (tg_weight t)) @ '' -> '' @ show_nat (unat to), to,
       [(ANNOTATION_CANARY_WEIGHT, show_nat (unat to))])"
| "verdict_patch t Promote =
     Some (CanaryPromoted,
       ''canary healthy at '' @ show_nat (unat (tg_weight t))
         @ ''%, the last step; swap the production backend when ready'', tg_weight t,
       [(ANNOTATION_AUTO_PROMOTE_STATUS, STATUS_PROMOTED)])"
| "verdict_patch t (RollBack reason) =
     Some (CanaryRolledBack,
       ''rolled back from '' @ show_nat (unat (tg_weight t)) @ ''%: '' @ reason, 0,
       [(ANNOTATION_CANARY_WEIGHT, ''0''), (ANNOTATION_AUTO_PROMOTE, ''false''),
        (ANNOTATION_AUTO_PROMOTE_STATUS, STATUS_ROLLED_BACK @ '': '' @ reason)])"

definition verdict_ends :: "verdict \<Rightarrow> bool" where
  "verdict_ends v = (case v of Promote \<Rightarrow> True | RollBack _ \<Rightarrow> True | _ \<Rightarrow> False)"

definition promoter_apply ::
  "'r eval_env \<Rightarrow> promotion_target \<Rightarrow> window \<Rightarrow> verdict \<Rightarrow> promoter \<Rightarrow> promoter" where
  "promoter_apply env t w v s =
     (case verdict_patch t v of
        None \<Rightarrow> s
      | Some (reason, detail, to_weight, annotations) \<Rightarrow>
          (let s1 = s\<lparr> pm_patches := pm_patches s @ [(tg_ingress t, annotations)] \<rparr>
           in case ev_patch env of
                Inl _ \<Rightarrow> s1
              | Inr _ \<Rightarrow>
                  (let s2 = (if verdict_ends v
                             then s1\<lparr> pm_finished := insert (tg_ingress t) (pm_finished s1) \<rparr> else s1);
                       d = \<lparr> cd_ingress = object_key_display (tg_ingress t),
                             cd_subject = map_option (\<lambda>uid. (ok_namespace (tg_ingress t), ok_name (tg_ingress t), uid)) (tg_uid t),
                             cd_from_weight = tg_weight t, cd_to_weight = to_weight, cd_detail = detail,
                             cd_canary_requests = rc_requests (wn_canary w),
                             cd_canary_5xx_percent = opt_or (Fin False 0) (error_percent (wn_canary w)),
                             cd_canary_latency_ms = opt_or (Fin False 0) (avg_latency_ms (wn_canary w)),
                             cd_stable_requests = rc_requests (wn_stable w),
                             cd_stable_5xx_percent = opt_or (Fin False 0) (error_percent (wn_stable w)),
                             cd_stable_latency_ms = opt_or (Fin False 0) (avg_latency_ms (wn_stable w)) \<rparr>
                   in s2\<lparr> pm_audit := pm_audit s2 @ [(reason, d)] \<rparr>)))"

definition promoter_evaluate :: "'r eval_env \<Rightarrow> promotion_target \<Rightarrow> promoter \<Rightarrow> promoter" where
  "promoter_evaluate env t s =
     (case read_counters (ev_table env) (ev_slots env) (tg_routes t) of
        None \<Rightarrow> s
      | Some reading \<Rightarrow>
          (let s1 = s\<lparr> pm_baselines := (pm_baselines s)(tg_ingress t \<mapsto> reading) \<rparr>
           in case pm_baselines s (tg_ingress t) of
                None \<Rightarrow> s1
              | Some previous \<Rightarrow>
                  (let w = \<lparr> wn_canary = totals_saturating_sub (bl_canary reading) (bl_canary previous),
                             wn_stable = totals_saturating_sub (baseline_stable reading) (baseline_stable previous) \<rparr>
                   in promoter_apply env t w (promote_decide (tg_policy t) (tg_weight t) w) s1)))"

text \<open>\<open>Instant + Duration\<close>, \<open>None\<close> where it panics.\<close>

definition instant_add :: "nat \<Rightarrow> nat \<Rightarrow> nat option" where
  "instant_add now seconds =
     (if now div 10 ^ 9 + seconds < 2 ^ 63 then Some (now + seconds * 10 ^ 9) else None)"

fun pass_loop ::
  "(nat \<Rightarrow> 'r eval_env) \<Rightarrow> nat \<Rightarrow> nat \<Rightarrow> promotion_target list \<Rightarrow> nat \<Rightarrow> promoter
   \<Rightarrow> (nat \<times> promoter) option" where
  "pass_loop env i now [] next s = Some (next, s)"
| "pass_loop env i now (t # ts) next s =
     (if is_finished (tg_policy t) \<or> tg_ingress t \<in> pm_finished s
      then pass_loop env (i + 1) now ts next s
      else let deadline = opt_or now (pm_due s (tg_ingress t));
               s1 = s\<lparr> pm_due := (pm_due s)(tg_ingress t \<mapsto> deadline) \<rparr>
           in if deadline > now
              then pass_loop env (i + 1) now ts (min next (deadline - now)) s1
              else let interval = unat (pa_interval (tg_policy t))
                   in case instant_add now interval of
                        None \<Rightarrow> None
                      | Some later \<Rightarrow>
                          pass_loop env (i + 1) now ts (min next (interval * 10 ^ 9))
                            (promoter_evaluate (env i) t
                               (s1\<lparr> pm_due := (pm_due s1)(tg_ingress t \<mapsto> later) \<rparr>)))"

definition promoter_pass ::
  "(nat \<Rightarrow> 'r eval_env) \<Rightarrow> u64 option \<Rightarrow> nat \<Rightarrow> promotion_target list \<Rightarrow> promoter
   \<Rightarrow> (nat \<times> promoter) option" where
  "promoter_pass env pinned now targets s =
     (if pinned \<noteq> None then Some (IDLE_POLL, s\<lparr> pm_pinned_reported := True \<rparr>)
      else let live = tg_ingress ` set targets;
               s1 = s\<lparr> pm_pinned_reported := False,
                       pm_baselines := pm_baselines s |` live,
                       pm_due := pm_due s |` live,
                       pm_finished := pm_finished s \<inter> live \<rparr>
           in map_option (\<lambda>(next, s'). (max next MIN_TICK, s')) (pass_loop env 0 now targets IDLE_POLL s1))"


section \<open>The error gate\<close>

lemma error_percent_exact:
  assumes "unat (rc_requests t) < 2 ^ 46" "unat (rc_errors_5xx t) < 2 ^ 46" "rc_requests t > 0"
  shows "error_percent t = Some (rnd False (of_nat (100 * unat (rc_errors_5xx t)) / of_nat (unat (rc_requests t))))"
proof -
  let ?e = "unat (rc_errors_5xx t)" and ?r = "unat (rc_requests t)"
  have r: "f64_of_u64 (rc_requests t) = Fin False (of_nat ?r)"
    by (rule f64_of_u64_exact) (use assms(1) in simp)
  have e: "f64_of_u64 (rc_errors_5xx t) = Fin False (of_nat ?e)"
    by (rule f64_of_u64_exact) (use assms(2) in simp)
  have "f64_mul (Fin False (of_nat ?e)) (Fin False 100) = rnd False (of_nat (100 * ?e))"
    by (simp add: mult.commute)
  also have "\<dots> = Fin False (of_nat (100 * ?e))"
    by (rule rnd_nat) (use assms(2) in simp)
  finally have m: "f64_mul (Fin False (of_nat ?e)) (Fin False 100) = Fin False (of_nat (100 * ?e))" .
  have "0 < ?r" using assms(3) by (simp add: unat_gt_0 word_neq_0_conv)
  then have "(of_nat ?r :: rat) \<noteq> 0" by (metis of_nat_eq_0_iff less_irrefl)
  with assms(3) show ?thesis
    unfolding error_percent_def r e m by (simp only: if_True f64_div.simps if_False)  simp
qed

lemma threshold_zero:
  assumes "threshold 0 v"
  obtains t where "representable t" "\<And>x. f64_lt v x \<longleftrightarrow> f64_lt (Fin False t) x"
proof -
  obtain s t where t: "v = Fin s t" "representable t" "0 \<le> signed s t"
    using assms by (auto simp: threshold_def)
  then have "signed s t = t" by (auto simp: signed_def representable_def)
  then have "f64_lt v x \<longleftrightarrow> f64_lt (Fin False t) x" for x
    using t(1) by (cases x) (auto simp: signed_def)
  with t(2) that show thesis by blast
qed

lemma just_above_one: "representable (1 + 1 / 2 ^ 52)"
proof -
  have big: "(2 :: rat) < 2 powi 1024" using powi_2_mono[of 2 1024] by simp
  have "rnd False (1 + 1 / 2 ^ 52) = Fin False (1 + 1 / 2 ^ 52)"
  proof (rule rnd_exact[of _ "2 ^ 52 + 1" "-52"])
    show "(1 + 1 / 2 ^ 52 :: rat) = of_int (2 ^ 52 + 1) * 2 powi - 52"
      by (simp add: power_int_minus field_simps)
    show "(1 + 1 / 2 ^ 52 :: rat) < 2 powi 1024" using big by (rule order_less_trans[rotated]) simp
  qed simp_all
  then show ?thesis by (simp add: representable_def)
qed

text \<open>
  The error gate does not misfire on rounding. With fewer than \<open>2 ^ 46\<close> requests in a
  window a rollback for errors is only ever taken when the exact share of 5xx responses is over
  the configured budget, whatever budget that is; and with the default budget it is taken
  exactly when more than one request in a hundred failed.
\<close>
theorem error_gate_exact:
  assumes "unat (rc_requests (wn_canary w)) < 2 ^ 46" "unat (rc_errors_5xx (wn_canary w)) < 2 ^ 46"
    "rc_requests (wn_canary w) > 0" "pa_max_5xx_percent p = Fin False budget" "representable budget"
  shows "(error_gate p w \<noteq> None \<longrightarrow>
      budget * of_nat (unat (rc_requests (wn_canary w))) < of_nat (100 * unat (rc_errors_5xx (wn_canary w))))
    \<and> (budget = 1 \<longrightarrow> (error_gate p w \<noteq> None \<longleftrightarrow>
      unat (rc_requests (wn_canary w)) < 100 * unat (rc_errors_5xx (wn_canary w))))"
proof -
  let ?e = "unat (rc_errors_5xx (wn_canary w))" and ?r = "unat (rc_requests (wn_canary w))"
  let ?q = "of_nat (100 * ?e) / of_nat ?r :: rat"
  have r0: "0 < ?r" using assms(3) by (simp add: unat_gt_0 word_neq_0_conv)
  then have rpos: "(0 :: rat) < of_nat ?r" by (metis of_nat_0_less_iff)
  have gate: "error_gate p w \<noteq> None \<longleftrightarrow> f64_lt (Fin False budget) (rnd False ?q)"
    unfolding error_gate_def error_percent_exact[OF assms(1-3)] assms(4) by simp
  have q0: "0 \<le> ?q" by (intro divide_nonneg_nonneg of_nat_0_le_iff)
  have sound: "budget < ?q" if "error_gate p w \<noteq> None"
    using rnd_le_representable[OF assms(5) q0] that gate by (meson not_le)
  have "f64_lt (Fin False 1) (rnd False ?q)" if lt: "?r < 100 * ?e"
  proof -
    have "1 / 2 ^ 52 \<le> (1 :: rat) / of_nat ?r"
    proof (rule frac_le)
      have "(of_nat ?r :: rat) \<le> of_nat (2 ^ 46)" using assms(1) of_nat_le_iff less_imp_le by blast
      then show "(of_nat ?r :: rat) \<le> 2 ^ 52" by simp
    qed (use rpos in simp_all)
    also have "(1 :: rat) / of_nat ?r \<le> (of_nat (100 * ?e) - of_nat ?r) / of_nat ?r"
    proof (rule divide_right_mono)
      have "(of_nat (?r + 1) :: rat) \<le> of_nat (100 * ?e)"
        using lt by (simp only: of_nat_le_iff)
      then show "(1 :: rat) \<le> of_nat (100 * ?e) - of_nat ?r" unfolding of_nat_add by simp
    qed (use rpos in simp)
    also have "\<dots> = ?q - 1" using rpos by (simp only: diff_divide_distrib divide_self_if) simp
    finally have "1 + 1 / 2 ^ 52 \<le> ?q" by simp
    from rnd_ge_representable[OF just_above_one this] show ?thesis
      by (rule f64_lt_le_trans[rotated]) (simp add: signed_def)
  qed
  moreover have "budget * of_nat ?r < of_nat (100 * ?e)" if "error_gate p w \<noteq> None"
    using sound[OF that] rpos by (simp only: pos_less_divide_eq)
  moreover have "?r < 100 * ?e" if "budget = 1" "error_gate p w \<noteq> None"
    using calculation(2)[OF that(2)] that(1) by (simp only: mult_1 of_nat_less_iff)
  ultimately show ?thesis using gate by blast
qed


theorem error_gate_exact_witness:
  "error_gate promotion_default
     \<lparr> wn_canary = \<lparr> rc_requests = 1000, rc_errors_5xx = 11, rc_latency_micros = 0, rc_latency_count = 0 \<rparr>,
       wn_stable = counters_default \<rparr> \<noteq> None"
proof -
  let ?w = "\<lparr> wn_canary = \<lparr> rc_requests = 1000, rc_errors_5xx = 11, rc_latency_micros = 0, rc_latency_count = 0 \<rparr>,
    wn_stable = counters_default \<rparr>"
  have n: "unat (rc_requests (wn_canary ?w)) = 1000" "unat (rc_errors_5xx (wn_canary ?w)) = 11" by simp_all
  have "pa_max_5xx_percent promotion_default = Fin False 1"
    by (simp add: promotion_default_def DEFAULT_PROMOTE_MAX_5XX_PERCENT_def)
  from error_gate_exact[of ?w, OF _ _ _ this representable_defaults(1)] show ?thesis
    unfolding n by simp
qed

section \<open>The ladder\<close>

text \<open>
  A canary over consecutive windows when every patch takes effect before the next window: the
  verdicts, from its current weight.
\<close>

fun verdicts :: "promotion_annotations \<Rightarrow> u32 \<Rightarrow> window list \<Rightarrow> verdict list" where
  "verdicts p weight [] = []"
| "verdicts p weight (w # ws) =
     (case promote_decide p weight w of
        Hold a b \<Rightarrow> Hold a b # verdicts p weight ws
      | Step to \<Rightarrow> Step to # verdicts p to ws
      | Promote \<Rightarrow> [Promote]
      | RollBack reason \<Rightarrow> [RollBack reason])"

definition healthy :: "promotion_annotations \<Rightarrow> window \<Rightarrow> bool" where
  "healthy p w \<longleftrightarrow>
     pa_min_requests p \<le> rc_requests (wn_canary w) \<and> pa_min_requests p \<le> rc_requests (wn_stable w)
     \<and> error_gate p w = None \<and> latency_gate p w = None"

lemma healthy_decide:
  "healthy p w \<Longrightarrow> promote_decide p weight w = (case next_step p weight of Some to \<Rightarrow> Step to | None \<Rightarrow> Promote)"
  by (auto simp: healthy_def promote_decide_def not_less split: option.split)

lemma steps_above_next:
  assumes "sorted_wrt (<) xs"
  shows "filter (\<lambda>x. x > (w :: u32)) xs =
    (case find (\<lambda>x. x > w) xs of None \<Rightarrow> [] | Some to \<Rightarrow> to # filter (\<lambda>x. x > to) xs)"
  using assms
proof (induction xs)
  case (Cons x xs)
  show ?case
  proof (cases "x > w")
    case True
    then have "filter (\<lambda>y. y > w) xs = xs" "filter (\<lambda>y. y > x) xs = xs"
      using Cons.prems by (auto simp: filter_id_conv intro: order.strict_trans)
    with True show ?thesis by simp
  next
    case False
    have IH: "filter (\<lambda>x. x > w) xs =
        (case find (\<lambda>x. x > w) xs of None \<Rightarrow> [] | Some to \<Rightarrow> to # filter (\<lambda>x. x > to) xs)"
      using Cons by simp
    show ?thesis
    proof (cases "find (\<lambda>x. x > w) xs")
      case (Some to)
      then have "w < to" by (auto simp: find_Some_iff)
      then have "\<not> to < x" using False by auto
      with IH Some False show ?thesis by simp
    qed (use IH False in simp)
  qed
qed simp

text \<open>
  C13. A healthy canary gets there. Over windows that all pass the gates it is stepped through
  exactly the configured steps above its weight, in ascending order, one per window, and the
  next window promotes it; nothing is skipped and it never stalls.
\<close>
theorem healthy_canary_promotes:
  assumes "sorted_wrt (<) (pa_steps p)" "list_all (healthy p) ws"
    "length (filter (\<lambda>x. x > weight) (pa_steps p)) < length ws"
  shows "verdicts p weight ws = map Step (filter (\<lambda>x. x > weight) (pa_steps p)) @ [Promote]"
  using assms(2,3)
proof (induction ws arbitrary: weight)
  case (Cons w ws)
  have d: "promote_decide p weight w = (case next_step p weight of Some to \<Rightarrow> Step to | None \<Rightarrow> Promote)"
    using Cons.prems(1) by (simp add: healthy_decide)
  note A = steps_above_next[OF assms(1), of weight]
  show ?case
  proof (cases "next_step p weight")
    case None
    with d A show ?thesis by (simp add: next_step_def)
  next
    case (Some to)
    with A have f: "filter (\<lambda>x. x > weight) (pa_steps p) = to # filter (\<lambda>x. x > to) (pa_steps p)"
      by (simp add: next_step_def)
    with Cons.prems have "verdicts p to ws = map Step (filter (\<lambda>x. x > to) (pa_steps p)) @ [Promote]"
      by (intro Cons.IH) simp_all
    with d Some f show ?thesis by simp
  qed
qed simp

definition quiet_window :: window where
  "quiet_window =
     \<lparr> wn_canary = \<lparr> rc_requests = 60, rc_errors_5xx = 0, rc_latency_micros = 0, rc_latency_count = 0 \<rparr>,
       wn_stable = \<lparr> rc_requests = 60, rc_errors_5xx = 0, rc_latency_micros = 0, rc_latency_count = 0 \<rparr> \<rparr>"

lemma quiet_window_healthy: "healthy promotion_default quiet_window"
proof -
  have b: "pa_max_5xx_percent promotion_default = Fin False 1"
    by (simp add: promotion_default_def DEFAULT_PROMOTE_MAX_5XX_PERCENT_def)
  have n: "unat (rc_requests (wn_canary quiet_window)) = 60" "unat (rc_errors_5xx (wn_canary quiet_window)) = 0"
    by (simp_all add: quiet_window_def)
  have "rc_requests (wn_canary quiet_window) > 0" by (simp add: quiet_window_def)
  from error_gate_exact[of quiet_window, OF _ _ this b representable_defaults(1)]
  have "error_gate promotion_default quiet_window = None" unfolding n by auto
  then show ?thesis
    by (simp add: healthy_def latency_gate_def avg_latency_ms_def quiet_window_def promotion_default_def
        DEFAULT_PROMOTE_MIN_REQUESTS_def)
qed

theorem healthy_canary_promotes_witness:
  "verdicts promotion_default 25 (replicate 3 quiet_window) = [Step 50, Step 100, Promote]"
proof -
  have s: "pa_steps promotion_default = [5, 10, 25, 50, 100]"
    by (simp add: promotion_default_def DEFAULT_PROMOTE_STEPS_def)
  have "sorted_wrt (<) (pa_steps promotion_default)" "length (filter (\<lambda>x. x > 25) (pa_steps promotion_default)) < 3"
    by (simp_all add: s)
  then have "verdicts promotion_default 25 (replicate 3 quiet_window) =
      map Step (filter (\<lambda>x. x > 25) (pa_steps promotion_default)) @ [Promote]"
    by (intro healthy_canary_promotes) (simp_all add: list_all_iff quiet_window_healthy)
  then show ?thesis by (simp add: s)
qed


section \<open>What a patch does to the Ingress\<close>

text \<open>
  \<open>annotation_patch\<close> of \<open>crates/ramjet-controller/src/annotate.rs\<close>: the named keys, a later
  pair winning. The API server merges it into the object: the keys it names are set, the rest
  is kept.
\<close>

definition annotation_patch :: "(string \<times> string) list \<Rightarrow> annotations" where
  "annotation_patch kvs = map_of (rev kvs)"

lemma gate_reason_visible:
  "error_gate p w = Some r \<Longrightarrow> r \<noteq> [] \<and> visible (last r)"
  "latency_gate p w = Some r \<Longrightarrow> r \<noteq> [] \<and> visible (last r)"
  by (auto simp: error_gate_def latency_gate_def Let_def visible_def split: option.splits if_splits)

lemma decide_reason_visible:
  "promote_decide p weight w = RollBack r \<Longrightarrow> r \<noteq> [] \<and> visible (last r)"
  by (auto simp: promote_decide_def dest: gate_reason_visible split: if_splits option.splits)

lemma parse_u32_show: "parse_u32 (show_nat (unat (n :: u32))) = Some n"
proof -
  have "unat n < 2 ^ 32" using unsigned_less[of n] by simp
  from parse_unsigned_show_nat[OF this] show ?thesis by (simp add: parse_u32_def)
qed

lemma canary_weight_of:
  "m ANNOTATION_CANARY_WEIGHT = Some (show_nat (unat n)) \<Longrightarrow> ca_weight (canary_parse m) = n"
  by (simp add: canary_parse_def canary_number_def parse_u32_show split: prod.split)

lemma canary_weight_cong:
  "m ANNOTATION_CANARY_WEIGHT = m' ANNOTATION_CANARY_WEIGHT \<Longrightarrow> ca_weight (canary_parse m) = ca_weight (canary_parse m')"
  by (simp add: canary_parse_def canary_number_def split: prod.split)

lemma with_annotation_keeps:
  assumes "\<And>v p. pa_status (put v p) = pa_status p" "\<And>v p. pa_enabled (put v p) = pa_enabled p"
  shows "pa_status (with_annotation m key parse put p) = pa_status p"
    "pa_enabled (with_annotation m key parse put p) = pa_enabled p"
  using assms by (simp_all add: with_annotation_def split: option.split)

lemma promotion_parse_status: "pa_status (promotion_parse m) = get_trimmed m ANNOTATION_AUTO_PROMOTE_STATUS"
  and promotion_parse_enabled: "pa_enabled (promotion_parse m) =
    (case get_trimmed m ANNOTATION_AUTO_PROMOTE of None \<Rightarrow> False | Some v \<Rightarrow> is_true v)"
  by (simp_all add: promotion_parse_def Let_def with_annotation_keeps)

lemma trim_words: "trim ''promoted'' = ''promoted''" "trim ''false'' = ''false''"
  by (rule trim_visible; simp add: visible_def)+

lemma trim_rolled_back:
  "r \<noteq> [] \<Longrightarrow> visible (last r) \<Longrightarrow> trim (STATUS_ROLLED_BACK @ '': '' @ r) = STATUS_ROLLED_BACK @ '': '' @ r"
  by (rule trim_visible) (simp_all add: STATUS_ROLLED_BACK_def visible_def)

text \<open>
  What a verdict writes is what the controller reads back. After the patch of a step the
  canary weight parses to the step; after that of a rollback it is 0, promotion is disarmed and
  the status says rolled back; after that of a promotion the weight is as it was. The two final
  verdicts leave an Ingress that the loop refuses from then on, also after a restart, and no
  annotation but the ones named is touched.
\<close>
theorem verdict_patch_effect:
  assumes "v = promote_decide (tg_policy t) (tg_weight t) w"
    "verdict_patch t v = Some (reason, detail, weight, kvs)" "m' = m ++ annotation_patch kvs"
  shows "ca_weight (canary_parse m') = (case v of Step to \<Rightarrow> to | RollBack _ \<Rightarrow> 0 | _ \<Rightarrow> ca_weight (canary_parse m))
    \<and> (verdict_ends v \<longrightarrow> is_finished (promotion_parse m'))
    \<and> (verdict_ends v \<longrightarrow> v \<noteq> Promote \<longrightarrow>
         weight = 0 \<and> rolled_back (promotion_parse m') \<and> \<not> pa_enabled (promotion_parse m'))
    \<and> (\<forall>key. key \<notin> {ANNOTATION_CANARY_WEIGHT, ANNOTATION_AUTO_PROMOTE, ANNOTATION_AUTO_PROMOTE_STATUS}
         \<longrightarrow> m' key = m key)"
proof (cases v)
  case (Hold a b)
  then show ?thesis using assms(2) by simp
next
  case (Step to)
  then have "m' = m(ANNOTATION_CANARY_WEIGHT \<mapsto> show_nat (unat to))"
    using assms(2,3) by (auto simp: annotation_patch_def)
  with Step show ?thesis by (simp add: canary_weight_of verdict_ends_def)
next
  case Promote
  then have m': "m' = m(ANNOTATION_AUTO_PROMOTE_STATUS \<mapsto> ''promoted'')"
    using assms(2,3) by (auto simp: annotation_patch_def STATUS_PROMOTED_def)
  then have "pa_status (promotion_parse m') = Some ''promoted''"
    by (simp add: promotion_parse_status get_trimmed_def trim_words)
  then have "is_finished (promotion_parse m')" by (simp add: is_finished_def STATUS_PROMOTED_def)
  moreover have "ca_weight (canary_parse m') = ca_weight (canary_parse m)"
    by (rule canary_weight_cong) (simp add: m' annotation_keys)
  ultimately show ?thesis using Promote m' by simp
next
  case (RollBack r)
  have vis: "r \<noteq> []" "visible (last r)" using decide_reason_visible assms(1) RollBack by metis+
  have m': "m' = m(ANNOTATION_AUTO_PROMOTE_STATUS \<mapsto> STATUS_ROLLED_BACK @ '': '' @ r,
      ANNOTATION_AUTO_PROMOTE \<mapsto> ''false'', ANNOTATION_CANARY_WEIGHT \<mapsto> ''0'')"
    using assms(2,3) RollBack by (auto simp: annotation_patch_def annotation_keys)
  have "show_nat (unat (0 :: u32)) = ''0''" by code_simp
  then have "ca_weight (canary_parse m') = 0" by (intro canary_weight_of) (simp add: m')
  moreover have st: "pa_status (promotion_parse m') = Some (STATUS_ROLLED_BACK @ '': '' @ r)"
    using trim_rolled_back[OF vis]
    by (simp add: promotion_parse_status get_trimmed_def m' annotation_keys Let_def)
  then have "rolled_back (promotion_parse m')"
    by (simp add: rolled_back_def starts_with_def)
  moreover have "\<not> pa_enabled (promotion_parse m')"
    by (simp add: promotion_parse_enabled get_trimmed_def m' annotation_keys trim_words is_true_def
        eq_ignore_ascii_case_def to_ascii_lowercase_def is_ascii_uppercase_def lower_def)
  ultimately show ?thesis using RollBack m' assms(2) by (auto simp: is_finished_def)
qed


definition sample_target :: promotion_target where
  "sample_target = \<lparr> tg_ingress = \<lparr> ok_namespace = ''shop'', ok_name = ''web'' \<rparr>, tg_uid = None, tg_routes = [],
     tg_weight = 25, tg_policy = promotion_default \<rparr>"

theorem verdict_patch_effect_witness:
  "ca_weight (canary_parse (Map.empty ++ annotation_patch [(ANNOTATION_CANARY_WEIGHT, ''50'')])) = 50"
proof -
  have "next_step promotion_default 25 = Some 50"
    by (simp add: next_step_def promotion_default_def DEFAULT_PROMOTE_STEPS_def)
  then have v: "promote_decide (tg_policy sample_target) (tg_weight sample_target) quiet_window = Step 50"
    using healthy_decide[OF quiet_window_healthy, of 25] by (simp add: sample_target_def)
  have "show_nat (unat (50 :: u32)) = ''50''" by code_simp
  then have "verdict_patch sample_target (Step 50) =
      Some (CanaryStepped, ''canary healthy; weight '' @ show_nat 25 @ '' -> '' @ ''50'', 50,
        [(ANNOTATION_CANARY_WEIGHT, ''50'')])"
    by (simp add: sample_target_def)
  from verdict_patch_effect[OF v[symmetric] this refl, of Map.empty] show ?thesis by simp
qed

section \<open>Passes\<close>

text \<open>What one pass may do to one canary: the fields of the state that matter to it.\<close>

lemma promoter_apply_frame:
  "pm_due (promoter_apply env t w v s) = pm_due s"
  "pm_baselines (promoter_apply env t w v s) = pm_baselines s"
  "pm_finished s \<subseteq> pm_finished (promoter_apply env t w v s)"
  "pm_finished (promoter_apply env t w v s) \<subseteq> insert (tg_ingress t) (pm_finished s)"
  by (auto simp: promoter_apply_def Let_def split: option.split sum.split prod.split)

lemma promoter_apply_patches:
  "\<exists>ps. pm_patches (promoter_apply env t w v s) = pm_patches s @ ps \<and> set (map fst ps) \<subseteq> {tg_ingress t}"
  by (auto simp: promoter_apply_def Let_def split: option.split sum.split prod.split)

lemma promoter_evaluate_frame:
  "pm_due (promoter_evaluate env t s) = pm_due s"
  "pm_finished s \<subseteq> pm_finished (promoter_evaluate env t s)"
  "pm_finished (promoter_evaluate env t s) \<subseteq> insert (tg_ingress t) (pm_finished s)"
  "\<exists>ps. pm_patches (promoter_evaluate env t s) = pm_patches s @ ps \<and> set (map fst ps) \<subseteq> {tg_ingress t}"
proof -
  consider (none) "promoter_evaluate env t s = s"
    | (base) b where "promoter_evaluate env t s = s\<lparr> pm_baselines := b \<rparr>"
    | (acts) b w v where "promoter_evaluate env t s = promoter_apply env t w v (s\<lparr> pm_baselines := b \<rparr>)"
    by (cases "read_counters (ev_table env) (ev_slots env) (tg_routes t)"; cases "pm_baselines s (tg_ingress t)")
       (auto simp: promoter_evaluate_def Let_def)
  then have "pm_due (promoter_evaluate env t s) = pm_due s
    \<and> pm_finished s \<subseteq> pm_finished (promoter_evaluate env t s)
    \<and> pm_finished (promoter_evaluate env t s) \<subseteq> insert (tg_ingress t) (pm_finished s)
    \<and> (\<exists>ps. pm_patches (promoter_evaluate env t s) = pm_patches s @ ps \<and> set (map fst ps) \<subseteq> {tg_ingress t})"
  proof cases
    case (acts b w v)
    show ?thesis
      unfolding acts
      using promoter_apply_frame[where env = env and t = t and w = w and v = v and s = "s\<lparr> pm_baselines := b \<rparr>"]
        promoter_apply_patches[of env t w v "s\<lparr> pm_baselines := b \<rparr>"] by simp
  qed auto
  then show "pm_due (promoter_evaluate env t s) = pm_due s"
    "pm_finished s \<subseteq> pm_finished (promoter_evaluate env t s)"
    "pm_finished (promoter_evaluate env t s) \<subseteq> insert (tg_ingress t) (pm_finished s)"
    "\<exists>ps. pm_patches (promoter_evaluate env t s) = pm_patches s @ ps \<and> set (map fst ps) \<subseteq> {tg_ingress t}"
    by blast+
qed

text \<open>A target a pass may act on: neither finished nor waiting for its deadline.\<close>

definition may_act :: "nat \<Rightarrow> promoter \<Rightarrow> promotion_target \<Rightarrow> bool" where
  "may_act now s t \<longleftrightarrow>
     \<not> is_finished (tg_policy t) \<and> tg_ingress t \<notin> pm_finished s
     \<and> (case pm_due s (tg_ingress t) of None \<Rightarrow> True | Some d \<Rightarrow> d \<le> now)"

lemma in_enumerate: "x \<in> set (enumerate n xs) \<Longrightarrow> snd x \<in> set xs"
  by (metis imageI map_snd_enumerate set_map)

lemma may_act_cong:
  "pm_due s' (tg_ingress t) = pm_due s (tg_ingress t) \<Longrightarrow> tg_ingress t \<in> pm_finished s' \<longleftrightarrow> tg_ingress t \<in> pm_finished s
   \<Longrightarrow> may_act now s' t = may_act now s t"
  by (simp add: may_act_def)

text \<open>The patch an evaluation sends, from the counters it reads and the baseline it compares them with.\<close>

definition reading_patch :: "promotion_target \<Rightarrow> baseline \<Rightarrow> baseline \<Rightarrow> (object_key \<times> (string \<times> string) list) list" where
  "reading_patch t previous reading =
     (case verdict_patch t (promote_decide (tg_policy t) (tg_weight t)
             \<lparr> wn_canary = totals_saturating_sub (bl_canary reading) (bl_canary previous),
               wn_stable = totals_saturating_sub (baseline_stable reading) (baseline_stable previous) \<rparr>) of
        None \<Rightarrow> []
      | Some (_, _, _, changes) \<Rightarrow> [(tg_ingress t, changes)])"

definition evaluation_patch :: "'r eval_env \<Rightarrow> promotion_target \<Rightarrow> baseline option \<Rightarrow> (object_key \<times> (string \<times> string) list) list" where
  "evaluation_patch env t base =
     (case (read_counters (ev_table env) (ev_slots env) (tg_routes t), base) of
        (Some reading, Some previous) \<Rightarrow> reading_patch t previous reading
      | _ \<Rightarrow> [])"

lemma promoter_evaluate_patches:
  "pm_patches (promoter_evaluate env t s) = pm_patches s @ evaluation_patch env t (pm_baselines s (tg_ingress t))"
  by (auto simp: promoter_evaluate_def promoter_apply_def evaluation_patch_def reading_patch_def Let_def
      split: option.split sum.split prod.split)

lemma promoter_evaluate_baselines:
  "k \<noteq> tg_ingress t \<Longrightarrow> pm_baselines (promoter_evaluate env t s) k = pm_baselines s k"
  by (auto simp: promoter_evaluate_def promoter_apply_frame Let_def split: option.split)

text \<open>What a pass sends for the target at place \<open>i\<close>, by the state the pass starts from.\<close>

definition pass_patch :: "(nat \<Rightarrow> 'r eval_env) \<Rightarrow> nat \<Rightarrow> promoter \<Rightarrow> nat \<times> promotion_target \<Rightarrow> (object_key \<times> (string \<times> string) list) list" where
  "pass_patch env now s = (\<lambda>(i, t). if may_act now s t then evaluation_patch (env i) t (pm_baselines s (tg_ingress t)) else [])"

lemma pass_loop_sends:
  assumes "pass_loop env i now ts next s = Some (sleep, s')" "distinct (map tg_ingress ts)"
  shows "pm_patches s' = pm_patches s @ concat (map (pass_patch env now s) (enumerate i ts))"
  using assms
proof (induction env i now ts "next" s rule: pass_loop.induct)
  case (2 env i now t ts "next" s)
  let ?k = "tg_ingress t"
  have other: "concat (map (pass_patch env now v) (enumerate (i + 1) ts)) = concat (map (pass_patch env now s) (enumerate (i + 1) ts))"
    if same: "\<And>k. k \<noteq> ?k \<Longrightarrow> pm_due v k = pm_due s k \<and> (k \<in> pm_finished v \<longleftrightarrow> k \<in> pm_finished s) \<and> pm_baselines v k = pm_baselines s k" for v
  proof -
    have "pass_patch env now v x = pass_patch env now s x" if "x \<in> set (enumerate (i + 1) ts)" for x
    proof -
      have "tg_ingress (snd x) \<in> tg_ingress ` set ts" using in_enumerate[OF that] by (rule imageI)
      with "2.prems"(2) have "tg_ingress (snd x) \<noteq> ?k" by auto
      then show ?thesis using same may_act_cong[of v "snd x" s now] by (simp add: pass_patch_def case_prod_beta)
    qed
    then have "map (pass_patch env now v) (enumerate (i + 1) ts) = map (pass_patch env now s) (enumerate (i + 1) ts)"
      by (rule map_cong [OF refl])
    then show ?thesis by (rule arg_cong)
  qed
  have rest: "distinct (map tg_ingress ts)" using "2.prems"(2) by simp
  show ?case
  proof (cases "is_finished (tg_policy t) \<or> ?k \<in> pm_finished s")
    case True
    then have "pass_patch env now s (i, t) = []" by (auto simp: pass_patch_def may_act_def)
    then show ?thesis using "2.IH"(1)[OF True _ rest] "2.prems"(1) True by simp
  next
    case nf: False
    define deadline where "deadline = opt_or now (pm_due s ?k)"
    define s1 where "s1 = s\<lparr> pm_due := (pm_due s)(?k \<mapsto> deadline) \<rparr>"
    show ?thesis
    proof (cases "deadline > now")
      case True
      have "pass_loop env (i + 1) now ts (min next (deadline - now)) s1 = Some (sleep, s')"
        using "2.prems"(1) nf True by (simp add: Let_def deadline_def s1_def)
      note IH = "2.IH"(2)[OF nf deadline_def s1_def True this rest]
      have "pass_patch env now s (i, t) = []"
        using True by (auto simp: pass_patch_def may_act_def deadline_def opt_or_def split: option.splits)
      with IH other[of s1] show ?thesis by (simp add: s1_def)
    next
      case False
      obtain later where l: "instant_add now (unat (pa_interval (tg_policy t))) = Some later"
        using "2.prems"(1) nf False by (auto simp: Let_def deadline_def split: option.splits)
      define s2 where "s2 = s1\<lparr> pm_due := (pm_due s1)(?k \<mapsto> later) \<rparr>"
      have run: "pass_loop env (i + 1) now ts (min next (unat (pa_interval (tg_policy t)) * 10 ^ 9))
          (promoter_evaluate (env i) t s2) = Some (sleep, s')"
        using "2.prems"(1) nf False l by (simp add: Let_def deadline_def s1_def s2_def)
      note E = promoter_evaluate_frame(1-3)[where env = "env i" and t = t and s = s2]
      have act: "pass_patch env now s (i, t) = evaluation_patch (env i) t (pm_baselines s2 ?k)"
        using nf False by (auto simp: pass_patch_def may_act_def deadline_def opt_or_def s2_def s1_def split: option.splits)
      have "concat (map (pass_patch env now (promoter_evaluate (env i) t s2)) (enumerate (i + 1) ts))
          = concat (map (pass_patch env now s) (enumerate (i + 1) ts))"
        using E by (intro other) (auto simp: promoter_evaluate_baselines s2_def s1_def)
      then show ?thesis
        using "2.IH"(3)[OF nf deadline_def s1_def False refl l, folded s2_def, OF run rest] act
        by (simp add: promoter_evaluate_patches) (simp add: s2_def s1_def)
    qed
  qed
qed simp

lemma pass_loop_patches:
  assumes "pass_loop env i now ts next s = Some (sleep, s')"
    "\<And>t j base. t \<in> set ts \<Longrightarrow> may_act now s t \<Longrightarrow> set (evaluation_patch (env j) t base) \<subseteq> K"
  shows "\<exists>ps. pm_patches s' = pm_patches s @ ps \<and> set ps \<subseteq> K"
  using assms
proof (induction env i now ts "next" s rule: pass_loop.induct)
  case (2 env i now t ts "next" s)
  let ?k = "tg_ingress t"
  show ?case
  proof (cases "is_finished (tg_policy t) \<or> ?k \<in> pm_finished s")
    case True
    then show ?thesis using "2.prems" by (intro "2.IH"(1)) auto
  next
    case nf: False
    define deadline where "deadline = opt_or now (pm_due s ?k)"
    define s1 where "s1 = s\<lparr> pm_due := (pm_due s)(?k \<mapsto> deadline) \<rparr>"
    have act1: "may_act now s u" if "may_act now s1 u" for u
      using that unfolding may_act_def s1_def deadline_def
      by (auto simp: opt_or_def split: option.splits if_splits)
    show ?thesis
    proof (cases "deadline > now")
      case True
      have "pass_loop env (i + 1) now ts (min next (deadline - now)) s1 = Some (sleep, s')"
        using "2.prems"(1) nf True by (simp add: Let_def deadline_def s1_def)
      from "2.IH"(2)[OF nf deadline_def s1_def True this] "2.prems"(2) act1
      show ?thesis by (auto simp: s1_def)
    next
      case False
      obtain later where l: "instant_add now (unat (pa_interval (tg_policy t))) = Some later"
        using "2.prems"(1) nf False by (auto simp: Let_def deadline_def split: option.splits)
      define s2 where "s2 = s1\<lparr> pm_due := (pm_due s1)(?k \<mapsto> later) \<rparr>"
      have run: "pass_loop env (i + 1) now ts (min next (unat (pa_interval (tg_policy t)) * 10 ^ 9))
          (promoter_evaluate (env i) t s2) = Some (sleep, s')"
        using "2.prems"(1) nf False l by (simp add: Let_def deadline_def s1_def s2_def)
      have actable: "may_act now s t"
        using nf False by (auto simp: may_act_def deadline_def opt_or_def split: option.splits)
      have K: "set (evaluation_patch (env i) t (pm_baselines s ?k)) \<subseteq> K"
        using "2.prems"(2)[OF _ actable] by simp
      note E = promoter_evaluate_frame[where env = "env i" and t = t and s = "s2"]
      have qs: "pm_patches (promoter_evaluate (env i) t s2) = pm_patches s @ evaluation_patch (env i) t (pm_baselines s ?k)"
        by (simp add: promoter_evaluate_patches s2_def s1_def)
      have act: "may_act now s u" if "may_act now (promoter_evaluate (env i) t s2) u" for u
      proof (cases "tg_ingress u = ?k")
        case True
        with that actable show ?thesis by (simp add: may_act_def)
      qed (use that E(1,2) in \<open>auto simp: may_act_def s2_def s1_def split: if_splits option.splits\<close>)
      have "\<exists>ps. pm_patches s' = pm_patches (promoter_evaluate (env i) t s2) @ ps \<and> set ps \<subseteq> K"
      proof (rule "2.IH"(3)[OF nf deadline_def s1_def False refl l, folded s2_def, OF run])
        fix u j base assume "u \<in> set ts" "may_act now (promoter_evaluate (env i) t s2) u"
        then show "set (evaluation_patch (env j) u base) \<subseteq> K" using "2.prems"(2)[of u j base] act[of u] by auto
      qed
      with qs K show ?thesis by fastforce
    qed
  qed
qed auto


text \<open>
  C14. The loop only ever patches a canary that may be acted on: not while a rollback pin is
  held, not one whose annotations say it is finished, not one this process has already promoted
  or rolled back while it is still listed, and not one before its deadline; and what it sends is
  the patch of the verdict on some window for that canary's own policy and weight. When each target
  has its own Ingress, as collected targets do, the patches are exactly these: for each target in
  order that may be acted on and was read before, the patch of the verdict on the window between the
  counters the pass reads and the baseline it started with.
\<close>
theorem pass_patches_guarded:
  assumes "promoter_pass env pinned now targets s = Some (sleep, s')"
  shows "\<exists>ps. pm_patches s' = pm_patches s @ ps
    \<and> (pinned \<noteq> None \<longrightarrow> ps = [] \<and> pm_due s' = pm_due s \<and> pm_finished s' = pm_finished s
         \<and> pm_baselines s' = pm_baselines s)
    \<and> list_all (\<lambda>p. \<exists>t \<in> set targets. fst p = tg_ingress t \<and> may_act now s t
         \<and> (\<exists>previous reading. p \<in> set (reading_patch t previous reading))) ps
    \<and> (pinned = None \<and> distinct (map tg_ingress targets)
         \<longrightarrow> ps = concat (map (pass_patch env now s) (enumerate 0 targets)))"
proof (cases "pinned = None")
  case False
  then show ?thesis using assms by (auto simp: promoter_pass_def)
next
  case True
  let ?live = "tg_ingress ` set targets"
  let ?K = "{p. \<exists>t \<in> set targets. fst p = tg_ingress t \<and> may_act now s t \<and> (\<exists>previous reading. p \<in> set (reading_patch t previous reading))}"
  define s1 where "s1 = s\<lparr> pm_pinned_reported := False, pm_baselines := pm_baselines s |` ?live,
    pm_due := pm_due s |` ?live, pm_finished := pm_finished s \<inter> ?live \<rparr>"
  obtain nx where run: "pass_loop env 0 now targets IDLE_POLL s1 = Some (nx, s')"
    using assms True by (auto simp: promoter_pass_def Let_def s1_def)
  have live: "may_act now s1 t = may_act now s t" "pm_baselines s1 (tg_ingress t) = pm_baselines s (tg_ingress t)"
    if "t \<in> set targets" for t
    using that by (auto simp: may_act_def s1_def)
  have "set (evaluation_patch (env j) t base) \<subseteq> ?K" if "t \<in> set targets" "may_act now s t" for t j base
    using that by (auto simp: evaluation_patch_def reading_patch_def split: option.splits) force+
  then have "\<exists>ps. pm_patches s' = pm_patches s1 @ ps \<and> set ps \<subseteq> ?K"
    by (intro pass_loop_patches[OF run]) (auto simp: live)
  then obtain ps where ps: "pm_patches s' = pm_patches s @ ps" "set ps \<subseteq> ?K" by (auto simp: s1_def)
  have "map (pass_patch env now s1) (enumerate 0 targets) = map (pass_patch env now s) (enumerate 0 targets)"
    by (rule map_cong [OF refl]) (simp add: pass_patch_def live[OF in_enumerate] case_prod_beta)
  moreover have "pm_patches s1 = pm_patches s" by (simp add: s1_def)
  ultimately have "distinct (map tg_ingress targets) \<longrightarrow> ps = concat (map (pass_patch env now s) (enumerate 0 targets))"
    using pass_loop_sends[OF run] ps(1) by (metis same_append_eq)
  with ps True show ?thesis by (auto simp: list_all_iff)
qed

lemma pass_loop_sleep:
  "pass_loop env i now ts next s = Some (sleep, s') \<Longrightarrow> sleep \<le> next"
proof (induction env i now ts "next" s rule: pass_loop.induct)
  case (2 env i now t ts "next" s)
  show ?case
  proof (cases "is_finished (tg_policy t) \<or> tg_ingress t \<in> pm_finished s")
    case True
    with 2 show ?thesis by simp
  next
    case nf: False
    define deadline where "deadline = opt_or now (pm_due s (tg_ingress t))"
    show ?thesis
    proof (cases "deadline > now")
      case True
      with "2.IH"(2)[OF nf deadline_def refl True] "2.prems" nf show ?thesis
        by (simp add: Let_def deadline_def)
    next
      case False
      then obtain later where l: "instant_add now (unat (pa_interval (tg_policy t))) = Some later"
        using "2.prems" nf by (auto simp: Let_def deadline_def split: option.splits)
      with "2.IH"(3)[OF nf deadline_def refl False refl l] "2.prems" nf False show ?thesis
        by (simp add: Let_def deadline_def)
    qed
  qed
qed auto

text \<open>
  The loop neither spins nor oversleeps: however many canaries are armed and whatever
  intervals they ask for, a pass returns a sleep of at least \<open>MIN_TICK\<close> and at most
  \<open>IDLE_POLL\<close>.
\<close>
theorem pass_sleep_bounded:
  assumes "promoter_pass env pinned now targets s = Some (sleep, s')"
  shows "MIN_TICK \<le> sleep \<and> sleep \<le> IDLE_POLL"
proof -
  have m: "MIN_TICK \<le> IDLE_POLL" by (simp add: MIN_TICK_def IDLE_POLL_def)
  show ?thesis
    using assms m by (auto simp: promoter_pass_def Let_def dest: pass_loop_sleep split: if_splits)
qed

text \<open>
  An interval annotation can stop automatic promotion for every canary. \<open>parse_duration\<close>
  accepts any number of seconds a \<open>u64\<close> holds; a pass that comes to a due canary with an
  interval of \<open>2 ^ 63\<close> seconds or more panics when it adds the interval to the clock, whatever
  the other targets, the counters and the time are.
\<close>
theorem huge_interval_panics:
  assumes "2 ^ 63 \<le> unat (pa_interval (tg_policy t))" "t \<in> set targets"
    "\<not> is_finished (tg_policy t)"
    "\<forall>u \<in> set targets. tg_ingress u = tg_ingress t \<longrightarrow> u = t"
    "tg_ingress t \<notin> pm_finished s" "pm_due s (tg_ingress t) = None"
  shows "promoter_pass env None now targets s = None"
proof -
  have add: "instant_add n (unat (pa_interval (tg_policy t))) = None" for n
    using assms(1) by (simp add: instant_add_def)
  have "pass_loop env i now ts nx s1 = None"
    if "t \<in> set ts" "set ts \<subseteq> set targets" "tg_ingress t \<notin> pm_finished s1" "pm_due s1 (tg_ingress t) = None"
    for i ts nx s1
    using that
  proof (induction env i now ts nx s1 rule: pass_loop.induct)
    case (2 env i now u ts "next" s1)
    show ?case
    proof (cases "u = t")
      case True
      then show ?thesis using "2.prems" assms(3) add by (simp add: Let_def opt_or_def)
    next
      case False
      then have ne: "tg_ingress u \<noteq> tg_ingress t" and ts: "t \<in> set ts" "set ts \<subseteq> set targets"
        using assms(4) "2.prems" by auto
      let ?k = "tg_ingress u"
      show ?thesis
      proof (cases "is_finished (tg_policy u) \<or> ?k \<in> pm_finished s1")
        case True
        with "2.IH"(1)[OF True ts "2.prems"(3,4)] show ?thesis by simp
      next
        case nf: False
        define deadline where "deadline = opt_or now (pm_due s1 ?k)"
        define s2 where "s2 = s1\<lparr> pm_due := (pm_due s1)(?k \<mapsto> deadline) \<rparr>"
        have s2: "tg_ingress t \<notin> pm_finished s2" "pm_due s2 (tg_ingress t) = None"
          using "2.prems"(3,4) ne by (simp_all add: s2_def)
        show ?thesis
        proof (cases "deadline > now")
          case True
          from "2.IH"(2)[OF nf deadline_def s2_def True ts s2] nf True show ?thesis
            by (simp add: Let_def deadline_def s2_def)
        next
          case False
          show ?thesis
          proof (cases "instant_add now (unat (pa_interval (tg_policy u)))")
            case None
            with nf False show ?thesis by (simp add: Let_def deadline_def)
          next
            case (Some later)
            define s3 where "s3 = s2\<lparr> pm_due := (pm_due s2)(?k \<mapsto> later) \<rparr>"
            note E = promoter_evaluate_frame[where env = "env i" and t = u and s = s3]
            have "tg_ingress t \<notin> pm_finished (promoter_evaluate (env i) u s3)"
              "pm_due (promoter_evaluate (env i) u s3) (tg_ingress t) = None"
              using E(1,3) s2 ne by (auto simp: s3_def)
            from "2.IH"(3)[OF nf deadline_def s2_def False refl Some, folded s3_def, OF ts this]
            show ?thesis using nf False Some by (simp add: Let_def deadline_def s2_def s3_def)
          qed
        qed
      qed
    qed
  qed simp
  then show ?thesis using assms by (auto simp: promoter_pass_def Let_def restrict_map_def)
qed


definition sample_env :: "nat \<Rightarrow> nat eval_env" where
  "sample_env i = \<lparr> ev_table = sample_table, ev_slots = [], ev_patch = Inr () \<rparr>"

lemma sample_pass:
  "\<exists>s'. promoter_pass sample_env None 0 [sample_target] promoter_new = Some (IDLE_POLL, s')"
proof -
  have "read_loop [] st slots rs b False = None" for st slots and rs :: "(route_host \<times> nat path_rule) list" and b
    by (induction rs) (auto simp: route_wanted_def)
  then have r: "promoter_evaluate (sample_env i) sample_target s = s" for i s
    by (simp add: promoter_evaluate_def read_counters_def sample_target_def)
  have f: "\<not> is_finished (tg_policy sample_target)"
    by (simp add: sample_target_def is_finished_def rolled_back_def promotion_default_def)
  have i: "unat (pa_interval (tg_policy sample_target)) = 60"
    by (simp add: sample_target_def promotion_default_def DEFAULT_PROMOTE_INTERVAL_def)
  have a: "instant_add 0 60 = Some (60 * 10 ^ 9)" by (simp add: instant_add_def)
  show ?thesis
    using f i a r
    by (simp add: promoter_pass_def promoter_new_def Let_def opt_or_def IDLE_POLL_def MIN_TICK_def)
qed

text \<open>A canary that was read a window ago and has been healthy since.\<close>

definition watched_target :: promotion_target where
  "watched_target = sample_target\<lparr> tg_routes := [\<lparr> pt_host = ''shop.example.com'', pt_path = ''/foo'', pt_path_type = Exact \<rparr>] \<rparr>"

definition watched_env :: "nat \<Rightarrow> nat eval_env" where
  "watched_env i =
     \<lparr> ev_table = sample_table,
       ev_slots = [\<lparr> rs_shards = [\<lparr> rc_requests = 120, rc_errors_5xx = 0, rc_latency_micros = 0, rc_latency_count = 0 \<rparr>],
                    rs_canary_shards = [\<lparr> rc_requests = 60, rc_errors_5xx = 0, rc_latency_micros = 0, rc_latency_count = 0 \<rparr>] \<rparr>],
       ev_patch = Inr () \<rparr>"

definition watched_state :: promoter where
  "watched_state = promoter_new\<lparr> pm_baselines := [tg_ingress sample_target \<mapsto> baseline_default] \<rparr>"

lemma watched_policy:
  "\<not> is_finished (tg_policy watched_target)" "unat (pa_interval (tg_policy watched_target)) = 60"
  by (simp_all add: watched_target_def sample_target_def is_finished_def rolled_back_def promotion_default_def
      DEFAULT_PROMOTE_INTERVAL_def)

lemma watched_pass: "\<exists>sleep s'. promoter_pass watched_env None 0 [watched_target] watched_state = Some (sleep, s')"
  using watched_policy
  by (simp add: promoter_pass_def Let_def opt_or_def watched_state_def promoter_new_def instant_add_def)

lemma watched_reading:
  "read_counters sample_table (ev_slots (watched_env i)) (tg_routes watched_target)
     = Some \<lparr> bl_totals = \<lparr> rc_requests = 120, rc_errors_5xx = 0, rc_latency_micros = 0, rc_latency_count = 0 \<rparr>,
              bl_canary = \<lparr> rc_requests = 60, rc_errors_5xx = 0, rc_latency_micros = 0, rc_latency_count = 0 \<rparr> \<rparr>"
  by (simp add: read_counters_def table_routes_def virtual_hosts_def sample_table_def sample_rules_def rule_new_def
      route_wanted_def watched_target_def strip_prefix_def watched_env_def route_stats_slot_def get_at_def route_totals_def
      route_canary_totals_def baseline_default_def counters_default_def add_totals_def)

theorem pass_patches_guarded_witness:
  "\<exists>sleep s'. promoter_pass watched_env None 0 [watched_target] watched_state = Some (sleep, s')
     \<and> pm_patches s' = [(tg_ingress sample_target, [(ANNOTATION_CANARY_WEIGHT, ''50'')])]"
proof -
  obtain sleep s' where run: "promoter_pass watched_env None 0 [watched_target] watched_state = Some (sleep, s')"
    using watched_pass by blast
  have "next_step promotion_default 25 = Some 50"
    by (simp add: next_step_def promotion_default_def DEFAULT_PROMOTE_STEPS_def)
  then have v: "promote_decide (tg_policy watched_target) (tg_weight watched_target) quiet_window = Step 50"
    using healthy_decide[OF quiet_window_healthy, of 25] by (simp add: watched_target_def sample_target_def)
  have "show_nat (unat (50 :: u32)) = ''50''" by code_simp
  then have "reading_patch watched_target baseline_default
      \<lparr> bl_totals = \<lparr> rc_requests = 120, rc_errors_5xx = 0, rc_latency_micros = 0, rc_latency_count = 0 \<rparr>,
        bl_canary = \<lparr> rc_requests = 60, rc_errors_5xx = 0, rc_latency_micros = 0, rc_latency_count = 0 \<rparr> \<rparr>
      = [(tg_ingress sample_target, [(ANNOTATION_CANARY_WEIGHT, ''50'')])]"
    using v unfolding quiet_window_def
    by (simp add: reading_patch_def baseline_stable_def baseline_default_def totals_saturating_sub_def counters_default_def
        saturating_sub_def) (simp add: watched_target_def)
  moreover have "may_act 0 watched_state watched_target"
    using watched_policy by (simp add: may_act_def watched_state_def promoter_new_def)
  moreover have "tg_ingress watched_target = tg_ingress sample_target" by (simp add: watched_target_def)
  ultimately have "pass_patch watched_env 0 watched_state (0, watched_target)
      = [(tg_ingress sample_target, [(ANNOTATION_CANARY_WEIGHT, ''50'')])]"
    using watched_reading[of 0]
    by (simp add: pass_patch_def evaluation_patch_def watched_state_def) (simp add: watched_env_def)
  with pass_patches_guarded[OF run] run show ?thesis by (simp add: watched_state_def promoter_new_def)
qed

theorem pass_sleep_bounded_witness: "MIN_TICK \<le> IDLE_POLL"
proof -
  obtain s' where s': "promoter_pass sample_env None 0 [sample_target] promoter_new = Some (IDLE_POLL, s')"
    using sample_pass by blast
  from pass_sleep_bounded[OF this] show ?thesis by simp
qed

definition huge_annotations :: annotations where
  "huge_annotations = [ANNOTATION_AUTO_PROMOTE \<mapsto> ''true'', ANNOTATION_AUTO_PROMOTE_INTERVAL \<mapsto> ''9223372036854775808s'']"

lemma huge_policy:
  "unat (pa_interval (promotion_parse huge_annotations)) = 2 ^ 63" "\<not> is_finished (promotion_parse huge_annotations)"
proof -
  have t: "trim ''9223372036854775808s'' = ''9223372036854775808s''"
    "trim ''9223372036854775808'' = ''9223372036854775808''"
    by (rule trim_visible; simp add: visible_def)+
  have "parse_u64 ''9223372036854775808'' = Some 9223372036854775808"
    by (simp add: parse_u64_def parse_unsigned_def digits_val_def digit_val_def is_ascii_digit_def)
  then have d: "parse_duration ''9223372036854775808s'' = Some 9223372036854775808"
    by (simp add: parse_duration_def t saturating_mul_def)
  have "pa_interval (promotion_parse huge_annotations) = 9223372036854775808"
    by (simp add: promotion_parse_def with_annotation_def get_trimmed_def huge_annotations_def annotation_keys d t)
  then show "unat (pa_interval (promotion_parse huge_annotations)) = 2 ^ 63" by simp
  have "pa_status (promotion_parse huge_annotations) = None"
    by (simp add: promotion_parse_status get_trimmed_def huge_annotations_def annotation_keys)
  then show "\<not> is_finished (promotion_parse huge_annotations)" by (simp add: is_finished_def rolled_back_def)
qed

theorem huge_interval_panics_witness:
  "promoter_pass sample_env None 0 [sample_target\<lparr> tg_policy := promotion_parse huge_annotations \<rparr>] promoter_new = None"
proof (rule huge_interval_panics[where t = "sample_target\<lparr> tg_policy := promotion_parse huge_annotations \<rparr>"])
  show "2 ^ 63 \<le> unat (pa_interval (tg_policy (sample_target\<lparr> tg_policy := promotion_parse huge_annotations \<rparr>)))"
    using huge_policy(1) by simp
  show "\<not> is_finished (tg_policy (sample_target\<lparr> tg_policy := promotion_parse huge_annotations \<rparr>))"
    using huge_policy(2) by simp
qed (simp_all add: promoter_new_def)

end
