(* ===== verification/Translate.thy ===== *)
theory Translate
  imports Builder Cluster "HOL-Library.Multiset" "HOL-Library.Sublist"
begin

text \<open>
  \<open>crates/ramjet-controller/src/translate.rs\<close>: one translation pass, from a cluster snapshot to
  a compiled configuration.

  A function that pushes warnings returns the ones it pushes, in order. The hash map of planned
  routes is the association list of its contents, and \<open>visit\<close> is the order in which the
  code happens to iterate it; \<open>compile\<close>, \<open>iter\<close> and the counter stores are those of the builder,
  and \<open>show_regex\<close> prints an error of the regex crate.
\<close>

section \<open>Warnings\<close>

datatype warning_kind =
    UnknownClass | RouteConflict | UnsupportedBackend | ServiceUnresolved | ExternalNameService
  | EndpointsSkipped | InvalidRoute | InvalidAnnotation | CanaryOrphan | CanaryConflict | CanaryInert
  | MirrorRejected | TlsSecret | TlsConflict | TlsHostless | DefaultBackendConflict
  | BackendProtocolConflict

fun warning_kind_as_str :: "warning_kind \<Rightarrow> string" where
  "warning_kind_as_str UnknownClass = ''UnknownClass''"
| "warning_kind_as_str RouteConflict = ''RouteConflict''"
| "warning_kind_as_str UnsupportedBackend = ''UnsupportedBackend''"
| "warning_kind_as_str ServiceUnresolved = ''ServiceUnresolved''"
| "warning_kind_as_str ExternalNameService = ''ExternalNameService''"
| "warning_kind_as_str EndpointsSkipped = ''EndpointsSkipped''"
| "warning_kind_as_str InvalidRoute = ''InvalidRoute''"
| "warning_kind_as_str InvalidAnnotation = ''InvalidAnnotation''"
| "warning_kind_as_str CanaryOrphan = ''CanaryOrphan''"
| "warning_kind_as_str CanaryConflict = ''CanaryConflict''"
| "warning_kind_as_str CanaryInert = ''CanaryInert''"
| "warning_kind_as_str MirrorRejected = ''MirrorRejected''"
| "warning_kind_as_str TlsSecret = ''TlsSecret''"
| "warning_kind_as_str TlsConflict = ''TlsConflict''"
| "warning_kind_as_str TlsHostless = ''TlsHostless''"
| "warning_kind_as_str DefaultBackendConflict = ''DefaultBackendConflict''"
| "warning_kind_as_str BackendProtocolConflict = ''BackendProtocolConflict''"

definition is_annotation_refusal :: "warning_kind \<Rightarrow> bool" where
  "is_annotation_refusal k \<longleftrightarrow>
     k \<in> {InvalidAnnotation, CanaryOrphan, CanaryConflict, CanaryInert, MirrorRejected, BackendProtocolConflict}"

record warning =
  wa_subject :: object_key
  wa_kind :: warning_kind
  wa_detail :: string

definition warn :: "object_key \<Rightarrow> warning_kind \<Rightarrow> string \<Rightarrow> warning" where
  "warn subject kind detail = \<lparr> wa_subject = subject, wa_kind = kind, wa_detail = detail \<rparr>"

definition warning_display :: "warning \<Rightarrow> string" where
  "warning_display w =
     object_key_display (wa_subject w) @ '' ['' @ warning_kind_as_str (wa_kind w) @ '']: '' @ wa_detail w"

fun path_type_debug :: "path_type \<Rightarrow> string" where
  "path_type_debug Exact = ''Exact''"
| "path_type_debug Prefix = ''Prefix''"
| "path_type_debug ImplementationSpecific = ''ImplementationSpecific''"

fun build_error_display :: "('e \<Rightarrow> string) \<Rightarrow> 'e build_error \<Rightarrow> string" where
  "build_error_display show_regex (HostLength host) =
     ''host `'' @ host @ ''` is empty or longer than '' @ show_nat MAX_HOST_LEN @ '' bytes''"
| "build_error_display show_regex (HostSyntax host found) =
     ''host `'' @ host @ ''` contains `'' @ [found] @ ''`, which is not valid in an Ingress host''"
| "build_error_display show_regex (WildcardShape host) =
     ''host `'' @ host @ ''` is not a valid wildcard: exactly one leading `*.` label is supported''"
| "build_error_display show_regex (PathNotAbsolute path) = ''path `'' @ path @ ''` must begin with `/`''"
| "build_error_display show_regex (BadPattern path source) =
     ''invalid ImplementationSpecific path `'' @ path @ ''`: '' @ show_regex source"
| "build_error_display show_regex (BadCanaryPattern pattern source) =
     ''invalid canary header pattern `'' @ pattern @ ''`: '' @ show_regex source"
| "build_error_display show_regex (DuplicatePath host path ptype) =
     ''duplicate '' @ path_type_debug ptype @ '' path `'' @ path @ ''` on host `'' @ host @ ''`''"
| "build_error_display show_regex (DuplicateBackend name) =
     ''backend `'' @ name @ ''` was registered more than once''"
| "build_error_display show_regex (UnknownBackend name referrer) =
     ''`'' @ referrer @ ''` references backend `'' @ name @ ''`, which was never registered''"
| "build_error_display show_regex (CanaryHeaderConflict host path) =
     ''canary on `'' @ host @ path @ ''` sets both a header value and a header pattern''"
| "build_error_display show_regex (CanaryWeight weight whole) =
     ''canary weight '' @ show_nat (unat weight) @ '' exceeds total '' @ show_nat (unat whole)"
| "build_error_display show_regex (MirrorPercent percent) =
     ''mirror percent '' @ show_nat (unat percent) @ '' is above 100''"
| "build_error_display show_regex (MirrorBackendMissing host path) =
     ''mirror on `'' @ host @ path @ ''` names no backend''"

section \<open>Plans\<close>

record route_key =
  rk_host :: "string option"
  rk_path :: string
  rk_path_type :: path_type

fun path_type_rank :: "path_type \<Rightarrow> nat" where
  "path_type_rank Exact = 0"
| "path_type_rank Prefix = 1"
| "path_type_rank ImplementationSpecific = 2"

definition route_sort_key :: "route_key \<Rightarrow> string \<times> bool \<times> string \<times> nat" where
  "route_sort_key k = (opt_or [] (rk_host k), rk_host k = None, rk_path k, path_type_rank (rk_path_type k))"

record mirror_plan =
  mp_backend :: service_ref
  mp_percent :: u32
  mp_host :: "string option"
  mp_protocol :: backend_protocol

record canary_plan =
  cp_backend :: service_ref
  cp_owner :: object_key
  cp_rules :: canary_annotations
  cp_protocol :: backend_protocol

record route_plan =
  rp_key :: route_key
  rp_backend :: service_ref
  rp_owner :: object_key
  rp_protocol :: backend_protocol
  rp_canary :: "canary_plan option"
  rp_mirror :: "mirror_plan option"

type_synonym route_map = "(route_key \<times> route_plan) list"

definition describe :: "route_key \<Rightarrow> string" where
  "describe k = opt_or ''*'' (rk_host k) @ rk_path k @ '' ('' @ path_type_debug (rk_path_type k) @ '')''"

definition normalize_host :: "string option \<Rightarrow> string option" where
  "normalize_host host =
     (case host of
        None \<Rightarrow> None
      | Some raw \<Rightarrow>
          (let h = trim_end_matches (CHR ''.'') (trim raw) in if h = [] then None else Some (lower h)))"

fun protocol_tag :: "backend_protocol \<Rightarrow> u8" where
  "protocol_tag Http1 = 0"
| "protocol_tag H2c = 1"

fun lb_policy_tag :: "lb_policy \<Rightarrow> u8" where
  "lb_policy_tag RoundRobin = 0"
| "lb_policy_tag Random = 1"
| "lb_policy_tag LeastConn = 2"

definition parse_path_type :: "string \<Rightarrow> object_key \<Rightarrow> path_type \<times> warning list" where
  "parse_path_type raw owner =
     (if raw = ''Exact'' then (Exact, [])
      else if raw = ''Prefix'' then (Prefix, [])
      else if raw = ''ImplementationSpecific'' then (ImplementationSpecific, [])
      else (ImplementationSpecific,
            [warn owner InvalidAnnotation
               (''unknown pathType `'' @ raw @ ''`, treating it as ImplementationSpecific'')]))"

definition backend_ref :: "string \<Rightarrow> ingress_backend \<Rightarrow> object_key \<Rightarrow> service_ref option \<times> warning list" where
  "backend_ref namespace backend owner =
     (case ib_service backend of
        None \<Rightarrow>
          (None, [warn owner UnsupportedBackend
                    ''`backend.resource` is not supported; only Service backends are routable''])
      | Some svc \<Rightarrow>
          (let port = (case isb_port svc of
                         None \<Rightarrow> None
                       | Some p \<Rightarrow>
                           (case sbp_number p of
                              Some n \<Rightarrow> Some (PortNumber n)
                            | None \<Rightarrow> map_option PortName (sbp_name p)))
           in case port of
                None \<Rightarrow>
                  (None, [warn owner UnsupportedBackend (''backend Service `'' @ isb_name svc @ ''` names no port'')])
              | Some p \<Rightarrow> (Some \<lparr> sr_namespace = namespace, sr_name = isb_name svc, sr_port = p \<rparr>, [])))"

definition backend_protocol_of :: "annotations \<Rightarrow> object_key \<Rightarrow> backend_protocol \<times> warning list" where
  "backend_protocol_of ann owner =
     (let parsed = backend_protocol_parse ann
      in (bp_protocol parsed,
          case bp_unsupported parsed of
            None \<Rightarrow> []
          | Some v \<Rightarrow>
              [warn owner InvalidAnnotation
                 (''`'' @ ANNOTATION_BACKEND_PROTOCOL @ '': '' @ v
                    @ ''` is not supported; only `HTTP` and `GRPC` are, and this backend stays on HTTP/1.1'')]))"

definition mirror_plan_of ::
  "annotations \<Rightarrow> string \<Rightarrow> object_key \<Rightarrow> backend_protocol \<Rightarrow> mirror_plan option \<times> warning list" where
  "mirror_plan_of ann namespace owner protocol =
     (let parsed = mirror_parse ann;
          ws = map (\<lambda>key. warn owner InvalidAnnotation
                              (''`'' @ key @ ''` is not a percentage in 0-100 and was ignored'')) (ma_invalid parsed)
      in case ma_backend parsed of
           None \<Rightarrow> (None, ws)
         | Some reference \<Rightarrow>
             (let qualified = (if CHR ''/'' \<in> set reference then reference else namespace @ ''/'' @ reference)
              in case parse_service_ref qualified of
                   Inr backend \<Rightarrow>
                     (Some \<lparr> mp_backend = backend, mp_percent = ma_percent parsed, mp_host = ma_host parsed,
                             mp_protocol = protocol \<rparr>, ws)
                 | Inl e \<Rightarrow>
                     (None, ws @ [warn owner MirrorRejected
                        (''`'' @ ANNOTATION_MIRROR_BACKEND @ '': '' @ reference @ ''` is unusable (''
                           @ service_ref_error_display e @ ''); serving without a mirror'')])))"

section \<open>Choosing the Ingresses\<close>

definition created_key :: "int option \<Rightarrow> nat \<times> int" where
  "created_key t = (case t of None \<Rightarrow> (0, 0) | Some i \<Rightarrow> (1, i))"

definition age_key :: "ingress \<Rightarrow> (nat \<times> int) \<times> string \<times> string" where
  "age_key ing =
     (created_key (om_created (ing_meta ing)), ok_namespace (key_of (ing_meta ing)), ok_name (key_of (ing_meta ing)))"

definition class_warnings :: "class_filter \<Rightarrow> ingress \<Rightarrow> warning list" where
  "class_warnings f ing =
     (case classify f ing of
        UnknownClassClaim \<Rightarrow>
          [warn (key_of (ing_meta ing)) UnknownClass
             (''ingressClassName `'' @ opt_or [] (Option.bind (ing_spec ing) isp_class_name)
                @ ''` does not name any IngressClass'')]
      | _ \<Rightarrow> [])"

definition select_managed :: "cluster_snapshot \<Rightarrow> controller_opts \<Rightarrow> ingress list \<times> warning list" where
  "select_managed snapshot opts =
     (let f = class_filter_new (sn_ingress_classes snapshot) (co_class_name opts)
      in (sort_key age_key (filter (manages f) (sn_ingresses snapshot)),
          concat (map (class_warnings f) (sn_ingresses snapshot))))"

section \<open>Planning production routes\<close>

record planning =
  pn_routes :: route_map
  pn_fallbacks :: "route_plan list"
  pn_default :: "(service_ref \<times> object_key) option"
  pn_warnings :: "warning list"

definition pn_warn :: "warning list \<Rightarrow> planning \<Rightarrow> planning" where
  "pn_warn ws st = st\<lparr> pn_warnings := pn_warnings st @ ws \<rparr>"

definition entry_key :: "string option \<Rightarrow> ingress_path \<Rightarrow> path_type \<Rightarrow> route_key" where
  "entry_key host entry ptype =
     \<lparr> rk_host = host, rk_path = opt_or ''/'' (ipa_path entry), rk_path_type = ptype \<rparr>"

definition plan_entry ::
  "object_key \<Rightarrow> backend_protocol \<Rightarrow> mirror_plan option \<Rightarrow> string option \<Rightarrow> ingress_path \<Rightarrow> planning \<Rightarrow> planning" where
  "plan_entry owner protocol mirror host entry st =
     (case backend_ref (ok_namespace owner) (ipa_backend entry) owner of
        (None, ws) \<Rightarrow> pn_warn ws st
      | (Some backend, ws) \<Rightarrow>
          (let (ptype, ws') = parse_path_type (ipa_path_type entry) owner;
               key = entry_key host entry ptype;
               st' = pn_warn (ws @ ws') st
           in case map_of (pn_routes st') key of
                Some plan \<Rightarrow>
                  pn_warn [warn owner RouteConflict
                     (describe key @ '' is already served by the older Ingress ''
                        @ object_key_display (rp_owner plan))] st'
              | None \<Rightarrow>
                  st'\<lparr> pn_routes := hm_insert key
                         \<lparr> rp_key = key, rp_backend = backend, rp_owner = owner, rp_protocol = protocol,
                           rp_canary = None, rp_mirror = mirror \<rparr> (pn_routes st') \<rparr>))"

definition plan_rule ::
  "object_key \<Rightarrow> backend_protocol \<Rightarrow> mirror_plan option \<Rightarrow> ingress_rule \<Rightarrow> planning \<Rightarrow> planning" where
  "plan_rule owner protocol mirror rule st =
     fold (plan_entry owner protocol mirror (normalize_host (iru_host rule))) (opt_or [] (iru_http rule)) st"

text \<open>The distinct hosts of an Ingress's rules, in order of first mention.\<close>

definition push_host :: "ingress_rule \<Rightarrow> string option list \<Rightarrow> string option list" where
  "push_host rule hosts =
     (let h = normalize_host (iru_host rule) in if h \<in> set hosts then hosts else hosts @ [h])"

definition spec_hosts :: "ingress_spec \<Rightarrow> string option list" where
  "spec_hosts spec = fold push_host (opt_or [] (isp_rules spec)) []"

definition plan_default ::
  "object_key \<Rightarrow> backend_protocol \<Rightarrow> mirror_plan option \<Rightarrow> ingress_spec \<Rightarrow> planning \<Rightarrow> planning" where
  "plan_default owner protocol mirror spec st =
     (case isp_default_backend spec of
        None \<Rightarrow> st
      | Some fallback \<Rightarrow>
          (case backend_ref (ok_namespace owner) fallback owner of
             (None, ws) \<Rightarrow> pn_warn ws st
           | (Some backend, ws) \<Rightarrow>
               (let st' = pn_warn ws st
                in if spec_hosts spec = [] then
                     (case pn_default st' of
                        Some (_, holder) \<Rightarrow>
                          pn_warn [warn owner DefaultBackendConflict
                             (''the default backend is already set by the older Ingress ''
                                @ object_key_display holder)] st'
                      | None \<Rightarrow> st'\<lparr> pn_default := Some (backend, owner) \<rparr>)
                   else
                     st'\<lparr> pn_fallbacks := pn_fallbacks st' @
                            map (\<lambda>host. \<lparr> rp_key = \<lparr> rk_host = host, rk_path = ''/'', rk_path_type = Prefix \<rparr>,
                                          rp_backend = backend, rp_owner = owner, rp_protocol = protocol,
                                          rp_canary = None, rp_mirror = mirror \<rparr>) (spec_hosts spec) \<rparr>)))"

definition plan_ingress :: "ingress \<Rightarrow> planning \<Rightarrow> planning" where
  "plan_ingress ing st =
     (let owner = key_of (ing_meta ing)
      in case ing_spec ing of
           None \<Rightarrow> st
         | Some spec \<Rightarrow>
             (let (protocol, ws) = backend_protocol_of (om_annotations (ing_meta ing)) owner;
                  (mirror, ws') = mirror_plan_of (om_annotations (ing_meta ing)) (ok_namespace owner) owner protocol
              in plan_default owner protocol mirror spec
                   (fold (plan_rule owner protocol mirror) (opt_or [] (isp_rules spec)) (pn_warn (ws @ ws') st))))"

definition apply_fallback :: "route_plan \<Rightarrow> route_map \<Rightarrow> route_map" where
  "apply_fallback plan routes =
     (case map_of routes (rp_key plan) of Some _ \<Rightarrow> routes | None \<Rightarrow> hm_insert (rp_key plan) plan routes)"

section \<open>Attaching canaries\<close>

definition set_canary :: "route_key \<Rightarrow> canary_plan \<Rightarrow> route_map \<Rightarrow> route_map" where
  "set_canary key c routes =
     map (\<lambda>(k, plan). if k = key then (k, plan\<lparr> rp_canary := Some c \<rparr>) else (k, plan)) routes"

definition attach_entry ::
  "object_key \<Rightarrow> canary_annotations \<Rightarrow> backend_protocol \<Rightarrow> string option \<Rightarrow> ingress_path
   \<Rightarrow> route_map \<times> warning list \<Rightarrow> route_map \<times> warning list" where
  "attach_entry owner rules protocol host entry st =
     (case backend_ref (ok_namespace owner) (ipa_backend entry) owner of
        (None, ws) \<Rightarrow> (fst st, snd st @ ws)
      | (Some backend, ws) \<Rightarrow>
          (let (ptype, ws') = parse_path_type (ipa_path_type entry) owner;
               key = entry_key host entry ptype;
               (routes, warnings) = (fst st, snd st @ ws @ ws')
           in case map_of routes key of
                None \<Rightarrow>
                  (routes, warnings @ [warn owner CanaryOrphan
                     (''no production Ingress serves '' @ describe key @ '', so this canary routes nothing'')])
              | Some plan \<Rightarrow>
                  (case rp_canary plan of
                     Some c \<Rightarrow>
                       (routes, warnings @ [warn owner CanaryConflict
                          (describe key @ '' already has a canary from the older Ingress ''
                             @ object_key_display (cp_owner c))])
                   | None \<Rightarrow>
                       (set_canary key \<lparr> cp_backend = backend, cp_owner = owner, cp_rules = rules,
                                         cp_protocol = protocol \<rparr> routes, warnings))))"

definition canary_warnings :: "object_key \<Rightarrow> annotations \<Rightarrow> canary_annotations \<Rightarrow> warning list" where
  "canary_warnings owner ann rules =
     map (\<lambda>key. warn owner InvalidAnnotation (''`'' @ key @ ''` is not a number and was ignored'')) (ca_invalid rules)
     @ (if canary_is_inert rules
        then [warn owner CanaryInert
                ''canary has no weight, header, or cookie, so it can never divert a request''] else [])
     @ (if mirror_enabled (mirror_parse ann)
        then [warn owner InvalidAnnotation
                (''`'' @ ANNOTATION_MIRROR_BACKEND
                   @ ''` on a canary Ingress does nothing; a mirror belongs to the route, so put it on the production Ingress'')]
        else [])"

definition attach_canary ::
  "ingress \<times> canary_annotations \<Rightarrow> route_map \<times> warning list \<Rightarrow> route_map \<times> warning list" where
  "attach_canary c st =
     (let (ing, rules) = c; owner = key_of (ing_meta ing); ann = om_annotations (ing_meta ing);
          (protocol, ws) = backend_protocol_of ann owner;
          st' = (fst st, snd st @ ws @ canary_warnings owner ann rules)
      in case ing_spec ing of
           None \<Rightarrow> st'
         | Some spec \<Rightarrow>
             fold (\<lambda>rule. fold (attach_entry owner rules protocol (normalize_host (iru_host rule)))
                            (opt_or [] (iru_http rule))) (opt_or [] (isp_rules spec)) st')"

section \<open>Backends\<close>

type_synonym claims = "(service_ref \<times> backend_protocol) list"

definition claim_backend ::
  "service_ref \<Rightarrow> backend_protocol \<Rightarrow> object_key \<Rightarrow> claims \<times> warning list \<Rightarrow> claims \<times> warning list" where
  "claim_backend target protocol owner st =
     (case map_of (fst st) target of
        None \<Rightarrow> (hm_insert target protocol (fst st), snd st)
      | Some held \<Rightarrow>
          if held \<noteq> protocol
          then (fst st, snd st @ [warn owner BackendProtocolConflict
                 (''backend '' @ backend_name target @ '' is already registered as `'' @ protocol_as_str held
                    @ ''` by another Ingress; this Ingress asked for `'' @ protocol_as_str protocol
                    @ ''` and was not honoured'')])
          else st)"

definition claim_plan :: "route_plan \<Rightarrow> claims \<times> warning list \<Rightarrow> claims \<times> warning list" where
  "claim_plan plan st =
     (let st1 = claim_backend (rp_backend plan) (rp_protocol plan) (rp_owner plan) st;
          st2 = (case rp_canary plan of
                   None \<Rightarrow> st1
                 | Some c \<Rightarrow> claim_backend (cp_backend c) (cp_protocol c) (cp_owner c) st1)
      in case rp_mirror plan of
           None \<Rightarrow> st2
         | Some mr \<Rightarrow> claim_backend (mp_backend mr) (mp_protocol mr) (rp_owner plan) st2)"

definition sorted_plans :: "(route_map \<Rightarrow> route_map) \<Rightarrow> route_map \<Rightarrow> route_plan list" where
  "sorted_plans visit routes = sort_key (\<lambda>p. route_sort_key (rp_key p)) (map snd (visit routes))"

definition collect_backends ::
  "(route_map \<Rightarrow> route_map) \<Rightarrow> route_map \<Rightarrow> service_ref option \<Rightarrow> claims \<times> warning list" where
  "collect_backends visit routes default_backend =
     (let (m, ws) = fold claim_plan (sorted_plans visit routes) ([], [])
      in (case default_backend of
            None \<Rightarrow> m
          | Some target \<Rightarrow> (case map_of m target of None \<Rightarrow> hm_insert target Http1 m | Some _ \<Rightarrow> m), ws))"

record 'r work =
  wk_builder :: "'r builder"
  wk_digest :: u64
  wk_warnings :: "warning list"

definition wk_warn :: "warning list \<Rightarrow> 'r work \<Rightarrow> 'r work" where
  "wk_warn ws w = w\<lparr> wk_warnings := wk_warnings w @ ws \<rparr>"

definition wk_feed :: "(u64 \<Rightarrow> u64) \<Rightarrow> 'r work \<Rightarrow> 'r work" where
  "wk_feed f w = w\<lparr> wk_digest := f (wk_digest w) \<rparr>"

definition issue_warning :: "service_ref \<Rightarrow> resolve_issue \<Rightarrow> warning" where
  "issue_warning target issue =
     (let subject = \<lparr> ok_namespace = sr_namespace target, ok_name = sr_name target \<rparr>
      in case issue of
           ServiceMissing \<Rightarrow>
             warn subject ServiceUnresolved (''Service '' @ backend_name target @ '' does not exist; serving 503'')
         | PortMissing \<Rightarrow>
             warn subject ServiceUnresolved
               (''Service has no port `'' @ backend_port_display (sr_port target) @ ''`; serving 503'')
         | NoReadyEndpoints skipped \<Rightarrow>
             warn subject ServiceUnresolved (''no ready endpoints ('' @ show_nat skipped @ '' skipped); serving 503'')
         | ExternalNameIssue name \<Rightarrow>
             warn subject ExternalNameService
               (''ExternalName Services are not supported yet (`'' @ name @ ''`); serving 503''))"

definition backend_endpoints :: "endpoint_index \<Rightarrow> service_ref \<Rightarrow> endpoint list \<times> warning list" where
  "backend_endpoints ix target =
     (case resolve ix target of
        Inr r \<Rightarrow>
          (re_endpoints r,
           if re_skipped r > 0
           then [warn \<lparr> ok_namespace = sr_namespace target, ok_name = sr_name target \<rparr> EndpointsSkipped
                   (show_nat (re_skipped r) @ '' address(es) skipped as unready or terminating'')] else [])
      | Inl issue \<Rightarrow> ([], [issue_warning target issue]))"

definition feed_endpoints :: "endpoint list \<Rightarrow> u64 \<Rightarrow> u64" where
  "feed_endpoints es d =
     fold (\<lambda>e d. digest_u64 (ucast (ep_weight e)) (digest_str (show_socket_addr (ep_addr e)) d)) es
       (digest_u64 (of_nat (length es)) d)"

definition register_backend ::
  "endpoint_index \<Rightarrow> lb_policy \<Rightarrow> service_ref \<times> backend_protocol \<Rightarrow> 'r work \<Rightarrow> 'e build_error + 'r work" where
  "register_backend ix policy tp w =
     (let (target, protocol) = tp;
          (endpoints, ws) = backend_endpoints ix target;
          name = backend_name target;
          w1 = wk_feed (feed_endpoints endpoints \<circ> digest_u8 (protocol_tag protocol) \<circ> digest_u8 (lb_policy_tag policy)
                          \<circ> digest_str name) (wk_warn ws w)
      in sum_bind (backend_with (wk_builder w1) name endpoints \<lparr> bo_policy = policy, bo_protocol = protocol \<rparr>)
           (\<lambda>(b, _). Inr (w1\<lparr> wk_builder := b \<rparr>)))"

fun register_all ::
  "endpoint_index \<Rightarrow> lb_policy \<Rightarrow> claims \<Rightarrow> 'r work \<Rightarrow> 'e build_error + 'r work" where
  "register_all ix policy [] w = Inr w"
| "register_all ix policy (tp # tps) w = sum_bind (register_backend ix policy tp w) (register_all ix policy tps)"

definition register_backends ::
  "cluster_snapshot \<Rightarrow> controller_opts \<Rightarrow> claims \<Rightarrow> 'r work \<Rightarrow> 'e build_error + 'r work" where
  "register_backends snapshot opts backends w =
     register_all (endpoint_index_new (sn_services snapshot) (sn_endpoint_slices snapshot)) (co_lb_policy opts)
       (sort_key (\<lambda>tp. service_ref_key (fst tp)) backends) w"

section \<open>Routes\<close>

definition feed_canary :: "canary_plan option \<Rightarrow> u64 \<Rightarrow> u64" where
  "feed_canary c d =
     (case c of
        None \<Rightarrow> digest_u8 0 d
      | Some p \<Rightarrow>
          digest_opt_str (ca_cookie (cp_rules p)) (digest_opt_str (ca_header_pattern (cp_rules p))
            (digest_opt_str (ca_header_value (cp_rules p)) (digest_opt_str (ca_header (cp_rules p))
              (digest_u64 (ucast (ca_weight_total (cp_rules p))) (digest_u64 (ucast (ca_weight (cp_rules p)))
                (digest_str (backend_name (cp_backend p)) (digest_u8 1 d))))))))"

definition feed_mirror :: "mirror_plan option \<Rightarrow> u64 \<Rightarrow> u64" where
  "feed_mirror m d =
     (case m of
        None \<Rightarrow> digest_u8 0 d
      | Some p \<Rightarrow>
          digest_opt_str (mp_host p) (digest_u64 (ucast (mp_percent p))
            (digest_str (backend_name (mp_backend p)) (digest_u8 1 d))))"

definition feed_route :: "route_plan \<Rightarrow> u64 \<Rightarrow> u64" where
  "feed_route p d =
     feed_mirror (rp_mirror p) (feed_canary (rp_canary p)
       (digest_str (backend_name (rp_backend p))
         (digest_u8 (of_nat (path_type_rank (rk_path_type (rp_key p))))
           (digest_str (rk_path (rp_key p)) (digest_opt_str (rk_host (rp_key p)) d)))))"

definition plan_options :: "route_plan \<Rightarrow> route_options" where
  "plan_options p =
     \<lparr> ro_canary = map_option (\<lambda>c.
         \<lparr> cr_backend = backend_name (cp_backend c), cr_header = ca_header (cp_rules c),
           cr_header_value = ca_header_value (cp_rules c), cr_header_pattern = ca_header_pattern (cp_rules c),
           cr_cookie = ca_cookie (cp_rules c), cr_weight = ca_weight (cp_rules c),
           cr_weight_total = ca_weight_total (cp_rules c) \<rparr>) (rp_canary p),
       ro_mirror = map_option (\<lambda>mr.
         \<lparr> mru_backend = backend_name (mp_backend mr), mru_percent = mp_percent mr, mru_host = mp_host mr \<rparr>)
         (rp_mirror p) \<rparr>"

text \<open>The warnings of a route whose optional parts the router refused.\<close>

definition degraded_warnings :: "string \<Rightarrow> route_plan \<Rightarrow> warning list" where
  "degraded_warnings err p =
     (case rp_canary p of
        None \<Rightarrow> []
      | Some c \<Rightarrow> [warn (cp_owner c) InvalidRoute
                     (''canary rejected ('' @ err @ ''); serving '' @ describe (rp_key p) @ '' without it'')])
     @ (case rp_mirror p of
          None \<Rightarrow> []
        | Some _ \<Rightarrow> [warn (rp_owner p) MirrorRejected
                       (''mirror rejected ('' @ err @ ''); serving '' @ describe (rp_key p) @ '' without it'')])"

definition register_route ::
  "(string \<Rightarrow> bool \<Rightarrow> 'e + 'r) \<Rightarrow> ('e \<Rightarrow> string) \<Rightarrow> route_plan \<Rightarrow> 'r work \<Rightarrow> 'r work" where
  "register_route compile show_regex p w =
     (let w0 = wk_feed (feed_route p) w;
          host = rk_host (rp_key p); path = rk_path (rp_key p); ptype = rk_path_type (rp_key p);
          backend = backend_name (rp_backend p);
          (outcome, w1) =
            (case route_with compile (wk_builder w0) host path ptype backend (plan_options p) of
               Inr b \<Rightarrow> (Inr b, w0)
             | Inl err \<Rightarrow>
                 (add_route compile (wk_builder w0) host path ptype backend,
                  wk_warn (degraded_warnings (build_error_display show_regex err) p) w0))
      in case outcome of
           Inr b \<Rightarrow> w1\<lparr> wk_builder := b \<rparr>
         | Inl err \<Rightarrow>
             wk_warn [warn (rp_owner p) InvalidRoute
               (describe (rp_key p) @ '' rejected: '' @ build_error_display show_regex err)] w1)"

definition register_routes ::
  "(route_map \<Rightarrow> route_map) \<Rightarrow> (string \<Rightarrow> bool \<Rightarrow> 'e + 'r) \<Rightarrow> ('e \<Rightarrow> string) \<Rightarrow> route_map \<Rightarrow> 'r work \<Rightarrow> 'r work" where
  "register_routes visit compile show_regex routes w =
     fold (register_route compile show_regex) (sorted_plans visit routes) w"

section \<open>Certificates\<close>

record cert_plan =
  ct_by_host :: "(string \<times> u64 \<times> object_key) list"
  ct_materials :: "(u64 \<times> cert_material) list"
  ct_warnings :: "warning list"

definition ct_warn :: "object_key \<Rightarrow> warning_kind \<Rightarrow> string \<Rightarrow> cert_plan \<Rightarrow> cert_plan" where
  "ct_warn owner kind detail c = c\<lparr> ct_warnings := ct_warnings c @ [warn owner kind detail] \<rparr>"

definition claim_host :: "object_key \<Rightarrow> u64 \<Rightarrow> string \<Rightarrow> cert_plan \<Rightarrow> cert_plan" where
  "claim_host owner handle host c =
     (case map_of (ct_by_host c) host of
        Some (_, holder) \<Rightarrow>
          ct_warn owner TlsConflict
            (''`'' @ host @ ''` already has a certificate from the older Ingress '' @ object_key_display holder) c
      | None \<Rightarrow> c\<lparr> ct_by_host := hm_insert host (handle, owner) (ct_by_host c) \<rparr>)"

definition claim_tls ::
  "(string \<times> string \<Rightarrow> secret option) \<Rightarrow> object_key \<Rightarrow> ingress_tls \<Rightarrow> cert_plan \<Rightarrow> cert_plan" where
  "claim_tls secrets owner entry c =
     (let hosts = List.map_filter (\<lambda>h. normalize_host (Some h)) (opt_or [] (itl_hosts entry))
      in if hosts = [] then
           ct_warn owner TlsHostless
             ''spec.tls entry lists no hosts; set ControllerOpts::default_tls_secret instead, since the controller does not parse certificate SANs'' c
         else case itl_secret_name entry of
                None \<Rightarrow> ct_warn owner TlsSecret ''spec.tls entry has no secretName'' c
              | Some secret_name \<Rightarrow>
                  (case material secrets (ok_namespace owner) secret_name of
                     Inl issue \<Rightarrow>
                       ct_warn owner TlsSecret
                         (ok_namespace owner @ ''/'' @ secret_name @ '': '' @ cert_issue_display issue
                            @ ''; serving these hosts without it'') c
                   | Inr mat \<Rightarrow>
                       (let c' = fold (claim_host owner (cm_handle_id mat)) hosts c
                        in c'\<lparr> ct_materials := hm_insert (cm_handle_id mat) mat (ct_materials c') \<rparr>)))"

definition claim_ingress_tls :: "(string \<times> string \<Rightarrow> secret option) \<Rightarrow> ingress \<Rightarrow> cert_plan \<Rightarrow> cert_plan" where
  "claim_ingress_tls secrets ing c =
     (case ing_spec ing of
        None \<Rightarrow> c
      | Some spec \<Rightarrow> fold (claim_tls secrets (key_of (ing_meta ing))) (opt_or [] (isp_tls spec)) c)"

definition register_cert ::
  "('e \<Rightarrow> string) \<Rightarrow> (string \<Rightarrow> bool \<Rightarrow> 'e + 'r) \<Rightarrow> string \<times> u64 \<times> object_key \<Rightarrow> 'r work \<Rightarrow> 'r work" where
  "register_cert show_regex compile entry w =
     (let (host, handle, owner) = entry;
          w1 = wk_feed (digest_u64 handle \<circ> digest_str host) w
      in case (add_certificate (wk_builder w1) host handle :: 'e build_error + 'r builder) of
           Inr b \<Rightarrow> w1\<lparr> wk_builder := b \<rparr>
         | Inl err \<Rightarrow>
             wk_warn [warn owner InvalidRoute
               (''TLS host `'' @ host @ ''` rejected: '' @ build_error_display show_regex err)] w1)"

definition register_default_cert ::
  "(string \<times> string \<Rightarrow> secret option) \<Rightarrow> string option \<Rightarrow> (u64 \<times> cert_material) list \<Rightarrow> 'r work
   \<Rightarrow> (u64 \<times> cert_material) list \<times> 'r work" where
  "register_default_cert secrets reference materials w =
     (case reference of
        None \<Rightarrow> (materials, w)
      | Some r \<Rightarrow>
          (case split_once (CHR ''/'') r of
             None \<Rightarrow>
               (materials, wk_warn [warn \<lparr> ok_namespace = [], ok_name = r \<rparr> TlsSecret
                  ''default TLS secret must be `namespace/name`''] w)
           | Some (namespace, name) \<Rightarrow>
               (case material secrets namespace name of
                  Inl issue \<Rightarrow>
                    (materials, wk_warn [warn \<lparr> ok_namespace = namespace, ok_name = name \<rparr> TlsSecret
                       (''default TLS secret unusable: '' @ cert_issue_display issue)] w)
                | Inr mat \<Rightarrow>
                    (hm_insert (cm_handle_id mat) mat materials,
                     wk_feed (digest_u64 (cm_handle_id mat))
                       (w\<lparr> wk_builder := default_certificate (wk_builder w) (cm_handle_id mat) \<rparr>)))))"

definition register_certificates ::
  "('e \<Rightarrow> string) \<Rightarrow> (string \<Rightarrow> bool \<Rightarrow> 'e + 'r) \<Rightarrow> cluster_snapshot \<Rightarrow> controller_opts \<Rightarrow> ingress list \<Rightarrow> 'r work
   \<Rightarrow> cert_material list \<times> 'r work" where
  "register_certificates show_regex compile snapshot opts managed w =
     (let secrets = secret_index_new (sn_secrets snapshot);
          c = fold (claim_ingress_tls secrets) managed
                \<lparr> ct_by_host = [], ct_materials = [], ct_warnings = [] \<rparr>;
          w1 = fold (register_cert show_regex compile) (sort_key fst (ct_by_host c)) (wk_warn (ct_warnings c) w);
          (materials, w2) = register_default_cert secrets (co_default_tls_secret opts) (ct_materials c) w1
      in (map snd (sort_key fst materials), w2))"

section \<open>Promotions\<close>

definition promotion_route_of :: "route_plan \<Rightarrow> promotion_route" where
  "promotion_route_of p =
     \<lparr> pt_host = opt_or ''*'' (rk_host (rp_key p)), pt_path = rk_path (rp_key p),
       pt_path_type = rk_path_type (rp_key p) \<rparr>"

definition promotion_route_key :: "promotion_route \<Rightarrow> string \<times> string \<times> nat" where
  "promotion_route_key r = (pt_host r, pt_path r, path_type_rank (pt_path_type r))"

definition covered_routes :: "(route_map \<Rightarrow> route_map) \<Rightarrow> route_map \<Rightarrow> object_key \<Rightarrow> promotion_route list" where
  "covered_routes visit routes owner =
     sort_key promotion_route_key
       (map promotion_route_of
         (filter (\<lambda>p. case rp_canary p of None \<Rightarrow> False | Some c \<Rightarrow> cp_owner c = owner)
           (map snd (visit routes))))"

fun join_comma :: "string list \<Rightarrow> string" where
  "join_comma [] = []"
| "join_comma [s] = s"
| "join_comma (s # ss) = s @ '', '' @ join_comma ss"

definition debug_steps :: "u32 list \<Rightarrow> string" where
  "debug_steps steps = ''['' @ join_comma (map (\<lambda>s. show_nat (unat s)) steps) @ '']''"

definition feed_promotion ::
  "object_key \<Rightarrow> u32 \<Rightarrow> promotion_annotations \<Rightarrow> promotion_route list \<Rightarrow> u64 \<Rightarrow> u64" where
  "feed_promotion owner weight policy covered d =
     fold (\<lambda>r d. digest_u8 (of_nat (path_type_rank (pt_path_type r))) (digest_str (pt_path r) (digest_str (pt_host r) d)))
       covered
       (digest_opt_str (pa_status policy)
         (digest_str (format_fixed 6 (pa_max_latency_factor policy))
           (digest_str (format_fixed 6 (pa_max_5xx_percent policy))
             (digest_str (debug_steps (pa_steps policy))
               (digest_u64 (pa_min_requests policy)
                 (digest_u64 (pa_interval policy)
                   (digest_u64 (ucast weight) (digest_str (object_key_display owner) d))))))))"

record collected =
  cl_targets :: "promotion_target list"
  cl_digest :: u64
  cl_warnings :: "warning list"

definition collect_promotion ::
  "(route_map \<Rightarrow> route_map) \<Rightarrow> route_map \<Rightarrow> ingress \<times> canary_annotations \<Rightarrow> collected \<Rightarrow> collected" where
  "collect_promotion visit routes ic c =
     (let (ing, canary) = ic; policy = promotion_parse (om_annotations (ing_meta ing)); owner = key_of (ing_meta ing)
      in if \<not> pa_enabled policy then c
         else let c1 = c\<lparr> cl_warnings := cl_warnings c @
                 map (\<lambda>key. warn owner InvalidAnnotation
                        (''`'' @ key @ ''` could not be read; automatic promotion is using its default''))
                   (pa_invalid policy) \<rparr>;
                  covered = covered_routes visit routes owner
              in if covered = [] then c1
                 else c1\<lparr> cl_digest := feed_promotion owner (ca_weight canary) policy covered (cl_digest c1),
                          cl_targets := cl_targets c1 @
                            [\<lparr> tg_ingress = owner, tg_uid = om_uid (ing_meta ing), tg_routes = covered,
                               tg_weight = ca_weight canary, tg_policy = policy \<rparr>] \<rparr>)"

definition target_key :: "promotion_target \<Rightarrow> string \<times> string" where
  "target_key t = (ok_namespace (tg_ingress t), ok_name (tg_ingress t))"

definition collect_promotions ::
  "(route_map \<Rightarrow> route_map) \<Rightarrow> (ingress \<times> canary_annotations) list \<Rightarrow> route_map \<Rightarrow> u64 \<Rightarrow> collected" where
  "collect_promotions visit canaries routes d =
     (let c = fold (collect_promotion visit routes) canaries
                \<lparr> cl_targets = [], cl_digest = d, cl_warnings = [] \<rparr>
      in c\<lparr> cl_targets := sort_key target_key (cl_targets c) \<rparr>)"

section \<open>The pass\<close>

record 'r compiled_config =
  cc_table :: "'r route_table"
  cc_certs :: "cert_material list"
  cc_promotions :: "promotion_target list"
  cc_digest :: u64

record 'r translation =
  tr_config :: "'r compiled_config"
  tr_digest :: u64
  tr_managed :: "object_key list"
  tr_warnings :: "warning list"

definition with_canary :: "ingress \<Rightarrow> ingress \<times> canary_annotations" where
  "with_canary ing = (ing, canary_parse (om_annotations (ing_meta ing)))"

definition planning_empty :: "warning list \<Rightarrow> planning" where
  "planning_empty ws = \<lparr> pn_routes = [], pn_fallbacks = [], pn_default = None, pn_warnings = ws \<rparr>"

text \<open>The routes planned from the managed Ingresses, with the default backend an Ingress set.\<close>

definition plan_routes ::
  "ingress list \<Rightarrow> warning list \<Rightarrow> route_map \<times> service_ref option \<times> warning list" where
  "plan_routes managed ws =
     (let pairs = map with_canary managed;
          production = filter (\<lambda>(_, c). \<not> ca_enabled c) pairs;
          canaries = filter (\<lambda>(_, c). ca_enabled c) pairs;
          st = fold (\<lambda>(ing, _). plan_ingress ing) production (planning_empty ws);
          routes = fold apply_fallback (pn_fallbacks st) (pn_routes st);
          (routes', ws') = fold attach_canary canaries (routes, pn_warnings st)
      in (routes', map_option fst (pn_default st), ws'))"

definition translate ::
  "(route_map \<Rightarrow> route_map) \<Rightarrow> (string \<Rightarrow> bool \<Rightarrow> 'e + 'r) \<Rightarrow> ('e \<Rightarrow> string) \<Rightarrow> ('r buckets \<Rightarrow> 'r buckets)
   \<Rightarrow> heap \<Rightarrow> route_slot list \<Rightarrow> cluster_snapshot \<Rightarrow> controller_opts \<Rightarrow> 'r route_table option
   \<Rightarrow> 'e build_error + heap \<times> route_slot list \<times> 'r translation" where
  "translate visit compile show_regex iter hp rhp snapshot opts previous =
     (let (managed, ws0) = select_managed snapshot opts;
          (routes, global_default, ws1) = plan_routes managed ws0;
          builder = (case previous of Some t \<Rightarrow> from_previous t | None \<Rightarrow> builder_new);
          default_backend = (case global_default of Some r \<Rightarrow> Some r | None \<Rightarrow> co_default_backend opts);
          (backends, ws2) = collect_backends visit routes default_backend
      in sum_bind (register_backends snapshot opts backends
           \<lparr> wk_builder = builder, wk_digest = FNV_OFFSET, wk_warnings = ws1 @ ws2 \<rparr>) (\<lambda>w1.
         let w2 = register_routes visit compile show_regex routes w1;
             w3 = (case default_backend of
                     None \<Rightarrow> w2
                   | Some t \<Rightarrow> w2\<lparr> wk_builder := set_default_backend (wk_builder w2) (backend_name t) \<rparr>);
             w4 = wk_feed (digest_opt_str (map_option backend_name default_backend)) w3;
             (certs, w5) = register_certificates show_regex compile snapshot opts managed w4;
             c = collect_promotions visit (filter (\<lambda>(_, c). ca_enabled c) (map with_canary managed)) routes
                   (wk_digest w5)
         in sum_bind (build iter hp rhp (wk_builder w5)) (\<lambda>(hp', rhp', table).
              Inr (hp', rhp',
                \<lparr> tr_config = \<lparr> cc_table = table, cc_certs = certs, cc_promotions = cl_targets c, cc_digest = cl_digest c \<rparr>,
                  tr_digest = cl_digest c, tr_managed = map (key_of \<circ> ing_meta) managed,
                  tr_warnings = wk_warnings w5 @ cl_warnings c \<rparr>))))"

section \<open>What planning keeps\<close>

definition host_ok :: "string option \<Rightarrow> bool" where
  "host_ok host = (case host of None \<Rightarrow> True | Some h \<Rightarrow> h \<noteq> [] \<and> lower h = h \<and> last h \<noteq> CHR ''.'')"

lemma normalize_host_ok: "host_ok (normalize_host host)"
proof (cases host)
  case (Some raw)
  let ?h = "trim_end_matches (CHR ''.'') (trim raw)"
  show ?thesis
  proof (cases "?h = []")
    case False
    then have "last ?h \<noteq> CHR ''.''" by (rule trim_end_matches_last)
    moreover have "last (lower ?h) = to_ascii_lowercase (last ?h)" using False by (simp add: lower_def last_map)
    moreover have "to_ascii_lowercase c = CHR ''.'' \<longleftrightarrow> c = CHR ''.''" for c
      by (rule to_ascii_lowercase_neq) (simp_all add: ascii_defs)
    ultimately show ?thesis using False by (simp add: Some normalize_host_def host_ok_def Let_def)
  qed (simp add: Some normalize_host_def host_ok_def)
qed (simp add: normalize_host_def host_ok_def)

text \<open>On such a host the router's own normalisation is one-to-one.\<close>

lemma config_slot_host:
  assumes "host_ok (Some h)" "normalize_config_host h = Inr slot"
  shows "slot_host slot = h" "slot \<noteq> SCatchAll"
proof -
  from assms(1) have h: "trim_end_matches (CHR ''.'') h = h" "lower h = h"
    by (auto simp: host_ok_def intro: trim_end_matches_id)
  have low: "lower rest = rest" if "h = ''*.'' @ rest" for rest
    using h(2) unfolding that lower_def by simp
  from assms(2) show "slot_host slot = h"
    using h low by (auto simp: normalize_config_host_def Let_def strip_prefix_Some_iff split: if_splits option.splits)
  from assms(2) show "slot \<noteq> SCatchAll"
    by (auto simp: normalize_config_host_def Let_def split: if_splits option.splits prod.splits)
qed

definition plan_refs :: "route_plan \<Rightarrow> service_ref list" where
  "plan_refs p = rp_backend p # map cp_backend (case rp_canary p of None \<Rightarrow> [] | Some c \<Rightarrow> [c])
     @ map mp_backend (case rp_mirror p of None \<Rightarrow> [] | Some m \<Rightarrow> [m])"

definition plan_wf :: "route_plan \<Rightarrow> bool" where
  "plan_wf p \<longleftrightarrow> host_ok (rk_host (rp_key p)) \<and> list_all ref_ok (plan_refs p)"

definition map_wf :: "route_map \<Rightarrow> bool" where
  "map_wf m \<longleftrightarrow> distinct (map fst m) \<and> (\<forall>(k, p) \<in> set m. rp_key p = k \<and> plan_wf p)"

text \<open>What validation promises of an Ingress's references.\<close>

definition backend_valid :: "ingress_backend \<Rightarrow> bool" where
  "backend_valid b =
     (case ib_service b of
        None \<Rightarrow> True
      | Some s \<Rightarrow>
          (case isb_port s of
             None \<Rightarrow> True
           | Some p \<Rightarrow>
               (case sbp_number p of
                  Some n \<Rightarrow> 0 \<le> n
                | None \<Rightarrow> (case sbp_name p of None \<Rightarrow> True | Some name \<Rightarrow> port_name_ok name))))"

definition spec_valid :: "ingress_spec \<Rightarrow> bool" where
  "spec_valid spec \<longleftrightarrow>
     list_all (\<lambda>r. list_all (\<lambda>e. backend_valid (ipa_backend e)) (opt_or [] (iru_http r))) (opt_or [] (isp_rules spec))
     \<and> (case isp_default_backend spec of None \<Rightarrow> True | Some b \<Rightarrow> backend_valid b)"

definition ingress_valid :: "ingress \<Rightarrow> bool" where
  "ingress_valid ing \<longleftrightarrow>
     CHR ''/'' \<notin> set (ok_namespace (key_of (ing_meta ing)))
     \<and> (case ing_spec ing of None \<Rightarrow> True | Some spec \<Rightarrow> spec_valid spec)"

lemma backend_ref_ok:
  "backend_ref ns b owner = (Some r, ws) \<Longrightarrow> backend_valid b \<Longrightarrow> CHR ''/'' \<notin> set ns \<Longrightarrow> ref_ok r"
  by (auto simp: backend_ref_def backend_valid_def ref_ok_def Let_def split: option.splits)

lemma mirror_plan_ok:
  "mirror_plan_of ann ns owner protocol = (Some m, ws) \<Longrightarrow> ref_ok (mp_backend m)"
  by (auto simp: mirror_plan_of_def Let_def dest: parse_service_ref_ok split: option.splits sum.splits)

lemma map_wf_insert:
  "map_wf m \<Longrightarrow> plan_wf p \<Longrightarrow> rp_key p = k \<Longrightarrow> map_wf (hm_insert k p m)"
  by (auto simp: map_wf_def hm_insert_def distinct_map_filter)

definition planning_wf :: "planning \<Rightarrow> bool" where
  "planning_wf st \<longleftrightarrow> map_wf (pn_routes st) \<and> list_all plan_wf (pn_fallbacks st)
     \<and> (case pn_default st of None \<Rightarrow> True | Some (r, _) \<Rightarrow> ref_ok r)"

lemma planning_wf_warn [simp]: "planning_wf (pn_warn ws st) = planning_wf st"
  by (simp add: planning_wf_def pn_warn_def)

lemma plan_entry_wf:
  assumes "planning_wf st" "host_ok host" "backend_valid (ipa_backend entry)"
    and "CHR ''/'' \<notin> set (ok_namespace owner)" "case mirror of None \<Rightarrow> True | Some m \<Rightarrow> ref_ok (mp_backend m)"
  shows "planning_wf (plan_entry owner protocol mirror host entry st)"
proof (cases "backend_ref (ok_namespace owner) (ipa_backend entry) owner")
  case (Pair ref ws)
  show ?thesis
  proof (cases ref)
    case (Some r)
    with Pair assms(3,4) have "ref_ok r" by (auto dest: backend_ref_ok)
    then have "plan_wf \<lparr> rp_key = entry_key host entry pt, rp_backend = r, rp_owner = owner, rp_protocol = protocol,
                         rp_canary = None, rp_mirror = mirror \<rparr>" for pt
      using assms(2,5) by (simp add: plan_wf_def plan_refs_def entry_key_def split: option.splits)
    with assms(1) show ?thesis
      by (auto simp: plan_entry_def Pair Some Let_def planning_wf_def pn_warn_def intro!: map_wf_insert
          split: prod.splits option.splits)
  qed (use assms(1) Pair in \<open>simp add: plan_entry_def\<close>)
qed

lemma plan_rule_wf:
  assumes "planning_wf st" "list_all (\<lambda>e. backend_valid (ipa_backend e)) (opt_or [] (iru_http rule))"
    and "CHR ''/'' \<notin> set (ok_namespace owner)" "case mirror of None \<Rightarrow> True | Some m \<Rightarrow> ref_ok (mp_backend m)"
  shows "planning_wf (plan_rule owner protocol mirror rule st)"
  unfolding plan_rule_def
  by (rule fold_invariant[where Q = "\<lambda>e. backend_valid (ipa_backend e)"])
     (use assms in \<open>auto simp: list_all_iff normalize_host_ok intro!: plan_entry_wf\<close>)

lemma push_host_ok: "list_all host_ok hs \<Longrightarrow> list_all host_ok (push_host rule hs)"
  by (simp add: push_host_def Let_def normalize_host_ok)

lemma spec_hosts_ok: "list_all host_ok (spec_hosts spec)"
  unfolding spec_hosts_def
  by (rule fold_invariant[where Q = "\<lambda>_. True"]) (simp_all add: push_host_ok)

lemma plan_default_wf:
  assumes "planning_wf st" "case isp_default_backend spec of None \<Rightarrow> True | Some b \<Rightarrow> backend_valid b"
    and "CHR ''/'' \<notin> set (ok_namespace owner)" "case mirror of None \<Rightarrow> True | Some m \<Rightarrow> ref_ok (mp_backend m)"
  shows "planning_wf (plan_default owner protocol mirror spec st)"
proof (cases "isp_default_backend spec")
  case (Some b)
  obtain ref ws where ref: "backend_ref (ok_namespace owner) b owner = (ref, ws)" by fastforce
  show ?thesis
  proof (cases ref)
    case None
    with assms(1) ref Some show ?thesis by (simp add: plan_default_def)
  next
    case (Some r)
    with ref assms(2,3) \<open>isp_default_backend spec = Some b\<close> have "ref_ok r" by (auto dest: backend_ref_ok)
    with assms(4) spec_hosts_ok[of spec]
    have "list_all plan_wf (map (\<lambda>host. \<lparr> rp_key = \<lparr> rk_host = host, rk_path = ''/'', rk_path_type = Prefix \<rparr>,
        rp_backend = r, rp_owner = owner, rp_protocol = protocol, rp_canary = None, rp_mirror = mirror \<rparr>) (spec_hosts spec))"
      by (auto simp: list_all_iff plan_wf_def plan_refs_def split: option.splits)
    with \<open>ref_ok r\<close> assms(1) show ?thesis
      by (auto simp: plan_default_def \<open>isp_default_backend spec = Some b\<close> ref Some Let_def planning_wf_def pn_warn_def
          split: option.splits)
  qed
qed (use assms(1) in \<open>simp add: plan_default_def\<close>)

lemma plan_ingress_wf:
  assumes "planning_wf st" "ingress_valid ing"
  shows "planning_wf (plan_ingress ing st)"
proof (cases "ing_spec ing")
  case (Some spec)
  let ?owner = "key_of (ing_meta ing)" and ?ann = "om_annotations (ing_meta ing)"
  obtain protocol ws where p: "backend_protocol_of ?ann ?owner = (protocol, ws)" by fastforce
  obtain mirror ws' where m: "mirror_plan_of ?ann (ok_namespace ?owner) ?owner protocol = (mirror, ws')" by fastforce
  have mir: "case mirror of None \<Rightarrow> True | Some mr \<Rightarrow> ref_ok (mp_backend mr)"
    using m by (cases mirror) (auto dest: mirror_plan_ok)
  from assms(2) Some have ns: "CHR ''/'' \<notin> set (ok_namespace ?owner)" and spec: "spec_valid spec"
    by (simp_all add: ingress_valid_def)
  have "planning_wf (fold (plan_rule ?owner protocol mirror) (opt_or [] (isp_rules spec)) (pn_warn (ws @ ws') st))"
    by (rule fold_invariant[where Q = "\<lambda>r. list_all (\<lambda>e. backend_valid (ipa_backend e)) (opt_or [] (iru_http r))"])
       (use spec assms(1) ns mir in \<open>auto simp: spec_valid_def list_all_iff intro!: plan_rule_wf\<close>)
  with spec ns mir show ?thesis
    by (simp add: plan_ingress_def Some p m Let_def spec_valid_def plan_default_wf)
qed (use assms(1) in \<open>simp add: plan_ingress_def\<close>)

lemma apply_fallback_wf: "map_wf m \<Longrightarrow> plan_wf p \<Longrightarrow> map_wf (apply_fallback p m)"
  by (auto simp: apply_fallback_def intro: map_wf_insert split: option.splits)

lemma set_canary_wf:
  assumes "map_wf m" "ref_ok (cp_backend c)"
  shows "map_wf (set_canary key c m)"
proof -
  have "map fst (set_canary key c m) = map fst m"
    by (induction m) (auto simp: set_canary_def)
  moreover have "rp_key p = k \<and> plan_wf p" if "(k, p) \<in> set (set_canary key c m)" for k p
  proof -
    from that obtain p' where p': "(k, p') \<in> set m" "p = (if k = key then p'\<lparr> rp_canary := Some c \<rparr> else p')"
      by (auto simp: set_canary_def split: if_splits)
    with assms have "rp_key p' = k" "plan_wf p'" by (auto simp: map_wf_def)
    with p'(2) assms(2) show ?thesis by (auto simp: plan_wf_def plan_refs_def split: option.splits)
  qed
  ultimately show ?thesis using assms(1) by (auto simp: map_wf_def)
qed

lemma attach_entry_wf:
  assumes "map_wf (fst st)" "backend_valid (ipa_backend entry)" "CHR ''/'' \<notin> set (ok_namespace owner)"
  shows "map_wf (fst (attach_entry owner rules protocol host entry st))"
proof -
  obtain ref ws where ref: "backend_ref (ok_namespace owner) (ipa_backend entry) owner = (ref, ws)" by fastforce
  with assms show ?thesis
    by (cases ref) (auto simp: attach_entry_def Let_def split: prod.splits option.splits
        intro!: set_canary_wf dest: backend_ref_ok)
qed

lemma attach_canary_wf:
  assumes "map_wf (fst st)" "ingress_valid (fst ic)"
  shows "map_wf (fst (attach_canary ic st))"
proof -
  obtain ing rules where ic: "ic = (ing, rules)" by (cases ic)
  let ?owner = "key_of (ing_meta ing)"
  obtain protocol ws where p: "backend_protocol_of (om_annotations (ing_meta ing)) ?owner = (protocol, ws)" by fastforce
  show ?thesis
  proof (cases "ing_spec ing")
    case (Some spec)
    from assms(2) Some ic have ns: "CHR ''/'' \<notin> set (ok_namespace ?owner)" and spec: "spec_valid spec"
      by (simp_all add: ingress_valid_def)
    let ?valid = "\<lambda>e. backend_valid (ipa_backend e)" and ?wf = "\<lambda>s. map_wf (fst s)"
    have entries: "?wf (fold (attach_entry ?owner rules protocol (normalize_host (iru_host r))) (opt_or [] (iru_http r)) s)"
      if "?wf s" "list_all ?valid (opt_or [] (iru_http r))" for s r
      by (rule fold_invariant[where Q = ?valid]) (use that ns in \<open>auto simp: list_all_iff intro: attach_entry_wf\<close>)
    have "?wf (fold (\<lambda>r. fold (attach_entry ?owner rules protocol (normalize_host (iru_host r))) (opt_or [] (iru_http r)))
        (opt_or [] (isp_rules spec)) (fst st, snd st @ ws @ canary_warnings ?owner (om_annotations (ing_meta ing)) rules))"
      by (rule fold_invariant[where Q = "\<lambda>r. list_all ?valid (opt_or [] (iru_http r))"])
         (use spec assms(1) entries in \<open>auto simp: spec_valid_def list_all_iff\<close>)
    with p Some show ?thesis by (simp add: attach_canary_def ic Let_def)
  qed (use assms(1) p ic in \<open>simp add: attach_canary_def\<close>)
qed

lemma planning_empty_wf: "planning_wf (planning_empty ws)"
  by (simp add: planning_wf_def planning_empty_def map_wf_def)

lemma plan_routes_wf:
  assumes "list_all ingress_valid managed" "plan_routes managed ws = (routes, dflt, ws')"
  shows "map_wf routes \<and> (case dflt of None \<Rightarrow> True | Some r \<Rightarrow> ref_ok r)"
proof -
  define pairs where "pairs = map with_canary managed"
  define st where "st = fold (\<lambda>(ing, _). plan_ingress ing) (filter (\<lambda>(_, c). \<not> ca_enabled c) pairs) (planning_empty ws)"
  define base where "base = fold apply_fallback (pn_fallbacks st) (pn_routes st)"
  have valid: "ingress_valid (fst x)" if "x \<in> set pairs" for x
    using assms(1) that by (auto simp: pairs_def with_canary_def list_all_iff)
  have "planning_wf st" unfolding st_def
    by (rule fold_invariant[where Q = "\<lambda>x. ingress_valid (fst x)"])
       (auto simp: valid planning_empty_wf intro: plan_ingress_wf)
  then have st: "map_wf (pn_routes st)" "\<And>p. p \<in> set (pn_fallbacks st) \<Longrightarrow> plan_wf p"
    by (simp_all add: planning_wf_def list_all_iff)
  have base: "map_wf base" unfolding base_def
    by (rule fold_invariant[where P = map_wf and Q = plan_wf]) (simp_all add: st apply_fallback_wf)
  have "map_wf (fst (fold attach_canary (filter (\<lambda>(_, c). ca_enabled c) pairs) (base, pn_warnings st)))"
    by (rule fold_invariant[where P = "\<lambda>s. map_wf (fst s)" and Q = "\<lambda>x. ingress_valid (fst x)"])
       (auto simp: valid base intro: attach_canary_wf)
  moreover have "routes = fst (fold attach_canary (filter (\<lambda>(_, c). ca_enabled c) pairs) (base, pn_warnings st))"
    "dflt = map_option fst (pn_default st)"
    using assms(2) by (auto simp: plan_routes_def Let_def pairs_def st_def base_def split: prod.splits)
  ultimately show ?thesis using \<open>planning_wf st\<close> by (auto simp: planning_wf_def split: option.splits)
qed

section \<open>What registration keeps\<close>

lemma fst_hm_insert: "set (map fst (hm_insert k v m)) = insert k (set (map fst m))"
  by (auto simp: hm_insert_def)

definition refs_claimed :: "service_ref list \<Rightarrow> claims \<Rightarrow> claims \<Rightarrow> bool" where
  "refs_claimed rs m m' \<longleftrightarrow>
     distinct (map fst m') \<and> fst ` set m' = fst ` set m \<union> set rs"

lemma refs_claimed_refl: "distinct (map fst m) \<Longrightarrow> refs_claimed [] m m"
  by (simp add: refs_claimed_def)

lemma refs_claimed_trans: "refs_claimed rs m m' \<Longrightarrow> refs_claimed ss m' m'' \<Longrightarrow> refs_claimed (rs @ ss) m m''"
  by (auto simp: refs_claimed_def)

lemma claim_backend_claimed:
  assumes "distinct (map fst (fst st))"
  shows "refs_claimed [target] (fst st) (fst (claim_backend target protocol owner st))"
proof (cases "map_of (fst st) target")
  case None
  with assms fst_hm_insert[of target protocol "fst st"] show ?thesis
    by (simp add: claim_backend_def refs_claimed_def)
next
  case (Some held)
  then have "target \<in> fst ` set (fst st)" by (force dest: map_of_SomeD)
  with assms Some show ?thesis by (auto simp: claim_backend_def refs_claimed_def)
qed

lemma claim_plan_claimed:
  assumes "distinct (map fst (fst st))"
  shows "refs_claimed (plan_refs p) (fst st) (fst (claim_plan p st))"
proof -
  note step = claim_backend_claimed
  have c1: "refs_claimed [rp_backend p] (fst st) (fst (claim_backend (rp_backend p) (rp_protocol p) (rp_owner p) st))"
    by (rule step[OF assms])
  define st1 where "st1 = claim_backend (rp_backend p) (rp_protocol p) (rp_owner p) st"
  define st2 where "st2 = (case rp_canary p of None \<Rightarrow> st1 | Some c \<Rightarrow> claim_backend (cp_backend c) (cp_protocol c) (cp_owner c) st1)"
  define cs where "cs = map cp_backend (case rp_canary p of None \<Rightarrow> [] | Some c \<Rightarrow> [c])"
  define ms where "ms = map mp_backend (case rp_mirror p of None \<Rightarrow> [] | Some m \<Rightarrow> [m])"
  have d1: "distinct (map fst (fst st1))" using c1 by (simp add: st1_def refs_claimed_def)
  then have c2: "refs_claimed cs (fst st1) (fst st2)"
    by (cases "rp_canary p") (simp_all add: cs_def st2_def refs_claimed_refl step)
  then have d2: "distinct (map fst (fst st2))" by (simp add: refs_claimed_def)
  moreover have "claim_plan p st = (case rp_mirror p of None \<Rightarrow> st2 | Some m \<Rightarrow> claim_backend (mp_backend m) (mp_protocol m) (rp_owner p) st2)"
    by (simp only: claim_plan_def Let_def st2_def st1_def)
  ultimately have c3: "refs_claimed ms (fst st2) (fst (claim_plan p st))"
    by (cases "rp_mirror p") (simp_all add: ms_def refs_claimed_refl step)
  from refs_claimed_trans[OF refs_claimed_trans[OF c1[folded st1_def] c2] c3]
  show ?thesis by (simp add: plan_refs_def cs_def ms_def)
qed

lemma claim_plans_claimed:
  "distinct (map fst (fst st)) \<Longrightarrow>
     refs_claimed (concat (map plan_refs ps)) (fst st) (fst (fold claim_plan ps st))"
proof (induction ps arbitrary: st)
  case (Cons p ps)
  from claim_plan_claimed[OF Cons.prems, of p] have c: "refs_claimed (plan_refs p) (fst st) (fst (claim_plan p st))" .
  then have "distinct (map fst (fst (claim_plan p st)))" by (simp add: refs_claimed_def)
  from refs_claimed_trans[OF c Cons.IH[OF this]] show ?case by simp
qed (simp add: refs_claimed_refl)

definition map_refs :: "route_map \<Rightarrow> service_ref option \<Rightarrow> service_ref set" where
  "map_refs routes dflt = (\<Union>p \<in> snd ` set routes. set (plan_refs p)) \<union> set_option dflt"

text \<open>The order of a hash map's iteration: some permutation of its contents.\<close>

definition visits_all :: "(route_map \<Rightarrow> route_map) \<Rightarrow> bool" where
  "visits_all visit \<longleftrightarrow> (\<forall>m. mset (visit m) = mset m)"

lemma set_sorted_plans: "visits_all visit \<Longrightarrow> set (sorted_plans visit routes) = snd ` set routes"
  unfolding visits_all_def sorted_plans_def by (metis set_map set_mset_mset set_sort)

lemma collect_backends_claimed:
  assumes "visits_all visit" "collect_backends visit routes dflt = (m, ws)"
  shows "distinct (map fst m)" "fst ` set m = map_refs routes dflt"
proof -
  obtain m0 ws0 where f: "fold claim_plan (sorted_plans visit routes) ([], []) = (m0, ws0)" by fastforce
  have c: "refs_claimed (concat (map plan_refs (sorted_plans visit routes))) [] m0"
    using claim_plans_claimed[of "([], [])" "sorted_plans visit routes"] by (simp add: f)
  then have d: "distinct (map fst m0)" "fst ` set m0 = (\<Union>p \<in> snd ` set routes. set (plan_refs p))"
    by (auto simp: refs_claimed_def set_sorted_plans[OF assms(1)])
  have m: "m = (case dflt of None \<Rightarrow> m0 | Some t \<Rightarrow> (case map_of m0 t of None \<Rightarrow> hm_insert t Http1 m0 | Some _ \<Rightarrow> m0))"
    using assms(2) by (simp add: collect_backends_def f)
  show "distinct (map fst m)"
    using d(1) by (auto simp: m split: option.splits)
  have "t \<in> fst ` set m0" if "map_of m0 t = Some x" for t x
    using that by (force dest: map_of_SomeD)
  then show "fst ` set m = map_refs routes dflt"
    using d(2) fst_hm_insert[of _ Http1 m0] by (auto simp: m map_refs_def split: option.splits)
qed

lemma register_backend_fresh:
  assumes "b_backend_ids (wk_builder w) (backend_name (fst tp)) = None"
  shows "\<exists>w' bid. register_backend ix policy tp w = Inr w'
    \<and> b_backend_ids (wk_builder w') = (b_backend_ids (wk_builder w))(backend_name (fst tp) \<mapsto> bid)
    \<and> b_routes (wk_builder w') = b_routes (wk_builder w)
    \<and> b_default_backend (wk_builder w') = b_default_backend (wk_builder w)
    \<and> b_tls_exact (wk_builder w') = b_tls_exact (wk_builder w)
    \<and> b_tls_wildcard (wk_builder w') = b_tls_wildcard (wk_builder w)
    \<and> b_tls_default (wk_builder w') = b_tls_default (wk_builder w)"
  using assms
  by (cases tp) (auto simp: register_backend_def backend_with_def wk_feed_def wk_warn_def Let_def split: prod.splits)

text \<open>A builder that differs from another only in its backends.\<close>

definition same_tables :: "'r work \<Rightarrow> 'r work \<Rightarrow> bool" where
  "same_tables w w' \<longleftrightarrow>
     b_routes (wk_builder w') = b_routes (wk_builder w)
     \<and> b_default_backend (wk_builder w') = b_default_backend (wk_builder w)
     \<and> b_tls_exact (wk_builder w') = b_tls_exact (wk_builder w)
     \<and> b_tls_wildcard (wk_builder w') = b_tls_wildcard (wk_builder w)
     \<and> b_tls_default (wk_builder w') = b_tls_default (wk_builder w)"

lemma register_all_total:
  assumes "distinct (map (backend_name \<circ> fst) tps)"
    and "\<forall>tp \<in> set tps. b_backend_ids (wk_builder w) (backend_name (fst tp)) = None"
  shows "\<exists>w'. (register_all ix policy tps w :: 'e build_error + 'r work) = Inr w' \<and> same_tables w w'
    \<and> dom (b_backend_ids (wk_builder w')) = dom (b_backend_ids (wk_builder w)) \<union> (backend_name \<circ> fst) ` set tps"
  using assms
proof (induction tps arbitrary: w)
  case (Cons tp tps)
  from Cons.prems obtain w1 bid where w1: "(register_backend ix policy tp w :: 'e build_error + 'r work) = Inr w1" "same_tables w w1"
    and ids: "b_backend_ids (wk_builder w1) = (b_backend_ids (wk_builder w))(backend_name (fst tp) \<mapsto> bid)"
    using register_backend_fresh[of w tp ix policy] by (auto simp: same_tables_def)
  have "\<forall>t \<in> set tps. b_backend_ids (wk_builder w1) (backend_name (fst t)) = None"
    using Cons.prems by (auto simp: ids image_iff)
  with Cons.IH[of w1] Cons.prems obtain w' where "(register_all ix policy tps w1 :: 'e build_error + 'r work) = Inr w'" "same_tables w1 w'"
    "dom (b_backend_ids (wk_builder w')) = dom (b_backend_ids (wk_builder w1)) \<union> (backend_name \<circ> fst) ` set tps" by auto
  with w1 ids show ?case by (auto simp: same_tables_def)
qed (simp add: same_tables_def)

text \<open>What one planned route adds to the builder: nothing, or its draft.\<close>

definition drafts_plan :: "route_plan \<Rightarrow> 'r route_draft \<Rightarrow> bool" where
  "drafts_plan p d \<longleftrightarrow>
     (case rk_host (rp_key p) of
        None \<Rightarrow> rd_slot d = SCatchAll
      | Some h \<Rightarrow> (normalize_config_host h :: unit build_error + host_slot) = Inr (rd_slot d))
     \<and> rd_path d = rk_path (rp_key p) \<and> rd_path_type d = rk_path_type (rp_key p)
     \<and> set (draft_names d) \<subseteq> backend_name ` set (plan_refs p)"

lemma normalize_config_host_error_free:
  "(normalize_config_host h :: 'e build_error + host_slot) = Inr s \<longleftrightarrow>
     (normalize_config_host h :: unit build_error + host_slot) = Inr s"
  by (simp add: normalize_config_host_def Let_def split: option.splits if_splits)

lemma draft_plan:
  assumes "draft compile (rk_host (rp_key p)) (rk_path (rp_key p)) (rk_path_type (rp_key p))
             (backend_name (rp_backend p)) = (Inr d :: 'e build_error + _)"
  shows "drafts_plan p d \<and> rd_canary d = None \<and> rd_mirror d = None \<and> rd_backend d = backend_name (rp_backend p)"
  using assms normalize_config_host_error_free[where 'e = 'e]
  by (auto simp: draft_def sum_bind_Inr_iff drafts_plan_def draft_names_def plan_refs_def
      split: option.splits)

lemma canary_draft_backend: "canary_draft_of compile c slot path = Inr d \<Longrightarrow> cd_backend d = cr_backend c"
  by (auto simp: canary_draft_of_def Let_def sum_bind_Inr_iff split: if_splits)

lemma mirror_draft_backend: "mirror_draft_of m slot path = Inr d \<Longrightarrow> md_backend d = mru_backend m"
  by (auto simp: mirror_draft_of_def split: if_splits)

lemma route_with_plan:
  assumes "(route_with compile b (rk_host (rp_key p)) (rk_path (rp_key p)) (rk_path_type (rp_key p))
             (backend_name (rp_backend p)) opts :: 'e build_error + _) = Inr b'"
    and "opts = plan_options p \<or> opts = \<lparr> ro_canary = None, ro_mirror = None \<rparr>"
  shows "\<exists>d. b' = b\<lparr> b_routes := b_routes b @ [d] \<rparr> \<and> drafts_plan p d"
proof -
  let ?names = "\<lambda>d. set (draft_names d) \<subseteq> backend_name ` set (plan_refs p)"
  from assms(1) obtain d0 d1 d2 where
    d0: "(draft compile (rk_host (rp_key p)) (rk_path (rp_key p)) (rk_path_type (rp_key p)) (backend_name (rp_backend p)) :: 'e build_error + _) = Inr d0"
    and d1: "(case ro_canary opts of None \<Rightarrow> Inr d0 | Some c \<Rightarrow> sum_bind (canary_draft_of compile c (rd_slot d0) (rk_path (rp_key p)))
               (\<lambda>x. Inr (d0\<lparr> rd_canary := Some x \<rparr>))) = (Inr d1 :: 'e build_error + _)"
    and d2: "(case ro_mirror opts of None \<Rightarrow> Inr d1 | Some m \<Rightarrow> sum_bind (mirror_draft_of m (rd_slot d1) (rk_path (rp_key p)))
               (\<lambda>x. Inr (d1\<lparr> rd_mirror := Some x \<rparr>))) = (Inr d2 :: 'e build_error + _)"
    and b': "b' = b\<lparr> b_routes := b_routes b @ [d2] \<rparr>"
    by (auto simp: route_with_def sum_bind_Inr_iff)
  note base = draft_plan[OF d0]
  have c: "d1 = d0 \<or> (\<exists>x c. d1 = d0\<lparr> rd_canary := Some x \<rparr> \<and> rp_canary p = Some c \<and> cd_backend x = backend_name (cp_backend c))"
    using d1 assms(2) by (auto simp: sum_bind_Inr_iff plan_options_def split: option.splits dest!: canary_draft_backend)
  have m: "d2 = d1 \<or> (\<exists>x c. d2 = d1\<lparr> rd_mirror := Some x \<rparr> \<and> rp_mirror p = Some c \<and> md_backend x = backend_name (mp_backend c))"
    using d2 assms(2) by (auto simp: sum_bind_Inr_iff plan_options_def split: option.splits dest!: mirror_draft_backend)
  have "drafts_plan p d2"
    using base c m by (auto simp: drafts_plan_def draft_names_def plan_refs_def split: option.splits)
  with b' show ?thesis by blast
qed

lemma register_route_adds:
  fixes w :: "'r work"
  defines "b \<equiv> wk_builder w"
  shows "wk_builder (register_route compile show_regex p w) = b
    \<or> (\<exists>d. wk_builder (register_route compile show_regex p w) = b\<lparr> b_routes := b_routes b @ [d] \<rparr> \<and> drafts_plan p d)"
proof -
  let ?attempt = "\<lambda>opts. route_with compile b (rk_host (rp_key p)) (rk_path (rp_key p)) (rk_path_type (rp_key p))
                (backend_name (rp_backend p)) opts"
  have keep: "wk_builder (wk_feed f v) = wk_builder v" "wk_builder (wk_warn ws v) = wk_builder v" for f ws and v :: "'r work"
    by (simp_all add: wk_feed_def wk_warn_def)
  show ?thesis
  proof (cases "?attempt (plan_options p)")
    case (Inr b')
    with route_with_plan[of compile b p "plan_options p" b'] show ?thesis
      by (simp add: register_route_def Let_def keep b_def)
  next
    case (Inl e)
    show ?thesis
    proof (cases "?attempt \<lparr> ro_canary = None, ro_mirror = None \<rparr>")
      case (Inr b')
      with Inl route_with_plan[of compile b p "\<lparr> ro_canary = None, ro_mirror = None \<rparr>" b'] show ?thesis
        by (simp add: register_route_def add_route_def Let_def keep b_def)
    next
      case Inl': (Inl e')
      with Inl show ?thesis by (simp add: register_route_def add_route_def Let_def keep b_def)
    qed
  qed
qed

text \<open>Registering all plans adds at most one draft each, in order, and nothing else.\<close>

lemma register_routes_adds:
  fixes w :: "'r work"
  shows "\<exists>ds. wk_builder (fold (register_route compile show_regex) ps w)
      = (wk_builder w)\<lparr> b_routes := b_routes (wk_builder w) @ ds \<rparr>
    \<and> (\<exists>qs. subseq qs ps \<and> list_all2 drafts_plan qs ds)"
proof (induction ps arbitrary: w)
  case Nil
  show ?case by (intro exI[of _ "[]"]) simp
next
  case (Cons p ps)
  let ?w = "register_route compile show_regex p w"
  from Cons.IH[of ?w] obtain ds qs where ds: "wk_builder (fold (register_route compile show_regex) ps ?w)
      = (wk_builder ?w)\<lparr> b_routes := b_routes (wk_builder ?w) @ ds \<rparr>" and qs: "subseq qs ps" "list_all2 drafts_plan qs ds" by blast
  from register_route_adds[of compile show_regex p w] show ?case
  proof (elim disjE exE conjE)
    assume "wk_builder ?w = wk_builder w"
    with ds qs show ?thesis by (intro exI[of _ ds]) auto
  next
    fix d assume "wk_builder ?w = (wk_builder w)\<lparr> b_routes := b_routes (wk_builder w) @ [d] \<rparr>" "drafts_plan p d"
    with ds qs show ?thesis by (intro exI[of _ "d # ds"]) (auto intro!: exI[of _ "p # qs"])
  qed
qed

lemma drafts_plan_key:
  assumes "drafts_plan p d" "drafts_plan q e" "draft_key d = draft_key e"
    and "host_ok (rk_host (rp_key p))" "host_ok (rk_host (rp_key q))"
  shows "rp_key p = rp_key q"
proof -
  from assms(3) have eq: "rd_slot d = rd_slot e" "rd_path d = rd_path e" "rd_path_type d = rd_path_type e"
    by (simp_all add: draft_key_def)
  have host: "rk_host (rp_key p) = (if rd_slot d = SCatchAll then None else Some (slot_host (rd_slot d)))"
    if "drafts_plan p d" "host_ok (rk_host (rp_key p))" for p and d :: "'x route_draft"
  proof (cases "rk_host (rp_key p)")
    case None
    with that show ?thesis by (simp add: drafts_plan_def)
  next
    case (Some h)
    with that have n: "(normalize_config_host h :: unit build_error + host_slot) = Inr (rd_slot d)" "host_ok (Some h)"
      by (simp_all add: drafts_plan_def)
    from config_slot_host[OF n(2,1)] Some show ?thesis by simp
  qed
  from host[OF assms(1,4)] host[OF assms(2,5)] eq(1) have "rk_host (rp_key p) = rk_host (rp_key q)" by simp
  with eq assms(1,2) show ?thesis by (simp add: drafts_plan_def)
qed

lemma draft_keys_distinct:
  assumes "list_all2 drafts_plan qs ds" "distinct (map rp_key qs)" "list_all (\<lambda>p. host_ok (rk_host (rp_key p))) qs"
  shows "distinct (map draft_key ds)"
  using assms
proof (induction qs ds rule: list_all2_induct)
  case (Cons p qs d ds)
  have "draft_key d \<notin> draft_key ` set ds"
  proof
    assume "draft_key d \<in> draft_key ` set ds"
    then obtain e where e: "e \<in> set ds" "draft_key d = draft_key e" by auto
    with Cons.hyps(2) obtain q where q: "q \<in> set qs" "drafts_plan q e" by (metis list_all2_conv_all_nth in_set_conv_nth)
    from drafts_plan_key[OF Cons.hyps(1) q(2) e(2)] Cons.prems q(1) have "rp_key p = rp_key q" by (simp add: list_all_iff)
    with q(1) Cons.prems(1) show False by auto
  qed
  with Cons show ?case by simp
qed simp

lemma add_certificate_frame:
  assumes "add_certificate b host handle = Inr b'"
  shows "b_backend_ids b' = b_backend_ids b \<and> b_routes b' = b_routes b \<and> b_default_backend b' = b_default_backend b"
proof -
  from assms obtain slot where "b' = (case slot of
      SExact h \<Rightarrow> b\<lparr> b_tls_exact := hm_insert h handle (b_tls_exact b) \<rparr>
    | SWildcard h \<Rightarrow> b\<lparr> b_tls_wildcard := hm_insert h handle (b_tls_wildcard b) \<rparr>
    | SCatchAll \<Rightarrow> b\<lparr> b_tls_default := Some handle \<rparr>)"
    by (auto simp: add_certificate_def sum_bind_Inr_iff)
  then show ?thesis by (cases slot) simp_all
qed

lemma cert_frame:
  assumes "register_certificates show_regex compile snapshot opts managed w = (certs, w')"
  shows "b_backend_ids (wk_builder w') = b_backend_ids (wk_builder w)
    \<and> b_routes (wk_builder w') = b_routes (wk_builder w)
    \<and> b_default_backend (wk_builder w') = b_default_backend (wk_builder w)"
proof -
  let ?same = "\<lambda>v. b_backend_ids (wk_builder v) = b_backend_ids (wk_builder w)
    \<and> b_routes (wk_builder v) = b_routes (wk_builder w) \<and> b_default_backend (wk_builder v) = b_default_backend (wk_builder w)"
  have one: "?same (register_cert show_regex compile x v)" if "?same v" for x v
    using that by (auto simp: register_cert_def wk_feed_def wk_warn_def Let_def split: prod.splits sum.splits
        dest: add_certificate_frame)
  have many: "?same (fold (register_cert show_regex compile) xs v)" if "?same v" for xs v
    by (rule fold_invariant[where P = ?same and Q = "\<lambda>_. True"]) (use that one in auto)
  have dflt: "?same (snd (register_default_cert secrets r ms v))" if "?same v" for secrets r ms v
    using that by (auto simp: register_default_cert_def default_certificate_def wk_feed_def wk_warn_def
        split: option.splits sum.splits)
  define c where "c = fold (claim_ingress_tls (secret_index_new (sn_secrets snapshot))) managed
    \<lparr> ct_by_host = [], ct_materials = [], ct_warnings = [] \<rparr>"
  define w1 where "w1 = fold (register_cert show_regex compile) (sort_key fst (ct_by_host c)) (wk_warn (ct_warnings c) w)"
  have "?same (wk_warn (ct_warnings c) w)" by (simp add: wk_warn_def)
  then have "?same w1" unfolding w1_def by (rule many)
  moreover have "w' = snd (register_default_cert (secret_index_new (sn_secrets snapshot)) (co_default_tls_secret opts) (ct_materials c) w1)"
    using assms by (simp add: register_certificates_def Let_def c_def w1_def split: prod.splits)
  ultimately show ?thesis using dflt by simp
qed

lemma subseq_subset: "subseq xs ys \<Longrightarrow> set xs \<subseteq> set ys"
  by (induction rule: list_emb.induct) auto

lemma subseq_distinct_keys: "subseq xs ys \<Longrightarrow> distinct (map f ys) \<Longrightarrow> distinct (map f xs)"
  by (induction rule: list_emb.induct) (auto dest: subseq_subset)

lemma sorted_plans_props:
  assumes "visits_all visit" "map_wf routes"
  shows "distinct (map rp_key (sorted_plans visit routes))" "\<And>p. p \<in> set (sorted_plans visit routes) \<Longrightarrow> plan_wf p"
proof -
  have "map rp_key (map snd routes) = map fst routes"
    using assms(2) by (auto simp: map_wf_def)
  moreover have "mset (map rp_key (sorted_plans visit routes)) = mset (map rp_key (map snd routes))"
    using assms(1) by (simp add: sorted_plans_def visits_all_def image_mset.compositionality)
  ultimately have "mset (map rp_key (sorted_plans visit routes)) = mset (map fst routes)" by (simp only:)
  then show "distinct (map rp_key (sorted_plans visit routes))"
    using assms(2) by (metis map_wf_def mset_eq_imp_distinct_iff)
  show "plan_wf p" if "p \<in> set (sorted_plans visit routes)" for p
    using that assms(2) by (auto simp: set_sorted_plans[OF assms(1)] map_wf_def)
qed

lemma managed_valid:
  "list_all ingress_valid (sn_ingresses snapshot) \<Longrightarrow> list_all ingress_valid (fst (select_managed snapshot opts))"
  by (auto simp: select_managed_def Let_def list_all_iff)

text \<open>The builder a translation pass hands to \<open>build\<close>, when no two backends share a name.\<close>

lemma translate_buildable:
  assumes "visits_all visit" "map_wf routes" "inj_on backend_name (map_refs routes dflt)"
    and "collect_backends visit routes dflt = (backends, ws)"
    and "builder = (case previous of Some t \<Rightarrow> from_previous t | None \<Rightarrow> builder_new)"
    and "w0 = \<lparr> wk_builder = builder, wk_digest = d, wk_warnings = ws' \<rparr>"
  obtains w1 where "(register_backends snapshot opts backends w0 :: 'e build_error + 'r work) = Inr w1"
    and "\<And>w2 w3 w4 w5 certs. w2 = register_routes visit compile show_regex routes w1 \<Longrightarrow>
      w3 = (case dflt of None \<Rightarrow> w2 | Some t \<Rightarrow> w2\<lparr> wk_builder := set_default_backend (wk_builder w2) (backend_name t) \<rparr>) \<Longrightarrow>
      w4 = wk_feed f w3 \<Longrightarrow>
      register_certificates show_regex compile snapshot opts managed w4 = (certs, w5) \<Longrightarrow>
      \<exists>r. (build iter hp rhp (wk_builder w5) :: 'e build_error + heap \<times> route_slot list \<times> 'r route_table) = Inr r"
proof -
  let ?sorted = "sort_key (\<lambda>tp. service_ref_key (fst tp)) backends"
  note claimed = collect_backends_claimed[OF assms(1,4)]
  have empty: "b_backend_ids builder = (\<lambda>_. None)" "b_routes builder = []" "b_default_backend builder = None"
    by (auto simp: assms(5) builder_new_def from_previous_def split: option.splits)
  have names: "distinct (map (backend_name \<circ> fst) ?sorted)"
  proof -
    have "distinct (map backend_name (map fst backends))"
      using claimed assms(3) by (simp only: distinct_map[of backend_name "map fst backends"] set_map)
    moreover have "mset (map (backend_name \<circ> fst) ?sorted) = mset (map backend_name (map fst backends))"
      by (simp add: image_mset.compositionality)
    ultimately show ?thesis using mset_eq_imp_distinct_iff by blast
  qed
  obtain w1 where w1: "(register_backends snapshot opts backends w0 :: 'e build_error + 'r work) = Inr w1" "same_tables w0 w1"
    and dom: "dom (b_backend_ids (wk_builder w1)) = (backend_name \<circ> fst) ` set ?sorted"
    using register_all_total[OF names, of w0 "endpoint_index_new (sn_services snapshot) (sn_endpoint_slices snapshot)" "co_lb_policy opts"]
    by (auto simp: register_backends_def assms(6) empty)
  have dom: "dom (b_backend_ids (wk_builder w1)) = backend_name ` map_refs routes dflt"
    unfolding dom claimed(2)[symmetric] set_sort by (simp only: image_comp)
  have final: "\<exists>r. (build iter hp rhp (wk_builder w5) :: 'e build_error + heap \<times> route_slot list \<times> 'r route_table) = Inr r"
    if w2: "w2 = register_routes visit compile show_regex routes w1"
      and w3: "w3 = (case dflt of None \<Rightarrow> w2 | Some t \<Rightarrow> w2\<lparr> wk_builder := set_default_backend (wk_builder w2) (backend_name t) \<rparr>)"
      and w4: "w4 = wk_feed f w3" and certs: "register_certificates show_regex compile snapshot opts managed w4 = (certs, w5)"
    for w2 w3 w4 w5 certs
  proof -
    obtain ds qs where b2: "wk_builder w2 = (wk_builder w1)\<lparr> b_routes := ds \<rparr>"
      and qs: "subseq qs (sorted_plans visit routes)" "list_all2 drafts_plan qs ds"
      using register_routes_adds[of compile show_regex "sorted_plans visit routes" w1] w1(2) empty(2)
      by (auto simp: w2 register_routes_def same_tables_def assms(6))
    have b5: "b_backend_ids (wk_builder w5) = b_backend_ids (wk_builder w1)" "b_routes (wk_builder w5) = ds"
      "b_default_backend (wk_builder w5) = map_option backend_name dflt"
      using cert_frame[OF certs] w1(2) empty(3)
      by (auto simp: w4 w3 b2 wk_feed_def set_default_backend_def same_tables_def assms(6) split: option.splits)
    have sub: "set qs \<subseteq> set (sorted_plans visit routes)" using qs(1) by (rule subseq_subset)
    have "distinct (map rp_key qs)"
      using subseq_distinct_keys[OF qs(1)] sorted_plans_props(1)[OF assms(1,2)] by blast
    moreover have "list_all (\<lambda>p. host_ok (rk_host (rp_key p))) qs"
      using sub sorted_plans_props(2)[OF assms(1,2)] by (auto simp: list_all_iff plan_wf_def)
    ultimately have "distinct (map draft_key ds)" using draft_keys_distinct qs(2) by blast
    moreover have "set (draft_names e) \<subseteq> dom (b_backend_ids (wk_builder w1))" if "e \<in> set ds" for e
    proof -
      from that qs(2) obtain q where q: "q \<in> set qs" "drafts_plan q e" by (metis list_all2_conv_all_nth in_set_conv_nth)
      with sub have "q \<in> snd ` set routes" by (auto simp: set_sorted_plans[OF assms(1)])
      then have "set (plan_refs q) \<subseteq> map_refs routes dflt" by (auto simp: map_refs_def)
      with q(2) show ?thesis unfolding dom drafts_plan_def by blast
    qed
    moreover have "name \<in> dom (b_backend_ids (wk_builder w1))" if "map_option backend_name dflt = Some name" for name
      using that unfolding dom by (auto simp: map_refs_def)
    ultimately show ?thesis unfolding build_exists b5 by blast
  qed
  show thesis by (rule that[OF w1(1)]) (rule final)
qed

section \<open>A pass never fails\<close>

lemma map_refs_ok:
  assumes "map_wf routes" "case dflt of None \<Rightarrow> True | Some r \<Rightarrow> ref_ok r" "r \<in> map_refs routes dflt"
  shows "ref_ok r"
  using assms by (auto simp: map_refs_def map_wf_def plan_wf_def list_all_iff)

lemma translate_total_aux:
  assumes "visits_all visit" "list_all ingress_valid (sn_ingresses snapshot)"
    and "case co_default_backend opts of None \<Rightarrow> True | Some r \<Rightarrow> ref_ok r"
  shows "\<exists>r. (translate visit compile show_regex iter hp rhp snapshot opts previous
            :: 'e build_error + heap \<times> route_slot list \<times> 'r translation) = Inr r"
proof -
  obtain managed ws0 where managed: "select_managed snapshot opts = (managed, ws0)" by fastforce
  obtain routes gd ws1 where plan: "plan_routes managed ws0 = (routes, gd, ws1)" using prod_cases3 by blast
  let ?dflt = "case gd of Some r \<Rightarrow> Some r | None \<Rightarrow> co_default_backend opts"
  obtain backends ws2 where claims: "collect_backends visit routes ?dflt = (backends, ws2)" by fastforce
  have "list_all ingress_valid managed" using managed_valid[OF assms(2), of opts] by (simp add: managed)
  from plan_routes_wf[OF this plan] assms(3)
  have wf: "map_wf routes" "case ?dflt of None \<Rightarrow> True | Some r \<Rightarrow> ref_ok r" by (auto split: option.splits)
  have inj: "inj_on backend_name (map_refs routes ?dflt)"
    by (rule inj_onI) (use backend_name_inject map_refs_ok[OF wf] in blast)
  obtain w1 where reg: "(register_backends snapshot opts backends
      \<lparr> wk_builder = (case previous of Some t \<Rightarrow> from_previous t | None \<Rightarrow> builder_new), wk_digest = FNV_OFFSET,
        wk_warnings = ws1 @ ws2 \<rparr> :: 'e build_error + 'r work) = Inr w1"
    and bld: "\<And>w2 w3 w4 w5 certs. w2 = register_routes visit compile show_regex routes w1 \<Longrightarrow>
      w3 = (case ?dflt of None \<Rightarrow> w2 | Some t \<Rightarrow> w2\<lparr> wk_builder := set_default_backend (wk_builder w2) (backend_name t) \<rparr>) \<Longrightarrow>
      w4 = wk_feed (digest_opt_str (map_option backend_name ?dflt)) w3 \<Longrightarrow>
      register_certificates show_regex compile snapshot opts managed w4 = (certs, w5) \<Longrightarrow>
      \<exists>r. (build iter hp rhp (wk_builder w5) :: 'e build_error + heap \<times> route_slot list \<times> 'r route_table) = Inr r"
    by (rule translate_buildable[OF assms(1) wf(1) inj claims refl refl]) blast
  define w2 where "w2 = register_routes visit compile show_regex routes w1"
  define w4 where "w4 = wk_feed (digest_opt_str (map_option backend_name ?dflt))
    (case ?dflt of None \<Rightarrow> w2 | Some t \<Rightarrow> w2\<lparr> wk_builder := set_default_backend (wk_builder w2) (backend_name t) \<rparr>)"
  obtain certs w5 where certs: "register_certificates show_regex compile snapshot opts managed w4 = (certs, w5)" by fastforce
  from bld[OF w2_def refl w4_def certs] obtain r
    where "(build iter hp rhp (wk_builder w5) :: 'e build_error + heap \<times> route_slot list \<times> 'r route_table) = Inr r" by blast
  then show ?thesis
    by (cases r) (simp add: translate_def managed plan claims reg Let_def certs[unfolded w4_def w2_def])
qed

definition is_production :: "ingress \<Rightarrow> bool" where
  "is_production ing \<longleftrightarrow> \<not> ca_enabled (canary_parse (om_annotations (ing_meta ing)))"

section \<open>What is warned about\<close>

text \<open>What can be wrong with an Ingress by itself or with the Secrets it names, by the kind of its warning.\<close>

definition http_entries :: "ingress \<Rightarrow> ingress_path list" where
  "http_entries ing =
     (case ing_spec ing of None \<Rightarrow> [] | Some spec \<Rightarrow> concat (map (\<lambda>r. opt_or [] (iru_http r)) (opt_or [] (isp_rules spec))))"

definition tls_entries :: "ingress \<Rightarrow> ingress_tls list" where
  "tls_entries ing = (case ing_spec ing of None \<Rightarrow> [] | Some spec \<Rightarrow> opt_or [] (isp_tls spec))"

definition unusable_backend :: "ingress_backend \<Rightarrow> bool" where
  "unusable_backend b =
     (case Option.bind (ib_service b) isb_port of None \<Rightarrow> True | Some p \<Rightarrow> sbp_number p = None \<and> sbp_name p = None)"

definition tls_hosts :: "ingress_tls \<Rightarrow> string list" where
  "tls_hosts entry = List.map_filter (\<lambda>h. normalize_host (Some h)) (opt_or [] (itl_hosts entry))"

definition unusable_mirror :: "ingress \<Rightarrow> bool" where
  "unusable_mirror ing =
     (case ma_backend (mirror_parse (om_annotations (ing_meta ing))) of
        None \<Rightarrow> False
      | Some r \<Rightarrow> isl (parse_service_ref
          (if CHR ''/'' \<in> set r then r else ok_namespace (key_of (ing_meta ing)) @ ''/'' @ r)))"

fun fault :: "(string \<times> string \<Rightarrow> secret option) \<Rightarrow> ingress \<Rightarrow> warning_kind \<Rightarrow> bool" where
  "fault secrets ing UnsupportedBackend =
     ((\<exists>e \<in> set (http_entries ing). unusable_backend (ipa_backend e))
      \<or> is_production ing \<and> (case Option.bind (ing_spec ing) isp_default_backend of None \<Rightarrow> False | Some b \<Rightarrow> unusable_backend b))"
| "fault secrets ing InvalidAnnotation =
     (let ann = om_annotations (ing_meta ing)
      in (\<exists>e \<in> set (http_entries ing). \<not> unusable_backend (ipa_backend e)
            \<and> ipa_path_type e \<notin> {''Exact'', ''Prefix'', ''ImplementationSpecific''})
         \<or> ing_spec ing \<noteq> None \<and> bp_unsupported (backend_protocol_parse ann) \<noteq> None
         \<or> is_production ing \<and> ing_spec ing \<noteq> None \<and> ma_invalid (mirror_parse ann) \<noteq> []
         \<or> \<not> is_production ing \<and> (ca_invalid (canary_parse ann) \<noteq> [] \<or> mirror_enabled (mirror_parse ann)
              \<or> pa_enabled (promotion_parse ann) \<and> pa_invalid (promotion_parse ann) \<noteq> []))"
| "fault secrets ing MirrorRejected = (is_production ing \<and> ing_spec ing \<noteq> None \<and> unusable_mirror ing)"
| "fault secrets ing CanaryInert =
     (\<not> is_production ing \<and> canary_is_inert (canary_parse (om_annotations (ing_meta ing))))"
| "fault secrets ing TlsHostless = (\<exists>e \<in> set (tls_entries ing). tls_hosts e = [])"
| "fault secrets ing TlsSecret =
     (\<exists>e \<in> set (tls_entries ing). tls_hosts e \<noteq> []
        \<and> (case itl_secret_name e of None \<Rightarrow> True | Some name \<Rightarrow> isl (material secrets (ok_namespace (key_of (ing_meta ing))) name)))"
| "fault secrets ing _ = False"

definition warned :: "warning list \<Rightarrow> object_key \<Rightarrow> warning_kind \<Rightarrow> bool" where
  "warned ws subject kind \<longleftrightarrow> list_ex (\<lambda>w. wa_subject w = subject \<and> wa_kind w = kind) ws"

lemma warned_mono: "warned ws o' k \<Longrightarrow> set ws \<subseteq> set ws' \<Longrightarrow> warned ws' o' k"
  by (auto simp: warned_def list_ex_iff)

lemma warned_simps [simp]:
  "warned (ws @ ws') o' k \<longleftrightarrow> warned ws o' k \<or> warned ws' o' k"
  "warned (w # ws) o' k \<longleftrightarrow> (wa_subject w = o' \<and> wa_kind w = k) \<or> warned ws o' k" "\<not> warned [] o' k"
  "wa_subject (warn o' k d) = o'" "wa_kind (warn o' k d) = k"
  by (simp_all add: warned_def warn_def)

lemma fold_keeps:
  assumes "\<And>x s. x \<in> set xs \<Longrightarrow> set (W s) \<subseteq> set (W (f x s))"
  shows "set (W s) \<subseteq> set (W (fold f xs s))"
  using assms by (induction xs arbitrary: s) (auto, blast)

lemma fold_warns:
  assumes "x \<in> set xs" "\<And>y s. y \<in> set xs \<Longrightarrow> set (W s) \<subseteq> set (W (f y s))" "\<And>s. warned (W (f x s)) o' k"
  shows "warned (W (fold f xs s)) o' k"
proof -
  obtain ys zs where xs: "xs = ys @ x # zs" using split_list[OF assms(1)] by blast
  have "set (W (f x (fold f ys s))) \<subseteq> set (W (fold f zs (f x (fold f ys s))))"
    by (rule fold_keeps) (simp add: assms(2) xs)
  with assms(3) show ?thesis unfolding xs by (auto intro: warned_mono)
qed

lemma backend_ref_warns: "unusable_backend b \<Longrightarrow> fst (backend_ref ns b owner) = None \<and> warned (snd (backend_ref ns b owner)) owner UnsupportedBackend"
  "\<not> unusable_backend b \<Longrightarrow> \<exists>r. backend_ref ns b owner = (Some r, [])"
  by (auto simp: unusable_backend_def backend_ref_def Let_def bind_eq_Some_conv split: option.splits)

lemma path_type_warns:
  "raw \<notin> {''Exact'', ''Prefix'', ''ImplementationSpecific''} \<Longrightarrow> warned (snd (parse_path_type raw owner)) owner InvalidAnnotation"
  by (simp add: parse_path_type_def)

lemma plan_entry_warnings:
  "set (pn_warnings st) \<subseteq> set (pn_warnings (plan_entry owner protocol mirror host entry st))"
  "unusable_backend (ipa_backend entry) \<Longrightarrow> warned (pn_warnings (plan_entry owner protocol mirror host entry st)) owner UnsupportedBackend"
  "\<not> unusable_backend (ipa_backend entry) \<Longrightarrow> ipa_path_type entry \<notin> {''Exact'', ''Prefix'', ''ImplementationSpecific''}
     \<Longrightarrow> warned (pn_warnings (plan_entry owner protocol mirror host entry st)) owner InvalidAnnotation"
proof -
  show "set (pn_warnings st) \<subseteq> set (pn_warnings (plan_entry owner protocol mirror host entry st))"
    by (auto simp: plan_entry_def pn_warn_def Let_def split: option.splits prod.splits)
  show "warned (pn_warnings (plan_entry owner protocol mirror host entry st)) owner UnsupportedBackend"
    if "unusable_backend (ipa_backend entry)"
    using backend_ref_warns(1)[OF that, of "ok_namespace owner" owner]
    by (cases "backend_ref (ok_namespace owner) (ipa_backend entry) owner") (simp add: plan_entry_def pn_warn_def)
  show "warned (pn_warnings (plan_entry owner protocol mirror host entry st)) owner InvalidAnnotation"
    if u: "\<not> unusable_backend (ipa_backend entry)" and "ipa_path_type entry \<notin> {''Exact'', ''Prefix'', ''ImplementationSpecific''}"
    using backend_ref_warns(2)[OF u, of "ok_namespace owner" owner] path_type_warns[OF that(2), of owner]
    by (auto simp: plan_entry_def pn_warn_def Let_def split: option.splits prod.splits)
qed

lemma attach_entry_warnings:
  "set (snd st) \<subseteq> set (snd (attach_entry owner rules protocol host entry st))"
  "unusable_backend (ipa_backend entry) \<Longrightarrow> warned (snd (attach_entry owner rules protocol host entry st)) owner UnsupportedBackend"
  "\<not> unusable_backend (ipa_backend entry) \<Longrightarrow> ipa_path_type entry \<notin> {''Exact'', ''Prefix'', ''ImplementationSpecific''}
     \<Longrightarrow> warned (snd (attach_entry owner rules protocol host entry st)) owner InvalidAnnotation"
proof -
  show "set (snd st) \<subseteq> set (snd (attach_entry owner rules protocol host entry st))"
    by (auto simp: attach_entry_def Let_def split: option.splits prod.splits)
  show "warned (snd (attach_entry owner rules protocol host entry st)) owner UnsupportedBackend"
    if "unusable_backend (ipa_backend entry)"
    using backend_ref_warns(1)[OF that, of "ok_namespace owner" owner]
    by (cases "backend_ref (ok_namespace owner) (ipa_backend entry) owner") (simp add: attach_entry_def)
  show "warned (snd (attach_entry owner rules protocol host entry st)) owner InvalidAnnotation"
    if u: "\<not> unusable_backend (ipa_backend entry)" and "ipa_path_type entry \<notin> {''Exact'', ''Prefix'', ''ImplementationSpecific''}"
    using backend_ref_warns(2)[OF u, of "ok_namespace owner" owner] path_type_warns[OF that(2), of owner]
    by (auto simp: attach_entry_def Let_def split: option.splits prod.splits)
qed

text \<open>An Ingress is planned, attached or claimed for as a fold over its entries.\<close>

lemma plan_ingress_fold:
  assumes "ing_spec ing = Some spec"
  obtains protocol ws mirror ws' where
    "backend_protocol_of (om_annotations (ing_meta ing)) (key_of (ing_meta ing)) = (protocol, ws)"
    "mirror_plan_of (om_annotations (ing_meta ing)) (ok_namespace (key_of (ing_meta ing))) (key_of (ing_meta ing)) protocol = (mirror, ws')"
    "\<And>st. plan_ingress ing st = plan_default (key_of (ing_meta ing)) protocol mirror spec
       (fold (plan_rule (key_of (ing_meta ing)) protocol mirror) (opt_or [] (isp_rules spec)) (pn_warn (ws @ ws') st))"
proof -
  obtain protocol ws where b: "backend_protocol_of (om_annotations (ing_meta ing)) (key_of (ing_meta ing)) = (protocol, ws)"
    by fastforce
  obtain mirror ws' where m: "mirror_plan_of (om_annotations (ing_meta ing)) (ok_namespace (key_of (ing_meta ing)))
      (key_of (ing_meta ing)) protocol = (mirror, ws')" by fastforce
  show thesis by (rule that[OF b m]) (simp add: plan_ingress_def assms b m Let_def)
qed

lemma plan_rule_keeps: "set (pn_warnings st) \<subseteq> set (pn_warnings (plan_rule owner protocol mirror rule st))"
  unfolding plan_rule_def by (rule fold_keeps) (rule plan_entry_warnings(1))

lemma plan_rules_keep: "set (pn_warnings st) \<subseteq> set (pn_warnings (fold (plan_rule owner protocol mirror) rules st))"
  by (rule fold_keeps) (rule plan_rule_keeps)

lemma plan_default_keeps: "set (pn_warnings st) \<subseteq> set (pn_warnings (plan_default owner protocol mirror spec st))"
  by (auto simp: plan_default_def pn_warn_def Let_def split: option.splits prod.splits)

lemma plan_rules_warn:
  assumes "rule \<in> set rules" "entry \<in> set (opt_or [] (iru_http rule))"
    and "\<And>host s. warned (pn_warnings (plan_entry owner protocol mirror host entry s)) owner k"
  shows "warned (pn_warnings (fold (plan_rule owner protocol mirror) rules st)) owner k"
proof (rule fold_warns[where x = rule and W = pn_warnings, OF assms(1)])
  show "warned (pn_warnings (plan_rule owner protocol mirror rule s)) owner k" for s
    unfolding plan_rule_def
    by (rule fold_warns[where x = entry and W = pn_warnings, OF assms(2)]) (rule plan_entry_warnings(1), rule assms(3))
qed (rule plan_rule_keeps)

lemma plan_ingress_keeps: "set (pn_warnings st) \<subseteq> set (pn_warnings (plan_ingress ing st))"
proof (cases "ing_spec ing")
  case (Some spec)
  obtain protocol ws mirror ws' where p: "\<And>st. plan_ingress ing st = plan_default (key_of (ing_meta ing)) protocol mirror spec
       (fold (plan_rule (key_of (ing_meta ing)) protocol mirror) (opt_or [] (isp_rules spec)) (pn_warn (ws @ ws') st))"
    by (rule plan_ingress_fold[OF Some]) blast
  have "set (pn_warnings st) \<subseteq> set (pn_warnings (pn_warn (ws @ ws') st))" by (simp add: pn_warn_def)
  also note plan_rules_keep
  also note plan_default_keeps
  finally show ?thesis unfolding p .
qed (simp add: plan_ingress_def)

lemma plan_ingress_warns:
  assumes "is_production ing" "fault secrets ing k" "k \<notin> {TlsHostless, TlsSecret}"
  shows "warned (pn_warnings (plan_ingress ing st)) (key_of (ing_meta ing)) k"
proof (cases "ing_spec ing")
  case None
  with assms show ?thesis by (cases k) (auto simp: http_entries_def Let_def)
next
  case (Some spec)
  let ?o = "key_of (ing_meta ing)" and ?ann = "om_annotations (ing_meta ing)"
  obtain protocol ws mirror ws' where b: "backend_protocol_of ?ann ?o = (protocol, ws)"
    and m: "mirror_plan_of ?ann (ok_namespace ?o) ?o protocol = (mirror, ws')"
    and p: "\<And>st. plan_ingress ing st = plan_default ?o protocol mirror spec
       (fold (plan_rule ?o protocol mirror) (opt_or [] (isp_rules spec)) (pn_warn (ws @ ws') st))"
    by (rule plan_ingress_fold[OF Some]) blast
  have early: ?thesis if "warned (ws @ ws') ?o k"
  proof -
    have "set (ws @ ws') \<subseteq> set (pn_warnings (pn_warn (ws @ ws') st))" by (simp add: pn_warn_def)
    also note plan_rules_keep
    also note plan_default_keeps
    finally show ?thesis unfolding p by (rule warned_mono[OF that])
  qed
  have entry: ?thesis if e: "e \<in> set (http_entries ing)" and
    warns: "\<And>host s. warned (pn_warnings (plan_entry ?o protocol mirror host e s)) ?o k" for e
  proof -
    obtain rule where "rule \<in> set (opt_or [] (isp_rules spec))" "e \<in> set (opt_or [] (iru_http rule))"
      using e Some by (auto simp: http_entries_def)
    from plan_rules_warn[OF this warns] show ?thesis unfolding p by (rule warned_mono) (rule plan_default_keeps)
  qed
  show ?thesis
  proof (cases k)
    case UnsupportedBackend
    have ?thesis if "isp_default_backend spec = Some d" "unusable_backend d" for d
      using backend_ref_warns(1)[OF that(2), of "ok_namespace ?o" ?o] that(1) unfolding p UnsupportedBackend
      by (cases "backend_ref (ok_namespace ?o) d ?o") (simp add: plan_default_def pn_warn_def)
    with assms(2) Some UnsupportedBackend entry plan_entry_warnings(2) show ?thesis
      by (auto split: option.splits)
  next
    case InvalidAnnotation
    have "warned (ws @ ws') ?o k" if "bp_unsupported (backend_protocol_parse ?ann) \<noteq> None \<or> ma_invalid (mirror_parse ?ann) \<noteq> []"
      using that b m InvalidAnnotation
      by (cases "ma_invalid (mirror_parse ?ann)") (auto simp: backend_protocol_of_def mirror_plan_of_def Let_def split: option.splits sum.splits)
    with assms(1,2) InvalidAnnotation early entry plan_entry_warnings(3) show ?thesis by (auto simp: Let_def)
  next
    case MirrorRejected
    with assms(2) m have "warned (ws @ ws') ?o k"
      by (auto simp: unusable_mirror_def mirror_plan_of_def Let_def isl_def split: option.splits sum.splits if_splits)
    then show ?thesis by (rule early)
  qed (use assms in simp_all)
qed

definition attach_rule ::
  "object_key \<Rightarrow> canary_annotations \<Rightarrow> backend_protocol \<Rightarrow> ingress_rule \<Rightarrow> route_map \<times> warning list \<Rightarrow> route_map \<times> warning list" where
  "attach_rule owner rules protocol rule =
     fold (attach_entry owner rules protocol (normalize_host (iru_host rule))) (opt_or [] (iru_http rule))"

lemma attach_canary_fold:
  obtains protocol ws where "backend_protocol_of (om_annotations (ing_meta ing)) (key_of (ing_meta ing)) = (protocol, ws)"
    "\<And>st. attach_canary (ing, rules) st =
       fold (attach_rule (key_of (ing_meta ing)) rules protocol) (case ing_spec ing of None \<Rightarrow> [] | Some spec \<Rightarrow> opt_or [] (isp_rules spec))
         (fst st, snd st @ ws @ canary_warnings (key_of (ing_meta ing)) (om_annotations (ing_meta ing)) rules)"
proof -
  obtain protocol ws where b: "backend_protocol_of (om_annotations (ing_meta ing)) (key_of (ing_meta ing)) = (protocol, ws)"
    by fastforce
  show thesis
    by (rule that[OF b]) (simp add: attach_canary_def b Let_def attach_rule_def[abs_def] split: option.split)
qed

lemma attach_rule_keeps: "set (snd st) \<subseteq> set (snd (attach_rule owner rules protocol rule st))"
  unfolding attach_rule_def by (rule fold_keeps) (rule attach_entry_warnings(1))

lemma attach_canary_keeps: "set (snd st) \<subseteq> set (snd (attach_canary c st))"
proof -
  obtain ing rules where c: "c = (ing, rules)" by fastforce
  obtain protocol ws where p: "\<And>st. attach_canary (ing, rules) st =
       fold (attach_rule (key_of (ing_meta ing)) rules protocol) (case ing_spec ing of None \<Rightarrow> [] | Some spec \<Rightarrow> opt_or [] (isp_rules spec))
         (fst st, snd st @ ws @ canary_warnings (key_of (ing_meta ing)) (om_annotations (ing_meta ing)) rules)"
    by (rule attach_canary_fold) blast
  have "set (snd st) \<subseteq> set (snd (fst st, snd st @ ws @ canary_warnings (key_of (ing_meta ing)) (om_annotations (ing_meta ing)) rules))"
    by simp
  also have "\<dots> \<subseteq> set (snd (attach_canary c st))" unfolding c p by (rule fold_keeps) (rule attach_rule_keeps)
  finally show ?thesis .
qed

lemma attach_canary_warns:
  assumes "\<not> is_production ing" "fault secrets ing k" "k \<notin> {TlsHostless, TlsSecret}"
    and "\<not> (k = InvalidAnnotation \<and> pa_enabled (promotion_parse (om_annotations (ing_meta ing)))
           \<and> pa_invalid (promotion_parse (om_annotations (ing_meta ing))) \<noteq> [])"
  shows "warned (snd (attach_canary (with_canary ing) st)) (key_of (ing_meta ing)) k"
proof -
  let ?o = "key_of (ing_meta ing)" and ?ann = "om_annotations (ing_meta ing)" and ?c = "canary_parse (om_annotations (ing_meta ing))"
  let ?rules = "case ing_spec ing of None \<Rightarrow> [] | Some spec \<Rightarrow> opt_or [] (isp_rules spec)"
  obtain protocol ws where b: "backend_protocol_of ?ann ?o = (protocol, ws)"
    and p: "\<And>st. attach_canary (ing, ?c) st = fold (attach_rule ?o ?c protocol) ?rules (fst st, snd st @ ws @ canary_warnings ?o ?ann ?c)"
    by (rule attach_canary_fold) blast
  have early: ?thesis if "warned (ws @ canary_warnings ?o ?ann ?c) ?o k"
  proof -
    have "set (ws @ canary_warnings ?o ?ann ?c) \<subseteq> set (snd (fst st, snd st @ ws @ canary_warnings ?o ?ann ?c))" by simp
    also have "\<dots> \<subseteq> set (snd (attach_canary (ing, ?c) st))" unfolding p by (rule fold_keeps) (rule attach_rule_keeps)
    finally show ?thesis unfolding with_canary_def by (rule warned_mono[OF that])
  qed
  have entry: ?thesis if e: "e \<in> set (http_entries ing)" and
    warns: "\<And>host s. warned (snd (attach_entry ?o ?c protocol host e s)) ?o k" for e
  proof -
    obtain rule where r: "rule \<in> set ?rules" "e \<in> set (opt_or [] (iru_http rule))"
      using e by (auto simp: http_entries_def split: option.splits)
    have "warned (snd (attach_rule ?o ?c protocol rule s)) ?o k" for s
      unfolding attach_rule_def by (rule fold_warns[where x = e and W = snd, OF r(2)]) (rule attach_entry_warnings(1), rule warns)
    then show ?thesis unfolding with_canary_def p
      by (intro fold_warns[where x = rule and W = snd, OF r(1)] attach_rule_keeps)
  qed
  show ?thesis
  proof (cases k)
    case UnsupportedBackend
    with assms(1,2) entry attach_entry_warnings(2) show ?thesis by auto
  next
    case InvalidAnnotation
    have "warned (ws @ canary_warnings ?o ?ann ?c) ?o k"
      if "bp_unsupported (backend_protocol_parse ?ann) \<noteq> None \<or> ca_invalid ?c \<noteq> [] \<or> mirror_enabled (mirror_parse ?ann)"
      using that b InvalidAnnotation
      by (cases "ca_invalid ?c") (auto simp: backend_protocol_of_def canary_warnings_def Let_def split: option.splits)
    with assms InvalidAnnotation early entry attach_entry_warnings(3) show ?thesis by (auto simp: Let_def)
  next
    case CanaryInert
    with assms(2) have "warned (ws @ canary_warnings ?o ?ann ?c) ?o k" by (simp add: canary_warnings_def)
    then show ?thesis by (rule early)
  qed (use assms in simp_all)
qed

text \<open>The faults of the routes an Ingress asks for are warned about while they are planned.\<close>

lemma plan_routes_warn:
  assumes "plan_routes managed ws = (routes, gd, ws')"
  shows "set ws \<subseteq> set ws'"
    and "ing \<in> set managed \<Longrightarrow> fault secrets ing k \<Longrightarrow> k \<notin> {TlsHostless, TlsSecret} \<Longrightarrow>
      \<not> (k = InvalidAnnotation \<and> \<not> is_production ing \<and> pa_enabled (promotion_parse (om_annotations (ing_meta ing)))
           \<and> pa_invalid (promotion_parse (om_annotations (ing_meta ing))) \<noteq> []) \<Longrightarrow>
      warned ws' (key_of (ing_meta ing)) k"
proof -
  let ?prod = "filter (\<lambda>(_, c). \<not> ca_enabled c) (map with_canary managed)"
    and ?can = "filter (\<lambda>(_, c). ca_enabled c) (map with_canary managed)"
  define st where "st = fold (\<lambda>(ing, _). plan_ingress ing) ?prod (planning_empty ws)"
  define r0 where "r0 = fold apply_fallback (pn_fallbacks st) (pn_routes st)"
  have ws': "ws' = snd (fold attach_canary ?can (r0, pn_warnings st))"
    using assms by (auto simp: plan_routes_def Let_def st_def r0_def split: prod.splits)
  have "set ws \<subseteq> set (pn_warnings (planning_empty ws))" by (simp add: planning_empty_def)
  also have "\<dots> \<subseteq> set (pn_warnings st)"
    unfolding st_def by (rule fold_keeps) (auto simp: plan_ingress_keeps[THEN subsetD])
  also have st_ws: "\<dots> \<subseteq> set ws'"
    unfolding ws' using fold_keeps[where W = snd and xs = ?can and s = "(r0, pn_warnings st)", OF attach_canary_keeps] by simp
  finally show "set ws \<subseteq> set ws'" .
  assume i: "ing \<in> set managed" "fault secrets ing k" "k \<notin> {TlsHostless, TlsSecret}"
    and np: "\<not> (k = InvalidAnnotation \<and> \<not> is_production ing \<and> pa_enabled (promotion_parse (om_annotations (ing_meta ing)))
           \<and> pa_invalid (promotion_parse (om_annotations (ing_meta ing))) \<noteq> [])"
  show "warned ws' (key_of (ing_meta ing)) k"
  proof (cases "is_production ing")
    case True
    then have "with_canary ing \<in> set ?prod" using i(1) by (auto simp: with_canary_def is_production_def)
    then have "warned (pn_warnings st) (key_of (ing_meta ing)) k"
      unfolding st_def
      by (rule fold_warns[where W = pn_warnings])
         (auto simp: plan_ingress_keeps[THEN subsetD] with_canary_def intro: plan_ingress_warns[OF True i(2,3)])
    then show ?thesis using st_ws by (rule warned_mono)
  next
    case False
    then have c: "with_canary ing \<in> set ?can" using i(1) by (auto simp: with_canary_def is_production_def)
    show ?thesis
      unfolding ws' by (rule fold_warns[where x = "with_canary ing" and W = snd, OF c attach_canary_keeps])
        (rule attach_canary_warns[OF False i(2,3)], use False np in blast)
  qed
qed

lemma claim_hosts_keep: "set (ct_warnings c) \<subseteq> set (ct_warnings (fold (claim_host owner h) hosts c))"
  by (rule fold_keeps) (auto simp: claim_host_def ct_warn_def split: option.split)

lemma claim_tls_keeps: "set (ct_warnings c) \<subseteq> set (ct_warnings (claim_tls secrets owner entry c))"
  using claim_hosts_keep by (auto simp: claim_tls_def ct_warn_def Let_def split: option.split sum.split)

lemma claim_tls_warns:
  "tls_hosts entry = [] \<Longrightarrow> warned (ct_warnings (claim_tls secrets owner entry c)) owner TlsHostless"
  "tls_hosts entry \<noteq> [] \<Longrightarrow>
     (case itl_secret_name entry of None \<Rightarrow> True | Some name \<Rightarrow> isl (material secrets (ok_namespace owner) name)) \<Longrightarrow>
     warned (ct_warnings (claim_tls secrets owner entry c)) owner TlsSecret"
  by (auto simp: claim_tls_def tls_hosts_def ct_warn_def Let_def isl_def split: option.splits)

lemma claim_ingress_tls_fold: "claim_ingress_tls secrets ing = fold (claim_tls secrets (key_of (ing_meta ing))) (tls_entries ing)"
  by (simp add: fun_eq_iff claim_ingress_tls_def tls_entries_def split: option.split)

lemma claim_ingress_tls_keeps: "set (ct_warnings c) \<subseteq> set (ct_warnings (claim_ingress_tls secrets ing c))"
  unfolding claim_ingress_tls_fold by (rule fold_keeps) (rule claim_tls_keeps)

lemma claims_tls_warn:
  assumes "ing \<in> set managed" "fault secrets ing k" "k \<in> {TlsHostless, TlsSecret}"
  shows "warned (ct_warnings (fold (claim_ingress_tls secrets) managed c)) (key_of (ing_meta ing)) k"
proof (rule fold_warns[where x = ing and W = ct_warnings, OF assms(1) claim_ingress_tls_keeps])
  obtain e where e: "e \<in> set (tls_entries ing)" "\<And>s. warned (ct_warnings (claim_tls secrets (key_of (ing_meta ing)) e s)) (key_of (ing_meta ing)) k"
    using assms(2,3) claim_tls_warns by fastforce
  then show "warned (ct_warnings (claim_ingress_tls secrets ing s)) (key_of (ing_meta ing)) k" for s
    unfolding claim_ingress_tls_fold by (intro fold_warns[where x = e and W = ct_warnings] claim_tls_keeps)
qed

lemma register_routes_keep: "set (wk_warnings w) \<subseteq> set (wk_warnings (register_routes visit compile show_regex routes w))"
  unfolding register_routes_def
  by (rule fold_keeps) (auto simp: register_route_def wk_warn_def wk_feed_def Let_def split: prod.splits sum.splits)

lemma register_all_warnings:
  "(register_all ix policy tps w :: 'e build_error + 'r work) = Inr w' \<Longrightarrow> wk_warnings w' = wk_warnings w @ concat (map (\<lambda>tp. snd (backend_endpoints ix (fst tp))) tps)"
proof (induction tps arbitrary: w)
  case (Cons tp tps)
  obtain w1 where w1: "(register_backend ix policy tp w :: 'e build_error + 'r work) = Inr w1"
    "(register_all ix policy tps w1 :: 'e build_error + 'r work) = Inr w'"
    using Cons.prems by (auto simp: sum_bind_Inr_iff)
  from w1(1) have "wk_warnings w1 = wk_warnings w @ snd (backend_endpoints ix (fst tp))"
    by (auto simp: register_backend_def sum_bind_Inr_iff wk_warn_def wk_feed_def Let_def split: prod.splits)
  with Cons.IH[OF w1(2)] show ?case by simp
qed simp

lemma register_certificates_warnings:
  assumes "register_certificates show_regex compile snapshot opts managed w = (certs, w')"
  shows "set (wk_warnings w) \<union> set (ct_warnings (fold (claim_ingress_tls (secret_index_new (sn_secrets snapshot))) managed
      \<lparr> ct_by_host = [], ct_materials = [], ct_warnings = [] \<rparr>)) \<subseteq> set (wk_warnings w')"
proof -
  define c where "c = fold (claim_ingress_tls (secret_index_new (sn_secrets snapshot))) managed \<lparr> ct_by_host = [], ct_materials = [], ct_warnings = [] \<rparr>"
  define w1 where "w1 = fold (register_cert show_regex compile) (sort_key fst (ct_by_host c)) (wk_warn (ct_warnings c) w)"
  have "set (wk_warnings (wk_warn (ct_warnings c) w)) \<subseteq> set (wk_warnings w1)"
    unfolding w1_def by (rule fold_keeps) (auto simp: register_cert_def wk_warn_def wk_feed_def Let_def split: prod.splits sum.splits)
  moreover obtain materials where
    "register_default_cert (secret_index_new (sn_secrets snapshot)) (co_default_tls_secret opts) (ct_materials c) w1 = (materials, w')"
    using assms unfolding register_certificates_def Let_def c_def w1_def by (auto split: prod.splits)
  then have "set (wk_warnings w1) \<subseteq> set (wk_warnings w')"
    by (auto simp: register_default_cert_def wk_warn_def wk_feed_def split: prod.splits option.splits sum.splits)
  ultimately show ?thesis unfolding c_def[symmetric] by (auto simp: wk_warn_def)
qed

lemma collect_promotion_keeps: "set (cl_warnings c) \<subseteq> set (cl_warnings (collect_promotion visit routes ic c))"
  by (auto simp: collect_promotion_def Let_def split: prod.splits)

lemma collect_promotions_warn:
  assumes "ing \<in> set managed" "\<not> is_production ing"
    and "pa_enabled (promotion_parse (om_annotations (ing_meta ing)))" "pa_invalid (promotion_parse (om_annotations (ing_meta ing))) \<noteq> []"
  shows "warned (cl_warnings (collect_promotions visit (filter (\<lambda>(_, c). ca_enabled c) (map with_canary managed)) routes d))
    (key_of (ing_meta ing)) InvalidAnnotation"
proof -
  have "with_canary ing \<in> set (filter (\<lambda>(_, c). ca_enabled c) (map with_canary managed))"
    using assms(1,2) by (auto simp: with_canary_def is_production_def)
  moreover have "warned (cl_warnings (collect_promotion visit routes (with_canary ing) s)) (key_of (ing_meta ing)) InvalidAnnotation" for s
    using assms(3,4) by (cases "pa_invalid (promotion_parse (om_annotations (ing_meta ing)))") (auto simp: collect_promotion_def with_canary_def Let_def)
  ultimately have "warned (cl_warnings (fold (collect_promotion visit routes) (filter (\<lambda>(_, c). ca_enabled c) (map with_canary managed)) c))
      (key_of (ing_meta ing)) InvalidAnnotation" for c
    by (intro fold_warns[where x = "with_canary ing" and W = cl_warnings] collect_promotion_keeps)
  then show ?thesis by (simp add: collect_promotions_def Let_def)
qed

text \<open>Everything a pass warned about is in its result.\<close>

definition planned_routes :: "cluster_snapshot \<Rightarrow> controller_opts \<Rightarrow> route_map" where
  "planned_routes snapshot opts = (let (managed, ws) = select_managed snapshot opts in fst (plan_routes managed ws))"

lemma translate_warnings:
  assumes "(translate visit compile show_regex iter hp rhp snapshot opts previous
            :: 'e build_error + heap \<times> route_slot list \<times> 'r translation) = Inr (hp', rhp', t)" "visits_all visit"
    and sel: "select_managed snapshot opts = (managed, ws0)" and plan: "plan_routes managed ws0 = (routes, gd, ws1)"
  shows "set ws1 \<subseteq> set (tr_warnings t)"
    and "set (ct_warnings (fold (claim_ingress_tls (secret_index_new (sn_secrets snapshot))) managed
          \<lparr> ct_by_host = [], ct_materials = [], ct_warnings = [] \<rparr>)) \<subseteq> set (tr_warnings t)"
    and "\<exists>d. set (cl_warnings (collect_promotions visit (filter (\<lambda>(_, c). ca_enabled c) (map with_canary managed)) routes d)) \<subseteq> set (tr_warnings t)"
    and "p \<in> snd ` set routes \<Longrightarrow> r \<in> set (plan_refs p) \<Longrightarrow>
      set (snd (backend_endpoints (endpoint_index_new (sn_services snapshot) (sn_endpoint_slices snapshot)) r)) \<subseteq> set (tr_warnings t)"
proof -
  let ?dflt = "case gd of Some r \<Rightarrow> Some r | None \<Rightarrow> co_default_backend opts"
  obtain backends ws2 where claims: "collect_backends visit routes ?dflt = (backends, ws2)" by fastforce
  define R where "R = (register_backends snapshot opts backends
      \<lparr> wk_builder = (case previous of Some t \<Rightarrow> from_previous t | None \<Rightarrow> builder_new), wk_digest = FNV_OFFSET,
        wk_warnings = ws1 @ ws2 \<rparr> :: 'e build_error + 'r work)"
  have "\<exists>w1. R = Inr w1"
    using assms(1) by (cases R) (simp_all add: translate_def sel plan claims Let_def R_def[symmetric])
  then obtain w1 where reg: "(register_backends snapshot opts backends
      \<lparr> wk_builder = (case previous of Some t \<Rightarrow> from_previous t | None \<Rightarrow> builder_new), wk_digest = FNV_OFFSET,
        wk_warnings = ws1 @ ws2 \<rparr> :: 'e build_error + 'r work) = Inr w1" unfolding R_def by blast
  define w2 where "w2 = register_routes visit compile show_regex routes w1"
  define w4 where "w4 = wk_feed (digest_opt_str (map_option backend_name ?dflt))
    (case ?dflt of None \<Rightarrow> w2 | Some t \<Rightarrow> w2\<lparr> wk_builder := set_default_backend (wk_builder w2) (backend_name t) \<rparr>)"
  obtain certs w5 where certs: "register_certificates show_regex compile snapshot opts managed w4 = (certs, w5)" by fastforce
  have t: "tr_warnings t = wk_warnings w5 @ cl_warnings (collect_promotions visit (filter (\<lambda>(_, c). ca_enabled c) (map with_canary managed)) routes (wk_digest w5))"
    using assms(1) by (auto simp: translate_def sel plan claims reg Let_def certs[unfolded w4_def w2_def] sum_bind_Inr_iff split: prod.splits)
  note all = register_all_warnings[OF reg[unfolded register_backends_def]]
  have "set (wk_warnings w1) \<subseteq> set (wk_warnings w2)" unfolding w2_def by (rule register_routes_keep)
  also have "\<dots> \<subseteq> set (wk_warnings w4)" by (simp add: w4_def wk_feed_def split: option.split)
  finally have w1t: "set (wk_warnings w1) \<subseteq> set (tr_warnings t)"
    using register_certificates_warnings[OF certs] unfolding t by auto
  then show "set ws1 \<subseteq> set (tr_warnings t)" unfolding all by simp
  show "set (ct_warnings (fold (claim_ingress_tls (secret_index_new (sn_secrets snapshot))) managed
          \<lparr> ct_by_host = [], ct_materials = [], ct_warnings = [] \<rparr>)) \<subseteq> set (tr_warnings t)"
    using register_certificates_warnings[OF certs] unfolding t by auto
  show "\<exists>d. set (cl_warnings (collect_promotions visit (filter (\<lambda>(_, c). ca_enabled c) (map with_canary managed)) routes d)) \<subseteq> set (tr_warnings t)"
    unfolding t by auto
  assume "p \<in> snd ` set routes" "r \<in> set (plan_refs p)"
  then have "r \<in> fst ` set backends"
    using collect_backends_claimed(2)[OF assms(2) claims] by (auto simp: map_refs_def)
  then have "set (snd (backend_endpoints (endpoint_index_new (sn_services snapshot) (sn_endpoint_slices snapshot)) r)) \<subseteq> set (wk_warnings w1)"
    unfolding all by auto
  with w1t show "set (snd (backend_endpoints (endpoint_index_new (sn_services snapshot) (sn_endpoint_slices snapshot)) r)) \<subseteq> set (tr_warnings t)"
    by blast
qed

text \<open>
  C17. One bad object never costs the cluster its configuration and never goes unmentioned: for every
  snapshot whose references satisfy the API server's own validation (no slash in a namespace, no
  negative port number, port names with a letter and no colon), a translation pass produces a table,
  whatever else the Ingresses, annotations, Services, Secrets and patterns contain, whatever table
  it replaces, and in whatever order hash maps are visited. Its warnings name every Ingress of an
  unknown class, every managed Ingress with a fault (a backend that is no Service or names no port,
  an unknown path type, an unreadable annotation, an unusable mirror, an inert canary, a TLS entry
  without hosts or without a usable Secret), and every Service a planned route needs that does not resolve.
\<close>

theorem translate_total:
  assumes "visits_all visit" "list_all ingress_valid (sn_ingresses snapshot)"
    and "case co_default_backend opts of None \<Rightarrow> True | Some r \<Rightarrow> ref_ok r"
  shows "\<exists>hp' rhp' t. (translate visit compile show_regex iter hp rhp snapshot opts previous
            :: 'e build_error + heap \<times> route_slot list \<times> 'r translation) = Inr (hp', rhp', t)
    \<and> (\<forall>ing \<in> set (sn_ingresses snapshot).
         (classify (class_filter_new (sn_ingress_classes snapshot) (co_class_name opts)) ing = UnknownClassClaim
            \<longrightarrow> warned (tr_warnings t) (key_of (ing_meta ing)) UnknownClass)
         \<and> (manages (class_filter_new (sn_ingress_classes snapshot) (co_class_name opts)) ing
            \<longrightarrow> (\<forall>kind. fault (secret_index_new (sn_secrets snapshot)) ing kind \<longrightarrow> warned (tr_warnings t) (key_of (ing_meta ing)) kind)))
    \<and> (\<forall>p \<in> snd ` set (planned_routes snapshot opts). \<forall>r \<in> set (plan_refs p). \<forall>issue.
         resolve (endpoint_index_new (sn_services snapshot) (sn_endpoint_slices snapshot)) r = Inl issue
            \<longrightarrow> issue_warning r issue \<in> set (tr_warnings t))"
proof -
  let ?F = "class_filter_new (sn_ingress_classes snapshot) (co_class_name opts)"
  obtain hp' rhp' t where t: "(translate visit compile show_regex iter hp rhp snapshot opts previous
            :: 'e build_error + heap \<times> route_slot list \<times> 'r translation) = Inr (hp', rhp', t)"
    using translate_total_aux[OF assms, of compile show_regex iter hp rhp previous] by auto
  obtain managed ws0 where sel: "select_managed snapshot opts = (managed, ws0)" by fastforce
  obtain routes gd ws1 where plan: "plan_routes managed ws0 = (routes, gd, ws1)" using prod_cases3 by blast
  note W = translate_warnings[OF t assms(1) sel plan] and P = plan_routes_warn[OF plan]
  have unknown: "warned (tr_warnings t) (key_of (ing_meta ing)) UnknownClass"
    if "ing \<in> set (sn_ingresses snapshot)" "classify ?F ing = UnknownClassClaim" for ing
  proof -
    have "set (class_warnings ?F ing) \<subseteq> set ws0" using sel that(1) by (auto simp: select_managed_def Let_def)
    with P(1) W(1) have "set (class_warnings ?F ing) \<subseteq> set (tr_warnings t)" by blast
    then show ?thesis by (rule warned_mono[rotated]) (simp add: class_warnings_def that(2))
  qed
  have faulty: "warned (tr_warnings t) (key_of (ing_meta ing)) kind"
    if ing: "ing \<in> set managed" and f: "fault (secret_index_new (sn_secrets snapshot)) ing kind" for ing kind
  proof (cases "kind \<in> {TlsHostless, TlsSecret}")
    case True
    from claims_tls_warn[OF ing f True] W(2) show ?thesis by (rule warned_mono)
  next
    case False
    show ?thesis
    proof (cases "kind = InvalidAnnotation \<and> \<not> is_production ing \<and> pa_enabled (promotion_parse (om_annotations (ing_meta ing)))
        \<and> pa_invalid (promotion_parse (om_annotations (ing_meta ing))) \<noteq> []")
      case True
      then show ?thesis using W(3) collect_promotions_warn[OF ing] by (blast intro: warned_mono)
    next
      case promo: False
      from P(2)[OF ing f False promo] W(1) show ?thesis by (rule warned_mono)
    qed
  qed
  have "managed = sort_key age_key (filter (manages ?F) (sn_ingresses snapshot))"
    using sel by (simp add: select_managed_def Let_def)
  then have ours: "ing \<in> set managed" if "ing \<in> set (sn_ingresses snapshot)" "manages ?F ing" for ing
    using that by simp
  have issues: "issue_warning r issue \<in> set (tr_warnings t)"
    if "p \<in> snd ` set (planned_routes snapshot opts)" "r \<in> set (plan_refs p)"
      "resolve (endpoint_index_new (sn_services snapshot) (sn_endpoint_slices snapshot)) r = Inl issue" for p r issue
  proof -
    have "p \<in> snd ` set routes" using that(1) by (simp add: planned_routes_def sel plan)
    from W(4)[OF this that(2)] that(3) show ?thesis by (simp add: backend_endpoints_def)
  qed
  show ?thesis
    by (intro exI conjI ballI impI allI) (rule t | (rule unknown; assumption) | (rule faulty[OF ours]; assumption) | (rule issues; assumption))+
qed

section \<open>Certificates and the keys behind them\<close>

definition sni_ids :: "'r builder \<Rightarrow> u64 set" where
  "sni_ids b = snd ` set (b_tls_exact b) \<union> snd ` set (b_tls_wildcard b) \<union> set_option (b_tls_default b)"

definition cert_plan_wf :: "cert_plan \<Rightarrow> bool" where
  "cert_plan_wf c \<longleftrightarrow>
     (\<forall>x \<in> set (ct_by_host c). fst (snd x) \<in> fst ` set (ct_materials c))
     \<and> (\<forall>x \<in> set (ct_materials c). cm_handle_id (snd x) = fst x)"

lemma claim_host_frame:
  "ct_materials (claim_host owner h host c) = ct_materials c"
  "x \<in> set (ct_by_host (claim_host owner h host c)) \<Longrightarrow> x \<in> set (ct_by_host c) \<or> fst (snd x) = h"
  by (auto simp: claim_host_def ct_warn_def hm_insert_def split: option.splits if_splits)

lemma claim_hosts_frame:
  "ct_materials (fold (claim_host owner h) hosts c) = ct_materials c
   \<and> (\<forall>x \<in> set (ct_by_host (fold (claim_host owner h) hosts c)). x \<in> set (ct_by_host c) \<or> fst (snd x) = h)"
proof (induction hosts arbitrary: c)
  case (Cons host hosts)
  from Cons.IH[of "claim_host owner h host c"] show ?case
    by (auto simp: claim_host_frame(1) dest: claim_host_frame(2))
qed simp

lemma claim_tls_wf: "cert_plan_wf c \<Longrightarrow> cert_plan_wf (claim_tls secrets owner entry c)"
proof -
  assume wf: "cert_plan_wf c"
  have warned: "cert_plan_wf (ct_warn owner kind detail c)" for kind detail
    using wf by (simp add: cert_plan_wf_def ct_warn_def)
  have claimed: "cert_plan_wf (c'\<lparr> ct_materials := hm_insert (cm_handle_id mat) mat (ct_materials c') \<rparr>)"
    if "c' = fold (claim_host owner (cm_handle_id mat)) hosts c" for c' mat hosts
  proof -
    note frame = claim_hosts_frame[of owner "cm_handle_id mat" hosts c, folded that]
    have "fst ` set (hm_insert (cm_handle_id mat) mat (ct_materials c')) = insert (cm_handle_id mat) (fst ` set (ct_materials c))"
      using fst_hm_insert[of "cm_handle_id mat" mat "ct_materials c'"] frame by simp
    moreover have "\<forall>x \<in> set (hm_insert (cm_handle_id mat) mat (ct_materials c')). cm_handle_id (snd x) = fst x"
      using wf frame by (auto simp: hm_insert_def cert_plan_wf_def)
    ultimately show ?thesis using wf frame by (auto simp: cert_plan_wf_def)
  qed
  show ?thesis
    by (simp add: claim_tls_def Let_def warned claimed split: option.splits sum.splits)
qed

lemma claim_all_tls_wf: "cert_plan_wf c \<Longrightarrow> cert_plan_wf (fold (claim_ingress_tls secrets) ings c)"
proof -
  have one: "cert_plan_wf (claim_ingress_tls secrets ing c)" if "cert_plan_wf c" for ing c
    unfolding claim_ingress_tls_def
    by (cases "ing_spec ing") (use that in \<open>auto intro!: fold_invariant[where P = cert_plan_wf and Q = "\<lambda>_. True"] claim_tls_wf\<close>)
  assume "cert_plan_wf c"
  then show ?thesis by (intro fold_invariant[where P = cert_plan_wf and Q = "\<lambda>_. True"]) (auto intro: one)
qed

lemma add_certificate_ids:
  assumes "add_certificate b host handle = Inr b'"
  shows "sni_ids b' \<subseteq> insert handle (sni_ids b)"
proof -
  from assms obtain slot where "b' = (case slot of
      SExact h \<Rightarrow> b\<lparr> b_tls_exact := hm_insert h handle (b_tls_exact b) \<rparr>
    | SWildcard h \<Rightarrow> b\<lparr> b_tls_wildcard := hm_insert h handle (b_tls_wildcard b) \<rparr>
    | SCatchAll \<Rightarrow> b\<lparr> b_tls_default := Some handle \<rparr>)"
    by (auto simp: add_certificate_def sum_bind_Inr_iff)
  then show ?thesis by (cases slot) (auto simp: sni_ids_def hm_insert_def)
qed

lemma register_certs_ids:
  "sni_ids (wk_builder (fold (register_cert show_regex compile) xs w)) \<subseteq> sni_ids (wk_builder w) \<union> (fst \<circ> snd) ` set xs"
proof (induction xs arbitrary: w)
  case (Cons x xs)
  obtain host h owner where x: "x = (host, h, owner)" using prod_cases3 by blast
  have "sni_ids (wk_builder (register_cert show_regex compile x w)) \<subseteq> insert h (sni_ids (wk_builder w))"
    by (auto simp: x register_cert_def Let_def wk_feed_def wk_warn_def split: sum.splits dest: add_certificate_ids)
  with Cons.IH[of "register_cert show_regex compile x w"] x show ?case by auto
qed simp

lemma register_default_cert_cases:
  assumes "register_default_cert secrets r materials w = (ms, w')"
  obtains "ms = materials" "wk_builder w' = wk_builder w"
  | mat where "ms = hm_insert (cm_handle_id mat) mat materials"
      "wk_builder w' = default_certificate (wk_builder w) (cm_handle_id mat)"
  using assms by (auto simp: register_default_cert_def wk_feed_def wk_warn_def split: option.splits sum.splits)

lemma register_certificates_covered:
  assumes "register_certificates show_regex compile snapshot opts managed w = (certs, w')" "sni_ids (wk_builder w) = {}"
  shows "sni_ids (wk_builder w') \<subseteq> cm_handle_id ` set certs"
proof -
  let ?secrets = "secret_index_new (sn_secrets snapshot)"
  define c where "c = fold (claim_ingress_tls ?secrets) managed \<lparr> ct_by_host = [], ct_materials = [], ct_warnings = [] \<rparr>"
  define w1 where "w1 = fold (register_cert show_regex compile) (sort_key fst (ct_by_host c)) (wk_warn (ct_warnings c) w)"
  obtain ms where ms: "register_default_cert ?secrets (co_default_tls_secret opts) (ct_materials c) w1 = (ms, w')"
    and certs: "certs = map snd (sort_key fst ms)"
    using assms(1) by (auto simp: register_certificates_def Let_def c_def w1_def split: prod.splits)
  have wf: "cert_plan_wf c" unfolding c_def by (rule claim_all_tls_wf) (simp add: cert_plan_wf_def)
  have "sni_ids (wk_builder w1) \<subseteq> (fst \<circ> snd) ` set (ct_by_host c)"
    using register_certs_ids[of show_regex compile "sort_key fst (ct_by_host c)" "wk_warn (ct_warnings c) w"] assms(2)
    by (simp add: w1_def wk_warn_def)
  with wf have w1: "sni_ids (wk_builder w1) \<subseteq> fst ` set (ct_materials c)" by (auto simp: cert_plan_wf_def)
  have "sni_ids (wk_builder w') \<subseteq> fst ` set ms \<and> (\<forall>x \<in> set ms. cm_handle_id (snd x) = fst x)"
  proof (rule register_default_cert_cases[OF ms])
    assume "ms = ct_materials c" "wk_builder w' = wk_builder w1"
    with w1 wf show ?thesis by (simp add: cert_plan_wf_def)
  next
    fix mat assume mat: "ms = hm_insert (cm_handle_id mat) mat (ct_materials c)"
      "wk_builder w' = default_certificate (wk_builder w1) (cm_handle_id mat)"
    then have "sni_ids (wk_builder w') \<subseteq> insert (cm_handle_id mat) (sni_ids (wk_builder w1))"
      by (auto simp: default_certificate_def sni_ids_def)
    moreover have "fst ` set ms = insert (cm_handle_id mat) (fst ` set (ct_materials c))"
      using fst_hm_insert[of "cm_handle_id mat" mat "ct_materials c"] by (simp add: mat(1))
    moreover have "\<forall>x \<in> set ms. cm_handle_id (snd x) = fst x"
      using wf by (auto simp: mat(1) hm_insert_def cert_plan_wf_def)
    ultimately show ?thesis using w1 by blast
  qed
  then show ?thesis unfolding certs by force
qed

lemma sni_resolve_ids:
  assumes "sni_resolve (\<lparr> sni_exact = b_tls_exact b, sni_wildcard = b_tls_wildcard b, sni_default = b_tls_default b \<rparr>) name = Some h"
  shows "h \<in> sni_ids b"
  using assms by (auto simp: sni_resolve_def sni_resolve_normalized_def sni_ids_def image_iff
      split: scan_result.splits option.splits dest!: map_of_SomeD) force+

lemma register_all_frame:
  "(register_all ix policy tps w :: 'e build_error + 'r work) = Inr w' \<Longrightarrow> same_tables w w'"
proof (induction tps arbitrary: w)
  case (Cons tp tps)
  then obtain w1 where w1: "(register_backend ix policy tp w :: 'e build_error + 'r work) = Inr w1"
    "(register_all ix policy tps w1 :: 'e build_error + 'r work) = Inr w'"
    by (auto simp: sum_bind_Inr_iff)
  have "same_tables w w1"
    using w1(1) by (auto simp: register_backend_def backend_with_def same_tables_def wk_feed_def wk_warn_def Let_def
        sum_bind_Inr_iff split: prod.splits if_splits)
  with Cons.IH[OF w1(2)] show ?case by (simp add: same_tables_def)
qed (simp add: same_tables_def)

lemma register_routes_frame:
  "sni_ids (wk_builder (register_routes visit compile show_regex routes w)) = sni_ids (wk_builder w)"
  using register_routes_adds[of compile show_regex "sorted_plans visit routes" w]
  by (auto simp: register_routes_def sni_ids_def)

lemma build_tls:
  "(build iter hp rhp b :: 'e build_error + _) = Inr (hp', rhp', t) \<Longrightarrow>
     rt_tls t = \<lparr> sni_exact = b_tls_exact b, sni_wildcard = b_tls_wildcard b, sni_default = b_tls_default b \<rparr>"
  unfolding build_Inr_iff by auto

text \<open>
  The table and the certificates of a configuration belong together: every certificate the
  compiled table can choose for a handshake, by host, by wildcard or by default, has its key
  material in the same configuration.
\<close>

theorem certificates_have_material:
  assumes "(translate visit compile show_regex iter hp rhp snapshot opts previous
            :: 'e build_error + heap \<times> route_slot list \<times> 'r translation) = Inr (hp', rhp', t)"
    and "sni_resolve (rt_tls (cc_table (tr_config t))) name = Some handle"
  shows "handle \<in> cm_handle_id ` set (cc_certs (tr_config t))"
proof -
  obtain managed ws0 where managed: "select_managed snapshot opts = (managed, ws0)" by fastforce
  obtain routes gd ws1 where plan: "plan_routes managed ws0 = (routes, gd, ws1)" using prod_cases3 by blast
  let ?dflt = "case gd of Some r \<Rightarrow> Some r | None \<Rightarrow> co_default_backend opts"
  obtain backends ws2 where claims: "collect_backends visit routes ?dflt = (backends, ws2)" by fastforce
  define w0 where "w0 = \<lparr> wk_builder = (case previous of Some t \<Rightarrow> from_previous t | None \<Rightarrow> builder_new),
    wk_digest = FNV_OFFSET, wk_warnings = ws1 @ ws2 \<rparr>"
  from assms(1) obtain w1 where reg: "(register_backends snapshot opts backends w0 :: 'e build_error + 'r work) = Inr w1"
    by (auto simp: translate_def managed plan claims Let_def sum_bind_Inr_iff w0_def)
  define w2 where "w2 = register_routes visit compile show_regex routes w1"
  define w4 where "w4 = wk_feed (digest_opt_str (map_option backend_name ?dflt))
    (case ?dflt of None \<Rightarrow> w2 | Some t \<Rightarrow> w2\<lparr> wk_builder := set_default_backend (wk_builder w2) (backend_name t) \<rparr>)"
  obtain certs w5 where certs: "register_certificates show_regex compile snapshot opts managed w4 = (certs, w5)" by fastforce
  from assms(1) obtain table where b: "(build iter hp rhp (wk_builder w5) :: 'e build_error + _) = Inr (hp', rhp', table)"
    and t: "cc_table (tr_config t) = table" "cc_certs (tr_config t) = certs"
    by (auto simp: translate_def managed plan claims reg[unfolded w0_def] Let_def certs[unfolded w4_def w2_def] sum_bind_Inr_iff)
  have "sni_ids (wk_builder w1) = {}"
    using register_all_frame[OF reg[unfolded register_backends_def]]
    by (auto simp: same_tables_def sni_ids_def w0_def from_previous_def builder_new_def split: option.splits)
  then have "sni_ids (wk_builder w4) = {}"
    using register_routes_frame[of visit compile show_regex routes w1]
    by (auto simp: w4_def w2_def wk_feed_def set_default_backend_def sni_ids_def split: option.splits)
  from register_certificates_covered[OF certs this] have "sni_ids (wk_builder w5) \<subseteq> cm_handle_id ` set certs" .
  moreover have "handle \<in> sni_ids (wk_builder w5)"
    using assms(2) build_tls[OF b] by (intro sni_resolve_ids[of _ name]) (simp add: t)
  ultimately show ?thesis by (auto simp: t)
qed

section \<open>Order does not matter\<close>

lemma sort_key_perm: "mset xs = mset ys \<Longrightarrow> inj_on f (set ys) \<Longrightarrow> sort_key f xs = sort_key f ys"
  using sort_key_eq_sort_key[of ys xs f] by simp

lemma path_type_rank_inject: "path_type_rank a = path_type_rank b \<longleftrightarrow> a = b"
  by (cases a; cases b) simp_all

lemma route_sort_key_inject: "route_sort_key k = route_sort_key k' \<Longrightarrow> k = k'"
  by (cases "rk_host k"; cases "rk_host k'") (auto simp: route_sort_key_def opt_or_def path_type_rank_inject)

lemma sorted_plans_visit:
  assumes "visits_all v" "map_wf routes"
  shows "sorted_plans v routes = sorted_plans (\<lambda>m. m) routes"
  unfolding sorted_plans_def
proof (rule sort_key_perm)
  show "mset (map snd (v routes)) = mset (map snd routes)" using assms(1) by (simp add: visits_all_def)
  show "inj_on (\<lambda>p. route_sort_key (rp_key p)) (set (map snd routes))"
  proof (rule inj_onI)
    fix p q assume "p \<in> set (map snd routes)" "q \<in> set (map snd routes)" and key: "route_sort_key (rp_key p) = route_sort_key (rp_key q)"
    then obtain k l where kl: "(k, p) \<in> set routes" "(l, q) \<in> set routes" by auto
    with assms(2) have "rp_key p = k" "rp_key q = l" by (auto simp: map_wf_def)
    with route_sort_key_inject[OF key] have "k = l" by simp
    with kl assms(2) show "p = q" by (auto simp: map_wf_def dest: eq_key_imp_eq_value)
  qed
qed

lemma covered_routes_visit:
  assumes "visits_all v"
  shows "covered_routes v routes owner = covered_routes (\<lambda>m. m) routes owner"
  unfolding covered_routes_def
proof (rule sort_key_perm)
  show "inj_on promotion_route_key X" for X
    by (rule inj_onI) (auto simp: promotion_route_key_def path_type_rank_inject)
qed (use assms in \<open>simp add: visits_all_def mset_map mset_filter\<close>)

lemma resolve_perm:
  assumes "mset slices = mset slices'"
  shows "resolve (endpoint_index_new services slices) target = resolve (endpoint_index_new services slices') target"
proof -
  let ?b = "slice_belongs (sr_namespace target) (sr_name target)"
  have services: "index_service_of (endpoint_index_new services slices) = index_service_of (endpoint_index_new services slices')"
    by (simp add: index_service_of_def endpoint_index_new_def fun_eq_iff)
  have "mset (filter ?b slices) = mset (filter ?b slices')" using assms by simp
  then have found: "mset (map (slice_addresses p) (filter ?b slices)) = mset (map (slice_addresses p) (filter ?b slices'))" for p
    by (simp only: mset_map)
  have "set (concat (map fst (map (slice_addresses p) (filter ?b slices)))) = set (concat (map fst (map (slice_addresses p) (filter ?b slices'))))" for p
    using mset_eq_setD[OF found[of p]] by (simp only: set_concat set_map)
  moreover have "sum_list (map snd (map (slice_addresses p) (filter ?b slices))) = sum_list (map snd (map (slice_addresses p) (filter ?b slices')))" for p
    using found[of p] by (metis mset_map sum_mset_sum_list)
  ultimately show ?thesis
    unfolding resolve_def services ei_slices_eq sorted_distinct_list Let_def by (simp only:)
qed

lemma register_all_cong:
  assumes "\<And>t. resolve ix t = resolve ix' t"
  shows "register_all ix policy tps w = register_all ix' policy tps w"
proof -
  have one: "register_backend ix policy tp w = register_backend ix' policy tp w" for tp w
    by (simp only: register_backend_def backend_endpoints_def assms)
  have cong: "(\<And>x. f x = g x) \<Longrightarrow> sum_bind r f = sum_bind r g" for r f g by (cases r) simp_all
  show ?thesis by (induction tps arbitrary: w) (auto simp: one intro: cong)
qed

text \<open>
  C19. A configuration is a function of the cluster's state: the table, the counters it carries
  over, the certificates, the promotions, the digest and the warnings are the same for every
  order in which a hash map of routes is visited and for every order in which the EndpointSlices
  were delivered.
\<close>

theorem translate_deterministic:
  assumes "visits_all v1" "visits_all v2" "list_all ingress_valid (sn_ingresses snapshot)"
    and "mset slices = mset (sn_endpoint_slices snapshot)"
  shows "(translate v1 compile show_regex iter hp rhp snapshot opts previous
           :: 'e build_error + heap \<times> route_slot list \<times> 'r translation)
       = translate v2 compile show_regex iter hp rhp (snapshot\<lparr> sn_endpoint_slices := slices \<rparr>) opts previous"
proof -
  obtain managed ws0 where managed: "select_managed snapshot opts = (managed, ws0)" by fastforce
  obtain routes gd ws1 where plan: "plan_routes managed ws0 = (routes, gd, ws1)" using prod_cases3 by blast
  have "list_all ingress_valid managed" using managed_valid[OF assms(3), of opts] by (simp add: managed)
  then have wf: "map_wf routes" using plan_routes_wf[OF _ plan] by simp
  have plans: "sorted_plans v1 routes = sorted_plans v2 routes"
    using sorted_plans_visit[OF assms(1) wf] sorted_plans_visit[OF assms(2) wf] by simp
  then have cb: "collect_backends v1 routes d = collect_backends v2 routes d"
    and rr: "register_routes v1 compile show_regex routes w = register_routes v2 compile show_regex routes w" for d w
    by (simp_all add: collect_backends_def register_routes_def)
  have "covered_routes v1 routes owner = covered_routes v2 routes owner" for owner
    using covered_routes_visit[OF assms(1)] covered_routes_visit[OF assms(2)] by simp
  then have "collect_promotion v1 routes = collect_promotion v2 routes"
    by (intro ext) (simp only: collect_promotion_def)
  then have cp: "collect_promotions v1 cs routes d = collect_promotions v2 cs routes d" for cs d
    by (simp add: collect_promotions_def)
  have rb: "(register_backends snapshot opts bs w :: 'e build_error + 'r work)
      = register_backends (snapshot\<lparr> sn_endpoint_slices := slices \<rparr>) opts bs w" for bs w
    unfolding register_backends_def
    by (simp, rule register_all_cong) (rule resolve_perm, simp add: assms(4))
  have sm: "select_managed (snapshot\<lparr> sn_endpoint_slices := slices \<rparr>) opts = select_managed snapshot opts"
    by (simp add: select_managed_def)
  have rc: "register_certificates show_regex compile (snapshot\<lparr> sn_endpoint_slices := slices \<rparr>) opts ms w
      = register_certificates show_regex compile snapshot opts ms w" for ms w
    by (simp add: register_certificates_def)
  show ?thesis
    by (simp add: translate_def managed plan cb rr cp sm rc flip: rb)
qed

section \<open>Who owns a route\<close>

text \<open>The routes an Ingress asks for by its rules, and those its default backend falls back to.\<close>

definition entry_claims :: "object_key \<Rightarrow> string option \<Rightarrow> ingress_path \<Rightarrow> (route_key \<times> service_ref \<times> object_key) list" where
  "entry_claims owner host entry =
     (case fst (backend_ref (ok_namespace owner) (ipa_backend entry) owner) of
        None \<Rightarrow> []
      | Some r \<Rightarrow> [(entry_key host entry (fst (parse_path_type (ipa_path_type entry) owner)), r, owner)])"

definition rule_claims :: "object_key \<Rightarrow> ingress_rule \<Rightarrow> (route_key \<times> service_ref \<times> object_key) list" where
  "rule_claims owner rule =
     concat (map (entry_claims owner (normalize_host (iru_host rule))) (opt_or [] (iru_http rule)))"

definition ingress_claims :: "ingress \<Rightarrow> (route_key \<times> service_ref \<times> object_key) list" where
  "ingress_claims ing =
     (case ing_spec ing of
        None \<Rightarrow> []
      | Some spec \<Rightarrow> concat (map (rule_claims (key_of (ing_meta ing))) (opt_or [] (isp_rules spec))))"

definition fallback_claims :: "ingress \<Rightarrow> (route_key \<times> service_ref \<times> object_key) list" where
  "fallback_claims ing =
     (let owner = key_of (ing_meta ing)
      in case ing_spec ing of
           None \<Rightarrow> []
         | Some spec \<Rightarrow>
             (case Option.bind (isp_default_backend spec) (\<lambda>b. fst (backend_ref (ok_namespace owner) b owner)) of
                None \<Rightarrow> []
              | Some r \<Rightarrow> map (\<lambda>h. (\<lparr> rk_host = h, rk_path = ''/'', rk_path_type = Prefix \<rparr>, r, owner)) (spec_hosts spec)))"

definition served_by :: "route_map \<Rightarrow> route_key \<Rightarrow> (service_ref \<times> object_key) option" where
  "served_by routes k = map_option (\<lambda>p. (rp_backend p, rp_owner p)) (map_of routes k)"

text \<open>A claim is granted where no earlier one was.\<close>

definition grants :: "(route_key \<Rightarrow> 'a option) \<Rightarrow> (route_key \<times> 'a) list \<Rightarrow> route_key \<Rightarrow> 'a option" where
  "grants held claims k = (case held k of Some x \<Rightarrow> Some x | None \<Rightarrow> map_of claims k)"

lemma grants_Nil [simp]: "grants held [] = held"
  by (simp add: grants_def fun_eq_iff split: option.splits)

lemma grants_append: "grants held (cs @ ds) = grants (grants held cs) ds"
  by (auto simp: grants_def fun_eq_iff map_add_def split: option.splits)

lemma served_by_insert:
  "map_of routes k = None \<Longrightarrow> served_by (hm_insert k p routes) = grants (served_by routes) [(k, rp_backend p, rp_owner p)]"
  by (auto simp: served_by_def grants_def fun_eq_iff split: option.splits)

lemma served_by_taken:
  "map_of routes k = Some p \<Longrightarrow> served_by routes = grants (served_by routes) [(k, x)]"
  by (auto simp: served_by_def grants_def fun_eq_iff split: option.splits)

lemma plan_entry_served:
  "served_by (pn_routes (plan_entry owner protocol mirror host entry st))
     = grants (served_by (pn_routes st)) (entry_claims owner host entry)
   \<and> pn_fallbacks (plan_entry owner protocol mirror host entry st) = pn_fallbacks st"
proof -
  obtain ref ws where ref: "backend_ref (ok_namespace owner) (ipa_backend entry) owner = (ref, ws)" by fastforce
  obtain pt ws' where pt: "parse_path_type (ipa_path_type entry) owner = (pt, ws')" by fastforce
  let ?k = "entry_key host entry pt"
  show ?thesis
  proof (cases ref)
    case None
    then show ?thesis by (simp add: plan_entry_def entry_claims_def ref pn_warn_def)
  next
    case (Some r)
    show ?thesis
    proof (cases "map_of (pn_routes st) ?k")
      case None
      with Some show ?thesis
        by (simp add: plan_entry_def entry_claims_def ref pt pn_warn_def Let_def served_by_insert)
    next
      case taken: (Some p)
      with Some served_by_taken[OF taken] show ?thesis
        by (simp add: plan_entry_def entry_claims_def ref pt pn_warn_def Let_def)
    qed
  qed
qed

lemma plan_rule_served:
  "served_by (pn_routes (plan_rule owner protocol mirror rule st)) = grants (served_by (pn_routes st)) (rule_claims owner rule)
   \<and> pn_fallbacks (plan_rule owner protocol mirror rule st) = pn_fallbacks st"
proof -
  have "served_by (pn_routes (fold (plan_entry owner protocol mirror host) es st))
      = grants (served_by (pn_routes st)) (concat (map (entry_claims owner host) es))
    \<and> pn_fallbacks (fold (plan_entry owner protocol mirror host) es st) = pn_fallbacks st" for host es
    by (induction es arbitrary: st) (simp_all add: plan_entry_served grants_append)
  then show ?thesis by (simp add: plan_rule_def rule_claims_def)
qed

lemma plan_rules_served:
  "served_by (pn_routes (fold (plan_rule owner protocol mirror) rules st))
     = grants (served_by (pn_routes st)) (concat (map (rule_claims owner) rules))
   \<and> pn_fallbacks (fold (plan_rule owner protocol mirror) rules st) = pn_fallbacks st"
  by (induction rules arbitrary: st) (simp_all add: plan_rule_served grants_append)

definition plan_claim :: "route_plan \<Rightarrow> route_key \<times> service_ref \<times> object_key" where
  "plan_claim p = (rp_key p, rp_backend p, rp_owner p)"

lemma plan_default_served:
  assumes "ing_spec ing = Some spec" "owner = key_of (ing_meta ing)"
  shows "pn_routes (plan_default owner protocol mirror spec st) = pn_routes st
    \<and> map plan_claim (pn_fallbacks (plan_default owner protocol mirror spec st))
        = map plan_claim (pn_fallbacks st) @ fallback_claims ing"
proof (cases "isp_default_backend spec")
  case None
  then show ?thesis by (simp add: plan_default_def fallback_claims_def assms)
next
  case (Some b)
  obtain ref ws where ref: "backend_ref (ok_namespace owner) b owner = (ref, ws)" by fastforce
  show ?thesis
    by (cases ref) (simp_all add: plan_default_def fallback_claims_def assms(1) Some ref[unfolded assms(2)] assms(2)
        pn_warn_def Let_def plan_claim_def comp_def split: option.splits)
qed

lemma plan_ingress_served:
  "served_by (pn_routes (plan_ingress ing st)) = grants (served_by (pn_routes st)) (ingress_claims ing)
   \<and> map plan_claim (pn_fallbacks (plan_ingress ing st)) = map plan_claim (pn_fallbacks st) @ fallback_claims ing"
proof (cases "ing_spec ing")
  case None
  then show ?thesis by (simp add: plan_ingress_def ingress_claims_def fallback_claims_def)
next
  case (Some spec)
  then show ?thesis
    by (simp add: plan_ingress_def ingress_claims_def Let_def plan_default_served[OF Some refl] plan_rules_served pn_warn_def
        split: prod.splits)
qed

lemma apply_fallback_served: "served_by (apply_fallback p m) = grants (served_by m) [plan_claim p]"
  by (cases "map_of m (rp_key p)")
     (simp_all add: apply_fallback_def plan_claim_def served_by_insert flip: served_by_taken)

lemma apply_fallbacks_served: "served_by (fold apply_fallback ps m) = grants (served_by m) (map plan_claim ps)"
proof (induction ps arbitrary: m)
  case (Cons p ps)
  then show ?case using grants_append[of "served_by m" "[plan_claim p]" "map plan_claim ps"]
    by (simp add: apply_fallback_served)
qed simp

lemma set_canary_served: "served_by (set_canary key c m) = served_by m"
proof
  fix k
  show "served_by (set_canary key c m) k = served_by m k"
    by (induction m) (auto simp: served_by_def set_canary_def split: if_splits)
qed

lemma attach_entry_served: "served_by (fst (attach_entry owner rules protocol host entry st)) = served_by (fst st)"
  by (auto simp: attach_entry_def set_canary_served Let_def split: prod.splits option.splits)

lemma attach_canary_served: "served_by (fst (attach_canary ic st)) = served_by (fst st)"
proof -
  have entries: "served_by (fst (fold (attach_entry o1 rs pr h) es s)) = served_by (fst s)" for o1 rs pr h es s
    by (induction es arbitrary: s) (simp_all add: attach_entry_served)
  have rules_fold: "served_by (fst (fold (\<lambda>r. fold (attach_entry o1 rs pr (normalize_host (iru_host r))) (opt_or [] (iru_http r))) ru s))
      = served_by (fst s)" for o1 rs pr ru s
    by (induction ru arbitrary: s) (simp_all add: entries)
  obtain ing rules where ic: "ic = (ing, rules)" by (cases ic)
  obtain protocol ws where "backend_protocol_of (om_annotations (ing_meta ing)) (key_of (ing_meta ing)) = (protocol, ws)"
    by fastforce
  then show ?thesis by (cases "ing_spec ing") (simp_all add: attach_canary_def ic Let_def rules_fold)
qed

lemma attach_canaries_served: "served_by (fst (fold attach_canary cs st)) = served_by (fst st)"
  by (induction cs arbitrary: st) (simp_all add: attach_canary_served)

lemma plan_routes_served:
  assumes "plan_routes managed ws = (routes, gd, ws')"
  shows "served_by routes k =
    map_of (concat (map ingress_claims (filter is_production managed))
            @ concat (map fallback_claims (filter is_production managed))) k"
proof -
  define st where "st = fold (\<lambda>(ing, _). plan_ingress ing) (filter (\<lambda>(_, c). \<not> ca_enabled c) (map with_canary managed)) (planning_empty ws)"
  have "routes = fst (fold attach_canary (filter (\<lambda>(_, c). ca_enabled c) (map with_canary managed))
      (fold apply_fallback (pn_fallbacks st) (pn_routes st), pn_warnings st))"
    using assms by (auto simp: plan_routes_def Let_def st_def split: prod.splits)
  then have routes: "served_by routes = grants (served_by (pn_routes st)) (map plan_claim (pn_fallbacks st))"
    by (simp add: attach_canaries_served apply_fallbacks_served)
  have fold_eq: "fold (\<lambda>(ing, _). plan_ingress ing) (filter (\<lambda>(_, c). \<not> ca_enabled c) (map with_canary xs)) s
      = fold plan_ingress (filter is_production xs) s" for xs s
    by (induction xs arbitrary: s) (auto simp: with_canary_def is_production_def)
  have "served_by (pn_routes (fold plan_ingress xs s)) = grants (served_by (pn_routes s)) (concat (map ingress_claims xs))
    \<and> map plan_claim (pn_fallbacks (fold plan_ingress xs s)) = map plan_claim (pn_fallbacks s) @ concat (map fallback_claims xs)" for xs s
    by (induction xs arbitrary: s) (simp_all add: plan_ingress_served grants_append)
  from this[of "filter is_production managed" "planning_empty ws"] have
    "served_by (pn_routes st) = grants (\<lambda>_. None) (concat (map ingress_claims (filter is_production managed)))"
    "map plan_claim (pn_fallbacks st) = concat (map fallback_claims (filter is_production managed))"
    unfolding st_def fold_eq by (simp_all add: planning_empty_def served_by_def[abs_def])
  with routes have "served_by routes = grants (\<lambda>_. None) (concat (map ingress_claims (filter is_production managed))
      @ concat (map fallback_claims (filter is_production managed)))" by (simp add: grants_append)
  then show ?thesis by (simp add: grants_def fun_eq_iff)
qed

text \<open>The production Ingresses this controller manages that claim a route, and the strictly oldest of a set.\<close>

definition claimants ::
  "cluster_snapshot \<Rightarrow> controller_opts \<Rightarrow> (ingress \<Rightarrow> (route_key \<times> service_ref \<times> object_key) list) \<Rightarrow> route_key \<Rightarrow> ingress set" where
  "claimants snapshot opts claims k =
     {ing \<in> set (sn_ingresses snapshot). manages (class_filter_new (sn_ingress_classes snapshot) (co_class_name opts)) ing
        \<and> is_production ing \<and> k \<in> fst ` set (claims ing)}"

definition eldest :: "ingress set \<Rightarrow> ingress \<Rightarrow> bool" where
  "eldest S ing \<longleftrightarrow> ing \<in> S \<and> (\<forall>other \<in> S. other \<noteq> ing \<longrightarrow> age_key ing < age_key other)"

lemma first_claim:
  assumes "sorted (map age_key xs)" "eldest {x \<in> set xs. k \<in> fst ` set (claims x)} ing"
  shows "map_of (concat (map claims xs)) k = map_of (claims ing) k"
  using assms
proof (induction xs)
  case (Cons x xs)
  show ?case
  proof (cases "k \<in> fst ` set (claims x)")
    case True
    have "ing = x"
    proof (rule ccontr)
      assume "ing \<noteq> x"
      then have "ing \<in> set xs" "age_key ing < age_key x" using Cons.prems(2) True by (auto simp: eldest_def)
      then show False using Cons.prems(1) by auto
    qed
    moreover have "map_of (claims x) k \<noteq> None" using True by (simp add: map_of_eq_None_iff)
    ultimately show ?thesis by (auto simp: map_add_def)
  next
    case False
    then have "map_of (claims x) k = None" by (simp add: map_of_eq_None_iff)
    moreover have "eldest {x \<in> set xs. k \<in> fst ` set (claims x)} ing"
      using Cons.prems(2) False by (auto simp: eldest_def)
    ultimately show ?thesis using Cons by (simp add: map_add_def)
  qed
qed (simp add: eldest_def)

lemma no_claim: "{x \<in> set xs. k \<in> fst ` set (claims x)} = {} \<Longrightarrow> map_of (concat (map claims xs)) k = None"
  by (force simp: map_of_eq_None_iff)

text \<open>
  C18. Age decides: a host and path is served for the oldest managed production Ingress that asks for it
  by a rule, with the Service that rule names (the first, where it has several for the same path);
  if none asks by a rule, for the oldest whose default backend falls back to it; and otherwise not
  at all. Age is the creation time, then namespace and name; canary Ingresses never take a route.
\<close>

theorem oldest_claim_wins:
  assumes "plan_routes (fst (select_managed snapshot opts)) ws = (routes, gd, ws')"
  shows "(eldest (claimants snapshot opts ingress_claims k) ing \<longrightarrow> served_by routes k = map_of (ingress_claims ing) k)
    \<and> (claimants snapshot opts ingress_claims k = {} \<and> eldest (claimants snapshot opts fallback_claims k) ing
         \<longrightarrow> served_by routes k = map_of (fallback_claims ing) k)
    \<and> (claimants snapshot opts ingress_claims k = {} \<and> claimants snapshot opts fallback_claims k = {}
         \<longrightarrow> map_of routes k = None)"
proof -
  define managed where "managed = fst (select_managed snapshot opts)"
  let ?xs = "filter is_production managed"
  have managed: "managed = sort_key age_key (filter (manages (class_filter_new (sn_ingress_classes snapshot) (co_class_name opts))) (sn_ingresses snapshot))"
    by (simp add: managed_def select_managed_def Let_def)
  have sorted: "sorted (map age_key ?xs)"
    unfolding managed by (rule sorted_filter) simp
  have claimed: "{x \<in> set ?xs. k \<in> fst ` set (claims x)} = claimants snapshot opts claims k"
    for claims :: "ingress \<Rightarrow> (route_key \<times> service_ref \<times> object_key) list"
    unfolding managed by (auto simp: claimants_def)
  note served = plan_routes_served[OF assms[folded managed_def], of k] and rules = first_claim[OF sorted, of k ingress_claims, unfolded claimed]
    and none = no_claim[of ?xs k ingress_claims, unfolded claimed]
  have "map_of (ingress_claims ing) k \<noteq> None" if "eldest (claimants snapshot opts ingress_claims k) ing"
    using that by (auto simp: eldest_def claimants_def map_of_eq_None_iff)
  then show ?thesis
    using served rules[of ing] none first_claim[OF sorted, of k fallback_claims ing, unfolded claimed]
      no_claim[of ?xs k fallback_claims, unfolded claimed]
    by (auto simp: map_add_def served_by_def)
qed

section \<open>A cluster with one Ingress\<close>

definition sample_rule :: ingress_rule where
  "sample_rule =
     \<lparr> iru_host = Some ''shop.test'',
       iru_http = Some [\<lparr> ipa_path = Some ''/'', ipa_path_type = ''Prefix'',
         ipa_backend = \<lparr> ib_service = Some \<lparr> isb_name = ''web'',
           isb_port = Some \<lparr> sbp_number = Some 80, sbp_name = None \<rparr> \<rparr> \<rparr> \<rparr>] \<rparr>"

definition sample_ingress :: ingress where
  "sample_ingress =
     \<lparr> ing_meta = sample_meta ''shop'' ''front'',
       ing_spec = Some \<lparr> isp_class_name = Some ''ramjet'', isp_rules = Some [sample_rule], isp_default_backend = None,
         isp_tls = Some [\<lparr> itl_hosts = Some [''shop.test''], itl_secret_name = Some ''t'' \<rparr>] \<rparr> \<rparr>"

definition sample_secret :: secret where
  "sample_secret =
     \<lparr> sec_meta = sample_meta ''shop'' ''t'', sec_type = Some TLS_SECRET_TYPE,
       sec_data = Some [TLS_CRT \<mapsto> PEM_MARKER, TLS_KEY \<mapsto> ''k''] \<rparr>"

definition sample_snapshot :: cluster_snapshot where
  "sample_snapshot =
     \<lparr> sn_ingresses = [sample_ingress],
       sn_ingress_classes = [\<lparr> ic_meta = sample_meta '''' ''ramjet'', ic_spec = Some \<lparr> ics_controller = Some CONTROLLER_NAME \<rparr> \<rparr>],
       sn_services = [sample_service], sn_endpoint_slices = [sample_slice], sn_secrets = [sample_secret] \<rparr>"

definition sample_opts :: controller_opts where
  "sample_opts = \<lparr> co_class_name = ''ramjet'', co_default_backend = None, co_default_tls_secret = None, co_lb_policy = RoundRobin \<rparr>"

definition sample_translation :: "unit build_error + heap \<times> route_slot list \<times> unit translation" where
  "sample_translation = translate rev (\<lambda>_ _. Inr ()) (\<lambda>_. []) rev sample_heap [] sample_snapshot sample_opts None"

lemma sample_snapshot_valid: "list_all ingress_valid (sn_ingresses sample_snapshot)"
  by code_simp

lemma rev_visits_all: "visits_all rev"
  by (simp add: visits_all_def)

text \<open>The same Ingress over a Secret that is not there.\<close>

theorem translate_total_witness:
  "\<exists>hp' rhp' t. (translate rev (\<lambda>_ _. Inr ()) (\<lambda>_. []) rev sample_heap [] (sample_snapshot\<lparr> sn_secrets := [] \<rparr>) sample_opts None
       :: unit build_error + heap \<times> route_slot list \<times> unit translation) = Inr (hp', rhp', t)
     \<and> warned (tr_warnings t) (key_of (ing_meta sample_ingress)) TlsSecret"
proof -
  let ?snap = "sample_snapshot\<lparr> sn_secrets := [] \<rparr>"
  have v: "list_all ingress_valid (sn_ingresses ?snap)" using sample_snapshot_valid by simp
  have i: "sample_ingress \<in> set (sn_ingresses ?snap)" by (simp add: sample_snapshot_def)
  have m: "manages (class_filter_new (sn_ingress_classes ?snap) (co_class_name sample_opts)) sample_ingress"
    "fault (secret_index_new (sn_secrets ?snap)) sample_ingress TlsSecret" by code_simp+
  have d: "case co_default_backend sample_opts of None \<Rightarrow> True | Some r \<Rightarrow> ref_ok r" by (simp add: sample_opts_def)
  show ?thesis
    using translate_total[OF rev_visits_all v d, where compile = "\<lambda>_ _. Inr ()" and show_regex = "\<lambda>_. []" and iter = rev
        and hp = sample_heap and rhp = "[]" and previous = None] i m
    by blast
qed

definition sample_bare :: "unit build_error + heap \<times> route_slot list \<times> unit translation" where
  "sample_bare = translate rev (\<lambda>_ _. Inr ()) (\<lambda>_. []) rev sample_heap []
     (sample_snapshot\<lparr> sn_ingresses := [] \<rparr>) (sample_opts\<lparr> co_default_tls_secret := Some ''shop/t'' \<rparr>) None"

lemma sample_material:
  "\<exists>mat. material (secret_index_new (sn_secrets sample_snapshot)) ''shop'' ''t'' = Inr mat"
proof -
  have "secret_index_new (sn_secrets sample_snapshot) (''shop'', ''t'') = Some sample_secret"
    by (simp add: secret_index_new_def index_secret_def sample_snapshot_def sample_secret_def sample_meta_def)
  moreover have "secret_field sample_secret TLS_CRT = Inr PEM_MARKER" "secret_field sample_secret TLS_KEY = Inr ''k''"
    "sec_type sample_secret = Some TLS_SECRET_TYPE" "contains_bytes PEM_MARKER PEM_MARKER" by code_simp+
  ultimately show ?thesis by (simp add: material_def)
qed

lemma sample_serves_tls:
  "\<exists>hp' rhp' t handle. sample_bare = Inr (hp', rhp', t)
     \<and> sni_resolve (rt_tls (cc_table (tr_config t))) ''any.test'' = Some handle"
proof -
  obtain mat where mat: "material (secret_index_new (sn_secrets sample_snapshot)) ''shop'' ''t'' = Inr mat"
    using sample_material by blast
  have split: "split_once (CHR ''/'') ''shop/t'' = Some (''shop'', ''t'')" by code_simp
  have name: "scan ''any.test'' = Clean ''any.test''" by code_simp
  show ?thesis
    by (simp add: sample_bare_def translate_def select_managed_def plan_routes_def planning_empty_def Let_def
        collect_backends_def sorted_plans_def register_backends_def register_routes_def register_certificates_def
        register_default_cert_def sample_opts_def mat split collect_promotions_def build_def group_routes.simps
        default_certificate_def builder_new_def wk_feed_def wk_warn_def sni_resolve_def name sni_resolve_normalized_def
        split: prod.splits option.splits)
qed

theorem certificates_have_material_witness:
  "\<exists>hp' rhp' t handle. sample_bare = Inr (hp', rhp', t)
     \<and> sni_resolve (rt_tls (cc_table (tr_config t))) ''any.test'' = Some handle
     \<and> handle \<in> cm_handle_id ` set (cc_certs (tr_config t))"
proof -
  obtain hp' rhp' t handle where t: "sample_bare = Inr (hp', rhp', t)"
    "sni_resolve (rt_tls (cc_table (tr_config t))) ''any.test'' = Some handle"
    using sample_serves_tls by blast
  from certificates_have_material[OF t(1)[unfolded sample_bare_def] t(2)] t show ?thesis by blast
qed

theorem translate_deterministic_witness:
  "sample_translation = translate (\<lambda>m. m) (\<lambda>_ _. Inr ()) (\<lambda>_. []) rev sample_heap []
     (sample_snapshot\<lparr> sn_endpoint_slices := [sample_slice] \<rparr>) sample_opts None"
  unfolding sample_translation_def
  by (rule translate_deterministic[OF rev_visits_all _ sample_snapshot_valid])
     (simp_all add: visits_all_def sample_snapshot_def)

text \<open>The same host and path claimed for another Service by a younger Ingress, which is listed first.\<close>

definition late_ingress :: ingress where
  "late_ingress =
     sample_ingress\<lparr> ing_meta := (sample_meta ''shop'' ''aaa'')\<lparr> om_created := Some 5 \<rparr>,
       ing_spec := Some \<lparr> isp_class_name = Some ''ramjet'',
         isp_rules = Some [sample_rule\<lparr> iru_http := Some [\<lparr> ipa_path = Some ''/'', ipa_path_type = ''Prefix'',
           ipa_backend = \<lparr> ib_service = Some \<lparr> isb_name = ''api'', isb_port = Some \<lparr> sbp_number = Some 80, sbp_name = None \<rparr> \<rparr> \<rparr> \<rparr>] \<rparr>],
         isp_default_backend = None, isp_tls = None \<rparr> \<rparr>"

theorem oldest_claim_wins_witness:
  "served_by (fst (plan_routes (fst (select_managed (sample_snapshot\<lparr> sn_ingresses := [late_ingress, sample_ingress] \<rparr>) sample_opts)) []))
     \<lparr> rk_host = Some ''shop.test'', rk_path = ''/'', rk_path_type = Prefix \<rparr> = Some (sample_ref, key_of (ing_meta sample_ingress))"
proof -
  let ?k = "\<lparr> rk_host = Some ''shop.test'', rk_path = ''/'', rk_path_type = Prefix \<rparr>"
  let ?snap = "sample_snapshot\<lparr> sn_ingresses := [late_ingress, sample_ingress] \<rparr>"
  obtain routes gd ws where plan: "plan_routes (fst (select_managed ?snap sample_opts)) [] = (routes, gd, ws)"
    by (metis prod_cases3)
  have m: "manages (class_filter_new (sn_ingress_classes ?snap) (co_class_name sample_opts)) sample_ingress"
    "is_production sample_ingress" "map_of (ingress_claims sample_ingress) ?k = Some (sample_ref, key_of (ing_meta sample_ingress))"
    "age_key sample_ingress < age_key late_ingress" by code_simp+
  from m(3) have "?k \<in> fst ` set (ingress_claims sample_ingress)" by (metis map_of_SomeD fst_conv imageI)
  with m have "eldest (claimants ?snap sample_opts ingress_claims ?k) sample_ingress"
    unfolding eldest_def claimants_def by auto
  with oldest_claim_wins[OF plan, of ?k sample_ingress] m(3) show ?thesis
    by (simp add: plan)
qed

end
