(* ===== verification/Codec.thy ===== *)
theory Codec
  imports Prelude
begin

text \<open>
  The parts of \<open>crates/ramjet-engine/src/codec/mod.rs\<close> that do not look inside a head:
  versions, errors, body framing, and the token and number helpers. A byte is a character;
  CR, LF and HTAB are named here.
\<close>

abbreviation CR :: char where
  "CR \<equiv> CHR 0x0D"

abbreviation LF :: char where
  "LF \<equiv> CHR 0x0A"

abbreviation HTAB :: char where
  "HTAB \<equiv> CHR 0x09"

abbreviation CRLF :: string where
  "CRLF \<equiv> [CR, LF]"

definition MAX_HEAD :: nat where
  "MAX_HEAD = 16 * 1024"

definition MAX_HEADERS :: nat where
  "MAX_HEADERS = 64"

datatype version = Http10 | Http11

fun version_as_bytes :: "version \<Rightarrow> string" where
  "version_as_bytes Http10 = ''HTTP/1.0''"
| "version_as_bytes Http11 = ''HTTP/1.1''"

datatype codec_error = Malformed string | TooLarge | TooManyHeaders | Unsupported string

fun error_status :: "codec_error \<Rightarrow> nat" where
  "error_status (Malformed _) = 400"
| "error_status TooLarge = 413"
| "error_status TooManyHeaders = 431"
| "error_status (Unsupported _) = 501"

fun error_detail :: "codec_error \<Rightarrow> string" where
  "error_detail (Malformed why) = why"
| "error_detail TooLarge = ''the head exceeded the size limit''"
| "error_detail TooManyHeaders = ''too many header fields''"
| "error_detail (Unsupported what) = what"

fun error_display :: "codec_error \<Rightarrow> string" where
  "error_display (Malformed why) = ''malformed message: '' @ why"
| "error_display TooLarge = ''message head too large''"
| "error_display TooManyHeaders = ''too many header fields''"
| "error_display (Unsupported what) = ''unsupported: '' @ what"

datatype framing = Empty | Length u64 | Chunked | UntilClose

fun allows_reuse :: "framing \<Rightarrow> bool" where
  "allows_reuse UntilClose = False"
| "allows_reuse _ = True"

definition is_ows :: "char \<Rightarrow> bool" where
  "is_ows b \<longleftrightarrow> b = CHR '' '' \<or> b = HTAB"

definition trim_ows :: "string \<Rightarrow> string" where
  "trim_ows v = rev (dropWhile is_ows (rev (dropWhile is_ows v)))"

definition has_token :: "string \<Rightarrow> string \<Rightarrow> bool" where
  "has_token v token =
     list_ex (\<lambda>part. eq_ignore_ascii_case (trim_ows part) token) (split_on (CHR '','') v)"

text \<open>The accumulation loop of \<open>parse_digits\<close>, with both checked operations.\<close>

fun digits_loop :: "u64 \<Rightarrow> string \<Rightarrow> u64 option" where
  "digits_loop n [] = Some n"
| "digits_loop n (b # bs) =
     (case checked_mul_u64 n 10 of
        None \<Rightarrow> None
      | Some m \<Rightarrow>
          (case checked_add_u64 m (of_nat (byte_val b - 48)) of
             None \<Rightarrow> None
           | Some k \<Rightarrow> digits_loop k bs))"

definition parse_digits :: "string \<Rightarrow> codec_error + u64" where
  "parse_digits v =
     (if v = [] \<or> \<not> list_all is_ascii_digit v
      then Inl (Malformed ''Content-Length is not a number'')
      else ok_or (Malformed ''Content-Length overflows'') (digits_loop 0 v))"

section \<open>Numbers\<close>

lemma digits_loop_spec:
  assumes "list_all is_ascii_digit bs"
  shows "digits_loop n bs =
    (if foldl (\<lambda>n c. 10 * n + digit_val c) (unat n) bs < 2 ^ 64
     then Some (of_nat (foldl (\<lambda>n c. 10 * n + digit_val c) (unat n) bs)) else None)"
  using assms
proof (induction bs arbitrary: n)
  case Nil
  then show ?case using unsigned_less[of n] by simp
next
  case (Cons b bs)
  let ?f = "foldl (\<lambda>n c. 10 * n + digit_val c)"
  have mono: "a \<le> ?f a bs" for a
  proof (induction bs arbitrary: a)
    case (Cons c cs)
    show ?case using Cons.IH[of "10 * a + digit_val c"] by simp
  qed simp
  have d: "digit_val b < 10" using Cons.prems by (auto simp: is_ascii_digit_def digit_val_def)
  then have ud: "unat (of_nat (byte_val b - 48) :: u64) = digit_val b"
    by (simp add: digit_val_def unat_of_nat take_bit_nat_eq_self)
  show ?case
  proof (cases "10 * unat n + digit_val b < 2 ^ 64")
    case True
    then have m: "unat n * 10 < 2 ^ 64" by simp
    then have um: "unat (n * 10) = 10 * unat n" by (simp add: unat_mult_lem [THEN iffD1])
    have "unat (n * 10 + of_nat (byte_val b - 48)) = 10 * unat n + digit_val b"
      using True um ud by (simp add: unat_add_lem [THEN iffD1])
    with Cons True m um ud show ?thesis
      by (simp add: checked_mul_u64_def checked_add_u64_def)
  next
    case False
    then have "\<not> ?f (10 * unat n + digit_val b) bs < 2 ^ 64" using mono[of "10 * unat n + digit_val b"] by simp
    moreover have "digits_loop n (b # bs) = None"
    proof (cases "unat n * 10 < 2 ^ 64")
      case True
      then have um: "unat (n * 10) = 10 * unat n" by (simp add: unat_mult_lem [THEN iffD1])
      with True False ud show ?thesis by (simp add: checked_mul_u64_def checked_add_u64_def)
    qed (simp add: checked_mul_u64_def)
    ultimately show ?thesis by simp
  qed
qed

lemma parse_digits_eq:
  "parse_digits v =
     (if v = [] \<or> \<not> list_all is_ascii_digit v then Inl (Malformed ''Content-Length is not a number'')
      else if digits_val v < 2 ^ 64 then Inr (of_nat (digits_val v))
      else Inl (Malformed ''Content-Length overflows''))"
  using digits_loop_spec[of v 0] by (simp add: parse_digits_def digits_val_def ok_or_def)

lemma parse_digits_show: "n < 2 ^ 64 \<Longrightarrow> parse_digits (show_nat n) = Inr (of_nat n)"
  by (simp add: parse_digits_eq show_nat_digits)

lemma trim_ows_id: "v = [] \<or> \<not> is_ows (hd v) \<and> \<not> is_ows (last v) \<Longrightarrow> trim_ows v = v"
  by (cases "v = []") (simp_all add: trim_ows_def dropWhile_eq_self_iff [THEN iffD2] hd_rev)

lemma trim_ows_ends:
  assumes "trim_ows v \<noteq> []"
  shows "\<not> is_ows (hd (trim_ows v))" "\<not> is_ows (last (trim_ows v))"
proof -
  let ?d = "dropWhile is_ows v"
  have ne: "dropWhile is_ows (rev ?d) \<noteq> []" using assms by (simp add: trim_ows_def)
  then show "\<not> is_ows (last (trim_ows v))"
    using hd_dropWhile[OF ne] by (simp add: trim_ows_def last_rev)
  have "?d \<noteq> []" using ne by force
  then have h: "\<not> is_ows (hd ?d)" by (rule hd_dropWhile)
  obtain pre where "?d = trim_ows v @ pre"
    unfolding trim_ows_def by (metis rev_append rev_rev_ident takeWhile_dropWhile_id)
  with assms h show "\<not> is_ows (hd (trim_ows v))" by (metis hd_append2)
qed

lemma trim_ows_idem [simp]: "trim_ows (trim_ows v) = trim_ows v"
  using trim_ows_ends trim_ows_id by blast

end
