(* ===== verification/Head.thy ===== *)
theory Head
  imports Codec
begin

text \<open>
  \<open>crates/ramjet-engine/src/codec/head.rs\<close> and the functions of \<open>codec/mod.rs\<close> that read a
  parsed head. A subslice of the buffer is a pair of its offset in the buffer and its bytes, so
  \<open>offset_in\<close> is the first component; a span keeps the two numbers as \<open>u16\<close>. \<open>span_bytes\<close>
  is only called with the buffer the span was parsed from: \<open>span_in\<close>, shown for every span of
  a parsed head, says that the index is then in range. A parse returns its result beside the
  head it leaves, whatever the result.
\<close>

section \<open>Definitions\<close>

record span =
  sp_start :: u16
  sp_len :: u16

definition span_EMPTY :: span where
  "span_EMPTY = \<lparr> sp_start = 0, sp_len = 0 \<rparr>"

definition span_at :: "nat \<Rightarrow> nat \<Rightarrow> span" where
  "span_at start len = \<lparr> sp_start = of_nat start, sp_len = of_nat len \<rparr>"

definition span_bytes :: "span \<Rightarrow> bytes \<Rightarrow> bytes" where
  "span_bytes s buf = take (unat (sp_len s)) (drop (unat (sp_start s)) buf)"

definition span_str :: "span \<Rightarrow> bytes \<Rightarrow> string option" where
  "span_str s buf = from_utf8 (span_bytes s buf)"

definition span_is_empty :: "span \<Rightarrow> bool" where
  "span_is_empty s \<longleftrightarrow> sp_len s = 0"

record header_span =
  hs_name :: span
  hs_value :: span

datatype start_line =
    RequestLine (sl_method: span) (sl_target: span) version
  | StatusLine (sl_code: u16) (sl_reason: span) version

record head =
  hd_start :: start_line
  hd_headers :: "header_span list"
  hd_len :: nat
  hd_scanned :: nat

definition head_default :: head where
  "head_default = \<lparr> hd_start = RequestLine span_EMPTY span_EMPTY Http11,
     hd_headers = [], hd_len = 0, hd_scanned = 0 \<rparr>"

definition head_reset :: "head \<Rightarrow> head" where
  "head_reset h = h\<lparr> hd_headers := [], hd_len := 0, hd_scanned := 0 \<rparr>"

definition head_version :: "head \<Rightarrow> version" where
  "head_version h = (case hd_start h of RequestLine _ _ v \<Rightarrow> v | StatusLine _ _ v \<Rightarrow> v)"

definition head_status :: "head \<Rightarrow> u16 option" where
  "head_status h = (case hd_start h of StatusLine code _ _ \<Rightarrow> Some code | RequestLine _ _ _ \<Rightarrow> None)"

definition head_method :: "head \<Rightarrow> bytes \<Rightarrow> bytes option" where
  "head_method h buf =
     (case hd_start h of RequestLine m _ _ \<Rightarrow> Some (span_bytes m buf) | StatusLine _ _ _ \<Rightarrow> None)"

definition head_target :: "head \<Rightarrow> bytes \<Rightarrow> bytes option" where
  "head_target h buf =
     (case hd_start h of RequestLine _ t _ \<Rightarrow> Some (span_bytes t buf) | StatusLine _ _ _ \<Rightarrow> None)"

definition head_iter :: "head \<Rightarrow> bytes \<Rightarrow> (bytes \<times> bytes) list" where
  "head_iter h buf =
     map (\<lambda>f. (span_bytes (hs_name f) buf, span_bytes (hs_value f) buf)) (hd_headers h)"

definition headers_named :: "head \<Rightarrow> bytes \<Rightarrow> bytes \<Rightarrow> (bytes \<times> bytes) list" where
  "headers_named h buf name = filter (\<lambda>(n, _). eq_ignore_ascii_case n name) (head_iter h buf)"

definition head_header :: "head \<Rightarrow> bytes \<Rightarrow> bytes \<Rightarrow> bytes option" where
  "head_header h buf name =
     map_option snd (find (\<lambda>(n, _). eq_ignore_ascii_case n name) (head_iter h buf))"

text \<open>\<open>windows(n).position(|w| w == pat)\<close> for a pattern of \<open>n > 0\<close> bytes.\<close>

fun window_pos :: "bytes \<Rightarrow> bytes \<Rightarrow> nat option" where
  "window_pos pat [] = None"
| "window_pos pat (x # xs) =
     (if take (length pat) (x # xs) = pat then Some 0 else map_option Suc (window_pos pat xs))"

definition find_head_end :: "bytes \<Rightarrow> head \<Rightarrow> (codec_error + nat option) \<times> head" where
  "find_head_end buf out =
     (let from = min (hd_scanned out - 3) (length buf)
      in case map_option (\<lambda>i. from + i + 4) (window_pos (CRLF @ CRLF) (drop from buf)) of
           Some e \<Rightarrow> if e > MAX_HEAD then (Inl TooLarge, out) else (Inr (Some e), out)
         | None \<Rightarrow>
             (let out' = out\<lparr> hd_scanned := length buf \<rparr>
              in if length buf > MAX_HEAD then (Inl TooLarge, out') else (Inr None, out')))"

type_synonym slice = "nat \<times> bytes"

definition split_line :: "bytes \<Rightarrow> nat \<Rightarrow> slice \<times> nat" where
  "split_line block from =
     (let rest = drop from block
      in case window_pos CRLF rest of
           Some i \<Rightarrow> ((from, take i rest), from + i + 2)
         | None \<Rightarrow> ((from, rest), length block))"

text \<open>\<open>splitn(n, |b| b == c)\<close>: at most \<open>n\<close> pieces, the last one the rest.\<close>

fun splitn :: "nat \<Rightarrow> char \<Rightarrow> bytes \<Rightarrow> bytes list" where
  "splitn 0 c s = []"
| "splitn (Suc 0) c s = [s]"
| "splitn (Suc (Suc n)) c s =
     (case split_once c s of
        None \<Rightarrow> [s]
      | Some (a, b) \<Rightarrow> a # splitn (Suc n) c b)"

definition is_tchar :: "char \<Rightarrow> bool" where
  "is_tchar b \<longleftrightarrow> is_ascii_alphanumeric b \<or> b \<in> set ''!#$%&*+-.^_|~'' \<or> byte_val b = 39 \<or> byte_val b = 96"

definition parse_version :: "bytes \<Rightarrow> codec_error + version" where
  "parse_version token =
     (if token = ''HTTP/1.1'' then Inr Http11
      else if token = ''HTTP/1.0'' then Inr Http10
      else if token = [] then Inl (Malformed ''version missing'')
      else Inl (Unsupported ''http version''))"

definition target_byte :: "char \<Rightarrow> bool" where
  "target_byte b \<longleftrightarrow> \<not> (byte_val b \<le> 0x20 \<or> byte_val b = 0x7f)"

definition parse_request_line :: "slice \<Rightarrow> codec_error + start_line" where
  "parse_request_line line =
     (let base = fst line; parts = splitn 3 (CHR '' '') (snd line)
      in sum_bind (ok_or (Malformed ''request line is empty'') (get_at parts 0)) (\<lambda>method.
         sum_bind (ok_or (Malformed ''request line has too few parts'') (get_at parts 1)) (\<lambda>target.
         sum_bind (ok_or (Malformed ''request line has too few parts'') (get_at parts 2)) (\<lambda>version.
         if method = [] \<or> \<not> list_all is_tchar method then Inl (Malformed ''malformed method'')
         else if target = [] then Inl (Malformed ''request target missing'')
         else if list_ex (\<lambda>b. \<not> target_byte b) target then Inl (Malformed ''malformed request target'')
         else sum_bind (parse_version version) (\<lambda>v.
           Inr (RequestLine (span_at base (length method))
             (span_at (base + length method + 1) (length target)) v))))))"

definition version_len :: "bytes \<Rightarrow> nat" where
  "version_len line = opt_or (length line) (position (\<lambda>b. b = CHR '' '') line)"

definition parse_status_line :: "slice \<Rightarrow> codec_error + start_line" where
  "parse_status_line line =
     (let base = fst line; parts = splitn 3 (CHR '' '') (snd line)
      in sum_bind (ok_or (Malformed ''status line is empty'') (get_at parts 0)) (\<lambda>version.
         sum_bind (ok_or (Malformed ''status line has no code'') (get_at parts 1)) (\<lambda>code.
         let reason = opt_or [] (get_at parts 2)
         in sum_bind (parse_version version) (\<lambda>v.
            if length code \<noteq> 3 \<or> \<not> list_all is_ascii_digit code
            then Inl (Malformed ''status code is not three digits'')
            else
              let c = of_nat (byte_val (code ! 0) - 48) * 100 + of_nat (byte_val (code ! 1) - 48) * 10
                        + of_nat (byte_val (code ! 2) - 48);
                  reason_start = base + version_len (snd line) + 1 + 3 + 1
              in Inr (StatusLine c
                   (if reason = [] then span_EMPTY else span_at reason_start (length reason)) v)))))"

definition value_byte :: "char \<Rightarrow> bool" where
  "value_byte b \<longleftrightarrow> \<not> ((byte_val b < 0x20 \<and> b \<noteq> HTAB) \<or> byte_val b = 0x7f)"

definition ows_start :: "bytes \<Rightarrow> nat" where
  "ows_start v = length (takeWhile is_ows v)"

text \<open>One turn of the field loop on a line that is not empty, before the push.\<close>

definition parse_field :: "slice \<Rightarrow> codec_error + header_span" where
  "parse_field line =
     (if hd (snd line) = CHR '' '' \<or> hd (snd line) = HTAB then Inl (Malformed ''obsolete line folding'')
      else let base = fst line
      in sum_bind (ok_or (Malformed ''header line has no colon'')
                     (position (\<lambda>b. b = CHR '':'') (snd line))) (\<lambda>colon.
         let name = take colon (snd line)
         in if name = [] \<or> \<not> list_all is_tchar name then Inl (Malformed ''malformed header name'')
            else let raw_value = drop (colon + 1) (snd line)
            in if list_ex (\<lambda>b. \<not> value_byte b) raw_value
               then Inl (Malformed ''header value contains a control byte'')
               else let trimmed = trim_ows raw_value;
                        value_start = base + colon + 1 + ows_start raw_value
               in Inr \<lparr> hs_name = span_at base (length name),
                        hs_value = span_at value_start (length trimmed) \<rparr>))"

function fields_loop :: "bytes \<Rightarrow> nat \<Rightarrow> head \<Rightarrow> (codec_error + unit) \<times> head" where
  "fields_loop block cursor out =
     (if cursor < length block
      then (let (line, next) = split_line block cursor
            in if snd line = [] then fields_loop block next out
               else case parse_field line of
                      Inl e \<Rightarrow> (Inl e, out)
                    | Inr f \<Rightarrow>
                        if length (hd_headers out) = MAX_HEADERS then (Inl TooManyHeaders, out)
                        else fields_loop block next (out\<lparr> hd_headers := hd_headers out @ [f] \<rparr>))
      else (Inr (), out))"
  by pat_completeness auto
termination
  by (relation "measure (\<lambda>(block, cursor, out). length block - cursor)")
     (auto simp: split_line_def Let_def split: option.splits)

declare fields_loop.simps [simp del]

definition parse_fields :: "bytes \<Rightarrow> nat \<Rightarrow> head \<Rightarrow> (codec_error + unit) \<times> head" where
  "parse_fields block cursor out = fields_loop block cursor (out\<lparr> hd_headers := [] \<rparr>)"

definition reject_duplicate_host :: "bytes \<Rightarrow> head \<Rightarrow> codec_error + unit" where
  "reject_duplicate_host buf out =
     (if length (headers_named out buf ''host'') > 1
      then Inl (Malformed ''more than one Host header'') else Inr ())"

definition parse_request_head :: "bytes \<Rightarrow> head \<Rightarrow> (codec_error + bool) \<times> head" where
  "parse_request_head buf out0 =
     (case find_head_end buf out0 of
        (Inl e, out) \<Rightarrow> (Inl e, out)
      | (Inr None, out) \<Rightarrow> (Inr False, out)
      | (Inr (Some e), out) \<Rightarrow>
          (let block = take (e - 4) buf; (line, rest) = split_line block 0
           in case parse_request_line line of
                Inl err \<Rightarrow> (Inl err, out)
              | Inr start \<Rightarrow>
                  (case parse_fields block rest (out\<lparr> hd_start := start \<rparr>) of
                     (Inl err, out) \<Rightarrow> (Inl err, out)
                   | (Inr _, out) \<Rightarrow>
                       (case reject_duplicate_host buf out of
                          Inl err \<Rightarrow> (Inl err, out)
                        | Inr _ \<Rightarrow> (Inr True, out\<lparr> hd_len := e, hd_scanned := 0 \<rparr>)))))"

definition parse_response_head :: "bytes \<Rightarrow> head \<Rightarrow> (codec_error + bool) \<times> head" where
  "parse_response_head buf out0 =
     (case find_head_end buf out0 of
        (Inl e, out) \<Rightarrow> (Inl e, out)
      | (Inr None, out) \<Rightarrow> (Inr False, out)
      | (Inr (Some e), out) \<Rightarrow>
          (let block = take (e - 4) buf; (line, rest) = split_line block 0
           in case parse_status_line line of
                Inl err \<Rightarrow> (Inl err, out)
              | Inr start \<Rightarrow>
                  (case parse_fields block rest (out\<lparr> hd_start := start \<rparr>) of
                     (Inl err, out) \<Rightarrow> (Inl err, out)
                   | (Inr _, out) \<Rightarrow> (Inr True, out\<lparr> hd_len := e, hd_scanned := 0 \<rparr>))))"


section \<open>Searching for a terminator\<close>

definition at_pos :: "bytes \<Rightarrow> bytes \<Rightarrow> nat \<Rightarrow> bool" where
  "at_pos pat xs i \<longleftrightarrow> take (length pat) (drop i xs) = pat"

lemma at_pos_Cons [simp]: "at_pos pat (x # xs) (Suc i) \<longleftrightarrow> at_pos pat xs i"
  by (simp add: at_pos_def)

lemma at_pos_drop [simp]: "at_pos pat (drop k xs) i \<longleftrightarrow> at_pos pat xs (k + i)"
  by (simp add: at_pos_def add.commute)

lemma at_pos_bound: "pat \<noteq> [] \<Longrightarrow> at_pos pat xs i \<Longrightarrow> i + length pat \<le> length xs"
proof -
  assume "pat \<noteq> []" "at_pos pat xs i"
  then have "min (length xs - i) (length pat) = length pat" "0 < length pat"
    by (auto simp: at_pos_def dest: arg_cong[where f = length])
  then show ?thesis by linarith
qed

lemma at_pos_prefix: "i + length pat \<le> length xs \<Longrightarrow> at_pos pat (xs @ ys) i \<longleftrightarrow> at_pos pat xs i"
  by (simp add: at_pos_def)

lemma at_pos_split: "at_pos pat xs i \<Longrightarrow> xs = take i xs @ pat @ drop (i + length pat) xs"
  unfolding at_pos_def by (metis append_take_drop_id drop_drop add.commute)

lemma all_nat_split: "(\<forall>i. P i) \<longleftrightarrow> P 0 \<and> (\<forall>i. P (Suc i))"
  by (metis not0_implies_Suc)

lemma all_less_Suc_split: "(\<forall>j<Suc i. P j) \<longleftrightarrow> P 0 \<and> (\<forall>j<i. P (Suc j))"
  by (metis less_Suc_eq_0_disj)

lemma window_pos_None_iff: "pat \<noteq> [] \<Longrightarrow> window_pos pat xs = None \<longleftrightarrow> (\<forall>i. \<not> at_pos pat xs i)"
proof (induction xs)
  case (Cons x xs)
  then show ?case
    by (subst all_nat_split) (auto simp: at_pos_def)
qed (auto simp: at_pos_def)

lemma window_pos_Some_iff:
  "pat \<noteq> [] \<Longrightarrow> window_pos pat xs = Some i \<longleftrightarrow> at_pos pat xs i \<and> (\<forall>j<i. \<not> at_pos pat xs j)"
proof (induction xs arbitrary: i)
  case (Cons x xs)
  then show ?case
    by (cases i) (auto simp: all_less_Suc_split at_pos_def)
qed (auto simp: at_pos_def)

lemma window_pos_skip:
  assumes "pat \<noteq> []" "\<forall>j<k. \<not> at_pos pat xs j"
  shows "map_option (\<lambda>i. k + i) (window_pos pat (drop k xs)) = window_pos pat xs"
proof (cases "window_pos pat (drop k xs)")
  case None
  then have "\<not> at_pos pat xs j" for j
    using assms le_add_diff_inverse[of k j] unfolding window_pos_None_iff[OF assms(1)]
    by (cases "j < k") (metis at_pos_drop not_less)+
  with None assms(1) show ?thesis by (simp add: window_pos_None_iff[THEN iffD2])
next
  case (Some i)
  then have i: "at_pos pat xs (k + i)" "\<forall>j<i. \<not> at_pos pat xs (k + j)"
    using assms(1) by (simp_all add: window_pos_Some_iff)
  have "\<not> at_pos pat xs j" if "j < k + i" for j
    using that assms(2) i(2) le_add_diff_inverse[of k j]
    by (cases "j < k") (metis nat_add_left_cancel_less not_less)+
  with i(1) assms(1) have "window_pos pat xs = Some (k + i)" by (simp add: window_pos_Some_iff)
  with Some show ?thesis by simp
qed

section \<open>Lines\<close>

function lines_of :: "bytes \<Rightarrow> bytes list" where
  "lines_of s =
     (case window_pos CRLF s of
        None \<Rightarrow> [s]
      | Some i \<Rightarrow> take i s # lines_of (drop (i + 2) s))"
  by pat_completeness auto
termination
  by (relation "measure length") (auto simp: window_pos_Some_iff dest: at_pos_bound[rotated])

declare lines_of.simps [simp del]

abbreviation crlf_free :: "bytes \<Rightarrow> bool" where
  "crlf_free s \<equiv> window_pos CRLF s = None"

lemma crlf_freeI: "CR \<notin> set s \<Longrightarrow> crlf_free s"
  by (induction s) auto

lemma crlf_at: "at_pos CRLF xs i \<longleftrightarrow> Suc i < length xs \<and> xs ! i = CR \<and> xs ! Suc i = LF"
proof -
  have two: "take 2 ys = CRLF \<longleftrightarrow> Suc 0 < length ys \<and> ys ! 0 = CR \<and> ys ! Suc 0 = LF" for ys :: bytes
    by (cases ys; cases "tl ys") (auto simp: numeral_2_eq_2)
  show ?thesis
    using two[of "drop i xs"] by (cases "Suc i < length xs") (auto simp: at_pos_def numeral_2_eq_2)
qed

lemma window_pos_line:
  assumes "crlf_free l"
  shows "window_pos CRLF (l @ CRLF @ r) = Some (length l)"
proof -
  have "\<not> at_pos CRLF (l @ CRLF @ r) j" if "j < length l" for j
  proof -
    have n: "\<not> at_pos CRLF l j" using assms by (simp add: window_pos_None_iff)
    then show ?thesis
      using that by (cases "Suc j = length l") (auto simp: crlf_at nth_append)
  qed
  then show ?thesis by (simp add: window_pos_Some_iff at_pos_def)
qed

lemma lines_of_Some: "window_pos CRLF s = Some i \<Longrightarrow> lines_of s = take i s # lines_of (drop (i + 2) s)"
  by (subst lines_of.simps) simp

lemma lines_of_Cons: "crlf_free l \<Longrightarrow> lines_of (l @ CRLF @ r) = l # lines_of r"
  by (subst lines_of.simps) (simp add: window_pos_line[simplified])

lemma lines_of_single: "crlf_free l \<Longrightarrow> lines_of l = [l]"
  by (subst lines_of.simps) simp

lemma lines_of_join: "concat (map (\<lambda>l. l @ CRLF) (lines_of s)) = s @ CRLF"
proof (induction s rule: lines_of.induct)
  case (1 s)
  show ?case
  proof (cases "window_pos CRLF s")
    case (Some i)
    then have "s = take i s @ CRLF @ drop (i + 2) s"
      using at_pos_split[of CRLF s i] by (simp add: window_pos_Some_iff)
    then have j: "take i s @ CRLF @ drop (i + 2) s @ CRLF = s @ CRLF"
      by (metis append.assoc)
    have "concat (map (\<lambda>l. l @ CRLF) (lines_of s)) = take i s @ CRLF @ drop (i + 2) s @ CRLF"
      using 1[OF Some] by (simp only: lines_of_Some[OF Some] list.map concat.simps append.assoc)
    then show ?thesis by (simp only: j)
  qed (simp add: lines_of_single)
qed

lemma window_pos_take:
  assumes "window_pos CRLF s = Some i"
  shows "crlf_free (take i s)"
proof -
  have min: "\<not> at_pos CRLF s j" if "j < i" for j
    using assms that by (simp add: window_pos_Some_iff)
  have "\<not> at_pos CRLF (take i s) j" for j
  proof
    assume a: "at_pos CRLF (take i s) j"
    then have "Suc j < i" "at_pos CRLF s j" by (auto simp: crlf_at)
    then show False using min[of j] by simp
  qed
  then show ?thesis by (simp add: window_pos_None_iff)
qed

lemma lines_of_free: "l \<in> set (lines_of s) \<Longrightarrow> crlf_free l"
proof (induction s rule: lines_of.induct)
  case (1 s)
  show ?case
  proof (cases "window_pos CRLF s")
    case (Some i)
    then have "crlf_free (take i s)" by (rule window_pos_take)
    with "1.IH"[OF Some] "1.prems" lines_of_Some[OF Some] show ?thesis by auto
  qed (use "1.prems" in \<open>simp add: lines_of_single\<close>)
qed


section \<open>Fields as strings\<close>

text \<open>The field grammar on lines, without spans.\<close>

definition token :: "bytes \<Rightarrow> bool" where
  "token s \<longleftrightarrow> s \<noteq> [] \<and> list_all is_tchar s"

definition field_of :: "bytes \<Rightarrow> codec_error + bytes \<times> bytes" where
  "field_of line =
     (if is_ows (hd line) then Inl (Malformed ''obsolete line folding'')
      else case split_once (CHR '':'') line of
             None \<Rightarrow> Inl (Malformed ''header line has no colon'')
           | Some (name, raw) \<Rightarrow>
               if \<not> token name then Inl (Malformed ''malformed header name'')
               else if \<not> list_all value_byte raw
               then Inl (Malformed ''header value contains a control byte'')
               else Inr (name, trim_ows raw))"

fun fields_of :: "nat \<Rightarrow> bytes list \<Rightarrow> codec_error + (bytes \<times> bytes) list" where
  "fields_of n [] = Inr []"
| "fields_of n (l # ls) =
     (if l = [] then fields_of n ls
      else sum_bind (field_of l) (\<lambda>f.
        if n = MAX_HEADERS then Inl TooManyHeaders
        else map_sum (\<lambda>e. e) (Cons f) (fields_of (Suc n) ls)))"

definition span_in :: "nat \<Rightarrow> span \<Rightarrow> bool" where
  "span_in k s \<longleftrightarrow> unat (sp_start s) + unat (sp_len s) \<le> k"

definition field_in :: "nat \<Rightarrow> header_span \<Rightarrow> bool" where
  "field_in k f \<longleftrightarrow> span_in k (hs_name f) \<and> span_in k (hs_value f)"

definition field_bytes :: "bytes \<Rightarrow> header_span \<Rightarrow> bytes \<times> bytes" where
  "field_bytes buf f = (span_bytes (hs_name f) buf, span_bytes (hs_value f) buf)"

lemma head_iter_eq: "head_iter h buf = map (field_bytes buf) (hd_headers h)"
  by (simp add: head_iter_def field_bytes_def)

lemma unat_u16: "n \<le> MAX_HEAD \<Longrightarrow> unat (of_nat n :: u16) = n"
  by (simp add: unat_of_nat take_bit_nat_eq_self MAX_HEAD_def)

lemma span_at_bytes:
  "s + n \<le> MAX_HEAD \<Longrightarrow> span_bytes (span_at s n) buf = take n (drop s buf)"
  by (simp add: span_bytes_def span_at_def unat_u16)

lemma span_at_in: "s + n \<le> MAX_HEAD \<Longrightarrow> span_in k (span_at s n) \<longleftrightarrow> s + n \<le> k"
  by (simp add: span_in_def span_at_def unat_u16)

lemma trim_ows_slice: "take (length (trim_ows v)) (drop (ows_start v) v) = trim_ows v"
  and trim_ows_within: "ows_start v + length (trim_ows v) \<le> length v"
proof -
  have d: "drop (ows_start v) v = dropWhile is_ows v"
    by (simp add: ows_start_def dropWhile_eq_drop)
  obtain r where r: "dropWhile is_ows v = trim_ows v @ r"
    unfolding trim_ows_def by (metis rev_append rev_rev_ident takeWhile_dropWhile_id)
  then show "take (length (trim_ows v)) (drop (ows_start v) v) = trim_ows v"
    by (simp add: d)
  have "length v = ows_start v + length (dropWhile is_ows v)"
    unfolding ows_start_def by (metis length_append takeWhile_dropWhile_id)
  then show "ows_start v + length (trim_ows v) \<le> length v" by (simp add: r)
qed

lemma split_once_position:
  "split_once c s = (case position (\<lambda>b. b = c) s of
     None \<Rightarrow> None | Some i \<Rightarrow> Some (take i s, drop (i + 1) s))"
  by (induction c s rule: split_once.induct) (auto split: option.splits)

lemma parse_field_ref:
  assumes "take (length line) (drop base buf) = line" "base + length line \<le> MAX_HEAD"
    "base + length line \<le> k"
  shows "map_sum (\<lambda>e. e) (field_bytes buf) (parse_field (base, line)) = field_of line
    \<and> (\<forall>f. parse_field (base, line) = Inr f \<longrightarrow> field_in k f)"
proof (cases "position (\<lambda>b. b = CHR '':'') line")
  case None
  then show ?thesis
    by (auto simp: parse_field_def field_of_def split_once_position is_ows_def)
next
  case (Some c)
  then have c: "c < length line" by (simp add: position_Some_iff)
  let ?raw = "drop (c + 1) line"
  have w: "ows_start ?raw + length (trim_ows ?raw) \<le> length line - (c + 1)"
    using trim_ows_within[of ?raw] by simp
  have line: "line = take (length line) (drop base buf)" using assms(1) by simp
  have nm: "take c (drop base buf) = take c line"
    using c by (subst line) (simp add: min_def)
  have "trim_ows ?raw = take (length (trim_ows ?raw)) (drop (ows_start ?raw) ?raw)"
    by (simp only: trim_ows_slice)
  also have "\<dots> = take (length (trim_ows ?raw)) (drop (base + c + 1 + ows_start ?raw) buf)"
    using w c by (subst (2) line) (simp add: drop_take min_def add.commute add.left_commute)
  finally have vl: "take (length (trim_ows ?raw)) (drop (base + c + 1 + ows_start ?raw) buf) = trim_ows ?raw"
    by simp
  show ?thesis
    using Some c w assms(2,3) nm vl
    by (auto simp: parse_field_def field_of_def split_once_position is_ows_def token_def Let_def
        field_bytes_def field_in_def span_at_bytes span_at_in list_all_iff list_ex_iff)
qed


lemma split_line_cases:
  assumes "cursor < length block" "split_line block cursor = ((base, line), next)"
  obtains (last) "window_pos CRLF (drop cursor block) = None" "line = drop cursor block"
      "next = length block" "base = cursor"
    | (more) "window_pos CRLF (drop cursor block) = Some (length line)"
      "line = take (length line) (drop cursor block)" "next = cursor + length line + 2" "base = cursor"
      "next \<le> length block"
proof (cases "window_pos CRLF (drop cursor block)")
  case None
  with assms(2) show thesis by (intro last) (auto simp: split_line_def)
next
  case (Some i)
  then have "i + 2 \<le> length (drop cursor block)"
    using at_pos_bound[of CRLF "drop cursor block" i] by (simp add: window_pos_Some_iff)
  then have b: "cursor + i + 2 \<le> length block" using assms(1) by simp
  from Some assms(2) have l: "line = take i (drop cursor block)" "next = cursor + i + 2" "base = cursor"
    by (auto simp: split_line_def)
  moreover from l(1) b have "length line = i" by simp
  ultimately show thesis using Some b by (intro more) simp_all
qed

lemma split_line_lines:
  assumes "cursor < length block" "split_line block cursor = ((base, line), next)"
  shows "base = cursor" "take (length line) (drop cursor block) = line"
    "cursor + length line \<le> length block" "cursor < next" "next \<le> length block"
  by (rule split_line_cases[OF assms]; use assms(1) in simp)+

lemma split_line_rest:
  assumes "cursor < length block" "split_line block cursor = ((base, line), next)"
  shows "lines_of (drop cursor block) = line # (if next < length block then lines_of (drop next block)
       else if window_pos CRLF (drop cursor block) = None then [] else [[]])"
proof (rule split_line_cases[OF assms])
  assume "window_pos CRLF (drop cursor block) = None" "line = drop cursor block" "next = length block"
  then show ?thesis by (simp add: lines_of_single)
next
  assume a: "window_pos CRLF (drop cursor block) = Some (length line)"
    "line = take (length line) (drop cursor block)" "next = cursor + length line + 2"
  have d: "drop (length line + 2) (drop cursor block) = drop next block"
    using a(3) by (simp add: add.commute add.left_commute)
  have "drop next block = [] \<Longrightarrow> lines_of (drop next block) = [[]]" by (simp add: lines_of_single)
  moreover have "lines_of (drop cursor block) = line # lines_of (drop next block)"
    using lines_of_Some[OF a(1)] by (simp only: d a(2)[symmetric])
  ultimately show ?thesis using a(1) by simp
qed

definition fields_agree :: "nat \<Rightarrow> bytes \<Rightarrow> head \<Rightarrow> codec_error + (bytes \<times> bytes) list
    \<Rightarrow> (codec_error + unit) \<times> head \<Rightarrow> bool" where
  "fields_agree k buf out spec r =
     (case spec of
        Inl e \<Rightarrow> \<exists>hs. r = (Inl e, out\<lparr> hd_headers := hs \<rparr>)
      | Inr fs \<Rightarrow> \<exists>hs. r = (Inr (), out\<lparr> hd_headers := hd_headers out @ hs \<rparr>)
                  \<and> map (field_bytes buf) hs = fs \<and> list_all (field_in k) hs)"

lemma fields_agree_push:
  assumes "fields_agree k buf (out\<lparr> hd_headers := hd_headers out @ [f] \<rparr>) spec r"
    "field_bytes buf f = p" "field_in k f"
  shows "fields_agree k buf out (map_sum (\<lambda>e. e) (Cons p) spec) r"
proof (cases spec)
  case (Inr fs)
  then obtain hs where "r = (Inr (), out\<lparr> hd_headers := hd_headers out @ [f] @ hs \<rparr>)"
    "map (field_bytes buf) hs = fs" "list_all (field_in k) hs"
    using assms(1) by (auto simp: fields_agree_def)
  with Inr assms(2,3) show ?thesis
    unfolding fields_agree_def by (auto intro!: exI[of _ "f # hs"])
qed (use assms in \<open>auto simp: fields_agree_def\<close>)

lemma fields_loop_ref:
  assumes "buf = block @ rest" "length block \<le> MAX_HEAD" "cursor \<le> length block"
  shows "fields_agree (length block) buf out
    (fields_of (length (hd_headers out)) (if cursor < length block then lines_of (drop cursor block) else []))
    (fields_loop block cursor out)"
  using assms
proof (induction block cursor out rule: fields_loop.induct)
  case (1 block cursor out)
  show ?case
  proof (cases "cursor < length block")
    case False
    then show ?thesis by (subst fields_loop.simps) (simp add: fields_agree_def)
  next
    case True
    obtain base line "next" where sl: "split_line block cursor = ((base, line), next)"
      by (metis prod.collapse)
    note L = split_line_lines[OF True sl] split_line_rest[OF True sl]
    have spec: "fields_of n (lines_of (drop cursor block)) =
        fields_of n (line # (if next < length block then lines_of (drop next block) else []))" for n
      unfolding L(6) by (cases "field_of line") auto
    show ?thesis
    proof (cases "line = []")
      case e: True
      from "1.IH"(1)[OF True sl[symmetric] refl _ "1.prems"(1,2) L(5)] e True sl spec show ?thesis
        by (subst fields_loop.simps) simp
    next
      case ne: False
      have at: "take (length line) (drop base buf) = line" "base + length line \<le> MAX_HEAD"
        "base + length line \<le> length block"
        using L "1.prems" by simp_all
      note P = parse_field_ref[OF at]
      show ?thesis
      proof (cases "parse_field (base, line)")
        case (Inl e)
        with P have "field_of line = Inl e" by auto
        with Inl ne True sl spec show ?thesis
          by (subst fields_loop.simps) (auto simp: fields_agree_def intro: exI[of _ "hd_headers out"])
      next
        case (Inr f)
        with P have f: "field_of line = Inr (field_bytes buf f)" "field_in (length block) f" by auto
        show ?thesis
        proof (cases "length (hd_headers out) = MAX_HEADERS")
          case full: True
          with Inr f ne True sl spec show ?thesis
            by (subst fields_loop.simps) (auto simp: fields_agree_def intro: exI[of _ "hd_headers out"])
        next
          case room: False
          from "1.IH"(2)[OF True sl[symmetric] refl _ _ room "1.prems"(1,2) L(5), of f] ne Inr
          show ?thesis
            using fields_agree_push[OF _ refl f(2)] room True sl spec f(1)
            by (subst fields_loop.simps) simp
        qed
      qed
    qed
  qed
qed


section \<open>The grammar of a head\<close>

definition field_line :: "bytes \<times> bytes \<Rightarrow> bytes" where
  "field_line f = fst f @ '':'' @ snd f"

definition field_ok :: "bytes \<times> bytes \<Rightarrow> bool" where
  "field_ok f \<longleftrightarrow> token (fst f) \<and> list_all value_byte (snd f)"

definition field_read :: "bytes \<times> bytes \<Rightarrow> bytes \<times> bytes" where
  "field_read f = (fst f, trim_ows (snd f))"

text \<open>A start line, the raw field lines and the empty line, each closed by CRLF.\<close>

definition head_text :: "bytes \<Rightarrow> (bytes \<times> bytes) list \<Rightarrow> bytes" where
  "head_text start fs = start @ concat (map (\<lambda>f. CRLF @ field_line f) fs) @ CRLF @ CRLF"

lemma tchar_visible: "is_tchar b \<Longrightarrow> b \<noteq> CR \<and> b \<noteq> CHR '' '' \<and> b \<noteq> CHR '':'' \<and> b \<noteq> HTAB"
  by (auto simp: is_tchar_def ascii_defs)

lemma token_visible: "token s \<Longrightarrow> CR \<notin> set s \<and> CHR '' '' \<notin> set s \<and> CHR '':'' \<notin> set s \<and> HTAB \<notin> set s"
  by (auto simp: token_def list_all_iff dest: tchar_visible)

lemma value_byte_not_CR: "list_all value_byte s \<Longrightarrow> CR \<notin> set s"
  by (auto simp: list_all_iff value_byte_def)

lemma field_line_free: "field_ok f \<Longrightarrow> crlf_free (field_line f) \<and> field_line f \<noteq> []"
  using token_visible value_byte_not_CR
  by (intro conjI crlf_freeI) (auto simp: field_ok_def field_line_def)

lemma field_of_iff:
  "line \<noteq> [] \<Longrightarrow> field_of line = Inr p \<longleftrightarrow> (\<exists>f. line = field_line f \<and> field_ok f \<and> p = field_read f)"
proof
  assume "line \<noteq> []" "field_of line = Inr p"
  then show "\<exists>f. line = field_line f \<and> field_ok f \<and> p = field_read f"
    by (auto simp: field_of_def split_once_Some_iff field_line_def field_ok_def field_read_def
        split: if_splits option.splits)
next
  assume "\<exists>f. line = field_line f \<and> field_ok f \<and> p = field_read f"
  then obtain n raw where f: "line = n @ '':'' @ raw" "token n" "list_all value_byte raw"
    "p = (n, trim_ows raw)"
    by (auto simp: field_line_def field_ok_def field_read_def)
  then have "split_once (CHR '':'') line = Some (n, raw)"
    using token_visible[of n] by (simp add: split_once_Some_iff)
  moreover have "\<not> is_ows (hd line)"
    using f(1,2) token_visible[of n] by (cases n) (auto simp: token_def is_ows_def)
  ultimately show "field_of line = Inr p" using f by (simp add: field_of_def)
qed

lemma fields_of_iff:
  assumes "[] \<notin> set ls" "n \<le> MAX_HEADERS"
  shows "fields_of n ls = Inr ps \<longleftrightarrow>
    (\<exists>fs. ls = map field_line fs \<and> list_all field_ok fs \<and> ps = map field_read fs
       \<and> n + length ls \<le> MAX_HEADERS)"
  using assms
proof (induction n ls arbitrary: ps rule: fields_of.induct)
  case (2 n l ls)
  have l: "l \<noteq> []" "[] \<notin> set ls" using "2.prems" by auto
  have step: "fields_of n (l # ls) = Inr ps \<longleftrightarrow>
      (\<exists>p qs. field_of l = Inr p \<and> n \<noteq> MAX_HEADERS \<and> fields_of (Suc n) ls = Inr qs \<and> ps = p # qs)"
    using l by (cases "field_of l"; cases "fields_of (Suc n) ls") auto
  show ?case
  proof (cases "n = MAX_HEADERS")
    case False
    then have IH: "fields_of (Suc n) ls = Inr qs \<longleftrightarrow> (\<exists>fs. ls = map field_line fs \<and> list_all field_ok fs
        \<and> qs = map field_read fs \<and> Suc n + length ls \<le> MAX_HEADERS)" for qs
      using "2.IH"(2)[OF l(1) False, of qs] l "2.prems"(2) by simp
    show ?thesis (is "_ \<longleftrightarrow> ?R")
      unfolding step field_of_iff[OF l(1)] IH
    proof
      assume ?R
      then obtain f fs where "l = field_line f" "ls = map field_line fs" "field_ok f" "list_all field_ok fs"
        "ps = field_read f # map field_read fs" "Suc n + length ls \<le> MAX_HEADERS"
        by (auto simp: Cons_eq_map_conv)
      then show "\<exists>p qs. (\<exists>f. l = field_line f \<and> field_ok f \<and> p = field_read f) \<and> n \<noteq> MAX_HEADERS \<and>
          (\<exists>fs. ls = map field_line fs \<and> list_all field_ok fs \<and> qs = map field_read fs
            \<and> Suc n + length ls \<le> MAX_HEADERS) \<and> ps = p # qs"
        using False by blast
    qed (fastforce intro: exI[of _ "_ # _"])
  qed (use step in auto)
qed auto


section \<open>The end of a head\<close>

abbreviation END :: bytes where
  "END \<equiv> CRLF @ CRLF"

fun join_lines :: "bytes list \<Rightarrow> bytes" where
  "join_lines [] = []"
| "join_lines [l] = l"
| "join_lines (l # ls) = l @ CRLF @ join_lines ls"

lemma join_lines_closed: "ls \<noteq> [] \<Longrightarrow> concat (map (\<lambda>l. l @ CRLF) ls) = join_lines ls @ CRLF"
  by (induction ls rule: join_lines.induct) auto

lemma lines_of_not_Nil: "lines_of s \<noteq> []"
  by (subst lines_of.simps) (simp split: option.split)

lemma join_lines_of: "join_lines (lines_of s) = s"
proof -
  have "lines_of s \<noteq> []" by (rule lines_of_not_Nil)
  then show ?thesis using lines_of_join[of s] join_lines_closed[of "lines_of s"] by simp
qed

lemma lines_of_join_lines: "ls \<noteq> [] \<Longrightarrow> list_all crlf_free ls \<Longrightarrow> lines_of (join_lines ls) = ls"
proof (induction ls rule: join_lines.induct)
  case (3 l k ls)
  then show ?case by (simp add: lines_of_Cons[simplified])
qed (simp_all add: lines_of_single)

lemma at_pos_mid: "at_pos pat (a @ pat @ b) (length a)"
  by (simp add: at_pos_def)

lemma at_END_CRLF:
  assumes "at_pos END xs j"
  shows "at_pos CRLF xs j"
proof -
  have "take 2 (take 4 (drop j xs)) = take 2 END"
    using assms by (simp add: at_pos_def numeral_eq_Suc)
  then show ?thesis by (simp add: at_pos_def numeral_eq_Suc)
qed

lemma no_END_in_line:
  assumes "crlf_free l" "j < length l"
  shows "\<not> at_pos END (l @ CRLF @ r) j"
proof
  assume "at_pos END (l @ CRLF @ r) j"
  then have "at_pos CRLF (l @ CRLF @ r) j" by (rule at_END_CRLF)
  then show False
    using window_pos_line[OF assms(1), of r] assms(2) unfolding window_pos_Some_iff[OF list.distinct(2)]
    by blast
qed

lemma END_after_lines:
  assumes "list_all (\<lambda>l. crlf_free l \<and> l \<noteq> []) ls" "ls \<noteq> []"
  shows "window_pos END (join_lines ls @ END @ rest) = Some (length (join_lines ls))"
  using assms
proof (induction ls rule: join_lines.induct)
  case (2 l)
  have "\<not> at_pos END (l @ END @ rest) j" if "j < length l" for j
    using no_END_in_line[of l j "CRLF @ rest"] "2.prems" that by simp
  then show ?case by (simp add: window_pos_Some_iff at_pos_def)
next
  case (3 l k ls)
  let ?z = "join_lines (k # ls) @ END @ rest"
  let ?w = "l @ CRLF @ ?z"
  have IH: "window_pos END ?z = Some (length (join_lines (k # ls)))" using 3 by simp
  have l: "crlf_free l" "crlf_free k" "k \<noteq> []" using "3.prems" by auto
  have "\<not> at_pos END ?w j" if "j < length l + 2" for j
  proof -
    consider "j < length l" | "j = length l" | "j = Suc (length l)" using \<open>j < length l + 2\<close> by linarith
    then show ?thesis
    proof cases
      case 1
      then show ?thesis by (rule no_END_in_line[OF l(1)])
    next
      case 2
      have "\<not> at_pos CRLF ?z 0"
      proof
        assume "at_pos CRLF ?z 0"
        then have "window_pos CRLF ?z = Some 0" by (simp add: window_pos_Some_iff)
        moreover have "window_pos CRLF ?z = Some (length k)"
          using window_pos_line[OF l(2)] by (cases ls) (simp_all)
        ultimately show False using l(3) by simp
      qed
      then show ?thesis using 2 by (simp add: at_pos_def)
    next
      case 3
      then show ?thesis by (simp add: at_pos_def)
    qed
  qed
  then have "map_option (\<lambda>i. length l + 2 + i) (window_pos END (drop (length l + 2) ?w)) = window_pos END ?w"
    by (intro window_pos_skip) simp_all
  moreover have "drop (length l + 2) ?w = ?z" by simp
  ultimately have "window_pos END ?w = Some (length l + 2 + length (join_lines (k # ls)))"
    using IH by simp
  then show ?case by simp
qed simp

lemma no_empty_line:
  assumes "window_pos END (block @ END @ rest) = Some (length block)" "lines_of block = l # ls"
  shows "[] \<notin> set ls"
proof
  assume "[] \<in> set ls"
  then obtain as bs where ls: "ls = as @ [] # bs" by (meson split_list)
  have ne: "l # as \<noteq> []" by simp
  have "block @ CRLF = concat (map (\<lambda>l. l @ CRLF) (l # as)) @ CRLF @ concat (map (\<lambda>l. l @ CRLF) bs)"
    using lines_of_join[of block] assms(2) ls by simp
  then have eq: "block @ CRLF = join_lines (l # as) @ END @ concat (map (\<lambda>l. l @ CRLF) bs)"
    using join_lines_closed[OF ne] by simp
  let ?p = "length (join_lines (l # as))"
  have "?p < length block" using arg_cong[OF eq, of length] by simp
  moreover have "at_pos END (block @ END @ rest) ?p"
  proof -
    have "block @ END @ rest = join_lines (l # as) @ END @ concat (map (\<lambda>l. l @ CRLF) bs) @ CRLF @ rest"
      using eq by (metis append.assoc)
    then show ?thesis by (simp only: at_pos_mid)
  qed
  ultimately show False using assms(1) by (simp add: window_pos_Some_iff)
qed


section \<open>Parsing a head\<close>

text \<open>Both parsers, over the start-line parser and the check of the fields they use.\<close>

definition parse_head_with :: "(slice \<Rightarrow> codec_error + start_line)
    \<Rightarrow> ((bytes \<times> bytes) list \<Rightarrow> codec_error + unit) \<Rightarrow> bytes \<Rightarrow> head \<Rightarrow> (codec_error + bool) \<times> head" where
  "parse_head_with parse_line check buf out0 =
     (case find_head_end buf out0 of
        (Inl e, out) \<Rightarrow> (Inl e, out)
      | (Inr None, out) \<Rightarrow> (Inr False, out)
      | (Inr (Some e), out) \<Rightarrow>
          (let block = take (e - 4) buf; (line, rest) = split_line block 0
           in case parse_line line of
                Inl err \<Rightarrow> (Inl err, out)
              | Inr start \<Rightarrow>
                  (case parse_fields block rest (out\<lparr> hd_start := start \<rparr>) of
                     (Inl err, out) \<Rightarrow> (Inl err, out)
                   | (Inr _, out) \<Rightarrow>
                       (case check (head_iter out buf) of
                          Inl err \<Rightarrow> (Inl err, out)
                        | Inr _ \<Rightarrow> (Inr True, out\<lparr> hd_len := e, hd_scanned := 0 \<rparr>)))))"

definition one_host :: "(bytes \<times> bytes) list \<Rightarrow> codec_error + unit" where
  "one_host fs =
     (if length (filter (\<lambda>(n, _). eq_ignore_ascii_case n ''host'') fs) > 1
      then Inl (Malformed ''more than one Host header'') else Inr ())"

lemma parse_request_head_with: "parse_request_head = parse_head_with parse_request_line one_host"
proof -
  have "reject_duplicate_host buf out = one_host (head_iter out buf)" for buf out
    by (simp add: reject_duplicate_host_def one_host_def headers_named_def)
  then show ?thesis
    by (intro ext) (simp only: parse_request_head_def parse_head_with_def)
qed

lemma parse_response_head_with: "parse_response_head = parse_head_with parse_status_line (\<lambda>_. Inr ())"
  by (intro ext) (simp only: parse_response_head_def parse_head_with_def sum.case)

text \<open>The cursor is behind the search: nothing before it ends the head.\<close>

definition scan_ok :: "bytes \<Rightarrow> head \<Rightarrow> bool" where
  "scan_ok buf h \<longleftrightarrow> (\<forall>j. j + 4 \<le> hd_scanned h \<longrightarrow> \<not> at_pos END buf j)"

lemma scan_ok_fresh: "hd_scanned h = 0 \<Longrightarrow> scan_ok buf h"
  by (simp add: scan_ok_def)

lemma find_head_end_spec:
  assumes "scan_ok buf out"
  shows "find_head_end buf out =
    (case window_pos END buf of
       Some i \<Rightarrow> (if i + 4 > MAX_HEAD then Inl TooLarge else Inr (Some (i + 4)), out)
     | None \<Rightarrow> (if length buf > MAX_HEAD then Inl TooLarge else Inr None, out\<lparr> hd_scanned := length buf \<rparr>))"
proof -
  let ?from = "min (hd_scanned out - 3) (length buf)"
  have "map_option (\<lambda>i. ?from + i) (window_pos END (drop ?from buf)) = window_pos END buf"
  proof (intro window_pos_skip allI impI)
    fix j assume "j < ?from"
    then have "j + 4 \<le> hd_scanned out" by linarith
    then show "\<not> at_pos END buf j" using assms by (simp add: scan_ok_def)
  qed simp
  then have found: "map_option (\<lambda>i. ?from + i + 4) (window_pos END (drop ?from buf)) =
      map_option (\<lambda>i. i + 4) (window_pos END buf)"
    by (cases "window_pos END (drop ?from buf)"; cases "window_pos END buf") simp_all
  show ?thesis
    unfolding find_head_end_def Let_def found by (cases "window_pos END buf") simp_all
qed

lemma scan_ok_waiting:
  assumes "window_pos END buf = None"
  shows "scan_ok (buf @ later) (h\<lparr> hd_scanned := length buf \<rparr>)"
  unfolding scan_ok_def
proof (intro allI impI)
  fix j assume "j + 4 \<le> hd_scanned (h\<lparr> hd_scanned := length buf \<rparr>)"
  then have "at_pos END (buf @ later) j \<longleftrightarrow> at_pos END buf j" by (intro at_pos_prefix) simp
  then show "\<not> at_pos END (buf @ later) j" using assms by (simp add: window_pos_None_iff)
qed

text \<open>The head \<open>h\<close> reads, in \<open>buf\<close>, as a start line and fields that take \<open>n\<close> bytes.\<close>

definition reads_as :: "head \<Rightarrow> bytes \<Rightarrow> start_line \<Rightarrow> (bytes \<times> bytes) list \<Rightarrow> nat \<Rightarrow> bool" where
  "reads_as h buf start ps n \<longleftrightarrow>
     hd_start h = start \<and> head_iter h buf = ps \<and> hd_len h = n \<and> hd_scanned h = 0
     \<and> list_all (field_in n) (hd_headers h)"

lemma field_in_mono: "field_in k f \<Longrightarrow> k \<le> n \<Longrightarrow> field_in n f"
  by (simp add: field_in_def span_in_def)

lemma head_text_join: "head_text l fs = join_lines (l # map field_line fs) @ END"
proof -
  have "concat (map (\<lambda>f. CRLF @ field_line f) fs) = concat (map (\<lambda>l. CRLF @ l) (map field_line fs))"
    by (simp add: comp_def)
  moreover have "l @ concat (map (\<lambda>l. CRLF @ l) ls) = join_lines (l # ls)" for l ls
  proof (induction ls arbitrary: l)
    case (Cons k ks)
    have "l @ concat (map (\<lambda>l. CRLF @ l) (k # ks)) = l @ CRLF @ k @ concat (map (\<lambda>l. CRLF @ l) ks)"
      by simp
    then show ?case by (simp only: Cons join_lines.simps)
  qed simp
  ultimately show ?thesis unfolding head_text_def by (metis append.assoc)
qed

lemma split_first:
  assumes "lines_of block = l # ls"
  obtains "next" where "split_line block 0 = ((0, l), next)" "next \<le> length block"
    "fields_of 0 (if next < length block then lines_of (drop next block) else []) = fields_of 0 ls"
proof (cases "block = []")
  case True
  then have "l = []" "ls = []" using assms by (simp_all add: lines_of_single)
  with True that show thesis by (simp add: split_line_def)
next
  case False
  then have ne: "0 < length block" by simp
  obtain base line "next" where sl: "split_line block 0 = ((base, line), next)"
    by (metis prod.collapse)
  have "fields_of 0 [[]] = fields_of 0 []" by simp
  with split_line_lines[OF ne sl] split_line_rest[OF ne sl] assms sl that show thesis
    by (auto split: if_splits)
qed

lemma parse_fields_ref:
  assumes "buf = block @ rest" "length block \<le> MAX_HEAD" "next \<le> length block"
    "fields_of 0 (if next < length block then lines_of (drop next block) else []) = spec"
  shows "fields_agree (length block) buf (out\<lparr> hd_headers := [] \<rparr>) spec (parse_fields block next out)"
  using fields_loop_ref[OF assms(1-3), of "out\<lparr> hd_headers := [] \<rparr>"] assms(4)
  by (simp add: parse_fields_def)

text \<open>The result of a complete head, from its lines.\<close>

definition block_result :: "(slice \<Rightarrow> codec_error + start_line) \<Rightarrow> ((bytes \<times> bytes) list \<Rightarrow> codec_error + unit)
    \<Rightarrow> bytes \<Rightarrow> bytes list \<Rightarrow> codec_error + bool" where
  "block_result parse_line check l ls =
     sum_bind (parse_line (0, l)) (\<lambda>_. sum_bind (fields_of 0 ls) (\<lambda>ps.
       sum_bind (check ps) (\<lambda>_. Inr True)))"

lemma block_result_True:
  "block_result parse_line check l ls = Inr True \<longleftrightarrow>
     (\<exists>st ps. parse_line (0, l) = Inr st \<and> fields_of 0 ls = Inr ps \<and> check ps = Inr ())"
  by (auto simp: block_result_def sum_bind_Inr_iff)

lemma block_result_not_waiting: "block_result parse_line check l ls \<noteq> Inr False"
  by (auto simp: block_result_def sum_bind_Inr_iff)

lemma parse_head_block:
  assumes "scan_ok buf out" "window_pos END buf = Some i" "i + 4 \<le> MAX_HEAD"
    "lines_of (take i buf) = l # ls"
    and r_def: "r = parse_head_with parse_line check buf out"
  shows "fst r = block_result parse_line check l ls"
    and "parse_line (0, l) = Inr st \<Longrightarrow> fields_of 0 ls = Inr ps \<Longrightarrow> check ps = Inr ()
      \<Longrightarrow> reads_as (snd r) buf st ps (i + 4)"
proof -
  obtain "next" where n: "split_line (take i buf) 0 = ((0, l), next)" "next \<le> length (take i buf)"
    "fields_of 0 (if next < length (take i buf) then lines_of (drop next (take i buf)) else []) = fields_of 0 ls"
    using split_first[OF assms(4)] by blast
  have len: "length (take i buf) \<le> MAX_HEAD" using assms(3) by simp
  have buf: "buf = take i buf @ drop i buf" by simp
  note F = parse_fields_ref[OF buf len n(2,3)]
  have r: "r = (case parse_line (0, l) of Inl e \<Rightarrow> (Inl e, out)
      | Inr st \<Rightarrow> (case parse_fields (take i buf) next (out\<lparr> hd_start := st \<rparr>) of
          (Inl e, out) \<Rightarrow> (Inl e, out)
        | (Inr _, out) \<Rightarrow> (case check (head_iter out buf) of Inl e \<Rightarrow> (Inl e, out)
            | Inr _ \<Rightarrow> (Inr True, out\<lparr> hd_len := i + 4, hd_scanned := 0 \<rparr>))))"
    using assms(3) n(1) unfolding r_def parse_head_with_def find_head_end_spec[OF assms(1)] assms(2)
    by simp
  have main: "case parse_line (0, l) of Inl e \<Rightarrow> fst r = Inl e
      | Inr st \<Rightarrow> (case fields_of 0 ls of Inl e \<Rightarrow> fst r = Inl e
        | Inr ps \<Rightarrow> (case check ps of Inl e \<Rightarrow> fst r = Inl e
            | Inr _ \<Rightarrow> fst r = Inr True \<and> reads_as (snd r) buf st ps (i + 4)))"
  proof (cases "parse_line (0, l)")
    case (Inr st)
    show ?thesis
    proof (cases "fields_of 0 ls")
      case (Inl e)
      with F[of "out\<lparr> hd_start := st \<rparr>"] r Inr show ?thesis by (auto simp: fields_agree_def)
    next
      case ps: (Inr ps)
      then obtain hs where hs: "parse_fields (take i buf) next (out\<lparr> hd_start := st \<rparr>) =
          (Inr (), out\<lparr> hd_start := st, hd_headers := hs \<rparr>)" "map (field_bytes buf) hs = ps"
        "list_all (field_in (length (take i buf))) hs"
        using F[of "out\<lparr> hd_start := st \<rparr>"] by (auto simp: fields_agree_def)
      have "list_all (field_in (i + 4)) hs"
        using hs(3) by (auto simp: list_all_iff intro: field_in_mono)
      with hs Inr ps r show ?thesis
        by (auto simp: reads_as_def head_iter_eq split: sum.split)
    qed
  qed (use r in simp)
  show "fst r = block_result parse_line check l ls"
    using main by (auto simp: block_result_def split: sum.splits)
  show "parse_line (0, l) = Inr st \<Longrightarrow> fields_of 0 ls = Inr ps \<Longrightarrow> check ps = Inr ()
      \<Longrightarrow> reads_as (snd r) buf st ps (i + 4)"
    using main by simp
qed

text \<open>
  A head that arrives in reads: the buffer grows by each piece and is parsed again with the
  same head, until a parse answers.
\<close>

fun parse_pieces :: "(bytes \<Rightarrow> head \<Rightarrow> (codec_error + bool) \<times> head) \<Rightarrow> bytes \<Rightarrow> head \<Rightarrow> bytes list
    \<Rightarrow> (codec_error + bool) \<times> head" where
  "parse_pieces parse buf h [] = (Inr False, h)"
| "parse_pieces parse buf h (x # xs) =
     (case parse (buf @ x) h of
        (Inr False, h') \<Rightarrow> parse_pieces parse (buf @ x) h' xs
      | r \<Rightarrow> r)"

lemma window_pos_END_append:
  assumes "window_pos END buf = Some i"
  shows "window_pos END (buf @ later) = Some i"
proof -
  have at: "at_pos END buf i" "\<And>j. j < i \<Longrightarrow> \<not> at_pos END buf j"
    using assms by (simp_all add: window_pos_Some_iff)
  have b: "i + length END \<le> length buf" using at_pos_bound[OF _ at(1)] by simp
  have "at_pos END (buf @ later) j \<longleftrightarrow> at_pos END buf j" if "j \<le> i" for j
    by (rule at_pos_prefix) (use b that in linarith)
  then show ?thesis using at by (simp add: window_pos_Some_iff)
qed

lemma window_pos_END_late:
  assumes "window_pos END buf = None" "window_pos END (buf @ later) = Some i"
  shows "length buf < i + 4"
proof (rule ccontr)
  assume "\<not> length buf < i + 4"
  then have "at_pos END (buf @ later) i \<longleftrightarrow> at_pos END buf i" by (intro at_pos_prefix) simp
  then show False using assms by (simp add: window_pos_None_iff window_pos_Some_iff)
qed

lemma take_append_le: "n \<le> length xs \<Longrightarrow> take n (xs @ ys) = take n xs"
  by simp

lemma span_bytes_append: "span_in n s \<Longrightarrow> n \<le> length buf \<Longrightarrow> span_bytes s (buf @ later) = span_bytes s buf"
  by (simp add: span_bytes_def span_in_def)

lemma reads_as_append:
  assumes "n \<le> length buf" "reads_as h buf st ps n"
  shows "reads_as h (buf @ later) st ps n"
proof -
  have "field_bytes (buf @ later) f = field_bytes buf f" if "f \<in> set (hd_headers h)" for f
    using assms that by (simp add: reads_as_def list_all_iff field_in_def field_bytes_def
        span_bytes_append[where n = n])
  then have "head_iter h (buf @ later) = head_iter h buf"
    unfolding head_iter_eq by (intro map_cong) simp_all
  with assms(2) show ?thesis by (simp add: reads_as_def)
qed

text \<open>
  What the two head parsers share. A start-line parser accepts the lines \<open>line_text a\<close> of the
  start lines \<open>a\<close> that are \<open>line_ok\<close>, and answers with their spans.
\<close>

locale head_parser =
  fixes parse_line :: "slice \<Rightarrow> codec_error + start_line"
    and check :: "(bytes \<times> bytes) list \<Rightarrow> codec_error + unit"
    and line_text :: "'a \<Rightarrow> bytes"
    and line_ok :: "'a \<Rightarrow> bool"
    and line_spans :: "nat \<Rightarrow> 'a \<Rightarrow> start_line"
  assumes parse_line_iff: "crlf_free l \<Longrightarrow> parse_line (base, l) = Inr st \<longleftrightarrow>
      (\<exists>a. line_ok a \<and> l = line_text a \<and> st = line_spans base a)"
    and line_free: "line_ok a \<Longrightarrow> crlf_free (line_text a) \<and> line_text a \<noteq> []"
begin

abbreviation parse :: "bytes \<Rightarrow> head \<Rightarrow> (codec_error + bool) \<times> head" where
  "parse \<equiv> parse_head_with parse_line check"

abbreviation well_formed :: "'a \<Rightarrow> (bytes \<times> bytes) list \<Rightarrow> bool" where
  "well_formed a fs \<equiv> line_ok a \<and> list_all field_ok fs \<and> length fs \<le> MAX_HEADERS
     \<and> check (map field_read fs) = Inr () \<and> length (head_text (line_text a) fs) \<le> MAX_HEAD"

lemma head_lines_ok:
  assumes "well_formed a fs"
  shows "list_all (\<lambda>l. crlf_free l \<and> l \<noteq> []) (line_text a # map field_line fs)"
  using assms line_free field_line_free by (simp add: list_all_iff)

lemma parse_complete:
  assumes "well_formed a fs" "buf = head_text (line_text a) fs @ rest" "scan_ok buf out"
  shows "fst (parse buf out) = Inr True"
    "reads_as (snd (parse buf out)) buf (line_spans 0 a) (map field_read fs) (length (head_text (line_text a) fs))"
proof -
  let ?ls = "line_text a # map field_line fs"
  note ok = head_lines_ok[OF assms(1)]
  have buf: "buf = join_lines ?ls @ END @ rest"
    unfolding assms(2) head_text_join by simp
  have w: "window_pos END buf = Some (length (join_lines ?ls))"
    unfolding buf by (rule END_after_lines[OF ok]) simp
  have n: "length (join_lines ?ls) + 4 = length (head_text (line_text a) fs)"
    unfolding head_text_join by simp
  have free: "list_all crlf_free ?ls" using ok by (simp add: list_all_iff)
  have l: "lines_of (take (length (join_lines ?ls)) buf) = line_text a # map field_line fs"
    unfolding buf using lines_of_join_lines[OF _ free] by simp
  have st: "parse_line (0, line_text a) = Inr (line_spans 0 a)"
    using parse_line_iff line_free assms(1) by blast
  have "[] \<notin> set (map field_line fs)" using ok by (auto simp: list_all_iff)
  then have ps: "fields_of 0 (map field_line fs) = Inr (map field_read fs)"
    using fields_of_iff[of "map field_line fs" 0 "map field_read fs"] assms(1) by auto
  have max: "length (join_lines ?ls) + 4 \<le> MAX_HEAD" using n assms(1) by simp
  note B = parse_head_block[OF assms(3) w max l, of _ parse_line check, OF refl]
  show "fst (parse buf out) = Inr True"
    using B(1) st ps assms(1) by (simp add: block_result_def)
  show "reads_as (snd (parse buf out)) buf (line_spans 0 a) (map field_read fs)
      (length (head_text (line_text a) fs))"
    using B(2)[OF st ps] assms(1) by (simp only: n)
qed

lemma parse_sound:
  assumes "fst (parse buf out) = Inr True" "scan_ok buf out"
  shows "\<exists>a fs rest. well_formed a fs \<and> buf = head_text (line_text a) fs @ rest"
proof -
  obtain i where w: "window_pos END buf = Some i" and max: "i + 4 \<le> MAX_HEAD"
    using assms by (fastforce simp: parse_head_with_def find_head_end_spec split: option.splits if_splits)
  obtain l ls where l: "lines_of (take i buf) = l # ls"
    using lines_of_not_Nil by (metis list.exhaust)
  note B = parse_head_block[OF assms(2) w max l, of _ parse_line check, OF refl]
  from B(1) assms(1) obtain st ps where st: "parse_line (0, l) = Inr st"
    and ps: "fields_of 0 ls = Inr ps" and c: "check ps = Inr ()"
    by (metis block_result_True)
  have at: "at_pos END buf i" using w by (simp add: window_pos_Some_iff)
  have four: "length END = 4" by simp
  have buf: "take i buf @ END @ drop (i + 4) buf = buf"
    using at_pos_split[OF at, symmetric] unfolding four .
  have i: "length (take i buf) = i" using at_pos_bound[OF _ at] by simp
  have "[] \<notin> set ls"
    by (rule no_empty_line[OF _ l, of "drop (i + 4) buf"]) (simp only: buf i w)
  then obtain fs where fs: "ls = map field_line fs" "list_all field_ok fs" "ps = map field_read fs"
    "length fs \<le> MAX_HEADERS"
    using fields_of_iff[of ls 0 ps] ps by auto
  have "crlf_free l" using lines_of_free[of l "take i buf"] l by simp
  then obtain a where a: "line_ok a" "l = line_text a" using parse_line_iff st by blast
  have "head_text (line_text a) fs = take i buf @ END"
    unfolding head_text_join using join_lines_of[of "take i buf"] l fs(1) a(2) by simp
  then have "buf = head_text (line_text a) fs @ drop (i + 4) buf"
    "length (head_text (line_text a) fs) = i + 4"
    using buf i by simp_all
  with a fs c max show ?thesis by metis
qed

text \<open>Two cursors that are both behind the end give the same answer.\<close>

lemma parse_cursor:
  assumes "scan_ok buf out" "scan_ok buf out'"
  shows "fst (parse buf out) = fst (parse buf out')"
    "fst (parse buf out) = Inr True \<Longrightarrow> reads_as (snd (parse buf out)) buf st ps n \<longleftrightarrow>
       reads_as (snd (parse buf out')) buf st ps n"
proof -
  show eq: "fst (parse buf out) = fst (parse buf out')"
  proof (cases "window_pos END buf")
    case None
    then show ?thesis using assms by (simp add: parse_head_with_def find_head_end_spec)
  next
    case (Some i)
    obtain l ls where l: "lines_of (take i buf) = l # ls"
      using lines_of_not_Nil by (metis list.exhaust)
    show ?thesis
    proof (cases "i + 4 \<le> MAX_HEAD")
      case True
      show ?thesis
        using parse_head_block(1)[OF assms(1) Some True l refl]
          parse_head_block(1)[OF assms(2) Some True l refl] by metis
    next
      case False
      then show ?thesis using Some assms by (simp add: parse_head_with_def find_head_end_spec)
    qed
  qed
  assume "fst (parse buf out) = Inr True"
  then obtain a fs rest where g: "well_formed a fs" "buf = head_text (line_text a) fs @ rest"
    using parse_sound assms(1) by blast
  show "reads_as (snd (parse buf out)) buf st ps n \<longleftrightarrow> reads_as (snd (parse buf out')) buf st ps n"
    using parse_complete(2)[OF g assms(1)] parse_complete(2)[OF g assms(2)]
    by (auto simp: reads_as_def)
qed

lemma parse_extend:
  assumes "scan_ok buf out" "scan_ok (buf @ later) out'" "fst (parse buf out) \<noteq> Inr False"
  shows "fst (parse (buf @ later) out') = fst (parse buf out)"
proof (cases "window_pos END buf")
  case None
  then have big: "length buf > MAX_HEAD" "fst (parse buf out) = Inl TooLarge"
    using assms(1,3) by (auto simp: parse_head_with_def find_head_end_spec split: if_splits)
  then show ?thesis
    using assms(2) window_pos_END_late[OF None, of later]
    by (cases "window_pos END (buf @ later)") (auto simp: parse_head_with_def find_head_end_spec)
next
  case (Some i)
  note Some' = window_pos_END_append[OF Some]
  obtain l ls where l: "lines_of (take i buf) = l # ls"
    using lines_of_not_Nil by (metis list.exhaust)
  have "i \<le> length buf" using Some at_pos_bound[of END buf i] by (simp add: window_pos_Some_iff)
  then have l': "lines_of (take i (buf @ later)) = l # ls" using l by simp
  show ?thesis
  proof (cases "i + 4 \<le> MAX_HEAD")
    case True
    show ?thesis
      using parse_head_block(1)[OF assms(1) Some True l refl]
        parse_head_block(1)[OF assms(2) Some' True l' refl] by metis
  next
    case False
    then show ?thesis using Some Some' assms by (simp add: parse_head_with_def find_head_end_spec)
  qed
qed

lemma parse_waiting:
  assumes "scan_ok buf out" "parse buf out = (Inr False, h)"
  shows "scan_ok (buf @ later) h"
proof (cases "window_pos END buf")
  case None
  with assms have "h = out\<lparr> hd_scanned := length buf \<rparr>"
    by (auto simp: parse_head_with_def find_head_end_spec split: if_splits)
  then show ?thesis using scan_ok_waiting[OF None] by simp
next
  case (Some i)
  obtain l ls where l: "lines_of (take i buf) = l # ls"
    using lines_of_not_Nil by (metis list.exhaust)
  show ?thesis
  proof (cases "i + 4 \<le> MAX_HEAD")
    case True
    from parse_head_block(1)[OF assms(1) Some True l refl] assms(2) block_result_not_waiting
    show ?thesis by (metis fst_conv)
  next
    case False
    then show ?thesis using Some assms by (simp add: parse_head_with_def find_head_end_spec)
  qed
qed

lemma parse_pieces_whole:
  assumes "scan_ok (buf @ concat xs) h" "scan_ok (buf @ concat xs) fresh" "xs \<noteq> []"
    and "\<And>ys. scan_ok (buf @ ys) h"
  shows "fst (parse_pieces parse buf h xs) = fst (parse (buf @ concat xs) fresh)
    \<and> (fst (parse (buf @ concat xs) fresh) = Inr True \<longrightarrow>
        (\<exists>st ps n. reads_as (snd (parse_pieces parse buf h xs)) (buf @ concat xs) st ps n
          \<and> reads_as (snd (parse (buf @ concat xs) fresh)) (buf @ concat xs) st ps n))"
  using assms
proof (induction xs arbitrary: buf h)
  case (Cons x xs)
  obtain r h' where p: "parse (buf @ x) h = (r, h')" by (cases "parse (buf @ x) h")
  have ok: "scan_ok (buf @ x) h" by (rule Cons.prems(4))
  have fresh: "scan_ok ((buf @ x) @ concat xs) fresh" using Cons.prems(2) by simp
  show ?case
  proof (cases "r = Inr False")
    case True
    note w = parse_waiting[OF ok p[unfolded True]]
    show ?thesis
    proof (cases "xs = []")
      case False
      from Cons.IH[OF w fresh this w] p True show ?thesis by simp
    next
      case True': True
      have "fst (parse (buf @ x) fresh) = Inr False"
        using parse_cursor(1)[OF ok, of fresh] fresh p True True' by simp
      with p True True' show ?thesis by simp
    qed
  next
    case False
    then have r: "parse_pieces parse buf h (x # xs) = (r, h')"
      using p by (cases r) auto
    have e: "fst (parse ((buf @ x) @ concat xs) fresh) = r"
      using parse_extend[OF ok fresh] p False by simp
    show ?thesis
    proof (cases "r = Inr True")
      case True
      then obtain a fs rest where g: "well_formed a fs" "buf @ x = head_text (line_text a) fs @ rest"
        using parse_sound[OF _ ok] p by auto
      have g': "(buf @ x) @ concat xs = head_text (line_text a) fs @ (rest @ concat xs)"
        using g(2) by simp
      have "length (head_text (line_text a) fs) \<le> length (buf @ x)" unfolding g(2) by simp
      from reads_as_append[OF this parse_complete(2)[OF g ok], of "concat xs"]
        parse_complete(2)[OF g(1) g' fresh] r e p
      show ?thesis by auto
    qed (use r e in simp)
  qed
qed simp

end


section \<open>The two start lines\<close>

type_synonym request_line = "bytes \<times> bytes \<times> version"

fun request_text :: "request_line \<Rightarrow> bytes" where
  "request_text (m, t, v) = m @ '' '' @ t @ '' '' @ version_as_bytes v"

fun request_ok :: "request_line \<Rightarrow> bool" where
  "request_ok (m, t, v) \<longleftrightarrow> token m \<and> t \<noteq> [] \<and> list_all target_byte t"

fun request_spans :: "nat \<Rightarrow> request_line \<Rightarrow> start_line" where
  "request_spans base (m, t, v) =
     RequestLine (span_at base (length m)) (span_at (base + length m + 1) (length t)) v"

type_synonym status_line = "version \<times> bytes \<times> bytes option"

fun status_text :: "status_line \<Rightarrow> bytes" where
  "status_text (v, code, reason) =
     version_as_bytes v @ '' '' @ code @ (case reason of None \<Rightarrow> [] | Some r \<Rightarrow> '' '' @ r)"

fun status_ok :: "status_line \<Rightarrow> bool" where
  "status_ok (v, code, reason) \<longleftrightarrow>
     length code = 3 \<and> list_all is_ascii_digit code \<and> crlf_free (status_text (v, code, reason))"

fun status_spans :: "nat \<Rightarrow> status_line \<Rightarrow> start_line" where
  "status_spans base (v, code, reason) =
     StatusLine (of_nat (digits_val code))
       (case reason of
          None \<Rightarrow> span_EMPTY
        | Some r \<Rightarrow> if r = [] then span_EMPTY else span_at (base + 13) (length r)) v"

lemma parse_version_iff: "parse_version s = Inr v \<longleftrightarrow> s = version_as_bytes v"
  by (cases v) (auto simp: parse_version_def)

lemma version_bytes: "CHR '' '' \<notin> set (version_as_bytes v)" "CR \<notin> set (version_as_bytes v)"
  "length (version_as_bytes v) = 8" "version_as_bytes v \<noteq> []"
  by (cases v; simp)+

lemma target_byte_visible: "list_all target_byte t \<Longrightarrow> CR \<notin> set t \<and> CHR '' '' \<notin> set t"
  by (auto simp: list_all_iff target_byte_def)

lemma splitn_3:
  "splitn 3 c s = (case split_once c s of None \<Rightarrow> [s]
     | Some (a, r) \<Rightarrow> (case split_once c r of None \<Rightarrow> [a, r] | Some (b, z) \<Rightarrow> [a, b, z]))"
  by (auto simp: numeral_3_eq_3 split: option.split)

lemma parse_request_line_iff:
  "parse_request_line (base, l) = Inr st \<longleftrightarrow>
     (\<exists>a. request_ok a \<and> l = request_text a \<and> st = request_spans base a)"
proof
  assume "parse_request_line (base, l) = Inr st"
  then obtain m t v r where s: "split_once (CHR '' '') l = Some (m, r)"
      "split_once (CHR '' '') r = Some (t, version_as_bytes v)"
    and ok: "request_ok (m, t, v)" and st: "st = request_spans base (m, t, v)"
    by (auto simp: parse_request_line_def splitn_3 get_at_def parse_version_iff sum_bind_Inr_iff token_def
        list_all_iff list_ex_iff ok_or_def Let_def split: option.splits if_splits)
  from s have "l = request_text (m, t, v)" by (auto simp: split_once_Some_iff)
  with ok st show "\<exists>a. request_ok a \<and> l = request_text a \<and> st = request_spans base a" by blast
next
  assume "\<exists>a. request_ok a \<and> l = request_text a \<and> st = request_spans base a"
  then obtain m t v where a: "token m" "t \<noteq> []" "list_all target_byte t"
    "l = request_text (m, t, v)" "st = request_spans base (m, t, v)" by auto
  then have "split_once (CHR '' '') l = Some (m, t @ '' '' @ version_as_bytes v)"
    "split_once (CHR '' '') (t @ '' '' @ version_as_bytes v) = Some (t, version_as_bytes v)"
    using token_visible[of m] target_byte_visible[of t] by (auto simp: split_once_Some_iff)
  with a show "parse_request_line (base, l) = Inr st"
    by (simp add: parse_request_line_def splitn_3 get_at_def parse_version_iff[THEN iffD2] token_def
        list_all_iff list_ex_iff)
qed

lemma three_digits:
  assumes "length code = 3" "list_all is_ascii_digit code"
  shows "of_nat (byte_val (code ! 0) - 48) * 100 + of_nat (byte_val (code ! 1) - 48) * 10
    + of_nat (byte_val (code ! 2) - 48) = (of_nat (digits_val code) :: u16)"
proof -
  obtain a b c where "code = [a, b, c]" using assms(1) by (auto simp: numeral_3_eq_3 length_Suc_conv)
  then show ?thesis by (simp add: digits_val_def digit_val_def[symmetric] algebra_simps)
qed

lemma version_len_eq: "version_len (version_as_bytes v @ '' '' @ r) = 8"
  by (cases v) (simp_all add: version_len_def opt_or_def)

lemma digits_no_space: "list_all is_ascii_digit s \<Longrightarrow> CHR '' '' \<notin> set s"
  by (auto simp: list_all_iff is_ascii_digit_def)

text \<open>The reason as the parser sees it: missing and empty are the same.\<close>

lemma parse_status_line_parts:
  assumes "split_once (CHR '' '') l = Some (ver, r)" "splitn 2 (CHR '' '') r = code # tail"
  shows "parse_status_line (base, l) = Inr st \<longleftrightarrow>
    (\<exists>v. ver = version_as_bytes v \<and> length code = 3 \<and> list_all is_ascii_digit code
      \<and> st = status_spans base (v, code, get_at tail 0))"
proof -
  have l: "l = ver @ '' '' @ r" using assms(1) by (auto simp: split_once_Some_iff)
  have parts: "splitn 3 (CHR '' '') l = ver # code # tail"
    using assms by (simp add: numeral_3_eq_3 numeral_2_eq_2)
  have vl: "ver = version_as_bytes v \<Longrightarrow> version_len l = 8" for v
    unfolding l by (simp only: version_len_eq)
  have "parse_status_line (base, l) = Inr st \<longleftrightarrow>
    (\<exists>v. parse_version ver = Inr v \<and> length code = 3 \<and> list_all is_ascii_digit code \<and>
      st = StatusLine (of_nat (byte_val (code ! 0) - 48) * 100 + of_nat (byte_val (code ! 1) - 48) * 10
            + of_nat (byte_val (code ! 2) - 48))
          (if opt_or [] (get_at tail 0) = [] then span_EMPTY
           else span_at (base + version_len l + 1 + 3 + 1) (length (opt_or [] (get_at tail 0)))) v)"
    unfolding parse_status_line_def Let_def fst_conv snd_conv parts
    by (auto simp: get_at_def sum_bind_Inr_iff)
  also have "\<dots> \<longleftrightarrow> (\<exists>v. ver = version_as_bytes v \<and> length code = 3 \<and> list_all is_ascii_digit code
      \<and> st = status_spans base (v, code, get_at tail 0))"
    unfolding parse_version_iff
  proof (intro ex_cong1 conj_cong refl)
    fix v assume "ver = version_as_bytes v" "length code = 3" "list_all is_ascii_digit code"
    from vl[OF this(1)] three_digits[OF this(2,3)]
    have "StatusLine (of_nat (byte_val (code ! 0) - 48) * 100 + of_nat (byte_val (code ! 1) - 48) * 10
            + of_nat (byte_val (code ! 2) - 48))
          (if opt_or [] (get_at tail 0) = [] then span_EMPTY
           else span_at (base + version_len l + 1 + 3 + 1) (length (opt_or [] (get_at tail 0)))) v
        = status_spans base (v, code, get_at tail 0)"
      by (simp add: opt_or_def add.commute split: option.split)
    then show "st = StatusLine (of_nat (byte_val (code ! 0) - 48) * 100 + of_nat (byte_val (code ! 1) - 48) * 10
            + of_nat (byte_val (code ! 2) - 48))
          (if opt_or [] (get_at tail 0) = [] then span_EMPTY
           else span_at (base + version_len l + 1 + 3 + 1) (length (opt_or [] (get_at tail 0)))) v
        \<longleftrightarrow> st = status_spans base (v, code, get_at tail 0)"
      by (simp only:)
  qed
  finally show ?thesis .
qed

lemma parse_status_line_iff:
  assumes "crlf_free l"
  shows "parse_status_line (base, l) = Inr st \<longleftrightarrow>
    (\<exists>a. status_ok a \<and> l = status_text a \<and> st = status_spans base a)"
proof
  assume p: "parse_status_line (base, l) = Inr st"
  then obtain ver r where s: "split_once (CHR '' '') l = Some (ver, r)"
    by (auto simp: parse_status_line_def splitn_3 get_at_def Let_def split: option.splits)
  obtain code tail where r: "splitn 2 (CHR '' '') r = code # tail"
    by (cases "splitn 2 (CHR '' '') r") (auto simp: numeral_2_eq_2 split: option.splits)
  from p[unfolded parse_status_line_parts[OF s r]] obtain v where
    v: "ver = version_as_bytes v" "length code = 3" "list_all is_ascii_digit code"
      "st = status_spans base (v, code, get_at tail 0)" by blast
  have "r = code @ (case get_at tail 0 of None \<Rightarrow> [] | Some z \<Rightarrow> '' '' @ z)"
    using r by (auto simp: numeral_2_eq_2 split_once_Some_iff get_at_def split: option.splits)
  then have "l = status_text (v, code, get_at tail 0)"
    using s v(1) by (simp add: split_once_Some_iff)
  with v assms show "\<exists>a. status_ok a \<and> l = status_text a \<and> st = status_spans base a"
    by (intro exI[of _ "(v, code, get_at tail 0)"]) simp
next
  assume "\<exists>a. status_ok a \<and> l = status_text a \<and> st = status_spans base a"
  then obtain v code reason where a: "length code = 3" "list_all is_ascii_digit code"
    "l = status_text (v, code, reason)" "st = status_spans base (v, code, reason)" by auto
  let ?r = "code @ (case reason of None \<Rightarrow> [] | Some r \<Rightarrow> '' '' @ r)"
  let ?tail = "case reason of None \<Rightarrow> [] | Some r \<Rightarrow> [r]"
  have s: "split_once (CHR '' '') l = Some (version_as_bytes v, ?r)"
    using a(3) version_bytes(1) by (simp add: split_once_Some_iff)
  have "reason = None \<Longrightarrow> split_once (CHR '' '') ?r = None"
    using digits_no_space[OF a(2)] by (simp add: split_once_None_iff)
  moreover have "reason = Some z \<Longrightarrow> split_once (CHR '' '') ?r = Some (code, z)" for z
    using digits_no_space[OF a(2)] by (simp add: split_once_Some_iff)
  ultimately have r: "splitn 2 (CHR '' '') ?r = code # ?tail"
    by (cases reason) (simp_all add: numeral_2_eq_2)
  have "get_at ?tail 0 = reason" by (cases reason) (simp_all add: get_at_def)
  with a show "parse_status_line (base, l) = Inr st"
    unfolding parse_status_line_parts[OF s r] by auto
qed

interpretation request_head: head_parser parse_request_line one_host request_text request_ok request_spans
proof
  fix l base st show "parse_request_line (base, l) = Inr st \<longleftrightarrow>
     (\<exists>a. request_ok a \<and> l = request_text a \<and> st = request_spans base a)"
    by (rule parse_request_line_iff)
next
  fix a assume "request_ok a"
  then show "crlf_free (request_text a) \<and> request_text a \<noteq> []"
    using token_visible target_byte_visible version_bytes
    by (cases a) (auto intro!: crlf_freeI)
qed

interpretation response_head: head_parser parse_status_line "\<lambda>_. Inr ()" status_text status_ok status_spans
proof
  fix l base st assume "crlf_free l"
  then show "parse_status_line (base, l) = Inr st \<longleftrightarrow>
     (\<exists>a. status_ok a \<and> l = status_text a \<and> st = status_spans base a)"
    by (rule parse_status_line_iff)
next
  fix a assume "status_ok a"
  then show "crlf_free (status_text a) \<and> status_text a \<noteq> []"
    by (cases a) (simp add: version_bytes)
qed


section \<open>Properties of the parsers\<close>

text \<open>
  C8. A buffer is accepted as a request head exactly when it starts with a head of the grammar:
  a request line of a token, a target without blanks or control bytes and a known version, at
  most \<open>MAX_HEADERS\<close> fields (a token, a colon, a value without control bytes), at most one of
  them \<open>Host\<close>, the empty line, and all of it within \<open>MAX_HEAD\<close> bytes. Folded lines, blanks
  before a colon, bare control bytes and a second \<open>Host\<close> are thereby refused.
\<close>
theorem request_head_grammar:
  "fst (parse_request_head buf head_default) = Inr True \<longleftrightarrow>
     (\<exists>line fs rest. buf = head_text (request_text line) fs @ rest
        \<and> request_ok line \<and> list_all field_ok fs \<and> length fs \<le> MAX_HEADERS
        \<and> length (filter (\<lambda>f. eq_ignore_ascii_case (fst f) ''host'') fs) \<le> 1
        \<and> length (head_text (request_text line) fs) \<le> MAX_HEAD)"
proof -
  have s: "scan_ok buf head_default" by (simp add: scan_ok_fresh head_default_def)
  have "one_host (map field_read fs) = Inr () \<longleftrightarrow>
      length (filter (\<lambda>f. eq_ignore_ascii_case (fst f) ''host'') fs) \<le> 1" for fs
    by (simp add: one_host_def filter_map comp_def field_read_def case_prod_beta not_less)
  then show ?thesis
    unfolding parse_request_head_with
    using request_head.parse_sound[OF _ s] request_head.parse_complete(1)[OF _ _ s] by metis
qed

lemma request_head_parses:
  assumes "request_ok (m, t, v)" "list_all field_ok fs" "length fs \<le> MAX_HEADERS"
    "length (filter (\<lambda>f. eq_ignore_ascii_case (fst f) ''host'') fs) \<le> 1"
    "length (head_text (request_text (m, t, v)) fs) \<le> MAX_HEAD"
    "buf = head_text (request_text (m, t, v)) fs @ body" "scan_ok buf out"
  shows "\<exists>h. parse_request_head buf out = (Inr True, h)
    \<and> head_method h buf = Some m \<and> head_target h buf = Some t \<and> head_version h = v
    \<and> head_iter h buf = map (\<lambda>(n, raw). (n, trim_ows raw)) fs
    \<and> drop (hd_len h) buf = body \<and> list_all (field_in (hd_len h)) (hd_headers h)"
proof -
  have host: "one_host (map field_read fs) = Inr ()"
    using assms(4) by (simp add: one_host_def filter_map comp_def field_read_def case_prod_beta not_less)
  have wf: "request_ok (m, t, v) \<and> list_all field_ok fs \<and> length fs \<le> MAX_HEADERS
      \<and> one_host (map field_read fs) = Inr () \<and> length (head_text (request_text (m, t, v)) fs) \<le> MAX_HEAD"
    using assms host by blast
  note C = request_head.parse_complete[OF wf assms(6,7)]
  let ?h = "snd (parse_request_head buf out)"
  have len: "length m + 1 + length t \<le> MAX_HEAD" using assms(5) by (simp add: head_text_def)
  have buf: "buf = m @ '' '' @ t @ '' '' @ drop (length m + length t + 2) buf"
    unfolding assms(6) by (simp add: head_text_def)
  have "span_bytes (span_at 0 (length m)) buf = m"
    using len by (subst buf) (simp add: span_at_bytes)
  moreover have "span_bytes (span_at (length m + 1) (length t)) buf = t"
    using len by (subst buf) (simp add: span_at_bytes)
  moreover have "drop (length (head_text (request_text (m, t, v)) fs)) buf = body"
    unfolding assms(6) by simp
  ultimately show ?thesis
    using C unfolding parse_request_head_with[symmetric]
    by (intro exI[of _ ?h])
       (simp add: prod_eq_iff reads_as_def head_method_def head_target_def head_version_def
         field_read_def[abs_def] case_prod_beta')
qed

lemma request_head_read:
  assumes "parse_request_head buf head_default = (Inr True, h)"
  obtains m t v fs where "request_ok (m, t, v)" "list_all field_ok fs" "length fs \<le> MAX_HEADERS"
    "length (filter (\<lambda>f. eq_ignore_ascii_case (fst f) ''host'') fs) \<le> 1"
    "head_method h buf = Some m" "head_target h buf = Some t" "head_version h = v"
    "head_iter h buf = map field_read fs"
proof -
  have s: "scan_ok buf head_default" by (simp add: scan_ok_fresh head_default_def)
  from request_head.parse_sound[OF _ s] assms obtain line fs rest where
    wf: "buf = head_text (request_text line) fs @ rest" "request_ok line" "list_all field_ok fs"
      "length fs \<le> MAX_HEADERS" "one_host (map field_read fs) = Inr ()"
      "length (head_text (request_text line) fs) \<le> MAX_HEAD"
    unfolding parse_request_head_with by (metis fst_conv)
  obtain m t v where line: "line = (m, t, v)" by (cases line)
  have host: "length (filter (\<lambda>f. eq_ignore_ascii_case (fst f) ''host'') fs) \<le> 1"
    using wf(5) by (simp add: one_host_def filter_map comp_def field_read_def case_prod_beta not_less split: if_splits)
  from request_head_parses[OF wf(2)[unfolded line] wf(3,4) host wf(6)[unfolded line] wf(1)[unfolded line] s] assms
  have "head_method h buf = Some m" "head_target h buf = Some t" "head_version h = v"
    "head_iter h buf = map field_read fs" by (auto simp: field_read_def[abs_def] case_prod_beta')
  with that wf line host show thesis by blast
qed

text \<open>
  C9. What was written is what is read: parsing a request head of the grammar, with anything
  after it in the buffer and the cursor anywhere behind its end, gives back the method, the
  target, the version, the fields in wire order with their values trimmed, and the length of
  the head, so that the body starts at the right byte. Every span is within the head.
\<close>
theorem request_head_roundtrip:
  assumes "request_ok (m, t, v)" "list_all field_ok fs" "length fs \<le> MAX_HEADERS"
    "length (filter (\<lambda>f. eq_ignore_ascii_case (fst f) ''host'') fs) \<le> 1"
    "length (head_text (request_text (m, t, v)) fs) \<le> MAX_HEAD"
    "buf = head_text (request_text (m, t, v)) fs @ body" "scan_ok buf out"
  shows "\<exists>h. parse_request_head buf out = (Inr True, h)
    \<and> head_method h buf = Some m \<and> head_target h buf = Some t \<and> head_version h = v
    \<and> head_iter h buf = map (\<lambda>(n, raw). (n, trim_ows raw)) fs
    \<and> drop (hd_len h) buf = body \<and> list_all (field_in (hd_len h)) (hd_headers h)"
  by (rule request_head_parses[OF assms])

theorem request_head_roundtrip_witness:
  "\<exists>h. parse_request_head (head_text (request_text (''GET'', ''/a'', Http11)) [(''Host'', '' x '')] @ ''body'') head_default
      = (Inr True, h)
    \<and> head_method h (head_text (request_text (''GET'', ''/a'', Http11)) [(''Host'', '' x '')] @ ''body'') = Some ''GET''
    \<and> head_iter h (head_text (request_text (''GET'', ''/a'', Http11)) [(''Host'', '' x '')] @ ''body'') = [(''Host'', ''x'')]"
proof -
  let ?fs = "[(''Host'', '' x '')]"
  have len: "length (head_text (request_text (''GET'', ''/a'', Http11)) ?fs) \<le> MAX_HEAD"
    by (simp add: head_text_def field_line_def MAX_HEAD_def)
  have ok: "request_ok (''GET'', ''/a'', Http11)" "list_all field_ok ?fs"
    by (simp_all add: token_def is_tchar_def ascii_defs target_byte_def field_ok_def value_byte_def)
  have n: "length ?fs \<le> MAX_HEADERS" by (simp add: MAX_HEADERS_def)
  have host: "length (filter (\<lambda>f. eq_ignore_ascii_case (fst f) ''host'') ?fs) \<le> 1" by simp
  have s: "scan_ok buf head_default" for buf by (simp add: scan_ok_fresh head_default_def)
  have t: "map (\<lambda>(n, raw). (n, trim_ows raw)) ?fs = [(''Host'', ''x'')]"
    by (simp add: trim_ows_def is_ows_def)
  show ?thesis
    using request_head_roundtrip[OF ok n host len refl s, of "''body''"] unfolding t by blast
qed

text \<open>
  The same for responses: an accepted status line is a known version, three digits and an
  optional reason, the code read is their number, and the fields come back trimmed in order.
\<close>
theorem response_head_roundtrip:
  assumes "status_ok (v, code, reason)" "list_all field_ok fs" "length fs \<le> MAX_HEADERS"
    "length (head_text (status_text (v, code, reason)) fs) \<le> MAX_HEAD"
    "buf = head_text (status_text (v, code, reason)) fs @ body" "scan_ok buf out"
  shows "\<exists>h. parse_response_head buf out = (Inr True, h)
    \<and> head_status h = Some (of_nat (digits_val code)) \<and> head_version h = v
    \<and> span_bytes (sl_reason (hd_start h)) buf = opt_or [] reason
    \<and> head_iter h buf = map (\<lambda>(n, raw). (n, trim_ows raw)) fs \<and> drop (hd_len h) buf = body"
proof -
  have wf: "status_ok (v, code, reason) \<and> list_all field_ok fs \<and> length fs \<le> MAX_HEADERS
      \<and> Inr () = Inr () \<and> length (head_text (status_text (v, code, reason)) fs) \<le> MAX_HEAD"
    using assms by blast
  note C = response_head.parse_complete[OF wf assms(5,6)]
  let ?h = "snd (parse_response_head buf out)"
  have r: "span_bytes (span_at 13 (length r)) buf = r" if "reason = Some r" for r
  proof -
    have "\<exists>z. buf = (version_as_bytes v @ '' '' @ code @ '' '') @ r @ z"
      unfolding assms(5) \<open>reason = Some r\<close> by (simp add: head_text_def)
    moreover have "13 + length r \<le> MAX_HEAD"
      using assms(1,4) that by (simp add: head_text_def version_bytes)
    moreover have "length (version_as_bytes v @ '' '' @ code @ '' '') = 13"
      using assms(1) by (simp add: version_bytes)
    ultimately show ?thesis by (metis append_eq_conv_conj span_at_bytes)
  qed
  have e: "span_bytes span_EMPTY buf = []" by (simp add: span_bytes_def span_EMPTY_def)
  have "drop (length (head_text (status_text (v, code, reason)) fs)) buf = body"
    unfolding assms(5) by simp
  then show ?thesis
    using C r e unfolding parse_response_head_with[symmetric]
    by (intro exI[of _ ?h])
       (auto simp: prod_eq_iff reads_as_def head_status_def head_version_def opt_or_def
         field_read_def[abs_def] case_prod_beta' split: option.split)
qed

theorem response_head_roundtrip_witness:
  "\<exists>h. parse_response_head (head_text (status_text (Http11, ''404'', Some ''Not Found'')) [(''Server'', '' x'')]) head_default
      = (Inr True, h) \<and> head_status h = Some 404"
proof -
  let ?fs = "[(''Server'', '' x'')]" and ?a = "(Http11, ''404'', Some ''Not Found'')"
  have len: "length (head_text (status_text ?a) ?fs) \<le> MAX_HEAD"
    by (simp add: head_text_def field_line_def MAX_HEAD_def)
  have ok: "status_ok ?a" "list_all field_ok ?fs"
    by (simp_all add: token_def is_tchar_def ascii_defs field_ok_def value_byte_def)
  have n: "length ?fs \<le> MAX_HEADERS" by (simp add: MAX_HEADERS_def)
  have s: "scan_ok buf head_default" for buf by (simp add: scan_ok_fresh head_default_def)
  have c: "of_nat (digits_val ''404'') = (404 :: u16)" by (simp add: digits_val_def digit_val_def)
  show ?thesis
    using response_head_roundtrip[OF ok n len _ s, of _ "[]"] unfolding c by auto
qed

text \<open>
  How a head is cut into reads does not matter: growing the buffer piece by piece and
  parsing again with the carried scan cursor gives the answer of one parse of the whole, and
  when that is a complete head, the same start line, length and fields. So the cursor, which
  backs up three bytes, never steps over a terminator that straddles two reads.
\<close>
theorem request_head_in_pieces:
  "fst (parse_pieces parse_request_head [] head_default pieces) =
     fst (parse_request_head (concat pieces) head_default)
   \<and> (fst (parse_request_head (concat pieces) head_default) = Inr True \<longrightarrow>
       (let h = snd (parse_pieces parse_request_head [] head_default pieces);
            w = snd (parse_request_head (concat pieces) head_default)
        in hd_start h = hd_start w \<and> hd_len h = hd_len w
           \<and> head_iter h (concat pieces) = head_iter w (concat pieces)))"
proof (cases "pieces = []")
  case True
  then show ?thesis
    by (simp add: parse_request_head_with parse_head_with_def find_head_end_def head_default_def)
next
  case False
  have s: "scan_ok buf head_default" for buf by (simp add: scan_ok_fresh head_default_def)
  from request_head.parse_pieces_whole[OF s s False, of "[]"] s
  show ?thesis unfolding parse_request_head_with by (auto simp: reads_as_def Let_def)
qed

theorem request_head_in_pieces_witness:
  "fst (parse_pieces parse_request_head [] head_default [''GET / HTTP/1.1'' @ [CR], LF # CRLF]) =
     fst (parse_request_head (concat [''GET / HTTP/1.1'' @ [CR], LF # CRLF]) head_default)"
  using request_head_in_pieces by blast

end
