(* ===== verification/Framing.thy ===== *)
theory Framing
  imports Head
begin

text \<open>
  The functions of \<open>crates/ramjet-engine/src/codec/mod.rs\<close> that read a parsed head: how the
  body of a request or a response is delimited, and whether the connection persists.
\<close>

section \<open>Definitions\<close>

fun transfer_encoding_loop :: "bool \<Rightarrow> (bytes \<times> bytes) list \<Rightarrow> codec_error + bool" where
  "transfer_encoding_loop seen [] = Inr seen"
| "transfer_encoding_loop seen ((_, v) # fs) =
     (case filter (\<lambda>t. t \<noteq> []) (map trim_ows (split_on (CHR '','') v)) of
        [] \<Rightarrow> Inl (Malformed ''empty Transfer-Encoding'')
      | only # others \<Rightarrow>
          if others \<noteq> [] \<or> \<not> eq_ignore_ascii_case only ''chunked''
          then Inl (Unsupported ''a transfer coding other than chunked'')
          else transfer_encoding_loop True fs)"

definition transfer_encoding_is_chunked :: "head \<Rightarrow> bytes \<Rightarrow> codec_error + bool" where
  "transfer_encoding_is_chunked h buf =
     transfer_encoding_loop False (headers_named h buf ''transfer-encoding'')"

fun length_parts :: "u64 option \<Rightarrow> bytes list \<Rightarrow> codec_error + u64 option" where
  "length_parts found [] = Inr found"
| "length_parts found (p # ps) =
     sum_bind (parse_digits p) (\<lambda>n.
       case found of
         Some prev \<Rightarrow>
           if prev \<noteq> n then Inl (Malformed ''conflicting Content-Length values'')
           else length_parts (Some n) ps
       | None \<Rightarrow> length_parts (Some n) ps)"

fun length_loop :: "u64 option \<Rightarrow> (bytes \<times> bytes) list \<Rightarrow> codec_error + u64 option" where
  "length_loop found [] = Inr found"
| "length_loop found ((_, v) # fs) =
     sum_bind (length_parts found (map trim_ows (split_on (CHR '','') v))) (\<lambda>found'.
       length_loop found' fs)"

definition content_length :: "head \<Rightarrow> bytes \<Rightarrow> codec_error + u64 option" where
  "content_length h buf = length_loop None (headers_named h buf ''content-length'')"

definition request_framing :: "head \<Rightarrow> bytes \<Rightarrow> codec_error + framing" where
  "request_framing h buf =
     sum_bind (transfer_encoding_is_chunked h buf) (\<lambda>chunked.
     sum_bind (content_length h buf) (\<lambda>len.
       case (chunked, len) of
         (True, Some _) \<Rightarrow> Inl (Malformed ''both Transfer-Encoding and Content-Length'')
       | (True, None) \<Rightarrow> Inr Chunked
       | (False, None) \<Rightarrow> Inr Empty
       | (False, Some n) \<Rightarrow> if n = 0 then Inr Empty else Inr (Length n)))"

definition response_framing :: "head \<Rightarrow> bytes \<Rightarrow> bool \<Rightarrow> codec_error + framing" where
  "response_framing h buf method_was_head =
     (case hd_start h of
        RequestLine _ _ _ \<Rightarrow> Inl (Malformed ''expected a response, got a request'')
      | StatusLine status _ _ \<Rightarrow>
          if method_was_head \<or> status < 200 \<or> status = 204 \<or> status = 304 then Inr Empty
          else sum_bind (transfer_encoding_is_chunked h buf) (\<lambda>chunked.
               sum_bind (content_length h buf) (\<lambda>len.
                 case (chunked, len) of
                   (True, Some _) \<Rightarrow> Inl (Malformed ''both Transfer-Encoding and Content-Length'')
                 | (True, None) \<Rightarrow> Inr Chunked
                 | (False, Some n) \<Rightarrow> if n = 0 then Inr Empty else Inr (Length n)
                 | (False, None) \<Rightarrow> Inr UntilClose)))"

fun keep_alive_loop :: "bool \<Rightarrow> version \<Rightarrow> (bytes \<times> bytes) list \<Rightarrow> bool" where
  "keep_alive_loop saw v [] = (case v of Http11 \<Rightarrow> True | Http10 \<Rightarrow> saw)"
| "keep_alive_loop saw v ((_, x) # fs) =
     (if has_token x ''close'' then False
      else keep_alive_loop (if has_token x ''keep-alive'' then True else saw) v fs)"

definition keep_alive :: "head \<Rightarrow> bytes \<Rightarrow> version \<Rightarrow> bool" where
  "keep_alive h buf v = keep_alive_loop False v (headers_named h buf ''connection'')"

section \<open>What the loops compute\<close>

text \<open>The values of every field of a name.\<close>

definition field_values :: "head \<Rightarrow> bytes \<Rightarrow> bytes \<Rightarrow> bytes list" where
  "field_values h buf name = map snd (headers_named h buf name)"

text \<open>A value that is the one token \<open>chunked\<close>, empty list elements apart.\<close>

definition only_chunked :: "bytes \<Rightarrow> bool" where
  "only_chunked v \<longleftrightarrow>
     (\<exists>t. filter (\<lambda>t. t \<noteq> []) (map trim_ows (split_on (CHR '','') v)) = [t]
        \<and> eq_ignore_ascii_case t ''chunked'')"

text \<open>A value all of whose comma-separated parts are decimal numerals for \<open>n\<close>.\<close>

definition only_number :: "u64 \<Rightarrow> bytes \<Rightarrow> bool" where
  "only_number n v \<longleftrightarrow> list_all (\<lambda>p. parse_digits (trim_ows p) = Inr n) (split_on (CHR '','') v)"

lemma transfer_encoding_loop_iff:
  "transfer_encoding_loop seen fs = Inr b \<longleftrightarrow>
     list_all (\<lambda>f. only_chunked (snd f)) fs \<and> b = (seen \<or> fs \<noteq> [])"
  by (induction seen fs rule: transfer_encoding_loop.induct)
     (auto simp: only_chunked_def split: list.splits)

lemma length_parts_iff:
  "length_parts found ps = Inr r \<longleftrightarrow>
     (if ps = [] then r = found
      else \<exists>n. r = Some n \<and> list_all (\<lambda>p. parse_digits p = Inr n) ps \<and> (found = None \<or> found = Some n))"
proof (induction found ps rule: length_parts.induct)
  case (2 found p ps)
  then show ?case
    by (cases "parse_digits p") (auto split: option.splits if_splits)
qed auto

lemma length_loop_iff:
  "length_loop found fs = Inr r \<longleftrightarrow>
     (if fs = [] then r = found
      else \<exists>n. r = Some n \<and> list_all (\<lambda>f. only_number n (snd f)) fs \<and> (found = None \<or> found = Some n))"
proof (induction found fs rule: length_loop.induct)
  case (2 found u v fs)
  let ?ps = "map trim_ows (split_on (CHR '','') v)"
  have ne: "?ps \<noteq> []" by simp
  have ps: "length_parts found ?ps = Inr r' \<longleftrightarrow>
      (\<exists>n. r' = Some n \<and> only_number n v \<and> (found = None \<or> found = Some n))" for r'
    unfolding length_parts_iff only_number_def using ne by (auto simp: list_all_iff)
  show ?case
  proof (cases "length_parts found ?ps")
    case (Inl e)
    with ps have "\<not> (only_number n v \<and> (found = None \<or> found = Some n))" for n by force
    with Inl show ?thesis by auto
  next
    case (Inr r')
    with ps obtain n where n: "r' = Some n" "only_number n v" "found = None \<or> found = Some n" by auto
    have u: "only_number m v \<longleftrightarrow> m = n" for m
      using n(2) split_on_not_Nil[of "CHR '',''" v]
      by (cases "split_on (CHR '','') v") (auto simp: only_number_def)
    have step: "length_loop found ((u, v) # fs) = length_loop (Some n) fs"
      using Inr n(1) by simp
    have "length_loop (Some n) fs = Inr r \<longleftrightarrow> r = Some n \<and> list_all (\<lambda>f. only_number n (snd f)) fs"
      using 2[of r'] n(1) by (cases "fs = []") auto
    then show ?thesis unfolding step using n(3) by (auto simp: u)
  qed
qed auto

lemma keep_alive_loop_iff:
  "keep_alive_loop saw v fs \<longleftrightarrow>
     list_all (\<lambda>f. \<not> has_token (snd f) ''close'') fs
     \<and> (v = Http11 \<or> saw \<or> list_ex (\<lambda>f. has_token (snd f) ''keep-alive'') fs)"
  by (induction saw v fs rule: keep_alive_loop.induct) (auto split: version.split)


lemma te_iff:
  "transfer_encoding_is_chunked h buf = Inr b \<longleftrightarrow>
     list_all only_chunked (field_values h buf ''transfer-encoding'')
     \<and> b = (field_values h buf ''transfer-encoding'' \<noteq> [])"
  by (simp add: transfer_encoding_is_chunked_def transfer_encoding_loop_iff field_values_def list.pred_map
      comp_def)

lemma cl_iff:
  "content_length h buf = Inr r \<longleftrightarrow>
     (if field_values h buf ''content-length'' = [] then r = None
      else \<exists>n. r = Some n \<and> list_all (only_number n) (field_values h buf ''content-length''))"
  by (simp add: content_length_def length_loop_iff field_values_def list.pred_map comp_def)

text \<open>The framing both directions share, when there is a body to frame.\<close>

definition framed :: "head \<Rightarrow> bytes \<Rightarrow> framing \<Rightarrow> framing \<Rightarrow> bool" where
  "framed h buf unframed f \<longleftrightarrow>
     (let te = field_values h buf ''transfer-encoding''; cl = field_values h buf ''content-length''
      in case f of
           Chunked \<Rightarrow> te \<noteq> [] \<and> list_all only_chunked te \<and> cl = []
         | Length n \<Rightarrow> te = [] \<and> cl \<noteq> [] \<and> n \<noteq> 0 \<and> list_all (only_number n) cl
         | _ \<Rightarrow> te = [] \<and> (cl = [] \<and> f = unframed
                        \<or> cl \<noteq> [] \<and> f = Empty \<and> list_all (only_number 0) cl))"

lemma framing_cases:
  assumes "unframed = Empty \<or> unframed = UntilClose"
  shows "sum_bind (transfer_encoding_is_chunked h buf) (\<lambda>chunked.
     sum_bind (content_length h buf) (\<lambda>len.
       case (chunked, len) of
         (True, Some _) \<Rightarrow> Inl (Malformed ''both Transfer-Encoding and Content-Length'')
       | (True, None) \<Rightarrow> Inr Chunked
       | (False, Some n) \<Rightarrow> if n = 0 then Inr Empty else Inr (Length n)
       | (False, None) \<Rightarrow> Inr unframed)) = Inr f \<longleftrightarrow> framed h buf unframed f"
    (is "?L \<longleftrightarrow> _")
proof -
  let ?te = "field_values h buf ''transfer-encoding''" and ?cl = "field_values h buf ''content-length''"
  have uniq: "list_all (only_number n) ?cl \<Longrightarrow> list_all (only_number m) ?cl \<Longrightarrow> ?cl \<noteq> [] \<Longrightarrow> m = n" for m n
    using cl_iff[of h buf "Some n"] cl_iff[of h buf "Some m"] by auto
  show ?thesis
  proof (cases "transfer_encoding_is_chunked h buf")
    case (Inl e)
    then have "\<not> list_all only_chunked ?te" using te_iff[of h buf "?te \<noteq> []"] by auto
    with Inl show ?thesis by (cases f) (auto simp: framed_def Let_def)
  next
    case te: (Inr b)
    then have b: "list_all only_chunked ?te" "b = (?te \<noteq> [])" using te_iff by auto
    show ?thesis
    proof (cases "content_length h buf")
      case (Inl e)
      then have "?cl \<noteq> []" "\<not> list_all (only_number n) ?cl" for n
        using cl_iff[of h buf None] cl_iff[of h buf "Some n"] by (auto split: if_splits)
      with te Inl show ?thesis by (cases f) (auto simp: framed_def Let_def)
    next
      case (Inr r)
      then show ?thesis
      proof (cases "?cl = []")
        case True
        then have "r = None" using Inr cl_iff[of h buf r] by simp
        with te Inr b True assms show ?thesis by (cases b; cases f) (auto simp: framed_def Let_def)
      next
        case False
        then obtain n where n: "r = Some n" "list_all (only_number n) ?cl"
          using Inr cl_iff[of h buf r] by auto
        then have u: "list_all (only_number m) ?cl \<longleftrightarrow> m = n" for m using uniq False by blast
        from te Inr b False n u assms show ?thesis by (cases b; cases f) (auto simp: framed_def Let_def)
      qed
    qed
  qed
qed

lemma request_framing_framed: "request_framing h buf = Inr f \<longleftrightarrow> framed h buf Empty f"
  unfolding framing_cases[of Empty h buf f, OF disjI1, OF refl, symmetric] request_framing_def
  by (simp add: sum_bind_Inr_iff split: option.splits bool.splits)

section \<open>Properties\<close>

text \<open>
  C10. The framing of a request is unambiguous. It is chunked exactly when every
  \<open>Transfer-Encoding\<close> line is the single coding \<open>chunked\<close> and there is no \<open>Content-Length\<close> at
  all; it is a length exactly when there is no \<open>Transfer-Encoding\<close> and every part of every
  \<open>Content-Length\<close> line is a strict decimal numeral for that one number; it is empty when
  there is neither, or the number is zero; and it never runs until close. Whatever is in
  neither class is refused, so no request is accepted that two readers could frame differently.
\<close>
theorem request_framing_unambiguous:
  "request_framing h buf = Inr f \<longleftrightarrow>
     (let te = field_values h buf ''transfer-encoding''; cl = field_values h buf ''content-length''
      in case f of
           Chunked \<Rightarrow> te \<noteq> [] \<and> list_all only_chunked te \<and> cl = []
         | Length n \<Rightarrow> te = [] \<and> cl \<noteq> [] \<and> n \<noteq> 0 \<and> list_all (only_number n) cl
         | Empty \<Rightarrow> te = [] \<and> list_all (only_number 0) cl
         | UntilClose \<Rightarrow> False)"
  unfolding request_framing_framed by (cases f) (auto simp: framed_def Let_def)

text \<open>
  The framing of a response. A response to \<open>HEAD\<close>, a 1xx, a 204 and a 304 have no body
  whatever their fields say; any other response is framed by its fields as a request is, and
  only without any framing field does its body run until close, which alone forbids reusing
  the connection.
\<close>
theorem response_framing_rules:
  assumes "hd_start h = StatusLine status reason v"
  shows "response_framing h buf method_was_head = Inr f \<longleftrightarrow>
    (if method_was_head \<or> status < 200 \<or> status = 204 \<or> status = 304 then f = Empty
     else let te = field_values h buf ''transfer-encoding''; cl = field_values h buf ''content-length''
      in case f of
           Chunked \<Rightarrow> te \<noteq> [] \<and> list_all only_chunked te \<and> cl = []
         | Length n \<Rightarrow> te = [] \<and> cl \<noteq> [] \<and> n \<noteq> 0 \<and> list_all (only_number n) cl
         | Empty \<Rightarrow> te = [] \<and> cl \<noteq> [] \<and> list_all (only_number 0) cl
         | UntilClose \<Rightarrow> te = [] \<and> cl = [] \<and> \<not> allows_reuse f)"
proof (cases "method_was_head \<or> status < 200 \<or> status = 204 \<or> status = 304")
  case True
  then show ?thesis using assms by (auto simp: response_framing_def)
next
  case False
  then have "response_framing h buf method_was_head = Inr f \<longleftrightarrow> framed h buf UntilClose f"
    unfolding framing_cases[of UntilClose h buf f, OF disjI2, OF refl, symmetric] response_framing_def
    using assms by simp
  then show ?thesis using False by (cases f) (auto simp: framed_def Let_def)
qed

theorem response_framing_rules_witness:
  "response_framing (head_default\<lparr> hd_start := StatusLine 200 span_EMPTY Http11 \<rparr>) [] False = Inr UntilClose"
  using response_framing_rules[of "head_default\<lparr> hd_start := StatusLine 200 span_EMPTY Http11 \<rparr>"
      200 span_EMPTY Http11 "[]" False UntilClose]
  by (simp add: field_values_def headers_named_def head_iter_def head_default_def)

text \<open>
  Persistence reads every \<open>Connection\<close> line, in any order: a \<open>close\<close> token anywhere
  closes, and HTTP/1.0 stays open only with a \<open>keep-alive\<close> token somewhere.
\<close>
theorem keep_alive_rules:
  "keep_alive h buf v \<longleftrightarrow>
     \<not> list_ex (\<lambda>x. has_token x ''close'') (field_values h buf ''connection'')
     \<and> (v = Http11 \<or> list_ex (\<lambda>x. has_token x ''keep-alive'') (field_values h buf ''connection''))"
  by (simp add: keep_alive_def keep_alive_loop_iff field_values_def list_all_iff list_ex_iff)

end
