(* ===== verification/Rng.thy ===== *)
theory Rng
  imports Path_Rules
begin

text \<open>
  The random sources of the two engines, \<open>crates/ramjet-engine/src/rng.rs\<close> and
  \<open>crates/ramjet-proxy/src/rng.rs\<close>: seeding, the xorshift step, bounded draws and request ids.
  The thread-local \<open>Cell\<close> is a 64-bit word passed through every draw; the clock reading is an
  argument of the seed.
\<close>

unbundle bit_operations_syntax

section \<open>Definitions\<close>

definition GOLDEN :: u64 where
  "GOLDEN = 0x9e3779b97f4a7c15"

definition mix :: "u64 \<Rightarrow> u64" where
  "mix z0 =
     (let z1 = (z0 XOR drop_bit 30 z0) * 0xbf58476d1ce4e5b9;
          z2 = (z1 XOR drop_bit 27 z1) * 0x94d049bb133111eb
      in z2 XOR drop_bit 31 z2)"

text \<open>
  The engine's seed. Its counter is a thread-local of its own: the second component is the value
  the seeding thread's counter is left with, and a thread's counter starts at 0. The clock is
  \<open>None\<close> before the epoch.
\<close>

definition engine_seed :: "u64 option \<Rightarrow> u64 \<Rightarrow> u64 \<times> u64" where
  "engine_seed clock counter =
     (let nanos = opt_or GOLDEN clock;
          n = counter + 1
      in (mix (nanos XOR n * GOLDEN) OR 1, n))"

text \<open>The proxy's seed, with the process-wide \<open>THREADS\<close> counter before and after.\<close>

definition proxy_seed :: "u64 option \<Rightarrow> u64 \<Rightarrow> u64 \<times> u64" where
  "proxy_seed clock threads =
     (let nanos = opt_or GOLDEN clock
      in (mix (nanos XOR threads * GOLDEN) OR 1, threads + 1))"

definition next_u64 :: "u64 \<Rightarrow> u64 \<times> u64" where
  "next_u64 state =
     (let x1 = state XOR push_bit 13 state;
          x2 = x1 XOR drop_bit 7 x1;
          x3 = x2 XOR push_bit 17 x2
      in (x3, x3))"

text \<open>\<open>below\<close>, with its product in 128 bits.\<close>

definition scale :: "u64 \<Rightarrow> u32 \<Rightarrow> u32" where
  "scale word bound = ucast (drop_bit 64 (ucast word * ucast bound :: 128 word))"

definition below :: "u32 \<Rightarrow> u64 \<Rightarrow> u32 \<times> u64" where
  "below bound state =
     (if bound = 0 then (0, state)
      else (let (word, state') = next_u64 state in (scale word bound, state')))"

definition HEX :: string where
  "HEX = ''0123456789abcdef''"

definition hex_word :: "u64 \<Rightarrow> string" where
  "hex_word word = map (\<lambda>nibble. HEX ! unat (drop_bit (60 - nibble * 4) word AND 0xF)) [0..<16]"

definition hex_id :: "u64 \<Rightarrow> string \<times> u64" where
  "hex_id state =
     (let (hi, s1) = next_u64 state; (lo, s2) = next_u64 s1 in (hex_word hi @ hex_word lo, s2))"

section \<open>Shift and xor\<close>

lemma shift_left_kernel:
  fixes x :: u64
  assumes "x XOR push_bit k x = 0" "0 < k"
  shows "x = 0"
proof -
  have step: "bit x n \<longleftrightarrow> k \<le> n \<and> bit x (n - k)" if "n < 64" for n
  proof -
    have "bit (x XOR push_bit k x) n = bit (0 :: u64) n" using assms(1) by simp
    then show ?thesis using that by (auto simp: bit_xor_iff bit_push_bit_iff)
  qed
  have "n < 64 \<Longrightarrow> \<not> bit x n" for n
  proof (induction n rule: less_induct)
    case (less n)
    then show ?case using step[of n] assms(2) by (cases "k \<le> n") auto
  qed
  then show ?thesis by (intro bit_word_eqI) simp
qed

lemma shift_right_kernel:
  fixes x :: u64
  assumes "x XOR drop_bit k x = 0" "0 < k"
  shows "x = 0"
proof -
  have step: "bit x n \<longleftrightarrow> bit x (n + k)" for n
  proof -
    have "bit (x XOR drop_bit k x) n = bit (0 :: u64) n" using assms(1) by simp
    then show ?thesis by (auto simp: bit_xor_iff bit_drop_bit_eq add.commute)
  qed
  have "\<not> bit x n" for n
  proof (induction "64 - n" arbitrary: n rule: less_induct)
    case less
    show ?case
    proof (cases "n < 64")
      case True
      with assms(2) have "64 - (n + k) < 64 - n" by simp
      from less[OF this] show ?thesis using step[of n] by blast
    qed (simp add: impossible_bit)
  qed
  then show ?thesis by (intro bit_word_eqI) simp
qed

lemma xor_eq_0: "x XOR y = 0 \<longleftrightarrow> x = y" for x y :: u64
  by (auto simp: bit_eq_iff bit_xor_iff)

lemma xor_left_cancel: "a XOR x = a XOR y \<Longrightarrow> x = y" for a x y :: u64
  by (auto simp: bit_eq_iff bit_xor_iff)

lemma shift_left_inj: "0 < k \<Longrightarrow> inj (\<lambda>x :: u64. x XOR push_bit k x)"
proof (rule injI)
  fix x y :: u64
  assume k: "0 < k" and eq: "x XOR push_bit k x = y XOR push_bit k y"
  have "(x XOR y) XOR push_bit k (x XOR y) = (x XOR push_bit k x) XOR (y XOR push_bit k y)"
    by (simp add: push_bit_xor ac_simps)
  also have "\<dots> = 0" using eq by simp
  finally have "x XOR y = 0" by (rule shift_left_kernel) (rule k)
  then show "x = y" by (simp add: xor_eq_0)
qed

lemma shift_right_inj: "0 < k \<Longrightarrow> inj (\<lambda>x :: u64. x XOR drop_bit k x)"
proof (rule injI)
  fix x y :: u64
  assume k: "0 < k" and eq: "x XOR drop_bit k x = y XOR drop_bit k y"
  have "(x XOR y) XOR drop_bit k (x XOR y) = (x XOR drop_bit k x) XOR (y XOR drop_bit k y)"
    by (simp add: drop_bit_xor ac_simps)
  also have "\<dots> = 0" using eq by simp
  finally have "x XOR y = 0" by (rule shift_right_kernel) (rule k)
  then show "x = y" by (simp add: xor_eq_0)
qed

section \<open>The generator\<close>

abbreviation step :: "u64 \<Rightarrow> u64" where
  "step s \<equiv> snd (next_u64 s)"

lemma step_comp:
  "step = (\<lambda>x. x XOR push_bit 17 x) \<circ> (\<lambda>x. x XOR drop_bit 7 x) \<circ> (\<lambda>x. x XOR push_bit 13 x)"
  by (simp add: fun_eq_iff next_u64_def Let_def)

lemma step_inj: "inj step"
  unfolding step_comp by (intro inj_compose shift_left_inj shift_right_inj) simp_all

lemma step_0: "step 0 = 0"
  by (simp add: next_u64_def)

lemma step_nonzero: "s \<noteq> 0 \<Longrightarrow> step s \<noteq> 0"
  using injD[OF step_inj, of s 0] by (auto simp: step_0)

lemma or_1_nonzero: "x OR 1 \<noteq> (0 :: u64)"
proof
  assume "x OR 1 = 0"
  then have "bit (x OR 1) 0 = bit (0 :: u64) 0" by simp
  then show False by (simp add: bit_or_iff)
qed

text \<open>The word the \<open>n\<close>-th draw of a thread returns.\<close>

definition draw :: "u64 \<Rightarrow> nat \<Rightarrow> u64" where
  "draw seed n = fst (next_u64 ((step ^^ n) seed))"

lemma draw_nonzero: "seed \<noteq> 0 \<Longrightarrow> draw seed n \<noteq> 0"
proof -
  assume "seed \<noteq> 0"
  then have "(step ^^ n) seed \<noteq> 0" by (induction n) (simp_all add: step_nonzero)
  then show ?thesis using step_nonzero by (simp add: draw_def next_u64_def Let_def)
qed

text \<open>
  The generator never sticks: whatever the clock and the counter say, no draw of either
  engine returns zero, the one state xorshift cannot leave, and the step merges no two states.
\<close>

theorem rng_never_stuck:
  "draw (fst (engine_seed clock counter)) n \<noteq> 0 \<and> draw (fst (proxy_seed clock threads)) n \<noteq> 0 \<and> inj step"
  by (simp add: draw_nonzero engine_seed_def proxy_seed_def Let_def or_1_nonzero step_inj)

section \<open>Bounded draws\<close>

lemma unat_scale: "unat (scale word bound) = unat word * unat bound div 2 ^ 64"
proof -
  have w: "unat word < 2 ^ 64" and b: "unat bound < 2 ^ 32"
    using unsigned_less[of word, where ?'a = nat] unsigned_less[of bound, where ?'a = nat] by simp_all
  have prod: "unat word * unat bound < 2 ^ 64 * 2 ^ 32"
    by (rule mult_strict_mono) (use w b in auto)
  then have lt: "unat word * unat bound < 2 ^ 128" by (rule less_trans) simp
  have "unat (ucast word * ucast bound :: 128 word) = unat word * unat bound"
  proof -
    have u: "unat (ucast word :: 128 word) = unat word" "unat (ucast bound :: 128 word) = unat bound"
      using w b by (simp_all add: unsigned_ucast_eq take_bit_nat_eq_self)
    have "unat (ucast word :: 128 word) * unat (ucast bound :: 128 word) < 2 ^ LENGTH(128)"
      unfolding u using lt by simp
    then show ?thesis using unat_mult_lem[THEN iffD1, of "ucast word :: 128 word" "ucast bound"] u by simp
  qed
  then have "unat (drop_bit 64 (ucast word * ucast bound :: 128 word)) = unat word * unat bound div 2 ^ 64"
    unfolding unat_drop_bit_eq by (simp only: drop_bit_eq_div)
  moreover have "unat word * unat bound div 2 ^ 64 < 2 ^ 32" using prod by (simp add: less_mult_imp_div_less)
  ultimately show ?thesis by (simp add: scale_def unsigned_ucast_eq take_bit_nat_eq_self)
qed

lemma scale_less: "0 < bound \<Longrightarrow> scale word bound < bound"
proof -
  assume "0 < bound"
  then have b: "0 < unat bound" by (simp add: word_less_nat_alt)
  have "unat word < 2 ^ 64" using unsigned_less[of word, where ?'a = nat] by simp
  with b have "unat word * unat bound < unat bound * 2 ^ 64" by simp
  then show ?thesis by (simp add: word_less_nat_alt unat_scale less_mult_imp_div_less)
qed

text \<open>How many of the words fall under a threshold: the share rounded up to a whole word.\<close>

lemma card_scale_less:
  assumes "0 < bound" "w \<le> bound"
  shows "card {word. scale word bound < w} = (unat w * 2 ^ 64 + (unat bound - 1)) div unat bound"
proof -
  let ?b = "unat bound" and ?c = "(unat w * 2 ^ 64 + (unat bound - 1)) div unat bound"
  have b: "0 < ?b" using assms(1) by (simp add: word_less_nat_alt)
  have le: "unat w \<le> ?b" using assms(2) by (simp add: word_le_nat_alt)
  have iff: "scale word bound < w \<longleftrightarrow> unat word < ?c" for word
  proof -
    have "scale word bound < w \<longleftrightarrow> unat word * ?b div 2 ^ 64 < unat w" by (simp add: word_less_nat_alt unat_scale)
    also have "\<dots> \<longleftrightarrow> unat word * ?b < unat w * 2 ^ 64" by (simp add: div_less_iff_less_mult)
    also have "\<dots> \<longleftrightarrow> (unat word + 1) * ?b \<le> unat w * 2 ^ 64 + (?b - 1)" using b by auto
    also have "\<dots> \<longleftrightarrow> unat word + 1 \<le> ?c" by (simp add: less_eq_div_iff_mult_less_eq[OF b])
    finally show ?thesis by (simp only: Suc_eq_plus1[symmetric] Suc_le_eq)
  qed
  have c: "?c \<le> 2 ^ 64"
  proof -
    have "unat w * 2 ^ 64 + (?b - 1) \<le> ?b * 2 ^ 64 + (?b - 1)" using le by simp
    also have "\<dots> < Suc (2 ^ 64) * ?b" using b by simp
    finally have "?c < Suc (2 ^ 64)" by (rule less_mult_imp_div_less)
    then show ?thesis by simp
  qed
  have "unat ` {word :: u64. unat word < ?c} = {..<?c}"
  proof (intro equalityI subsetI)
    fix n assume "n \<in> {..<?c}"
    moreover from this c have "unat (of_nat n :: u64) = n" by (simp add: unat_of_nat take_bit_nat_eq_self)
    ultimately show "n \<in> unat ` {word :: u64. unat word < ?c}" by (intro image_eqI[of _ _ "of_nat n"]) simp_all
  qed auto
  moreover have "inj_on unat {word :: u64. unat word < ?c}" by (simp add: inj_on_def word_unat_eq_iff)
  ultimately have "card {word :: u64. unat word < ?c} = ?c" using card_image by fastforce
  then show ?thesis unfolding iff .
qed

text \<open>
  A canary gets its share of the random words: of the \<open>2^64\<close> words a request may draw,
  exactly the weight's part of them, rounded up to a whole word, sends a request that neither
  header nor cookie decides to the canary. The bias of the multiply-shift is less than one word.
\<close>

theorem canary_share_of_words:
  assumes "header_step is_match c hv = None" "cookie_step c cv = None" "0 < cs_weight_total c"
  shows "card {word. decide is_match c hv cv (scale word (cs_weight_total c))}
    = (min (unat (cs_weight c)) (unat (cs_weight_total c)) * 2 ^ 64 + (unat (cs_weight_total c) - 1))
        div unat (cs_weight_total c)"
proof -
  let ?w = "min (cs_weight c) (cs_weight_total c)"
  have "decide is_match c hv cv (scale word (cs_weight_total c)) \<longleftrightarrow> scale word (cs_weight_total c) < ?w" for word
    using assms(1,2) scale_less[OF assms(3)] by (simp add: decide_steps)
  then have "card {word. decide is_match c hv cv (scale word (cs_weight_total c))}
      = (unat ?w * 2 ^ 64 + (unat (cs_weight_total c) - 1)) div unat (cs_weight_total c)"
    using card_scale_less[OF assms(3), of ?w] by simp
  moreover have "unat ?w = min (unat (cs_weight c)) (unat (cs_weight_total c))" by (simp add: min_def word_le_nat_alt)
  ultimately show ?thesis by simp
qed

theorem canary_share_of_words_witness:
  "card {word. decide (\<lambda>_ _. False) sample_canary (Some ''maybe'') None (scale word 100)} = (20 * 2 ^ 64 + 99) div 100"
  using canary_share_of_words[of "\<lambda>_ _. False" sample_canary "Some ''maybe''" None]
  by (simp add: sample_canary_def canary_new_def header_step_def cookie_step_def)

section \<open>Request ids\<close>

lemma HEX_nth: "n < 16 \<Longrightarrow> m < 16 \<Longrightarrow> HEX ! n = HEX ! m \<Longrightarrow> n = m"
proof -
  have "distinct HEX" "length HEX = 16" by (simp_all add: HEX_def)
  then show "n < 16 \<Longrightarrow> m < 16 \<Longrightarrow> HEX ! n = HEX ! m \<Longrightarrow> n = m" by (simp add: nth_eq_iff_index_eq)
qed

lemma nibble_less: "unat (x AND 0xF :: u64) < 16"
proof -
  have "x AND 0xF \<le> 0xF" by (rule word_and_le1)
  then show ?thesis by (simp add: word_le_nat_alt)
qed

lemma hex_word_inj: "hex_word v = hex_word w \<Longrightarrow> v = w"
proof -
  assume eq: "hex_word v = hex_word w"
  have "drop_bit (60 - i * 4) v AND 0xF = drop_bit (60 - i * 4) w AND 0xF" if "i < 16" for i
  proof -
    have "HEX ! unat (drop_bit (60 - i * 4) v AND 0xF) = HEX ! unat (drop_bit (60 - i * 4) w AND 0xF)"
      using arg_cong[OF eq, of "\<lambda>s. s ! i"] that by (simp add: hex_word_def)
    from HEX_nth[OF nibble_less nibble_less this] show ?thesis by (simp only: word_unat_eq_iff)
  qed
  then have nib: "bit (drop_bit (60 - i * 4) v AND mask 4) k = bit (drop_bit (60 - i * 4) w AND mask 4) k" if "i < 16" for i k
    using that by (simp add: mask_eq_exp_minus_1)
  show "v = w"
  proof (rule bit_word_eqI)
    fix n assume "n < LENGTH(64)"
    then have n: "15 - n div 4 < 16" "60 - (15 - n div 4) * 4 + n mod 4 = n" by simp_all presburger
    have "n mod 4 < 64" by (rule less_trans[of _ 4]) simp_all
    with nib[OF n(1), of "n mod 4"] show "bit v n = bit w n"
      using n(2) by (simp add: bit_and_iff bit_drop_bit_eq bit_mask_iff)
  qed
qed

lemma hex_word_chars: "length (hex_word w) = 16" "set (hex_word w) \<subseteq> set HEX"
proof -
  have "length HEX = 16" by (simp add: HEX_def)
  then have "HEX ! unat (x AND 0xF :: u64) \<in> set HEX" for x using nibble_less by (intro nth_mem) simp
  then show "set (hex_word w) \<subseteq> set HEX" by (auto simp: hex_word_def)
qed (simp add: hex_word_def)

text \<open>
  A generated request id is 32 lowercase hexadecimal characters, and spells both words it
  was drawn from: two states give the same id only if they draw the same pair of words, which
  by the step being injective means that they are the same state.
\<close>

theorem hex_id_faithful:
  "length (fst (hex_id s)) = 32 \<and> set (fst (hex_id s)) \<subseteq> set HEX \<and> (fst (hex_id s) = fst (hex_id t) \<longleftrightarrow> s = t)"
proof -
  have id: "fst (hex_id s) = hex_word (step s) @ hex_word (step (step s))" for s
    by (simp add: hex_id_def next_u64_def Let_def)
  have "s = t" if "fst (hex_id s) = fst (hex_id t)"
  proof -
    have "hex_word (step s) = hex_word (step t)" using that unfolding id by (simp add: hex_word_chars)
    then show "s = t" using hex_word_inj step_inj by (blast dest: injD)
  qed
  then show ?thesis using hex_word_chars by (auto simp: id)
qed

section \<open>Threads\<close>

text \<open>The seeds of threads started one after another, by their clock readings.\<close>

definition engine_seeds :: "u64 option list \<Rightarrow> u64 list" where
  "engine_seeds clocks = map (\<lambda>clock. fst (engine_seed clock 0)) clocks"

fun proxy_seeds :: "u64 \<Rightarrow> u64 option list \<Rightarrow> u64 list" where
  "proxy_seeds threads [] = []"
| "proxy_seeds threads (clock # clocks) =
     (let (seed, threads') = proxy_seed clock threads in seed # proxy_seeds threads' clocks)"

lemma odd_mult_inj:
  assumes "a * b = (1 :: u64)"
  shows "inj (\<lambda>x. x * a)"
  by (rule inj_on_inverseI[where g = "\<lambda>x. x * b"]) (simp add: mult.assoc assms)

lemma mix_inj: "inj mix"
proof -
  have eq: "mix = (\<lambda>z. z XOR drop_bit 31 z) \<circ> (\<lambda>z. z * 0x94d049bb133111eb) \<circ> (\<lambda>z. z XOR drop_bit 27 z)
      \<circ> (\<lambda>z. z * 0xbf58476d1ce4e5b9) \<circ> (\<lambda>z. z XOR drop_bit 30 z)"
    by (simp add: fun_eq_iff mix_def Let_def)
  have m1: "inj (\<lambda>z :: u64. z * 0x94d049bb133111eb)"
    by (rule odd_mult_inj[where b = "0x319642b2d24d8ec3"]) simp
  have m2: "inj (\<lambda>z :: u64. z * 0xbf58476d1ce4e5b9)"
    by (rule odd_mult_inj[where b = "0x96de1b173f119089"]) simp
  show ?thesis unfolding eq by (intro inj_compose shift_right_inj m1 m2) simp_all
qed

lemma length_proxy_seeds: "length (proxy_seeds t clocks) = length clocks"
  by (induction clocks arbitrary: t) (simp_all add: proxy_seed_def Let_def)

lemma proxy_seeds_nth:
  "i < length clocks \<Longrightarrow>
    proxy_seeds t clocks ! i = mix (opt_or GOLDEN (clocks ! i) XOR (t + of_nat i) * GOLDEN) OR 1"
proof (induction clocks arbitrary: t i)
  case (Cons c cs)
  then show ?case by (cases i) (simp_all add: proxy_seed_def Let_def ac_simps)
qed simp

lemma or_1_cases: "x OR 1 = y OR 1 \<Longrightarrow> x = y \<or> x = y XOR 1" for x y :: u64
proof -
  assume eq: "x OR 1 = y OR 1"
  have rest: "bit x n = bit y n" if "0 < n" for n
    using arg_cong[OF eq, of "\<lambda>z. bit z n"] that by (simp add: bit_or_iff bit_1_iff)
  show ?thesis
  proof (cases "bit x 0 = bit y 0")
    case True
    have "x = y" by (rule bit_word_eqI) (use True rest in \<open>metis neq0_conv\<close>)
    then show ?thesis ..
  next
    case False
    have "x = y XOR 1" by (rule bit_word_eqI) (use False rest in \<open>auto simp: bit_xor_iff bit_1_iff intro!: gr0I\<close>)
    then show ?thesis ..
  qed
qed

text \<open>
  Threads that start in one instant: the proxy's process-wide counter keeps their streams
  apart, with no seed given to more than two threads, while the engine's counter is a
  thread-local that every thread finds at zero, so all of the engine's threads get one seed and
  draw one stream.
\<close>

theorem seeds_at_one_instant:
  assumes "k < 2 ^ 64"
  shows "card {i. i < k \<and> proxy_seeds 0 (replicate k clock) ! i = seed} \<le> 2
    \<and> (\<exists>shared. engine_seeds (replicate k clock) = replicate k shared)"
proof -
  let ?f = "\<lambda>i :: nat. mix (opt_or GOLDEN clock XOR of_nat i * GOLDEN)"
  let ?I = "{i. i < k \<and> proxy_seeds 0 (replicate k clock) ! i = seed}"
  have at: "i < k \<Longrightarrow> proxy_seeds 0 (replicate k clock) ! i = ?f i OR 1" for i by (simp add: proxy_seeds_nth)
  have inj: "inj_on ?f {..<k}"
  proof (rule inj_onI)
    fix i j assume ij: "i \<in> {..<k}" "j \<in> {..<k}" and "?f i = ?f j"
    then have "opt_or GOLDEN clock XOR of_nat i * GOLDEN = opt_or GOLDEN clock XOR of_nat j * GOLDEN"
      using mix_inj by (blast dest: injD)
    then have "of_nat i * GOLDEN = (of_nat j * GOLDEN :: u64)" by (rule xor_left_cancel)
    moreover have "inj (\<lambda>x. x * GOLDEN)"
      by (rule odd_mult_inj[where b = "0xf1de83e19937733d"]) (simp add: GOLDEN_def)
    ultimately have "of_nat i = (of_nat j :: u64)" by (blast dest: injD)
    then have "unat (of_nat i :: u64) = unat (of_nat j :: u64)" by simp
    with ij assms show "i = j" by (simp add: unat_of_nat take_bit_nat_eq_self)
  qed
  have "card ?I \<le> 2"
  proof (cases "?I = {}")
    case True
    show ?thesis unfolding True by simp
  next
    case False
    then obtain i where i: "i < k" "?f i OR 1 = seed" using at by auto
    have "?f ` ?I \<subseteq> {?f i, ?f i XOR 1}" using at i or_1_cases by fastforce
    then have "card (?f ` ?I) \<le> card {?f i, ?f i XOR 1}" by (intro card_mono) auto
    moreover have "card (?f ` ?I) = card ?I" by (intro card_image inj_on_subset[OF inj]) auto
    ultimately show ?thesis by (simp add: card_insert_if split: if_splits)
  qed
  then show ?thesis by (auto simp: engine_seeds_def)
qed

theorem seeds_at_one_instant_witness:
  "card {i. i < 8 \<and> proxy_seeds 0 (replicate 8 (Some 7)) ! i = 9} \<le> 2
    \<and> (\<exists>shared. engine_seeds (replicate 8 (Some 7)) = replicate 8 shared)"
  using seeds_at_one_instant[of 8 "Some 7" 9] by simp

end
