(* ===== verification/Hop_Headers.thy ===== *)
theory Hop_Headers
  imports Framing Rng Ip_Addr
begin

text \<open>
  What the uring engine does to the headers passing through it,
  \<open>crates/ramjet-engine/src/headers.rs\<close>: which fields cross the hop, the fields the hop writes
  itself, and the request and response heads it sends. An output buffer is the list of its bytes;
  the random source of request ids is passed through. A head of the wrong kind trips a
  \<open>debug_assert\<close>; a release build writes nothing, which is what the model has.
\<close>

section \<open>Definitions\<close>

definition HOP_BY_HOP :: "bytes list" where
  "HOP_BY_HOP =
     [''keep-alive'', ''proxy-connection'', ''proxy-authenticate'', ''proxy-authorization'',
      ''te'', ''trailer'', ''transfer-encoding'', ''upgrade'']"

definition SELF_WRITTEN :: "bytes list" where
  "SELF_WRITTEN =
     [''x-forwarded-for'', ''x-real-ip'', ''x-forwarded-proto'', ''x-forwarded-host'', ''x-request-id'']"

record hop =
  ho_client :: ip_addr
  ho_scheme :: string

definition is_hop_by_hop :: "bytes \<Rightarrow> bool" where
  "is_hop_by_hop name = list_ex (\<lambda>h. eq_ignore_ascii_case name h) HOP_BY_HOP"

definition is_self_written :: "bytes \<Rightarrow> bool" where
  "is_self_written name = list_ex (\<lambda>h. eq_ignore_ascii_case name h) SELF_WRITTEN"

definition connection_lists :: "head \<Rightarrow> bytes \<Rightarrow> bytes \<Rightarrow> bool" where
  "connection_lists h buf name = list_ex (\<lambda>(_, v). has_token v name) (headers_named h buf ''connection'')"

definition wants_upgrade :: "head \<Rightarrow> bytes \<Rightarrow> bool" where
  "wants_upgrade h buf \<longleftrightarrow> connection_lists h buf ''upgrade'' \<and> head_header h buf ''upgrade'' \<noteq> None"

definition upgrade_protocol :: "head \<Rightarrow> bytes \<Rightarrow> bytes option" where
  "upgrade_protocol h buf =
     (if \<not> connection_lists h buf ''upgrade'' then None
      else case head_header h buf ''upgrade'' of
             None \<Rightarrow> None
           | Some v \<Rightarrow> (let value = trim_ows v in if value \<noteq> [] then Some value else None))"

definition is_switching_protocols :: "head \<Rightarrow> bool" where
  "is_switching_protocols h = (case hd_start h of StatusLine code _ _ \<Rightarrow> code = 101 | _ \<Rightarrow> False)"

definition is_forwardable :: "head \<Rightarrow> bytes \<Rightarrow> bytes \<Rightarrow> bool" where
  "is_forwardable h buf name \<longleftrightarrow>
     \<not> eq_ignore_ascii_case name ''connection'' \<and> \<not> is_hop_by_hop name \<and> \<not> is_self_written name
     \<and> \<not> connection_lists h buf name"

definition field :: "bytes \<Rightarrow> bytes \<Rightarrow> bytes \<Rightarrow> bytes" where
  "field name v out = out @ name @ '': '' @ v @ CRLF"

fun forwarded_loop :: "(bytes \<times> bytes) list \<Rightarrow> bytes \<Rightarrow> bytes" where
  "forwarded_loop [] out = out"
| "forwarded_loop ((_, v) # fs) out =
     (let value = trim_ows v
      in if value = [] then forwarded_loop fs out else forwarded_loop fs (out @ value @ '', ''))"

definition forwarded_for :: "head \<Rightarrow> bytes \<Rightarrow> ip_addr \<Rightarrow> bytes \<Rightarrow> bytes" where
  "forwarded_for h buf client out =
     forwarded_loop (headers_named h buf ''x-forwarded-for'') (out @ ''X-Forwarded-For: '')
       @ show_ip client @ CRLF"

text \<open>The 32-byte buffer \<open>into\<close>, the length the caller uses, and the random state.\<close>

definition request_id :: "head \<Rightarrow> bytes \<Rightarrow> bytes \<Rightarrow> u64 \<Rightarrow> bytes \<times> nat \<times> u64" where
  "request_id h buf into s =
     (case map_option trim_ows (head_header h buf ''x-request-id'') of
        Some existing \<Rightarrow>
          if existing \<noteq> []
          then (let n = min (length existing) 32 in (take n existing @ drop n into, length existing, s))
          else (let (id, s') = hex_id s in (id, 32, s'))
      | None \<Rightarrow> (let (id, s') = hex_id s in (id, 32, s')))"

fun copy_fields :: "(bytes \<Rightarrow> bool) \<Rightarrow> (bytes \<times> bytes) list \<Rightarrow> bool \<times> bytes \<Rightarrow> bool \<times> bytes" where
  "copy_fields forward [] st = st"
| "copy_fields forward ((name, v) # fs) (host_seen, out) =
     copy_fields forward fs
       (host_seen \<or> eq_ignore_ascii_case name ''host'', if forward name then field name v out else out)"

definition write_framing :: "framing \<Rightarrow> bytes \<Rightarrow> bytes" where
  "write_framing framing out = (if framing = Chunked then field ''Transfer-Encoding'' ''chunked'' out else out)"

definition write_connection :: "bool \<Rightarrow> bytes option \<Rightarrow> bytes \<Rightarrow> bytes" where
  "write_connection close upgrade out =
     (case upgrade of
        Some protocol \<Rightarrow> field ''Upgrade'' protocol (field ''Connection'' ''upgrade'' out)
      | None \<Rightarrow> if close then field ''Connection'' ''close'' out else out)"

definition write_upstream_request ::
  "bytes \<Rightarrow> head \<Rightarrow> bytes \<Rightarrow> hop \<Rightarrow> socket_addr \<Rightarrow> framing \<Rightarrow> bool \<Rightarrow> bytes option \<Rightarrow> u64 \<Rightarrow> bytes \<times> u64" where
  "write_upstream_request out h buf hop endpoint framing close upgrade s =
     (case hd_start h of
        StatusLine _ _ _ \<Rightarrow> (out, s)
      | RequestLine method target _ \<Rightarrow>
          (let out1 = out @ span_bytes method buf @ '' '' @ span_bytes target buf @ '' HTTP/1.1'' @ CRLF;
               (host_seen, out2) = copy_fields (is_forwardable h buf) (head_iter h buf) (False, out1);
               out3 = (if \<not> host_seen then field ''Host'' (show_socket_addr endpoint) out2 else out2);
               out4 = forwarded_for h buf (ho_client hop) out3;
               out5 = field ''X-Real-IP'' (show_ip (ho_client hop)) out4;
               out6 = field ''X-Forwarded-Proto'' (ho_scheme hop) out5;
               out7 = (case head_header h buf ''host'' of
                         Some host \<Rightarrow> field ''X-Forwarded-Host'' host out6
                       | None \<Rightarrow> out6);
               (id, len, s') = request_id h buf (replicate 32 (CHR 0x00)) s;
               out8 = (if len > 32
                       then field ''X-Request-Id'' (trim_ows (opt_or [] (head_header h buf ''x-request-id''))) out7
                       else field ''X-Request-Id'' (take len id) out7);
               out9 = write_connection close upgrade (write_framing framing out8)
           in (out9 @ CRLF, s')))"

text \<open>The standard reason phrases belong to the \<open>ramjet-http\<close> crate and are a parameter.\<close>

definition write_downstream_response ::
  "(u16 \<Rightarrow> string) \<Rightarrow> bytes \<Rightarrow> head \<Rightarrow> bytes \<Rightarrow> framing \<Rightarrow> bool \<Rightarrow> bytes option \<Rightarrow> bytes" where
  "write_downstream_response reason_of out h buf framing close upgrade =
     (case hd_start h of
        RequestLine _ _ _ \<Rightarrow> out
      | StatusLine code reason _ \<Rightarrow>
          (let out1 = out @ ''HTTP/1.1 '' @ show_nat (unat code) @ '' ''
                 @ (if span_is_empty reason then reason_of code else span_bytes reason buf) @ CRLF;
               (_, out2) = copy_fields
                 (\<lambda>name. \<not> eq_ignore_ascii_case name ''connection'' \<and> \<not> is_hop_by_hop name
                    \<and> \<not> connection_lists h buf name) (head_iter h buf) (False, out1)
           in write_connection close upgrade (write_framing framing out2) @ CRLF))"

fun cookie_pairs :: "string \<Rightarrow> string list \<Rightarrow> string option" where
  "cookie_pairs name [] = None"
| "cookie_pairs name (p # ps) =
     (case split_once (CHR ''='') p of
        None \<Rightarrow> cookie_pairs name ps
      | Some (key, val) \<Rightarrow> if trim key = name then Some (trim val) else cookie_pairs name ps)"

fun cookie_lines :: "string \<Rightarrow> (bytes \<times> bytes) list \<Rightarrow> string option" where
  "cookie_lines name [] = None"
| "cookie_lines name ((_, v) # fs) =
     (case from_utf8 v of
        None \<Rightarrow> None
      | Some v \<Rightarrow>
          (case cookie_pairs name (split_on (CHR '';'') v) of
             Some val \<Rightarrow> Some val
           | None \<Rightarrow> cookie_lines name fs))"

definition cookie_value :: "head \<Rightarrow> bytes \<Rightarrow> string \<Rightarrow> string option" where
  "cookie_value h buf name = cookie_lines name (headers_named h buf ''cookie'')"

definition is_grpc :: "head \<Rightarrow> bytes \<Rightarrow> bool" where
  "is_grpc h buf =
     (case head_header h buf ''content-type'' of Some v \<Rightarrow> starts_with ''application/grpc'' v | None \<Rightarrow> False)"

definition routing_host :: "head \<Rightarrow> bytes \<Rightarrow> string option" where
  "routing_host h buf = Option.bind (head_header h buf ''host'') from_utf8"

definition routing_path :: "span \<Rightarrow> bytes \<Rightarrow> string option" where
  "routing_path target buf =
     (let bs = span_bytes target buf; end = opt_or (length bs) (position (\<lambda>b. b = CHR ''?'') bs)
      in from_utf8 (take end bs))"

definition message_keep_alive :: "head \<Rightarrow> bytes \<Rightarrow> version \<Rightarrow> bool" where
  "message_keep_alive h buf v = keep_alive h buf v"

section \<open>What is written, as fields\<close>

text \<open>A field as the hop writes it: the value after a colon and a space.\<close>

definition spaced :: "bytes \<times> bytes \<Rightarrow> bytes \<times> bytes" where
  "spaced f = (fst f, '' '' @ snd f)"

definition rendered :: "(bytes \<times> bytes) list \<Rightarrow> bytes" where
  "rendered fs = concat (map (\<lambda>f. field_line (spaced f) @ CRLF) fs)"

lemma rendered_simps [simp]:
  "rendered [] = []" "rendered (f # fs) = field_line (spaced f) @ CRLF @ rendered fs"
  "rendered (fs @ gs) = rendered fs @ rendered gs"
  by (simp_all add: rendered_def)

lemma field_rendered: "field name v out = out @ rendered [(name, v)]"
  by (simp add: field_def field_line_def spaced_def)

lemma rendered_head: "start @ CRLF @ rendered fs @ CRLF = head_text start (map spaced fs)"
proof -
  have "CRLF @ rendered fs = concat (map (\<lambda>f. CRLF @ field_line f) (map spaced fs)) @ CRLF"
    by (induction fs) (simp_all add: rendered_def)
  then have "start @ (CRLF @ rendered fs) @ CRLF = start @ (concat (map (\<lambda>f. CRLF @ field_line f) (map spaced fs)) @ CRLF) @ CRLF"
    by (simp only:)
  then show ?thesis unfolding head_text_def by (simp only: append.assoc)
qed

lemma copy_fields_rendered:
  "copy_fields forward fs (seen, out) =
     (seen \<or> list_ex (\<lambda>f. eq_ignore_ascii_case (fst f) ''host'') fs,
      out @ rendered (filter (\<lambda>f. forward (fst f)) fs))"
  by (induction fs arbitrary: seen out) (auto simp: field_rendered)

text \<open>The trail of addresses this hop sends: every non-empty inbound value, then the client.\<close>

definition forwarded_trail :: "head \<Rightarrow> bytes \<Rightarrow> ip_addr \<Rightarrow> bytes" where
  "forwarded_trail h buf client =
     concat (map (\<lambda>v. v @ '', '')
       (filter (\<lambda>v. v \<noteq> []) (map trim_ows (field_values h buf ''x-forwarded-for'')))) @ show_ip client"

lemma forwarded_for_rendered:
  "forwarded_for h buf client out = out @ rendered [(''X-Forwarded-For'', forwarded_trail h buf client)]"
proof -
  have loop: "forwarded_loop fs o1 = o1 @ concat (map (\<lambda>v. v @ '', '') (filter (\<lambda>v. v \<noteq> []) (map trim_ows (map snd fs))))"
    for fs o1 by (induction fs o1 rule: forwarded_loop.induct) (simp_all add: Let_def)
  show ?thesis
    by (simp add: forwarded_for_def loop forwarded_trail_def field_values_def field_line_def spaced_def)
qed

text \<open>The request id sent: the inbound one whole, or a fresh one.\<close>

definition sent_id :: "head \<Rightarrow> bytes \<Rightarrow> u64 \<Rightarrow> bytes" where
  "sent_id h buf s =
     (case map_option trim_ows (head_header h buf ''x-request-id'') of
        Some existing \<Rightarrow> if existing \<noteq> [] then existing else fst (hex_id s)
      | None \<Rightarrow> fst (hex_id s))"

lemma hex_id_length: "length (fst (hex_id s)) = 32"
  using hex_word_chars(1) by (simp add: hex_id_def Let_def split: prod.splits)

lemma request_id_rendered:
  assumes "request_id h buf (replicate 32 (CHR 0x00)) s = (ident, len, s')"
  shows "(if len > 32 then field ''X-Request-Id'' (trim_ows (opt_or [] (head_header h buf ''x-request-id''))) out
          else field ''X-Request-Id'' (take len ident) out) = out @ rendered [(''X-Request-Id'', sent_id h buf s)]"
proof -
  have hex: "take 32 (fst (hex_id s)) = fst (hex_id s)" by (simp add: hex_id_length)
  show ?thesis
    using assms hex
    by (cases "head_header h buf ''x-request-id''")
       (auto simp: request_id_def sent_id_def field_rendered Let_def opt_or_def split: if_splits prod.splits)
qed

definition framing_fields :: "framing \<Rightarrow> (bytes \<times> bytes) list" where
  "framing_fields framing = (if framing = Chunked then [(''Transfer-Encoding'', ''chunked'')] else [])"

definition connection_fields :: "bool \<Rightarrow> bytes option \<Rightarrow> (bytes \<times> bytes) list" where
  "connection_fields close upgrade =
     (case upgrade of
        Some protocol \<Rightarrow> [(''Connection'', ''upgrade''), (''Upgrade'', protocol)]
      | None \<Rightarrow> if close then [(''Connection'', ''close'')] else [])"

lemma write_rendered:
  "write_connection close upgrade (write_framing framing out)
     = out @ rendered (framing_fields framing @ connection_fields close upgrade)"
  by (simp add: write_connection_def write_framing_def framing_fields_def connection_fields_def field_rendered
      split: option.split)

definition upstream_fields ::
  "head \<Rightarrow> bytes \<Rightarrow> hop \<Rightarrow> socket_addr \<Rightarrow> framing \<Rightarrow> bool \<Rightarrow> bytes option \<Rightarrow> u64 \<Rightarrow> (bytes \<times> bytes) list" where
  "upstream_fields h buf hop endpoint framing close upgrade s =
     filter (\<lambda>f. is_forwardable h buf (fst f)) (head_iter h buf)
     @ (if field_values h buf ''host'' = [] then [(''Host'', show_socket_addr endpoint)] else [])
     @ [(''X-Forwarded-For'', forwarded_trail h buf (ho_client hop)),
        (''X-Real-IP'', show_ip (ho_client hop)), (''X-Forwarded-Proto'', ho_scheme hop)]
     @ (case head_header h buf ''host'' of Some host \<Rightarrow> [(''X-Forwarded-Host'', host)] | None \<Rightarrow> [])
     @ [(''X-Request-Id'', sent_id h buf s)]
     @ framing_fields framing @ connection_fields close upgrade"

lemma host_seen_iff:
  "list_ex (\<lambda>f. eq_ignore_ascii_case (fst f) ''host'') (head_iter h buf) \<longleftrightarrow> field_values h buf ''host'' \<noteq> []"
  by (force simp: field_values_def headers_named_def list_ex_iff filter_empty_conv)

lemma write_upstream_request_text:
  assumes "hd_start h = RequestLine m t v"
  shows "fst (write_upstream_request out h buf hop endpoint framing close upgrade s) =
    out @ head_text (request_text (span_bytes m buf, span_bytes t buf, Http11))
            (map spaced (upstream_fields h buf hop endpoint framing close upgrade s))"
proof -
  obtain ident len s' where id: "request_id h buf (replicate 32 (CHR 0x00)) s = (ident, len, s')"
    by (metis prod.collapse)
  note parts = copy_fields_rendered forwarded_for_rendered request_id_rendered[OF id] write_rendered
  show ?thesis
    unfolding rendered_head[symmetric] write_upstream_request_def assms start_line.case Let_def id prod.case parts
    by (simp add: upstream_fields_def host_seen_iff field_rendered split: option.split)
qed

lemma downstream_text:
  assumes "hd_start h = StatusLine code reason v"
  shows "write_downstream_response reason_of out h buf framing close upgrade =
    out @ head_text (''HTTP/1.1 '' @ show_nat (unat code) @ '' ''
              @ (if span_is_empty reason then reason_of code else span_bytes reason buf))
            (map spaced (filter (\<lambda>f. \<not> eq_ignore_ascii_case (fst f) ''connection'' \<and> \<not> is_hop_by_hop (fst f)
                            \<and> \<not> connection_lists h buf (fst f)) (head_iter h buf)
                         @ framing_fields framing @ connection_fields close upgrade))"
  unfolding rendered_head[symmetric] write_downstream_response_def assms start_line.case Let_def
    copy_fields_rendered prod.case write_rendered
  by simp

section \<open>The written head is a head\<close>

text \<open>A value the codec reads back as it stands: no control bytes, no blanks at its ends.\<close>

definition clean_value :: "bytes \<Rightarrow> bool" where
  "clean_value v \<longleftrightarrow> list_all value_byte v \<and> trim_ows v = v"

definition clean_field :: "bytes \<times> bytes \<Rightarrow> bool" where
  "clean_field f \<longleftrightarrow> token (fst f) \<and> clean_value (snd f)"

lemma clean_value_visible:
  assumes "list_all (\<lambda>c. 32 < byte_val c \<and> byte_val c < 127) v"
  shows "clean_value v"
proof -
  have "\<not> is_ows c" if "c \<in> set v" for c using assms that by (auto simp: list_all_iff is_ows_def)
  then have "trim_ows v = v" by (intro trim_ows_id) (cases "v = []"; simp)
  moreover have "list_all value_byte v" using assms by (auto simp: list_all_iff value_byte_def)
  ultimately show ?thesis by (simp add: clean_value_def)
qed

lemma ip_char_visible: "ip_char c \<Longrightarrow> 32 < byte_val c \<and> byte_val c < 127"
  by (auto simp: ip_char_def to_digit_def ascii_defs Let_def split: if_splits)

lemma hex_char_ip: "d < 16 \<Longrightarrow> ip_char (hex_char d)"
  by (simp add: ip_char_def to_digit_def hex_char_def ascii_defs Let_def)

lemma show_hex_ip: "list_all ip_char (show_hex n)"
proof (induction n rule: show_hex.induct)
  case (1 n)
  then show ?case by (subst show_hex.simps) (simp add: hex_char_ip)
qed

lemma show_groups_ip: "list_all ip_char (show_groups gs)"
  by (induction gs rule: show_groups.induct) (simp_all add: show_hex_ip)

lemma show_ip_chars: "list_all ip_char (show_ip a)"
  by (cases a) (auto simp: show_ipv4_chars show_groups_ip Let_def ip_char_def to_digit_def ascii_defs split: prod.split)

lemma clean_show_ip: "clean_value (show_ip a)"
  by (rule clean_value_visible) (use show_ip_chars[of a] in \<open>auto simp: list_all_iff dest: ip_char_visible\<close>)

lemma clean_show_socket_addr: "clean_value (show_socket_addr a)"
proof (rule clean_value_visible)
  obtain ip port where a: "a = SocketAddr ip port" by (cases a)
  have "list_all (\<lambda>c. 32 < byte_val c \<and> byte_val c < 127) (show_ip ip)"
    using show_ip_chars[of ip] by (auto simp: list_all_iff dest: ip_char_visible)
  moreover have "list_all (\<lambda>c. 32 < byte_val c \<and> byte_val c < 127) (show_nat (unat port))"
    using show_nat_digits[of "unat port"] by (auto simp: list_all_iff is_ascii_digit_def)
  ultimately show "list_all (\<lambda>c. 32 < byte_val c \<and> byte_val c < 127) (show_socket_addr a)"
    unfolding a by (cases ip) simp_all
qed

lemma list_all_trim: "list_all P v \<Longrightarrow> list_all P (trim_ows v)"
  by (auto simp: list_all_iff trim_ows_def dest!: set_dropWhileD)

lemma clean_trim: "list_all value_byte v \<Longrightarrow> clean_value (trim_ows v)"
  by (simp add: clean_value_def list_all_trim)

text \<open>An IPv6 address has sixteen octets.\<close>

fun ip_wf :: "ip_addr \<Rightarrow> bool" where
  "ip_wf (IPv4 _ _ _ _) = True"
| "ip_wf (IPv6 os) = (length os = 16)"

lemma show_ip_not_Nil: "ip_wf a \<Longrightarrow> show_ip a \<noteq> []"
proof (cases a)
  case (IPv6 os)
  assume "ip_wf a"
  with IPv6 obtain x y zs where os: "os = x # y # zs" by (auto simp: numeral_eq_Suc length_Suc_conv)
  have hex: "show_hex n \<noteq> []" for n by (subst show_hex.simps) simp
  have "show_groups (g # gs) \<noteq> []" for g gs by (cases gs) (simp_all add: hex)
  then show ?thesis using os IPv6 by (auto simp: Let_def split: prod.split)
qed (simp add: show_ipv4_def)

lemma clean_trail:
  assumes "ip_wf client" and "\<And>v. v \<in> set (field_values h buf ''x-forwarded-for'') \<Longrightarrow> list_all value_byte v"
  shows "clean_value (forwarded_trail h buf client)"
proof -
  define vs where "vs = filter (\<lambda>v. v \<noteq> []) (map trim_ows (field_values h buf ''x-forwarded-for''))"
  have vs: "v \<noteq> []" "list_all value_byte v" "trim_ows v = v" if "v \<in> set vs" for v
    using that assms(2) by (auto simp: vs_def list_all_trim)
  let ?t = "concat (map (\<lambda>v. v @ '', '') vs) @ show_ip client"
  have ip: "list_all value_byte (show_ip client)" "trim_ows (show_ip client) = show_ip client"
    using clean_show_ip[of client] by (simp_all add: clean_value_def)
  have bytes: "list_all value_byte ?t" using vs(2) ip(1) by (auto simp: list_all_iff value_byte_def)
  have "trim_ows ?t = ?t"
  proof (cases "vs = []")
    case False
    have "show_ip client \<noteq> []" using assms(1) by (rule show_ip_not_Nil)
    from False obtain w ws where w: "vs = w # ws" by (cases vs) auto
    then have "\<not> is_ows (hd w)" using trim_ows_ends(1)[of w] vs[of w] by simp
    moreover have "\<not> is_ows (last (show_ip client))" using trim_ows_ends(2)[of "show_ip client"] ip(2) \<open>show_ip client \<noteq> []\<close> by simp
    ultimately show ?thesis using vs(1)[of w] \<open>show_ip client \<noteq> []\<close> w by (intro trim_ows_id) (cases w; simp)
  qed (use ip(2) in auto)
  with bytes show ?thesis by (simp add: clean_value_def forwarded_trail_def vs_def)
qed

text \<open>
  What is assumed of the arguments of a forwarded request: its head was accepted, the addresses
  are addresses, the scheme is one of the two, and an upgrade is the one the client asked for.
\<close>

definition forwardable_request :: "bytes \<Rightarrow> head \<Rightarrow> hop \<Rightarrow> bytes option \<Rightarrow> bool" where
  "forwardable_request buf h hop upgrade \<longleftrightarrow>
     parse_request_head buf head_default = (Inr True, h) \<and> ip_wf (ho_client hop)
     \<and> ho_scheme hop \<in> {''http'', ''https''} \<and> (upgrade = None \<or> upgrade = upgrade_protocol h buf)"

lemma header_in_values: "head_header h buf name = Some v \<Longrightarrow> v \<in> set (field_values h buf name)"
  by (auto simp: head_header_def field_values_def headers_named_def find_Some_iff image_iff)
     (metis case_prodI mem_Collect_eq nth_mem prod.collapse)

lemma clean_iter:
  assumes "parse_request_head buf head_default = (Inr True, h)"
  shows "list_all clean_field (head_iter h buf)"
proof -
  obtain m t v fs where "list_all field_ok fs" "head_iter h buf = map field_read fs"
    using request_head_read[OF assms] by metis
  then show ?thesis
    by (auto simp: list_all_iff clean_field_def field_ok_def field_read_def intro!: clean_trim)
qed

lemma clean_values:
  assumes "parse_request_head buf head_default = (Inr True, h)" "v \<in> set (field_values h buf name)"
  shows "clean_value v"
  using clean_iter[OF assms(1)] assms(2)
  by (auto simp: field_values_def headers_named_def list_all_iff clean_field_def)

lemma clean_hex_id: "clean_value (fst (hex_id s))"
proof (rule clean_value_visible)
  have "set (fst (hex_id s)) \<subseteq> set HEX" using hex_word_chars(2) by (auto simp: hex_id_def Let_def split: prod.splits)
  moreover have "\<forall>c \<in> set HEX. 32 < byte_val c \<and> byte_val c < 127" by (simp add: HEX_def)
  ultimately show "list_all (\<lambda>c. 32 < byte_val c \<and> byte_val c < 127) (fst (hex_id s))"
    unfolding list_all_iff by blast
qed

lemma clean_sent_id:
  assumes "parse_request_head buf head_default = (Inr True, h)"
  shows "clean_value (sent_id h buf s)"
  using clean_values[OF assms] header_in_values[of h buf "''x-request-id''"] clean_hex_id[of s]
  by (auto simp: sent_id_def clean_value_def list_all_trim split: option.split)

lemma clean_upgrade:
  assumes "parse_request_head buf head_default = (Inr True, h)" "upgrade_protocol h buf = Some p"
  shows "clean_value p"
  using assms(2) clean_values[OF assms(1)] header_in_values[of h buf "''upgrade''"]
  by (auto simp: upgrade_protocol_def clean_value_def list_all_trim Let_def split: if_splits option.splits)

lemma clean_upstream_fields:
  assumes "forwardable_request buf h hop upgrade"
  shows "list_all clean_field (upstream_fields h buf hop endpoint framing close upgrade s)"
proof -
  have parse: "parse_request_head buf head_default = (Inr True, h)" and client: "ip_wf (ho_client hop)"
    and scheme: "ho_scheme hop = ''http'' \<or> ho_scheme hop = ''https''"
    and upgrade: "upgrade = Some p \<Longrightarrow> clean_value p" for p
    using assms clean_upgrade by (auto simp: forwardable_request_def)
  have names: "token ''Host''" "token ''X-Forwarded-For''" "token ''X-Real-IP''" "token ''X-Forwarded-Proto''"
    "token ''X-Forwarded-Host''" "token ''X-Request-Id''" "token ''Transfer-Encoding''" "token ''Connection''"
    "token ''Upgrade''" by code_simp+
  have words: "clean_value ''chunked''" "clean_value ''upgrade''" "clean_value ''close''" "clean_value ''http''"
    "clean_value ''https''" by code_simp+
  have host: "clean_value v" if "head_header h buf ''host'' = Some v" for v
    using clean_values[OF parse header_in_values[OF that]] .
  have trail: "clean_value (forwarded_trail h buf (ho_client hop))"
    by (rule clean_trail[OF client]) (use clean_values[OF parse] in \<open>auto simp: clean_value_def\<close>)
  have inbound: "list_all clean_field (filter P (head_iter h buf))" for P
    using clean_iter[OF parse] by (auto simp: list_all_iff)
  show ?thesis
    unfolding upstream_fields_def framing_fields_def connection_fields_def
    using inbound names words host trail clean_sent_id[OF parse] clean_show_ip clean_show_socket_addr upgrade scheme
    by (auto simp: clean_field_def split: option.split)
qed

section \<open>Reading back what was sent\<close>

definition named_values :: "bytes \<Rightarrow> (bytes \<times> bytes) list \<Rightarrow> bytes list" where
  "named_values name fs = map snd (filter (\<lambda>f. eq_ignore_ascii_case (fst f) name) fs)"

lemma field_values_named: "field_values h buf name = named_values name (head_iter h buf)"
  by (simp add: field_values_def headers_named_def named_values_def case_prod_beta')

lemma named_values_simps [simp]:
  "named_values name [] = []"
  "named_values name (f # fs) = (if eq_ignore_ascii_case (fst f) name then snd f # named_values name fs else named_values name fs)"
  "named_values name (fs @ gs) = named_values name fs @ named_values name gs"
  by (simp_all add: named_values_def)

lemma same_name:
  assumes "eq_ignore_ascii_case a b"
  shows "is_forwardable h buf a = is_forwardable h buf b"
  using assms
  by (simp add: is_forwardable_def is_hop_by_hop_def is_self_written_def connection_lists_def has_token_def
      eq_ignore_ascii_case_def)

lemma named_forwardable:
  "named_values name (filter (\<lambda>f. is_forwardable h buf (fst f)) fs)
     = (if is_forwardable h buf name then named_values name fs else [])"
  by (induction fs) (auto dest: same_name)

text \<open>A name this hop never writes and does not treat specially.\<close>

definition end_to_end_name :: "bytes \<Rightarrow> bool" where
  "end_to_end_name name \<longleftrightarrow>
     \<not> eq_ignore_ascii_case name ''connection'' \<and> \<not> is_hop_by_hop name \<and> \<not> is_self_written name
     \<and> \<not> eq_ignore_ascii_case name ''host''"

lemma eq_case_commute: "eq_ignore_ascii_case a b = eq_ignore_ascii_case b a"
  by (auto simp: eq_ignore_ascii_case_def)

lemma upstream_end_to_end:
  assumes "end_to_end_name name"
  shows "named_values name (upstream_fields h buf hop endpoint framing close upgrade s)
    = (if connection_lists h buf name then [] else field_values h buf name)"
proof -
  have low: "lower ''Host'' = lower ''host''" "lower ''X-Forwarded-For'' = lower ''x-forwarded-for''"
    "lower ''X-Real-IP'' = lower ''x-real-ip''" "lower ''X-Forwarded-Proto'' = lower ''x-forwarded-proto''"
    "lower ''X-Forwarded-Host'' = lower ''x-forwarded-host''" "lower ''X-Request-Id'' = lower ''x-request-id''"
    "lower ''Transfer-Encoding'' = lower ''transfer-encoding''" "lower ''Connection'' = lower ''connection''"
    "lower ''Upgrade'' = lower ''upgrade''" by code_simp+
  have own: "\<not> eq_ignore_ascii_case own name" if "own \<in> {''Host'', ''X-Forwarded-For'', ''X-Real-IP'', ''X-Forwarded-Proto'',
      ''X-Forwarded-Host'', ''X-Request-Id'', ''Transfer-Encoding'', ''Connection'', ''Upgrade''}" for own
    using assms that low
    by (auto simp only: end_to_end_name_def is_hop_by_hop_def is_self_written_def HOP_BY_HOP_def SELF_WRITTEN_def
        eq_ignore_ascii_case_def list_ex_iff list.set insert_iff empty_iff simp_thms)
  have fwd: "is_forwardable h buf name \<longleftrightarrow> \<not> connection_lists h buf name"
    using assms by (simp add: is_forwardable_def end_to_end_name_def)
  show ?thesis
    unfolding upstream_fields_def framing_fields_def connection_fields_def field_values_named
    by (simp add: named_forwardable fwd own split: option.split)
qed

lemma upstream_transfer_encoding:
  "named_values ''transfer-encoding'' (upstream_fields h buf hop endpoint framing close upgrade s)
     = (if framing = Chunked then [''chunked''] else [])"
proof -
  have fwd: "\<not> is_forwardable h buf ''transfer-encoding''"
    by (simp add: is_forwardable_def is_hop_by_hop_def HOP_BY_HOP_def)
  have own: "eq_ignore_ascii_case ''Transfer-Encoding'' ''transfer-encoding''" by code_simp
  have other:
    "\<not> eq_ignore_ascii_case ''Host'' ''transfer-encoding''"
    "\<not> eq_ignore_ascii_case ''X-Forwarded-For'' ''transfer-encoding''"
    "\<not> eq_ignore_ascii_case ''X-Real-IP'' ''transfer-encoding''"
    "\<not> eq_ignore_ascii_case ''X-Forwarded-Proto'' ''transfer-encoding''"
    "\<not> eq_ignore_ascii_case ''X-Forwarded-Host'' ''transfer-encoding''"
    "\<not> eq_ignore_ascii_case ''X-Request-Id'' ''transfer-encoding''"
    "\<not> eq_ignore_ascii_case ''Connection'' ''transfer-encoding''"
    "\<not> eq_ignore_ascii_case ''Upgrade'' ''transfer-encoding''"
    by code_simp+
  show ?thesis
    unfolding upstream_fields_def framing_fields_def connection_fields_def
    by (simp add: named_forwardable fwd own other split: option.split)
qed

lemma upstream_hosts:
  assumes "parse_request_head buf head_default = (Inr True, h)"
  shows "length (named_values ''host'' (upstream_fields h buf hop endpoint framing close upgrade s)) \<le> 1"
proof -
  obtain m t v fs where "length (filter (\<lambda>f. eq_ignore_ascii_case (fst f) ''host'') fs) \<le> 1" "head_iter h buf = map field_read fs"
    using request_head_read[OF assms] by metis
  then have inbound: "length (named_values ''host'' (head_iter h buf)) \<le> 1"
    by (simp add: named_values_def filter_map comp_def field_read_def)
  have own: "eq_ignore_ascii_case ''Host'' ''host''" by code_simp
  have other:
    "\<not> eq_ignore_ascii_case ''X-Forwarded-For'' ''host''"
    "\<not> eq_ignore_ascii_case ''X-Real-IP'' ''host''"
    "\<not> eq_ignore_ascii_case ''Transfer-Encoding'' ''host''"
    "\<not> eq_ignore_ascii_case ''X-Forwarded-Proto'' ''host''"
    "\<not> eq_ignore_ascii_case ''X-Forwarded-Host'' ''host''"
    "\<not> eq_ignore_ascii_case ''X-Request-Id'' ''host''"
    "\<not> eq_ignore_ascii_case ''Connection'' ''host''"
    "\<not> eq_ignore_ascii_case ''Upgrade'' ''host''"
    by code_simp+
  show ?thesis
    unfolding upstream_fields_def framing_fields_def connection_fields_def field_values_named
    using inbound by (simp add: named_forwardable own other split: option.split)
qed

lemma forwarded_reparse:
  assumes "forwardable_request buf h hop upgrade"
    and "length (upstream_fields h buf hop endpoint framing close upgrade s) \<le> MAX_HEADERS"
    and "length (fst (write_upstream_request [] h buf hop endpoint framing close upgrade s)) \<le> MAX_HEAD"
    and "sent = fst (write_upstream_request [] h buf hop endpoint framing close upgrade s) @ body"
  shows "\<exists>h'. parse_request_head sent head_default = (Inr True, h')
    \<and> head_method h' sent = head_method h buf \<and> head_target h' sent = head_target h buf \<and> head_version h' = Http11
    \<and> head_iter h' sent = upstream_fields h buf hop endpoint framing close upgrade s \<and> drop (hd_len h') sent = body"
proof -
  let ?fs = "upstream_fields h buf hop endpoint framing close upgrade s"
  have parse: "parse_request_head buf head_default = (Inr True, h)" using assms(1) by (simp add: forwardable_request_def)
  then obtain m t v where ok: "request_ok (m, t, v)" and mt: "head_method h buf = Some m" "head_target h buf = Some t"
    using request_head_read by metis
  then obtain ms ts v0 where start: "hd_start h = RequestLine ms ts v0" "m = span_bytes ms buf" "t = span_bytes ts buf"
    by (auto simp: head_method_def head_target_def split: start_line.splits)
  have written: "fst (write_upstream_request [] h buf hop endpoint framing close upgrade s)
      = head_text (request_text (m, t, Http11)) (map spaced ?fs)"
    unfolding write_upstream_request_text[OF start(1)] start(2,3) by simp
  have clean: "list_all clean_field ?fs" using clean_upstream_fields[OF assms(1)] .
  have fields: "list_all field_ok (map spaced ?fs)"
    using clean by (auto simp: list_all_iff clean_field_def clean_value_def field_ok_def spaced_def value_byte_def)
  have host: "length (filter (\<lambda>f. eq_ignore_ascii_case (fst f) ''host'') (map spaced ?fs)) \<le> 1"
    using upstream_hosts[OF parse, of hop endpoint framing close upgrade s]
    by (simp add: named_values_def filter_map comp_def spaced_def)
  have read_back: "map (\<lambda>(n, raw). (n, trim_ows raw)) (map spaced ?fs) = ?fs"
  proof (rule nth_equalityI)
    fix i assume "i < length (map (\<lambda>(n, raw). (n, trim_ows raw)) (map spaced ?fs))"
    then have "trim_ows (snd (?fs ! i)) = snd (?fs ! i)" and i: "i < length ?fs"
      using clean by (auto simp: list_all_length clean_field_def clean_value_def)
    then have "trim_ows ('' '' @ snd (?fs ! i)) = snd (?fs ! i)" by (simp add: trim_ows_def is_ows_def)
    then show "map (\<lambda>(n, raw). (n, trim_ows raw)) (map spaced ?fs) ! i = ?fs ! i"
      using i by (simp add: spaced_def)
  qed simp
  have "request_ok (m, t, Http11)" using ok by simp
  moreover have "length (map spaced ?fs) \<le> MAX_HEADERS" using assms(2) by simp
  moreover have "scan_ok sent head_default" by (simp add: scan_ok_fresh head_default_def)
  ultimately show ?thesis
    using request_head_parses[OF _ fields _ host assms(3)[unfolded written] assms(4)[unfolded written]]
    unfolding read_back mt by blast
qed

text \<open>
  C20. What the engine sends upstream is a request head, and says what it should: for an accepted
  request, the bytes written parse back, whatever follows them, to the client's method and
  target as HTTP/1.1, with exactly the end-to-end fields in their order followed by the fields of
  this hop, and the body starts right behind them. No value can end the head or a field early.
\<close>

theorem forwarded_head_reads_back:
  assumes "forwardable_request buf h hop upgrade"
    and "length (upstream_fields h buf hop endpoint framing close upgrade s) \<le> MAX_HEADERS"
    and "length (fst (write_upstream_request [] h buf hop endpoint framing close upgrade s)) \<le> MAX_HEAD"
    and "sent = fst (write_upstream_request [] h buf hop endpoint framing close upgrade s) @ body"
  shows "\<exists>h'. parse_request_head sent head_default = (Inr True, h')
    \<and> head_method h' sent = head_method h buf \<and> head_target h' sent = head_target h buf \<and> head_version h' = Http11
    \<and> head_iter h' sent = upstream_fields h buf hop endpoint framing close upgrade s \<and> drop (hd_len h') sent = body"
  using forwarded_reparse[OF assms] .

lemma forwarded_framed:
  assumes "request_framing h buf = Inr framing"
    and "head_iter h' sent = upstream_fields h buf hop endpoint framing close upgrade s"
  shows "request_framing h' sent =
    Inr (if connection_lists h buf ''content-length'' \<and> framing \<noteq> Chunked then Empty else framing)"
proof -
  have cl: "end_to_end_name ''content-length''" by code_simp
  have te: "field_values h' sent ''transfer-encoding'' = (if framing = Chunked then [''chunked''] else [])"
    and cls: "field_values h' sent ''content-length'' =
      (if connection_lists h buf ''content-length'' then [] else field_values h buf ''content-length'')"
    unfolding field_values_named[of h'] assms(2) upstream_transfer_encoding upstream_end_to_end[OF cl] by (rule refl)+
  have "only_chunked ''chunked''" by (simp add: only_chunked_def trim_ows_def is_ows_def)
  with assms(1) show ?thesis
    unfolding request_framing_framed by (cases framing) (auto simp: framed_def Let_def te cls)
qed

text \<open>
  C21. The framing survives the hop: unless a \<open>Connection\<close> field of the client names
  \<open>Content-Length\<close>, the head sent upstream frames its body exactly as the client's head framed
  it, so both ends agree on where this request ends and the next begins.
\<close>

theorem forwarded_framing_kept:
  assumes "forwardable_request buf h hop upgrade"
    and "length (upstream_fields h buf hop endpoint framing close upgrade s) \<le> MAX_HEADERS"
    and "length (fst (write_upstream_request [] h buf hop endpoint framing close upgrade s)) \<le> MAX_HEAD"
    and "request_framing h buf = Inr framing" "\<not> connection_lists h buf ''content-length''"
    and "sent = fst (write_upstream_request [] h buf hop endpoint framing close upgrade s) @ body"
  shows "\<exists>h'. parse_request_head sent head_default = (Inr True, h')
    \<and> request_framing h' sent = Inr framing \<and> drop (hd_len h') sent = body"
  using forwarded_reparse[OF assms(1,2,3,6)] forwarded_framed[OF assms(4)] assms(5) by auto

text \<open>
  A client can take the framing off: with \<open>Connection: content-length\<close> the length is stripped
  as if it described the connection, nothing restates it, and the head sent upstream frames an
  empty body while the client's body follows it. The origin reads those bytes as the next request
  of the connection.
\<close>

theorem content_length_stripped:
  assumes "forwardable_request buf h hop upgrade"
    and "length (upstream_fields h buf hop endpoint framing close upgrade s) \<le> MAX_HEADERS"
    and "length (fst (write_upstream_request [] h buf hop endpoint framing close upgrade s)) \<le> MAX_HEAD"
    and "request_framing h buf = Inr framing" "framing = Length n" "connection_lists h buf ''content-length''"
    and "sent = fst (write_upstream_request [] h buf hop endpoint framing close upgrade s) @ body"
  shows "\<exists>h'. parse_request_head sent head_default = (Inr True, h')
    \<and> request_framing h' sent = Inr Empty \<and> drop (hd_len h') sent = body"
  using forwarded_reparse[OF assms(1,2,3,7)] forwarded_framed[OF assms(4)] assms(5,6) by auto

text \<open>The same removes the \<open>Host\<close> of a client whose \<open>Connection\<close> names it, and supplies no other.\<close>

lemma listed_host_dropped:
  assumes "connection_lists h buf ''host''" "field_values h buf ''host'' \<noteq> []"
  shows "named_values ''host'' (upstream_fields h buf hop endpoint framing close upgrade s) = []"
proof -
  have other: "\<not> eq_ignore_ascii_case ''X-Forwarded-For'' ''host''" "\<not> eq_ignore_ascii_case ''X-Real-IP'' ''host''"
    "\<not> eq_ignore_ascii_case ''X-Forwarded-Proto'' ''host''" "\<not> eq_ignore_ascii_case ''X-Forwarded-Host'' ''host''"
    "\<not> eq_ignore_ascii_case ''X-Request-Id'' ''host''" "\<not> eq_ignore_ascii_case ''Transfer-Encoding'' ''host''"
    "\<not> eq_ignore_ascii_case ''Connection'' ''host''" "\<not> eq_ignore_ascii_case ''Upgrade'' ''host''" by code_simp+
  have "\<not> is_forwardable h buf ''host''" using assms(1) by (simp add: is_forwardable_def)
  then show ?thesis
    unfolding upstream_fields_def framing_fields_def connection_fields_def
    using assms(2) by (simp add: named_forwardable other split: option.split)
qed

subsection \<open>Two requests\<close>

definition sample_post :: "bytes \<Rightarrow> bytes" where
  "sample_post connection =
     ''POST /a HTTP/1.1'' @ CRLF @ ''Host: x'' @ CRLF @ ''Content-Length: 5'' @ CRLF @ ''X-Request-Id: r'' @ CRLF
     @ ''Connection: '' @ connection @ CRLF @ CRLF"

definition sample_post_head :: "bytes \<Rightarrow> head" where
  "sample_post_head connection =
     \<lparr> hd_start = RequestLine (span_at 0 4) (span_at 5 2) Http11,
       hd_headers =
         [header_span.make (span_at 18 4) (span_at 24 1), header_span.make (span_at 27 14) (span_at 43 1),
          header_span.make (span_at 46 12) (span_at 60 1),
          header_span.make (span_at 63 10) (span_at 75 (length connection))],
       hd_len = 79 + length connection, hd_scanned = 0 \<rparr>"

definition sample_hop :: hop where
  "sample_hop = \<lparr> ho_client = IPv4 192 0 2 1, ho_scheme = ''https'' \<rparr>"

definition sample_sent :: "bytes \<Rightarrow> bytes" where
  "sample_sent connection =
     fst (write_upstream_request [] (sample_post_head connection) (sample_post connection) sample_hop
            (SocketAddr (IPv4 10 0 0 9) 8080) (Length 5) False None 1) @ ''hello''"

lemma sample_forwardable:
  "forwardable_request (sample_post ''keep-alive'') (sample_post_head ''keep-alive'') sample_hop None"
  "forwardable_request (sample_post ''content-length'') (sample_post_head ''content-length'') sample_hop None"
  by code_simp+

text \<open>The fields of both, so that no later evaluation reads the bytes again.\<close>

lemma sample_iter:
  "head_iter (sample_post_head ''keep-alive'') (sample_post ''keep-alive'') =
     [(''Host'', ''x''), (''Content-Length'', ''5''), (''X-Request-Id'', ''r''), (''Connection'', ''keep-alive'')]"
  "head_iter (sample_post_head ''content-length'') (sample_post ''content-length'') =
     [(''Host'', ''x''), (''Content-Length'', ''5''), (''X-Request-Id'', ''r''), (''Connection'', ''content-length'')]"
  by code_simp+

abbreviation sample_fields :: "bytes \<Rightarrow> (bytes \<times> bytes) list" where
  "sample_fields connection \<equiv> upstream_fields (sample_post_head connection) (sample_post connection) sample_hop
     (SocketAddr (IPv4 10 0 0 9) 8080) (Length 5) False None 1"

lemma length_rendered_filter: "length (rendered (filter P fs)) \<le> length (rendered fs)"
  by (induction fs) (simp_all add: field_line_def)

lemma sample_parts:
  assumes "c = ''keep-alive'' \<or> c = ''content-length''"
  shows "field_values (sample_post_head c) (sample_post c) ''x-forwarded-for'' = []"
    "field_values (sample_post_head c) (sample_post c) ''host'' = [''x'']"
    "head_header (sample_post_head c) (sample_post c) ''host'' = Some ''x''"
    "head_header (sample_post_head c) (sample_post c) ''x-request-id'' = Some ''r''"
    "span_bytes (span_at 0 4) (sample_post c) = ''POST''" "span_bytes (span_at 5 2) (sample_post c) = ''/a''"
  using assms
  by (elim disjE; simp only: field_values_def headers_named_def head_header_def sample_iter; code_simp)+

lemma sample_sizes:
  assumes "c = ''keep-alive'' \<or> c = ''content-length''"
  shows "length (sample_fields c) \<le> MAX_HEADERS"
    "length (fst (write_upstream_request [] (sample_post_head c) (sample_post c) sample_hop
       (SocketAddr (IPv4 10 0 0 9) 8080) (Length 5) False None 1)) \<le> MAX_HEAD"
proof -
  have start: "hd_start (sample_post_head c) = RequestLine (span_at 0 4) (span_at 5 2) Http11" for c
    by (simp add: sample_post_head_def)
  have ip: "show_ip (ho_client sample_hop) = ''192.0.2.1''" "trim_ows ''r'' = ''r''" by code_simp+
  let ?in = "head_iter (sample_post_head c) (sample_post c)"
  have fields: "sample_fields c = filter (\<lambda>f. is_forwardable (sample_post_head c) (sample_post c) (fst f)) ?in
      @ [(''X-Forwarded-For'', ''192.0.2.1''), (''X-Real-IP'', ''192.0.2.1''), (''X-Forwarded-Proto'', ''https''),
         (''X-Forwarded-Host'', ''x''), (''X-Request-Id'', ''r'')]"
    using sample_parts[OF assms] ip
    by (simp add: upstream_fields_def framing_fields_def connection_fields_def forwarded_trail_def sent_id_def)
       (simp add: sample_hop_def)
  have inbound: "length ?in = 4" "length (rendered ?in) \<le> 100"
    using assms sample_iter by (auto simp: field_line_def spaced_def)
  show "length (sample_fields c) \<le> MAX_HEADERS"
    using length_filter_le[of "\<lambda>f. is_forwardable (sample_post_head c) (sample_post c) (fst f)" ?in] inbound(1)
    by (simp add: fields MAX_HEADERS_def)
  have "length (rendered (sample_fields c)) \<le> length (rendered ?in) + 200"
    using length_rendered_filter[of "\<lambda>f. is_forwardable (sample_post_head c) (sample_post c) (fst f)" ?in]
    by (simp add: fields field_line_def spaced_def)
  then show "length (fst (write_upstream_request [] (sample_post_head c) (sample_post c) sample_hop
       (SocketAddr (IPv4 10 0 0 9) 8080) (Length 5) False None 1)) \<le> MAX_HEAD"
    unfolding write_upstream_request_text[OF start] rendered_head[symmetric] sample_parts[OF assms]
    using inbound(2) by (simp add: MAX_HEAD_def)
qed

lemma sample_framing:
  "request_framing (sample_post_head ''keep-alive'') (sample_post ''keep-alive'') = Inr (Length 5)"
  "request_framing (sample_post_head ''content-length'') (sample_post ''content-length'') = Inr (Length 5)"
proof -
  have five: "length_loop None [(''Content-Length'', ''5'')] = Inr (Some 5)"
    by (simp add: parse_digits_eq trim_ows_def is_ows_def is_ascii_digit_def digits_val_def digit_val_def)
  have "headers_named (sample_post_head c) (sample_post c) ''content-length'' = [(''Content-Length'', ''5'')]"
    "headers_named (sample_post_head c) (sample_post c) ''transfer-encoding'' = []"
    if "c = ''keep-alive'' \<or> c = ''content-length''" for c
    using that by (elim disjE; simp only: headers_named_def sample_iter; code_simp)+
  with five show "request_framing (sample_post_head ''keep-alive'') (sample_post ''keep-alive'') = Inr (Length 5)"
    "request_framing (sample_post_head ''content-length'') (sample_post ''content-length'') = Inr (Length 5)"
    by (simp_all only: request_framing_def transfer_encoding_is_chunked_def content_length_def
        transfer_encoding_loop.simps sum_bind.simps simp_thms) simp_all
qed

lemma sample_connection:
  "\<not> connection_lists (sample_post_head ''keep-alive'') (sample_post ''keep-alive'') ''content-length''"
  "connection_lists (sample_post_head ''content-length'') (sample_post ''content-length'') ''content-length''"
  unfolding connection_lists_def headers_named_def sample_iter by code_simp+

theorem forwarded_head_reads_back_witness:
  "\<exists>h'. parse_request_head (sample_sent ''keep-alive'') head_default = (Inr True, h')
     \<and> head_method h' (sample_sent ''keep-alive'') = Some ''POST'' \<and> drop (hd_len h') (sample_sent ''keep-alive'') = ''hello''"
proof -
  have "head_method (sample_post_head ''keep-alive'') (sample_post ''keep-alive'') = Some ''POST''" by code_simp
  with forwarded_head_reads_back[OF sample_forwardable(1) sample_sizes[OF disjI1[OF refl]] sample_sent_def] show ?thesis by auto
qed

theorem forwarded_framing_kept_witness:
  "\<exists>h'. parse_request_head (sample_sent ''keep-alive'') head_default = (Inr True, h')
     \<and> request_framing h' (sample_sent ''keep-alive'') = Inr (Length 5) \<and> drop (hd_len h') (sample_sent ''keep-alive'') = ''hello''"
  by (rule forwarded_framing_kept[OF sample_forwardable(1) sample_sizes[OF disjI1[OF refl]] sample_framing(1) sample_connection(1) sample_sent_def])

theorem content_length_stripped_witness:
  "\<exists>h'. parse_request_head (sample_sent ''content-length'') head_default = (Inr True, h')
     \<and> request_framing h' (sample_sent ''content-length'') = Inr Empty \<and> drop (hd_len h') (sample_sent ''content-length'') = ''hello''"
  by (rule content_length_stripped[OF sample_forwardable(2) sample_sizes[OF disjI2[OF refl]] sample_framing(2) refl sample_connection(2) sample_sent_def])

end
