(* ===== verification/Civil_Time.thy ===== *)
theory Civil_Time
  imports Prelude
begin

text \<open>
  Timestamps. \<open>rfc3339\<close> and \<open>civil_from_days\<close> of \<open>crates/ramjet-proxy/src/history.rs\<close> write the
  moment of a generation; \<open>crates/ramjet-top/src/rfc3339.rs\<close> reads it back to show an age. A
  \<open>SystemTime\<close> is a number of nanoseconds since the epoch. The calendar arithmetic stays far inside
  64 bits for every moment that has a four-digit year, and is done on integers; division truncates
  as Rust's does.
\<close>

section \<open>Definitions\<close>

definition quot :: "int \<Rightarrow> int \<Rightarrow> int" where
  "quot a b = (if a \<ge> 0 then a div b else - ((- a) div b))"

definition I64_MAX :: int where
  "I64_MAX = 2 ^ 63 - 1"

text \<open>\<open>format!\<close> with \<open>{:0w}\<close>: the sign counts towards the width.\<close>

definition zero_pad :: "nat \<Rightarrow> string \<Rightarrow> string" where
  "zero_pad w s = replicate (w - length s) (CHR ''0'') @ s"

definition format_padded :: "nat \<Rightarrow> int \<Rightarrow> string" where
  "format_padded w i =
     (if i < 0 then CHR ''-'' # zero_pad (w - 1) (show_nat (nat (- i))) else zero_pad w (show_nat (nat i)))"

definition civil_from_days :: "int \<Rightarrow> int \<times> int \<times> int" where
  "civil_from_days days =
     (let z = days + 719468;
          era = quot (if z \<ge> 0 then z else z - 146096) 146097;
          day_of_era = z - era * 146097;
          year_of_era = quot (day_of_era - quot day_of_era 1460 + quot day_of_era 36524 - quot day_of_era 146096) 365;
          year = year_of_era + era * 400;
          day_of_year = day_of_era - (365 * year_of_era + quot year_of_era 4 - quot year_of_era 100);
          month_prime = quot (5 * day_of_year + 2) 153;
          day = day_of_year - quot (153 * month_prime + 2) 5 + 1;
          month = (if month_prime < 10 then month_prime + 3 else month_prime - 9)
      in (year + (if month \<le> 2 then 1 else 0), month, day))"

definition unix_seconds :: "int \<Rightarrow> int" where
  "unix_seconds nanos =
     (if nanos \<ge> 0 then min (nanos div 1000000000) I64_MAX else - min ((- nanos) div 1000000000) I64_MAX)"

definition rfc3339 :: "int \<Rightarrow> string" where
  "rfc3339 time =
     (let seconds = unix_seconds time;
          days = seconds div 86400;
          time_of_day = seconds mod 86400;
          (year, month, day) = civil_from_days days
      in format_padded 4 year @ ''-'' @ format_padded 2 month @ ''-'' @ format_padded 2 day @ ''T''
         @ format_padded 2 (quot time_of_day 3600) @ '':'' @ format_padded 2 (quot time_of_day 60 mod 60) @ '':''
         @ format_padded 2 (time_of_day mod 60) @ ''Z'')"

definition days_from_civil :: "int \<Rightarrow> int \<Rightarrow> int \<Rightarrow> int" where
  "days_from_civil year month day =
     (let y = year - (if month \<le> 2 then 1 else 0);
          era = quot (if y \<ge> 0 then y else y - 399) 400;
          yoe = y - era * 400;
          doy = quot (153 * (month + (if month > 2 then - 3 else 9)) + 2) 5 + day - 1;
          doe = yoe * 365 + quot yoe 4 - quot yoe 100 + doy
      in era * 146097 + doe - 719468)"

text \<open>\<open>str::get\<close>, which refuses a range that cuts a character, and \<open>parse::<i64>\<close>.\<close>

definition is_char_boundary :: "string \<Rightarrow> nat \<Rightarrow> bool" where
  "is_char_boundary s i \<longleftrightarrow>
     i = 0 \<or> i = length s \<or> (i < length s \<and> \<not> (128 \<le> byte_val (s ! i) \<and> byte_val (s ! i) < 192))"

definition str_get :: "string \<Rightarrow> nat \<Rightarrow> nat \<Rightarrow> string option" where
  "str_get s i j =
     (if i \<le> j \<and> j \<le> length s \<and> is_char_boundary s i \<and> is_char_boundary s j
      then Some (take (j - i) (drop i s)) else None)"

definition parse_i64 :: "string \<Rightarrow> int option" where
  "parse_i64 s =
     (let (negative, ds) = (case s of
            c # r \<Rightarrow> if r \<noteq> [] \<and> c = CHR ''-'' then (True, r) else if r \<noteq> [] \<and> c = CHR ''+'' then (False, r) else (False, s)
          | [] \<Rightarrow> (False, []))
      in if ds = [] \<or> \<not> list_all is_ascii_digit ds then None
         else let n = int (digits_val ds)
              in if negative then (if n \<le> 2 ^ 63 then Some (- n) else None) else if n < 2 ^ 63 then Some n else None)"

definition field_num :: "string \<Rightarrow> nat \<Rightarrow> nat \<Rightarrow> int option" where
  "field_num s i j = Option.bind (str_get s i j) parse_i64"

definition field_sep :: "string \<Rightarrow> nat \<Rightarrow> string \<Rightarrow> bool" where
  "field_sep s i want = (case get_at s i of Some c \<Rightarrow> c \<in> set want | None \<Rightarrow> False)"

definition skip_fraction :: "string \<Rightarrow> string option" where
  "skip_fraction rest =
     (case strip_prefix ''.'' rest of
        None \<Rightarrow> Some rest
      | Some after_dot \<Rightarrow>
          (let digits = length (takeWhile is_ascii_digit after_dot)
           in if digits = 0 then None else str_get after_dot digits (length after_dot)))"

definition offset_of :: "string \<Rightarrow> int option" where
  "offset_of rest =
     (case rest of
        [] \<Rightarrow> None
      | c # _ \<Rightarrow>
          if (c = CHR ''Z'' \<or> c = CHR ''z'') \<and> length rest = 1 then Some 0
          else if c = CHR ''+'' \<or> c = CHR ''-'' then
            if length rest \<noteq> 6 \<or> rest ! 3 \<noteq> CHR '':'' then None
            else case (field_num rest 1 3, field_num rest 4 6) of
                   (Some hours, Some minutes) \<Rightarrow>
                     if hours > 23 \<or> minutes > 59 then None
                     else let magnitude = hours * 3600 + minutes * 60
                          in Some (if c = CHR ''-'' then - magnitude else magnitude)
                 | _ \<Rightarrow> None
          else None)"

definition to_unix_seconds :: "string \<Rightarrow> int option" where
  "to_unix_seconds s =
     (if length s < 19 then None
      else if \<not> (field_sep s 4 ''-'' \<and> field_sep s 7 ''-'' \<and> field_sep s 10 ''Tt '' \<and> field_sep s 13 '':'' \<and> field_sep s 16 '':'')
      then None
      else case (field_num s 0 4, field_num s 5 7, field_num s 8 10, field_num s 11 13, field_num s 14 16, field_num s 17 19) of
             (Some year, Some month, Some day, Some hour, Some minute, Some second) \<Rightarrow>
               if \<not> (1 \<le> month \<and> month \<le> 12) \<or> \<not> (1 \<le> day \<and> day \<le> 31) then None
               else if hour > 23 \<or> minute > 59 \<or> second > 61 then None
               else Option.bind (str_get s 19 (length s)) (\<lambda>rest.
                    Option.bind (skip_fraction rest) (\<lambda>rest.
                    Option.bind (offset_of rest) (\<lambda>offset.
                      Some (days_from_civil year month day * 86400 + hour * 3600 + minute * 60 + second - offset))))
           | _ \<Rightarrow> None)"

definition humanize_age_pos :: "int \<Rightarrow> string" where
  "humanize_age_pos seconds =
     (let d = quot seconds 86400; h = quot (seconds mod 86400) 3600; m = quot (seconds mod 3600) 60; s = seconds mod 60
      in if d = 0 \<and> h = 0 \<and> m = 0 then show_int s @ ''s''
         else if d = 0 \<and> h = 0 then show_int m @ ''m'' @ show_int s @ ''s''
         else if d = 0 then show_int h @ ''h'' @ show_int m @ ''m''
         else show_int d @ ''d'' @ show_int h @ ''h'')"

definition humanize_age :: "int \<Rightarrow> string" where
  "humanize_age seconds = (if seconds < 0 then ''-'' @ humanize_age_pos (- seconds) else humanize_age_pos seconds)"

definition age_of :: "string \<Rightarrow> int \<Rightarrow> string" where
  "age_of timestamp now =
     (case to_unix_seconds timestamp of Some then_at \<Rightarrow> humanize_age (now - then_at) | None \<Rightarrow> ''?'')"

definition now_unix_seconds :: "int \<Rightarrow> int" where
  "now_unix_seconds clock =
     (if clock \<ge> 0 then min (clock div 1000000000) I64_MAX else - min ((- clock) div 1000000000) I64_MAX)"

section \<open>The calendar\<close>

lemma quot_nonneg: "0 \<le> a \<Longrightarrow> quot a b = a div b"
  by (simp add: quot_def)

lemma quot_floor:
  assumes "0 < b" shows "quot (if a \<ge> 0 then a else a - (b - 1)) b = a div b"
proof (cases "a \<ge> 0")
  case False
  have m: "0 \<le> a mod b" "a mod b < b" using assms by simp_all
  have "- (a - (b - 1)) = b * (- (a div b)) + (b - 1 - a mod b)" using mult_div_mod_eq[of b a] by (simp add: algebra_simps)
  then have "(- (a - (b - 1))) div b = - (a div b)" by (rule int_div_pos_eq) (use m in simp_all)
  moreover have "a - (b - 1) < 0" using False assms by linarith
  ultimately show ?thesis using False by (simp add: quot_def)
qed (simp add: quot_nonneg)

text \<open>
  Within an era of 400 years: the year a day falls into and its distance from the first of March,
  in terms of the century, the four-year cycle and the day of the cycle.
\<close>

lemma year_of_era_parts:
  fixes doe :: int
  assumes "0 \<le> doe" "doe < 146097"
  defines "yoe \<equiv> (doe - doe div 1460 + doe div 36524 - doe div 146096) div 365"
  shows "0 \<le> yoe \<and> yoe \<le> 399 \<and> 0 \<le> doe - (365 * yoe + yoe div 4 - yoe div 100)
    \<and> doe - (365 * yoe + yoe div 4 - yoe div 100) \<le> 365"
proof (cases "doe = 146096")
  case True
  then have "yoe = 399" unfolding yoe_def by simp
  with True show ?thesis by simp
next
  case False
  define b where "b = doe div 36524"
  define r where "r = doe mod 36524"
  define q where "q = r div 1461"
  define s where "s = r mod 1461"
  have doe: "doe = 36524 * b + r" and r: "r = 1461 * q + s" by (simp_all add: b_def r_def q_def s_def)
  have rb: "0 \<le> r" "r < 36524" and sb: "0 \<le> s" "s < 1461" by (simp_all add: r_def s_def)
  have b: "0 \<le> b" "b \<le> 3" using assms False doe rb by linarith+
  have q: "0 \<le> q" "q \<le> 24" using r rb sb by linarith+
  define e where "e = (24 * b + q + s) div 1460"
  define m where "m = (24 * b + q + s) mod 1460"
  have em: "24 * b + q + s = 1460 * e + m" "0 \<le> m" "m < 1460"
    unfolding e_def m_def by (simp_all only: mult_div_mod_eq pos_mod_sign[of 1460] pos_mod_bound[of 1460])
  have e: "0 \<le> e" "e \<le> 1" using em b q sb by linarith+
  have "doe = 1460 * (25 * b + q + e) + m" using doe r em(1) by simp
  then have "doe div 1460 = 25 * b + q + e" by (rule int_div_pos_eq[OF _ em(2,3)])
  moreover have "doe div 146096 = 0" using assms False by simp
  moreover have "doe div 36524 = b" by (simp add: b_def)
  ultimately have "yoe = (365 * (100 * b + 4 * q) + (s - e)) div 365" unfolding yoe_def using doe r by simp
  then have yoe: "yoe = 100 * b + 4 * q + (s - e) div 365" by simp
  define t where "t = (s - e) div 365"
  have t: "0 \<le> t" "t \<le> 3" "365 * t \<le> s" "s \<le> 365 * t + 365"
  proof -
    have d: "365 * t \<le> s - e" "s - e < 365 * t + 365"
      using mult_div_mod_eq[of 365 "s - e"] pos_mod_bound[of 365 "s - e"] pos_mod_sign[of 365 "s - e"]
      unfolding t_def by linarith+
    have "0 \<le> s - e" "s - e \<le> 1459" using em e sb b q by linarith+
    with d e show "0 \<le> t" "t \<le> 3" "365 * t \<le> s" "s \<le> 365 * t + 365" by linarith+
  qed
  have y: "yoe = 100 * b + 4 * q + t" using yoe t_def by simp
  have "yoe = 4 * (25 * b + q) + t" "t < 4" using y t by simp_all
  then have "yoe div 4 = 25 * b + q" by (rule int_div_pos_eq[OF _ t(1)])
  moreover have "yoe = 100 * b + (4 * q + t)" "0 \<le> 4 * q + t" "4 * q + t < 100" using y t q by simp_all
  then have "yoe div 100 = b" by (rule int_div_pos_eq)
  ultimately have "doe - (365 * yoe + yoe div 4 - yoe div 100) = s - 365 * t" using y doe r by simp
  with t show ?thesis using y b q by simp
qed

lemma month_parts:
  fixes doy :: int
  assumes "0 \<le> doy" "doy \<le> 365"
  defines "mp \<equiv> (5 * doy + 2) div 153"
  shows "0 \<le> mp" "mp \<le> 11" "0 \<le> doy - (153 * mp + 2) div 5" "doy - (153 * mp + 2) div 5 \<le> 30"
proof -
  define k where "k = (5 * doy + 2) mod 153"
  define x where "x = (153 * mp + 2) div 5"
  define j where "j = (153 * mp + 2) mod 5"
  have k: "5 * doy + 2 = 153 * mp + k" "0 \<le> k" "k < 153" by (simp_all add: k_def mp_def)
  have j: "153 * mp + 2 = 5 * x + j" "0 \<le> j" "j < 5" by (simp_all add: x_def j_def)
  show "0 \<le> mp" "mp \<le> 11" "0 \<le> doy - (153 * mp + 2) div 5" "doy - (153 * mp + 2) div 5 \<le> 30"
    using assms(1,2) k j unfolding x_def[symmetric] by linarith+
qed

definition civil_ok :: "int \<Rightarrow> int \<Rightarrow> int \<Rightarrow> int \<Rightarrow> int \<Rightarrow> bool" where
  "civil_ok days era yoe doy mp \<longleftrightarrow>
     days = era * 146097 + (365 * yoe + yoe div 4 - yoe div 100 + doy) - 719468
     \<and> 0 \<le> yoe \<and> yoe \<le> 399 \<and> 0 \<le> doy \<and> doy \<le> 365 \<and> mp = (5 * doy + 2) div 153"

lemma civil_from_days_parts:
  obtains era yoe doy mp where "civil_ok days era yoe doy mp"
    "civil_from_days days = (yoe + era * 400 + (if mp < 10 then 0 else 1), if mp < 10 then mp + 3 else mp - 9,
       doy - (153 * mp + 2) div 5 + 1)"
proof -
  define z where "z = days + 719468"
  define era where "era = z div 146097"
  define doe where "doe = z mod 146097"
  define yoe where "yoe = (doe - doe div 1460 + doe div 36524 - doe div 146096) div 365"
  define doy where "doy = doe - (365 * yoe + yoe div 4 - yoe div 100)"
  define mp where "mp = (5 * doy + 2) div 153"
  have doe: "0 \<le> doe" "doe < 146097" "z = 146097 * era + doe" by (simp_all add: doe_def era_def)
  have y: "0 \<le> yoe" "yoe \<le> 399" "0 \<le> doy" "doy \<le> 365"
    using year_of_era_parts[OF doe(1,2)] by (simp_all add: yoe_def doy_def)
  note M = month_parts[OF y(3,4), folded mp_def]
  have q: "quot (if z \<ge> 0 then z else z - 146096) 146097 = era" using quot_floor[of 146097 z] by (auto simp: era_def split: if_splits)
  have e: "z - era * 146097 = doe" using doe(3) by simp
  have "0 \<le> doe - doe div 1460 + doe div 36524 - doe div 146096"
  proof -
    have "doe div 1460 \<le> doe" "doe div 146096 \<le> doe div 36524" using doe(1) by (simp_all add: zdiv_mono2)
    then show ?thesis by simp
  qed
  then have "quot (doe - quot doe 1460 + quot doe 36524 - quot doe 146096) 365 = yoe"
    using doe(1) by (simp add: quot_nonneg yoe_def)
  moreover have "doe - (365 * yoe + quot yoe 4 - quot yoe 100) = doy" using y by (simp add: quot_nonneg doy_def)
  moreover have "quot (5 * doy + 2) 153 = mp" "quot (153 * mp + 2) 5 = (153 * mp + 2) div 5"
    using y M by (simp_all add: quot_nonneg mp_def)
  ultimately have "civil_from_days days = (yoe + era * 400 + (if mp < 10 then 0 else 1), if mp < 10 then mp + 3 else mp - 9,
       doy - (153 * mp + 2) div 5 + 1)"
    unfolding civil_from_days_def Let_def z_def[symmetric] q e using M by auto
  moreover have "civil_ok days era yoe doy mp"
    using y doe by (simp add: civil_ok_def mp_def doy_def z_def)
  ultimately show thesis using that by blast
qed

lemma civil_roundtrip:
  assumes "civil_from_days days = (year, month, day)"
  shows "days_from_civil year month day = days" "1 \<le> month" "month \<le> 12" "1 \<le> day" "day \<le> 31"
proof -
  obtain era yoe doy mp where ok: "civil_ok days era yoe doy mp"
    and c: "civil_from_days days = (yoe + era * 400 + (if mp < 10 then 0 else 1), if mp < 10 then mp + 3 else mp - 9,
       doy - (153 * mp + 2) div 5 + 1)" by (rule civil_from_days_parts)
  note M = month_parts[of doy]
  from ok M have b: "0 \<le> yoe" "yoe \<le> 399" "0 \<le> mp" "mp \<le> 11"
    "0 \<le> doy - (153 * mp + 2) div 5" "doy - (153 * mp + 2) div 5 \<le> 30" by (auto simp: civil_ok_def)
  have v: "month = (if mp < 10 then mp + 3 else mp - 9)" "day = doy - (153 * mp + 2) div 5 + 1"
    "year - (if month \<le> 2 then 1 else 0) = yoe + era * 400" using assms c b by (auto split: if_splits)
  then show "1 \<le> month" "month \<le> 12" "1 \<le> day" "day \<le> 31" using b by auto
  have m: "month + (if month > 2 then - 3 else 9) = mp" using v(1) b by auto
  have "quot (if yoe + era * 400 \<ge> 0 then yoe + era * 400 else yoe + era * 400 - 399) 400 = era"
    using quot_floor[of 400 "yoe + era * 400"] b by (auto split: if_splits)
  then show "days_from_civil year month day = days"
    unfolding days_from_civil_def Let_def v(3) m using ok b v(2)
    by (simp add: quot_nonneg civil_ok_def)
qed

section \<open>Writing and reading\<close>

lemma length_show_nat: "0 < k \<Longrightarrow> n < 10 ^ k \<Longrightarrow> length (show_nat n) \<le> k"
proof (induction k arbitrary: n)
  case (Suc k)
  show ?case
  proof (cases "n < 10")
    case False
    have "n div 10 < 10 ^ k" using Suc.prems(2) by (simp add: less_mult_imp_div_less)
    moreover have "0 < k" using False Suc.prems(2) by (cases k) auto
    ultimately have "length (show_nat (n div 10)) \<le> k" by (rule Suc.IH[rotated])
    with False show ?thesis by (subst show_nat.simps) simp
  qed (subst show_nat.simps, simp)
qed simp

lemma digits_val_zeros: "digits_val (replicate k (CHR ''0'') @ s) = digits_val s"
  by (induction k) (simp_all add: digits_val_def digit_val_def)

lemma format_padded_digits:
  assumes "0 \<le> i" "i < 10 ^ w" "0 < w"
  shows "length (format_padded w i) = w" "list_all is_ascii_digit (format_padded w i)"
    "int (digits_val (format_padded w i)) = i"
proof -
  have "nat i < 10 ^ w" using assms by (simp add: nat_less_iff)
  then have "length (show_nat (nat i)) \<le> w" using length_show_nat[OF assms(3)] by blast
  then show "length (format_padded w i) = w" using assms(1) by (simp add: format_padded_def zero_pad_def)
  show "list_all is_ascii_digit (format_padded w i)"
    using assms(1) show_nat_digits[of "nat i"] by (auto simp: format_padded_def zero_pad_def list_all_iff is_ascii_digit_def)
  show "int (digits_val (format_padded w i)) = i" using assms(1) by (simp add: format_padded_def zero_pad_def digits_val_zeros)
qed

lemma parse_i64_digits:
  assumes "s \<noteq> []" "list_all is_ascii_digit s" "int (digits_val s) < 2 ^ 63"
  shows "parse_i64 s = Some (int (digits_val s))"
proof -
  obtain c r where s: "s = c # r" using assms(1) by (cases s) auto
  with assms(2) have "c \<noteq> CHR ''-''" "c \<noteq> CHR ''+''" using digit_not_plus by auto
  with s assms show ?thesis by (simp add: parse_i64_def)
qed

lemma str_get_ascii:
  assumes "list_all (\<lambda>c. byte_val c < 128) s" "i \<le> j" "j \<le> length s"
  shows "str_get s i j = Some (take (j - i) (drop i s))"
proof -
  have "is_char_boundary s k" if "k \<le> length s" for k
    using assms(1) that nth_mem[of k s] by (fastforce simp: is_char_boundary_def list_all_iff)
  with assms show ?thesis by (simp add: str_get_def)
qed

lemma padded_number:
  assumes "0 \<le> i" "i < 10 ^ w" "0 < w" "w \<le> 4"
  shows "parse_i64 (format_padded w i) = Some i" "length (format_padded w i) = w"
    "list_all (\<lambda>c. byte_val c < 128) (format_padded w i)"
proof -
  note F = format_padded_digits[OF assms(1-3)]
  show "length (format_padded w i) = w" by (rule F(1))
  show "list_all (\<lambda>c. byte_val c < 128) (format_padded w i)" using F(2) by (auto simp: list_all_iff is_ascii_digit_def)
  have "(10::int) ^ w \<le> 10 ^ 4" using assms(4) by (intro power_increasing) auto
  also have "(10::int) ^ 4 < 2 ^ 63" by simp
  finally have "i < 2 ^ 63" using assms(2) by linarith
  moreover have "format_padded w i \<noteq> []" using F(1) assms(3) by auto
  ultimately show "parse_i64 (format_padded w i) = Some i" using parse_i64_digits[OF _ F(2)] F(3) by simp
qed

lemma year_four_digits:
  assumes "0 \<le> days" "days \<le> 2932896" "civil_from_days days = (year, month, day)"
  shows "0 \<le> year" "year < 10 ^ 4"
proof -
  obtain era yoe doy mp where ok: "civil_ok days era yoe doy mp"
    and c: "civil_from_days days = (yoe + era * 400 + (if mp < 10 then 0 else 1), if mp < 10 then mp + 3 else mp - 9,
       doy - (153 * mp + 2) div 5 + 1)" by (rule civil_from_days_parts)
  define u v k where "u = yoe div 4" and "v = yoe div 100" and "k = (5 * doy + 2) mod 153"
  have b: "yoe = 4 * u + yoe mod 4" "yoe = 100 * v + yoe mod 100" "0 \<le> yoe mod 4" "yoe mod 4 < 4" "0 \<le> yoe mod 100" "yoe mod 100 < 100"
    "5 * doy + 2 = 153 * mp + k" "0 \<le> k" "k < 153"
    using ok by (simp_all add: u_def v_def k_def civil_ok_def)
  have d: "days = era * 146097 + (365 * yoe + u - v + doy) - 719468" "0 \<le> yoe" "yoe \<le> 399" "0 \<le> doy" "doy \<le> 365"
    using ok by (simp_all add: civil_ok_def u_def v_def)
  have era: "4 \<le> era" "era \<le> 24" using d b assms by linarith+
  have year: "year = yoe + era * 400 + (if mp < 10 then 0 else 1)" using c assms(3) by simp
  show "0 \<le> year" using year d era by (simp split: if_splits)
  have "mp < 10" if "era = 24" "yoe = 399"
  proof -
    have "u = 99" "v = 3" using that by (simp_all add: u_def v_def)
    with that d(1) assms(2) have "doy \<le> 305" by simp
    with b(7,8) show ?thesis by linarith
  qed
  then show "year < 10 ^ 4" using year d era by (cases "era = 24 \<and> yoe = 399") (auto split: if_splits)
qed

text \<open>
  C23. The two ends agree on the calendar: every moment from the epoch to the end of the year 9999,
  written by the proxy as a timestamp and read by \<open>ramjet-top\<close>, is read as the same second.
\<close>

theorem timestamp_roundtrip:
  assumes "0 \<le> time" "unix_seconds time \<le> 253402300799"
  shows "to_unix_seconds (rfc3339 time) = Some (unix_seconds time)"
proof -
  define sec days tod where "sec = unix_seconds time" and "days = sec div 86400" and "tod = sec mod 86400"
  have "0 \<le> sec" using assms(1) by (simp add: sec_def unix_seconds_def I64_MAX_def)
  have days: "0 \<le> days" "days \<le> 2932896" "sec = 86400 * days + tod" "0 \<le> tod" "tod < 86400"
    using \<open>0 \<le> sec\<close> assms(2) by (simp_all add: days_def tod_def flip: sec_def)
  obtain year month day where civil: "civil_from_days days = (year, month, day)" by (metis prod_cases3)
  note C = civil_roundtrip[OF civil] year_four_digits[OF days(1,2) civil]
  define h m s where "h = tod div 3600" and "m = tod div 60 mod 60" and "s = tod mod 60"
  have hms: "0 \<le> h" "h \<le> 23" "0 \<le> m" "m \<le> 59" "0 \<le> s" "s \<le> 59"
    using days(4,5) by (simp_all add: h_def m_def s_def)
  have tod: "tod = h * 3600 + m * 60 + s"
  proof -
    have "tod = 60 * (tod div 60) + s" by (simp add: s_def)
    moreover have "tod div 60 = 60 * (tod div 60 div 60) + m" by (simp add: m_def)
    moreover have "tod div 60 div 60 = h" by (simp add: h_def zdiv_zmult2_eq[symmetric])
    ultimately show ?thesis by simp
  qed
  let ?Y = "format_padded 4 year" and ?M = "format_padded 2 month" and ?D = "format_padded 2 day"
    and ?h = "format_padded 2 h" and ?m = "format_padded 2 m" and ?s = "format_padded 2 s"
  note P = padded_number[OF C(6,7)] padded_number[of month 2] padded_number[of day 2] padded_number[of h 2]
    padded_number[of m 2] padded_number[of s 2]
  have len: "length ?Y = 4" "length ?M = 2" "length ?D = 2" "length ?h = 2" "length ?m = 2" "length ?s = 2"
    and num: "parse_i64 ?Y = Some year" "parse_i64 ?M = Some month" "parse_i64 ?D = Some day" "parse_i64 ?h = Some h"
      "parse_i64 ?m = Some m" "parse_i64 ?s = Some s"
    and asc: "list_all (\<lambda>c. byte_val c < 128) (?Y @ ?M @ ?D @ ?h @ ?m @ ?s)"
    using P C hms by simp_all
  define stamp where "stamp = ?Y @ ''-'' @ ?M @ ''-'' @ ?D @ ''T'' @ ?h @ '':'' @ ?m @ '':'' @ ?s @ ''Z''"
  have written: "rfc3339 time = stamp"
    unfolding rfc3339_def sec_def[symmetric] Let_def days_def[symmetric] tod_def[symmetric] civil prod.case stamp_def
    using days(4) by (simp add: quot_nonneg h_def m_def s_def)
  have ascii: "list_all (\<lambda>c. byte_val c < 128) stamp" using asc by (simp add: stamp_def)
  have size: "length stamp = 20" using len by (simp add: stamp_def)
  have seps: "field_sep stamp 4 ''-''" "field_sep stamp 7 ''-''" "field_sep stamp 10 ''Tt ''" "field_sep stamp 13 '':''" "field_sep stamp 16 '':''"
    using len by (simp_all add: field_sep_def get_at_def stamp_def nth_append)
  have nums: "field_num stamp 0 4 = Some year" "field_num stamp 5 7 = Some month" "field_num stamp 8 10 = Some day"
    "field_num stamp 11 13 = Some h" "field_num stamp 14 16 = Some m" "field_num stamp 17 19 = Some s"
    using size by (simp_all add: field_num_def str_get_ascii[OF ascii]) (use len num in \<open>simp_all add: stamp_def\<close>)
  have rest: "str_get stamp 19 (length stamp) = Some ''Z''" using len by (simp add: str_get_ascii[OF ascii] size) (simp add: stamp_def)
  have zone: "skip_fraction ''Z'' = Some ''Z''" "offset_of ''Z'' = Some 0"
    by (simp_all add: skip_fraction_def strip_prefix_def offset_of_def)
  show ?thesis
    unfolding written to_unix_seconds_def nums using size seps C hms
    by (simp add: rest[unfolded size] zone days(3) tod flip: sec_def)
qed

theorem timestamp_roundtrip_witness:
  "to_unix_seconds (rfc3339 1735689600999999999) = Some 1735689600 \<and> rfc3339 1735689600999999999 = ''2025-01-01T00:00:00Z''"
proof
  have "unix_seconds 1735689600999999999 = 1735689600" by (simp add: unix_seconds_def I64_MAX_def)
  then show "to_unix_seconds (rfc3339 1735689600999999999) = Some 1735689600"
    using timestamp_roundtrip[of 1735689600999999999] by simp
  show "rfc3339 1735689600999999999 = ''2025-01-01T00:00:00Z''" by code_simp
qed

section \<open>What else the reader accepts\<close>

text \<open>
  The reader is looser than its description. A field may carry a sign, so an hour of minus one is
  read; a day the month does not have is read as a day of the next month; and a leap second is not
  clamped into its minute but read as the first second of the next.
\<close>

lemma reader_accepts_signs: "to_unix_seconds ''2025-06-01T-1:00:00Z'' = to_unix_seconds ''2025-05-31T23:00:00Z''"
  by code_simp

lemma reader_accepts_missing_days: "to_unix_seconds ''2025-02-31T00:00:00Z'' = to_unix_seconds ''2025-03-03T00:00:00Z''"
  by code_simp

lemma leap_second_not_clamped: "to_unix_seconds ''2016-12-31T23:59:60Z'' = to_unix_seconds ''2017-01-01T00:00:00Z''"
  by code_simp

end
