(* ===== verification/Bodies.thy ===== *)
theory Bodies
  imports Prelude
begin

text \<open>
  Message bodies of the hyper engine. \<open>ProxyBody\<close> is \<open>crates/ramjet-proxy/src/body.rs\<close>,
  \<open>RequestBody\<close> and \<open>request_body\<close> are \<open>crates/ramjet-proxy/src/http3.rs\<close>, and the buffering that
  copies a body for a mirror is \<open>buffer\<close> of \<open>crates/ramjet-proxy/src/mirror.rs\<close> with its use in
  \<open>mirror_request\<close> of \<open>forward.rs\<close>. A stream of the HTTP libraries (hyper's \<open>Incoming\<close>, the
  receiving half of a QUIC stream) is the list of answers its poll function gives, one per poll,
  and has ended when the list is empty; pending polls are answers like any other. What hyper
  reports about its own stream (its size hint, whether it has ended) is a parameter of the
  definitions that ask for it.
\<close>

section \<open>Streams and frames\<close>

datatype 'a poll = Pending | Ready 'a

datatype 't frame = DataFrame bytes | TrailerFrame 't

datatype ('e, 'x) body_error = BodyErrorHttp 'e | BodyErrorHttp3 'x

type_synonym ('t, 'e) incoming = "('e + 't frame) poll list"
type_synonym 'x recv_stream = "('x + bytes) poll list"
type_synonym ('t, 'e, 'x) frame_result = "('e, 'x) body_error + 't frame"
type_synonym hint = "u64 \<times> u64 option"

fun poll_stream :: "'a poll list \<Rightarrow> 'a option poll \<times> 'a poll list" where
  "poll_stream [] = (Ready None, [])"
| "poll_stream (Pending # r) = (Pending, r)"
| "poll_stream (Ready a # r) = (Ready (Some a), r)"

definition with_exact :: "u64 \<Rightarrow> hint" where
  "with_exact n = (n, Some n)"

definition hint_exact :: "hint \<Rightarrow> u64 option" where
  "hint_exact h = (if Some (fst h) = snd h then snd h else None)"

section \<open>The body of an HTTP/3 request\<close>

record 'x request_body_state =
  rb_stream :: "'x recv_stream"
  rb_queued :: "('x + bytes) option"
  rb_remaining :: "u64 option"
  rb_ended :: bool

definition request_body_new :: "'x recv_stream \<Rightarrow> u64 option \<Rightarrow> 'x request_body_state" where
  "request_body_new s declared = \<lparr> rb_stream = s, rb_queued = None, rb_remaining = declared, rb_ended = False \<rparr>"

definition already_ended :: "'x request_body_state \<Rightarrow> bool \<times> 'x request_body_state" where
  "already_ended rb =
     (case poll_stream (rb_stream rb) of
        (Ready None, s) \<Rightarrow> (True, rb\<lparr> rb_stream := s, rb_ended := True \<rparr>)
      | (Ready (Some (Inr chunk)), s) \<Rightarrow> (False, rb\<lparr> rb_stream := s, rb_queued := Some (Inr chunk) \<rparr>)
      | (Ready (Some (Inl e)), s) \<Rightarrow> (False, rb\<lparr> rb_stream := s, rb_queued := Some (Inl e) \<rparr>)
      | (Pending, s) \<Rightarrow> (False, rb\<lparr> rb_stream := s \<rparr>))"

definition rb_known_empty :: "'x request_body_state \<Rightarrow> bool" where
  "rb_known_empty rb \<longleftrightarrow> rb_queued rb = None \<and> (rb_ended rb \<or> rb_remaining rb = Some 0)"

definition rb_end_stream :: "'x request_body_state \<Rightarrow> bool" where
  "rb_end_stream rb \<longleftrightarrow> rb_ended rb \<and> rb_queued rb = None"

definition rb_size_hint :: "'x request_body_state \<Rightarrow> hint" where
  "rb_size_hint rb =
     (case rb_remaining rb of
        Some remaining \<Rightarrow> with_exact remaining
      | None \<Rightarrow> if rb_end_stream rb then with_exact 0 else (0, None))"

definition rb_deliver :: "'x + bytes \<Rightarrow> 'x request_body_state \<Rightarrow> ('t, 'e, 'x) frame_result \<times> 'x request_body_state" where
  "rb_deliver chunk rb =
     (case chunk of
        Inr d \<Rightarrow> (Inr (DataFrame d),
                  rb\<lparr> rb_remaining := map_option (\<lambda>n. saturating_sub n (of_nat (length d))) (rb_remaining rb) \<rparr>)
      | Inl e \<Rightarrow> (Inl (BodyErrorHttp3 e), rb\<lparr> rb_ended := True \<rparr>))"

definition rb_poll_frame :: "'x request_body_state \<Rightarrow> ('t, 'e, 'x) frame_result option poll \<times> 'x request_body_state" where
  "rb_poll_frame rb =
     (case rb_queued rb of
        Some q \<Rightarrow> (let (r, rb') = rb_deliver q (rb\<lparr> rb_queued := None \<rparr>) in (Ready (Some r), rb'))
      | None \<Rightarrow>
          if rb_ended rb then (Ready None, rb)
          else case poll_stream (rb_stream rb) of
                 (Pending, s) \<Rightarrow> (Pending, rb\<lparr> rb_stream := s \<rparr>)
               | (Ready None, s) \<Rightarrow> (Ready None, rb\<lparr> rb_stream := s, rb_ended := True \<rparr>)
               | (Ready (Some c), s) \<Rightarrow>
                   (let (r, rb') = rb_deliver c (rb\<lparr> rb_stream := s \<rparr>) in (Ready (Some r), rb')))"

section \<open>The proxy's body type\<close>

datatype ('t, 'e, 'x) proxy_body =
    BodyEmpty
  | BodyOnce "bytes option"
  | BodyStream "('t, 'e) incoming"
  | BodyPrefixed "bytes option" "('t, 'e) incoming"
  | BodyHttp3 "bytes option" "'x request_body_state"

definition body_once :: "bytes \<Rightarrow> ('t, 'e, 'x) proxy_body" where
  "body_once d = (if d = [] then BodyEmpty else BodyOnce (Some d))"

definition body_http3 :: "'x request_body_state \<Rightarrow> ('t, 'e, 'x) proxy_body" where
  "body_http3 rb = BodyHttp3 None rb"

definition join_bytes :: "bytes \<Rightarrow> bytes option \<Rightarrow> bytes" where
  "join_bytes prefix held = (case held of None \<Rightarrow> prefix | Some h \<Rightarrow> prefix @ h)"

definition body_prefixed :: "bytes \<Rightarrow> ('t, 'e, 'x) proxy_body \<Rightarrow> ('t, 'e, 'x) proxy_body" where
  "body_prefixed prefix rest =
     (if prefix = [] then rest
      else case rest of
             BodyEmpty \<Rightarrow> body_once prefix
           | BodyOnce None \<Rightarrow> body_once prefix
           | BodyOnce (Some t) \<Rightarrow> body_once (prefix @ t)
           | BodyStream s \<Rightarrow> BodyPrefixed (Some prefix) s
           | BodyPrefixed None s \<Rightarrow> BodyPrefixed (Some prefix) s
           | BodyPrefixed (Some held) s \<Rightarrow> BodyPrefixed (Some (prefix @ held)) s
           | BodyHttp3 held rb \<Rightarrow> BodyHttp3 (Some (join_bytes prefix held)) rb)"

fun is_known_empty :: "(('t, 'e) incoming \<Rightarrow> hint) \<Rightarrow> ('t, 'e, 'x) proxy_body \<Rightarrow> bool" where
  "is_known_empty hyper_hint BodyEmpty = True"
| "is_known_empty hyper_hint (BodyOnce d) = (case d of None \<Rightarrow> True | Some b \<Rightarrow> b = [])"
| "is_known_empty hyper_hint (BodyStream s) = (hint_exact (hyper_hint s) = Some 0)"
| "is_known_empty hyper_hint (BodyPrefixed _ _) = False"
| "is_known_empty hyper_hint (BodyHttp3 (Some _) _) = False"
| "is_known_empty hyper_hint (BodyHttp3 None rb) = rb_known_empty rb"

text \<open>\<open>request_body\<close>: the declared length is the parsed \<open>content-length\<close> field, if there is one.\<close>

definition request_body :: "'x recv_stream \<Rightarrow> u64 option \<Rightarrow> ('t, 'e, 'x) proxy_body" where
  "request_body recv declared =
     (if declared = Some 0 then BodyEmpty
      else let rb = request_body_new recv declared in
        if declared = None
        then (let (ended, rb') = already_ended rb in if ended then BodyEmpty else body_http3 rb')
        else body_http3 rb)"

definition hyper_frame :: "('e + 't frame) option poll \<Rightarrow> ('t, 'e, 'x) frame_result option poll" where
  "hyper_frame p = map_poll (map_option (map_sum BodyErrorHttp id)) p"

fun poll_frame :: "('t, 'e, 'x) proxy_body \<Rightarrow> ('t, 'e, 'x) frame_result option poll \<times> ('t, 'e, 'x) proxy_body" where
  "poll_frame BodyEmpty = (Ready None, BodyEmpty)"
| "poll_frame (BodyOnce d) = (Ready (map_option (\<lambda>b. Inr (DataFrame b)) d), BodyOnce None)"
| "poll_frame (BodyStream s) = (let (p, s') = poll_stream s in (hyper_frame p, BodyStream s'))"
| "poll_frame (BodyPrefixed (Some prefix) s) = (Ready (Some (Inr (DataFrame prefix))), BodyPrefixed None s)"
| "poll_frame (BodyPrefixed None s) = (let (p, s') = poll_stream s in (hyper_frame p, BodyPrefixed None s'))"
| "poll_frame (BodyHttp3 (Some prefix) rb) = (Ready (Some (Inr (DataFrame prefix))), BodyHttp3 None rb)"
| "poll_frame (BodyHttp3 None rb) = (let (p, rb') = rb_poll_frame rb in (p, BodyHttp3 None rb'))"

fun is_end_stream :: "(('t, 'e) incoming \<Rightarrow> bool) \<Rightarrow> ('t, 'e, 'x) proxy_body \<Rightarrow> bool" where
  "is_end_stream hyper_ended BodyEmpty = True"
| "is_end_stream hyper_ended (BodyOnce d) = (d = None)"
| "is_end_stream hyper_ended (BodyStream s) = hyper_ended s"
| "is_end_stream hyper_ended (BodyPrefixed d s) = (d = None \<and> hyper_ended s)"
| "is_end_stream hyper_ended (BodyHttp3 d rb) = (d = None \<and> rb_end_stream rb)"

definition held_len :: "bytes option \<Rightarrow> u64" where
  "held_len d = (case d of None \<Rightarrow> 0 | Some b \<Rightarrow> of_nat (length b))"

definition hint_behind :: "bytes option \<Rightarrow> hint \<Rightarrow> hint" where
  "hint_behind d rest =
     (saturating_add (fst rest) (held_len d), map_option (\<lambda>u. saturating_add u (held_len d)) (snd rest))"

fun size_hint :: "(('t, 'e) incoming \<Rightarrow> hint) \<Rightarrow> ('t, 'e, 'x) proxy_body \<Rightarrow> hint" where
  "size_hint hyper_hint BodyEmpty = with_exact 0"
| "size_hint hyper_hint (BodyOnce d) = with_exact (held_len d)"
| "size_hint hyper_hint (BodyStream s) = hyper_hint s"
| "size_hint hyper_hint (BodyPrefixed d s) = hint_behind d (hyper_hint s)"
| "size_hint hyper_hint (BodyHttp3 d rb) = hint_behind d (rb_size_hint rb)"

text \<open>\<open>body.frame().await\<close>: poll until the body is ready.\<close>

fun polls_left :: "('t, 'e, 'x) proxy_body \<Rightarrow> nat" where
  "polls_left (BodyStream s) = length s"
| "polls_left (BodyPrefixed _ s) = length s"
| "polls_left (BodyHttp3 _ rb) = length (rb_stream rb)"
| "polls_left _ = 0"

lemma pending_shrinks:
  "poll_frame b = (Pending, b') \<Longrightarrow> polls_left b' < polls_left b"
  by (cases b rule: poll_frame.cases; cases "rb_stream (case b of BodyHttp3 _ rb \<Rightarrow> rb)")
     (auto simp: hyper_frame_def rb_poll_frame_def rb_deliver_def Let_def
       split: prod.splits option.splits poll.splits if_splits sum.splits elim: poll_stream.elims)

function await_frame :: "('t, 'e, 'x) proxy_body \<Rightarrow> ('t, 'e, 'x) frame_result option \<times> ('t, 'e, 'x) proxy_body" where
  "await_frame b = (case poll_frame b of (Pending, b') \<Rightarrow> await_frame b' | (Ready r, b') \<Rightarrow> (r, b'))"
  by pat_completeness auto
termination
  by (relation "measure polls_left") (auto dest: pending_shrinks[OF sym])

declare await_frame.simps [simp del]

section \<open>What a body carries\<close>

text \<open>The results a body will give, pending polls apart.\<close>

fun readies :: "'a poll list \<Rightarrow> 'a list" where
  "readies [] = []"
| "readies (Pending # r) = readies r"
| "readies (Ready a # r) = a # readies r"

fun recv_frames :: "'x recv_stream \<Rightarrow> ('t, 'e, 'x) frame_result list" where
  "recv_frames [] = []"
| "recv_frames (Pending # r) = recv_frames r"
| "recv_frames (Ready (Inr d) # r) = Inr (DataFrame d) # recv_frames r"
| "recv_frames (Ready (Inl e) # r) = [Inl (BodyErrorHttp3 e)]"

definition rb_frames :: "'x request_body_state \<Rightarrow> ('t, 'e, 'x) frame_result list" where
  "rb_frames rb =
     (let behind = (if rb_ended rb then [] else recv_frames (rb_stream rb)) in
      case rb_queued rb of
        None \<Rightarrow> behind
      | Some (Inl e) \<Rightarrow> [Inl (BodyErrorHttp3 e)]
      | Some (Inr d) \<Rightarrow> Inr (DataFrame d) # behind)"

definition held_frames :: "bytes option \<Rightarrow> ('t, 'e, 'x) frame_result list" where
  "held_frames d = (case d of None \<Rightarrow> [] | Some b \<Rightarrow> [Inr (DataFrame b)])"

fun frames :: "('t, 'e, 'x) proxy_body \<Rightarrow> ('t, 'e, 'x) frame_result list" where
  "frames BodyEmpty = []"
| "frames (BodyOnce d) = held_frames d"
| "frames (BodyStream s) = map (map_sum BodyErrorHttp id) (readies s)"
| "frames (BodyPrefixed d s) = held_frames d @ map (map_sum BodyErrorHttp id) (readies s)"
| "frames (BodyHttp3 d rb) = held_frames d @ rb_frames rb"

text \<open>Its content: bytes, trailers and failures in order, however the bytes are cut into frames.\<close>

datatype ('t, 'e, 'x) piece = Octet char | Trailers 't | Failed "('e, 'x) body_error"

fun frame_pieces :: "('t, 'e, 'x) frame_result \<Rightarrow> ('t, 'e, 'x) piece list" where
  "frame_pieces (Inr (DataFrame d)) = map Octet d"
| "frame_pieces (Inr (TrailerFrame t)) = [Trailers t]"
| "frame_pieces (Inl e) = [Failed e]"

definition content :: "('t, 'e, 'x) proxy_body \<Rightarrow> ('t, 'e, 'x) piece list" where
  "content b = concat (map frame_pieces (frames b))"

text \<open>A poll that is ready takes the first of the remaining results, one that is pending none.\<close>

abbreviation takes_first :: "'a list \<Rightarrow> 'a option \<Rightarrow> 'a list \<Rightarrow> bool" where
  "takes_first l r l' \<equiv> (case l of [] \<Rightarrow> r = None \<and> l' = [] | f # fs \<Rightarrow> r = Some f \<and> l' = fs)"

lemma poll_stream_step:
  "case poll_stream s of (Pending, s') \<Rightarrow> readies s' = readies s
    | (Ready r, s') \<Rightarrow> takes_first (readies s) r (readies s')"
  by (cases s rule: poll_stream.cases) auto

lemma rb_poll_step:
  "case rb_poll_frame rb of (Pending, rb') \<Rightarrow> rb_frames rb' = (rb_frames rb :: ('t, 'e, 'x) frame_result list)
    | (Ready r, rb') \<Rightarrow> takes_first (rb_frames rb :: ('t, 'e, 'x) frame_result list) r (rb_frames rb')"
  by (cases "rb_stream rb" rule: recv_frames.cases)
     (auto simp: rb_poll_frame_def rb_deliver_def rb_frames_def Let_def split: option.splits sum.splits)

lemma poll_frame_step:
  fixes b :: "('t, 'e, 'x) proxy_body"
  shows "case poll_frame b of (Pending, b') \<Rightarrow> frames b' = frames b
    | (Ready r, b') \<Rightarrow> takes_first (frames b) r (frames b')"
proof (cases b rule: poll_frame.cases)
  case (3 s)
  with poll_stream_step[of s] show ?thesis
    by (auto simp: hyper_frame_def Let_def split: prod.splits poll.splits list.splits)
next
  case (5 s)
  with poll_stream_step[of s] show ?thesis
    by (auto simp: hyper_frame_def Let_def held_frames_def split: prod.splits poll.splits list.splits)
next
  case (7 rb)
  with rb_poll_step[of rb, where 't = 't and 'e = 'e] show ?thesis
    by (auto simp: Let_def held_frames_def split: prod.splits poll.splits list.splits)
qed (auto simp: held_frames_def split: option.splits)

lemma await_frame_frames:
  "await_frame b = (r, b') \<Longrightarrow> takes_first (frames b) r (frames b')"
proof (induction b rule: await_frame.induct)
  case (1 b)
  show ?case
  proof (cases "poll_frame b")
    case (Pair p b1)
    with 1 poll_frame_step[of b] show ?thesis
      by (cases p) (auto simp: await_frame.simps[of b])
  qed
qed

lemma content_prefixed [simp]: "content (body_prefixed p b) = map Octet p @ content b"
  by (cases b)
     (auto simp: body_prefixed_def content_def body_once_def held_frames_def join_bytes_def split: option.splits)

lemma content_once [simp]: "content (body_once d) = map Octet d"
  by (simp add: body_once_def content_def held_frames_def)

lemma already_ended_frames:
  assumes "rb_queued rb = None" "\<not> rb_ended rb"
  shows "already_ended rb = (e, rb') \<Longrightarrow> rb_frames rb' = (rb_frames rb :: ('t, 'e, 'x) frame_result list) \<and> (e \<longrightarrow> rb_frames rb = ([] :: ('t, 'e, 'x) frame_result list))"
  using assms
  by (cases "rb_stream rb" rule: recv_frames.cases) (auto simp: already_ended_def rb_frames_def)

section \<open>Buffering a body for its copy\<close>

datatype ('t, 'e, 'x) buffered = Complete bytes | TooLarge bytes "('t, 'e, 'x) proxy_body"

function buffer_loop :: "nat \<Rightarrow> bytes \<Rightarrow> ('t, 'e, 'x) proxy_body \<Rightarrow> ('t, 'e, 'x) buffered" where
  "buffer_loop cap acc b =
     (case await_frame b of
        (None, _) \<Rightarrow> Complete acc
      | (Some (Inl _), b') \<Rightarrow> TooLarge acc b'
      | (Some (Inr (TrailerFrame _)), b') \<Rightarrow> TooLarge acc b'
      | (Some (Inr (DataFrame d)), b') \<Rightarrow>
          if length (acc @ d) > cap then TooLarge (acc @ d) b' else buffer_loop cap (acc @ d) b')"
  by pat_completeness auto
termination
  by (relation "measure (\<lambda>(_, _, b). length (frames b))")
     (auto dest!: await_frame_frames[OF sym] split: list.splits)

declare buffer_loop.simps [simp del]

definition mirror_buffer :: "('t, 'e, 'x) proxy_body \<Rightarrow> nat \<Rightarrow> ('t, 'e, 'x) buffered" where
  "mirror_buffer b cap = buffer_loop cap [] b"

text \<open>
  The part of \<open>mirror_request\<close> that splits the body: the body handed to the primary backend, the
  copy if one is made, and whether \<open>record_mirror_skipped\<close> was called.
\<close>

definition mirror_bodies ::
    "(('t, 'e) incoming \<Rightarrow> hint) \<Rightarrow> nat \<Rightarrow> ('t, 'e, 'x) proxy_body \<Rightarrow> ('t, 'e, 'x) proxy_body \<times> bytes option \<times> bool" where
  "mirror_bodies hyper_hint max_body b =
     (if is_known_empty hyper_hint b then (b, Some [], False)
      else case mirror_buffer b max_body of
             Complete bs \<Rightarrow> (body_once bs, Some bs, False)
           | TooLarge prefix rest \<Rightarrow> (body_prefixed prefix rest, None, True))"

abbreviation data_frame :: "bytes \<Rightarrow> ('t, 'e, 'x) frame_result" where
  "data_frame d \<equiv> Inr (DataFrame d)"

lemma buffer_loop_steps:
  "frames b = [] \<Longrightarrow> buffer_loop cap acc b = Complete acc"
  "frames b = data_frame d # fs \<Longrightarrow> \<exists>b'. frames b' = fs \<and>
     buffer_loop cap acc b = (if length (acc @ d) > cap then TooLarge (acc @ d) b' else buffer_loop cap (acc @ d) b')"
  "frames b = Inr (TrailerFrame t) # fs \<Longrightarrow> \<exists>b'. frames b' = fs \<and> buffer_loop cap acc b = TooLarge acc b'"
  "frames b = Inl e # fs \<Longrightarrow> \<exists>b'. frames b' = fs \<and> buffer_loop cap acc b = TooLarge acc b'"
  using await_frame_frames[of b] by (cases "await_frame b"; force simp: buffer_loop.simps[of cap acc b])+

text \<open>Data frames within the cap are taken, then the loop goes on behind them.\<close>

lemma buffer_loop_data:
  assumes "frames b = map data_frame ds @ fs" "length acc + length (concat ds) \<le> cap"
  shows "\<exists>b'. frames b' = fs \<and> buffer_loop cap acc b = buffer_loop cap (acc @ concat ds) b'"
  using assms
proof (induction ds arbitrary: acc b)
  case (Cons d ds)
  from buffer_loop_steps(2)[of b d "map data_frame ds @ fs" cap acc] Cons.prems
  obtain b1 where b1: "frames b1 = map data_frame ds @ fs" "buffer_loop cap acc b = buffer_loop cap (acc @ d) b1"
    by auto
  from Cons.IH[OF b1(1), of "acc @ d"] Cons.prems b1(2) show ?case by auto
qed auto

lemma buffer_loop_over:
  assumes "frames b = map data_frame ds" "length acc \<le> cap" "length acc + length (concat ds) > cap"
  shows "\<exists>p b'. buffer_loop cap acc b = TooLarge p b' \<and> map Octet p @ content b' = map Octet acc @ content b"
  using assms
proof (induction ds arbitrary: acc b)
  case (Cons d ds)
  from buffer_loop_steps(2)[of b d "map data_frame ds" cap acc] Cons.prems
  obtain b1 where b1: "frames b1 = map data_frame ds"
    "buffer_loop cap acc b = (if length (acc @ d) > cap then TooLarge (acc @ d) b1 else buffer_loop cap (acc @ d) b1)"
    by auto
  have c: "content b = map Octet d @ content b1" using Cons.prems b1 by (simp add: content_def)
  show ?case
  proof (cases "length (acc @ d) > cap")
    case False
    with Cons.IH[OF b1(1), of "acc @ d"] Cons.prems b1(2) c show ?thesis by auto
  qed (use b1 c in auto)
qed auto

lemma frames_known: "frames b = map data_frame ds @ x # fs \<Longrightarrow> \<not> (\<exists>d. x = data_frame d) \<Longrightarrow>
    length acc + length (concat ds) \<le> cap \<Longrightarrow>
    \<exists>b'. frames b' = fs \<and> buffer_loop cap acc b = TooLarge (acc @ concat ds) b'"
proof -
  assume f: "frames b = map data_frame ds @ x # fs" and x: "\<not> (\<exists>d. x = data_frame d)"
    and cap: "length acc + length (concat ds) \<le> cap"
  from buffer_loop_data[OF f cap] obtain b1
    where b1: "frames b1 = x # fs" "buffer_loop cap acc b = buffer_loop cap (acc @ concat ds) b1" by blast
  show ?thesis
  proof (cases x rule: frame_pieces.cases)
    case 1 with x show ?thesis by blast
  next
    case 2 with buffer_loop_steps(3)[of b1 _ fs cap "acc @ concat ds"] b1 show ?thesis by auto
  next
    case 3 with buffer_loop_steps(4)[of b1 _ fs cap "acc @ concat ds"] b1 show ?thesis by auto
  qed
qed

lemma pieces_of_data [simp]:
  "concat (map (frame_pieces \<circ> (\<lambda>d. data_frame d)) ds) = map Octet (concat ds)"
  by (induction ds) auto

lemma content_map_Octet_inj [simp]: "map Octet a = map Octet b \<longleftrightarrow> a = b"
  by (simp add: inj_map_eq_map inj_def)

lemma mirror_buffer_data:
  assumes "frames b = map data_frame ds"
  shows "case mirror_buffer b cap of
           Complete bs \<Rightarrow> length (concat ds) \<le> cap \<and> bs = concat ds
         | TooLarge p rest \<Rightarrow> length (concat ds) > cap \<and> map Octet p @ content rest = content b"
proof (cases "length (concat ds) \<le> cap")
  case True
  with buffer_loop_data[of b ds "[]" "[]" cap] assms
  have "mirror_buffer b cap = Complete (concat ds)"
    by (auto simp: mirror_buffer_def buffer_loop_steps(1))
  with True show ?thesis by simp
next
  case False
  with buffer_loop_over[of b ds "[]" cap] assms show ?thesis by (auto simp: mirror_buffer_def)
qed

lemma mirror_drops:
  assumes "frames b = map data_frame ds @ x # fs" "\<not> (\<exists>d. x = data_frame d)"
    and "length (concat ds) \<le> cap" "\<not> is_known_empty hyper_hint b"
  obtains rest where "mirror_bodies hyper_hint cap b = (rest, None, True)"
    "content rest = map Octet (concat ds) @ concat (map frame_pieces fs)"
proof -
  from frames_known[OF assms(1,2), of "[]" cap] assms(3) obtain b'
    where b': "frames b' = fs" "mirror_buffer b cap = TooLarge (concat ds) b'"
    by (auto simp: mirror_buffer_def)
  show ?thesis
    by (rule that[of "body_prefixed (concat ds) b'"])
       (use b' assms(4) in \<open>auto simp: mirror_bodies_def, simp add: content_def\<close>)
qed

lemma request_body_undeclared:
  assumes "recv_frames recv \<noteq> ([] :: ('t, 'e, 'x) frame_result list)"
  obtains rb where "request_body recv None = (BodyHttp3 None rb :: ('t, 'e, 'x) proxy_body)"
    "rb_frames rb = (recv_frames recv :: ('t, 'e, 'x) frame_result list)" "\<not> rb_known_empty rb"
proof -
  obtain e rb where ae: "already_ended (request_body_new recv None) = (e, rb)" by (cases "already_ended (request_body_new recv None :: 'x request_body_state)")
  have new: "rb_queued (request_body_new recv None) = None" "\<not> rb_ended (request_body_new recv None)"
    "rb_frames (request_body_new recv None) = (recv_frames recv :: ('t, 'e, 'x) frame_result list)"
    by (simp_all add: request_body_new_def rb_frames_def)
  note fr = already_ended_frames[OF new(1,2) ae, where 't = 't and 'e = 'e]
  have "\<not> e" using fr new(3) assms by auto
  moreover from this ae have "\<not> rb_known_empty rb"
    by (cases recv rule: recv_frames.cases) (auto simp: already_ended_def request_body_new_def rb_known_empty_def)
  ultimately show ?thesis
    by (intro that[of rb]) (use ae fr new(3) in \<open>auto simp: request_body_def body_http3_def\<close>)
qed

text \<open>Reading part of a body and putting it back keeps its size hint true of the whole body.\<close>

definition hint_holds :: "hint \<Rightarrow> nat \<Rightarrow> bool" where
  "hint_holds h n \<longleftrightarrow> unat (fst h) \<le> n \<and> (case snd h of None \<Rightarrow> True | Some u \<Rightarrow> n \<le> unat u)"

lemma size_hint_behind:
  assumes "hint_holds h n" "n + length d < 2 ^ 64"
  shows "hint_holds (hint_behind (Some d) h) (n + length d)"
  using assms
  by (auto simp: hint_holds_def hint_behind_def held_len_def unat_saturating_add unat_of_nat take_bit_nat_eq_self split: option.splits)

lemma request_body_hint_counts_down:
  assumes "rb_poll_frame rb = (Ready (Some (Inr (DataFrame d))), rb')" "rb_remaining rb = Some n"
    and "length d \<le> unat n"
  shows "\<exists>n'. rb_remaining rb' = Some n' \<and> unat n' + length d = unat n"
proof -
  have "unat n < 2 ^ LENGTH(64)" by (rule unsigned_less)
  with assms(3) have "length d < 2 ^ 64" by simp
  then have "unat (of_nat (length d) :: u64) = length d" by (simp add: unat_of_nat take_bit_nat_eq_self)
  with assms show ?thesis
    by (auto simp: rb_poll_frame_def rb_deliver_def Let_def unat_saturating_sub
      split: option.splits poll.splits prod.splits sum.splits if_splits)
qed

section \<open>Properties\<close>

text \<open>
  C24. Mirroring a request whose body consists of data changes nothing for the primary backend: it
  is sent the same bytes in the same order. The copy carries the whole body exactly when that is
  within the route's cap; a body above it is not copied and is counted as skipped. (A body that
  reports itself empty is assumed to be empty.)
\<close>

theorem mirror_keeps_body:
  assumes "frames b = map data_frame ds"
    and "is_known_empty hyper_hint b \<Longrightarrow> concat ds = []"
    and "mirror_bodies hyper_hint max_body b = (primary, copied, skipped)"
  shows "content primary = content b
    \<and> copied = (if length (concat ds) \<le> max_body then Some (concat ds) else None)
    \<and> (skipped \<longleftrightarrow> max_body < length (concat ds))"
proof (cases "is_known_empty hyper_hint b")
  case True
  note empty = assms(2)[OF True]
  from True assms(3) show ?thesis by (auto simp: mirror_bodies_def empty simp del: concat_eq_Nil_conv)
next
  case False
  have "content b = map Octet (concat ds)" using assms(1) by (simp add: content_def)
  with False mirror_buffer_data[OF assms(1), of max_body] assms(3) show ?thesis
    by (auto simp: mirror_bodies_def split: buffered.splits)
qed

text \<open>
  Mirroring loses the first item of a body that is not data, when it comes within the cap: a
  request whose data is followed by trailers reaches the primary backend without them.
\<close>

theorem mirror_drops_trailers:
  assumes "frames b = map data_frame ds @ Inr (TrailerFrame t) # fs"
    and "length (concat ds) \<le> max_body" "\<not> is_known_empty hyper_hint b"
  shows "content b = map Octet (concat ds) @ Trailers t # concat (map frame_pieces fs)"
    and "content (fst (mirror_bodies hyper_hint max_body b)) = map Octet (concat ds) @ concat (map frame_pieces fs)"
proof -
  show "content b = map Octet (concat ds) @ Trailers t # concat (map frame_pieces fs)"
    using assms(1) by (simp add: content_def)
  show "content (fst (mirror_bodies hyper_hint max_body b)) = map Octet (concat ds) @ concat (map frame_pieces fs)"
    by (rule mirror_drops[OF assms(1) _ assms(2,3)]) auto
qed

text \<open>
  An HTTP/3 upload of undeclared length that fails after some chunks is a failed body; on a
  route with a mirror the primary backend is given, once those chunks fit the cap, a body that is
  exactly the chunks and then ends cleanly, as a complete request would.
\<close>

theorem mirror_hides_failed_upload:
  fixes b :: "('t, 'e, 'x) proxy_body"
  assumes "recv_frames recv = (map data_frame ds @ [Inl (BodyErrorHttp3 e)] :: ('t, 'e, 'x) frame_result list)"
    and "b = request_body recv None"
    and "length (concat ds) \<le> max_body"
  shows "content b = map Octet (concat ds) @ [Failed (BodyErrorHttp3 e)]
    \<and> content (fst (mirror_bodies hyper_hint max_body b)) = map Octet (concat ds)"
proof -
  have "recv_frames recv \<noteq> ([] :: ('t, 'e, 'x) frame_result list)" using assms(1) by simp
  then obtain rb where rb: "b = BodyHttp3 None rb" "\<not> rb_known_empty rb"
    "rb_frames rb = (recv_frames recv :: ('t, 'e, 'x) frame_result list)"
    using request_body_undeclared assms(2) by metis
  then have f: "frames b = map data_frame ds @ [Inl (BodyErrorHttp3 e)]"
    using assms(1) by (simp add: held_frames_def)
  then have "content b = map Octet (concat ds) @ [Failed (BodyErrorHttp3 e)]"
    by (simp add: content_def)
  moreover have "content (fst (mirror_bodies hyper_hint max_body b)) = map Octet (concat ds)"
    by (rule mirror_drops[where hyper_hint = hyper_hint, OF f _ assms(3)]) (use rb in auto)
  ultimately show ?thesis ..
qed

section \<open>Witnesses\<close>

text \<open>An upload of two data frames with a pending poll between them, and one that ends in trailers.\<close>

definition sample_upload :: "(unit, unit, unit) proxy_body" where
  "sample_upload = BodyStream [Ready (Inr (DataFrame ''ab'')), Pending, Ready (Inr (DataFrame ''c''))]"

definition sample_trailed :: "(unit, unit, unit) proxy_body" where
  "sample_trailed = BodyStream [Ready (Inr (DataFrame ''ab'')), Ready (Inr (TrailerFrame ()))]"

lemma mirror_keeps_body_witness:
  "content (fst (mirror_bodies (\<lambda>_. (0, None)) 8 sample_upload)) = content sample_upload
    \<and> fst (snd (mirror_bodies (\<lambda>_. (0, None)) 8 sample_upload)) = Some ''abc''
    \<and> \<not> snd (snd (mirror_bodies (\<lambda>_. (0, None)) 8 sample_upload))"
proof -
  have "frames sample_upload = map data_frame [''ab'', ''c'']"
    and "\<not> is_known_empty (\<lambda>_. (0, None)) sample_upload" by (simp_all add: sample_upload_def hint_exact_def)
  from mirror_keeps_body[OF this(1), of "\<lambda>_. (0, None)" 8] this(2) show ?thesis
    by (cases "mirror_bodies (\<lambda>_. (0, None)) 8 sample_upload") force
qed

lemma mirror_drops_trailers_witness:
  "content sample_trailed = [Octet CHR ''a'', Octet CHR ''b'', Trailers ()]
    \<and> content (fst (mirror_bodies (\<lambda>_. (0, None)) 8 sample_trailed)) = [Octet CHR ''a'', Octet CHR ''b'']"
  using mirror_drops_trailers[of sample_trailed "[''ab'']" "()" "[]" 8 "\<lambda>_. (0, None)"]
  by (simp add: sample_trailed_def hint_exact_def)

lemma mirror_hides_failed_upload_witness:
  "content (request_body [Pending, Ready (Inr ''ab''), Ready (Inl ())] None :: (unit, unit, unit) proxy_body)
      = [Octet CHR ''a'', Octet CHR ''b'', Failed (BodyErrorHttp3 ())]
    \<and> content (fst (mirror_bodies (\<lambda>_. (0, None)) 8
         (request_body [Pending, Ready (Inr ''ab''), Ready (Inl ())] None :: (unit, unit, unit) proxy_body)))
      = [Octet CHR ''a'', Octet CHR ''b'']"
proof -
  let ?recv = "[Pending, Ready (Inr ''ab''), Ready (Inl ())] :: unit recv_stream"
  have f: "recv_frames ?recv = (map data_frame [''ab''] @ [Inl (BodyErrorHttp3 ())] :: (unit, unit, unit) frame_result list)"
    and cap: "length (concat [''ab'']) \<le> 8" by simp_all
  from mirror_hides_failed_upload[OF f refl cap, of "\<lambda>_. (0, None)"]
  show ?thesis by simp
qed

end
