(* ===== verification/Metrics.thy ===== *)
theory Metrics
  imports F64
begin

text \<open>
  The data plane's counters and their Prometheus text: \<open>crates/ramjet-proxy/src/metrics.rs\<close> (one set
  of atomics shared by every worker of the hyper engine) and \<open>crates/ramjet-engine/src/metrics.rs\<close>
  (one block per core of the uring engine, summed at scrape time with the counters of the other
  side of the process). An atomic counter is its value; adding to it and summing wrap at 64 bits.
  A duration is its number of nanoseconds.
\<close>

text \<open>An \<open>i64\<close> is its two's complement.\<close>

type_synonym i64 = "64 word"

section \<open>The histogram\<close>

fun f64_add :: "f64 \<Rightarrow> f64 \<Rightarrow> f64" where
  "f64_add NaN _ = NaN"
| "f64_add _ NaN = NaN"
| "f64_add (Inf s) (Inf t) = (if s = t then Inf s else NaN)"
| "f64_add (Inf s) (Fin _ _) = Inf s"
| "f64_add (Fin _ _) (Inf t) = Inf t"
| "f64_add (Fin s p) (Fin t q) =
     (let v = signed s p + signed t q in rnd (v < 0 \<or> v = 0 \<and> s \<and> t) \<bar>v\<bar>)"

definition as_secs_f64 :: "nat \<Rightarrow> f64" where
  "as_secs_f64 nanos =
     f64_add (f64_of_u64 (of_nat (nanos div 1000000000)))
       (f64_div (f64_of_u64 (of_nat (nanos mod 1000000000))) (f64_of_u64 1000000000))"

text \<open>The bounds, each with the text \<open>Display\<close> gives it.\<close>

definition BUCKETS :: "(f64 \<times> string) list" where
  "BUCKETS =
     [(rnd False (1 / 1000), ''0.001''), (rnd False (25 / 10000), ''0.0025''), (rnd False (5 / 1000), ''0.005''),
      (rnd False (1 / 100), ''0.01''), (rnd False (25 / 1000), ''0.025''), (rnd False (5 / 100), ''0.05''),
      (rnd False (1 / 10), ''0.1''), (rnd False (25 / 100), ''0.25''), (rnd False (5 / 10), ''0.5''),
      (Fin False 1, ''1''), (Fin False 5, ''5''), (Fin False 10, ''10'')]"

definition CLASSES :: "string list" where
  "CLASSES = [''1xx'', ''2xx'', ''3xx'', ''4xx'', ''5xx'', ''other'']"

definition class_index :: "u16 \<Rightarrow> nat" where
  "class_index status =
     (let c = unat status div 100
      in if c = 1 then 0 else if c = 2 then 1 else if c = 3 then 2 else if c = 4 then 3 else if c = 5 then 4 else 5)"

definition bump :: "nat \<Rightarrow> u64 list \<Rightarrow> u64 list" where
  "bump i xs = (if i < length xs then xs[i := xs ! i + 1] else xs)"

definition bucket_of :: "nat \<Rightarrow> nat option" where
  "bucket_of nanos = position (\<lambda>b. f64_le (as_secs_f64 nanos) (fst b)) BUCKETS"

definition clamp_nanos :: "nat \<Rightarrow> u64" where
  "clamp_nanos nanos = of_nat (min nanos (2 ^ 64 - 1))"

record histogram =
  hi_buckets :: "u64 list"
  hi_sum_nanos :: u64
  hi_count :: u64

definition observe :: "nat \<Rightarrow> histogram \<Rightarrow> histogram" where
  "observe nanos h =
     (let h1 = (case bucket_of nanos of
                  Some i \<Rightarrow> h\<lparr> hi_buckets := bump i (hi_buckets h) \<rparr>
                | None \<Rightarrow> h)
      in h1\<lparr> hi_sum_nanos := hi_sum_nanos h1 + clamp_nanos nanos, hi_count := hi_count h1 + 1 \<rparr>)"

section \<open>The hyper engine's series\<close>

record metrics =
  me_requests :: "u64 list"
  me_latency :: histogram
  me_active :: i64
  me_tls_handshakes :: u64
  me_tls_handshake_failures :: u64
  me_dispatch_uring :: u64
  me_dispatch_hyper :: u64
  me_upstream_connect_failures :: u64
  me_upstream_retries :: u64
  me_upstream_timeouts :: u64
  me_route_misses :: u64
  me_h3_connections :: u64
  me_h3_requests :: u64
  me_h3_handshake_failures :: u64
  me_mirrored :: u64
  me_mirror_dropped :: u64
  me_mirror_skipped :: u64
  me_mirror_failures :: u64
  me_unsupported_h2c :: u64
  me_unsupported_grpc :: u64

definition metrics_default :: metrics where
  "metrics_default =
     \<lparr> me_requests = replicate 6 0, me_latency = \<lparr> hi_buckets = replicate 12 0, hi_sum_nanos = 0, hi_count = 0 \<rparr>, me_active = 0,
       me_tls_handshakes = 0, me_tls_handshake_failures = 0, me_dispatch_uring = 0, me_dispatch_hyper = 0, me_upstream_connect_failures = 0, me_upstream_retries = 0, me_upstream_timeouts = 0, me_route_misses = 0, me_h3_connections = 0, me_h3_requests = 0, me_h3_handshake_failures = 0, me_mirrored = 0, me_mirror_dropped = 0, me_mirror_skipped = 0, me_mirror_failures = 0, me_unsupported_h2c = 0, me_unsupported_grpc = 0 \<rparr>"

definition metrics_response :: "u16 \<Rightarrow> metrics \<Rightarrow> metrics" where
  "metrics_response status m = m\<lparr> me_requests := bump (class_index status) (me_requests m) \<rparr>"

definition metrics_latency :: "nat \<Rightarrow> metrics \<Rightarrow> metrics" where
  "metrics_latency nanos m = m\<lparr> me_latency := observe nanos (me_latency m) \<rparr>"

definition connection_opened :: "metrics \<Rightarrow> metrics" where
  "connection_opened m = m\<lparr> me_active := me_active m + 1 \<rparr>"

definition connection_guard_drop :: "metrics \<Rightarrow> metrics" where
  "connection_guard_drop m = m\<lparr> me_active := me_active m - 1 \<rparr>"

definition record_tls_handshake :: "metrics \<Rightarrow> metrics" where
  "record_tls_handshake m = m\<lparr> me_tls_handshakes := me_tls_handshakes m + 1 \<rparr>"

definition record_tls_handshake_failure :: "metrics \<Rightarrow> metrics" where
  "record_tls_handshake_failure m = m\<lparr> me_tls_handshake_failures := me_tls_handshake_failures m + 1 \<rparr>"

definition record_connect_failure :: "metrics \<Rightarrow> metrics" where
  "record_connect_failure m = m\<lparr> me_upstream_connect_failures := me_upstream_connect_failures m + 1 \<rparr>"

definition record_retry :: "metrics \<Rightarrow> metrics" where
  "record_retry m = m\<lparr> me_upstream_retries := me_upstream_retries m + 1 \<rparr>"

definition record_upstream_timeout :: "metrics \<Rightarrow> metrics" where
  "record_upstream_timeout m = m\<lparr> me_upstream_timeouts := me_upstream_timeouts m + 1 \<rparr>"

definition record_route_miss :: "metrics \<Rightarrow> metrics" where
  "record_route_miss m = m\<lparr> me_route_misses := me_route_misses m + 1 \<rparr>"

definition record_h3_connection :: "metrics \<Rightarrow> metrics" where
  "record_h3_connection m = m\<lparr> me_h3_connections := me_h3_connections m + 1 \<rparr>"

definition record_h3_request :: "metrics \<Rightarrow> metrics" where
  "record_h3_request m = m\<lparr> me_h3_requests := me_h3_requests m + 1 \<rparr>"

definition record_h3_handshake_failure :: "metrics \<Rightarrow> metrics" where
  "record_h3_handshake_failure m = m\<lparr> me_h3_handshake_failures := me_h3_handshake_failures m + 1 \<rparr>"

definition record_mirrored :: "metrics \<Rightarrow> metrics" where
  "record_mirrored m = m\<lparr> me_mirrored := me_mirrored m + 1 \<rparr>"

definition record_mirror_dropped :: "metrics \<Rightarrow> metrics" where
  "record_mirror_dropped m = m\<lparr> me_mirror_dropped := me_mirror_dropped m + 1 \<rparr>"

definition record_mirror_skipped :: "metrics \<Rightarrow> metrics" where
  "record_mirror_skipped m = m\<lparr> me_mirror_skipped := me_mirror_skipped m + 1 \<rparr>"

definition record_mirror_failure :: "metrics \<Rightarrow> metrics" where
  "record_mirror_failure m = m\<lparr> me_mirror_failures := me_mirror_failures m + 1 \<rparr>"

definition record_unsupported_grpc :: "metrics \<Rightarrow> metrics" where
  "record_unsupported_grpc m = m\<lparr> me_unsupported_grpc := me_unsupported_grpc m + 1 \<rparr>"

text \<open>The text a series is written as.\<close>

definition writeln :: "string \<Rightarrow> string" where
  "writeln l = l @ [CHR 0x0A]"

definition show_i64 :: "i64 \<Rightarrow> string" where
  "show_i64 w = show_int (sint w)"

definition gauge :: "string \<Rightarrow> string \<Rightarrow> i64 \<Rightarrow> string" where
  "gauge name help v =
     writeln (''# HELP '' @ name @ '' '' @ help) @ writeln (''# TYPE '' @ name @ '' gauge'')
       @ writeln (name @ '' '' @ show_i64 v)"

definition counter_series :: "string \<times> string \<times> u64 \<Rightarrow> string" where
  "counter_series s =
     (case s of (name, help, v) \<Rightarrow>
        writeln (''# HELP '' @ name @ '' '' @ help) @ writeln (''# TYPE '' @ name @ '' counter'')
          @ writeln (name @ '' '' @ show_nat (unat v)))"

definition quoted_label :: "string \<Rightarrow> string \<Rightarrow> string" where
  "quoted_label key v = ''{'' @ key @ ''='' @ [CHR 0x22] @ v @ [CHR 0x22] @ ''}''"

fun bucket_lines :: "string \<Rightarrow> u64 \<Rightarrow> (f64 \<times> string) list \<Rightarrow> u64 list \<Rightarrow> string" where
  "bucket_lines name cumulative [] vs = []"
| "bucket_lines name cumulative ((_, bound) # bs) vs =
     (let c = cumulative + (case vs of [] \<Rightarrow> 0 | v # _ \<Rightarrow> v)
      in writeln (name @ ''_bucket'' @ quoted_label ''le'' bound @ '' '' @ show_nat (unat c))
           @ bucket_lines name c bs (case vs of [] \<Rightarrow> [] | _ # r \<Rightarrow> r))"

definition nanos_text :: "u64 \<Rightarrow> string" where
  "nanos_text nanos = format_fixed 6 (f64_div (f64_of_u64 nanos) (f64_of_u64 1000000000))"

definition render_histogram :: "string \<Rightarrow> histogram \<Rightarrow> string" where
  "render_histogram name h =
     bucket_lines name 0 BUCKETS (hi_buckets h)
       @ writeln (name @ ''_bucket'' @ quoted_label ''le'' ''+Inf'' @ '' '' @ show_nat (unat (hi_count h)))
       @ writeln (name @ ''_sum '' @ nanos_text (hi_sum_nanos h))
       @ writeln (name @ ''_count '' @ show_nat (unat (hi_count h)))"

definition class_lines :: "(nat \<Rightarrow> u64) \<Rightarrow> string" where
  "class_lines value_at =
     concat (map (\<lambda>(i, class). writeln (''ramjet_requests_total'' @ quoted_label ''code'' class @ '' '' @ show_nat (unat (value_at i))))
       (enumerate 0 CLASSES))"

definition metrics_series :: "metrics \<Rightarrow> (string \<times> string \<times> u64) list" where
  "metrics_series m = [
       (''ramjet_tls_handshakes_total'', ''TLS handshakes completed.'', me_tls_handshakes m),
       (''ramjet_tls_handshake_failures_total'', ''TLS handshakes that failed.'', me_tls_handshake_failures m),
       (''ramjet_dispatch_uring_total'', ''Connections the uring engine kept after reading what the client offered.'', me_dispatch_uring m),
       (''ramjet_dispatch_hyper_total'', ''Connections handed to the hyper engine because the client asked for HTTP/2.'', me_dispatch_hyper m),
       (''ramjet_upstream_connect_failures_total'', ''Failures to connect to an upstream endpoint.'', me_upstream_connect_failures m),
       (''ramjet_upstream_retries_total'', ''Requests re-dispatched to a different endpoint.'', me_upstream_retries m),
       (''ramjet_upstream_timeouts_total'', ''Upstreams that did not send headers before the deadline.'', me_upstream_timeouts m),
       (''ramjet_route_misses_total'', ''Requests that matched no route and no default backend.'', me_route_misses m),
       (''ramjet_h3_connections_total'', ''HTTP/3 connections established on the QUIC listener.'', me_h3_connections m),
       (''ramjet_h3_requests_total'', ''Requests that arrived over HTTP/3.'', me_h3_requests m),
       (''ramjet_h3_handshake_failures_total'', ''QUIC connections that never became usable HTTP/3 connections.'', me_h3_handshake_failures m),
       (''ramjet_mirrored_total'', ''Requests copied to a mirror backend, which accepted the copy.'', me_mirrored m),
       (''ramjet_mirror_dropped_total'', (''Copies discarded because a serving runtime'' @ [CHR 0x27] @ ''s mirror queue was full.''), me_mirror_dropped m),
       (''ramjet_mirror_skipped_total'', ''Copies not attempted because the request body exceeded --mirror-max-body.'', me_mirror_skipped m),
       (''ramjet_mirror_failures_total'', ''Copies a mirror backend refused, failed, or did not answer in time.'', me_mirror_failures m),
       (''ramjet_engine_unsupported_h2c_total'', ''Requests refused because the backend needs an HTTP/2 upstream this engine does not dial.'', me_unsupported_h2c m),
       (''ramjet_engine_unsupported_grpc_total'', ''gRPC requests refused because the backend is not annotated backend-protocol: GRPC.'', me_unsupported_grpc m)]"

definition render_prometheus :: "metrics \<Rightarrow> u64 \<Rightarrow> bool \<Rightarrow> string" where
  "render_prometheus m generation pinned =
     writeln ''# HELP ramjet_requests_total Responses served, by status class.''
       @ writeln ''# TYPE ramjet_requests_total counter''
       @ class_lines (\<lambda>i. opt_or 0 (get_at (me_requests m) i))
       @ writeln ''# HELP ramjet_upstream_latency_seconds Time from upstream dispatch to response headers.''
       @ writeln ''# TYPE ramjet_upstream_latency_seconds histogram''
       @ render_histogram ''ramjet_upstream_latency_seconds'' (me_latency m)
       @ gauge ''ramjet_active_connections'' ''Downstream connections currently being served.'' (me_active m)
       @ gauge ''ramjet_route_table_generation'' ''Generation of the currently published route table.'' (ucast generation)
       @ gauge ''ramjet_pinned'' ''1 when a rollback is holding publication at a chosen generation.'' (if pinned then 1 else 0)
       @ concat (map counter_series (metrics_series m))"

text \<open>\<open>Totals\<close>: every series read out in one pass, for the engine that sums both sides.\<close>

record totals =
  to_requests :: "u64 list"
  to_latency_buckets :: "u64 list"
  to_latency_nanos :: u64
  to_latency_count :: u64
  to_active :: i64
  to_tls_handshakes :: u64
  to_tls_handshake_failures :: u64
  to_dispatch_uring :: u64
  to_dispatch_hyper :: u64
  to_connect_failures :: u64
  to_retries :: u64
  to_timeouts :: u64
  to_route_misses :: u64
  to_h3_connections :: u64
  to_h3_requests :: u64
  to_h3_handshake_failures :: u64
  to_mirrored :: u64
  to_mirror_dropped :: u64
  to_mirror_skipped :: u64
  to_mirror_failures :: u64
  to_unsupported_h2c :: u64
  to_unsupported_grpc :: u64

definition totals_default :: totals where
  "totals_default =
     \<lparr> to_requests = replicate 6 0, to_latency_buckets = replicate 12 0, to_latency_nanos = 0, to_latency_count = 0, to_active = 0,
       to_tls_handshakes = 0, to_tls_handshake_failures = 0, to_dispatch_uring = 0, to_dispatch_hyper = 0, to_connect_failures = 0, to_retries = 0, to_timeouts = 0, to_route_misses = 0, to_h3_connections = 0, to_h3_requests = 0, to_h3_handshake_failures = 0, to_mirrored = 0, to_mirror_dropped = 0, to_mirror_skipped = 0, to_mirror_failures = 0, to_unsupported_h2c = 0, to_unsupported_grpc = 0 \<rparr>"

text \<open>Copying one array over another stops at the shorter one.\<close>

definition zip_copy :: "u64 list \<Rightarrow> u64 list \<Rightarrow> u64 list" where
  "zip_copy into from = take (length into) from @ drop (length from) into"

definition metrics_totals :: "metrics \<Rightarrow> totals" where
  "metrics_totals m =
     \<lparr> to_requests = zip_copy (to_requests totals_default) (me_requests m),
       to_latency_buckets = zip_copy (to_latency_buckets totals_default) (hi_buckets (me_latency m)),
       to_latency_nanos = hi_sum_nanos (me_latency m), to_latency_count = hi_count (me_latency m),
       to_active = me_active m,
       to_tls_handshakes = me_tls_handshakes m,
       to_tls_handshake_failures = me_tls_handshake_failures m,
       to_dispatch_uring = me_dispatch_uring m,
       to_dispatch_hyper = me_dispatch_hyper m,
       to_connect_failures = me_upstream_connect_failures m,
       to_retries = me_upstream_retries m,
       to_timeouts = me_upstream_timeouts m,
       to_route_misses = me_route_misses m,
       to_h3_connections = me_h3_connections m,
       to_h3_requests = me_h3_requests m,
       to_h3_handshake_failures = me_h3_handshake_failures m,
       to_mirrored = me_mirrored m,
       to_mirror_dropped = me_mirror_dropped m,
       to_mirror_skipped = me_mirror_skipped m,
       to_mirror_failures = me_mirror_failures m,
       to_unsupported_h2c = me_unsupported_h2c m,
       to_unsupported_grpc = me_unsupported_grpc m \<rparr>"

section \<open>The uring engine's series\<close>

record core_metrics =
  co_requests :: "u64 list"
  co_buckets :: "u64 list"
  co_sum_nanos :: u64
  co_latency_count :: u64
  co_active :: i64
  co_tls_handshakes :: u64
  co_tls_handshake_failures :: u64
  co_dispatched_here :: u64
  co_dispatched_away :: u64
  co_connect_failures :: u64
  co_retries :: u64
  co_timeouts :: u64
  co_route_misses :: u64
  co_unsupported_h2c :: u64
  co_unsupported_grpc :: u64

definition core_default :: core_metrics where
  "core_default =
     \<lparr> co_requests = replicate 6 0, co_buckets = replicate 12 0, co_sum_nanos = 0, co_latency_count = 0, co_active = 0,
       co_tls_handshakes = 0, co_tls_handshake_failures = 0, co_dispatched_here = 0, co_dispatched_away = 0, co_connect_failures = 0, co_retries = 0, co_timeouts = 0, co_route_misses = 0, co_unsupported_h2c = 0, co_unsupported_grpc = 0 \<rparr>"

definition core_response :: "u16 \<Rightarrow> core_metrics \<Rightarrow> core_metrics" where
  "core_response status c = c\<lparr> co_requests := bump (class_index status) (co_requests c) \<rparr>"

definition core_latency :: "nat \<Rightarrow> core_metrics \<Rightarrow> core_metrics" where
  "core_latency nanos c =
     (let c1 = (case bucket_of nanos of
                  Some i \<Rightarrow> c\<lparr> co_buckets := bump i (co_buckets c) \<rparr>
                | None \<Rightarrow> c)
      in c1\<lparr> co_sum_nanos := co_sum_nanos c1 + (if nanos < 2 ^ 64 then of_nat nanos else - 1),
             co_latency_count := co_latency_count c1 + 1 \<rparr>)"

definition core_connection_opened :: "core_metrics \<Rightarrow> core_metrics" where
  "core_connection_opened c = c\<lparr> co_active := co_active c + 1 \<rparr>"

definition core_connection_closed :: "core_metrics \<Rightarrow> core_metrics" where
  "core_connection_closed c = c\<lparr> co_active := co_active c - 1 \<rparr>"

definition core_connect_failure :: "core_metrics \<Rightarrow> core_metrics" where
  "core_connect_failure c = c\<lparr> co_connect_failures := co_connect_failures c + 1 \<rparr>"

definition core_retry :: "core_metrics \<Rightarrow> core_metrics" where
  "core_retry c = c\<lparr> co_retries := co_retries c + 1 \<rparr>"

definition core_timeout :: "core_metrics \<Rightarrow> core_metrics" where
  "core_timeout c = c\<lparr> co_timeouts := co_timeouts c + 1 \<rparr>"

definition core_route_miss :: "core_metrics \<Rightarrow> core_metrics" where
  "core_route_miss c = c\<lparr> co_route_misses := co_route_misses c + 1 \<rparr>"

definition core_tls_handshake :: "core_metrics \<Rightarrow> core_metrics" where
  "core_tls_handshake c = c\<lparr> co_tls_handshakes := co_tls_handshakes c + 1 \<rparr>"

definition core_tls_handshake_failure :: "core_metrics \<Rightarrow> core_metrics" where
  "core_tls_handshake_failure c = c\<lparr> co_tls_handshake_failures := co_tls_handshake_failures c + 1 \<rparr>"

definition core_dispatched_here :: "core_metrics \<Rightarrow> core_metrics" where
  "core_dispatched_here c = c\<lparr> co_dispatched_here := co_dispatched_here c + 1 \<rparr>"

definition core_dispatched_away :: "core_metrics \<Rightarrow> core_metrics" where
  "core_dispatched_away c = c\<lparr> co_dispatched_away := co_dispatched_away c + 1 \<rparr>"

definition core_unsupported_h2c :: "core_metrics \<Rightarrow> core_metrics" where
  "core_unsupported_h2c c = c\<lparr> co_unsupported_h2c := co_unsupported_h2c c + 1 \<rparr>"

definition core_unsupported_grpc :: "core_metrics \<Rightarrow> core_metrics" where
  "core_unsupported_grpc c = c\<lparr> co_unsupported_grpc := co_unsupported_grpc c + 1 \<rparr>"

record engine_metrics =
  em_cores :: "core_metrics list"
  em_peer :: "metrics option"

definition engine_metrics_new :: "nat \<Rightarrow> engine_metrics" where
  "engine_metrics_new cores = \<lparr> em_cores = replicate (max cores 1) core_default, em_peer = None \<rparr>"

definition engine_metrics_with_peer :: "nat \<Rightarrow> metrics \<Rightarrow> engine_metrics" where
  "engine_metrics_with_peer cores peer = (engine_metrics_new cores)\<lparr> em_peer := Some peer \<rparr>"

definition engine_peer :: "engine_metrics \<Rightarrow> totals" where
  "engine_peer e = (case em_peer e of None \<Rightarrow> totals_default | Some m \<Rightarrow> metrics_totals m)"

definition engine_sum :: "engine_metrics \<Rightarrow> (core_metrics \<Rightarrow> 'w::len word) \<Rightarrow> 'w word" where
  "engine_sum e pick = sum_list (map pick (em_cores e))"

definition engine_series :: "engine_metrics \<Rightarrow> (string \<times> string \<times> u64) list" where
  "engine_series e = (let p = engine_peer e in [
       (''ramjet_tls_handshakes_total'', ''TLS handshakes completed.'', engine_sum e co_tls_handshakes + to_tls_handshakes p),
       (''ramjet_tls_handshake_failures_total'', ''TLS handshakes that failed.'', engine_sum e co_tls_handshake_failures + to_tls_handshake_failures p),
       (''ramjet_dispatch_uring_total'', ''Connections the uring engine kept after reading what the client offered.'', engine_sum e co_dispatched_here + to_dispatch_uring p),
       (''ramjet_dispatch_hyper_total'', ''Connections handed to the hyper engine because the client asked for HTTP/2.'', engine_sum e co_dispatched_away + to_dispatch_hyper p),
       (''ramjet_upstream_connect_failures_total'', ''Failures to connect to an upstream endpoint.'', engine_sum e co_connect_failures + to_connect_failures p),
       (''ramjet_upstream_retries_total'', ''Requests re-dispatched to a different endpoint.'', engine_sum e co_retries + to_retries p),
       (''ramjet_upstream_timeouts_total'', ''Upstreams that did not send headers before the deadline.'', engine_sum e co_timeouts + to_timeouts p),
       (''ramjet_route_misses_total'', ''Requests that matched no route and no default backend.'', engine_sum e co_route_misses + to_route_misses p),
       (''ramjet_h3_connections_total'', ''HTTP/3 connections established on the QUIC listener.'', to_h3_connections p),
       (''ramjet_h3_requests_total'', ''Requests that arrived over HTTP/3.'', to_h3_requests p),
       (''ramjet_h3_handshake_failures_total'', ''QUIC connections that never became usable HTTP/3 connections.'', to_h3_handshake_failures p),
       (''ramjet_mirrored_total'', ''Requests copied to a mirror backend, which accepted the copy.'', to_mirrored p),
       (''ramjet_mirror_dropped_total'', (''Copies discarded because a serving runtime'' @ [CHR 0x27] @ ''s mirror queue was full.''), to_mirror_dropped p),
       (''ramjet_mirror_skipped_total'', ''Copies not attempted because the request body exceeded --mirror-max-body.'', to_mirror_skipped p),
       (''ramjet_mirror_failures_total'', ''Copies a mirror backend refused, failed, or did not answer in time.'', to_mirror_failures p),
       (''ramjet_engine_unsupported_h2c_total'', ''Requests refused because the backend needs an HTTP/2 upstream this engine does not dial.'', engine_sum e co_unsupported_h2c + to_unsupported_h2c p),
       (''ramjet_engine_unsupported_grpc_total'', ''gRPC requests refused because the backend is not annotated backend-protocol: GRPC.'', engine_sum e co_unsupported_grpc + to_unsupported_grpc p)])"

fun engine_bucket_lines :: "engine_metrics \<Rightarrow> totals \<Rightarrow> string \<Rightarrow> u64 \<Rightarrow> nat \<Rightarrow> (f64 \<times> string) list \<Rightarrow> string" where
  "engine_bucket_lines e p name cumulative i [] = []"
| "engine_bucket_lines e p name cumulative i ((_, bound) # bs) =
     (let c = cumulative + (engine_sum e (\<lambda>c. co_buckets c ! i) + to_latency_buckets p ! i)
      in writeln (name @ ''_bucket'' @ quoted_label ''le'' bound @ '' '' @ show_nat (unat c))
           @ engine_bucket_lines e p name c (i + 1) bs)"

definition engine_render_prometheus :: "engine_metrics \<Rightarrow> u64 \<Rightarrow> bool \<Rightarrow> string" where
  "engine_render_prometheus e generation pinned =
     (let p = engine_peer e; name = ''ramjet_upstream_latency_seconds'';
          total = engine_sum e co_latency_count + to_latency_count p in
     writeln ''# HELP ramjet_requests_total Responses served, by status class.''
       @ writeln ''# TYPE ramjet_requests_total counter''
       @ class_lines (\<lambda>i. engine_sum e (\<lambda>c. co_requests c ! i) + to_requests p ! i)
       @ writeln ''# HELP ramjet_upstream_latency_seconds Time from upstream dispatch to response headers.''
       @ writeln ''# TYPE ramjet_upstream_latency_seconds histogram''
       @ engine_bucket_lines e p name 0 0 BUCKETS
       @ writeln (name @ ''_bucket'' @ quoted_label ''le'' ''+Inf'' @ '' '' @ show_nat (unat total))
       @ writeln (name @ ''_sum '' @ nanos_text (engine_sum e co_sum_nanos + to_latency_nanos p))
       @ writeln (name @ ''_count '' @ show_nat (unat total))
       @ gauge ''ramjet_active_connections'' ''Downstream connections currently being served.'' (engine_sum e co_active + to_active p)
       @ gauge ''ramjet_route_table_generation'' ''Generation of the currently published route table.'' (ucast generation)
       @ gauge ''ramjet_pinned'' ''1 when a rollback is holding publication at a chosen generation.'' (if pinned then 1 else 0)
       @ concat (map counter_series (engine_series e)))"

section \<open>Events\<close>

text \<open>What both engines count, and the block of one core as an index.\<close>

datatype series_event =
    EvResponse u16 | EvLatency nat | EvOpened | EvClosed | EvTlsHandshake | EvTlsFailure
  | EvConnectFailure | EvRetry | EvTimeout | EvRouteMiss | EvUnsupportedGrpc

fun metrics_event :: "series_event \<Rightarrow> metrics \<Rightarrow> metrics" where
  "metrics_event (EvResponse status) = metrics_response status"
| "metrics_event (EvLatency nanos) = metrics_latency nanos"
| "metrics_event EvOpened = connection_opened"
| "metrics_event EvClosed = connection_guard_drop"
| "metrics_event EvTlsHandshake = record_tls_handshake"
| "metrics_event EvTlsFailure = record_tls_handshake_failure"
| "metrics_event EvConnectFailure = record_connect_failure"
| "metrics_event EvRetry = record_retry"
| "metrics_event EvTimeout = record_upstream_timeout"
| "metrics_event EvRouteMiss = record_route_miss"
| "metrics_event EvUnsupportedGrpc = record_unsupported_grpc"

fun core_event :: "series_event \<Rightarrow> core_metrics \<Rightarrow> core_metrics" where
  "core_event (EvResponse status) = core_response status"
| "core_event (EvLatency nanos) = core_latency nanos"
| "core_event EvOpened = core_connection_opened"
| "core_event EvClosed = core_connection_closed"
| "core_event EvTlsHandshake = core_tls_handshake"
| "core_event EvTlsFailure = core_tls_handshake_failure"
| "core_event EvConnectFailure = core_connect_failure"
| "core_event EvRetry = core_retry"
| "core_event EvTimeout = core_timeout"
| "core_event EvRouteMiss = core_route_miss"
| "core_event EvUnsupportedGrpc = core_unsupported_grpc"

text \<open>\<open>core\<close> indexes the blocks; a core number past the end would panic.\<close>

definition engine_event :: "nat \<times> series_event \<Rightarrow> engine_metrics \<Rightarrow> engine_metrics" where
  "engine_event ie e =
     e\<lparr> em_cores := (em_cores e)[fst ie := core_event (snd ie) (em_cores e ! fst ie)] \<rparr>"

section \<open>Both expositions are one\<close>

definition core_shape :: "core_metrics \<Rightarrow> bool" where
  "core_shape c \<longleftrightarrow> length (co_requests c) = 6 \<and> length (co_buckets c) = 12"

definition metrics_shape :: "metrics \<Rightarrow> bool" where
  "metrics_shape m \<longleftrightarrow> length (me_requests m) = 6 \<and> length (hi_buckets (me_latency m)) = 12"

definition engine_shape :: "engine_metrics \<Rightarrow> bool" where
  "engine_shape e \<longleftrightarrow> list_all core_shape (em_cores e) \<and> (case em_peer e of None \<Rightarrow> True | Some m \<Rightarrow> metrics_shape m)"

text \<open>The engine's blocks and its peer, added up into one set of series.\<close>

definition merged :: "engine_metrics \<Rightarrow> metrics" where
  "merged e = (let p = engine_peer e in
     \<lparr> me_requests = map (\<lambda>i. engine_sum e (\<lambda>c. co_requests c ! i) + to_requests p ! i) [0..<6],
       me_latency =
         \<lparr> hi_buckets = map (\<lambda>i. engine_sum e (\<lambda>c. co_buckets c ! i) + to_latency_buckets p ! i) [0..<12],
           hi_sum_nanos = engine_sum e co_sum_nanos + to_latency_nanos p,
           hi_count = engine_sum e co_latency_count + to_latency_count p \<rparr>,
       me_active = engine_sum e co_active + to_active p,
       me_tls_handshakes = engine_sum e co_tls_handshakes + to_tls_handshakes p,
       me_tls_handshake_failures = engine_sum e co_tls_handshake_failures + to_tls_handshake_failures p,
       me_dispatch_uring = engine_sum e co_dispatched_here + to_dispatch_uring p,
       me_dispatch_hyper = engine_sum e co_dispatched_away + to_dispatch_hyper p,
       me_upstream_connect_failures = engine_sum e co_connect_failures + to_connect_failures p,
       me_upstream_retries = engine_sum e co_retries + to_retries p,
       me_upstream_timeouts = engine_sum e co_timeouts + to_timeouts p,
       me_route_misses = engine_sum e co_route_misses + to_route_misses p,
       me_h3_connections = to_h3_connections p, me_h3_requests = to_h3_requests p,
       me_h3_handshake_failures = to_h3_handshake_failures p,
       me_mirrored = to_mirrored p, me_mirror_dropped = to_mirror_dropped p,
       me_mirror_skipped = to_mirror_skipped p, me_mirror_failures = to_mirror_failures p,
       me_unsupported_h2c = engine_sum e co_unsupported_h2c + to_unsupported_h2c p,
       me_unsupported_grpc = engine_sum e co_unsupported_grpc + to_unsupported_grpc p \<rparr>)"

lemma engine_bucket_lines_eq:
  "engine_bucket_lines e p name c i bs =
     bucket_lines name c bs (map (\<lambda>i. engine_sum e (\<lambda>c. co_buckets c ! i) + to_latency_buckets p ! i) [i..<i + length bs])"
proof (induction bs arbitrary: c i)
  case (Cons b bs)
  have up: "[i..<i + length (x # bs)] = i # [i + 1..<i + 1 + length bs]" for x :: "f64 \<times> string" by (simp add: upt_rec)
  show ?case
    using Cons.IH[of "c + (engine_sum e (\<lambda>c. co_buckets c ! i) + to_latency_buckets p ! i)" "i + 1"]
    by (cases b) (simp only: up list.map list.case engine_bucket_lines.simps bucket_lines.simps Let_def Suc_eq_plus1)
qed simp

lemma length_BUCKETS: "length BUCKETS = 12"
  by (simp add: BUCKETS_def)

lemma class_lines_cong:
  "(\<And>i. i < 6 \<Longrightarrow> f i = g i) \<Longrightarrow> class_lines f = class_lines g"
  by (simp add: class_lines_def CLASSES_def)

lemma engine_render_merged:
  "engine_render_prometheus e generation pinned = render_prometheus (merged e) generation pinned"
proof -
  have classes: "class_lines (\<lambda>i. engine_sum e (\<lambda>c. co_requests c ! i) + to_requests (engine_peer e) ! i)
      = class_lines (\<lambda>i. opt_or 0 (get_at (me_requests (merged e)) i))"
    by (rule class_lines_cong) (simp add: merged_def Let_def get_at_def opt_or_def)
  have series: "engine_series e = metrics_series (merged e)"
    by (simp add: engine_series_def metrics_series_def merged_def Let_def)
  have buckets: "engine_bucket_lines e (engine_peer e) name 0 0 BUCKETS
      = bucket_lines name 0 BUCKETS (hi_buckets (me_latency (merged e)))" for name
    by (simp add: engine_bucket_lines_eq merged_def Let_def length_BUCKETS del: upt_Suc)
  have counts: "hi_count (me_latency (merged e)) = engine_sum e co_latency_count + to_latency_count (engine_peer e)"
    "hi_sum_nanos (me_latency (merged e)) = engine_sum e co_sum_nanos + to_latency_nanos (engine_peer e)"
    "me_active (merged e) = engine_sum e co_active + to_active (engine_peer e)"
    by (simp_all add: merged_def Let_def)
  show ?thesis
    by (simp only: engine_render_prometheus_def render_prometheus_def Let_def classes series buckets counts
        render_histogram_def append_assoc)
qed

lemma sum_list_set:
  "i < length xs \<Longrightarrow> sum_list (xs[i := y]) = sum_list xs + (y - xs ! i)" for xs :: "'a::ab_group_add list"
  by (induction xs arbitrary: i) (auto simp: less_Suc_eq_0_disj algebra_simps)

lemma engine_sum_event:
  assumes "i < length (em_cores e)"
  shows "engine_sum (engine_event (i, ev) e) pick = engine_sum e pick + (pick (core_event ev (em_cores e ! i)) - pick (em_cores e ! i))"
proof -
  have "sum_list (map pick ((em_cores e)[i := c])) = sum_list (map pick (em_cores e)) + (pick c - pick (em_cores e ! i))" for c
  proof -
    have "map pick ((em_cores e)[i := c]) = (map pick (em_cores e))[i := pick c]" by (simp add: map_update)
    then show ?thesis using assms by (simp add: sum_list_set)
  qed
  then show ?thesis by (simp add: engine_event_def engine_sum_def)
qed

lemma engine_event_other [simp]:
  "em_peer (engine_event ie e) = em_peer e" "length (em_cores (engine_event ie e)) = length (em_cores e)"
  "engine_peer (engine_event ie e) = engine_peer e"
  by (simp_all add: engine_event_def engine_peer_def)

lemma class_index_bound: "class_index status < 6"
  by (simp add: class_index_def Let_def)

lemma bucket_of_bound: "bucket_of nanos = Some i \<Longrightarrow> i < 12"
  by (auto simp: bucket_of_def position_Some_iff length_BUCKETS)

lemma core_event_shape: "core_shape c \<Longrightarrow> core_shape (core_event ev c)"
  by (cases ev)
     (auto simp: core_shape_def core_response_def core_latency_def core_connection_opened_def core_connection_closed_def
       core_tls_handshake_def core_tls_handshake_failure_def core_connect_failure_def core_retry_def core_timeout_def
       core_route_miss_def core_unsupported_grpc_def bump_def Let_def split: option.splits)

lemma engine_event_shape: "i < length (em_cores e) \<Longrightarrow> engine_shape e \<Longrightarrow> engine_shape (engine_event (i, ev) e)"
  by (auto simp: engine_shape_def engine_event_def list_all_length nth_list_update core_event_shape)

lemma bump_map:
  "k < n \<Longrightarrow> bump k (map f [0..<n]) = map (\<lambda>j. f j + (if j = k then 1 else 0)) [0..<n]"
  by (rule nth_equalityI) (auto simp: bump_def nth_list_update)

lemma bump_nth: "k < length xs \<Longrightarrow> bump k xs ! j = xs ! j + (if j = k then 1 else 0)"
  by (simp add: bump_def nth_list_update)

lemma clamp_nanos_cases: "clamp_nanos nanos = (if nanos < 2 ^ 64 then of_nat nanos else - 1)"
proof (cases "nanos < 2 ^ 64")
  case False
  have "of_nat (2 ^ 64 - 1) = (- 1 :: u64)" by simp
  with False show ?thesis by (simp add: clamp_nanos_def)
qed (simp add: clamp_nanos_def)

lemmas core_ops = core_response_def core_latency_def core_connection_opened_def core_connection_closed_def
  core_tls_handshake_def core_tls_handshake_failure_def core_connect_failure_def core_retry_def core_timeout_def
  core_route_miss_def core_unsupported_grpc_def

lemmas metrics_ops = metrics_response_def metrics_latency_def connection_opened_def connection_guard_drop_def
  record_tls_handshake_def record_tls_handshake_failure_def record_connect_failure_def record_retry_def
  record_upstream_timeout_def record_route_miss_def record_unsupported_grpc_def

lemma merged_event:
  assumes "i < length (em_cores e)" "engine_shape e"
  shows "merged (engine_event (i, ev) e) = metrics_event ev (merged e)"
proof -
  have shape: "length (co_requests (em_cores e ! i)) = 6" "length (co_buckets (em_cores e ! i)) = 12"
    using assms by (auto simp: engine_shape_def list_all_length core_shape_def)
  note sums = engine_sum_event[OF assms(1)]
  show ?thesis
  proof (cases ev)
    case (EvResponse status)
    have "bump (class_index status) (co_requests (em_cores e ! i)) ! j
        = co_requests (em_cores e ! i) ! j + (if j = class_index status then 1 else 0)" for j
      by (rule bump_nth) (simp add: shape class_index_bound)
    with EvResponse show ?thesis
      by (simp add: merged_def Let_def sums core_ops metrics_ops bump_map[OF class_index_bound] del: upt_Suc)
  next
    case (EvLatency nanos)
    show ?thesis
    proof (cases "bucket_of nanos")
      case None
      with EvLatency show ?thesis
        by (simp add: merged_def Let_def sums core_ops metrics_ops observe_def clamp_nanos_cases algebra_simps del: upt_Suc)
    next
      case (Some k)
      have "bump k (co_buckets (em_cores e ! i)) ! j = co_buckets (em_cores e ! i) ! j + (if j = k then 1 else 0)" for j
        by (rule bump_nth) (simp add: shape bucket_of_bound[OF Some])
      with EvLatency Some show ?thesis
        by (simp add: merged_def Let_def sums core_ops metrics_ops observe_def clamp_nanos_cases
            bump_map[OF bucket_of_bound[OF Some]] algebra_simps del: upt_Suc)
    qed
  qed (simp_all add: merged_def Let_def sums core_ops metrics_ops algebra_simps del: upt_Suc)
qed

lemma merged_run:
  assumes "\<forall>(i, ev) \<in> set evs. i < length (em_cores e)" "engine_shape e"
  shows "merged (fold engine_event evs e) = fold metrics_event (map snd evs) (merged e)"
  using assms
proof (induction evs arbitrary: e)
  case (Cons ie evs)
  obtain i ev where ie: "ie = (i, ev)" by (cases ie)
  with Cons.prems have i: "i < length (em_cores e)" by auto
  have "\<forall>(j, ev') \<in> set evs. j < length (em_cores (engine_event ie e))" using Cons.prems by auto
  from Cons.IH[OF this] engine_event_shape[OF i Cons.prems(2)] merged_event[OF i Cons.prems(2)] ie
  show ?case by simp
qed simp

lemma merged_with_peer: "metrics_shape m \<Longrightarrow> merged (engine_metrics_with_peer cores m) = m"
  by (cases "me_latency m")
     (auto simp: merged_def engine_metrics_with_peer_def engine_metrics_new_def engine_peer_def engine_sum_def
       metrics_totals_def zip_copy_def totals_default_def core_default_def metrics_shape_def sum_list_replicate
       Let_def intro!: metrics.equality nth_equalityI simp del: upt_Suc)

lemma merged_new: "merged (engine_metrics_new cores) = metrics_default"
  by (auto simp: merged_def engine_metrics_new_def engine_peer_def engine_sum_def metrics_default_def
      totals_default_def core_default_def sum_list_replicate Let_def intro!: nth_equalityI simp del: upt_Suc)

lemma new_shape:
  "engine_shape (engine_metrics_new cores)" "metrics_shape m \<Longrightarrow> engine_shape (engine_metrics_with_peer cores m)"
  "length (em_cores (engine_metrics_new cores)) = max cores 1"
  "length (em_cores (engine_metrics_with_peer cores m)) = max cores 1"
  by (auto simp: engine_shape_def engine_metrics_new_def engine_metrics_with_peer_def core_shape_def core_default_def list_all_length)

section \<open>Properties\<close>

text \<open>
  C25. Whatever happens on whichever cores, the uring engine's exposition is byte for byte the one
  the hyper engine renders after the same events, on top of the numbers of the other side of the
  process when there is one.
\<close>

theorem engines_expose_alike:
  assumes "\<forall>(i, ev) \<in> set evs. i < max cores (1 :: nat)" "metrics_shape peer"
  shows "engine_render_prometheus (fold engine_event evs (engine_metrics_with_peer cores peer)) generation pinned
      = render_prometheus (fold metrics_event (map snd evs) peer) generation pinned
    \<and> engine_render_prometheus (fold engine_event evs (engine_metrics_new cores)) generation pinned
      = render_prometheus (fold metrics_event (map snd evs) metrics_default) generation pinned"
proof -
  have len: "\<forall>(i, ev) \<in> set evs. i < length (em_cores (engine_metrics_with_peer cores peer))"
    "\<forall>(i, ev) \<in> set evs. i < length (em_cores (engine_metrics_new cores))"
    using assms(1) by (simp_all only: new_shape)
  have "engine_render_prometheus (fold engine_event evs (engine_metrics_with_peer cores peer)) generation pinned
      = render_prometheus (fold metrics_event (map snd evs) peer) generation pinned"
    by (simp only: engine_render_merged merged_run[OF len(1) new_shape(2)[OF assms(2)]] merged_with_peer[OF assms(2)])
  moreover have "engine_render_prometheus (fold engine_event evs (engine_metrics_new cores)) generation pinned
      = render_prometheus (fold metrics_event (map snd evs) metrics_default) generation pinned"
    by (simp only: engine_render_merged merged_run[OF len(2) new_shape(1)] merged_new)
  ultimately show ?thesis ..
qed

lemma engines_expose_alike_witness:
  "engine_render_prometheus (fold engine_event [(1, EvOpened), (0, EvResponse 200), (1, EvResponse 503)] (engine_metrics_new 2)) 7 False
    = render_prometheus (fold metrics_event [EvOpened, EvResponse 200, EvResponse 503] metrics_default) 7 False"
proof -
  have "\<forall>(i, ev) \<in> set [(1, EvOpened), (0, EvResponse 200), (1, EvResponse 503)]. i < max 2 (1 :: nat)"
    "metrics_shape metrics_default" by (simp_all add: metrics_shape_def metrics_default_def)
  from engines_expose_alike[OF this] show ?thesis by simp
qed

end
