(* ===== verification/Scrape.thy ===== *)
theory Scrape
  imports Metrics Annotations
begin

text \<open>
  How ramjet-top reads the exposition: \<open>crates/ramjet-top/src/prom.rs\<close>, with the pin it shows
  (\<open>Snapshot::pinned\<close> of \<open>client.rs\<close>). The properties relate it to what both engines render.
\<close>

section \<open>Definitions\<close>

record metrics_snapshot =
  mn_requests_total :: u64
  mn_errors_5xx_total :: u64
  mn_active_connections :: "i64 option"
  mn_generation :: "u64 option"
  mn_latency_sum_seconds :: f64
  mn_latency_count :: u64
  mn_pinned :: "u64 option"

definition snapshot_default :: metrics_snapshot where
  "snapshot_default =
     \<lparr> mn_requests_total = 0, mn_errors_5xx_total = 0, mn_active_connections = None, mn_generation = None,
       mn_latency_sum_seconds = Fin False 0, mn_latency_count = 0, mn_pinned = None \<rparr>"

definition lifetime_mean_latency_ms :: "metrics_snapshot \<Rightarrow> f64 option" where
  "lifetime_mean_latency_ms m =
     (if mn_latency_count m > 0
      then Some (f64_div (f64_mul (mn_latency_sum_seconds m) (Fin False 1000)) (f64_of_u64 (mn_latency_count m)))
      else None)"

text \<open>\<open>str::lines\<close>: a final empty line is none, and a carriage return before the line feed is dropped.\<close>

definition strip_cr :: "string \<Rightarrow> string" where
  "strip_cr l = (if l \<noteq> [] \<and> last l = CHR 0x0D then butlast l else l)"

function str_lines :: "string \<Rightarrow> string list" where
  "str_lines s =
     (if s = [] then []
      else case split_once (CHR 0x0A) s of
             None \<Rightarrow> [s]
           | Some (l, rest) \<Rightarrow> strip_cr l # str_lines rest)"
  by pat_completeness auto
termination
  by (relation "measure length") (auto simp: split_once_Some_iff)

declare str_lines.simps [simp del]

text \<open>\<open>split_whitespace().next()\<close>: the first run of characters that are not white space.\<close>

fun word_run :: "string \<Rightarrow> string" where
  "word_run [] = []"
| "word_run (c # r) = (if ws_at_start (c # r) \<noteq> 0 then [] else c # word_run r)"

definition first_word :: "string \<Rightarrow> string option" where
  "first_word s = (let t = trim_start s in if t = [] then None else Some (word_run t))"

record prom_sample =
  sm_name :: string
  sm_labels :: string
  sm_value :: f64

definition split_sample :: "string \<Rightarrow> prom_sample option" where
  "split_sample line0 =
     (let line = trim line0;
          finish = (\<lambda>name labels rest.
            Option.bind (Option.bind (first_word rest) parse_f64)
              (\<lambda>v. Some \<lparr> sm_name = trim name, sm_labels = labels, sm_value = v \<rparr>))
      in if line = [] \<or> starts_with ''#'' line then None
         else case split_once (CHR ''{'') line of
                Some (name, after) \<Rightarrow>
                  (case split_once (CHR ''}'') after of
                     Some (labels, rest) \<Rightarrow> finish name labels rest
                   | None \<Rightarrow> None)
              | None \<Rightarrow>
                  (case split_once (CHR '' '') line of
                     Some (name, rest) \<Rightarrow> finish name [] rest
                   | None \<Rightarrow> None))"

definition trim_matches :: "char \<Rightarrow> string \<Rightarrow> string" where
  "trim_matches c s = trim_end_matches c (dropWhile (\<lambda>d. d = c) s)"

fun label_in :: "string list \<Rightarrow> string \<Rightarrow> string option" where
  "label_in [] key = None"
| "label_in (p # ps) key =
     (case split_once (CHR ''='') p of
        Some (name, v) \<Rightarrow> if trim name = key then Some (trim_matches (CHR 0x22) (trim v)) else label_in ps key
      | None \<Rightarrow> label_in ps key)"

definition label_of :: "string \<Rightarrow> string \<Rightarrow> string option" where
  "label_of labels key = label_in (split_on (CHR '','') labels) key"

text \<open>A cast to an integer type goes towards zero and stops at the ends of the type.\<close>

fun f64_as_u64 :: "f64 \<Rightarrow> u64" where
  "f64_as_u64 NaN = 0"
| "f64_as_u64 (Inf neg) = (if neg then 0 else - 1)"
| "f64_as_u64 (Fin neg q) = (if neg then 0 else of_nat (min (nat \<lfloor>q\<rfloor>) (2 ^ 64 - 1)))"

fun f64_as_i64 :: "f64 \<Rightarrow> i64" where
  "f64_as_i64 NaN = 0"
| "f64_as_i64 (Inf neg) = of_int (if neg then - (2 ^ 63) else 2 ^ 63 - 1)"
| "f64_as_i64 (Fin neg q) = of_int (if neg then max (- \<lfloor>q\<rfloor>) (- (2 ^ 63)) else min \<lfloor>q\<rfloor> (2 ^ 63 - 1))"

definition as_counter :: "f64 \<Rightarrow> u64" where
  "as_counter v = (if is_finite v \<and> f64_lt (Fin False 0) v then f64_as_u64 v else 0)"

definition take_sample :: "prom_sample \<Rightarrow> metrics_snapshot \<Rightarrow> metrics_snapshot" where
  "take_sample s m =
     (let v = sm_value s; n = sm_name s in
      if n = ''ramjet_requests_total'' then
        (let class = opt_or [] (label_of (sm_labels s) ''code''); count = as_counter v;
             m1 = m\<lparr> mn_requests_total := saturating_add (mn_requests_total m) count \<rparr>
         in if class = ''5xx''
            then m1\<lparr> mn_errors_5xx_total := saturating_add (mn_errors_5xx_total m1) count \<rparr> else m1)
      else if n = ''ramjet_active_connections'' \<and> is_finite v then m\<lparr> mn_active_connections := Some (f64_as_i64 v) \<rparr>
      else if n = ''ramjet_route_table_generation'' then m\<lparr> mn_generation := Some (as_counter v) \<rparr>
      else if n = ''ramjet_upstream_latency_seconds_sum'' \<and> is_finite v \<and> f64_le (Fin False 0) v
        then m\<lparr> mn_latency_sum_seconds := v \<rparr>
      else if n = ''ramjet_upstream_latency_seconds_count'' then m\<lparr> mn_latency_count := as_counter v \<rparr>
      else if n = ''ramjet_pinned''
        then (let generation = as_counter v
              in m\<lparr> mn_pinned := (if generation > 0 then Some generation else None) \<rparr>)
      else m)"

fun parse_lines :: "string list \<Rightarrow> metrics_snapshot \<Rightarrow> metrics_snapshot" where
  "parse_lines [] m = m"
| "parse_lines (l # ls) m =
     parse_lines ls (case split_sample l of None \<Rightarrow> m | Some s \<Rightarrow> take_sample s m)"

definition parse_exposition :: "string \<Rightarrow> metrics_snapshot" where
  "parse_exposition page = parse_lines (str_lines page) snapshot_default"

text \<open>\<open>Snapshot::pinned\<close>: the pin of the admin API, else the one of the metrics.\<close>

definition shown_pin :: "u64 option \<Rightarrow> metrics_snapshot \<Rightarrow> u64 option" where
  "shown_pin admin_pinned m = (case admin_pinned of Some g \<Rightarrow> Some g | None \<Rightarrow> mn_pinned m)"

section \<open>Reading a page line by line\<close>

definition plain_line :: "string \<Rightarrow> bool" where
  "plain_line l \<longleftrightarrow> l \<noteq> [] \<and> CHR 0x0A \<notin> set l \<and> last l \<noteq> CHR 0x0D"

definition parse_text :: "string \<Rightarrow> metrics_snapshot \<Rightarrow> metrics_snapshot" where
  "parse_text page m = parse_lines (str_lines page) m"

definition take_line :: "string \<Rightarrow> metrics_snapshot \<Rightarrow> metrics_snapshot" where
  "take_line l m = (case split_sample l of None \<Rightarrow> m | Some s \<Rightarrow> take_sample s m)"

lemma str_lines_writeln: "plain_line l \<Longrightarrow> str_lines (writeln l @ rest) = l # str_lines rest"
proof -
  assume "plain_line l"
  then have "split_once (CHR 0x0A) (writeln l @ rest) = Some (l, rest)" "strip_cr l = l"
    by (auto simp: writeln_def split_once_Some_iff plain_line_def strip_cr_def)
  then show ?thesis by (subst str_lines.simps) (simp add: writeln_def)
qed

lemma parse_text_writeln: "plain_line l \<Longrightarrow> parse_text (writeln l @ rest) m = parse_text rest (take_line l m)"
  by (simp add: parse_text_def str_lines_writeln take_line_def)

lemma parse_text_Nil [simp]: "parse_text [] m = m"
  by (simp add: parse_text_def str_lines.simps)

subsection \<open>The pieces of a line\<close>

definition wordy :: "string \<Rightarrow> bool" where
  "wordy s \<longleftrightarrow> s \<noteq> [] \<and> list_all (\<lambda>c. visible c \<and> c \<noteq> CHR ''{'' \<and> c \<noteq> CHR ''}'') s"

lemma wordyD:
  assumes "wordy s"
  shows "s \<noteq> []" "visible (hd s)" "visible (last s)" "CHR ''{'' \<notin> set s" "CHR ''}'' \<notin> set s" "CHR '' '' \<notin> set s"
    "CHR 0x0A \<notin> set s" "CHR 0x0D \<notin> set s" "trim s = s"
proof -
  show ne: "s \<noteq> []" using assms by (simp add: wordy_def)
  have each: "visible c" "c \<noteq> CHR ''{''" "c \<noteq> CHR ''}''" if "c \<in> set s" for c
    using assms that by (simp_all add: wordy_def list_all_iff)
  show ends: "visible (hd s)" "visible (last s)" using ne each(1) by simp_all
  have blank: "\<not> visible (CHR '' '')" "\<not> visible (CHR 0x0A)" "\<not> visible (CHR 0x0D)" by (simp_all add: visible_def)
  show "CHR ''{'' \<notin> set s" "CHR ''}'' \<notin> set s" "CHR '' '' \<notin> set s" "CHR 0x0A \<notin> set s" "CHR 0x0D \<notin> set s"
    using each blank by blast+
  show "trim s = s" by (rule trim_visible[OF ne ends])
qed

lemma ws_at_visible: "visible c \<Longrightarrow> ws_at_start (c # r) = 0"
  using ws_len_visible by (simp add: ws_at_start_def visible_def)

lemma word_run_visible: "list_all visible s \<Longrightarrow> word_run s = s"
  by (induction s) (simp_all add: ws_at_visible)

lemma trim_start_visible: "visible c \<Longrightarrow> trim_start (c # r) = c # r"
  by (simp add: trim_start.simps ws_at_visible)

lemma trim_start_space: "visible c \<Longrightarrow> trim_start (CHR '' '' # c # r) = c # r"
proof -
  assume v: "visible c"
  have "ws_at_start (CHR '' '' # c # r) = 1" by (cases r) (simp_all add: ws_at_start_def)
  then have "trim_start (CHR '' '' # c # r) = trim_start (c # r)" by (subst trim_start.simps) simp
  with trim_start_visible[OF v] show ?thesis by simp
qed

lemma first_word_wordy:
  assumes "wordy v"
  shows "first_word v = Some v" "first_word (CHR '' '' # v) = Some v"
proof -
  obtain c r where v: "v = c # r" "visible c" "list_all visible v"
    using assms by (cases v) (auto simp: wordy_def list_all_iff)
  then show "first_word v = Some v" "first_word (CHR '' '' # v) = Some v"
    using word_run_visible[OF v(3)] by (simp_all add: first_word_def trim_start_visible trim_start_space Let_def)
qed

lemma split_once_first: "c \<notin> set a \<Longrightarrow> split_once c (a @ c # b) = Some (a, b)"
  by (simp add: split_once_Some_iff)

lemma split_sample_plain:
  assumes "wordy name" "hd name \<noteq> CHR ''#''" "wordy v"
  shows "split_sample (name @ '' '' @ v) = map_option (\<lambda>x. \<lparr> sm_name = name, sm_labels = [], sm_value = x \<rparr>) (parse_f64 v)"
proof -
  note n = wordyD[OF assms(1)] and w = wordyD[OF assms(3)]
  have t: "trim (name @ '' '' @ v) = name @ '' '' @ v" by (rule trim_visible) (use n w in auto)
  have c: "\<not> starts_with ''#'' (name @ '' '' @ v)" using n(1) assms(2) by (cases name) (simp_all add: starts_with_def)
  have "split_once (CHR ''{'') (name @ '' '' @ v) = None" using n w by (simp add: split_once_None_iff)
  moreover have "split_once (CHR '' '') (name @ '' '' @ v) = Some (name, v)" using split_once_first[OF n(6), of v] by simp
  ultimately show ?thesis
    using n(1,9) by (cases "parse_f64 v") (simp_all add: split_sample_def t[simplified] c[simplified] first_word_wordy(1)[OF assms(3)] Let_def)
qed

lemma split_sample_labelled:
  assumes "wordy name" "hd name \<noteq> CHR ''#''" "CHR ''}'' \<notin> set labels" "wordy v"
  shows "split_sample (name @ ''{'' @ labels @ ''}'' @ '' '' @ v)
    = map_option (\<lambda>x. \<lparr> sm_name = name, sm_labels = labels, sm_value = x \<rparr>) (parse_f64 v)"
proof -
  note n = wordyD[OF assms(1)] and w = wordyD[OF assms(4)]
  let ?l = "name @ ''{'' @ labels @ ''}'' @ '' '' @ v"
  have t: "trim ?l = ?l" by (rule trim_visible) (use n w in auto)
  have c: "\<not> starts_with ''#'' ?l" using n(1) assms(2) by (cases name) (simp_all add: starts_with_def)
  have "split_once (CHR ''{'') ?l = Some (name, labels @ ''}'' @ '' '' @ v)"
    using split_once_first[OF n(4), of "labels @ ''}'' @ '' '' @ v"] by simp
  moreover have "split_once (CHR ''}'') (labels @ ''}'' @ '' '' @ v) = Some (labels, CHR '' '' # v)"
    using split_once_first[OF assms(3), of "CHR '' '' # v"] by simp
  ultimately show ?thesis
    using n(1,9) by (cases "parse_f64 v") (simp_all add: split_sample_def t[simplified] c[simplified] first_word_wordy(2)[OF assms(4)] Let_def)
qed

lemma split_sample_comment:
  assumes "visible (last (CHR ''#'' # r))"
  shows "split_sample (CHR ''#'' # r) = None"
proof -
  have "trim (CHR ''#'' # r) = CHR ''#'' # r" by (rule trim_visible) (use assms in \<open>auto simp: visible_def\<close>)
  then show ?thesis by (simp add: split_sample_def Let_def starts_with_def)
qed

subsection \<open>Numbers\<close>

lemma digits_wordy: "s \<noteq> [] \<Longrightarrow> list_all is_ascii_digit s \<Longrightarrow> wordy s"
  by (auto simp: wordy_def list_all_iff is_ascii_digit_def visible_def)

lemma wordy_show_nat: "wordy (show_nat n)"
  by (rule digits_wordy) (simp_all add: show_nat_digits)

lemma split_sign_digit: "is_ascii_digit c \<Longrightarrow> split_sign (c # r) = (False, c # r)"
  using digit_not_plus by (auto simp: split_sign_def)

lemma digit_not_word:
  assumes "is_ascii_digit c"
  shows "\<not> eq_ignore_ascii_case (c # r) ''inf''" "\<not> eq_ignore_ascii_case (c # r) ''infinity''"
    "\<not> eq_ignore_ascii_case (c # r) ''nan''"
  using assms
  by (auto simp: eq_ignore_ascii_case_def lower_def to_ascii_lowercase_def ascii_defs split: if_splits)

lemma parse_magnitude_decimal:
  assumes "list_all is_ascii_digit a" "a \<noteq> []" "list_all is_ascii_digit b" "b \<noteq> []"
  shows "parse_magnitude (a @ ''.'' @ b) = Some (of_nat (digits_val (a @ b)) / 10 ^ length b)"
proof -
  have dot: "\<not> is_ascii_digit (CHR ''.'')" by (simp add: is_ascii_digit_def)
  have runs: "takeWhile is_ascii_digit (a @ CHR ''.'' # b) = a" "dropWhile is_ascii_digit (a @ CHR ''.'' # b) = CHR ''.'' # b"
    "takeWhile is_ascii_digit b = b" "dropWhile is_ascii_digit b = []"
    using assms dot by (simp_all add: list_all_iff takeWhile_tail dropWhile_append takeWhile_append2)
  show ?thesis
    using assms(2) by (simp add: parse_magnitude_def Let_def runs parse_exponent_def power_int_minus field_simps)
qed

lemma parse_magnitude_digits:
  assumes "list_all is_ascii_digit a" "a \<noteq> []"
  shows "parse_magnitude a = Some (of_nat (digits_val a))"
proof -
  have runs: "takeWhile is_ascii_digit a = a" "dropWhile is_ascii_digit a = []" using assms(1) by (simp_all add: list_all_iff)
  from assms(2) show ?thesis by (simp add: parse_magnitude_def Let_def parse_exponent_def runs)
qed

lemma parse_f64_unsigned:
  assumes "is_ascii_digit c"
  shows "parse_f64 (c # r) = map_option (rnd False) (parse_magnitude (c # r))"
  by (simp add: parse_f64_def split_sign_digit[OF assms] digit_not_word[OF assms])

lemma parse_f64_nat: "n < 2 ^ 53 \<Longrightarrow> parse_f64 (show_nat n) = Some (Fin False (of_nat n))"
proof -
  assume n: "n < 2 ^ 53"
  obtain c r where s: "show_nat n = c # r" by (cases "show_nat n") simp_all
  have "is_ascii_digit c" using show_nat_digits[of n] s by simp
  from parse_f64_unsigned[OF this, of r] parse_magnitude_digits[OF show_nat_digits[of n]] rnd_nat[OF n, of False]
  show ?thesis using digits_val_show_nat[of n] by (simp add: s)
qed

lemma parse_f64_minus_nat: "n < 2 ^ 53 \<Longrightarrow> parse_f64 (CHR ''-'' # show_nat n) = Some (Fin True (of_nat n))"
proof -
  assume n: "n < 2 ^ 53"
  obtain c r where s: "show_nat n = c # r" by (cases "show_nat n") simp_all
  have d: "is_ascii_digit c" using show_nat_digits[of n] s by simp
  have "split_sign (CHR ''-'' # show_nat n) = (True, show_nat n)" by (simp add: split_sign_def)
  with digit_not_word[OF d, of r] parse_magnitude_digits[OF show_nat_digits[of n]] rnd_nat[OF n, of True]
  show ?thesis using digits_val_show_nat[of n] by (simp add: parse_f64_def s)
qed

lemma f64_as_i64_nat:
  "f64_as_i64 (Fin True (of_nat n)) = of_int (max (- int n) (- (2 ^ 63)))"
  "f64_as_i64 (Fin False (of_nat n)) = of_int (min (int n) (2 ^ 63 - 1))"
  by simp_all

lemma as_counter_nat: "as_counter (Fin False (of_nat n)) = of_nat (min n (2 ^ 64 - 1))"
  by (cases "n = 0") (simp_all add: as_counter_def signed_def)

text \<open>A gauge within 53 bits is read back exactly.\<close>

lemma read_i64:
  assumes "\<bar>sint w\<bar> < 2 ^ 53"
  shows "wordy (show_i64 w)"
    and "\<exists>x. parse_f64 (show_i64 w) = Some x \<and> is_finite x \<and> f64_as_i64 x = w"
proof -
  have small: "nat \<bar>sint w\<bar> < 2 ^ 53" using assms by (simp add: nat_less_iff)
  show "wordy (show_i64 w)"
    using wordy_show_nat by (auto simp: show_i64_def show_int_def wordy_def visible_def)
  show "\<exists>x. parse_f64 (show_i64 w) = Some x \<and> is_finite x \<and> f64_as_i64 x = w"
  proof (cases "sint w < 0")
    case True
    define n where "n = nat (- sint w)"
    have n: "n < 2 ^ 53" "sint w = - int n" using True small by (simp_all add: n_def)
    have "show_i64 w = CHR ''-'' # show_nat n" using True by (simp add: show_i64_def show_int_def n_def)
    moreover have "max (- int n) (- (2 ^ 63)) = sint w" using n by simp
    then have "f64_as_i64 (Fin True (of_nat n)) = w" by (simp only: f64_as_i64_nat) simp
    ultimately show ?thesis using parse_f64_minus_nat[OF n(1)] by simp
  next
    case False
    define n where "n = nat (sint w)"
    have n: "n < 2 ^ 53" "sint w = int n" using False small by (simp_all add: n_def)
    have "show_i64 w = show_nat n" using False by (simp add: show_i64_def show_int_def n_def)
    moreover have "min (int n) (2 ^ 63 - 1) = sint w" using n by simp
    then have "f64_as_i64 (Fin False (of_nat n)) = w" by (simp only: f64_as_i64_nat) simp
    ultimately show ?thesis using parse_f64_nat[OF n(1)] by simp
  qed
qed

lemma read_counter:
  assumes "unat w < 2 ^ 53"
  shows "parse_f64 (show_nat (unat w)) = Some (Fin False (of_nat (unat w)))"
    and "as_counter (Fin False (of_nat (unat w))) = w"
proof -
  show "parse_f64 (show_nat (unat w)) = Some (Fin False (of_nat (unat w)))" by (rule parse_f64_nat[OF assms])
  have "min (unat w) (2 ^ 64 - 1) = unat w" using assms by simp
  then show "as_counter (Fin False (of_nat (unat w))) = w" by (simp only: as_counter_nat) simp
qed

subsection \<open>The lines of the exposition\<close>

definition watched :: "string list" where
  "watched =
     [''ramjet_requests_total'', ''ramjet_active_connections'', ''ramjet_route_table_generation'',
      ''ramjet_upstream_latency_seconds_sum'', ''ramjet_upstream_latency_seconds_count'', ''ramjet_pinned'']"

lemma take_sample_unwatched: "sm_name s \<notin> set watched \<Longrightarrow> take_sample s m = m"
  by (auto simp: take_sample_def watched_def Let_def)

lemma take_line_unwatched:
  assumes "split_sample l = map_option (\<lambda>x. \<lparr> sm_name = name, sm_labels = labels, sm_value = x \<rparr>) z" "name \<notin> set watched"
  shows "take_line l m = m"
  using assms by (cases z) (simp_all add: take_line_def take_sample_unwatched)

text \<open>The words of a help text: no line feed, and a visible last character.\<close>

definition helpful :: "string \<Rightarrow> bool" where
  "helpful s \<longleftrightarrow> s \<noteq> [] \<and> CHR 0x0A \<notin> set s \<and> visible (last s)"

lemma visible_not_cr: "visible c \<Longrightarrow> c \<noteq> CHR 0x0D" "visible c \<Longrightarrow> c \<noteq> CHR 0x0A"
  by (auto simp: visible_def)

lemma skip_comment:
  assumes "helpful s"
  shows "parse_text (writeln (''# '' @ s) @ rest) m = parse_text rest m"
proof -
  have "plain_line (''# '' @ s)" using assms by (auto simp: plain_line_def helpful_def visible_not_cr)
  moreover have "split_sample (''# '' @ s) = None"
    using assms split_sample_comment[of "CHR '' '' # s"] by (simp add: helpful_def)
  ultimately show ?thesis by (simp only: parse_text_writeln) (simp add: take_line_def)
qed

lemma wordy_helpful: "wordy s \<Longrightarrow> helpful s"
  using wordyD[of s] by (simp add: helpful_def)

lemma helpful_append: "helpful s \<Longrightarrow> CHR 0x0A \<notin> set r \<Longrightarrow> helpful (r @ s)"
  by (simp add: helpful_def)

lemma value_line:
  assumes "wordy name" "hd name \<noteq> CHR ''#''" "wordy v"
  shows "parse_text (writeln (name @ '' '' @ v) @ rest) m
    = parse_text rest (case parse_f64 v of None \<Rightarrow> m | Some x \<Rightarrow> take_sample \<lparr> sm_name = name, sm_labels = [], sm_value = x \<rparr> m)"
proof -
  have "plain_line (name @ '' '' @ v)"
    using wordyD[OF assms(1)] wordyD[OF assms(3)] by (simp add: plain_line_def visible_not_cr)
  then show ?thesis
    by (simp only: parse_text_writeln take_line_def split_sample_plain[OF assms]) (simp split: option.split)
qed

lemma labelled_line:
  assumes "wordy name" "hd name \<noteq> CHR ''#''" "wordy v" "CHR ''}'' \<notin> set labels" "CHR 0x0A \<notin> set labels"
  shows "parse_text (writeln (name @ ''{'' @ labels @ ''}'' @ '' '' @ v) @ rest) m
    = parse_text rest (case parse_f64 v of None \<Rightarrow> m | Some x \<Rightarrow> take_sample \<lparr> sm_name = name, sm_labels = labels, sm_value = x \<rparr> m)"
proof -
  have "plain_line (name @ ''{'' @ labels @ ''}'' @ '' '' @ v)"
    using wordyD[OF assms(1)] wordyD[OF assms(3)] assms(5) by (simp add: plain_line_def visible_not_cr)
  then show ?thesis
    by (simp only: parse_text_writeln take_line_def split_sample_labelled[OF assms(1,2,4,3)]) (simp split: option.split)
qed

lemma skip_unwatched: "name \<notin> set watched \<Longrightarrow>
    (case z of None \<Rightarrow> m | Some x \<Rightarrow> take_sample \<lparr> sm_name = name, sm_labels = labels, sm_value = x \<rparr> m) = m"
  by (cases z) (simp_all add: take_sample_unwatched)

lemma skip_counter:
  assumes "wordy name" "hd name \<noteq> CHR ''#''" "name \<notin> set watched" "helpful help"
  shows "parse_text (counter_series (name, help, v) @ rest) m = parse_text rest m"
proof -
  have lf: "CHR 0x0A \<notin> set name" using wordyD[OF assms(1)] by simp
  have h: "helpful (''HELP '' @ name @ '' '' @ help)" "helpful (''TYPE '' @ name @ '' counter'')"
    using assms(4) lf by (simp_all add: helpful_def visible_def)
  have c: "counter_series (name, help, v) @ rest
      = writeln (''# '' @ (''HELP '' @ name @ '' '' @ help)) @ writeln (''# '' @ (''TYPE '' @ name @ '' counter''))
        @ writeln (name @ '' '' @ show_nat (unat v)) @ rest"
    by (simp add: counter_series_def)
  show ?thesis
    unfolding c skip_comment[OF h(1)] skip_comment[OF h(2)] value_line[OF assms(1,2) wordy_show_nat] skip_unwatched[OF assms(3)] ..
qed

lemma gauge_lines:
  assumes "wordy name" "hd name \<noteq> CHR ''#''" "helpful help" "wordy (show_i64 v)"
  shows "parse_text (gauge name help v @ rest) m
    = parse_text rest (case parse_f64 (show_i64 v) of None \<Rightarrow> m | Some x \<Rightarrow> take_sample \<lparr> sm_name = name, sm_labels = [], sm_value = x \<rparr> m)"
proof -
  have lf: "CHR 0x0A \<notin> set name" using wordyD[OF assms(1)] by simp
  have h: "helpful (''HELP '' @ name @ '' '' @ help)" "helpful (''TYPE '' @ name @ '' gauge'')"
    using assms(3) lf by (simp_all add: helpful_def visible_def)
  have c: "gauge name help v @ rest
      = writeln (''# '' @ (''HELP '' @ name @ '' '' @ help)) @ writeln (''# '' @ (''TYPE '' @ name @ '' gauge''))
        @ writeln (name @ '' '' @ show_i64 v) @ rest"
    by (simp add: gauge_def)
  show ?thesis
    unfolding c skip_comment[OF h(1)] skip_comment[OF h(2)] value_line[OF assms(1,2,4)] ..
qed

definition label_word :: "string \<Rightarrow> bool" where
  "label_word s \<longleftrightarrow> wordy s \<and> CHR '','' \<notin> set s \<and> CHR ''='' \<notin> set s \<and> CHR 0x22 \<notin> set s"

lemma label_of_quoted:
  assumes "label_word key" "label_word v"
  shows "label_of (key @ ''='' @ [CHR 0x22] @ v @ [CHR 0x22]) key = Some v"
proof -
  note k = wordyD[of key] and w = wordyD[of v]
  have kw: "wordy key" "wordy v" using assms by (simp_all add: label_word_def)
  let ?q = "[CHR 0x22] @ v @ [CHR 0x22]"
  have "CHR '','' \<notin> set (key @ ''='' @ ?q)" using assms by (simp add: label_word_def)
  then have one: "split_on (CHR '','') (key @ ''='' @ ?q) = [key @ ''='' @ ?q]" by (rule split_on_no_sep)
  have eq: "split_once (CHR ''='') (key @ ''='' @ ?q) = Some (key, ?q)"
    using split_once_first[of "CHR ''=''" key ?q] assms(1) by (simp add: label_word_def)
  have "trim ?q = ?q" by (rule trim_visible) (simp_all add: visible_def)
  moreover have "dropWhile (\<lambda>d. d = CHR 0x22) ?q = v @ [CHR 0x22]"
    using assms(2) kw(2) w(1) by (cases v) (auto simp: label_word_def)
  moreover have "trim_end_matches (CHR 0x22) (v @ [CHR 0x22]) = v"
  proof -
    have "last v \<noteq> CHR 0x22" using assms(2) last_in_set[OF w(1)[OF kw(2)]] by (metis label_word_def)
    with w(1)[OF kw(2)] show ?thesis by (cases v rule: rev_cases) (simp_all add: trim_end_matches_def)
  qed
  ultimately have "trim_matches (CHR 0x22) (trim ?q) = v" by (simp add: trim_matches_def)
  then show ?thesis by (simp only: label_of_def one label_in.simps eq option.case prod.case k(9)[OF kw(1)] if_True simp_thms)
qed

lemma class_line:
  assumes "label_word class" "unat v < 2 ^ 53"
  shows "parse_text (writeln (''ramjet_requests_total'' @ quoted_label ''code'' class @ '' '' @ show_nat (unat v)) @ rest) m
    = parse_text rest (m\<lparr> mn_requests_total := saturating_add (mn_requests_total m) v,
        mn_errors_5xx_total := (if class = ''5xx'' then saturating_add (mn_errors_5xx_total m) v else mn_errors_5xx_total m) \<rparr>)"
proof -
  let ?name = "''ramjet_requests_total''" and ?labels = "''code'' @ ''='' @ [CHR 0x22] @ class @ [CHR 0x22]"
  have cw: "wordy class" using assms(1) by (simp add: label_word_def)
  have name: "wordy ?name" "hd ?name \<noteq> CHR ''#''" by (simp_all add: wordy_def visible_def)
  have labels: "CHR ''}'' \<notin> set ?labels" "CHR 0x0A \<notin> set ?labels" using wordyD[OF cw] by simp_all
  have lab: "label_of ?labels ''code'' = Some class"
    by (rule label_of_quoted) (use assms(1) in \<open>simp_all add: label_word_def wordy_def visible_def\<close>)
  have q: "?name @ quoted_label ''code'' class @ '' '' @ show_nat (unat v)
      = ?name @ ''{'' @ ?labels @ ''}'' @ '' '' @ show_nat (unat v)" by (simp add: quoted_label_def)
  have "take_sample \<lparr> sm_name = ?name, sm_labels = ?labels, sm_value = Fin False (of_nat (unat v)) \<rparr> m
      = m\<lparr> mn_requests_total := saturating_add (mn_requests_total m) v,
        mn_errors_5xx_total := (if class = ''5xx'' then saturating_add (mn_errors_5xx_total m) v else mn_errors_5xx_total m) \<rparr>"
    by (simp only: take_sample_def prom_sample.select_convs lab read_counter(2)[OF assms(2)] Let_def opt_or_def option.case
        simp_thms if_True) simp
  then show ?thesis
    by (simp only: q labelled_line[OF name wordy_show_nat labels] read_counter(1)[OF assms(2)] option.case)
qed

lemma skip_buckets:
  assumes "wordy name" "hd name \<noteq> CHR ''#''" "name @ ''_bucket'' \<notin> set watched" "list_all (\<lambda>b. label_word (snd b)) bs"
  shows "parse_text (bucket_lines name c bs vs @ rest) m = parse_text rest m"
  using assms(4)
proof (induction bs arbitrary: c vs)
  case (Cons b bs)
  obtain f bound where b: "b = (f, bound)" by (cases b)
  let ?labels = "''le'' @ ''='' @ [CHR 0x22] @ bound @ [CHR 0x22]"
  have bw: "wordy bound" using Cons.prems b by (simp add: label_word_def)
  have name: "wordy (name @ ''_bucket'')" "hd (name @ ''_bucket'') \<noteq> CHR ''#''"
    using assms(1,2) by (simp_all add: wordy_def visible_def)
  have labels: "CHR ''}'' \<notin> set ?labels" "CHR 0x0A \<notin> set ?labels" using wordyD[OF bw] by simp_all
  have q: "writeln (name @ ''_bucket'' @ quoted_label ''le'' bound @ '' '' @ show_nat n)
      = writeln ((name @ ''_bucket'') @ ''{'' @ ?labels @ ''}'' @ '' '' @ show_nat n)" for n by (simp add: quoted_label_def)
  have "list_all (\<lambda>b. label_word (snd b)) bs" using Cons.prems by simp
  note IH = Cons.IH[OF this]
  show ?case
    by (simp only: b bucket_lines.simps Let_def q append_assoc[of "writeln x" y rest for x y]
        labelled_line[OF name wordy_show_nat labels] skip_unwatched[OF assms(3)] IH)
qed simp

lemma saturating_add_small:
  fixes a b :: u64
  assumes "unat a \<le> k * 2 ^ 53" "unat b \<le> 2 ^ 53" "k < 2047"
  shows "saturating_add a b = a + b" "unat (a + b) \<le> (k + 1) * 2 ^ 53"
proof -
  have "unat a + unat b \<le> (k + 1) * 2 ^ 53" using assms(1,2) by simp
  moreover have "(k + 1) * 2 ^ 53 \<le> 2047 * 2 ^ 53" using assms(3) by (intro mult_right_mono) simp_all
  moreover have "(2047 :: nat) * 2 ^ 53 < 2 ^ 64" by simp
  ultimately have lt: "unat a + unat b < 2 ^ 64" by linarith
  then show "saturating_add a b = a + b" by (simp add: saturating_add_def)
  have "unat (a + b) \<le> unat a + unat b" by (simp add: unat_word_ariths)
  with \<open>unat a + unat b \<le> (k + 1) * 2 ^ 53\<close> show "unat (a + b) \<le> (k + 1) * 2 ^ 53" by linarith
qed

lemma parse_classes:
  assumes "\<And>i. i < 6 \<Longrightarrow> unat (f i) < 2 ^ 53" "mn_requests_total m = 0" "mn_errors_5xx_total m = 0"
  shows "parse_text (class_lines f @ rest) m
    = parse_text rest (m\<lparr> mn_requests_total := f 0 + f 1 + f 2 + f 3 + f 4 + f 5, mn_errors_5xx_total := f 4 \<rparr>)"
proof -
  have words: "label_word ''1xx''" "label_word ''2xx''" "label_word ''3xx''" "label_word ''4xx''" "label_word ''5xx''"
    "label_word ''other''" by (simp_all add: label_word_def wordy_def visible_def)
  have small: "unat (f i) \<le> 2 ^ 53" if "i < 6" for i using assms(1)[OF that] by simp
  have z: "saturating_add 0 w = w" for w :: u64
  proof -
    have "unat w < 2 ^ LENGTH(64)" by (rule unsigned_less)
    then show ?thesis by (simp add: saturating_add_def)
  qed
  have s0: "unat (f 0) \<le> 1 * 2 ^ 53" using small[of 0] by simp
  note s1 = saturating_add_small[OF s0 small[of 1]]
  note s2 = saturating_add_small[OF s1(2) small[of 2]]
  note s3 = saturating_add_small[OF s2(2) small[of 3]]
  note s4 = saturating_add_small[OF s3(2) small[of 4]]
  note s5 = saturating_add_small[OF s4(2) small[of 5]]
  have fs: "unat (f 0) < 2 ^ 53" "unat (f 1) < 2 ^ 53" "unat (f 2) < 2 ^ 53" "unat (f 3) < 2 ^ 53" "unat (f 4) < 2 ^ 53"
    "unat (f 5) < 2 ^ 53" by (rule assms(1), simp)+
  note lines = class_line[OF words(1) fs(1)] class_line[OF words(2) fs(2)] class_line[OF words(3) fs(3)]
    class_line[OF words(4) fs(4)] class_line[OF words(5) fs(5)] class_line[OF words(6) fs(6)]
  have c: "class_lines f @ rest
      = writeln (''ramjet_requests_total'' @ quoted_label ''code'' ''1xx'' @ '' '' @ show_nat (unat (f 0)))
      @ writeln (''ramjet_requests_total'' @ quoted_label ''code'' ''2xx'' @ '' '' @ show_nat (unat (f 1)))
      @ writeln (''ramjet_requests_total'' @ quoted_label ''code'' ''3xx'' @ '' '' @ show_nat (unat (f 2)))
      @ writeln (''ramjet_requests_total'' @ quoted_label ''code'' ''4xx'' @ '' '' @ show_nat (unat (f 3)))
      @ writeln (''ramjet_requests_total'' @ quoted_label ''code'' ''5xx'' @ '' '' @ show_nat (unat (f 4)))
      @ writeln (''ramjet_requests_total'' @ quoted_label ''code'' ''other'' @ '' '' @ show_nat (unat (f 5))) @ rest"
    by (simp add: class_lines_def CLASSES_def numeral_eq_Suc)
  show ?thesis
    by (simp only: c lines) (simp add: assms(2,3) z s1(1) s2(1) s3(1) s4(1) s5(1) del: One_nat_def)
qed

lemma skip_series:
  assumes "list_all (\<lambda>(name, help, _). wordy name \<and> hd name \<noteq> CHR ''#'' \<and> name \<notin> set watched \<and> helpful help) s"
  shows "parse_text (concat (map counter_series s) @ rest) m = parse_text rest m"
  using assms
proof (induction s)
  case (Cons a s)
  obtain name hlp v where a: "a = (name, hlp, v)" by (cases a)
  with Cons show ?case using skip_counter[of name hlp v "concat (map counter_series s) @ rest" m] by simp
qed simp

lemma watched_not_series:
  "list_all (\<lambda>(name, help, _). wordy name \<and> hd name \<noteq> CHR ''#'' \<and> name \<notin> set watched \<and> helpful help) (metrics_series m)"
  by (simp add: metrics_series_def wordy_def helpful_def visible_def watched_def)

subsection \<open>The latency sum\<close>

lemma representable_2_64: "representable (2 ^ 64)"
  unfolding representable_def by (rule conjI, simp) (rule rnd_exact[of _ 1 64], simp_all add: power_int_strict_increasing)

lemma rnd_u64_range:
  assumes "0 \<le> q" "q \<le> 2 ^ 64"
  shows "\<exists>v. rnd False q = Fin False v \<and> 0 \<le> v \<and> v \<le> 2 ^ 64"
proof -
  have "representable 0" unfolding representable_def using rnd_nat[of 0 False] by simp
  from rnd_ge_representable[OF this assms(1)] rnd_le_representable[OF representable_2_64 assms] rnd_sign[of False q]
  show ?thesis by (cases "rnd False q") (auto simp: signed_def not_less split: if_splits f64.splits)
qed

text \<open>The seconds the page gives for a sum of nanoseconds, as the client parses them.\<close>

definition scraped_seconds :: "u64 \<Rightarrow> f64" where
  "scraped_seconds nanos =
     (case f64_div (f64_of_u64 nanos) (f64_of_u64 1000000000) of
        Fin neg q \<Rightarrow> rnd neg (of_nat (nat (round_even (q * 10 ^ 6))) / 10 ^ 6)
      | v \<Rightarrow> v)"

lemma nanos_division:
  obtains q where "f64_div (f64_of_u64 nanos) (f64_of_u64 1000000000) = Fin False q" "0 \<le> q" "q \<le> 2 ^ 64"
proof -
  have "unat nanos < 2 ^ LENGTH(64)" by (rule unsigned_less)
  then have "unat nanos \<le> 2 ^ 64" by simp
  then have "(of_nat (unat nanos) :: rat) \<le> of_nat (2 ^ 64)" by (subst of_nat_le_iff)
  then have "(of_nat (unat nanos) :: rat) \<le> 2 ^ 64" by simp
  from rnd_u64_range[OF of_nat_0_le_iff this]
  obtain v where v: "f64_of_u64 nanos = Fin False v" "0 \<le> v" "v \<le> 2 ^ 64"
    unfolding f64_of_u64_def by blast
  have g: "f64_of_u64 1000000000 = Fin False 1000000000" using f64_of_u64_exact[of 1000000000] by simp
  have "v / 1000000000 \<le> 2 ^ 64" using v(2,3) by (simp add: field_simps)
  then obtain q where "rnd False (v / 1000000000) = Fin False q" "0 \<le> q" "q \<le> 2 ^ 64"
    using rnd_u64_range[of "v / 1000000000"] v(2) by auto
  then show ?thesis by (intro that[of q]) (simp_all add: v(1) g)
qed

lemma digits_val_padded: "digits_val (replicate n (CHR ''0'') @ s) = digits_val s"
proof (induction n)
  case (Suc n)
  have "digits_val (CHR ''0'' # r) = digits_val r" for r by (simp add: digits_val_def digit_val_def)
  with Suc show ?case by simp
qed simp

lemma read_nanos:
  shows "wordy (nanos_text nanos)"
    and "parse_f64 (nanos_text nanos) = Some (scraped_seconds nanos)"
    and "is_finite (scraped_seconds nanos)" "f64_le (Fin False 0) (scraped_seconds nanos)"
proof -
  obtain q where q: "f64_div (f64_of_u64 nanos) (f64_of_u64 1000000000) = Fin False q" "0 \<le> q" "q \<le> 2 ^ 64"
    by (rule nanos_division)
  define m where "m = nat (round_even (q * 10 ^ 6))"
  define ds where "ds = pad_zeros 7 (show_nat m)"
  define a where "a = take (length ds - 6) ds"
  define b where "b = drop (length ds - 6) ds"
  have len: "7 \<le> length ds" by (simp add: ds_def pad_zeros_def)
  have zero: "is_ascii_digit (CHR ''0'')" by (simp add: is_ascii_digit_def)
  have ds: "list_all is_ascii_digit ds" "digits_val ds = m"
    using show_nat_digits[of m] zero by (auto simp: ds_def pad_zeros_def digits_val_padded list_all_iff)
  have ab: "ds = a @ b" "length b = 6" "a \<noteq> []" "b \<noteq> []" using len by (auto simp: a_def b_def)
  have digits: "list_all is_ascii_digit a" "list_all is_ascii_digit b" using ds(1) ab(1) by simp_all
  have shown: "nanos_text nanos = a @ ''.'' @ b"
    by (simp add: nanos_text_def q(1) Let_def a_def b_def ds_def m_def)
  show "wordy (nanos_text nanos)"
    using digits_wordy[OF ab(3) digits(1)] digits_wordy[OF ab(4) digits(2)] by (simp add: shown wordy_def visible_def)
  obtain c r where a: "a = c # r" "is_ascii_digit c" using ab(3) digits(1) by (cases a) simp_all
  have mag: "parse_magnitude (a @ ''.'' @ b) = Some (of_nat m / 10 ^ 6)"
    using parse_magnitude_decimal[OF digits(1) ab(3) digits(2) ab(4)] ds(2) ab(1,2) by simp
  have s: "scraped_seconds nanos = rnd False (of_nat m / 10 ^ 6)" by (simp add: scraped_seconds_def q(1) m_def)
  show "parse_f64 (nanos_text nanos) = Some (scraped_seconds nanos)"
    using parse_f64_unsigned[OF a(2), of "r @ ''.'' @ b"] mag by (simp add: shown a(1) s)
  have "q * 10 ^ 6 \<le> of_int (2 ^ 64 * 10 ^ 6)" using q(3) by simp
  from round_even_le[OF this] have "m \<le> 2 ^ 64 * 10 ^ 6" by (simp add: m_def)
  then have "(of_nat m :: rat) \<le> of_nat (2 ^ 64 * 10 ^ 6)" by (subst of_nat_le_iff)
  then have "(of_nat m :: rat) / 10 ^ 6 \<le> 2 ^ 64" by (simp add: field_simps)
  then obtain v where "rnd False (of_nat m / 10 ^ 6) = Fin False v" "0 \<le> v"
    using rnd_u64_range[of "of_nat m / 10 ^ 6"] by auto
  then show "is_finite (scraped_seconds nanos)" "f64_le (Fin False 0) (scraped_seconds nanos)"
    by (simp_all add: s signed_def)
qed

section \<open>The round trip\<close>

abbreviation latency_name :: string where
  "latency_name \<equiv> ''ramjet_upstream_latency_seconds''"

lemma latency_names:
  "wordy latency_name" "hd latency_name \<noteq> CHR ''#''" "latency_name @ ''_bucket'' \<notin> set watched"
  "wordy (latency_name @ s) \<longleftrightarrow> wordy s \<or> s = []" "hd (latency_name @ s) \<noteq> CHR ''#''"
  by (auto simp: wordy_def visible_def watched_def)

lemma parse_histogram:
  assumes "unat (hi_count h) < 2 ^ 53"
  shows "parse_text (render_histogram latency_name h @ rest) m
    = parse_text rest (m\<lparr> mn_latency_sum_seconds := scraped_seconds (hi_sum_nanos h), mn_latency_count := hi_count h \<rparr>)"
proof -
  have bounds: "list_all (\<lambda>b. label_word (snd b)) BUCKETS" "list_all (\<lambda>b. label_word (snd b)) [(NaN, ''+Inf'')]"
    by (simp_all add: BUCKETS_def label_word_def wordy_def visible_def)
  have inf: "writeln (latency_name @ ''_bucket'' @ quoted_label ''le'' ''+Inf'' @ '' '' @ show_nat (unat c))
      = bucket_lines latency_name c [(NaN, ''+Inf'')] []" for c
    by (simp add: Let_def)
  have names: "wordy (latency_name @ ''_sum'')" "hd (latency_name @ ''_sum'') \<noteq> CHR ''#''"
    "wordy (latency_name @ ''_count'')" "hd (latency_name @ ''_count'') \<noteq> CHR ''#''"
    by (simp_all add: wordy_def visible_def)
  have sum: "take_sample \<lparr> sm_name = latency_name @ ''_sum'', sm_labels = [], sm_value = scraped_seconds n \<rparr> m
      = m\<lparr> mn_latency_sum_seconds := scraped_seconds n \<rparr>" for n m
    using read_nanos(3,4)[of n] by (simp add: take_sample_def Let_def)
  have cnt: "take_sample \<lparr> sm_name = latency_name @ ''_count'', sm_labels = [], sm_value = Fin False (of_nat (unat (hi_count h))) \<rparr> m
      = m\<lparr> mn_latency_count := hi_count h \<rparr>" for m
    using read_counter(2)[OF assms] by (simp only: take_sample_def prom_sample.select_convs Let_def) simp
  have lines: "writeln (latency_name @ ''_sum '' @ v) = writeln ((latency_name @ ''_sum'') @ '' '' @ v)"
    "writeln (latency_name @ ''_count '' @ v) = writeln ((latency_name @ ''_count'') @ '' '' @ v)" for v by simp_all
  have h: "render_histogram latency_name h @ rest
      = bucket_lines latency_name 0 BUCKETS (hi_buckets h)
        @ bucket_lines latency_name (hi_count h) [(NaN, ''+Inf'')] []
        @ writeln ((latency_name @ ''_sum'') @ '' '' @ nanos_text (hi_sum_nanos h))
        @ writeln ((latency_name @ ''_count'') @ '' '' @ show_nat (unat (hi_count h))) @ rest"
    by (simp only: render_histogram_def inf lines append_assoc)
  show ?thesis
    unfolding h skip_buckets[OF latency_names(1,2,3) bounds(1)] skip_buckets[OF latency_names(1,2,3) bounds(2)]
      value_line[OF names(1,2) read_nanos(1)] value_line[OF names(3,4) wordy_show_nat]
    by (simp only: read_nanos(2) read_counter(1)[OF assms] option.case sum cnt)
qed

lemma parse_gauge:
  assumes "\<bar>sint v\<bar> < 2 ^ 53" "wordy name" "hd name \<noteq> CHR ''#''" "helpful hlp"
  obtains x where "\<And>rest m. parse_text (gauge name hlp v @ rest) m = parse_text rest (take_sample \<lparr> sm_name = name, sm_labels = [], sm_value = x \<rparr> m)"
    "is_finite x" "f64_as_i64 x = v" "parse_f64 (show_i64 v) = Some x"
proof -
  from read_i64[OF assms(1)] obtain x where x: "wordy (show_i64 v)" "parse_f64 (show_i64 v) = Some x" "is_finite x" "f64_as_i64 x = v"
    by blast
  show ?thesis by (rule that[OF _ x(3,4,2)]) (simp only: gauge_lines[OF assms(2,3,4) x(1)] x(2) option.case)
qed

lemma show_i64_small:
  assumes "unat w < 2 ^ 53"
  shows "show_i64 w = show_nat (unat w)"
proof -
  have u: "uint w = int (unat w)" by simp
  have "int (unat w) < 2 ^ 53" using assms by (metis of_nat_less_iff of_nat_numeral of_nat_power)
  then have lt: "uint w < 2 ^ 53" by simp
  have ge: "0 \<le> uint w" by simp
  have "signed_take_bit 63 (uint w) = uint w"
  proof (rule signed_take_bit_int_eq_self)
    show "- (2 ^ 63) \<le> uint w" using ge by (rule order_trans[rotated]) simp
    show "uint w < 2 ^ 63" using lt by simp
  qed
  moreover have "sint w = signed_take_bit 63 (uint w)" by (simp add: sint_uint)
  ultimately have "sint w = int (unat w)" by (simp only: u)
  then show ?thesis by (simp add: show_i64_def show_int_def)
qed

lemma parse_counter_gauge:
  assumes "unat v < 2 ^ 53" "wordy name" "hd name \<noteq> CHR ''#''" "helpful hlp"
  shows "parse_text (gauge name hlp v @ rest) m
    = parse_text rest (take_sample \<lparr> sm_name = name, sm_labels = [], sm_value = Fin False (of_nat (unat v)) \<rparr> m)"
proof -
  have w: "wordy (show_i64 v)" by (simp add: show_i64_small[OF assms(1)] wordy_show_nat)
  show ?thesis
    by (simp only: gauge_lines[OF assms(2,3,4) w] show_i64_small[OF assms(1)] read_counter(1)[OF assms(1)] option.case)
qed

text \<open>The counters a client can read exactly: those below 53 bits.\<close>

definition readable :: "metrics \<Rightarrow> bool" where
  "readable m \<longleftrightarrow> metrics_shape m \<and> list_all (\<lambda>v. unat v < 2 ^ 53) (me_requests m)
     \<and> unat (hi_count (me_latency m)) < 2 ^ 53 \<and> \<bar>sint (me_active m)\<bar> < 2 ^ 53"

definition scraped :: "metrics \<Rightarrow> u64 \<Rightarrow> bool \<Rightarrow> metrics_snapshot" where
  "scraped m generation pinned =
     \<lparr> mn_requests_total = sum_list (me_requests m), mn_errors_5xx_total = me_requests m ! 4,
       mn_active_connections = Some (me_active m), mn_generation = Some generation,
       mn_latency_sum_seconds = scraped_seconds (hi_sum_nanos (me_latency m)),
       mn_latency_count = hi_count (me_latency m), mn_pinned = (if pinned then Some 1 else None) \<rparr>"

lemma parse_render:
  assumes "readable m" "unat generation < 2 ^ 53"
  shows "parse_exposition (render_prometheus m generation pinned) = scraped m generation pinned"
proof -
  have len: "length (me_requests m) = 6" using assms(1) by (simp add: readable_def metrics_shape_def)
  let ?f = "\<lambda>i. opt_or 0 (get_at (me_requests m) i)"
  have f: "?f i = me_requests m ! i" if "i < 6" for i using that len by (simp add: get_at_def opt_or_def)
  have small: "\<And>i. i < 6 \<Longrightarrow> unat (?f i) < 2 ^ 53"
    using assms(1) len by (simp add: f readable_def list_all_length)
  have cnt: "unat (hi_count (me_latency m)) < 2 ^ 53" and act: "\<bar>sint (me_active m)\<bar> < 2 ^ 53"
    using assms(1) by (simp_all add: readable_def)
  have sum: "?f 0 + ?f 1 + ?f 2 + ?f 3 + ?f 4 + ?f 5 = sum_list (me_requests m)"
    using len by (auto simp: f numeral_eq_Suc length_Suc_conv add.assoc)
  have f4: "?f 4 = me_requests m ! 4" by (simp add: f)
  let ?a = "''ramjet_active_connections''" and ?g = "''ramjet_route_table_generation''" and ?p = "''ramjet_pinned''"
  have names: "wordy ?a" "hd ?a \<noteq> CHR ''#''" "wordy ?g" "hd ?g \<noteq> CHR ''#''" "wordy ?p" "hd ?p \<noteq> CHR ''#''"
    by (simp_all add: wordy_def visible_def)
  have helps: "helpful ''Downstream connections currently being served.''" "helpful ''Generation of the currently published route table.''"
    "helpful ''1 when a rollback is holding publication at a chosen generation.''"
    "helpful ''HELP ramjet_requests_total Responses served, by status class.''" "helpful ''TYPE ramjet_requests_total counter''"
    "helpful ''HELP ramjet_upstream_latency_seconds Time from upstream dispatch to response headers.''"
    "helpful ''TYPE ramjet_upstream_latency_seconds histogram''"
    by (simp_all add: helpful_def visible_def)
  have comments: "writeln ''# HELP ramjet_requests_total Responses served, by status class.''
      = writeln (''# '' @ ''HELP ramjet_requests_total Responses served, by status class.'')"
    "writeln ''# TYPE ramjet_requests_total counter'' = writeln (''# '' @ ''TYPE ramjet_requests_total counter'')"
    "writeln ''# HELP ramjet_upstream_latency_seconds Time from upstream dispatch to response headers.''
      = writeln (''# '' @ ''HELP ramjet_upstream_latency_seconds Time from upstream dispatch to response headers.'')"
    "writeln ''# TYPE ramjet_upstream_latency_seconds histogram'' = writeln (''# '' @ ''TYPE ramjet_upstream_latency_seconds histogram'')"
    by simp_all
  obtain x where x: "\<And>rest m'. parse_text (gauge ?a ''Downstream connections currently being served.'' (me_active m) @ rest) m'
      = parse_text rest (take_sample \<lparr> sm_name = ?a, sm_labels = [], sm_value = x \<rparr> m')"
    "is_finite x" "f64_as_i64 x = me_active m"
    by (rule parse_gauge[OF act names(1,2) helps(1)], rule that, assumption+)
  have pin: "unat (if pinned then 1 else 0 :: u64) < 2 ^ 53" by simp
  have gen: "ucast generation = generation" by simp
  have tail: "parse_text (concat (map counter_series (metrics_series m))) m' = m'" for m'
    using skip_series[OF watched_not_series, of m "[]" m'] by simp
  have z: "mn_requests_total snapshot_default = 0" "mn_errors_5xx_total snapshot_default = 0"
    by (simp_all add: snapshot_default_def)
  note cg = parse_counter_gauge[OF assms(2) names(3,4) helps(2)] parse_counter_gauge[OF pin names(5,6) helps(3)]
  have "parse_text (render_prometheus m generation pinned) snapshot_default
     = take_sample \<lparr> sm_name = ?p, sm_labels = [], sm_value = Fin False (of_nat (unat (if pinned then 1 else 0 :: u64))) \<rparr>
         (take_sample \<lparr> sm_name = ?g, sm_labels = [], sm_value = Fin False (of_nat (unat generation)) \<rparr>
           (take_sample \<lparr> sm_name = ?a, sm_labels = [], sm_value = x \<rparr>
             (snapshot_default\<lparr> mn_requests_total := sum_list (me_requests m), mn_errors_5xx_total := me_requests m ! 4,
                mn_latency_sum_seconds := scraped_seconds (hi_sum_nanos (me_latency m)),
                mn_latency_count := hi_count (me_latency m) \<rparr>)))"
    by (simp only: render_prometheus_def comments skip_comment[OF helps(4)] skip_comment[OF helps(5)]
        skip_comment[OF helps(6)] skip_comment[OF helps(7)] parse_classes[OF small z] parse_histogram[OF cnt] x(1) gen cg tail sum[unfolded f4] f4)
  also have "\<dots> = scraped m generation pinned"
    using read_counter(2)[OF assms(2)] read_counter(2)[OF pin] as_counter_nat[of 1] x(2,3)
    by (simp add: take_sample_def scraped_def snapshot_default_def Let_def)
  finally show ?thesis by (simp add: parse_exposition_def parse_text_def)
qed

section \<open>Properties\<close>

text \<open>
  C26. The page either engine renders is read back by ramjet-top as the numbers behind it: the
  responses over all classes, the 5xx ones, the open connections, the generation, and the latency
  sum (to the microsecond the page carries) and count, as long as they are below 53 bits.
\<close>

theorem scrape_roundtrip:
  assumes "unat generation < 2 ^ 53" "readable m" "merged e = m"
  shows "parse_exposition (render_prometheus m generation pinned) = scraped m generation pinned
    \<and> parse_exposition (engine_render_prometheus e generation pinned) = scraped m generation pinned"
  using parse_render[OF assms(2,1)] by (simp add: engine_render_merged assms(3))

text \<open>
  While a rollback pins publication, the page says so with a 1, and ramjet-top, when the admin
  API names no pin, shows that 1 as the pinned generation, whatever generation is serving.
\<close>

theorem pin_flag_read_as_generation:
  assumes "readable m" "unat generation < 2 ^ 53"
  shows "shown_pin None (parse_exposition (render_prometheus m generation True)) = Some 1"
  by (simp add: parse_render[OF assms] scraped_def shown_pin_def)

definition busy_metrics :: metrics where
  "busy_metrics = fold metrics_event [EvOpened, EvResponse 200, EvResponse 503, EvResponse 204] metrics_default"

lemma replicate_six: "replicate 6 x = [x, x, x, x, x, x]"
  by (simp add: numeral_eq_Suc)

lemma busy_metrics_readable: "readable busy_metrics" "unat (7 :: u64) < 2 ^ 53" "metrics_shape busy_metrics"
  by (simp_all add: readable_def busy_metrics_def metrics_shape_def metrics_default_def metrics_ops bump_def class_index_def Let_def replicate_six)

lemma scrape_roundtrip_witness:
  "mn_requests_total (parse_exposition (render_prometheus busy_metrics 7 False)) = 3
    \<and> mn_errors_5xx_total (parse_exposition (render_prometheus busy_metrics 7 False)) = 1
    \<and> mn_generation (parse_exposition (render_prometheus busy_metrics 7 False)) = Some 7"
  by (simp add: scrape_roundtrip[OF busy_metrics_readable(2,1) merged_with_peer[OF busy_metrics_readable(3)]] scraped_def)
    (simp add: busy_metrics_def metrics_default_def metrics_ops bump_def class_index_def Let_def replicate_six)

lemma pin_flag_read_as_generation_witness:
  "shown_pin None (parse_exposition (render_prometheus busy_metrics 7 True)) = Some 1"
  by (rule pin_flag_read_as_generation[OF busy_metrics_readable(1,2)])

end
