(* ===== verification/Tls.thy ===== *)
theory Tls
  imports Prelude
begin

text \<open>
  TLS termination without a socket, \<open>crates/ramjet-engine/src/tls.rs\<close>: \<open>Session\<close> over rustls. The
  acceptor, the accepted hello, the live connection and the server configuration are rustls's and
  are parameters, with the calls the session makes on them: \<open>read_plain\<close> is what a connection's
  reader yields until it has no more, \<open>write_records\<close> what \<open>write_tls\<close> writes while the connection
  wants to write. A read takes a number of bytes from the front of what it is offered, or fails.
\<close>

section \<open>The session\<close>

datatype ('a, 'd) accepting = AcceptMore 'a | AcceptDone 'd | AcceptFailed bytes

record ('a, 'd, 'c, 'f) rustls =
  acceptor_default :: 'a
  acceptor_read_tls :: "bytes \<Rightarrow> 'a \<Rightarrow> (nat \<times> 'a) option"
  acceptor_accept :: "'a \<Rightarrow> ('a, 'd) accepting"
  client_alpn :: "'d \<Rightarrow> bytes list option"
  into_connection :: "'f \<Rightarrow> 'd \<Rightarrow> bytes + 'c"
  conn_read_tls :: "bytes \<Rightarrow> 'c \<Rightarrow> (nat \<times> 'c) option"
  process_new_packets :: "'c \<Rightarrow> bool \<times> 'c"
  read_plain :: "'c \<Rightarrow> bytes \<times> 'c"
  write_records :: "'c \<Rightarrow> bytes \<times> 'c"
  writer_write :: "bytes \<Rightarrow> 'c \<Rightarrow> (nat \<times> 'c) option"
  is_handshaking :: "'c \<Rightarrow> bool"
  close_notify :: "'c \<Rightarrow> 'c"

datatype offer = OfferHttp2 | OfferHttp11

datatype tls_step = NeedMore | HelloStep offer | LiveStep

datatype ('a, 'd, 'c) tls_state = TlsHello 'a | TlsReady 'd | TlsLive 'c | TlsDead

record ('a, 'd, 'c) session =
  ts_state :: "('a, 'd, 'c) tls_state"
  ts_replay :: bytes
  ts_pending :: bytes
  ts_wire_out :: bytes
  ts_offer :: "offer option"
  ts_counted :: bool

definition session_new :: "('a, 'd, 'c, 'f) rustls \<Rightarrow> ('a, 'd, 'c) session" where
  "session_new R =
     \<lparr> ts_state = TlsHello (acceptor_default R), ts_replay = [], ts_pending = [], ts_wire_out = [],
       ts_offer = None, ts_counted = False \<rparr>"

definition offer_of :: "('a, 'd, 'c, 'f) rustls \<Rightarrow> 'd \<Rightarrow> offer" where
  "offer_of R d = (case client_alpn R d of None \<Rightarrow> OfferHttp11 | Some ps \<Rightarrow> if ''h2'' \<in> set ps then OfferHttp2 else OfferHttp11)"

function acceptor_feed :: "('a, 'd, 'c, 'f) rustls \<Rightarrow> bytes \<Rightarrow> 'a \<Rightarrow> 'a" where
  "acceptor_feed R cursor a =
     (if cursor = [] then a
      else case acceptor_read_tls R cursor a of
             None \<Rightarrow> a
           | Some (n, a') \<Rightarrow> if n = 0 then a' else acceptor_feed R (drop n cursor) a')"
  by pat_completeness auto
termination by (relation "measure (\<lambda>(R, cursor, a). length cursor)") auto

declare acceptor_feed.simps [simp del]

definition feed_hello ::
    "('a, 'd, 'c, 'f) rustls \<Rightarrow> bytes \<Rightarrow> ('a, 'd, 'c) session \<Rightarrow> tls_step option \<times> ('a, 'd, 'c) session" where
  "feed_hello R cipher s =
     (case ts_state s of
        TlsHello a \<Rightarrow>
          (let s1 = s\<lparr> ts_replay := ts_replay s @ cipher \<rparr> in
           case acceptor_accept R (acceptor_feed R cipher a) of
             AcceptMore a' \<Rightarrow> (Some NeedMore, s1\<lparr> ts_state := TlsHello a' \<rparr>)
           | AcceptDone d \<Rightarrow>
               (Some (HelloStep (offer_of R d)), s1\<lparr> ts_offer := Some (offer_of R d), ts_state := TlsReady d \<rparr>)
           | AcceptFailed alert \<Rightarrow> (None, s1\<lparr> ts_wire_out := ts_wire_out s1 @ alert, ts_state := TlsDead \<rparr>))
      | _ \<Rightarrow> (Some LiveStep, s))"

text \<open>The loop of \<open>feed_live\<close>: the connection, the plaintext it gave and whether it failed.\<close>

function live_loop :: "('a, 'd, 'c, 'f) rustls \<Rightarrow> bytes \<Rightarrow> 'c \<Rightarrow> bytes \<Rightarrow> 'c \<times> bytes \<times> bool" where
  "live_loop R cursor c plain =
     (if cursor = [] then (c, plain, False)
      else case conn_read_tls R cursor c of
             None \<Rightarrow> (c, plain, False)
           | Some (n, c1) \<Rightarrow>
               (case process_new_packets R c1 of
                  (False, c2) \<Rightarrow> (c2, plain, True)
                | (True, c2) \<Rightarrow>
                    (let (out, c3) = read_plain R c2 in
                     if n = 0 then (c3, plain @ out, False)
                     else live_loop R (drop n cursor) c3 (plain @ out))))"
  by pat_completeness auto
termination by (relation "measure (\<lambda>(R, cursor, c, plain). length cursor)") auto

declare live_loop.simps [simp del]

definition pump_into :: "('a, 'd, 'c, 'f) rustls \<Rightarrow> 'c \<Rightarrow> ('a, 'd, 'c) session \<Rightarrow> 'c \<times> ('a, 'd, 'c) session" where
  "pump_into R c s = (let (records, c') = write_records R c in (c', s\<lparr> ts_wire_out := ts_wire_out s @ records \<rparr>))"

text \<open>\<open>feed_live\<close> and \<open>feed\<close> return whether they succeeded and the plaintext with what they appended.\<close>

definition feed_live ::
    "('a, 'd, 'c, 'f) rustls \<Rightarrow> bytes \<Rightarrow> bytes \<Rightarrow> ('a, 'd, 'c) session \<Rightarrow> bool \<times> bytes \<times> ('a, 'd, 'c) session" where
  "feed_live R cipher plain s =
     (case ts_state s of
        TlsLive c \<Rightarrow>
          (let (c1, plain', failed) = live_loop R cipher c plain;
               (c2, s1) = pump_into R c1 (s\<lparr> ts_state := TlsDead \<rparr>) in
           if failed then (False, plain', s1) else (True, plain', s1\<lparr> ts_state := TlsLive c2 \<rparr>))
      | _ \<Rightarrow> (True, plain, s\<lparr> ts_state := TlsDead \<rparr>))"

definition tls_feed ::
    "('a, 'd, 'c, 'f) rustls \<Rightarrow> bytes \<Rightarrow> bytes \<Rightarrow> ('a, 'd, 'c) session \<Rightarrow> tls_step option \<times> bytes \<times> ('a, 'd, 'c) session" where
  "tls_feed R cipher plain s =
     (case ts_state s of
        TlsDead \<Rightarrow> (Some LiveStep, plain, s)
      | TlsHello _ \<Rightarrow> (let (step, s') = feed_hello R cipher s in (step, plain, s'))
      | TlsReady _ \<Rightarrow>
          (Some (HelloStep (opt_or OfferHttp11 (ts_offer s))), plain,
           s\<lparr> ts_replay := ts_replay s @ cipher, ts_pending := ts_pending s @ cipher \<rparr>)
      | TlsLive _ \<Rightarrow>
          (let (ok, plain', s') = feed_live R cipher plain s in (if ok then Some LiveStep else None, plain', s')))"

definition tls_accept ::
    "('a, 'd, 'c, 'f) rustls \<Rightarrow> 'f \<Rightarrow> bytes \<Rightarrow> ('a, 'd, 'c) session \<Rightarrow> bool \<times> bytes \<times> ('a, 'd, 'c) session" where
  "tls_accept R config plain s =
     (case ts_state s of
        TlsReady d \<Rightarrow>
          (let s1 = s\<lparr> ts_state := TlsDead, ts_replay := [] \<rparr> in
           case into_connection R config d of
             Inl alert \<Rightarrow> (False, plain, s1\<lparr> ts_wire_out := ts_wire_out s1 @ alert \<rparr>)
           | Inr c \<Rightarrow>
               (case process_new_packets R c of
                  (False, c1) \<Rightarrow> (False, plain, snd (pump_into R c1 s1))
                | (True, c1) \<Rightarrow>
                    (let (out, c2) = read_plain R c1;
                         (c3, s2) = pump_into R c2 s1;
                         s3 = s2\<lparr> ts_state := TlsLive c3 \<rparr> in
                     if ts_pending s3 = [] then (True, plain @ out, s3)
                     else feed_live R (ts_pending s3) (plain @ out) (s3\<lparr> ts_pending := [] \<rparr>))))
      | _ \<Rightarrow> (True, plain, s\<lparr> ts_state := TlsDead \<rparr>))"

definition into_replay :: "('a, 'd, 'c) session \<Rightarrow> bytes" where
  "into_replay s = ts_replay s"

text \<open>\<open>seal\<close>: the number of bytes accepted. The records are collected before each write.\<close>

function seal_loop ::
    "('a, 'd, 'c, 'f) rustls \<Rightarrow> bytes \<Rightarrow> nat \<Rightarrow> 'c \<Rightarrow> ('a, 'd, 'c) session \<Rightarrow> nat \<times> 'c \<times> ('a, 'd, 'c) session" where
  "seal_loop R plain sent c s =
     (let (c1, s1) = pump_into R c s in
      if plain = [] then (sent, c1, s1)
      else case writer_write R plain c1 of
             None \<Rightarrow> (sent, c1, s1)
           | Some (n, c2) \<Rightarrow> if n = 0 then (sent, c2, s1) else seal_loop R (drop n plain) (sent + n) c2 s1)"
  by pat_completeness auto
termination by (relation "measure (\<lambda>(R, plain, sent, c, s). length plain)") auto

declare seal_loop.simps [simp del]

definition tls_seal :: "('a, 'd, 'c, 'f) rustls \<Rightarrow> bytes \<Rightarrow> ('a, 'd, 'c) session \<Rightarrow> nat \<times> ('a, 'd, 'c) session" where
  "tls_seal R plain s =
     (case ts_state s of
        TlsLive c \<Rightarrow> (let (sent, c', s') = seal_loop R plain 0 c s in (sent, s'\<lparr> ts_state := TlsLive c' \<rparr>))
      | _ \<Rightarrow> (0, s))"

definition tls_established :: "('a, 'd, 'c, 'f) rustls \<Rightarrow> ('a, 'd, 'c) session \<Rightarrow> bool" where
  "tls_established R s \<longleftrightarrow> (case ts_state s of TlsLive c \<Rightarrow> \<not> is_handshaking R c | _ \<Rightarrow> False)"

definition tls_kill :: "('a, 'd, 'c) session \<Rightarrow> ('a, 'd, 'c) session" where
  "tls_kill s = s\<lparr> ts_state := TlsDead \<rparr>"

definition take_established :: "('a, 'd, 'c, 'f) rustls \<Rightarrow> ('a, 'd, 'c) session \<Rightarrow> bool \<times> ('a, 'd, 'c) session" where
  "take_established R s =
     (if ts_counted s \<or> \<not> tls_established R s then (False, s) else (True, s\<lparr> ts_counted := True \<rparr>))"

definition send_close_notify :: "('a, 'd, 'c, 'f) rustls \<Rightarrow> ('a, 'd, 'c) session \<Rightarrow> ('a, 'd, 'c) session" where
  "send_close_notify R s =
     (case ts_state s of
        TlsLive c \<Rightarrow> (let (c', s') = pump_into R (close_notify R c) s in s'\<lparr> ts_state := TlsLive c' \<rparr>)
      | _ \<Rightarrow> s)"

section \<open>The handoff\<close>

text \<open>A connection that is only read from: the reads it has had, fed in order, with the plaintext they gave.\<close>

fun feed_all ::
    "('a, 'd, 'c, 'f) rustls \<Rightarrow> bytes list \<Rightarrow> ('a, 'd, 'c) session \<Rightarrow> bytes \<times> ('a, 'd, 'c) session" where
  "feed_all R [] s = ([], s)"
| "feed_all R (x # xs) s =
     (let (step, plain, s') = tls_feed R x [] s; (plain', s'') = feed_all R xs s' in (plain @ plain', s''))"

lemma feed_undecided:
  assumes "case ts_state s of TlsHello _ \<Rightarrow> True | TlsReady _ \<Rightarrow> True | _ \<Rightarrow> False"
    and "tls_feed R x plain s = (r, plain', s')"
  shows "plain' = plain \<and> ts_replay s' = ts_replay s @ x
    \<and> (case ts_state s' of TlsLive _ \<Rightarrow> False | _ \<Rightarrow> True) \<and> ts_counted s' = ts_counted s"
  using assms
  by (auto simp: tls_feed_def feed_hello_def Let_def split: tls_state.splits accepting.splits prod.splits)

lemma feed_dead: "ts_state s = TlsDead \<Longrightarrow> feed_all R xs s = ([], s)"
  by (induction xs) (simp_all add: tls_feed_def)

lemma feed_all_undecided:
  assumes "feed_all R xs s = (plain, s')" "case ts_state s of TlsLive _ \<Rightarrow> False | _ \<Rightarrow> True"
  shows "plain = [] \<and> (case ts_state s' of TlsLive _ \<Rightarrow> False | _ \<Rightarrow> True)
    \<and> (ts_state s' \<noteq> TlsDead \<longrightarrow> ts_replay s' = ts_replay s @ concat xs)"
  using assms
proof (induction xs arbitrary: s plain)
  case (Cons x xs)
  show ?case
  proof (cases "ts_state s = TlsDead")
    case True
    with Cons.prems show ?thesis by (simp add: feed_dead tls_feed_def)
  next
    case False
    obtain r p1 s1 where f: "tls_feed R x [] s = (r, p1, s1)" by (metis prod_cases3)
    obtain p2 where more: "feed_all R xs s1 = (p2, s')" "plain = p1 @ p2"
      using Cons.prems(1) f by (auto split: prod.splits)
    have "p1 = []" "ts_replay s1 = ts_replay s @ x" "case ts_state s1 of TlsLive _ \<Rightarrow> False | _ \<Rightarrow> True"
      using feed_undecided[OF _ f] Cons.prems(2) False by (auto split: tls_state.splits)
    with Cons.IH[OF more(1)] more(2) show ?thesis by simp
  qed
qed simp

text \<open>
  C29. The handoff to the other engine is exact: however the client's bytes are cut into reads, a
  session nobody has accepted has given no plaintext, and unless its hello was refused it replays
  every byte it was given, in order and with nothing added.
\<close>

theorem handoff_replays_every_byte:
  assumes "feed_all R xs (session_new R) = (plain, s)"
  shows "plain = [] \<and> \<not> tls_established R s \<and> (ts_state s \<noteq> TlsDead \<longrightarrow> into_replay s = concat xs)"
  using feed_all_undecided[OF assms]
  by (auto simp: into_replay_def session_new_def tls_established_def split: tls_state.splits)

text \<open>An acceptor that has read a hello once it holds three bytes.\<close>

definition sample_rustls :: "(bytes, bytes, unit, unit) rustls" where
  "sample_rustls =
     \<lparr> acceptor_default = [], acceptor_read_tls = (\<lambda>x a. Some (length x, a @ x)),
       acceptor_accept = (\<lambda>a. if length a < 3 then AcceptMore a else AcceptDone a),
       client_alpn = (\<lambda>_. Some [''h2'']), into_connection = (\<lambda>_ _. Inl []), conn_read_tls = (\<lambda>_ _. None),
       process_new_packets = (\<lambda>c. (True, c)), read_plain = (\<lambda>c. ([], c)), write_records = (\<lambda>c. ([], c)),
       writer_write = (\<lambda>_ _. None), is_handshaking = (\<lambda>_. True), close_notify = (\<lambda>c. c) \<rparr>"

theorem handoff_replays_every_byte_witness:
  "fst (feed_all sample_rustls [''ab'', ''cd'', ''e''] (session_new sample_rustls)) = []
   \<and> into_replay (snd (feed_all sample_rustls [''ab'', ''cd'', ''e''] (session_new sample_rustls))) = ''abcde''"
proof -
  have "ts_state (snd (feed_all sample_rustls [''ab'', ''cd'', ''e''] (session_new sample_rustls))) \<noteq> TlsDead"
    by (simp add: session_new_def tls_feed_def feed_hello_def acceptor_feed.simps sample_rustls_def)
  with handoff_replays_every_byte[of sample_rustls "[''ab'', ''cd'', ''e'']", OF prod.collapse [symmetric]] show ?thesis by simp
qed

end
