(* ===== verification/Pool.thy ===== *)
theory Pool
  imports Ip_Addr "HOL-Library.Multiset"
begin

text \<open>
  The idle upstream connections of one core, \<open>crates/ramjet-engine/src/engine/pool.rs\<close>. The map of
  endpoints is the association list of its contents, iterated in an order nothing below depends
  on; instants and durations are nanoseconds, and \<open>duration_since\<close> saturates at zero as the
  subtraction of naturals does. The clock \<open>put\<close> reads is an argument.
\<close>

section \<open>Definitions\<close>

type_synonym raw_fd = int

record idle =
  il_fd :: raw_fd
  il_since :: nat

record pool =
  po_by_endpoint :: "(socket_addr \<times> idle list) list"
  po_max_idle_per_host :: nat
  po_idle_timeout :: nat

definition pool_new :: "nat \<Rightarrow> nat \<Rightarrow> pool" where
  "pool_new max_idle timeout =
     \<lparr> po_by_endpoint = [], po_max_idle_per_host = max_idle, po_idle_timeout = timeout \<rparr>"

definition hm_remove :: "'k \<Rightarrow> ('k \<times> 'v) list \<Rightarrow> ('k \<times> 'v) list" where
  "hm_remove k m = filter (\<lambda>e. fst e \<noteq> k) m"

text \<open>A bucket written back: removed when it is empty.\<close>

definition keep_bucket :: "socket_addr \<Rightarrow> idle list \<Rightarrow> pool \<Rightarrow> pool" where
  "keep_bucket addr idle p =
     p\<lparr> po_by_endpoint :=
          (if idle = [] then hm_remove addr (po_by_endpoint p) else hm_insert addr idle (po_by_endpoint p)) \<rparr>"

definition pool_take :: "socket_addr \<Rightarrow> pool \<Rightarrow> raw_fd option \<times> pool" where
  "pool_take addr p =
     (case map_of (po_by_endpoint p) addr of
        None \<Rightarrow> (None, p)
      | Some idle \<Rightarrow>
          if idle = [] then (None, p)
          else (Some (il_fd (last idle)), keep_bucket addr (butlast idle) p))"

definition pool_put :: "nat \<Rightarrow> socket_addr \<Rightarrow> raw_fd \<Rightarrow> pool \<Rightarrow> raw_fd option \<times> pool" where
  "pool_put now addr fd p =
     (let idle = opt_or [] (map_of (po_by_endpoint p) addr);
          entered = p\<lparr> po_by_endpoint := hm_insert addr idle (po_by_endpoint p) \<rparr>
      in if length idle \<ge> po_max_idle_per_host p then (Some fd, entered)
         else (None, p\<lparr> po_by_endpoint :=
                 hm_insert addr (idle @ [\<lparr> il_fd = fd, il_since = now \<rparr>]) (po_by_endpoint p) \<rparr>))"

definition pool_remove :: "socket_addr \<Rightarrow> raw_fd \<Rightarrow> pool \<Rightarrow> bool \<times> pool" where
  "pool_remove addr fd p =
     (case map_of (po_by_endpoint p) addr of
        None \<Rightarrow> (False, p)
      | Some idle \<Rightarrow>
          (case position (\<lambda>i. il_fd i = fd) idle of
             None \<Rightarrow> (False, p)
           | Some at \<Rightarrow> (True, keep_bucket addr (take at idle @ drop (Suc at) idle) p)))"

definition idle_expired :: "nat \<Rightarrow> nat \<Rightarrow> idle \<Rightarrow> bool" where
  "idle_expired timeout now i \<longleftrightarrow> now - il_since i \<ge> timeout"

definition pool_expire :: "nat \<Rightarrow> pool \<Rightarrow> raw_fd list \<times> pool" where
  "pool_expire now p =
     (let gone = idle_expired (po_idle_timeout p) now
      in (concat (map (\<lambda>(_, idle). map il_fd (filter gone idle)) (po_by_endpoint p)),
          p\<lparr> po_by_endpoint :=
               filter (\<lambda>(_, idle). idle \<noteq> [])
                 (map (\<lambda>(addr, idle). (addr, filter (\<lambda>i. \<not> gone i) idle)) (po_by_endpoint p)) \<rparr>))"

definition pool_drain :: "pool \<Rightarrow> raw_fd list \<times> pool" where
  "pool_drain p =
     (concat (map (\<lambda>(_, idle). map il_fd idle) (po_by_endpoint p)), p\<lparr> po_by_endpoint := [] \<rparr>)"

definition pool_is_empty :: "pool \<Rightarrow> bool" where
  "pool_is_empty p = (po_by_endpoint p = [])"

section \<open>What the pool holds\<close>

definition pool_wf :: "pool \<Rightarrow> bool" where
  "pool_wf p \<longleftrightarrow> distinct (map fst (po_by_endpoint p))
     \<and> (\<forall>(_, idle) \<in> set (po_by_endpoint p). length idle \<le> po_max_idle_per_host p)"

definition bucket :: "pool \<Rightarrow> socket_addr \<Rightarrow> idle list" where
  "bucket p addr = opt_or [] (map_of (po_by_endpoint p) addr)"

definition held :: "pool \<Rightarrow> (socket_addr \<times> raw_fd) multiset" where
  "held p = (\<Sum>e \<leftarrow> po_by_endpoint p. mset (map (\<lambda>i. (fst e, il_fd i)) (snd e)))"

lemma held_hm_remove:
  assumes "distinct (map fst m)"
  shows "(\<Sum>e \<leftarrow> m. mset (map (\<lambda>i. (fst e, il_fd i)) (snd e)))
    = mset (map (\<lambda>i. (addr, il_fd i)) (opt_or [] (map_of m addr)))
      + (\<Sum>e \<leftarrow> hm_remove addr m. mset (map (\<lambda>i. (fst e, il_fd i)) (snd e)))"
  using assms
proof (induction m)
  case (Cons e m)
  obtain a idle where e: "e = (a, idle)" by (cases e)
  show ?case
  proof (cases "a = addr")
    case True
    with Cons.prems e have "addr \<notin> fst ` set m" by auto
    then have "hm_remove addr m = m" by (auto simp: hm_remove_def filter_id_conv)
    with True e show ?thesis by (simp add: opt_or_def hm_remove_def)
  next
    case False
    with Cons e show ?thesis by (simp add: hm_remove_def ac_simps)
  qed
qed (simp add: opt_or_def hm_remove_def)

lemma held_split:
  assumes "distinct (map fst (po_by_endpoint p))"
  shows "held p = mset (map (\<lambda>i. (addr, il_fd i)) (bucket p addr))
    + held (p\<lparr> po_by_endpoint := hm_remove addr (po_by_endpoint p) \<rparr>)"
  unfolding held_def bucket_def using held_hm_remove[OF assms, of addr] by simp

lemma hm_insert_remove: "hm_insert k v m = (k, v) # hm_remove k m"
  by (simp add: hm_insert_def hm_remove_def)

lemma held_insert:
  "held (p\<lparr> po_by_endpoint := hm_insert addr idle (po_by_endpoint p) \<rparr>)
     = mset (map (\<lambda>i. (addr, il_fd i)) idle) + held (p\<lparr> po_by_endpoint := hm_remove addr (po_by_endpoint p) \<rparr>)"
  by (simp add: held_def hm_insert_remove)

lemma held_keep_bucket:
  "held (keep_bucket addr idle p)
     = mset (map (\<lambda>i. (addr, il_fd i)) idle) + held (p\<lparr> po_by_endpoint := hm_remove addr (po_by_endpoint p) \<rparr>)"
  by (cases "idle = []") (simp_all add: keep_bucket_def held_insert)

lemma wf_hm_remove: "pool_wf p \<Longrightarrow> pool_wf (p\<lparr> po_by_endpoint := hm_remove addr (po_by_endpoint p) \<rparr>)"
  by (auto simp: pool_wf_def hm_remove_def distinct_map_filter)

lemma wf_insert:
  "pool_wf p \<Longrightarrow> length idle \<le> po_max_idle_per_host p \<Longrightarrow>
    pool_wf (p\<lparr> po_by_endpoint := hm_insert addr idle (po_by_endpoint p) \<rparr>)"
  by (auto simp: pool_wf_def hm_insert_def distinct_map_filter)

lemma wf_keep_bucket:
  "pool_wf p \<Longrightarrow> length idle \<le> po_max_idle_per_host p \<Longrightarrow> pool_wf (keep_bucket addr idle p)"
  using wf_hm_remove wf_insert by (simp add: keep_bucket_def)

lemma wf_bucket: "pool_wf p \<Longrightarrow> length (bucket p addr) \<le> po_max_idle_per_host p"
  by (auto simp: pool_wf_def bucket_def opt_or_def split: option.split dest!: map_of_SomeD)

lemma keep_bucket_limits [simp]:
  "po_max_idle_per_host (keep_bucket addr idle p) = po_max_idle_per_host p"
  "po_idle_timeout (keep_bucket addr idle p) = po_idle_timeout p"
  by (simp_all add: keep_bucket_def)

section \<open>The operations\<close>

lemma take_spec:
  assumes "pool_wf p" "pool_take addr p = (r, p')"
  shows "pool_wf p' \<and> held p = (case r of Some fd \<Rightarrow> {#(addr, fd)#} | None \<Rightarrow> {#}) + held p'
    \<and> (r = None \<longleftrightarrow> bucket p addr = [])"
proof (cases "bucket p addr")
  case Nil
  then have "r = None" "p' = p" using assms(2) by (auto simp: pool_take_def bucket_def opt_or_def split: option.splits if_splits)
  with Nil assms(1) show ?thesis by simp
next
  case (Cons i rest)
  then have r: "r = Some (il_fd (last (bucket p addr)))" "p' = keep_bucket addr (butlast (bucket p addr)) p"
    using assms(2) by (auto simp: pool_take_def bucket_def opt_or_def split: option.splits if_splits)
  have ne: "bucket p addr \<noteq> []" using Cons by simp
  have "held p = {#(addr, il_fd (last (bucket p addr)))#} + held p'"
    using assms(1) unfolding r held_keep_bucket
    by (subst held_split[of p addr], simp add: pool_wf_def, subst append_butlast_last_id[OF ne, symmetric]) simp
  moreover have "pool_wf p'" unfolding r
    by (rule wf_keep_bucket[OF assms(1)]) (use wf_bucket[OF assms(1), of addr] in simp)
  ultimately show ?thesis using r ne by simp
qed

lemma put_spec:
  assumes "pool_wf p" "pool_put now addr fd p = (r, p')"
  shows "pool_wf p' \<and> (case r of
      None \<Rightarrow> held p' = {#(addr, fd)#} + held p \<and> length (bucket p addr) < po_max_idle_per_host p
    | Some fd' \<Rightarrow> fd' = fd \<and> held p' = held p \<and> length (bucket p addr) = po_max_idle_per_host p)"
proof (cases "length (bucket p addr) \<ge> po_max_idle_per_host p")
  case True
  then have "r = Some fd" "p' = p\<lparr> po_by_endpoint := hm_insert addr (bucket p addr) (po_by_endpoint p) \<rparr>"
    using assms(2) by (simp_all add: pool_put_def Let_def bucket_def)
  moreover have "held p' = held p" unfolding calculation(2) held_insert
    using held_split[of p addr] assms(1) by (simp add: pool_wf_def)
  ultimately show ?thesis using True wf_bucket[OF assms(1), of addr] wf_insert[OF assms(1)] by simp
next
  case False
  then have "r = None" "p' = p\<lparr> po_by_endpoint := hm_insert addr (bucket p addr @ [\<lparr> il_fd = fd, il_since = now \<rparr>]) (po_by_endpoint p) \<rparr>"
    using assms(2) by (simp_all add: pool_put_def Let_def bucket_def)
  moreover have "held p' = {#(addr, fd)#} + held p" unfolding calculation(2) held_insert
    using held_split[of p addr] assms(1) by (simp add: pool_wf_def)
  ultimately show ?thesis using False wf_insert[OF assms(1)] by simp
qed

lemma held_addr: "x \<in># held p \<Longrightarrow> fst x \<in> fst ` set (po_by_endpoint p)"
proof -
  have "x \<in># (\<Sum>e \<leftarrow> m. mset (map (\<lambda>i. (fst e, il_fd i)) (snd e))) \<Longrightarrow> fst x \<in> fst ` set m"
    for m :: "(socket_addr \<times> idle list) list" by (induction m) auto
  then show "x \<in># held p \<Longrightarrow> fst x \<in> fst ` set (po_by_endpoint p)" by (simp add: held_def)
qed

lemma remove_spec:
  assumes "pool_wf p" "pool_remove addr fd p = (found, p')"
  shows "pool_wf p' \<and> held p = (if found then {#(addr, fd)#} else {#}) + held p'
    \<and> (found \<longleftrightarrow> (addr, fd) \<in># held p)"
proof -
  have split: "held p = mset (map (\<lambda>i. (addr, il_fd i)) (bucket p addr))
      + held (p\<lparr> po_by_endpoint := hm_remove addr (po_by_endpoint p) \<rparr>)"
    using assms(1) by (intro held_split) (simp add: pool_wf_def)
  have "(addr, fd) \<notin># held (p\<lparr> po_by_endpoint := hm_remove addr (po_by_endpoint p) \<rparr>)"
    using held_addr by (fastforce simp: hm_remove_def)
  then have iff: "(addr, fd) \<in># held p \<longleftrightarrow> fd \<in> il_fd ` set (bucket p addr)" unfolding split by auto
  show ?thesis
  proof (cases "position (\<lambda>i. il_fd i = fd) (bucket p addr)")
    case None
    then have "\<not> found" "p' = p" using assms(2)
      by (auto simp: pool_remove_def bucket_def opt_or_def split: option.splits)
    moreover have "fd \<notin> il_fd ` set (bucket p addr)" using None by (auto simp: position_None_iff list_all_iff)
    ultimately show ?thesis using assms(1) iff by simp
  next
    case (Some at)
    then have f: "found" "p' = keep_bucket addr (take at (bucket p addr) @ drop (Suc at) (bucket p addr)) p"
      using assms(2) by (auto simp: pool_remove_def bucket_def opt_or_def split: option.splits)
    have at: "at < length (bucket p addr)" "il_fd (bucket p addr ! at) = fd" using Some by (auto simp: position_Some_iff)
    have "held p = {#(addr, fd)#} + held p'"
      unfolding f(2) held_keep_bucket by (subst split, subst (1) id_take_nth_drop[OF at(1)]) (simp add: at(2))
    moreover have "pool_wf p'" unfolding f(2)
      by (rule wf_keep_bucket[OF assms(1)]) (use wf_bucket[OF assms(1), of addr] in simp)
    moreover have "fd \<in> il_fd ` set (bucket p addr)" using at by force
    ultimately show ?thesis using f(1) iff by simp
  qed
qed

lemma held_fds: "image_mset snd (held p) = mset (concat (map (\<lambda>(_, idle). map il_fd idle) (po_by_endpoint p)))"
proof -
  have "image_mset snd (\<Sum>e \<leftarrow> m. mset (map (\<lambda>i. (fst e, il_fd i)) (snd e))) = mset (concat (map (\<lambda>(_, idle). map il_fd idle) m))"
    for m :: "(socket_addr \<times> idle list) list"
    by (induction m) (auto simp: image_mset.compositionality comp_def)
  then show ?thesis by (simp add: held_def)
qed

lemma expire_spec:
  assumes "pool_wf p" "pool_expire now p = (out, p')"
  shows "pool_wf p' \<and> image_mset snd (held p) = mset out + image_mset snd (held p')
    \<and> (\<forall>(_, idle) \<in> set (po_by_endpoint p'). \<forall>i \<in> set idle. now - il_since i < po_idle_timeout p)"
proof -
  let ?gone = "idle_expired (po_idle_timeout p) now"
  have out: "out = concat (map (\<lambda>(_, idle). map il_fd (filter ?gone idle)) (po_by_endpoint p))"
    and p': "p' = p\<lparr> po_by_endpoint := filter (\<lambda>(_, idle). idle \<noteq> [])
        (map (\<lambda>(addr, idle). (addr, filter (\<lambda>i. \<not> ?gone i) idle)) (po_by_endpoint p)) \<rparr>"
    using assms(2) by (simp_all add: pool_expire_def Let_def)
  have skip: "concat (map (\<lambda>(_, idle). map il_fd idle) (filter (\<lambda>(_, idle). idle \<noteq> []) m)) = concat (map (\<lambda>(_, idle). map il_fd idle) m)"
    for m :: "(socket_addr \<times> idle list) list" by (induction m) auto
  have "mset (concat (map (\<lambda>(_, idle). map il_fd idle) m)) = mset (concat (map (\<lambda>(_, idle). map il_fd (filter ?gone idle)) m))
      + mset (concat (map (\<lambda>(_, idle). map il_fd idle) (map (\<lambda>(addr, idle). (addr, filter (\<lambda>i. \<not> ?gone i) idle)) m)))"
    for m :: "(socket_addr \<times> idle list) list"
  proof (induction m)
    case (Cons e m)
    obtain a idle where e: "e = (a, idle)" by (cases e)
    have "mset (map il_fd idle) = mset (map il_fd (filter ?gone idle)) + mset (map il_fd (filter (\<lambda>i. \<not> ?gone i) idle))"
      by (simp flip: image_mset_union add: multiset_partition[of "mset idle" ?gone, symmetric])
    with Cons e show ?case by (simp add: ac_simps)
  qed simp
  then have "image_mset snd (held p) = mset out + image_mset snd (held p')" unfolding held_fds out p' by (simp add: skip)
  moreover have "pool_wf p'"
  proof -
    have "distinct (map fst (filter P (map (\<lambda>(addr, idle). (addr, f idle)) m)))" if "distinct (map fst m)"
      for P f and m :: "(socket_addr \<times> idle list) list"
      using that by (induction m) (auto simp: image_iff)
    then show ?thesis using assms(1)
      by (fastforce simp: pool_wf_def p' intro: le_trans[OF length_filter_le])
  qed
  moreover have "\<forall>(_, idle) \<in> set (po_by_endpoint p'). \<forall>i \<in> set idle. now - il_since i < po_idle_timeout p"
    by (auto simp: p' idle_expired_def)
  ultimately show ?thesis by blast
qed

lemma drain_spec:
  "pool_drain p = (out, p') \<Longrightarrow> mset out = image_mset snd (held p) \<and> held p' = {#} \<and> pool_wf p' \<and> pool_is_empty p'"
  unfolding held_fds by (auto simp: pool_drain_def held_def pool_wf_def pool_is_empty_def)

section \<open>Runs\<close>

datatype pool_op = Take socket_addr | Put nat socket_addr raw_fd | Remove socket_addr raw_fd | Expire nat | Drain

text \<open>One call: the descriptors the caller gives up, and those it gets to use or close.\<close>

fun pool_call :: "pool_op \<Rightarrow> pool \<Rightarrow> raw_fd list \<times> raw_fd list \<times> pool" where
  "pool_call (Take addr) p = (let (r, p') = pool_take addr p in ([], case r of Some fd \<Rightarrow> [fd] | None \<Rightarrow> [], p'))"
| "pool_call (Put now addr fd) p =
     (let (r, p') = pool_put now addr fd p in ([fd], case r of Some fd \<Rightarrow> [fd] | None \<Rightarrow> [], p'))"
| "pool_call (Remove addr fd) p = (let (found, p') = pool_remove addr fd p in ([], if found then [fd] else [], p'))"
| "pool_call (Expire now) p = (let (out, p') = pool_expire now p in ([], out, p'))"
| "pool_call Drain p = (let (out, p') = pool_drain p in ([], out, p'))"

fun pool_run :: "pool_op list \<Rightarrow> pool \<Rightarrow> raw_fd list \<times> raw_fd list \<times> pool" where
  "pool_run [] p = ([], [], p)"
| "pool_run (c # cs) p =
     (let (given, back, p1) = pool_call c p; (given', back', p2) = pool_run cs p1 in (given @ given', back @ back', p2))"

lemma pool_call_balance:
  assumes "pool_wf p" "pool_call c p = (given, out, p')"
  shows "pool_wf p' \<and> image_mset snd (held p) + mset given = mset out + image_mset snd (held p')"
proof (cases c)
  case (Take addr)
  obtain r q where q: "pool_take addr p = (r, q)" by fastforce
  with Take assms(2) have "given = []" "out = (case r of Some fd \<Rightarrow> [fd] | None \<Rightarrow> [])" "p' = q" by simp_all
  with take_spec[OF assms(1) q] show ?thesis by (cases r) simp_all
next
  case (Put now addr fd)
  obtain r q where q: "pool_put now addr fd p = (r, q)" by fastforce
  with Put assms(2) have "given = [fd]" "out = (case r of Some fd \<Rightarrow> [fd] | None \<Rightarrow> [])" "p' = q" by simp_all
  with put_spec[OF assms(1) q] show ?thesis by (cases r) simp_all
next
  case (Remove addr fd)
  obtain found q where q: "pool_remove addr fd p = (found, q)" by fastforce
  with Remove assms(2) have "given = []" "out = (if found then [fd] else [])" "p' = q" by simp_all
  with remove_spec[OF assms(1) q] show ?thesis by (cases found) simp_all
next
  case (Expire now)
  obtain fds q where q: "pool_expire now p = (fds, q)" by fastforce
  with Expire assms(2) have "given = []" "out = fds" "p' = q" by simp_all
  with expire_spec[OF assms(1) q] show ?thesis by simp
next
  case Drain
  obtain fds q where q: "pool_drain p = (fds, q)" by fastforce
  with Drain assms(2) have "given = []" "out = fds" "p' = q" by simp_all
  with drain_spec[OF q] show ?thesis by simp
qed

lemma pool_run_balance:
  "pool_wf p \<Longrightarrow> pool_run cs p = (given, out, p') \<Longrightarrow>
    pool_wf p' \<and> image_mset snd (held p) + mset given = mset out + image_mset snd (held p')"
proof (induction cs arbitrary: p given out)
  case (Cons c cs)
  obtain g b q where q: "pool_call c p = (g, b, q)" using prod_cases3 by blast
  obtain g' b' q' where q': "pool_run cs q = (g', b', q')" using prod_cases3 by blast
  from Cons.prems(2) q q' have r: "given = g @ g'" "out = b @ b'" "p' = q'" by simp_all
  note B = pool_call_balance[OF Cons.prems(1) q]
  with Cons.IH[of q g' b'] q' r(3) have IH: "pool_wf p' \<and> image_mset snd (held q) + mset g' = mset b' + image_mset snd (held p')" by simp
  have "image_mset snd (held p) + mset given = (mset b + image_mset snd (held q)) + mset g'" using B by (simp add: r)
  also have "\<dots> = mset out + image_mset snd (held p')" using IH by (simp add: r ac_simps)
  finally show ?case using IH by simp
qed simp

text \<open>
  C22. The pool neither leaks nor duplicates a descriptor: over any run of calls from an empty pool,
  the descriptors offered to it are exactly those it has handed back, to be used or closed,
  together with those it still holds, each as often as it was offered; and no endpoint ever has
  more than the configured number of idle connections.
\<close>

theorem pool_no_leak:
  assumes "pool_run cs (pool_new max_idle timeout) = (given, out, p)"
  shows "mset given = mset out + image_mset snd (held p) \<and> length (bucket p addr) \<le> max_idle"
proof -
  have wf: "pool_wf (pool_new max_idle timeout)" by (simp add: pool_wf_def pool_new_def)
  have max: "po_max_idle_per_host q' = po_max_idle_per_host q" if "pool_call c q = (g, b, q')" for c q g b q'
    using that
    by (cases c) (auto simp: pool_take_def pool_put_def pool_remove_def pool_expire_def pool_drain_def Let_def
        split: prod.splits option.splits if_splits)
  have "pool_run cs q = (g, b, q') \<Longrightarrow> po_max_idle_per_host q' = po_max_idle_per_host q" for q g b q'
    by (induction cs arbitrary: q g b) (auto simp: Let_def max split: prod.splits)
  with assms have "po_max_idle_per_host p = max_idle" by (fastforce simp: pool_new_def)
  with pool_run_balance[OF wf assms] wf_bucket[of p addr]
  show ?thesis by (simp add: held_def pool_new_def)
qed

text \<open>The most recently returned connection is the next one taken.\<close>

lemma put_then_take: "pool_put now addr fd p = (None, p') \<Longrightarrow> fst (pool_take addr p') = Some fd"
  by (auto simp: pool_put_def pool_take_def Let_def hm_insert_def split: if_splits)

section \<open>Emptiness\<close>

definition no_empty_bucket :: "pool \<Rightarrow> bool" where
  "no_empty_bucket p \<longleftrightarrow> (\<forall>(_, idle) \<in> set (po_by_endpoint p). idle \<noteq> [])"

lemma empty_iff_nothing_held: "no_empty_bucket p \<Longrightarrow> pool_is_empty p \<longleftrightarrow> held p = {#}"
  by (cases "po_by_endpoint p") (auto simp: pool_is_empty_def held_def no_empty_bucket_def)

text \<open>
  A pool that keeps no connections records an empty bucket for every connection it refuses, and
  then says that it is not empty although it holds nothing.
\<close>

lemma refusing_pool_not_empty:
  "held (snd (pool_put now addr fd (pool_new 0 timeout))) = {#} \<and> \<not> pool_is_empty (snd (pool_put now addr fd (pool_new 0 timeout)))"
  by (simp add: pool_put_def pool_new_def pool_is_empty_def held_def opt_or_def hm_insert_def)

theorem pool_no_leak_witness:
  "\<exists>given out p. pool_run [Put 0 (SocketAddr (IPv4 10 0 0 9) 80) 7, Put 1 (SocketAddr (IPv4 10 0 0 9) 80) 8,
       Take (SocketAddr (IPv4 10 0 0 9) 80)] (pool_new 1 90) = (given, out, p)
     \<and> mset given = mset out + image_mset snd (held p) \<and> out = [8, 7]"
proof -
  let ?cs = "[Put 0 (SocketAddr (IPv4 10 0 0 9) 80) 7, Put 1 (SocketAddr (IPv4 10 0 0 9) 80) 8, Take (SocketAddr (IPv4 10 0 0 9) 80)]"
  obtain given out p where run: "pool_run ?cs (pool_new 1 90) = (given, out, p)" using prod_cases3 by blast
  have "fst (snd (pool_run ?cs (pool_new 1 90))) = [8, 7]" by code_simp
  with run pool_no_leak[OF run] show ?thesis by auto
qed

end
