(* ===== verification/Proxy_Headers.thy ===== *)
theory Proxy_Headers
  imports Hop_Headers
begin

text \<open>
  Header rewriting of the hyper engine, \<open>crates/ramjet-proxy/src/headers.rs\<close>. Its headers are a
  \<open>HeaderMap\<close> of the \<open>http\<close> crate, which is not part of this repository: the map and its
  operations are a parameter, the record \<open>header_ops\<close>, and what the crate documents of them is
  the predicate \<open>header_laws\<close>. Header names are in the lower case the crate stores them in.
\<close>

section \<open>The header map\<close>

record 'h header_ops =
  empty_map :: 'h
  get_all :: "'h \<Rightarrow> bytes \<Rightarrow> bytes list"
  remove :: "'h \<Rightarrow> bytes \<Rightarrow> 'h"
  set_only :: "'h \<Rightarrow> bytes \<Rightarrow> bytes \<Rightarrow> 'h"
  name_from_bytes :: "bytes \<Rightarrow> bytes option"
  value_from_bytes :: "bytes \<Rightarrow> bytes option"
  value_from_str :: "string \<Rightarrow> bytes option"
  to_str :: "bytes \<Rightarrow> string option"

text \<open>\<open>get\<close> is the first value; \<open>get\<close> by a string finds nothing when that is no header name.\<close>

definition get_first :: "'h header_ops \<Rightarrow> 'h \<Rightarrow> bytes \<Rightarrow> bytes option" where
  "get_first H h name = (case get_all H h name of [] \<Rightarrow> None | v # _ \<Rightarrow> Some v)"

definition get_str :: "'h header_ops \<Rightarrow> 'h \<Rightarrow> string \<Rightarrow> bytes option" where
  "get_str H h name = Option.bind (name_from_bytes H name) (get_first H h)"

definition visible :: "char \<Rightarrow> bool" where
  "visible c \<longleftrightarrow> c = HTAB \<or> (32 \<le> (of_char c :: nat) \<and> (of_char c :: nat) < 127)"

text \<open>
  What the crate documents: a new map is empty, \<open>remove\<close> removes every value of a name, \<open>insert\<close> leaves exactly the
  new one, neither touches another name; a value without control characters is a header value, and
  a header value is a string exactly when its characters are visible; a name is stored in lower case.
\<close>

definition header_laws :: "'h header_ops \<Rightarrow> bool" where
  "header_laws H \<longleftrightarrow>
     (\<forall>m. get_all H (empty_map H) m = [])
     \<and> (\<forall>h n m. get_all H (remove H h n) m = (if m = n then [] else get_all H h m))
     \<and> (\<forall>h n v m. get_all H (set_only H h n v) m = (if m = n then [v] else get_all H h m))
     \<and> (\<forall>v. list_all value_byte v \<longrightarrow> value_from_bytes H v = Some v)
     \<and> (\<forall>v w. value_from_bytes H v = Some w \<longrightarrow> w = v)
     \<and> (\<forall>v w. value_from_str H v = Some w \<longrightarrow> w = v)
     \<and> (\<forall>v. to_str H v = (if list_all visible v then Some v else None))
     \<and> (\<forall>n m. name_from_bytes H n = Some m \<longrightarrow> m = lower n)"

section \<open>Definitions\<close>

definition is_ascii_whitespace :: "char \<Rightarrow> bool" where
  "is_ascii_whitespace c \<longleftrightarrow> (of_char c :: nat) \<in> {0x20, 0x09, 0x0A, 0x0C, 0x0D}"

definition trim_ascii :: "bytes \<Rightarrow> bytes" where
  "trim_ascii v = rev (dropWhile is_ascii_whitespace (rev (dropWhile is_ascii_whitespace v)))"

definition HOP_BY_HOP_names :: "bytes list" where
  "HOP_BY_HOP_names =
     [''keep-alive'', ''proxy-connection'', ''proxy-authenticate'', ''proxy-authorization'', ''te'',
      ''trailer'', ''transfer-encoding'', ''upgrade'']"

definition remove_listed :: "'h header_ops \<Rightarrow> bytes \<Rightarrow> 'h \<Rightarrow> 'h" where
  "remove_listed H tok h =
     (let t = trim_ascii tok in
      if t = [] then h
      else case name_from_bytes H t of None \<Rightarrow> h | Some name \<Rightarrow> remove H h name)"

definition strip_hop_by_hop :: "'h header_ops \<Rightarrow> 'h \<Rightarrow> 'h" where
  "strip_hop_by_hop H h =
     (let connection = get_first H h ''connection'';
          h1 = remove H h ''connection'';
          h2 = (case connection of
                  None \<Rightarrow> h1
                | Some v \<Rightarrow> fold (remove_listed H) (split_on (CHR '','') v) h1)
      in fold (\<lambda>name h. remove H h name) HOP_BY_HOP_names h2)"

definition requested_upgrade :: "'h header_ops \<Rightarrow> 'h \<Rightarrow> bytes option" where
  "requested_upgrade H h =
     (if list_ex (\<lambda>v. list_ex (\<lambda>tok. eq_ignore_ascii_case (trim_ascii tok) ''upgrade'')
                                (split_on (CHR '','') v)) (get_all H h ''connection'')
      then get_first H h ''upgrade'' else None)"

definition restore_upgrade :: "'h header_ops \<Rightarrow> 'h \<Rightarrow> bytes \<Rightarrow> 'h" where
  "restore_upgrade H h protocol = set_only H (set_only H h ''connection'' ''upgrade'') ''upgrade'' protocol"

text \<open>\<open>StackStr\<close>: a write that does not fit leaves the text as it was.\<close>

definition stack_write :: "nat \<Rightarrow> string \<Rightarrow> string \<Rightarrow> string" where
  "stack_write n buffer s = (if length buffer + length s \<le> n then buffer @ s else buffer)"

fun trail_join :: "bytes option \<Rightarrow> bytes list \<Rightarrow> bytes option" where
  "trail_join trail [] = trail"
| "trail_join trail (v # vs) =
     (let buffer = opt_or [] trail;
          separated = (if buffer \<noteq> [] then buffer @ '', '' else buffer)
      in trail_join (Some (separated @ v)) vs)"

definition insert_valid :: "'h header_ops \<Rightarrow> bytes \<Rightarrow> bytes \<Rightarrow> 'h \<Rightarrow> 'h" where
  "insert_valid H name v h =
     (case value_from_bytes H v of Some w \<Rightarrow> set_only H h name w | None \<Rightarrow> h)"

definition apply_forwarded :: "'h header_ops \<Rightarrow> ip_addr \<Rightarrow> string \<Rightarrow> bytes option \<Rightarrow> 'h \<Rightarrow> 'h" where
  "apply_forwarded H client scheme authority h =
     (let ip = stack_write 48 [] (show_ip client);
          h1 = (case trail_join None (get_all H h ''x-forwarded-for'') of
                  Some buffer \<Rightarrow> insert_valid H ''x-forwarded-for'' (buffer @ '', '' @ ip) h
                | None \<Rightarrow> insert_valid H ''x-forwarded-for'' ip h);
          h2 = insert_valid H ''x-real-ip'' ip h1;
          h3 = set_only H h2 ''x-forwarded-proto'' scheme
      in case authority of
           Some a \<Rightarrow> set_only H h3 ''x-forwarded-host'' a
         | None \<Rightarrow> h3)"

text \<open>The value returned, the headers and the random state.\<close>

definition ensure_request_id :: "'h header_ops \<Rightarrow> 'h \<Rightarrow> u64 \<Rightarrow> bytes \<times> 'h \<times> u64" where
  "ensure_request_id H h s =
     (let fresh = (let (hex, s') = hex_id s;
                       v = opt_or ''0'' (value_from_bytes H hex)
                   in (v, set_only H h ''x-request-id'' v, s'))
      in case get_first H h ''x-request-id'' of
           Some existing \<Rightarrow> if existing \<noteq> [] then (existing, h, s) else fresh
         | None \<Rightarrow> fresh)"

fun cookie_values :: "'h header_ops \<Rightarrow> string \<Rightarrow> bytes list \<Rightarrow> string option" where
  "cookie_values H name [] = None"
| "cookie_values H name (v # vs) =
     (case to_str H v of
        None \<Rightarrow> cookie_values H name vs
      | Some raw \<Rightarrow>
          (case cookie_pairs name (split_on (CHR '';'') raw) of
             Some val \<Rightarrow> Some val
           | None \<Rightarrow> cookie_values H name vs))"

definition map_cookie_value :: "'h header_ops \<Rightarrow> 'h \<Rightarrow> string \<Rightarrow> string option" where
  "map_cookie_value H h name = cookie_values H name (get_all H h ''cookie'')"

section \<open>What the operations leave in the map\<close>

lemma header_laws_simps:
  assumes "header_laws H"
  shows "get_all H (remove H h n) m = (if m = n then [] else get_all H h m)"
    and "get_all H (set_only H h n v) m = (if m = n then [v] else get_all H h m)"
    and "list_all value_byte v \<Longrightarrow> value_from_bytes H v = Some v"
    and "value_from_bytes H v = Some w \<Longrightarrow> w = v"
    and "to_str H v = (if list_all visible v then Some v else None)"
    and "name_from_bytes H n = Some m \<Longrightarrow> m = lower n"
    and "get_all H (empty_map H) m = []"
    and "value_from_str H v = Some w \<Longrightarrow> w = v"
  using assms by (simp_all add: header_laws_def)

definition listed_names :: "'h header_ops \<Rightarrow> bytes \<Rightarrow> bytes set" where
  "listed_names H v =
     {m. \<exists>tok \<in> set (split_on (CHR '','') v). trim_ascii tok \<noteq> [] \<and> name_from_bytes H (trim_ascii tok) = Some m}"

lemma fold_remove_listed:
  assumes "header_laws H"
  shows "get_all H (fold (remove_listed H) toks h) m =
    (if \<exists>tok \<in> set toks. trim_ascii tok \<noteq> [] \<and> name_from_bytes H (trim_ascii tok) = Some m then [] else get_all H h m)"
  by (induction toks arbitrary: h)
     (auto simp: remove_listed_def Let_def header_laws_simps[OF assms] split: option.splits)

lemma fold_remove:
  assumes "header_laws H"
  shows "get_all H (fold (\<lambda>name h. remove H h name) ns h) m = (if m \<in> set ns then [] else get_all H h m)"
  by (induction ns arbitrary: h) (auto simp: header_laws_simps[OF assms])

lemma get_all_strip:
  assumes "header_laws H"
  shows "get_all H (strip_hop_by_hop H h) m =
    (if m = ''connection'' \<or> m \<in> set HOP_BY_HOP_names
        \<or> (\<exists>v. get_first H h ''connection'' = Some v \<and> m \<in> listed_names H v)
     then [] else get_all H h m)"
  by (auto simp: strip_hop_by_hop_def Let_def fold_remove[OF assms] fold_remove_listed[OF assms]
      header_laws_simps[OF assms] listed_names_def split: option.splits)

lemma trail_join_Some: "trail_join (Some b) vs = Some (foldl (\<lambda>b v. (if b \<noteq> [] then b @ '', '' else b) @ v) b vs)"
  by (induction vs arbitrary: b) (auto simp: opt_or_def Let_def)

lemma get_all_insert_valid:
  assumes "header_laws H" "list_all value_byte v"
  shows "get_all H (insert_valid H n v h) m = (if m = n then [v] else get_all H h m)"
  by (simp add: insert_valid_def header_laws_simps(2,3)[OF assms(1)] assms(2))

section \<open>Witness instance\<close>

text \<open>A header map as the list of its fields, which has the documented behaviour.\<close>

definition alist_ops :: "(bytes \<times> bytes) list header_ops" where
  "alist_ops =
     \<lparr> empty_map = [],
       get_all = (\<lambda>h n. map snd (filter (\<lambda>f. fst f = n) h)),
       remove = (\<lambda>h n. filter (\<lambda>f. fst f \<noteq> n) h),
       set_only = (\<lambda>h n v. filter (\<lambda>f. fst f \<noteq> n) h @ [(n, v)]),
       name_from_bytes = (\<lambda>n. if n \<noteq> [] then Some (lower n) else None),
       value_from_bytes = (\<lambda>v. if list_all value_byte v then Some v else None),
       value_from_str = (\<lambda>v. if list_all visible v then Some v else None),
       to_str = (\<lambda>v. if list_all visible v then Some v else None) \<rparr>"

lemma alist_ops_laws: "header_laws alist_ops"
  by (auto simp: header_laws_def alist_ops_def visible_def filter_empty_conv list_all_iff conj_commute
      intro!: arg_cong[where f = "map snd"] filter_cong split: if_splits)

section \<open>The forwarding headers\<close>

lemma show_hex_length: "n < 16 ^ k \<Longrightarrow> 0 < k \<Longrightarrow> length (show_hex n) \<le> k"
proof (induction k arbitrary: n)
  case (Suc k)
  show ?case
  proof (cases "n < 16")
    case False
    with Suc.prems have "n div 16 < 16 ^ k" "0 < k" by (auto simp: less_mult_imp_div_less mult.commute intro: ccontr)
    from Suc.IH[OF this] False show ?thesis by (subst show_hex.simps) simp
  qed (subst show_hex.simps, simp)
qed simp

lemma show_hex_group: "length (show_hex (unat (g :: u16))) \<le> 4"
proof (rule show_hex_length)
  have "unat g < 2 ^ LENGTH(16)" by (rule unsigned_less)
  then show "unat g < 16 ^ 4" by simp
qed simp

lemma show_groups_length: "length (show_groups gs) \<le> 5 * length gs"
proof (induction gs rule: show_groups.induct)
  case (2 g)
  then show ?case using show_hex_group[of g] by simp
next
  case (3 g g' gs)
  then show ?case using show_hex_group[of g] by simp
qed simp

lemma show_ipv4_length: "length (show_ipv4 a b c d) \<le> 15"
proof -
  have byte: "length (show_nat (unat x)) \<le> 3" for x :: u8
  proof (rule show_nat_byte_length)
    have "unat x < 2 ^ LENGTH(8)" by (rule unsigned_less)
    then show "unat x < 256" by simp
  qed
  from byte[of a] byte[of b] byte[of c] byte[of d] show ?thesis by (simp add: show_ipv4_def)
qed

lemma groups_of_length: "length (groups_of os) \<le> length os div 2"
  by (induction os rule: groups_of.induct) simp_all

text \<open>The 48 bytes of the stack buffer are enough for every address.\<close>

lemma show_ip_fits: "ip_wf a \<Longrightarrow> length (show_ip a) \<le> 48"
proof (cases a)
  case (IPv6 os)
  assume "ip_wf a"
  with IPv6 groups_of_length[of os] have len: "length (groups_of os) \<le> 8" by simp
  have parts: "length (show_groups (take i (groups_of os))) + length (show_groups (drop j (groups_of os))) \<le> 45"
    if "i + 1 < j" for i j
    using show_groups_length[of "take i (groups_of os)"] show_groups_length[of "drop j (groups_of os)"] len that
    by simp
  from IPv6 show ?thesis
    using show_ipv4_length show_groups_length[of "groups_of os"] len parts
    by (auto simp: Let_def split: prod.split intro: order.trans[OF parts] le_trans[OF show_ipv4_length])
qed (auto intro: order.trans[OF show_ipv4_length])

lemma show_ip_visible: "list_all visible (show_ip a)"
  using show_ip_chars[of a] by (auto simp: list_all_iff visible_def dest!: ip_char_visible)

lemma visible_byte: "visible c \<Longrightarrow> value_byte c"
  unfolding visible_def value_byte_def by (elim disjE) (simp, linarith)

lemma visible_value: "list_all visible v \<Longrightarrow> list_all value_byte v"
  by (auto simp: list_all_iff visible_byte)

definition trail_value :: "bytes list \<Rightarrow> ip_addr \<Rightarrow> bytes" where
  "trail_value vs client =
     (case trail_join None vs of Some b \<Rightarrow> b @ '', '' @ show_ip client | None \<Rightarrow> show_ip client)"

lemma trail_join_values:
  assumes "\<forall>v \<in> set vs. list_all value_byte v" "trail_join t vs = Some b" "\<forall>b. t = Some b \<longrightarrow> list_all value_byte b"
  shows "list_all value_byte b"
  using assms
proof (induction t vs rule: trail_join.induct)
  case (2 t v vs)
  then show ?case by (auto simp: Let_def opt_or_def value_byte_def split: option.splits if_splits)
qed simp

lemma get_all_forwarded:
  assumes "header_laws H" "ip_wf client" "\<forall>v \<in> set (get_all H h ''x-forwarded-for''). list_all value_byte v"
  shows "get_all H (apply_forwarded H client scheme authority h) m =
    (if m = ''x-forwarded-for'' then [trail_value (get_all H h ''x-forwarded-for'') client]
     else if m = ''x-real-ip'' then [show_ip client]
     else if m = ''x-forwarded-proto'' then [scheme]
     else if m = ''x-forwarded-host'' \<and> authority \<noteq> None then [the authority]
     else get_all H h m)"
proof -
  have ip: "stack_write 48 [] (show_ip client) = show_ip client"
    using show_ip_fits[OF assms(2)] by (simp add: stack_write_def)
  have v: "list_all value_byte (show_ip client)" by (rule visible_value[OF show_ip_visible])
  have trail: "list_all value_byte b" if "trail_join None (get_all H h ''x-forwarded-for'') = Some b" for b
    by (rule trail_join_values[OF assms(3) that]) simp
  have sep: "list_all value_byte '', ''" by (simp add: value_byte_def)
  show ?thesis
  proof (cases "trail_join None (get_all H h ''x-forwarded-for'')")
    case None
    then show ?thesis
      by (auto simp: apply_forwarded_def Let_def ip trail_value_def header_laws_simps(2)[OF assms(1)]
          get_all_insert_valid[OF assms(1) v] split: option.splits)
  next
    case (Some b)
    with trail[OF Some] v sep have "list_all value_byte (b @ '', '' @ show_ip client)" by simp
    note ins = get_all_insert_valid[OF assms(1) this]
    from Some show ?thesis
      by (auto simp: apply_forwarded_def Let_def ip trail_value_def header_laws_simps(2)[OF assms(1)]
          get_all_insert_valid[OF assms(1) v] ins split: option.splits simp del: append_Cons append.simps list_all_append)
  qed
qed

text \<open>With no empty value among them, the trail is the values and the client, joined by commas.\<close>

lemma trail_value_join:
  assumes "[] \<notin> set vs"
  shows "trail_value vs client = concat (map (\<lambda>v. v @ '', '') vs) @ show_ip client"
proof -
  have loop: "foldl (\<lambda>b v. (if b \<noteq> [] then b @ '', '' else b) @ v) b us @ '', ''
      = b @ '', '' @ concat (map (\<lambda>v. v @ '', '') us)" if "b \<noteq> []" "[] \<notin> set us" for b us
    using that by (induction us arbitrary: b) auto
  show ?thesis
  proof (cases vs)
    case (Cons v vs')
    with assms have ne: "v \<noteq> []" "[] \<notin> set vs'" by auto
    from Cons loop[OF ne] show ?thesis
      by (simp add: trail_value_def trail_join_Some Let_def opt_or_def) 
  qed (simp add: trail_value_def)
qed

lemma get_all_request_id:
  assumes "header_laws H" "ensure_request_id H h s = (v, h', s')"
  shows "get_all H h' m = (if m = ''x-request-id'' \<and> (get_all H h m = [] \<or> hd (get_all H h m) = []) then [v] else get_all H h m)"
  using assms(2)
  by (auto simp: ensure_request_id_def get_first_def Let_def header_laws_simps(2)[OF assms(1)]
      split: prod.splits list.splits if_splits)

section \<open>Properties\<close>

text \<open>
  A header that only the second \<open>Connection\<close> line names crosses the hop: nothing but the first
  line is looked at, so a hop-by-hop header the client listed there is forwarded unchanged.
\<close>

theorem second_connection_line_leaks:
  assumes "header_laws H" "get_all H h ''connection'' = [first, second]"
    and "name \<in> listed_names H second" "name \<notin> listed_names H first"
    and "name \<noteq> ''connection''" "name \<notin> set HOP_BY_HOP_names"
  shows "get_all H (strip_hop_by_hop H h) name = get_all H h name
    \<and> get_all H (strip_hop_by_hop H h) ''connection'' = []"
  using assms by (auto simp: get_all_strip get_first_def)

lemma second_connection_line_leaks_witness:
  "get_all alist_ops (strip_hop_by_hop alist_ops
     [(''connection'', ''close''), (''connection'', ''x-token''), (''x-token'', ''secret'')]) ''x-token'' = [''secret'']"
proof -
  let ?h = "[(''connection'', ''close''), (''connection'', ''x-token''), (''x-token'', ''secret'')]"
  have "get_all alist_ops ?h ''connection'' = [''close'', ''x-token'']" by (simp add: alist_ops_def)
  from second_connection_line_leaks[OF alist_ops_laws this, of "''x-token''"] show ?thesis
    by (simp add: listed_names_def alist_ops_def trim_ascii_def is_ascii_whitespace_def lower_def
        to_ascii_lowercase_def is_ascii_uppercase_def HOP_BY_HOP_names_def)
qed

end
