(* ===== verification/Forward.thy ===== *)
theory Forward
  imports Proxy_Headers Bodies Metrics Table
begin

text \<open>
  The request path of the hyper engine, \<open>crates/ramjet-proxy/src/forward.rs\<close>, with the queue in
  front of the mirror (\<open>mirror.rs\<close>) and the URI of an endpoint (\<open>upstream.rs\<close>). What a request
  reads and writes is one state: the backend counters, the route counters, the metrics, the random
  source and the mirror's queue. \<open>Upstream::send\<close> is hyper's client: its outcome is a parameter, a
  function of the attempt, and every request given to it is appended to \<open>fw_sent\<close>. URIs belong to
  the \<open>http\<close> crate and are a parameter, like header maps.
\<close>

section \<open>Requests, responses and state\<close>

datatype http_version = HTTP_10 | HTTP_11 | HTTP_2 | HTTP_3

record ('u, 'q) uri_ops =
  uri_authority :: "'u \<Rightarrow> string option"
  uri_path :: "'u \<Rightarrow> string"
  uri_path_and_query :: "'u \<Rightarrow> 'q option"
  pq_as_str :: "'q \<Rightarrow> string"
  parse_uri :: "string \<Rightarrow> 'u option"

record ('h, 'u, 'g) parts =
  pa_uri :: 'u
  pa_version :: http_version
  pa_headers :: 'h
  pa_on_upgrade :: "'g option"

record ('h, 'g, 'b) response =
  rp_status :: u16
  rp_headers :: 'h
  rp_body :: 'b
  rp_on_upgrade :: "'g option"

datatype upstream_error = UConnect | UTimeout | UTransport

definition is_retryable :: "upstream_error \<Rightarrow> bool" where
  "is_retryable e \<longleftrightarrow> e = UConnect"

datatype scheme = SchemeHttp | SchemeHttps

fun scheme_as_str :: "scheme \<Rightarrow> string" where
  "scheme_as_str SchemeHttp = ''http''"
| "scheme_as_str SchemeHttps = ''https''"

record conn_info =
  ci_remote :: ip_addr
  ci_scheme :: scheme

record ('h, 'u, 'g) mirror_job =
  mj_parts :: "('h, 'u, 'g) parts"
  mj_body :: bytes
  mj_protocol :: backend_protocol

definition MIRROR_QUEUE_DEPTH :: nat where
  "MIRROR_QUEUE_DEPTH = 256"

record ('h, 'u, 'g, 'b) forward_state =
  fw_heap :: heap
  fw_routes :: "route_slot list"
  fw_metrics :: metrics
  fw_rng :: u64
  fw_queue :: "('h, 'u, 'g) mirror_job list"
  fw_sent :: "(backend_protocol \<times> ('h, 'u, 'g) parts \<times> 'b) list"

text \<open>
  What does not change while requests are served: the two library parameters, hyper's size hint,
  the outcome of sending, and the configuration. \<open>px_mirror\<close> is the body cap of this runtime's
  mirror, when it has one, and whether the receiving end of its queue is still there.
\<close>

record ('h, 'u, 'q, 'g, 't, 'e, 'x, 'r) env =
  px_headers :: "'h header_ops"
  px_uris :: "('u, 'q) uri_ops"
  px_hint :: "('t, 'e) incoming \<Rightarrow> hint"
  px_send :: "nat \<Rightarrow> backend_protocol \<Rightarrow> ('h, 'u, 'g) parts
                \<Rightarrow> upstream_error + (('h, 'g, ('t, 'e) incoming) response \<times> nat)"
  px_is_match :: "'r \<Rightarrow> string \<Rightarrow> bool"
  px_max_connect_attempts :: nat
  px_shard :: nat
  px_mirror :: "(nat \<times> bool) option"

section \<open>Small pieces\<close>

definition endpoint_uri :: "('u, 'q) uri_ops \<Rightarrow> socket_addr \<Rightarrow> 'q option \<Rightarrow> 'u option" where
  "endpoint_uri U addr pq =
     parse_uri U (''http://'' @ show_socket_addr addr @ (case pq of None \<Rightarrow> ''/'' | Some q \<Rightarrow> pq_as_str U q))"

definition request_authority :: "'h header_ops \<Rightarrow> ('u, 'q) uri_ops \<Rightarrow> ('h, 'u, 'g) parts \<Rightarrow> string" where
  "request_authority H U p =
     (case uri_authority U (pa_uri p) of
        Some authority \<Rightarrow> authority
      | None \<Rightarrow> opt_or [] (Option.bind (get_first H (pa_headers p) ''host'') (to_str H)))"

definition client_host :: "'h header_ops \<Rightarrow> ('u, 'q) uri_ops \<Rightarrow> ('h, 'u, 'g) parts \<Rightarrow> bytes option" where
  "client_host H U p =
     (case uri_authority U (pa_uri p) of
        Some authority \<Rightarrow> value_from_str H authority
      | None \<Rightarrow> get_first H (pa_headers p) ''host'')"

definition map_is_grpc :: "'h header_ops \<Rightarrow> 'h \<Rightarrow> bool" where
  "map_is_grpc H h =
     (case Option.bind (get_first H h ''content-type'') (to_str H) of
        Some v \<Rightarrow> starts_with ''application/grpc'' v
      | None \<Rightarrow> False)"

definition static_response :: "'h header_ops \<Rightarrow> u16 \<Rightarrow> bytes \<Rightarrow> ('h, 'g, ('t, 'e, 'x) proxy_body) response" where
  "static_response H status body =
     \<lparr> rp_status = status, rp_headers = set_only H (empty_map H) ''content-type'' ''text/plain; charset=utf-8'',
       rp_body = body_once body, rp_on_upgrade = None \<rparr>"

definition unsupported_response ::
    "'h header_ops \<Rightarrow> u16 \<Rightarrow> bytes \<Rightarrow> string \<Rightarrow> ('h, 'g, ('t, 'e, 'x) proxy_body) response" where
  "unsupported_response H status body feature =
     (let r = static_response H status body in
      case (name_from_bytes H ''x-ramjet-unsupported'', value_from_str H feature) of
        (Some name, Some v) \<Rightarrow> r\<lparr> rp_headers := set_only H (rp_headers r) name v \<rparr>
      | _ \<Rightarrow> r)"

definition LF :: string where "LF = [CHR 0x0A]"

definition BODY_NO_ROUTE :: bytes where
  "BODY_NO_ROUTE = ''404 Not Found: no ingress rule matches this host and path'' @ LF"

definition BODY_NO_ENDPOINT :: bytes where
  "BODY_NO_ENDPOINT = ''503 Service Unavailable: the backend has no ready endpoints'' @ LF"

definition BODY_CONNECT_FAILED :: bytes where
  "BODY_CONNECT_FAILED = ''502 Bad Gateway: could not connect to any upstream endpoint'' @ LF"

definition BODY_UPSTREAM_FAILED :: bytes where
  "BODY_UPSTREAM_FAILED = ''502 Bad Gateway: the upstream connection failed'' @ LF"

definition BODY_BAD_TARGET :: bytes where
  "BODY_BAD_TARGET = ''502 Bad Gateway: the endpoint address is not a valid URI'' @ LF"

definition BODY_UPGRADE_FAILED :: bytes where
  "BODY_UPGRADE_FAILED = ''502 Bad Gateway: the upstream refused to complete the upgrade'' @ LF"

definition BODY_TIMEOUT :: bytes where
  "BODY_TIMEOUT = ''504 Gateway Timeout: the upstream sent no response headers in time'' @ LF"

definition BODY_GRPC :: bytes where
  "BODY_GRPC = ''502 Bad Gateway: gRPC requires an HTTP/2 backend; set nginx.ingress.kubernetes.io/backend-protocol: GRPC on the Ingress'' @ LF"

definition UNSUPPORTED_GRPC :: string where
  "UNSUPPORTED_GRPC = ''grpc-needs-backend-protocol''"

definition count :: "(metrics \<Rightarrow> metrics) \<Rightarrow> ('h, 'u, 'g, 'b) forward_state \<Rightarrow> ('h, 'u, 'g, 'b) forward_state" where
  "count f s = s\<lparr> fw_metrics := f (fw_metrics s) \<rparr>"

text \<open>\<open>Recorder\<close>: the route's counter block, if the request matched a rule, and whether it was diverted.\<close>

record recorder =
  rr_slot :: "nat option"
  rr_shard :: nat
  rr_canaried :: bool

definition on_route :: "recorder \<Rightarrow> (route_slot \<Rightarrow> route_slot) \<Rightarrow> ('h, 'u, 'g, 'b) forward_state \<Rightarrow> ('h, 'u, 'g, 'b) forward_state" where
  "on_route rc f s =
     (case rr_slot rc of
        None \<Rightarrow> s
      | Some a \<Rightarrow> s\<lparr> fw_routes := (fw_routes s)[a := f (fw_routes s ! a)] \<rparr>)"

definition rec_response :: "recorder \<Rightarrow> u16 \<Rightarrow> ('h, 'u, 'g, 'b) forward_state \<Rightarrow> ('h, 'u, 'g, 'b) forward_state" where
  "rec_response rc status = on_route rc (recorder_response (rr_shard rc) (rr_canaried rc) status)"

definition rec_latency :: "recorder \<Rightarrow> nat \<Rightarrow> ('h, 'u, 'g, 'b) forward_state \<Rightarrow> ('h, 'u, 'g, 'b) forward_state" where
  "rec_latency rc nanos = on_route rc (recorder_latency (rr_shard rc) (rr_canaried rc) (nanos div 1000))"

section \<open>Matching\<close>

record 'r matched =
  ma_backend :: backend
  ma_route :: "u32 option"
  ma_canaried :: bool
  ma_mirror :: "mirror_spec option"

text \<open>
  The decision both engines make once the router has matched: the mirror is rolled first, then the
  canary, each only when the rule has one. The header and cookie values are looked up by the caller.
\<close>

definition sample_mirror :: "mirror_spec option \<Rightarrow> u64 \<Rightarrow> mirror_spec option \<times> u64" where
  "sample_mirror spec s =
     (case spec of
        None \<Rightarrow> (None, s)
      | Some m \<Rightarrow> (let (roll, s') = below MIRROR_PERCENT_TOTAL s in (if sample m roll then Some m else None, s')))"

definition select_backend ::
    "('h, 'u, 'q, 'g, 't, 'e, 'x, 'r) env \<Rightarrow> 'r route_table \<Rightarrow> ('h, 'u, 'g) parts \<Rightarrow> u64 \<Rightarrow> 'r matched option \<times> u64" where
  "select_backend E t p s =
     (let H = px_headers E; U = px_uris E in
      case match_request (px_is_match E) t (request_authority H U p) (uri_path U (pa_uri p)) of
        None \<Rightarrow> (None, s)
      | Some m \<Rightarrow>
          (let route = map_option pr_stats_index (mr_rule m);
               (mirror, s1) = sample_mirror (match_mirror m) s in
           case match_canary m of
             None \<Rightarrow> (Some \<lparr> ma_backend = mr_backend m, ma_route = route, ma_canaried = False, ma_mirror = mirror \<rparr>, s1)
           | Some canary \<Rightarrow>
               (let header_value = Option.bind (Option.bind (map_option hr_name (cs_header canary))
                                     (get_str H (pa_headers p))) (to_str H);
                    cookie_value = Option.bind (cs_cookie canary) (map_cookie_value H (pa_headers p));
                    (roll, s2) = below (cs_weight_total canary) s1;
                    diverted = decide (px_is_match E) canary header_value cookie_value roll;
                    canary_backend = (if diverted then table_backend t (cs_backend canary) else None)
                in (Some \<lparr> ma_backend = opt_or (mr_backend m) canary_backend, ma_route = route,
                           ma_canaried = (canary_backend \<noteq> None), ma_mirror = mirror \<rparr>, s2))))"

record mirror_target =
  mt_cap :: nat
  mt_open :: bool
  mt_backend :: backend
  mt_host :: "string option"

definition mirror_target_of ::
    "('h, 'u, 'q, 'g, 't, 'e, 'x, 'r) env \<Rightarrow> 'r route_table \<Rightarrow> 'r matched \<Rightarrow> ('h, 'u, 'g, 'b) forward_state
      \<Rightarrow> mirror_target option \<times> ('h, 'u, 'g, 'b) forward_state" where
  "mirror_target_of E t matched s =
     (case ma_mirror matched of
        None \<Rightarrow> (None, s)
      | Some spec \<Rightarrow>
          (case px_mirror E of
             None \<Rightarrow> (None, s)
           | Some (cap, receiving) \<Rightarrow>
               (case table_backend t (ms_backend spec) of
                  None \<Rightarrow> (None, s)
                | Some b \<Rightarrow>
                    if be_endpoints b = [] then (None, count record_mirror_failure s)
                    else (Some \<lparr> mt_cap = cap, mt_open = receiving, mt_backend = b, mt_host = ms_host spec \<rparr>, s))))"

definition enqueue ::
    "bool \<Rightarrow> ('h, 'u, 'g) mirror_job \<Rightarrow> ('h, 'u, 'g, 'b) forward_state \<Rightarrow> ('h, 'u, 'g, 'b) forward_state" where
  "enqueue receiving job s =
     (if receiving \<and> length (fw_queue s) < MIRROR_QUEUE_DEPTH then s\<lparr> fw_queue := fw_queue s @ [job] \<rparr>
      else count record_mirror_dropped s)"

text \<open>The headers and version of the copy.\<close>

definition copy_parts ::
    "'h header_ops \<Rightarrow> mirror_target \<Rightarrow> 'u \<Rightarrow> ('h, 'u, 'g) parts \<Rightarrow> ('h, 'u, 'g) parts" where
  "copy_parts H target uri p =
     (let h1 = set_only H (pa_headers p) ''x-mirrored-by'' ''ramjet-ingress'';
          h2 = (case Option.bind (mt_host target) (value_from_str H) of
                  Some host \<Rightarrow> set_only H h1 ''host'' host
                | None \<Rightarrow> h1);
          (h3, version) =
            (case be_protocol (mt_backend target) of
               Http1 \<Rightarrow> (h2, HTTP_11)
             | H2c \<Rightarrow> (case get_first H h2 ''host'' of
                          Some host \<Rightarrow> (set_only H (remove H h2 ''host'') ''x-forwarded-host'' host, HTTP_2)
                        | None \<Rightarrow> (remove H h2 ''host'', HTTP_2)))
      in p\<lparr> pa_uri := uri, pa_headers := h3, pa_version := version, pa_on_upgrade := None \<rparr>)"

definition mirror_request ::
    "('h, 'u, 'q, 'g, 't, 'e, 'x, 'r) env \<Rightarrow> 'r route_table \<Rightarrow> mirror_target \<Rightarrow> ('h, 'u, 'g) parts \<Rightarrow> 'q option
      \<Rightarrow> ('t, 'e, 'x) proxy_body \<Rightarrow> ('h, 'u, 'g, 'b) forward_state
      \<Rightarrow> ('t, 'e, 'x) proxy_body \<times> ('h, 'u, 'g, 'b) forward_state" where
  "mirror_request E t target p pq body s =
     (let (primary, copied, skipped) = mirror_bodies (px_hint E) (mt_cap target) body;
          s1 = (if skipped then count record_mirror_skipped s else s) in
      case copied of
        None \<Rightarrow> (primary, s1)
      | Some copy \<Rightarrow>
          (let (word, rng) = next_u64 (fw_rng s1);
               (hp, picked) = select_endpoint (fw_heap s1) (mt_backend target) (rt_stats t) word;
               s2 = s1\<lparr> fw_rng := rng, fw_heap := hp \<rparr> in
           case picked of
             None \<Rightarrow> (primary, count record_mirror_failure s2)
           | Some (index, _) \<Rightarrow>
               (case get_at (be_endpoints (mt_backend target)) index of
                  None \<Rightarrow> (primary, count record_mirror_failure s2)
                | Some endpoint \<Rightarrow>
                    (case endpoint_uri (px_uris E) (ep_addr endpoint) pq of
                       None \<Rightarrow> (primary, count record_mirror_failure s2)
                     | Some uri \<Rightarrow>
                         (primary, enqueue (mt_open target)
                            \<lparr> mj_parts = copy_parts (px_headers E) target uri p, mj_body = copy,
                              mj_protocol = be_protocol (mt_backend target) \<rparr> s2)))))"

section \<open>The exchange\<close>

text \<open>\<open>relay\<close>. Splicing the two halves of an upgraded connection is outside the model.\<close>

definition relay ::
    "'h header_ops \<Rightarrow> ('h, 'g, ('t, 'e) incoming) response \<Rightarrow> 'g option \<Rightarrow> bytes option
      \<Rightarrow> ('h, 'g, ('t, 'e, 'x) proxy_body) response" where
  "relay H r downstream_upgrade requested_protocol =
     (let switching = (rp_status r = 101);
          protocol = (if switching
                      then (case requested_upgrade H (rp_headers r) of
                              Some p \<Rightarrow> Some p
                            | None \<Rightarrow> requested_protocol)
                      else None);
          h = strip_hop_by_hop H (rp_headers r);
          answer = (\<lambda>h. \<lparr> rp_status = rp_status r, rp_headers = h, rp_body = BodyStream (rp_body r), rp_on_upgrade = None \<rparr>)
      in if switching
         then case (downstream_upgrade, rp_on_upgrade r, protocol) of
                (Some _, Some _, Some p) \<Rightarrow> answer (restore_upgrade H h p)
              | _ \<Rightarrow> static_response H 502 BODY_UPGRADE_FAILED
         else answer h)"

definition record_failure :: "upstream_error \<Rightarrow> metrics \<Rightarrow> metrics" where
  "record_failure e m =
     (case e of UConnect \<Rightarrow> record_connect_failure m | UTimeout \<Rightarrow> record_upstream_timeout m | UTransport \<Rightarrow> m)"

definition failure_response :: "'h header_ops \<Rightarrow> upstream_error option \<Rightarrow> ('h, 'g, ('t, 'e, 'x) proxy_body) response" where
  "failure_response H failure =
     (case failure of
        Some UTimeout \<Rightarrow> static_response H 504 BODY_TIMEOUT
      | Some UConnect \<Rightarrow> static_response H 502 BODY_CONNECT_FAILED
      | None \<Rightarrow> static_response H 502 BODY_CONNECT_FAILED
      | Some UTransport \<Rightarrow> static_response H 502 BODY_UPSTREAM_FAILED)"

text \<open>The in-flight guard of an attempt.\<close>

definition take_guard :: "nat option \<Rightarrow> nat \<Rightarrow> ('h, 'u, 'g, 'b) forward_state \<Rightarrow> ('h, 'u, 'g, 'b) forward_state \<times> nat option" where
  "take_guard slot index s =
     (case slot of
        None \<Rightarrow> (s, None)
      | Some a \<Rightarrow> (let (hp, guard) = acquire (fw_heap s) (hp_slots (fw_heap s) ! a) index in (s\<lparr> fw_heap := hp \<rparr>, guard)))"

definition release_guard :: "nat option \<Rightarrow> ('h, 'u, 'g, 'b) forward_state \<Rightarrow> ('h, 'u, 'g, 'b) forward_state" where
  "release_guard guard s = (case guard of None \<Rightarrow> s | Some g \<Rightarrow> s\<lparr> fw_heap := drop_guard (fw_heap s) g \<rparr>)"

text \<open>
  The attempts. \<open>remaining\<close> of them are left of \<open>attempts\<close>; the guard taken for an attempt is dropped
  when the attempt ends, also when its response is returned.
\<close>

fun attempt_loop ::
    "('h, 'u, 'q, 'g, 't, 'e, 'x, 'r) env \<Rightarrow> backend \<Rightarrow> nat option \<Rightarrow> recorder \<Rightarrow> 'q option \<Rightarrow> 'g option \<Rightarrow> bytes option
      \<Rightarrow> nat \<Rightarrow> nat \<Rightarrow> ('h, 'u, 'g) parts option \<Rightarrow> ('t, 'e, 'x) proxy_body option \<Rightarrow> nat \<Rightarrow> upstream_error option
      \<Rightarrow> ('h, 'u, 'g, ('t, 'e, 'x) proxy_body) forward_state
      \<Rightarrow> ('h, 'g, ('t, 'e, 'x) proxy_body) response \<times> ('h, 'u, 'g, ('t, 'e, 'x) proxy_body) forward_state" where
  "attempt_loop E b slot rc pq down upgrade attempts 0 pending streaming index failure s =
     (failure_response (px_headers E) failure, s)"
| "attempt_loop E b slot rc pq down upgrade attempts (Suc remaining) pending streaming index failure s =
     (case pending of
        None \<Rightarrow> (failure_response (px_headers E) failure, s)
      | Some base \<Rightarrow>
          (let attempt = attempts - Suc remaining;
               last = (attempt + 1 = attempts);
               pending' = (if last then None else Some base) in
           case get_at (be_endpoints b) index of
             None \<Rightarrow> (failure_response (px_headers E) failure, s)
           | Some endpoint \<Rightarrow>
               (case endpoint_uri (px_uris E) (ep_addr endpoint) pq of
                  None \<Rightarrow> (static_response (px_headers E) 502 BODY_BAD_TARGET, s)
                | Some uri \<Rightarrow>
                    (let outgoing = base\<lparr> pa_uri := uri \<rparr>;
                         body = opt_or BodyEmpty streaming;
                         (s0, guard) = take_guard slot index s;
                         s1 = s0\<lparr> fw_sent := fw_sent s0 @ [(be_protocol b, outgoing, body)] \<rparr> in
                     case px_send E attempt (be_protocol b) outgoing of
                       Inr (r, nanos) \<Rightarrow>
                         (relay (px_headers E) r down upgrade,
                          release_guard guard (rec_latency rc nanos (count (metrics_latency nanos) s1)))
                     | Inl e \<Rightarrow>
                         (let s2 = count (record_failure e) s1 in
                          if is_retryable e \<and> \<not> last
                          then attempt_loop E b slot rc pq down upgrade attempts remaining pending' None
                                 ((index + 1) mod length (be_endpoints b)) (Some e) (release_guard guard (count record_retry s2))
                          else (failure_response (px_headers E) (Some e), release_guard guard s2))))))"

text \<open>The headers for the next hop, by the protocol of the backend.\<close>

definition outgoing_parts ::
    "'h header_ops \<Rightarrow> backend_protocol \<Rightarrow> conn_info \<Rightarrow> bytes option \<Rightarrow> bytes option \<Rightarrow> ('h, 'u, 'g) parts \<Rightarrow> u64
      \<Rightarrow> ('h, 'u, 'g) parts \<times> u64" where
  "outgoing_parts H protocol conn forwarded_host upgrade p s =
     (let h1 = strip_hop_by_hop H (pa_headers p);
          h2 = apply_forwarded H (ci_remote conn) (scheme_as_str (ci_scheme conn)) forwarded_host h1;
          (_, h3, s') = ensure_request_id H h2 s in
      (case protocol of
         Http1 \<Rightarrow>
           (let h4 = (case upgrade of Some u \<Rightarrow> restore_upgrade H h3 u | None \<Rightarrow> h3);
                h5 = (if get_all H h4 ''host'' = []
                      then (case forwarded_host of Some host \<Rightarrow> set_only H h4 ''host'' host | None \<Rightarrow> h4)
                      else h4)
            in p\<lparr> pa_headers := h5, pa_version := HTTP_11, pa_on_upgrade := None \<rparr>)
       | H2c \<Rightarrow> p\<lparr> pa_headers := remove H h3 ''host'', pa_version := HTTP_2, pa_on_upgrade := None \<rparr>, s'))"

definition dispatch ::
    "('h, 'u, 'q, 'g, 't, 'e, 'x, 'r) env \<Rightarrow> conn_info \<Rightarrow> 'r route_table \<Rightarrow> 'r matched \<Rightarrow> recorder
      \<Rightarrow> ('h, 'u, 'g) parts \<Rightarrow> ('t, 'e, 'x) proxy_body
      \<Rightarrow> ('h, 'u, 'g, ('t, 'e, 'x) proxy_body) forward_state
      \<Rightarrow> ('h, 'g, ('t, 'e, 'x) proxy_body) response \<times> ('h, 'u, 'g, ('t, 'e, 'x) proxy_body) forward_state" where
  "dispatch E conn t matched rc p0 body0 s =
     (let H = px_headers E; U = px_uris E; b = ma_backend matched; protocol = be_protocol b in
      if protocol = Http1 \<and> map_is_grpc H (pa_headers p0)
      then (unsupported_response H 502 BODY_GRPC UNSUPPORTED_GRPC, count record_unsupported_grpc s)
      else if be_endpoints b = [] then (static_response H 503 BODY_NO_ENDPOINT, s)
      else
        let forwarded_host = client_host H U p0;
            down = pa_on_upgrade p0;
            upgrade = requested_upgrade H (pa_headers p0);
            (p, rng1) = outgoing_parts H protocol conn forwarded_host upgrade p0 (fw_rng s);
            pq = uri_path_and_query U (pa_uri p);
            (target, s2) = mirror_target_of E t matched (s\<lparr> fw_rng := rng1 \<rparr>);
            (body, s3) = (case target of None \<Rightarrow> (body0, s2) | Some tg \<Rightarrow> mirror_request E t tg p pq body0 s2);
            retryable = is_known_empty (px_hint E) body;
            attempts = (if retryable then min (length (be_endpoints b)) (px_max_connect_attempts E) else 1);
            (word, rng3) = next_u64 (fw_rng s3);
            (hp, picked) = select_endpoint (fw_heap s3) b (rt_stats t) word;
            s4 = s3\<lparr> fw_rng := rng3, fw_heap := hp \<rparr>
        in case picked of
             None \<Rightarrow> (static_response H 503 BODY_NO_ENDPOINT, s4)
           | Some (index, _) \<Rightarrow>
               attempt_loop E b (stats_slot (rt_stats t) (be_stats_index b)) rc pq down upgrade attempts attempts
                 (Some p) (if retryable then None else Some body) index None s4)"

definition forward ::
    "('h, 'u, 'q, 'g, 't, 'e, 'x, 'r) env \<Rightarrow> conn_info \<Rightarrow> 'r route_table \<Rightarrow> ('h, 'u, 'g) parts \<Rightarrow> ('t, 'e, 'x) proxy_body
      \<Rightarrow> ('h, 'u, 'g, ('t, 'e, 'x) proxy_body) forward_state
      \<Rightarrow> ('h, 'g, ('t, 'e, 'x) proxy_body) response \<times> ('h, 'u, 'g, ('t, 'e, 'x) proxy_body) forward_state" where
  "forward E conn t p body s =
     (case select_backend E t p (fw_rng s) of
        (None, rng) \<Rightarrow> (static_response (px_headers E) 404 BODY_NO_ROUTE, count record_route_miss (s\<lparr> fw_rng := rng \<rparr>))
      | (Some matched, rng) \<Rightarrow>
          (let rc = \<lparr> rr_slot = Option.bind (ma_route matched) (route_stats_slot (rt_routes t)),
                      rr_shard = px_shard E, rr_canaried = ma_canaried matched \<rparr>;
               (r, s') = dispatch E conn t matched rc p body (s\<lparr> fw_rng := rng \<rparr>)
           in (r, rec_response rc (rp_status r) s')))"

definition handle ::
    "('h, 'u, 'q, 'g, 't, 'e, 'x, 'r) env \<Rightarrow> conn_info \<Rightarrow> 'r route_table \<Rightarrow> ('h, 'u, 'g) parts \<Rightarrow> ('t, 'e, 'x) proxy_body
      \<Rightarrow> ('h, 'u, 'g, ('t, 'e, 'x) proxy_body) forward_state
      \<Rightarrow> ('h, 'g, ('t, 'e, 'x) proxy_body) response \<times> ('h, 'u, 'g, ('t, 'e, 'x) proxy_body) forward_state" where
  "handle E conn t p body s =
     (let (r, s') = forward E conn t p body s in (r, count (metrics_response (rp_status r)) s'))"

section \<open>What the counters keep\<close>

lemma next_cursor_counters: "next_cursor hp a = (hp', c) \<Longrightarrow> hp_counters hp' = hp_counters hp"
  using next_cursor_fields(1)[of hp a] by simp

lemma select_endpoint_heap: "select_endpoint hp b stats word = (hp', picked) \<Longrightarrow> hp_counters hp' = hp_counters hp"
  by (auto simp: select_endpoint_def Let_def dest!: next_cursor_counters
      split: if_splits lb_policy.splits option.splits prod.splits)

lemma select_endpoint_picked:
  "select_endpoint hp b stats word = (hp', Some (i, ep)) \<Longrightarrow> i < length (be_endpoints b) \<and> be_endpoints b ! i = ep"
  by (auto simp: select_endpoint_def Let_def split: if_splits lb_policy.splits option.splits prod.splits)

text \<open>A guard gives back what it took.\<close>

lemma acquire_drop:
  assumes "acquire hp slot i = (hp1, Some g)"
  shows "hp_counters (drop_guard hp1 g) = hp_counters hp"
proof -
  from assms have "hp_counters hp1 = (hp_counters hp)[g := hp_counters hp ! g + 1]"
    by (auto simp: acquire_def fetch_add_def split: option.splits)
  then show ?thesis by (cases "g < length (hp_counters hp)") (simp_all add: drop_guard_def fetch_add_def list_update_beyond)
qed

lemma take_release:
  assumes "take_guard slot index s = (s0, guard)"
  shows "fw_heap s2 = fw_heap s0 \<Longrightarrow> hp_counters (fw_heap (release_guard guard s2)) = hp_counters (fw_heap s)"
    and "fw_metrics s0 = fw_metrics s" "fw_sent s0 = fw_sent s" "fw_rng s0 = fw_rng s" "fw_queue s0 = fw_queue s"
  using assms acquire_drop
  by (fastforce simp: take_guard_def release_guard_def acquire_def split: option.splits prod.splits)+

lemma release_fields [simp]:
  "fw_metrics (release_guard guard s) = fw_metrics s" "fw_sent (release_guard guard s) = fw_sent s"
  by (simp_all add: release_guard_def split: option.split)

definition same_counts :: "('h, 'u, 'g, 'b) forward_state \<Rightarrow> ('h, 'u, 'g, 'b) forward_state \<Rightarrow> bool" where
  "same_counts s s' \<longleftrightarrow> hp_counters (fw_heap s') = hp_counters (fw_heap s)
     \<and> me_requests (fw_metrics s') = me_requests (fw_metrics s)"

lemma count_fields [simp]:
  "fw_heap (count f s) = fw_heap s" "fw_sent (count f s) = fw_sent s" "fw_queue (count f s) = fw_queue s"
  "fw_metrics (count f s) = f (fw_metrics s)" "fw_rng (count f s) = fw_rng s" "fw_routes (count f s) = fw_routes s"
  by (simp_all add: count_def)

lemma rec_fields [simp]:
  "fw_heap (rec_response rc status s) = fw_heap s" "fw_metrics (rec_response rc status s) = fw_metrics s"
  "fw_sent (rec_response rc status s) = fw_sent s"
  "fw_heap (rec_latency rc nanos s) = fw_heap s" "fw_metrics (rec_latency rc nanos s) = fw_metrics s"
  "fw_sent (rec_latency rc nanos s) = fw_sent s"
  by (simp_all add: rec_response_def rec_latency_def on_route_def split: option.split)

lemmas me_requests_kept = record_mirror_failure_def record_mirror_dropped_def record_mirror_skipped_def record_retry_def
  metrics_latency_def record_unsupported_grpc_def record_route_miss_def record_connect_failure_def record_upstream_timeout_def

lemma record_failure_requests [simp]: "me_requests (record_failure e m) = me_requests m"
  by (cases e) (simp_all add: record_failure_def me_requests_kept)

lemma enqueue_fields [simp]:
  "fw_heap (enqueue receiving job s) = fw_heap s" "fw_sent (enqueue receiving job s) = fw_sent s"
  "me_requests (fw_metrics (enqueue receiving job s)) = me_requests (fw_metrics s)"
  by (simp_all add: enqueue_def me_requests_kept)

lemma mirror_target_kept:
  "mirror_target_of E t ma s = (target, s') \<Longrightarrow> same_counts s s' \<and> fw_sent s' = fw_sent s"
  by (auto simp: mirror_target_of_def same_counts_def me_requests_kept split: option.splits if_splits)

lemma mirror_request_kept:
  assumes "mirror_request E t tg p pq body s = (body', s')"
  shows "same_counts s s' \<and> fw_sent s' = fw_sent s"
proof -
  obtain primary copied skipped where b: "mirror_bodies (px_hint E) (mt_cap tg) body = (primary, copied, skipped)"
    by (cases "mirror_bodies (px_hint E) (mt_cap tg) body") auto
  obtain word rng where w: "next_u64 (fw_rng s) = (word, rng)" by (cases "next_u64 (fw_rng s)")
  obtain hp picked where e: "select_endpoint (fw_heap s) (mt_backend tg) (rt_stats t) word = (hp, picked)"
    by (cases "select_endpoint (fw_heap s) (mt_backend tg) (rt_stats t) word")
  from assms select_endpoint_heap[OF e] show ?thesis
    by (auto simp: mirror_request_def b w e same_counts_def me_requests_kept Let_def split: option.splits if_splits)
qed

lemma same_counts_trans: "same_counts a b \<Longrightarrow> same_counts b c \<Longrightarrow> same_counts a c"
  by (simp add: same_counts_def)

lemma attempt_loop_blocked:
  assumes "\<nexists>ep uri. get_at (be_endpoints b) index = Some ep \<and> endpoint_uri (px_uris E) (ep_addr ep) pq = Some uri"
  shows "snd (attempt_loop E b slot rc pq down upgrade attempts remaining pending streaming index failure s) = s"
  using assms by (cases remaining) (auto simp: attempt_loop.simps Let_def split: option.splits)

declare attempt_loop.simps(2) [simp del]

lemma attempt_loop_step:
  assumes "get_at (be_endpoints b) index = Some ep" "endpoint_uri (px_uris E) (ep_addr ep) pq = Some uri"
    and "take_guard slot index s = (s0, guard)"
    and "s1 = s0\<lparr> fw_sent := fw_sent s0 @ [(be_protocol b, base\<lparr> pa_uri := uri \<rparr>, opt_or BodyEmpty streaming)] \<rparr>"
  shows "attempt_loop E b slot rc pq down upgrade attempts (Suc remaining) (Some base) streaming index failure s =
    (case px_send E (attempts - Suc remaining) (be_protocol b) (base\<lparr> pa_uri := uri \<rparr>) of
       Inr rn \<Rightarrow> (relay (px_headers E) (fst rn) down upgrade,
                 release_guard guard (rec_latency rc (snd rn) (count (metrics_latency (snd rn)) s1)))
     | Inl e \<Rightarrow>
         if is_retryable e \<and> attempts - Suc remaining + 1 \<noteq> attempts
         then attempt_loop E b slot rc pq down upgrade attempts remaining (Some base) None
                ((index + 1) mod length (be_endpoints b)) (Some e) (release_guard guard (count record_retry (count (record_failure e) s1)))
         else (failure_response (px_headers E) (Some e), release_guard guard (count (record_failure e) s1)))"
  by (simp only: attempt_loop.simps option.case assms(1,2,3) Let_def prod.case)
     (auto simp: assms(4) split: sum.split prod.split)

lemma attempt_loop_kept:
  "same_counts s (snd (attempt_loop E b slot rc pq down upgrade attempts remaining pending streaming index failure s))"
proof (induction remaining arbitrary: pending streaming index failure s)
  case (Suc remaining)
  show ?case
  proof (cases "\<exists>ep uri. get_at (be_endpoints b) index = Some ep \<and> endpoint_uri (px_uris E) (ep_addr ep) pq = Some uri")
    case False
    show ?thesis by (simp add: attempt_loop_blocked[OF False] same_counts_def)
  next
    case True
    then obtain ep uri where u: "get_at (be_endpoints b) index = Some ep" "endpoint_uri (px_uris E) (ep_addr ep) pq = Some uri" by blast
    obtain s0 guard where g: "take_guard slot index s = (s0, guard)" by (cases "take_guard slot index s")
    show ?thesis
    proof (cases pending)
      case (Some base)
      have kept: "same_counts s (release_guard guard s2)"
        if "fw_heap s2 = fw_heap s0" "me_requests (fw_metrics s2) = me_requests (fw_metrics s)" for s2
        using that take_release(1)[OF g, of s2] by (simp add: same_counts_def)
      show ?thesis
        unfolding Some attempt_loop_step[OF u g refl]
        by (auto simp: take_release(2)[OF g] me_requests_kept intro!: kept same_counts_trans[OF kept Suc.IH] split: sum.split)
    qed (simp add: same_counts_def attempt_loop.simps)
  qed
qed (simp add: same_counts_def)

text \<open>A dispatched request is refused before anything is sent, or is a run of the attempts.\<close>

lemma dispatch_attempts:
  assumes "dispatch E conn t ma rc p body s = (r, s')"
  shows "same_counts s s' \<and> fw_sent s' = fw_sent s
    \<or> (\<exists>p1 body1 index s4.
        same_counts s s4 \<and> fw_sent s4 = fw_sent s \<and> index < length (be_endpoints (ma_backend ma))
        \<and> (let retryable = is_known_empty (px_hint E) body1;
               attempts = (if retryable then min (length (be_endpoints (ma_backend ma))) (px_max_connect_attempts E) else 1)
            in (r, s') = attempt_loop E (ma_backend ma) (stats_slot (rt_stats t) (be_stats_index (ma_backend ma))) rc
                 (uri_path_and_query (px_uris E) (pa_uri p)) (pa_on_upgrade p) (requested_upgrade (px_headers E) (pa_headers p))
                 attempts attempts (Some p1) (if retryable then None else Some body1) index None s4))"
proof (cases "be_protocol (ma_backend ma) = Http1 \<and> map_is_grpc (px_headers E) (pa_headers p) \<or> be_endpoints (ma_backend ma) = []")
  case True
  with assms show ?thesis by (auto simp: dispatch_def Let_def same_counts_def me_requests_kept split: if_splits)
next
  case False
  let ?b = "ma_backend ma"
  obtain p1 rng1 where o: "outgoing_parts (px_headers E) (be_protocol ?b) conn (client_host (px_headers E) (px_uris E) p)
      (requested_upgrade (px_headers E) (pa_headers p)) p (fw_rng s) = (p1, rng1)" by fastforce
  have uri: "pa_uri p1 = pa_uri p"
    using o by (auto simp: outgoing_parts_def Let_def split: backend_protocol.splits prod.splits)
  obtain target s2 where m: "mirror_target_of E t ma (s\<lparr> fw_rng := rng1 \<rparr>) = (target, s2)" by fastforce
  obtain body1 s3 where q: "(case target of None \<Rightarrow> (body, s2)
      | Some tg \<Rightarrow> mirror_request E t tg p1 (uri_path_and_query (px_uris E) (pa_uri p1)) body s2) = (body1, s3)" by fastforce
  obtain word rng3 where w: "next_u64 (fw_rng s3) = (word, rng3)" by fastforce
  obtain hp picked where e: "select_endpoint (fw_heap s3) ?b (rt_stats t) word = (hp, picked)" by fastforce
  let ?s4 = "s3\<lparr> fw_rng := rng3, fw_heap := hp \<rparr>"
  have "same_counts s s2 \<and> fw_sent s2 = fw_sent s" using mirror_target_kept[OF m] by (simp add: same_counts_def)
  moreover have "same_counts s2 s3 \<and> fw_sent s3 = fw_sent s2"
    using q mirror_request_kept by (cases target) (fastforce simp: same_counts_def)+
  moreover have "same_counts s3 ?s4 \<and> fw_sent ?s4 = fw_sent s3"
    using select_endpoint_heap[OF e] by (simp add: same_counts_def)
  ultimately have kept: "same_counts s ?s4" "fw_sent ?s4 = fw_sent s" by (metis same_counts_trans)+
  show ?thesis
  proof (cases picked)
    case None
    with kept assms False show ?thesis by (auto simp: dispatch_def Let_def o m q w e)
  next
    case (Some ie)
    with select_endpoint_picked[of _ _ _ _ hp "fst ie" "snd ie"] e have index: "fst ie < length (be_endpoints ?b)" by fastforce
    from assms False Some show ?thesis
      by (intro disjI2 exI[of _ p1] exI[of _ body1] exI[of _ "fst ie"] exI[of _ ?s4])
         (use kept index in \<open>auto simp: dispatch_def Let_def o m q w e uri split: prod.splits\<close>)
  qed
qed

lemma dispatch_kept: "same_counts s (snd (dispatch E conn t ma rc p body s))"
  using dispatch_attempts[of E conn t ma rc p body s "fst (dispatch E conn t ma rc p body s)" "snd (dispatch E conn t ma rc p body s)"]
    attempt_loop_kept same_counts_trans by (fastforce simp: Let_def)

section \<open>The requests that are sent\<close>

definition sent_from ::
    "('h, 'u, 'q, 'g, 't, 'e, 'x, 'r) env \<Rightarrow> backend \<Rightarrow> 'q option \<Rightarrow> ('h, 'u, 'g) parts \<Rightarrow> nat \<Rightarrow> nat
      \<Rightarrow> (backend_protocol \<times> ('h, 'u, 'g) parts \<times> ('t, 'e, 'x) proxy_body) list \<Rightarrow> bool" where
  "sent_from E b pq base first index sent \<longleftrightarrow>
     (\<forall>j < length sent. \<exists>ep uri. get_at (be_endpoints b) ((index + j) mod length (be_endpoints b)) = Some ep
        \<and> endpoint_uri (px_uris E) (ep_addr ep) pq = Some uri
        \<and> fst (sent ! j) = be_protocol b \<and> fst (snd (sent ! j)) = base\<lparr> pa_uri := uri \<rparr>
        \<and> (Suc j < length sent \<longrightarrow> px_send E (first + j) (be_protocol b) (base\<lparr> pa_uri := uri \<rparr>) = Inl UConnect))"

lemma sent_from_Nil [simp]: "sent_from E b pq base first index []"
  by (simp add: sent_from_def)

lemma sent_from_Cons:
  assumes "get_at (be_endpoints b) index = Some ep" "endpoint_uri (px_uris E) (ep_addr ep) pq = Some uri"
    and "sent_from E b pq base (Suc first) ((index + 1) mod length (be_endpoints b)) sent"
    and "sent \<noteq> [] \<Longrightarrow> px_send E first (be_protocol b) (base\<lparr> pa_uri := uri \<rparr>) = Inl UConnect"
  shows "sent_from E b pq base first index ((be_protocol b, base\<lparr> pa_uri := uri \<rparr>, body) # sent)"
  unfolding sent_from_def
proof (intro allI impI)
  fix j assume j: "j < length ((be_protocol b, base\<lparr> pa_uri := uri \<rparr>, body) # sent)"
  have n: "index < length (be_endpoints b)" using assms(1) by simp
  show "\<exists>ep' uri'. get_at (be_endpoints b) ((index + j) mod length (be_endpoints b)) = Some ep'
        \<and> endpoint_uri (px_uris E) (ep_addr ep') pq = Some uri'
        \<and> fst (((be_protocol b, base\<lparr> pa_uri := uri \<rparr>, body) # sent) ! j) = be_protocol b
        \<and> fst (snd (((be_protocol b, base\<lparr> pa_uri := uri \<rparr>, body) # sent) ! j)) = base\<lparr> pa_uri := uri' \<rparr>
        \<and> (Suc j < length ((be_protocol b, base\<lparr> pa_uri := uri \<rparr>, body) # sent)
           \<longrightarrow> px_send E (first + j) (be_protocol b) (base\<lparr> pa_uri := uri' \<rparr>) = Inl UConnect)"
  proof (cases j)
    case 0
    with n assms show ?thesis by auto
  next
    case (Suc i)
    have "(index + j) mod length (be_endpoints b) = ((index + 1) mod length (be_endpoints b) + i) mod length (be_endpoints b)"
      by (simp add: Suc mod_add_left_eq)
    with assms(3) j Suc show ?thesis by (simp add: sent_from_def)
  qed
qed

lemma attempt_loop_trace:
  assumes "remaining \<le> attempts"
  shows "\<exists>sent. fw_sent (snd (attempt_loop E b slot rc pq down upgrade attempts remaining (Some base) streaming index failure s))
        = fw_sent s @ sent \<and> length sent \<le> remaining \<and> sent_from E b pq base (attempts - remaining) index sent
      \<and> (\<forall>j < length sent. snd (snd (sent ! j)) = (if j = 0 then opt_or BodyEmpty streaming else BodyEmpty))"
  using assms
proof (induction remaining arbitrary: streaming index failure s)
  case (Suc remaining)
  let ?first = "attempts - Suc remaining"
  have first: "Suc ?first = attempts - remaining" using Suc.prems by simp
  show ?case
  proof (cases "\<exists>ep uri. get_at (be_endpoints b) index = Some ep \<and> endpoint_uri (px_uris E) (ep_addr ep) pq = Some uri")
    case False
    then show ?thesis by (intro exI[of _ "[]"]) (simp add: attempt_loop_blocked[OF False])
  next
    case True
    then obtain ep uri where u: "get_at (be_endpoints b) index = Some ep" "endpoint_uri (px_uris E) (ep_addr ep) pq = Some uri" by blast
    obtain s0 guard where g: "take_guard slot index s = (s0, guard)" by (cases "take_guard slot index s")
    let ?one = "(be_protocol b, base\<lparr> pa_uri := uri \<rparr>, opt_or BodyEmpty streaming)"
    let ?s1 = "s0\<lparr> fw_sent := fw_sent s0 @ [?one] \<rparr>"
    note step = attempt_loop_step[OF u g refl, of rc down upgrade attempts remaining base streaming failure]
    show ?thesis
    proof (cases "px_send E ?first (be_protocol b) (base\<lparr> pa_uri := uri \<rparr>) = Inl UConnect \<and> ?first + 1 \<noteq> attempts")
      case True
      then have again: "attempt_loop E b slot rc pq down upgrade attempts (Suc remaining) (Some base) streaming index failure s
          = attempt_loop E b slot rc pq down upgrade attempts remaining (Some base) None ((index + 1) mod length (be_endpoints b))
              (Some UConnect) (release_guard guard (count record_retry (count (record_failure UConnect) ?s1)))"
        unfolding step by (simp add: is_retryable_def)
      from Suc.IH[of None "(index + 1) mod length (be_endpoints b)" "Some UConnect"
          "release_guard guard (count record_retry (count (record_failure UConnect) ?s1))"] Suc.prems
      obtain sent where sent: "fw_sent (snd (attempt_loop E b slot rc pq down upgrade attempts (Suc remaining) (Some base) streaming index failure s))
          = fw_sent s @ ?one # sent" "length sent \<le> remaining"
          "sent_from E b pq base (Suc ?first) ((index + 1) mod length (be_endpoints b)) sent"
          "\<forall>j < length sent. snd (snd (sent ! j)) = BodyEmpty"
        unfolding again by (auto simp: take_release(3)[OF g] first opt_or_def)
      show ?thesis
        by (intro exI[of _ "?one # sent"] conjI sent_from_Cons[OF u sent(3)])
           (use sent True in \<open>auto simp: nth_Cons split: nat.splits\<close>)
    next
      case False
      then have "fw_sent (snd (attempt_loop E b slot rc pq down upgrade attempts (Suc remaining) (Some base) streaming index failure s))
          = fw_sent s @ [?one]"
        unfolding step by (auto simp: is_retryable_def take_release(3)[OF g] split: sum.split)
      then show ?thesis
        by (intro exI[of _ "[?one]"] conjI sent_from_Cons[OF u sent_from_Nil]) auto
    qed
  qed
qed (intro exI[of _ "[]"], simp)

section \<open>Properties\<close>

text \<open>
  C27. However a request ends (no route, a refusal, a failure at any attempt, an answer), it is
  counted as exactly one response of its status class, and every in-flight counter it raised, one
  per attempt, has been lowered again.
\<close>

theorem request_accounted_once:
  "me_requests (fw_metrics (snd (handle E conn t p body s)))
     = bump (class_index (rp_status (fst (handle E conn t p body s)))) (me_requests (fw_metrics s))
   \<and> hp_counters (fw_heap (snd (handle E conn t p body s))) = hp_counters (fw_heap s)"
proof -
  obtain r1 s1 where f: "forward E conn t p body s = (r1, s1)" by fastforce
  have "same_counts s s1"
  proof (cases "select_backend E t p (fw_rng s)")
    case (Pair ma rng)
    then show ?thesis
    proof (cases ma)
      case None
      with Pair f show ?thesis by (auto simp: forward_def same_counts_def me_requests_kept)
    next
      case (Some m)
      let ?rc = "\<lparr> rr_slot = Option.bind (ma_route m) (route_stats_slot (rt_routes t)), rr_shard = px_shard E, rr_canaried = ma_canaried m \<rparr>"
      obtain r2 s2 where d: "dispatch E conn t m ?rc p body (s\<lparr> fw_rng := rng \<rparr>) = (r2, s2)" by fastforce
      with Some Pair f have "s1 = rec_response ?rc (rp_status r2) s2" by (auto simp: forward_def)
      with dispatch_kept[of "s\<lparr> fw_rng := rng \<rparr>" E conn t m ?rc p body] d show ?thesis
        by (simp add: same_counts_def)
    qed
  qed
  with f show ?thesis by (simp add: handle_def same_counts_def metrics_response_def)
qed

text \<open>
  What one request sends upstream: at most as many exchanges as the backend has endpoints and
  as the configuration allows (one, if the body might have bytes), each to the next endpoint after
  the one selected, so never twice to the same; every exchange before the last failed to connect;
  and either there is a single exchange or none of them carries a body.
\<close>

theorem dispatch_sends_once_per_endpoint:
  "\<exists>sent index base.
     fw_sent (snd (dispatch E conn t ma rc p body s)) = fw_sent s @ sent
   \<and> length sent \<le> max 1 (min (length (be_endpoints (ma_backend ma))) (px_max_connect_attempts E))
   \<and> sent_from E (ma_backend ma) (uri_path_and_query (px_uris E) (pa_uri p)) base 0 index sent
   \<and> distinct (map (\<lambda>j. (index + j) mod length (be_endpoints (ma_backend ma))) [0..<length sent])
   \<and> (length sent \<le> 1 \<or> map (\<lambda>x. snd (snd x)) sent = replicate (length sent) BodyEmpty)"
proof -
  let ?n = "length (be_endpoints (ma_backend ma))"
  obtain r s' where d: "dispatch E conn t ma rc p body s = (r, s')" by fastforce
  from dispatch_attempts[OF this] show ?thesis
  proof (elim disjE exE conjE)
    fix p1 body1 index s4
    let ?m = "min ?n (px_max_connect_attempts E)"
    assume s4: "fw_sent s4 = fw_sent s" and i: "index < ?n"
      and run: "let retryable = is_known_empty (px_hint E) body1; attempts = (if retryable then ?m else 1)
        in (r, s') = attempt_loop E (ma_backend ma) (stats_slot (rt_stats t) (be_stats_index (ma_backend ma))) rc
             (uri_path_and_query (px_uris E) (pa_uri p)) (pa_on_upgrade p) (requested_upgrade (px_headers E) (pa_headers p))
             attempts attempts (Some p1) (if retryable then None else Some body1) index None s4"
    let ?k = "if is_known_empty (px_hint E) body1 then ?m else 1"
    from run attempt_loop_trace[OF order_refl, of E "ma_backend ma" "stats_slot (rt_stats t) (be_stats_index (ma_backend ma))" rc
        "uri_path_and_query (px_uris E) (pa_uri p)" "pa_on_upgrade p" "requested_upgrade (px_headers E) (pa_headers p)" ?k p1
        "if is_known_empty (px_hint E) body1 then None else Some body1" index None s4]
    obtain sent where sent: "fw_sent s' = fw_sent s @ sent" "length sent \<le> ?k"
      "sent_from E (ma_backend ma) (uri_path_and_query (px_uris E) (pa_uri p)) p1 0 index sent"
      "\<forall>j < length sent. snd (snd (sent ! j))
         = (if j = 0 then opt_or BodyEmpty (if is_known_empty (px_hint E) body1 then None else Some body1) else BodyEmpty)"
      unfolding Let_def s4 by (metis diff_self_eq_0 snd_conv)
    have le: "length sent \<le> ?n" using sent(2) i by (auto split: if_splits)
    have dist: "distinct (map (\<lambda>j. (index + j) mod ?n) [0..<length sent])"
      unfolding distinct_map
    proof (intro conjI distinct_upt inj_onI)
      fix j l assume jl: "j \<in> set [0..<length sent]" "l \<in> set [0..<length sent]" and e: "(index + j) mod ?n = (index + l) mod ?n"
      then have "j mod ?n = l mod ?n" by (simp add: mod_eq_iff_dvd_symdiff_nat mod_add_cong)
      with jl le show "j = l" by simp
    qed
    have body: "length sent \<le> 1 \<or> map (\<lambda>x. snd (snd x)) sent = replicate (length sent) BodyEmpty"
    proof (cases "is_known_empty (px_hint E) body1")
      case True
      then show ?thesis using sent(4) by (intro disjI2 nth_equalityI) (simp_all add: opt_or_def)
    qed (use sent(2) in simp)
    have "length sent \<le> max 1 ?m" using sent(2) by (auto split: if_splits)
    with sent(1,3) dist body d show ?thesis by auto
  next
    assume "fw_sent s' = fw_sent s"
    with d show ?thesis by (intro exI[of _ "[]"] exI[of _ 0] exI[of _ p]) simp
  qed
qed

text \<open>One attempt at an endpoint whose URI is \<open>uri\<close>, by what sending did.\<close>

lemma attempt_loop_outcome:
  assumes "get_at (be_endpoints b) index = Some ep" "endpoint_uri (px_uris E) (ep_addr ep) pq = Some uri"
    and "px_send E (attempts - Suc remaining) (be_protocol b) (base\<lparr> pa_uri := uri \<rparr>) = out"
    and "out \<noteq> Inl UConnect \<or> attempts - Suc remaining + 1 = attempts"
  shows "fst (attempt_loop E b slot rc pq down upgrade attempts (Suc remaining) (Some base) streaming index failure s)
    = (case out of Inr rn \<Rightarrow> relay (px_headers E) (fst rn) down upgrade | Inl e \<Rightarrow> failure_response (px_headers E) (Some e))"
proof -
  obtain s0 guard where g: "take_guard slot index s = (s0, guard)" by (cases "take_guard slot index s")
  show ?thesis
    unfolding attempt_loop_step[OF assms(1,2) g refl] assms(3)
    using assms(4) by (auto simp: is_retryable_def split: sum.split)
qed

lemma attempt_loop_again:
  assumes "get_at (be_endpoints b) index = Some ep" "endpoint_uri (px_uris E) (ep_addr ep) pq = Some uri"
    and "px_send E (attempts - Suc remaining) (be_protocol b) (base\<lparr> pa_uri := uri \<rparr>) = Inl UConnect"
    and "attempts - Suc remaining + 1 \<noteq> attempts"
  shows "\<exists>s1. attempt_loop E b slot rc pq down upgrade attempts (Suc remaining) (Some base) streaming index failure s
    = attempt_loop E b slot rc pq down upgrade attempts remaining (Some base) None
        ((index + 1) mod length (be_endpoints b)) (Some UConnect) s1"
proof -
  obtain s0 guard where g: "take_guard slot index s = (s0, guard)" by (cases "take_guard slot index s")
  show ?thesis
    unfolding attempt_loop_step[OF assms(1,2) g refl] assms(3)
    using assms(4) by (auto simp: is_retryable_def)
qed

lemma attempt_loop_answer:
  assumes "remaining \<le> attempts" "index < length (be_endpoints b)" "k < remaining"
    and "\<And>j. j \<le> k \<Longrightarrow> endpoint_uri (px_uris E) (ep_addr (be_endpoints b ! ((index + j) mod length (be_endpoints b)))) pq = Some (u j)"
    and "\<And>j. j < k \<Longrightarrow> px_send E (attempts - remaining + j) (be_protocol b) (base\<lparr> pa_uri := u j \<rparr>) = Inl UConnect"
    and "px_send E (attempts - remaining + k) (be_protocol b) (base\<lparr> pa_uri := u k \<rparr>) = out"
    and "out \<noteq> Inl UConnect \<or> attempts - remaining + k + 1 = attempts"
  shows "fst (attempt_loop E b slot rc pq down upgrade attempts remaining (Some base) streaming index failure s)
    = (case out of Inr rn \<Rightarrow> relay (px_headers E) (fst rn) down upgrade | Inl e \<Rightarrow> failure_response (px_headers E) (Some e))"
  using assms
proof (induction remaining arbitrary: k u streaming index failure s)
  case (Suc remaining)
  let ?n = "length (be_endpoints b)"
  have ep: "get_at (be_endpoints b) index = Some (be_endpoints b ! index)" using Suc.prems(2) by simp
  have uri: "endpoint_uri (px_uris E) (ep_addr (be_endpoints b ! index)) pq = Some (u 0)"
    using Suc.prems(2) Suc.prems(4)[of 0] by simp
  show ?case
  proof (cases k)
    case 0
    show ?thesis by (rule attempt_loop_outcome[OF ep uri]) (use Suc.prems(6,7) 0 in simp_all)
  next
    case (Suc i)
    have first: "attempts - Suc remaining + Suc j = attempts - remaining + j" for j using Suc.prems(1) by simp
    have "attempts - Suc remaining + 1 \<noteq> attempts" using Suc.prems(1,3) Suc by simp
    from attempt_loop_again[OF ep uri _ this] Suc.prems(5)[of 0] Suc
    obtain s1 where again: "attempt_loop E b slot rc pq down upgrade attempts (Suc remaining) (Some base) streaming index failure s
      = attempt_loop E b slot rc pq down upgrade attempts remaining (Some base) None ((index + 1) mod ?n) (Some UConnect) s1"
      by fastforce
    show ?thesis unfolding again
    proof (rule Suc.IH[where u = "\<lambda>j. u (Suc j)" and k = i])
      show "remaining \<le> attempts" "(index + 1) mod ?n < ?n" "i < remaining"
        using Suc.prems(1,2,3) Suc by (auto intro: mod_less_divisor)
      show "endpoint_uri (px_uris E) (ep_addr (be_endpoints b ! (((index + 1) mod ?n + j) mod ?n))) pq = Some (u (Suc j))"
        if "j \<le> i" for j
        using Suc.prems(4)[of "Suc j"] that Suc by (simp add: mod_add_left_eq)
      show "px_send E (attempts - remaining + j) (be_protocol b) (base\<lparr> pa_uri := u (Suc j) \<rparr>) = Inl UConnect"
        if "j < i" for j
        using Suc.prems(5)[of "Suc j"] that Suc unfolding first by simp
      show "px_send E (attempts - remaining + i) (be_protocol b) (base\<lparr> pa_uri := u (Suc i) \<rparr>) = out"
        "out \<noteq> Inl UConnect \<or> attempts - remaining + i + 1 = attempts"
        using Suc.prems(6,7) unfolding Suc first by (simp_all only: Suc_eq_plus1[symmetric])
    qed
  qed
qed simp

text \<open>
  C28. Failover: if the first \<open>k\<close> endpoints from the selected one refuse the connection and the next
  one does anything else, or is the last that may be tried, the client gets what that exchange
  gave: the relayed answer, a 504 after a timeout, and otherwise a 502.
\<close>

theorem failover_reaches_first_answer:
  assumes "index < length (be_endpoints b)" "k < attempts"
    and "\<And>j. j \<le> k \<Longrightarrow> endpoint_uri (px_uris E) (ep_addr (be_endpoints b ! ((index + j) mod length (be_endpoints b)))) pq = Some (u j)"
    and "\<And>j. j < k \<Longrightarrow> px_send E j (be_protocol b) (base\<lparr> pa_uri := u j \<rparr>) = Inl UConnect"
    and "px_send E k (be_protocol b) (base\<lparr> pa_uri := u k \<rparr>) = out"
    and "out \<noteq> Inl UConnect \<or> k + 1 = attempts"
  shows "fst (attempt_loop E b slot rc pq down upgrade attempts attempts (Some base) streaming index None s)
    = (case out of
         Inr rn \<Rightarrow> relay (px_headers E) (fst rn) down upgrade
       | Inl UTimeout \<Rightarrow> static_response (px_headers E) 504 BODY_TIMEOUT
       | Inl UConnect \<Rightarrow> static_response (px_headers E) 502 BODY_CONNECT_FAILED
       | Inl UTransport \<Rightarrow> static_response (px_headers E) 502 BODY_UPSTREAM_FAILED)"
  by (subst attempt_loop_answer[OF order_refl assms(1,2), where u = u and out = out])
     (use assms in \<open>simp_all add: failure_response_def split: sum.split upstream_error.split\<close>)

text \<open>An upstream of three endpoints that refuses the first connection and answers the second attempt.\<close>

definition sample_env :: "((bytes \<times> bytes) list, string, string, unit, unit, unit, unit, unit) env" where
  "sample_env =
     \<lparr> px_headers = alist_ops,
       px_uris = \<lparr> uri_authority = (\<lambda>_. None), uri_path = (\<lambda>u. u), uri_path_and_query = Some, pq_as_str = (\<lambda>q. q), parse_uri = Some \<rparr>,
       px_hint = (\<lambda>_. (0, None)),
       px_send = (\<lambda>k _ p. if k = 0 then Inl UConnect
                    else Inr (\<lparr> rp_status = 200, rp_headers = [(''via'', pa_uri p)], rp_body = [], rp_on_upgrade = None \<rparr>, 5)),
       px_is_match = (\<lambda>_ _. False), px_max_connect_attempts = 3, px_shard = 0, px_mirror = None \<rparr>"

definition sample_parts :: "((bytes \<times> bytes) list, string, unit) parts" where
  "sample_parts = \<lparr> pa_uri = ''/'', pa_version = HTTP_11, pa_headers = [], pa_on_upgrade = None \<rparr>"

theorem failover_reaches_first_answer_witness:
  "rp_status (fst (attempt_loop sample_env (sample_backend RoundRobin) None \<lparr> rr_slot = None, rr_shard = 0, rr_canaried = False \<rparr>
     None None None 3 3 (Some sample_parts) None 2 None
     \<lparr> fw_heap = sample_heap, fw_routes = [], fw_metrics = metrics_default, fw_rng = 1, fw_queue = [], fw_sent = [] \<rparr>)) = 200"
proof -
  let ?u = "\<lambda>j. ''http://'' @ show_socket_addr (ep_addr (be_endpoints (sample_backend RoundRobin)
      ! ((2 + j) mod length (be_endpoints (sample_backend RoundRobin))))) @ ''/''"
  have uri: "endpoint_uri (px_uris sample_env) a None = Some (''http://'' @ show_socket_addr a @ ''/'')" for a
    by (simp add: endpoint_uri_def sample_env_def)
  have n: "length (be_endpoints (sample_backend RoundRobin)) = 3"
    by (simp add: sample_backend_fields sample_endpoints_def)
  show ?thesis
    by (subst failover_reaches_first_answer[where k = 1 and u = ?u, OF _ _ _ _ refl])
       (simp_all add: n uri, simp_all add: sample_env_def relay_def)
qed

end
