(* ===== verification/Route_Glue.thy ===== *)
theory Route_Glue
  imports Forward
begin

text \<open>
  The uring engine's own side of routing and refusing: \<open>crates/ramjet-engine/src/route.rs\<close> (which
  backend, which endpoints) and \<open>crates/ramjet-engine/src/limits.rs\<close> (the responses the engine
  invents). The encoder of responses and the standard reason phrases belong to the \<open>ramjet-http\<close>
  crate of another repository and are parameters; an encoder's answer is the text it appends.
\<close>

section \<open>Matching\<close>

definition engine_match_request ::
    "('r \<Rightarrow> string \<Rightarrow> bool) \<Rightarrow> 'r route_table \<Rightarrow> string \<Rightarrow> string \<Rightarrow> head \<Rightarrow> bytes \<Rightarrow> u64 \<Rightarrow> 'r matched option \<times> u64" where
  "engine_match_request is_match t host path h buf s =
     (case match_request is_match t host path of
        None \<Rightarrow> (None, s)
      | Some m \<Rightarrow>
          (let route = map_option pr_stats_index (mr_rule m);
               (mirror, s1) = sample_mirror (match_mirror m) s in
           case match_canary m of
             None \<Rightarrow> (Some \<lparr> ma_backend = mr_backend m, ma_route = route, ma_canaried = False, ma_mirror = mirror \<rparr>, s1)
           | Some canary \<Rightarrow>
               (let header_value = Option.bind (Option.bind (map_option hr_name (cs_header canary)) (head_header h buf)) from_utf8;
                    cookie_val = Option.bind (cs_cookie canary) (cookie_value h buf);
                    (roll, s2) = below (cs_weight_total canary) s1;
                    diverted = decide is_match canary header_value cookie_val roll;
                    canary_backend = (if diverted then table_backend t (cs_backend canary) else None)
                in (Some \<lparr> ma_backend = opt_or (mr_backend m) canary_backend, ma_route = route,
                           ma_canaried = (canary_backend \<noteq> None), ma_mirror = mirror \<rparr>, s2))))"

definition first_endpoint :: "heap \<Rightarrow> 'r route_table \<Rightarrow> backend \<Rightarrow> u64 \<Rightarrow> (heap \<times> (nat \<times> endpoint) option) \<times> u64" where
  "first_endpoint hp t b s = (let (word, s') = next_u64 s in (select_endpoint hp b (rt_stats t) word, s'))"

definition endpoint_at :: "backend \<Rightarrow> nat \<Rightarrow> nat \<Rightarrow> endpoint option" where
  "endpoint_at b first attempt =
     (let endpoints = be_endpoints b in
      if endpoints = [] then None else get_at endpoints ((first + attempt) mod length endpoints))"

definition attempts_allowed :: "framing \<Rightarrow> nat \<Rightarrow> nat \<Rightarrow> nat" where
  "attempts_allowed framing endpoints max_attempts =
     (if framing = Empty then max (min endpoints max_attempts) 1 else 1)"

text \<open>The addresses \<open>route_request\<close> will try, in order.\<close>

definition targets_of :: "backend \<Rightarrow> nat \<Rightarrow> nat \<Rightarrow> socket_addr list" where
  "targets_of b first allowed =
     concat (map (\<lambda>attempt. case endpoint_at b first attempt of None \<Rightarrow> [] | Some e \<Rightarrow> [ep_addr e]) [0..<allowed])"

section \<open>Static responses\<close>

definition NO_ROUTE :: bytes where
  "NO_ROUTE = ''404 Not Found: no ingress rule matches this host and path'' @ LF"

definition NO_ENDPOINT :: bytes where
  "NO_ENDPOINT = ''503 Service Unavailable: the backend has no ready endpoints'' @ LF"

definition CONNECT_FAILED :: bytes where
  "CONNECT_FAILED = ''502 Bad Gateway: could not connect to any upstream endpoint'' @ LF"

definition UPSTREAM_FAILED :: bytes where
  "UPSTREAM_FAILED = ''502 Bad Gateway: the upstream connection failed'' @ LF"

definition TIMEOUT :: bytes where
  "TIMEOUT = ''504 Gateway Timeout: the upstream sent no response headers in time'' @ LF"

definition GRPC :: bytes where
  "GRPC = ''502 Bad Gateway: gRPC requires an HTTP/2 backend; set nginx.ingress.kubernetes.io/backend-protocol: GRPC on the Ingress'' @ LF"

definition NO_H2C_UPSTREAM :: bytes where
  "NO_H2C_UPSTREAM = ''502 Bad Gateway: this backend needs an HTTP/2 upstream, which the uring engine does not dial; use --engine hyper'' @ LF"

definition UPGRADE_FAILED :: bytes where
  "UPGRADE_FAILED = ''502 Bad Gateway: the upstream refused to complete the upgrade'' @ LF"

definition NO_HTTP2 :: bytes where
  "NO_HTTP2 = ''502 Bad Gateway: the uring engine speaks HTTP/1.1 only; use --engine hyper'' @ LF"

definition UNSUPPORTED_H2C_UPSTREAM :: string where
  "UNSUPPORTED_H2C_UPSTREAM = ''h2c-upstream''"

record encoder =
  en_response :: "u16 \<Rightarrow> (string \<times> string) list \<Rightarrow> bytes \<Rightarrow> bytes option"
  en_head_only :: "u16 \<Rightarrow> (string \<times> string) list \<Rightarrow> nat \<Rightarrow> bytes option"
  en_reason :: "u16 \<Rightarrow> string"

definition bad_request_body :: "encoder \<Rightarrow> nat \<Rightarrow> string \<Rightarrow> bytes" where
  "bad_request_body N status detail = show_nat status @ '' '' @ en_reason N (of_nat status) @ '': '' @ detail @ LF"

definition static_headers :: "bool \<Rightarrow> string option \<Rightarrow> (string \<times> string) list" where
  "static_headers close unsupported =
     [(''Content-Type'', ''text/plain; charset=utf-8'')]
     @ (if close then [(''Connection'', ''close'')] else [])
     @ (case unsupported of None \<Rightarrow> [] | Some feature \<Rightarrow> [(''x-ramjet-unsupported'', feature)])"

definition BARE_500 :: bytes where
  "BARE_500 = ''HTTP/1.1 500 Internal Server Error'' @ CRLF @ ''Content-Length: 0'' @ CRLF @ CRLF"

definition write_static_unsupported :: "encoder \<Rightarrow> bytes \<Rightarrow> u16 \<Rightarrow> bytes \<Rightarrow> bool \<Rightarrow> string option \<Rightarrow> bytes" where
  "write_static_unsupported N out status body close unsupported =
     out @ opt_or BARE_500 (en_response N status (static_headers close unsupported) body)"

definition write_static_head_only_unsupported :: "encoder \<Rightarrow> bytes \<Rightarrow> u16 \<Rightarrow> nat \<Rightarrow> bool \<Rightarrow> string option \<Rightarrow> bytes" where
  "write_static_head_only_unsupported N out status body_len close unsupported =
     out @ opt_or BARE_500 (en_head_only N status (static_headers close unsupported) body_len)"

section \<open>The two engines\<close>

text \<open>The same request in the two forms: the fields of a head, and the \<open>http\<close> crate's map that holds them.\<close>

definition same_fields :: "'h header_ops \<Rightarrow> 'h \<Rightarrow> head \<Rightarrow> bytes \<Rightarrow> bool" where
  "same_fields H m h buf \<longleftrightarrow>
     (\<forall>n. get_all H m (lower n) = map snd (headers_named h buf n)) \<and> list_all (\<lambda>(n, _). token n) (head_iter h buf)"

text \<open>
  The values the two engines read alike. One takes a value for text when it is visible ASCII, the
  other when it is UTF-8; for a cookie the one also goes on to the next line where the other stops.
\<close>

definition plain_values :: "head \<Rightarrow> bytes \<Rightarrow> bool" where
  "plain_values h buf \<longleftrightarrow>
     list_all (\<lambda>(n, v). list_all visible v \<or> from_utf8 v = None \<and> \<not> eq_ignore_ascii_case n ''cookie'') (head_iter h buf)"

text \<open>The header names of the crate are the tokens, stored in lower case.\<close>

definition names_are_tokens :: "'h header_ops \<Rightarrow> bool" where
  "names_are_tokens H \<longleftrightarrow> (\<forall>n. name_from_bytes H n = (if token n then Some (lower n) else None))"

lemma visible_less: "visible c \<Longrightarrow> byte_val c < 128"
  unfolding visible_def by (elim disjE) (simp, linarith)

lemma utf8_ascii_bytes: "list_all (\<lambda>c. byte_val c < 128) s \<Longrightarrow> utf8_bytes (map byte_val s)"
  unfolding utf8_bytes_def by (induction s) auto

lemma visible_utf8: "list_all visible v \<Longrightarrow> from_utf8 v = Some v"
  by (simp add: from_utf8_def utf8_ascii_bytes list.pred_mono_strong[OF _ visible_less])

lemma cookie_lines_alike:
  assumes "header_laws H" "list_all (\<lambda>(n, v). list_all visible v) fs"
  shows "cookie_lines name fs = cookie_values H name (map snd fs)"
  using assms(2)
proof (induction fs)
  case (Cons f fs)
  obtain n v where f: "f = (n, v)" by (cases f)
  with Cons have "list_all visible v" "cookie_lines name fs = cookie_values H name (map snd fs)" by simp_all
  then show ?case unfolding f by (simp add: visible_utf8 header_laws_simps(5)[OF assms(1)] split: option.split)
qed simp

lemma plain_cookies: "plain_values h buf \<Longrightarrow> list_all (\<lambda>(n, v). list_all visible v) (headers_named h buf ''cookie'')"
  by (auto simp: plain_values_def headers_named_def list_all_iff)

lemma cookie_value_alike:
  assumes "header_laws H" "same_fields H m h buf" "plain_values h buf"
  shows "cookie_value h buf name = map_cookie_value H m name"
proof -
  have "get_all H m (lower ''cookie'') = map snd (headers_named h buf ''cookie'')"
    using assms(2) unfolding same_fields_def by blast
  moreover have "lower ''cookie'' = ''cookie''" by (simp add: lower_def to_ascii_lowercase_def ascii_defs)
  ultimately show ?thesis
    using cookie_lines_alike[OF assms(1) plain_cookies[OF assms(3)]]
    by (simp add: cookie_value_def map_cookie_value_def)
qed

lemma find_as_filter: "find P xs = (case filter P xs of [] \<Rightarrow> None | x # _ \<Rightarrow> Some x)"
  by (induction xs) auto

lemma tchar_case: "is_tchar (to_ascii_lowercase c) = is_tchar c"
  by (cases "is_ascii_uppercase c")
     (auto simp: is_tchar_def to_ascii_lowercase_def is_ascii_alphanumeric_def is_ascii_lowercase_def is_ascii_uppercase_def)

lemma token_lower: "token (lower n) = token n"
  by (simp add: token_def lower_def list_all_iff tchar_case)

lemma token_same_name: "eq_ignore_ascii_case n m \<Longrightarrow> token n = token m"
  by (metis eq_ignore_ascii_case_def token_lower)

lemma header_value_alike:
  assumes "header_laws H" "same_fields H m h buf" "names_are_tokens H" "plain_values h buf"
  shows "Option.bind (head_header h buf name) from_utf8 = Option.bind (get_str H m name) (to_str H)"
proof -
  have "get_str H m name = head_header h buf name"
  proof (cases "token name")
    case True
    then show ?thesis using assms(2,3)
      by (auto simp: names_are_tokens_def get_str_def get_first_def same_fields_def head_header_def headers_named_def
          find_as_filter split: list.split)
  next
    case False
    then have "find (\<lambda>(n, _). eq_ignore_ascii_case n name) (head_iter h buf) = None"
      using assms(2) token_same_name by (auto simp: same_fields_def find_None_iff list_all_iff)
    with False assms(3) show ?thesis by (simp add: names_are_tokens_def get_str_def head_header_def)
  qed
  moreover have "list_all visible v \<or> from_utf8 v = None" if "head_header h buf name = Some v" for v
    using that assms(4) by (auto simp: plain_values_def head_header_def list_all_iff find_Some_iff dest!: nth_mem)
  moreover have "from_utf8 v = to_str H v" if "list_all visible v \<or> from_utf8 v = None" for v
    using that visible_utf8 header_laws_simps(5)[OF assms(1)] by auto
  ultimately show ?thesis by (cases "head_header h buf name") auto
qed

text \<open>
  C30. Both engines decide alike: for the same table, authority, path and random source, and the same
  header fields, the uring engine's match is the hyper engine's, down to the canary decision, the
  mirror sample and the random words drawn, provided the \<open>Cookie\<close> values are visible ASCII and every
  other value is visible ASCII or not UTF-8. The proviso is needed: see \<open>utf8_cookie_splits_engines\<close>.
\<close>

theorem engines_route_alike:
  assumes "header_laws (px_headers E)" "names_are_tokens (px_headers E)"
    and "same_fields (px_headers E) (pa_headers p) h buf" "plain_values h buf"
  shows "engine_match_request (px_is_match E) t (request_authority (px_headers E) (px_uris E) p)
      (uri_path (px_uris E) (pa_uri p)) h buf s = select_backend E t p s"
proof -
  have looked: "Option.bind (Option.bind n (head_header h buf)) from_utf8
      = Option.bind (Option.bind n (get_str (px_headers E) (pa_headers p))) (to_str (px_headers E))" for n
    using header_value_alike[OF assms(1,3,2,4)] by (cases n) simp_all
  have cookie: "cookie_value h buf = map_cookie_value (px_headers E) (pa_headers p)"
    using cookie_value_alike[OF assms(1,3,4)] by blast
  show ?thesis unfolding engine_match_request_def select_backend_def Let_def looked cookie ..
qed

text \<open>
  A \<open>Cookie\<close> value with a character outside ASCII, which browsers send, is read by the uring engine and
  skipped by the hyper engine. A client pinned to the canary by such a cookie gets the canary from
  the one and, without a weight, never from the other, although the documentation says they are the same here.
\<close>

theorem utf8_cookie_splits_engines:
  assumes "header_laws (px_headers E)" "same_fields (px_headers E) (pa_headers p) h buf"
    and "headers_named h buf ''cookie'' = [(n, v)]" "from_utf8 v = Some v" "\<not> list_all visible v"
    and "cookie_pairs name (split_on (CHR '';'') v) = Some ''always''"
    and "match_request (px_is_match E) t (request_authority (px_headers E) (px_uris E) p) (uri_path (px_uris E) (pa_uri p)) = Some m"
    and "match_canary m = Some canary" "cs_header canary = None" "cs_cookie canary = Some name" "cs_weight canary = 0"
    and "table_backend t (cs_backend canary) = Some b"
  shows "map_option ma_canaried (fst (engine_match_request (px_is_match E) t (request_authority (px_headers E) (px_uris E) p)
      (uri_path (px_uris E) (pa_uri p)) h buf s)) = Some True"
    and "map_option ma_canaried (fst (select_backend E t p s)) = Some False"
proof -
  have "lower ''cookie'' = ''cookie''" by (simp add: lower_def to_ascii_lowercase_def ascii_defs)
  then have g: "get_all (px_headers E) (pa_headers p) ''cookie'' = [v]"
    using assms(2) unfolding same_fields_def by (auto simp: assms(3) dest: spec [of _ "''cookie''"])
  have u: "cookie_value h buf name = Some ''always''"
    using assms(3,4,6) by (simp add: cookie_value_def)
  have y: "map_cookie_value (px_headers E) (pa_headers p) name = None"
    using g assms(5) header_laws_simps(5)[OF assms(1)] by (simp add: map_cookie_value_def)
  have taken: "decide (px_is_match E) canary w (Some ''always'') roll" and kept: "\<not> decide (px_is_match E) canary w None roll" for w roll
    using assms(9-11) by (simp_all add: decide_def header_step_def cookie_step_def)
  show "map_option ma_canaried (fst (engine_match_request (px_is_match E) t (request_authority (px_headers E) (px_uris E) p)
      (uri_path (px_uris E) (pa_uri p)) h buf s)) = Some True"
    unfolding engine_match_request_def assms(7) option.case assms(8,10) Let_def Option.bind.simps u
    by (simp add: taken assms(12) case_prod_beta)
  show "map_option ma_canaried (fst (select_backend E t p s)) = Some False"
    unfolding select_backend_def Let_def assms(7) option.case assms(8,10) Option.bind.simps y
    by (simp add: kept case_prod_beta)
qed

text \<open>A map that holds the fields of a head.\<close>

definition token_ops :: "(bytes \<times> bytes) list header_ops" where
  "token_ops = alist_ops\<lparr> name_from_bytes := (\<lambda>n. if token n then Some (lower n) else None) \<rparr>"

lemma token_ops_laws: "header_laws token_ops" "names_are_tokens token_ops"
  using alist_ops_laws by (auto simp: header_laws_def token_ops_def names_are_tokens_def)

lemma token_ops_same_fields:
  assumes "list_all (\<lambda>(n, _). token n) (head_iter h buf)"
  shows "same_fields token_ops (map (\<lambda>(n, v). (lower n, v)) (head_iter h buf)) h buf"
proof -
  have "map snd (filter (\<lambda>x. lower (fst x) = lower n) xs) = map snd (filter (\<lambda>(m, _). lower m = lower n) xs)"
    for n :: bytes and xs :: "(bytes \<times> bytes) list"
    by (induction xs) auto
  with assms show ?thesis
    by (simp add: same_fields_def token_ops_def alist_ops_def headers_named_def filter_map o_def
        eq_ignore_ascii_case_def case_prod_beta)
qed

definition routing_env :: "((bytes \<times> bytes) list, string, string, unit, unit, unit, unit, nat) env" where
  "routing_env =
     \<lparr> px_headers = token_ops,
       px_uris = \<lparr> uri_authority = (\<lambda>_. Some ''shop.example.com''), uri_path = (\<lambda>u. u), uri_path_and_query = Some, pq_as_str = (\<lambda>q. q), parse_uri = Some \<rparr>,
       px_hint = (\<lambda>_. (0, None)), px_send = (\<lambda>_ _ _. Inl UConnect), px_is_match = (\<lambda>_ _. False),
       px_max_connect_attempts = 3, px_shard = 0, px_mirror = None \<rparr>"

definition cookie_head :: head where
  "cookie_head = head_default\<lparr> hd_headers := [header_span.make (span_at 0 6) (span_at 6 3)] \<rparr>"

theorem engines_route_alike_witness:
  "engine_match_request (\<lambda>_ _. False) sample_table ''shop.example.com'' ''/foo'' cookie_head ''Cookiea=b'' 7
     = select_backend routing_env sample_table
         \<lparr> pa_uri = ''/foo'', pa_version = HTTP_11, pa_headers = [(''cookie'', ''a=b'')], pa_on_upgrade = None \<rparr> 7"
proof -
  have iter: "head_iter cookie_head ''Cookiea=b'' = [(''Cookie'', ''a=b'')]"
    by (simp add: head_iter_def cookie_head_def span_bytes_def span_at_def header_span.make_def)
  have low: "lower ''Cookie'' = ''cookie''" by (simp add: lower_def ascii_defs, code_simp)
  have "token ''Cookie''" "list_all visible ''a=b''"
    by (simp_all add: token_def is_tchar_def ascii_defs visible_def)
  then have same: "same_fields (px_headers routing_env) [(''cookie'', ''a=b'')] cookie_head ''Cookiea=b''"
    using token_ops_same_fields[of cookie_head "''Cookiea=b''"] unfolding iter by (simp add: low routing_env_def)
  moreover from \<open>list_all visible ''a=b''\<close> have "plain_values cookie_head ''Cookiea=b''"
    unfolding plain_values_def iter by simp
  moreover note engines_route_alike[of routing_env "\<lparr> pa_uri = ''/foo'', pa_version = HTTP_11, pa_headers = [(''cookie'', ''a=b'')], pa_on_upgrade = None \<rparr>",
      OF _ _ _ _, of cookie_head "''Cookiea=b''" sample_table 7] token_ops_laws
  ultimately show ?thesis by (simp add: routing_env_def request_authority_def)
qed

end
