(* ===== verification/Chunked.thy ===== *)
theory Chunked
  imports Codec
begin

text \<open>
  \<open>crates/ramjet-engine/src/codec/chunked.rs\<close>: the scanner that finds the end of a chunked
  body. A scan over the remaining input is a recursion; its termination measure is the input
  left, then whether the state is \<open>Data\<close> (whose bulk step may consume nothing). The
  \<open>unreachable!\<close> of \<open>step\<close> is the value \<open>Panicked\<close>, shown never to occur.
\<close>

section \<open>Definitions\<close>

definition MAX_CHUNK_LINE :: nat where
  "MAX_CHUNK_LINE = 1024"

definition MAX_TRAILER :: nat where
  "MAX_TRAILER = 8 * 1024"

datatype chunk_state =
    Size u64 u32
  | Ext u64
  | SizeLf u64
  | Data u64
  | DataCr
  | DataLf
  | TrailerStart
  | TrailerLine
  | TrailerCr
  | FinalLf
  | Done

record chunk_scan =
  ck_state :: chunk_state
  ck_line :: nat
  ck_trailer :: nat

datatype fault = Failed codec_error | Panicked

definition chunk_new :: chunk_scan where
  "chunk_new = \<lparr> ck_state = Size 0 0, ck_line = 0, ck_trailer = 0 \<rparr>"

definition chunk_is_done :: "chunk_scan \<Rightarrow> bool" where
  "chunk_is_done s \<longleftrightarrow> ck_state s = Done"

definition hex_value :: "char \<Rightarrow> nat option" where
  "hex_value b =
     (let v = byte_val b
      in if 48 \<le> v \<and> v \<le> 57 then Some (v - 48)
         else if 97 \<le> v \<and> v \<le> 102 then Some (v - 97 + 10)
         else if 65 \<le> v \<and> v \<le> 70 then Some (v - 65 + 10)
         else None)"

definition chunk_step :: "chunk_scan \<Rightarrow> char \<Rightarrow> fault + chunk_scan" where
  "chunk_step s b =
     (case ck_state s of
        Size v digits \<Rightarrow>
          (let line = ck_line s + 1
           in if line > MAX_CHUNK_LINE then Inl (Failed (Malformed ''chunk size line too long''))
              else if b = CR \<and> digits > 0 then Inr (s\<lparr> ck_line := line, ck_state := SizeLf v \<rparr>)
              else if b = CHR '';'' \<and> digits > 0 then Inr (s\<lparr> ck_line := line, ck_state := Ext v \<rparr>)
              else (case hex_value b of
                      None \<Rightarrow> Inl (Failed (Malformed ''chunk size is not hexadecimal''))
                    | Some d \<Rightarrow>
                        if digits \<ge> 16 then Inl (Failed (Malformed ''chunk size too large''))
                        else Inr (s\<lparr> ck_line := line,
                                    ck_state := Size (v * 16 + of_nat d) (digits + 1) \<rparr>)))
      | Ext sz \<Rightarrow>
          (let line = ck_line s + 1
           in if line > MAX_CHUNK_LINE then Inl (Failed (Malformed ''chunk size line too long''))
              else if b = CR then Inr (s\<lparr> ck_line := line, ck_state := SizeLf sz \<rparr>)
              else if b = LF then Inl (Failed (Malformed ''bare LF in a chunk extension''))
              else Inr (s\<lparr> ck_line := line, ck_state := Ext sz \<rparr>))
      | SizeLf sz \<Rightarrow>
          if b \<noteq> LF then Inl (Failed (Malformed ''chunk size line not closed by CRLF''))
          else Inr (s\<lparr> ck_line := 0,
                      ck_state := (if sz = 0 then TrailerStart else Data sz) \<rparr>)
      | Data _ \<Rightarrow> Inl Panicked
      | DataCr \<Rightarrow>
          if b \<noteq> CR then Inl (Failed (Malformed ''chunk data not closed by CRLF''))
          else Inr (s\<lparr> ck_state := DataLf \<rparr>)
      | DataLf \<Rightarrow>
          if b \<noteq> LF then Inl (Failed (Malformed ''chunk data not closed by CRLF''))
          else Inr (s\<lparr> ck_state := Size 0 0 \<rparr>)
      | TrailerStart \<Rightarrow>
          (let trailer = ck_trailer s + 1
           in if trailer > MAX_TRAILER then Inl (Failed (Malformed ''trailer section too long''))
              else if b = CR then Inr (s\<lparr> ck_trailer := trailer, ck_state := FinalLf \<rparr>)
              else if b = LF then Inl (Failed (Malformed ''bare LF in a trailer''))
              else Inr (s\<lparr> ck_trailer := trailer, ck_state := TrailerLine \<rparr>))
      | TrailerLine \<Rightarrow>
          (let trailer = ck_trailer s + 1
           in if trailer > MAX_TRAILER then Inl (Failed (Malformed ''trailer section too long''))
              else if b = CR then Inr (s\<lparr> ck_trailer := trailer, ck_state := TrailerCr \<rparr>)
              else if b = LF then Inl (Failed (Malformed ''bare LF in a trailer''))
              else Inr (s\<lparr> ck_trailer := trailer, ck_state := TrailerLine \<rparr>))
      | TrailerCr \<Rightarrow>
          if b \<noteq> LF then Inl (Failed (Malformed ''trailer line not closed by CRLF''))
          else Inr (s\<lparr> ck_state := TrailerStart \<rparr>)
      | FinalLf \<Rightarrow>
          if b \<noteq> LF then Inl (Failed (Malformed ''chunked body not closed by CRLF''))
          else Inr (s\<lparr> ck_state := Done \<rparr>)
      | Done \<Rightarrow> Inr s)"

text \<open>The bulk path: \<open>take\<close> bytes of chunk data at once.\<close>

definition bulk_take :: "u64 \<Rightarrow> string \<Rightarrow> nat" where
  "bulk_take left input = min (unat left) (length input)"

definition bulk_state :: "u64 \<Rightarrow> nat \<Rightarrow> chunk_state" where
  "bulk_state left n = (let left' = left - of_nat n in if left' = 0 then DataCr else Data left')"

definition in_data :: "chunk_scan \<Rightarrow> bool" where
  "in_data s = (case ck_state s of Data _ \<Rightarrow> True | _ \<Rightarrow> False)"

lemma bulk_take_shortens:
  "Suc (length bs) - bulk_take left (b # bs) < Suc (length bs) \<longleftrightarrow> left \<noteq> 0"
  "Suc (length bs) - bulk_take left (b # bs) = Suc (length bs) \<longleftrightarrow> left = 0"
proof -
  have "left \<noteq> 0 \<Longrightarrow> 0 < unat left" by (simp add: unat_gt_0)
  then show "Suc (length bs) - bulk_take left (b # bs) < Suc (length bs) \<longleftrightarrow> left \<noteq> 0"
    "Suc (length bs) - bulk_take left (b # bs) = Suc (length bs) \<longleftrightarrow> left = 0"
    by (cases "left = 0"; simp add: bulk_take_def)+
qed

lemma bulk_state_zero [simp]: "bulk_state 0 (bulk_take 0 input) = DataCr"
  by (simp add: bulk_state_def bulk_take_def)

function chunk_loop :: "chunk_scan \<Rightarrow> nat \<Rightarrow> string \<Rightarrow> fault + nat \<times> chunk_scan" where
  "chunk_loop s i [] = Inr (i, s)"
| "chunk_loop s i (b # bs) =
     (case ck_state s of
        Done \<Rightarrow> Inr (i, s)
      | Data left \<Rightarrow>
          (let n = bulk_take left (b # bs)
           in chunk_loop (s\<lparr> ck_state := bulk_state left n \<rparr>) (i + n) (drop n (b # bs)))
      | _ \<Rightarrow>
          (case chunk_step s b of
             Inl e \<Rightarrow> Inl e
           | Inr s' \<Rightarrow> chunk_loop s' (i + 1) bs))"
  by pat_completeness auto
termination
  by (relation "measures [\<lambda>(s, i, input). length input, \<lambda>(s, i, input). if in_data s then 1 else 0]")
     (auto simp: in_data_def bulk_take_shortens)

definition chunk_scan_input :: "chunk_scan \<Rightarrow> string \<Rightarrow> fault + (nat \<times> bool) \<times> chunk_scan" where
  "chunk_scan_input s input =
     (case chunk_loop s 0 input of
        Inl e \<Rightarrow> Inl e
      | Inr (i, s') \<Rightarrow> Inr ((i, ck_state s' = Done), s'))"

section \<open>The byte-wise reference\<close>

text \<open>The same scanner without the bulk path: one byte at a time in every state.\<close>

definition byte_step :: "chunk_scan \<Rightarrow> char \<Rightarrow> fault + chunk_scan" where
  "byte_step s b =
     (case ck_state s of
        Data left \<Rightarrow> Inr (s\<lparr> ck_state := bulk_state left 1 \<rparr>)
      | _ \<Rightarrow> chunk_step s b)"

definition shift :: "nat \<Rightarrow> 'e + nat \<times> 's \<Rightarrow> 'e + nat \<times> 's" where
  "shift k r = map_sum (\<lambda>e. e) (\<lambda>(n, s). (k + n, s)) r"

lemma shift_simps [simp]:
  "shift k (Inl e) = Inl e" "shift k (Inr (n, s)) = Inr (k + n, s)"
  "shift k (shift j r) = shift (k + j) r" "shift 0 r = r"
  by (cases r; auto simp: shift_def)+

lemma shift_Inl_iff: "shift k r = Inl e \<longleftrightarrow> r = Inl e"
  by (cases r) auto

lemma shift_Inr_iff: "shift k r = Inr (n, s) \<longleftrightarrow> (\<exists>m. r = Inr (m, s) \<and> n = k + m)"
  by (cases r) auto

fun byte_run :: "chunk_scan \<Rightarrow> string \<Rightarrow> fault + nat \<times> chunk_scan" where
  "byte_run s [] = Inr (0, s)"
| "byte_run s (b # bs) =
     (if ck_state s = Done then Inr (0, s)
      else case byte_step s b of
             Inl e \<Rightarrow> Inl e
           | Inr s' \<Rightarrow> shift 1 (byte_run s' bs))"

text \<open>States the scanner can be in: data is outstanding in \<open>Data\<close>.\<close>

definition wf_scan :: "chunk_scan \<Rightarrow> bool" where
  "wf_scan s \<longleftrightarrow> ck_state s \<noteq> Data 0"

lemma wf_scan_new: "wf_scan chunk_new"
  by (simp add: wf_scan_def chunk_new_def)

lemma chunk_step_wf: "chunk_step s b = Inr s' \<Longrightarrow> wf_scan s'"
  by (cases "ck_state s")
     (auto simp: chunk_step_def wf_scan_def Let_def split: if_splits option.splits)

lemma bulk_state_wf: "wf_scan (s\<lparr> ck_state := bulk_state left n \<rparr>)"
  by (simp add: wf_scan_def bulk_state_def Let_def)

lemma byte_step_wf: "byte_step s b = Inr s' \<Longrightarrow> wf_scan s'"
  by (cases "ck_state s") (auto simp: byte_step_def bulk_state_wf dest: chunk_step_wf)

lemma bulk_state_not_done [simp]: "bulk_state left n \<noteq> Done"
  by (simp add: bulk_state_def Let_def)

lemma bulk_state_one:
  "bulk_state left 1 = (if left = 1 then DataCr else Data (left - 1))"
  by (simp add: bulk_state_def Let_def)

lemma byte_run_bulk:
  assumes "ck_state s = Data left" "left \<noteq> 0"
  shows "byte_run s xs = shift (bulk_take left xs)
    (byte_run (s\<lparr> ck_state := bulk_state left (bulk_take left xs) \<rparr>) (drop (bulk_take left xs) xs))"
  using assms
proof (induction xs arbitrary: s left)
  case Nil
  then show ?case by (simp add: bulk_take_def bulk_state_def)
next
  case (Cons x xs)
  have u: "0 < unat left" using Cons.prems(2) by (simp add: unat_gt_0)
  have b: "byte_run s (x # xs) = shift 1 (byte_run (s\<lparr> ck_state := bulk_state left 1 \<rparr>) xs)"
    using Cons.prems(1) by (simp add: byte_step_def)
  show ?case
  proof (cases "left = 1")
    case True
    then have "bulk_take left (x # xs) = 1" by (simp add: bulk_take_def)
    with b show ?thesis by simp
  next
    case False
    have "unat (left - 1) = unat left - 1"
      using Cons.prems(2) by (simp add: unat_minus_one)
    then have t: "bulk_take left (x # xs) = Suc (bulk_take (left - 1) xs)"
      using u by (simp add: bulk_take_def)
    have "bulk_state left (Suc k) = bulk_state (left - 1) k" for k
      by (simp add: bulk_state_def Let_def algebra_simps)
    moreover have "byte_run s (x # xs) = shift 1 (byte_run (s\<lparr> ck_state := Data (left - 1) \<rparr>) xs)"
      using b False by (simp only: bulk_state_one if_False)
    ultimately show ?thesis
      using Cons.IH[of "s\<lparr> ck_state := Data (left - 1) \<rparr>" "left - 1"] False
      by (simp del: byte_run.simps add: t)
  qed
qed

lemma chunk_loop_byte_run:
  assumes "wf_scan s"
  shows "chunk_loop s i input = shift i (byte_run s input)"
  using assms
proof (induction s i input rule: chunk_loop.induct)
  case (1 s i)
  show ?case by simp
next
  case (2 s i b bs)
  show ?case
  proof (cases "in_data s")
    case True
    then obtain left where l: "ck_state s = Data left" by (auto simp: in_data_def split: chunk_state.splits)
    with "2.prems" have "left \<noteq> 0" by (auto simp: wf_scan_def)
    from byte_run_bulk[OF l this, of "b # bs"] "2.IH"(4)[OF l refl bulk_state_wf] l
    show ?thesis by (simp add: Let_def)
  next
    case False
    show ?thesis
    proof (cases "ck_state s = Done")
      case True
      then show ?thesis by simp
    next
      case nd: False
      have loop: "chunk_loop s i (b # bs) =
          (case chunk_step s b of Inl e \<Rightarrow> Inl e | Inr s' \<Rightarrow> chunk_loop s' (i + 1) bs)"
        using nd False by (cases "ck_state s") (simp_all add: in_data_def)
      have step: "byte_step s b = chunk_step s b"
        using False by (cases "ck_state s") (simp_all add: byte_step_def in_data_def)
      show ?thesis
      proof (cases "chunk_step s b")
        case (Inl e)
        with loop step nd show ?thesis by simp
      next
        case (Inr s')
        have "chunk_loop s' (i + 1) bs = shift (i + 1) (byte_run s' bs)"
          using "2.IH" Inr nd False chunk_step_wf[OF Inr]
          by (cases "ck_state s") (simp_all add: in_data_def)
        with loop step nd Inr show ?thesis by simp
      qed
    qed
  qed
qed

section \<open>What the scanner accepts\<close>

text \<open>The body ends after exactly \<open>m\<close> bytes of \<open>w\<close>.\<close>

definition acc :: "chunk_scan \<Rightarrow> string \<Rightarrow> nat \<Rightarrow> bool" where
  "acc s w m \<longleftrightarrow> (\<exists>s'. byte_run s w = Inr (m, s') \<and> ck_state s' = Done)"

lemma acc_Done: "ck_state s = Done \<Longrightarrow> acc s w m \<longleftrightarrow> m = 0"
  by (cases w) (auto simp: acc_def)

lemma acc_step:
  assumes "ck_state s \<noteq> Done"
  shows "acc s w m \<longleftrightarrow>
    (\<exists>b bs s1 m'. w = b # bs \<and> m = Suc m' \<and> byte_step s b = Inr s1 \<and> acc s1 bs m')"
  using assms by (cases w) (auto simp: acc_def shift_Inr_iff split: sum.splits)

abbreviation st :: "chunk_state \<Rightarrow> nat \<Rightarrow> nat \<Rightarrow> chunk_scan" where
  "st c l t \<equiv> \<lparr> ck_state = c, ck_line = l, ck_trailer = t \<rparr>"

definition after_size :: "nat \<Rightarrow> nat \<Rightarrow> chunk_scan" where
  "after_size N t = st (if N = 0 then TrailerStart else Data (of_nat N)) 0 t"

definition no_crlf :: "string \<Rightarrow> bool" where
  "no_crlf s \<longleftrightarrow> CR \<notin> set s \<and> LF \<notin> set s"

lemma of_nat_u64_zero: "N < 2 ^ 64 \<Longrightarrow> (of_nat N :: u64) = 0 \<longleftrightarrow> N = 0"
proof -
  assume "N < 2 ^ 64"
  then have "unat (of_nat N :: u64) = N" by (simp add: unat_of_nat take_bit_nat_eq_self)
  then show ?thesis by (metis unat_eq_zero)
qed

lemma ex_list_cons: "(\<exists>xs. P xs) \<longleftrightarrow> P [] \<or> (\<exists>x xs. P (x # xs))"
  by (metis list.exhaust)

lemma acc_SizeLf:
  assumes "N < 2 ^ 64"
  shows "acc (st (SizeLf (of_nat N)) l t) w m \<longleftrightarrow>
    (\<exists>r m'. w = LF # r \<and> m = Suc m' \<and> acc (after_size N t) r m')"
  by (subst acc_step)
     (auto simp: byte_step_def chunk_step_def after_size_def of_nat_u64_zero[OF assms] split: if_splits)

lemma acc_Ext:
  assumes "N < 2 ^ 64"
  shows "acc (st (Ext (of_nat N)) l t) w m \<longleftrightarrow>
    (\<exists>ext r m'. w = ext @ CR # LF # r \<and> no_crlf ext \<and> l + length ext + 1 \<le> MAX_CHUNK_LINE \<and>
       m = length ext + 2 + m' \<and> acc (after_size N t) r m')"
    (is "_ \<longleftrightarrow> ?R l w m")
proof (induction w arbitrary: l m)
  case Nil
  show ?case by (subst acc_step) simp_all
next
  case (Cons b bs)
  have "acc (st (Ext (of_nat N)) l t) (b # bs) m \<longleftrightarrow>
      (\<exists>m'. m = Suc m' \<and> Suc l \<le> MAX_CHUNK_LINE \<and>
        (if b = CR then acc (st (SizeLf (of_nat N)) (Suc l) t) bs m'
         else b \<noteq> LF \<and> ?R (Suc l) bs m'))"
    by (subst acc_step) (auto simp: byte_step_def chunk_step_def Let_def Cons.IH not_le split: if_splits)
  also have "\<dots> \<longleftrightarrow> ?R l (b # bs) m"
  proof (cases "b = CR")
    case True
    have "?R l (b # bs) m \<longleftrightarrow> (\<exists>r m'. bs = LF # r \<and> Suc l \<le> MAX_CHUNK_LINE \<and> m = Suc (Suc m') \<and>
        acc (after_size N t) r m')"
      using True by (subst ex_list_cons) (auto simp: no_crlf_def)
    with True show ?thesis by (auto simp: acc_SizeLf[OF assms])
  next
    case False
    have R: "?R l (b # bs) m \<longleftrightarrow> (\<exists>ext r m'. bs = ext @ CR # LF # r \<and> b \<noteq> LF \<and> no_crlf ext \<and>
        l + Suc (length ext) + 1 \<le> MAX_CHUNK_LINE \<and> m = Suc (length ext) + 2 + m' \<and>
        acc (after_size N t) r m')"
      using False by (subst ex_list_cons) (auto simp: no_crlf_def)
    show ?thesis unfolding R using False by auto blast
  qed
  finally show ?case .
qed

definition hex_digit :: "char \<Rightarrow> bool" where
  "hex_digit b \<longleftrightarrow> hex_value b \<noteq> None"

definition hex_from :: "nat \<Rightarrow> string \<Rightarrow> nat" where
  "hex_from n ds = foldl (\<lambda>n b. 16 * n + the (hex_value b)) n ds"

definition ext_ok :: "string \<Rightarrow> bool" where
  "ext_ok ext \<longleftrightarrow> ext = [] \<or> hd ext = CHR '';'' \<and> no_crlf ext"

lemma hex_value_less: "hex_value b = Some d \<Longrightarrow> d < 16"
  by (auto simp: hex_value_def Let_def split: if_splits)

lemma not_hex [simp]: "hex_value CR = None" "hex_value (CHR '';'') = None" "hex_value LF = None"
  by (simp_all add: hex_value_def)

lemma hex_from_bound:
  assumes "n < 16 ^ k" "list_all hex_digit ds"
  shows "hex_from n ds < 16 ^ (k + length ds)"
  using assms
proof (induction ds arbitrary: n k)
  case (Cons b ds)
  then obtain d where d: "hex_value b = Some d" by (auto simp: hex_digit_def)
  have "16 * n + d < 16 ^ Suc k" using Cons.prems(1) hex_value_less[OF d] by simp
  from Cons.IH[OF this] Cons.prems(2) d show ?case by (simp add: hex_from_def)
qed (simp add: hex_from_def)

lemma of_nat_u32_small:
  assumes "k \<le> 16"
  shows "(of_nat k :: u32) > 0 \<longleftrightarrow> k > 0" "(16 :: u32) \<le> of_nat k \<longleftrightarrow> k = 16"
proof -
  have "unat (of_nat k :: u32) = k" using assms by (simp add: unat_of_nat take_bit_nat_eq_self)
  then show "(of_nat k :: u32) > 0 \<longleftrightarrow> k > 0" "(16 :: u32) \<le> of_nat k \<longleftrightarrow> k = 16"
    using assms by (auto simp: word_less_nat_alt word_le_nat_alt)
qed

text \<open>A size line from the middle: \<open>k\<close> digits of value \<open>n\<close> were read already.\<close>

definition size_rest :: "nat \<Rightarrow> nat \<Rightarrow> nat \<Rightarrow> string \<Rightarrow> string \<Rightarrow> bool" where
  "size_rest n k l ds ext \<longleftrightarrow>
     list_all hex_digit ds \<and> 0 < k + length ds \<and> k + length ds \<le> 16 \<and> ext_ok ext \<and>
     l + length ds + length ext + 1 \<le> MAX_CHUNK_LINE"

lemma size_step:
  assumes "k \<le> 16" "Suc l \<le> MAX_CHUNK_LINE"
  shows "byte_step (st (Size (of_nat n) (of_nat k)) l t) b =
    (if b = CR \<and> k > 0 then Inr (st (SizeLf (of_nat n)) (Suc l) t)
     else if b = CHR '';'' \<and> k > 0 then Inr (st (Ext (of_nat n)) (Suc l) t)
     else (case hex_value b of
             None \<Rightarrow> Inl (Failed (Malformed ''chunk size is not hexadecimal''))
           | Some d \<Rightarrow>
               if k = 16 then Inl (Failed (Malformed ''chunk size too large''))
               else Inr (st (Size (of_nat (16 * n + d)) (of_nat (Suc k))) (Suc l) t)))"
  using assms of_nat_u32_small[OF assms(1)]
  by (auto simp: byte_step_def chunk_step_def Let_def ac_simps split: option.splits)

lemma acc_Size:
  assumes "n < 16 ^ k" "k \<le> 16"
  shows "acc (st (Size (of_nat n) (of_nat k)) l t) w m \<longleftrightarrow>
    (\<exists>ds ext r m'. w = ds @ ext @ CR # LF # r \<and> size_rest n k l ds ext \<and>
       m = length ds + length ext + 2 + m' \<and> acc (after_size (hex_from n ds) t) r m')"
    (is "_ \<longleftrightarrow> ?R n k l w m")
  using assms
proof (induction w arbitrary: n k l m)
  case Nil
  show ?case by (subst acc_step) simp_all
next
  case (Cons b bs)
  have n: "n < 2 ^ 64"
    using Cons.prems power_increasing[of k 16 "16 :: nat"] by simp
  show ?case
  proof (cases "Suc l \<le> MAX_CHUNK_LINE")
    case False
    then have "\<not> ?R n k l (b # bs) m" by (auto simp: size_rest_def)
    moreover have "\<not> acc (st (Size (of_nat n) (of_nat k)) l t) (b # bs) m"
      using False by (subst acc_step) (auto simp: byte_step_def chunk_step_def Let_def)
    ultimately show ?thesis by simp
  next
    case True
    note step = size_step[OF Cons.prems(2) True, of n t b]
    have A: "acc (st (Size (of_nat n) (of_nat k)) l t) (b # bs) m \<longleftrightarrow>
        (\<exists>m'. m = Suc m' \<and>
          (if b = CR \<and> k > 0 then acc (st (SizeLf (of_nat n)) (Suc l) t) bs m'
           else if b = CHR '';'' \<and> k > 0 then acc (st (Ext (of_nat n)) (Suc l) t) bs m'
           else (case hex_value b of None \<Rightarrow> False
                 | Some d \<Rightarrow> k \<noteq> 16 \<and> acc (st (Size (of_nat (16 * n + d)) (of_nat (Suc k))) (Suc l) t) bs m')))"
      by (subst acc_step) (auto simp: step split: if_splits option.splits)
    have R: "?R n k l (b # bs) m \<longleftrightarrow>
        (\<exists>ext r m'. b # bs = ext @ CR # LF # r \<and> size_rest n k l [] ext \<and>
           m = length ext + 2 + m' \<and> acc (after_size n t) r m') \<or>
        (\<exists>d ds ext r m'. hex_value b = Some d \<and> bs = ds @ ext @ CR # LF # r \<and>
           size_rest (16 * n + d) (Suc k) (Suc l) ds ext \<and>
           m = Suc (length ds) + length ext + 2 + m' \<and> acc (after_size (hex_from (16 * n + d) ds) t) r m')"
      by (subst ex_list_cons) (auto simp: size_rest_def hex_from_def hex_digit_def)
    show ?thesis
    proof (cases "hex_value b")
      case (Some d)
      then have b: "b \<noteq> CR" "b \<noteq> CHR '';''" by auto
      have no: "\<not> (\<exists>ext r m'. b # bs = ext @ CR # LF # r \<and> size_rest n k l [] ext \<and>
           m = length ext + 2 + m' \<and> acc (after_size n t) r m')"
        using b by (auto simp: size_rest_def ext_ok_def Cons_eq_append_conv)
      have "k \<noteq> 16 \<Longrightarrow> 16 * n + d < 16 ^ Suc k" using Cons.prems(1) hex_value_less[OF Some] by simp
      then have IH: "k \<noteq> 16 \<Longrightarrow> acc (st (Size (of_nat (16 * n + d)) (of_nat (Suc k))) (Suc l) t) bs m' \<longleftrightarrow>
          ?R (16 * n + d) (Suc k) (Suc l) bs m'" for m'
        using Cons.prems(2) by (intro Cons.IH) simp_all
      have k16: "size_rest x (Suc k) (Suc l) ds ext \<Longrightarrow> k \<noteq> 16" for x ds ext by (simp add: size_rest_def)
      have A': "acc (st (Size (of_nat n) (of_nat k)) l t) (b # bs) m \<longleftrightarrow>
          (\<exists>m'. m = Suc m' \<and> k \<noteq> 16 \<and> ?R (16 * n + d) (Suc k) (Suc l) bs m')"
        unfolding A Some option.case using b IH by (simp cong: conj_cong)
      have R': "?R n k l (b # bs) m \<longleftrightarrow> (\<exists>ds ext r m'. k \<noteq> 16 \<and> bs = ds @ ext @ CR # LF # r \<and>
           size_rest (16 * n + d) (Suc k) (Suc l) ds ext \<and>
           m = Suc (length ds) + length ext + 2 + m' \<and> acc (after_size (hex_from (16 * n + d) ds) t) r m')"
        unfolding R using no Some k16 by (simp only: option.inject) blast
      show ?thesis unfolding A' R' by auto blast
    next
      case None
      have R': "?R n k l (b # bs) m \<longleftrightarrow> (\<exists>ext r m'. b # bs = ext @ CR # LF # r \<and>
          size_rest n k l [] ext \<and> m = length ext + 2 + m' \<and> acc (after_size n t) r m')"
        unfolding R using None by simp
      consider "b = CR" | "b = CHR '';''" | "b \<noteq> CR" "b \<noteq> CHR '';''" by blast
      then show ?thesis
      proof cases
        case 1
        have "?R n k l (b # bs) m \<longleftrightarrow>
            (\<exists>r m'. bs = LF # r \<and> k > 0 \<and> m = Suc (Suc m') \<and> acc (after_size n t) r m')"
          unfolding R' using 1 True Cons.prems(2)
          by (subst ex_list_cons) (auto simp: size_rest_def ext_ok_def)
        then show ?thesis unfolding A acc_SizeLf[OF n] using 1 None by auto
      next
        case 2
        have R2: "?R n k l (b # bs) m \<longleftrightarrow>
            (\<exists>e r m'. bs = e @ CR # LF # r \<and> k > 0 \<and> no_crlf e \<and>
               Suc l + length e + 1 \<le> MAX_CHUNK_LINE \<and> m = Suc (length e + 2 + m') \<and> acc (after_size n t) r m')"
          unfolding R' using 2 Cons.prems(2)
          by (subst ex_list_cons) (auto simp: size_rest_def ext_ok_def no_crlf_def)
        show ?thesis unfolding A R2 acc_Ext[OF n] using 2 None by auto
      next
        case 3
        then have "\<not> ?R n k l (b # bs) m"
          unfolding R' by (auto simp: size_rest_def ext_ok_def Cons_eq_append_conv)
        then show ?thesis unfolding A using 3 None by auto
      qed
    qed
  qed
qed

lemma acc_DataCr:
  "acc (st DataCr l t) w m \<longleftrightarrow> (\<exists>r m'. w = CR # LF # r \<and> m = m' + 2 \<and> acc (st (Size 0 0) l t) r m')"
proof -
  have "acc (st DataLf l t) w m \<longleftrightarrow> (\<exists>r m'. w = LF # r \<and> m = Suc m' \<and> acc (st (Size 0 0) l t) r m')" for w m
    by (subst acc_step) (auto simp: byte_step_def chunk_step_def split: if_splits)
  then show ?thesis
    by (subst acc_step) (auto simp: byte_step_def chunk_step_def split: if_splits)
qed

lemma acc_Data:
  assumes "0 < N" "N < 2 ^ 64"
  shows "acc (st (Data (of_nat N)) l t) w m \<longleftrightarrow>
    (\<exists>data r m'. w = data @ CR # LF # r \<and> length data = N \<and> m = N + 2 + m' \<and>
       acc (st (Size 0 0) l t) r m')"
  using assms
proof (induction N arbitrary: w m rule: nat_induct_non_zero)
  case 1
  have "bulk_state 1 (Suc 0) = DataCr" by (simp add: bulk_state_def)
  then show ?case
    by (subst acc_step) (auto simp: byte_step_def acc_DataCr length_Suc_conv, metis append_Cons append_Nil)
next
  case (Suc N)
  have u: "unat (of_nat (Suc N) :: u64) = Suc N"
    using Suc.prems by (simp add: unat_of_nat take_bit_nat_eq_self del: of_nat_Suc)
  have ne: "(of_nat (Suc N) :: u64) \<noteq> 1"
  proof
    assume "(of_nat (Suc N) :: u64) = 1"
    with u Suc.hyps show False by (simp del: of_nat_Suc)
  qed
  have b: "bulk_state (of_nat (Suc N)) 1 = Data (of_nat N)"
    unfolding bulk_state_one using ne by (simp only: if_False) simp
  have "acc (st (Data (of_nat (Suc N))) l t) w m \<longleftrightarrow>
      (\<exists>b bs m'. w = b # bs \<and> m = Suc m' \<and> acc (st (Data (of_nat N)) l t) bs m')"
    by (subst acc_step) (simp_all add: byte_step_def b [unfolded One_nat_def] del: of_nat_Suc)
  also have "\<dots> \<longleftrightarrow> (\<exists>b bs m'. w = b # bs \<and> m = Suc m' \<and>
      (\<exists>data r m''. bs = data @ CR # LF # r \<and> length data = N \<and> m' = N + 2 + m'' \<and> acc (st (Size 0 0) l t) r m''))"
    using Suc.IH Suc.prems by simp
  also have "\<dots> \<longleftrightarrow> (\<exists>data r m'. w = data @ CR # LF # r \<and> length data = Suc N \<and> m = Suc N + 2 + m' \<and>
       acc (st (Size 0 0) l t) r m')"
    (is "?A \<longleftrightarrow> ?B")
  proof
    assume ?A
    then obtain b data r m'' where "w = b # data @ CR # LF # r" "length data = N" "m = Suc (N + 2 + m'')"
      "acc (st (Size 0 0) l t) r m''" by blast
    then show ?B by (intro exI[of _ "b # data"] exI[of _ r] exI[of _ m'']) simp
  next
    assume ?B
    then obtain data r m' where "w = data @ CR # LF # r" "length data = Suc N" "m = Suc N + 2 + m'"
      "acc (st (Size 0 0) l t) r m'" by blast
    then show ?A by (cases data) auto
  qed
  finally show ?case .
qed

text \<open>The trailer section: complete lines, then the empty line.\<close>

definition trailer_text :: "string list \<Rightarrow> string" where
  "trailer_text lines = concat (map (\<lambda>l. l @ CRLF) lines) @ CRLF"

definition trailer_cost :: "string list \<Rightarrow> nat" where
  "trailer_cost lines = sum_list (map (\<lambda>l. length l + 1) lines) + 1"

definition trailer_line :: "string \<Rightarrow> bool" where
  "trailer_line l \<longleftrightarrow> l \<noteq> [] \<and> no_crlf l"

lemma acc_FinalLf: "acc (st FinalLf l t) w m \<longleftrightarrow> (\<exists>r. w = LF # r \<and> m = 1)"
  by (subst acc_step) (auto simp: byte_step_def chunk_step_def acc_Done split: if_splits)

lemma acc_TrailerCr:
  "acc (st TrailerCr l t) w m \<longleftrightarrow> (\<exists>r m'. w = LF # r \<and> m = Suc m' \<and> acc (st TrailerStart l t) r m')"
  by (subst acc_step) (auto simp: byte_step_def chunk_step_def split: if_splits)

lemma acc_TrailerLine:
  "acc (st TrailerLine l t) w m \<longleftrightarrow>
    (\<exists>x r m'. w = x @ CR # LF # r \<and> no_crlf x \<and> t + length x + 1 \<le> MAX_TRAILER \<and>
       m = length x + 2 + m' \<and> acc (st TrailerStart l (t + length x + 1)) r m')"
    (is "_ \<longleftrightarrow> ?R t w m")
proof (induction w arbitrary: t m)
  case Nil
  show ?case by (subst acc_step) simp_all
next
  case (Cons b bs)
  have A: "acc (st TrailerLine l t) (b # bs) m \<longleftrightarrow>
      (\<exists>m'. m = Suc m' \<and> Suc t \<le> MAX_TRAILER \<and>
        (if b = CR then acc (st TrailerCr l (Suc t)) bs m' else b \<noteq> LF \<and> ?R (Suc t) bs m'))"
    by (subst acc_step) (auto simp: byte_step_def chunk_step_def Let_def Cons.IH not_le split: if_splits)
  show ?case
  proof (cases "b = CR")
    case True
    have R: "?R t (b # bs) m \<longleftrightarrow> (\<exists>r m'. bs = LF # r \<and> Suc t \<le> MAX_TRAILER \<and> m = Suc (Suc m') \<and>
        acc (st TrailerStart l (Suc t)) r m')"
      using True by (subst ex_list_cons) (auto simp: no_crlf_def)
    show ?thesis unfolding A R acc_TrailerCr using True by auto
  next
    case False
    have R: "?R t (b # bs) m \<longleftrightarrow> (\<exists>x r m'. bs = x @ CR # LF # r \<and> b \<noteq> LF \<and> no_crlf x \<and>
        t + Suc (length x) + 1 \<le> MAX_TRAILER \<and> m = Suc (length x) + 2 + m' \<and>
        acc (st TrailerStart l (t + Suc (length x) + 1)) r m')"
      using False by (subst ex_list_cons) (auto simp: no_crlf_def)
    show ?thesis unfolding A R using False by auto blast
  qed
qed

lemma trailer_text_simps [simp]:
  "trailer_text [] = CRLF" "trailer_text (x # ls) = x @ CRLF @ trailer_text ls"
  "trailer_cost [] = 1" "trailer_cost (x # ls) = length x + 1 + trailer_cost ls"
  by (simp_all add: trailer_text_def trailer_cost_def)

lemma acc_TrailerStart_step:
  "acc (st TrailerStart l t) w m \<longleftrightarrow>
    (\<exists>r. w = CR # LF # r \<and> Suc t \<le> MAX_TRAILER \<and> m = 2) \<or>
    (\<exists>b bs m'. w = b # bs \<and> b \<noteq> CR \<and> b \<noteq> LF \<and> Suc t \<le> MAX_TRAILER \<and> m = Suc m' \<and>
       acc (st TrailerLine l (Suc t)) bs m')"
proof (cases w)
  case Nil
  then show ?thesis by (subst acc_step) simp_all
next
  case (Cons b bs)
  have "acc (st TrailerStart l t) w m \<longleftrightarrow>
      (\<exists>m'. m = Suc m' \<and> Suc t \<le> MAX_TRAILER \<and>
        (if b = CR then acc (st FinalLf l (Suc t)) bs m'
         else b \<noteq> LF \<and> acc (st TrailerLine l (Suc t)) bs m'))"
    unfolding Cons
    by (subst acc_step) (auto simp: byte_step_def chunk_step_def Let_def not_le split: if_splits)
  also have "\<dots> \<longleftrightarrow> ((\<exists>r. w = CR # LF # r \<and> Suc t \<le> MAX_TRAILER \<and> m = 2) \<or>
    (\<exists>b bs m'. w = b # bs \<and> b \<noteq> CR \<and> b \<noteq> LF \<and> Suc t \<le> MAX_TRAILER \<and> m = Suc m' \<and>
       acc (st TrailerLine l (Suc t)) bs m'))"
    unfolding Cons acc_FinalLf by (cases "b = CR") (simp_all add: numeral_2_eq_2 ac_simps)
  finally show ?thesis .
qed

lemma acc_TrailerStart_line:
  "acc (st TrailerStart l t) w m \<longleftrightarrow>
    (\<exists>r. w = CR # LF # r \<and> Suc t \<le> MAX_TRAILER \<and> m = 2) \<or>
    (\<exists>x r m'. w = x @ CR # LF # r \<and> trailer_line x \<and> t + length x + 1 \<le> MAX_TRAILER \<and>
       m = length x + 2 + m' \<and> acc (st TrailerStart l (t + length x + 1)) r m')"
proof -
  have "(\<exists>b bs m'. w = b # bs \<and> b \<noteq> CR \<and> b \<noteq> LF \<and> Suc t \<le> MAX_TRAILER \<and> m = Suc m' \<and>
         acc (st TrailerLine l (Suc t)) bs m') \<longleftrightarrow>
      (\<exists>x r m'. w = x @ CR # LF # r \<and> trailer_line x \<and> t + length x + 1 \<le> MAX_TRAILER \<and>
         m = length x + 2 + m' \<and> acc (st TrailerStart l (t + length x + 1)) r m')" (is "?A \<longleftrightarrow> ?B")
  proof
    assume ?A
    then obtain b bs m1 where "w = b # bs" "b \<noteq> CR" "b \<noteq> LF" "m = Suc m1"
      "acc (st TrailerLine l (Suc t)) bs m1" by blast
    moreover from this(5) obtain x r m' where "bs = x @ CR # LF # r" "no_crlf x"
      "Suc t + length x + 1 \<le> MAX_TRAILER" "m1 = length x + 2 + m'"
      "acc (st TrailerStart l (Suc t + length x + 1)) r m'"
      unfolding acc_TrailerLine by blast
    ultimately show ?B
      by (intro exI[of _ "b # x"] exI[of _ r] exI[of _ m']) (simp add: trailer_line_def no_crlf_def eq_commute)
  next
    assume ?B
    then obtain x r m' where *: "w = x @ CR # LF # r" "trailer_line x" "t + length x + 1 \<le> MAX_TRAILER"
      "m = length x + 2 + m'" "acc (st TrailerStart l (t + length x + 1)) r m'" by blast
    then obtain b y where x: "x = b # y" by (cases x) (simp_all add: trailer_line_def)
    then have "acc (st TrailerLine l (Suc t)) (y @ CR # LF # r) (length y + 2 + m')"
      unfolding acc_TrailerLine using *
      by (intro exI[of _ y] exI[of _ r] exI[of _ m']) (simp add: trailer_line_def no_crlf_def)
    moreover have "b \<noteq> CR" "b \<noteq> LF" using *(2) x by (auto simp: trailer_line_def no_crlf_def)
    ultimately show ?A
      using * x by (intro exI[of _ b] exI[of _ "y @ CR # LF # r"] exI[of _ "length y + 2 + m'"]) simp
  qed
  then show ?thesis unfolding acc_TrailerStart_step by (rule disj_cong[OF refl])
qed

lemma acc_TrailerStart:
  "acc (st TrailerStart l t) w m \<longleftrightarrow>
    (\<exists>lines r. w = trailer_text lines @ r \<and> list_all trailer_line lines \<and>
       t + trailer_cost lines \<le> MAX_TRAILER \<and> m = length (trailer_text lines))"
    (is "_ \<longleftrightarrow> ?R t w m")
proof (induction "length w" arbitrary: w t m rule: less_induct)
  case less
  show ?case
  proof
    assume "acc (st TrailerStart l t) w m"
    then consider r where "w = CR # LF # r" "Suc t \<le> MAX_TRAILER" "m = 2"
      | x r m' where "w = x @ CR # LF # r" "trailer_line x" "m = length x + 2 + m'"
          "acc (st TrailerStart l (t + length x + 1)) r m'"
      unfolding acc_TrailerStart_line[of l t w m] by blast
    then show "?R t w m"
    proof cases
      case (1 r)
      then show ?thesis by (intro exI[of _ "[]"] exI[of _ r]) simp
    next
      case (2 x r m')
      have "length r < length w" using 2(1) by simp
      from less[OF this] 2(4) obtain ls r' where "r = trailer_text ls @ r'" "list_all trailer_line ls"
        "t + length x + 1 + trailer_cost ls \<le> MAX_TRAILER" "m' = length (trailer_text ls)" by blast
      with 2 show ?thesis by (intro exI[of _ "x # ls"] exI[of _ r']) simp
    qed
  next
    assume "?R t w m"
    then obtain lines r where R: "w = trailer_text lines @ r" "list_all trailer_line lines"
      "t + trailer_cost lines \<le> MAX_TRAILER" "m = length (trailer_text lines)" by blast
    show "acc (st TrailerStart l t) w m"
    proof (cases lines)
      case Nil
      with R show ?thesis by (subst acc_TrailerStart_line) simp
    next
      case (Cons x ls)
      have "length (trailer_text ls @ r) < length w" using R(1) Cons by simp
      from less[OF this, of "t + length x + 1" "length (trailer_text ls)"] R Cons
      have "acc (st TrailerStart l (t + length x + 1)) (trailer_text ls @ r) (length (trailer_text ls))"
        by (simp add: ac_simps) blast
      then show ?thesis
        using R Cons by (subst acc_TrailerStart_line)
          (intro disjI2 exI[of _ x] exI[of _ "trailer_text ls @ r"] exI[of _ "length (trailer_text ls)"], simp)
    qed
  qed
qed

text \<open>The grammar of RFC 9112, section 7.1, with the scanner's two length limits.\<close>

definition size_line :: "string \<Rightarrow> nat \<Rightarrow> bool" where
  "size_line line N \<longleftrightarrow>
     (\<exists>ds ext. line = ds @ ext \<and> ds \<noteq> [] \<and> length ds \<le> 16 \<and> list_all hex_digit ds \<and> ext_ok ext \<and>
        length line < MAX_CHUNK_LINE \<and> N = hex_from 0 ds)"

inductive chunked_body :: "string \<Rightarrow> bool" where
  last_chunk:
    "size_line line 0 \<Longrightarrow> list_all trailer_line lines \<Longrightarrow> trailer_cost lines \<le> MAX_TRAILER \<Longrightarrow>
     chunked_body (line @ CRLF @ trailer_text lines)"
| chunk:
    "size_line line (length data) \<Longrightarrow> data \<noteq> [] \<Longrightarrow> chunked_body rest \<Longrightarrow>
     chunked_body (line @ CRLF @ data @ CRLF @ rest)"

inductive_cases chunked_bodyE: "chunked_body body"

lemma size_line_bound: "size_line line N \<Longrightarrow> N < 2 ^ 64"
proof -
  assume "size_line line N"
  then obtain ds where ds: "length ds \<le> 16" "list_all hex_digit ds" "N = hex_from 0 ds"
    by (auto simp: size_line_def)
  have "N < 16 ^ (0 + length ds)" unfolding ds(3) by (rule hex_from_bound) (simp_all add: ds(2))
  also have "\<dots> \<le> 16 ^ 16" using ds(1) by (intro power_increasing) simp_all
  finally show ?thesis by simp
qed

lemma acc_new:
  "acc chunk_new w m \<longleftrightarrow>
    (\<exists>line N r m'. w = line @ CR # LF # r \<and> size_line line N \<and> m = length line + 2 + m' \<and>
       acc (after_size N 0) r m')"
proof -
  have "acc chunk_new w m \<longleftrightarrow> acc (st (Size (of_nat 0) (of_nat 0)) 0 0) w m"
    by (simp add: chunk_new_def)
  also have "\<dots> \<longleftrightarrow> (\<exists>ds ext r m'. w = ds @ ext @ CR # LF # r \<and> size_rest 0 0 0 ds ext \<and>
       m = length ds + length ext + 2 + m' \<and> acc (after_size (hex_from 0 ds) 0) r m')"
    by (rule acc_Size) simp_all
  also have "\<dots> \<longleftrightarrow> (\<exists>line N r m'. w = line @ CR # LF # r \<and> size_line line N \<and> m = length line + 2 + m' \<and>
       acc (after_size N 0) r m')" (is "?A \<longleftrightarrow> ?B")
  proof
    assume ?A
    then obtain ds ext r m' where "w = ds @ ext @ CR # LF # r" "size_rest 0 0 0 ds ext"
       "m = length ds + length ext + 2 + m'" "acc (after_size (hex_from 0 ds) 0) r m'" by blast
    then show ?B
      by (intro exI[of _ "ds @ ext"] exI[of _ "hex_from 0 ds"] exI[of _ r] exI[of _ m'])
         (auto simp: size_line_def size_rest_def)
  next
    assume ?B
    then obtain line N r m' ds ext where "w = line @ CR # LF # r" "m = length line + 2 + m'"
       "acc (after_size N 0) r m'" "line = ds @ ext" "ds \<noteq> []" "length ds \<le> 16" "list_all hex_digit ds"
       "ext_ok ext" "length line < MAX_CHUNK_LINE" "N = hex_from 0 ds"
      unfolding size_line_def by blast
    then show ?A
      by (intro exI[of _ ds] exI[of _ ext] exI[of _ r] exI[of _ m']) (auto simp: size_rest_def)
  qed
  finally show ?thesis .
qed

lemma acc_new_iff:
  "acc chunk_new w m \<longleftrightarrow> (\<exists>body r. w = body @ r \<and> m = length body \<and> chunked_body body)"
proof (induction "length w" arbitrary: w m rule: less_induct)
  case less
  show ?case
  proof
    assume "acc chunk_new w m"
    then obtain line N r m' where w: "w = line @ CR # LF # r" "size_line line N" "m = length line + 2 + m'"
      "acc (after_size N 0) r m'" unfolding acc_new by blast
    show "\<exists>body r. w = body @ r \<and> m = length body \<and> chunked_body body"
    proof (cases "N = 0")
      case True
      with w(4) obtain lines r' where "r = trailer_text lines @ r'" "list_all trailer_line lines"
        "trailer_cost lines \<le> MAX_TRAILER" "m' = length (trailer_text lines)"
        by (auto simp: after_size_def acc_TrailerStart)
      with w True last_chunk[of line lines] show ?thesis
        by (intro exI[of _ "line @ CRLF @ trailer_text lines"] exI[of _ r']) simp
    next
      case False
      with w(4) have "acc (st (Data (of_nat N)) 0 0) r m'" by (simp add: after_size_def)
      then obtain data r' m'' where d: "r = data @ CR # LF # r'" "length data = N" "m' = N + 2 + m''"
        "acc chunk_new r' m''"
        using acc_Data[of N 0 0 r m'] False size_line_bound[OF w(2)] by (auto simp: chunk_new_def)
      have "length r' < length w" using w(1) d(1) by simp
      from less[OF this] d(4) obtain body r'' where "r' = body @ r''" "m'' = length body" "chunked_body body"
        by blast
      with w d False chunk[of line data body] show ?thesis
        by (intro exI[of _ "line @ CRLF @ data @ CRLF @ body"] exI[of _ r'']) auto
    qed
  next
    assume "\<exists>body r. w = body @ r \<and> m = length body \<and> chunked_body body"
    then obtain body r where b: "w = body @ r" "m = length body" "chunked_body body" by blast
    from b(3) show "acc chunk_new w m"
    proof (cases rule: chunked_body.cases)
      case (last_chunk line lines)
      have "acc (after_size 0 0) (trailer_text lines @ r) (length (trailer_text lines))"
        using last_chunk by (auto simp: after_size_def acc_TrailerStart)
      with b last_chunk show ?thesis unfolding acc_new
        by (intro exI[of _ line] exI[of _ 0] exI[of _ "trailer_text lines @ r"]
            exI[of _ "length (trailer_text lines)"]) auto
    next
      case (chunk line data rest)
      have "length (rest @ r) < length w" using b(1) chunk by simp
      from less[OF this, of "length rest"] chunk have rest: "acc chunk_new (rest @ r) (length rest)" by blast
      have "acc (st (Data (of_nat (length data))) 0 0) (data @ CR # LF # rest @ r) (length data + 2 + length rest)"
        using acc_Data[of "length data" 0 0] chunk size_line_bound[OF chunk(2)] rest
        by (auto simp: chunk_new_def)
      with b chunk show ?thesis unfolding acc_new
        by (intro exI[of _ line] exI[of _ "length data"] exI[of _ "data @ CR # LF # rest @ r"]
            exI[of _ "length data + 2 + length rest"]) (auto simp: after_size_def)
    qed
  qed
qed


section \<open>Input that arrives in pieces\<close>

text \<open>
  A connection delivers a body in reads of any length; each read is scanned with the state the
  last one left, until a scan reports the end. \<open>segmented\<close> is what such a scanner owes its
  caller; \<open>feed\<close> is the caller's loop.
\<close>

type_synonym 's scan_result = "fault + (nat \<times> bool) \<times> 's"

definition advance :: "nat \<Rightarrow> 's scan_result \<Rightarrow> 's scan_result" where
  "advance k = map_sum (\<lambda>e. e) (\<lambda>((n, d), s). ((k + n, d), s))"

lemma advance_simps [simp]:
  "advance k (Inl e) = Inl e" "advance k (Inr ((n, d), s)) = Inr ((k + n, d), s)" "advance 0 r = r"
  by (cases r; auto simp: advance_def)+

fun feed :: "('s \<Rightarrow> string \<Rightarrow> 's scan_result) \<Rightarrow> 's \<Rightarrow> string list \<Rightarrow> 's scan_result" where
  "feed scan s [] = scan s []"
| "feed scan s (x # xs) =
     (case scan s x of
        Inl e \<Rightarrow> Inl e
      | Inr ((n, d), s') \<Rightarrow> if d then Inr ((n, d), s') else advance n (feed scan s' xs))"

locale segmented =
  fixes scan :: "'s \<Rightarrow> string \<Rightarrow> 's scan_result"
    and ok :: "'s \<Rightarrow> bool"
  assumes scan_append: "ok s \<Longrightarrow> scan s (x @ y) =
      (case scan s x of
         Inl e \<Rightarrow> Inl e
       | Inr ((n, d), s') \<Rightarrow> if d then Inr ((n, d), s') else advance n (scan s' y))"
    and scan_ok: "ok s \<Longrightarrow> scan s x = Inr (r, s') \<Longrightarrow> ok s'"
    and scan_all: "ok s \<Longrightarrow> scan s x = Inr ((n, False), s') \<Longrightarrow> n = length x"
begin

lemma feed_concat: "ok s \<Longrightarrow> feed scan s xs = scan s (concat xs)"
proof (induction xs arbitrary: s)
  case (Cons x xs)
  show ?case
  proof (cases "scan s x")
    case (Inr r)
    then obtain n d s' where r: "scan s x = Inr ((n, d), s')" by (metis prod.collapse)
    show ?thesis
      using scan_append[OF Cons.prems, of x "concat xs"] Cons.IH[OF scan_ok[OF Cons.prems r]] r
      by simp
  qed (use scan_append[OF Cons.prems, of x "concat xs"] in simp)
qed simp

lemma scan_extend:
  assumes "ok s" "scan s x = Inr ((n, True), s')"
  shows "scan s (x @ y) = Inr ((n, True), s')"
  using assms scan_append[of s x y] by simp

end

lemma byte_run_wf: "wf_scan s \<Longrightarrow> byte_run s x = Inr (n, s') \<Longrightarrow> wf_scan s'"
  by (induction s x arbitrary: n s' rule: byte_run.induct)
     (auto simp: shift_Inr_iff byte_step_wf split: if_splits sum.splits)

lemma byte_run_all: "byte_run s x = Inr (n, s') \<Longrightarrow> ck_state s' \<noteq> Done \<Longrightarrow> n = length x"
  by (induction s x arbitrary: n s' rule: byte_run.induct)
     (auto simp: shift_Inr_iff split: if_splits sum.splits)

lemma byte_run_le: "byte_run s x = Inr (n, s') \<Longrightarrow> n \<le> length x"
  by (induction s x arbitrary: n s' rule: byte_run.induct)
     (auto simp: shift_Inr_iff split: if_splits sum.splits)

lemma byte_run_done [simp]: "ck_state s = Done \<Longrightarrow> byte_run s x = Inr (0, s)"
  by (cases x) auto

lemma byte_run_append:
  "byte_run s (x @ y) =
     (case byte_run s x of
        Inl e \<Rightarrow> Inl e
      | Inr (n, s') \<Rightarrow> if ck_state s' = Done then Inr (n, s') else shift n (byte_run s' y))"
  by (induction s x rule: byte_run.induct)
     (auto simp: byte_run_done split: sum.splits)

lemma byte_step_error: "byte_step s b = Inl e \<Longrightarrow> \<exists>msg. e = Failed (Malformed msg)"
  by (cases "ck_state s")
     (auto simp: byte_step_def chunk_step_def Let_def split: option.splits if_splits)

lemma byte_run_error: "byte_run s x = Inl e \<Longrightarrow> \<exists>msg. e = Failed (Malformed msg)"
  by (induction s x arbitrary: e rule: byte_run.induct)
     (auto simp: shift_Inl_iff dest: byte_step_error split: sum.splits if_splits)

lemma scan_byte_run:
  assumes "wf_scan s"
  shows "chunk_scan_input s input =
    map_sum (\<lambda>e. e) (\<lambda>(n, s'). ((n, ck_state s' = Done), s')) (byte_run s input)"
  using chunk_loop_byte_run[OF assms, of 0 input]
  by (cases "byte_run s input") (auto simp: chunk_scan_input_def)

interpretation chunk: segmented chunk_scan_input wf_scan
proof
  fix s x y assume s: "wf_scan s"
  show "chunk_scan_input s (x @ y) = (case chunk_scan_input s x of Inl e \<Rightarrow> Inl e
      | Inr ((n, d), s') \<Rightarrow> if d then Inr ((n, d), s') else advance n (chunk_scan_input s' y))"
  proof (cases "byte_run s x")
    case (Inr r)
    then obtain n s' where r: "byte_run s x = Inr (n, s')" by (cases r) auto
    show ?thesis
      using r scan_byte_run[OF byte_run_wf[OF s r], of y]
      by (cases "byte_run s' y") (auto simp: scan_byte_run[OF s] byte_run_append)
  qed (simp add: scan_byte_run[OF s] byte_run_append)
next
  fix s x r s' assume "wf_scan s" "chunk_scan_input s x = Inr (r, s')"
  then show "wf_scan s'"
    by (cases "byte_run s x") (auto simp: scan_byte_run intro: byte_run_wf)
next
  fix s x n s' assume "wf_scan s" "chunk_scan_input s x = Inr ((n, False), s')"
  then show "n = length x"
    by (cases "byte_run s x") (auto simp: scan_byte_run dest: byte_run_all)
qed

section \<open>Properties of the scanner\<close>

text \<open>
  C6. The scanner accepts exactly the chunked bodies of the grammar: it reports the end after
  \<open>n\<close> bytes just when the first \<open>n\<close> bytes are chunks with hexadecimal size lines (1 to 16
  digits, an optional extension, at most \<open>MAX_CHUNK_LINE\<close> bytes), their data closed by CRLF,
  a last chunk of size zero, trailer lines within \<open>MAX_TRAILER\<close> bytes and the final CRLF.
\<close>
theorem scan_accepts_grammar:
  "(\<exists>s'. chunk_scan_input chunk_new input = Inr ((n, True), s')) \<longleftrightarrow>
   (\<exists>body rest. input = body @ rest \<and> length body = n \<and> chunked_body body)"
proof -
  have "(\<exists>s'. chunk_scan_input chunk_new input = Inr ((n, True), s')) \<longleftrightarrow> acc chunk_new input n"
    unfolding scan_byte_run[OF wf_scan_new]
    by (cases "byte_run chunk_new input") (auto simp: acc_def)
  then show ?thesis unfolding acc_new_iff by auto
qed

text \<open>
  C7. How the body is cut into reads does not matter: scanning the pieces one after another,
  each from the state the last one left, gives the length, the end, the error and the state
  that one scan of the whole input gives. A size line or a CRLF may straddle two reads.
\<close>
theorem scan_in_pieces:
  assumes "wf_scan s"
  shows "feed chunk_scan_input s pieces = chunk_scan_input s (concat pieces)"
  using assms by (rule chunk.feed_concat)

text \<open>
  The bulk path over chunk data is only a shortcut, and no input reaches the
  \<open>unreachable!\<close> of \<open>step\<close>: from every state of a scan the result is the byte-wise
  scanner's, the count is within the input, and a scan that has not found the end has consumed
  all of it.
\<close>
theorem scan_total:
  assumes "wf_scan s"
  shows "chunk_scan_input s input =
      map_sum (\<lambda>e. e) (\<lambda>(n, s'). ((n, chunk_is_done s'), s')) (byte_run s input)
    \<and> (case chunk_scan_input s input of
         Inl e \<Rightarrow> \<exists>msg. e = Failed (Malformed msg)
       | Inr ((n, d), s') \<Rightarrow> wf_scan s' \<and> n \<le> length input \<and> (d \<or> n = length input))"
proof -
  have all: "ck_state s' = Done \<or> n = length input" if "byte_run s input = Inr (n, s')" for n s'
    using byte_run_all[OF that] by blast
  have e: "\<exists>msg. e = Failed (Malformed msg)" if "byte_run s input = Inl e" for e
    using that by (rule byte_run_error)
  show ?thesis
    using byte_run_wf[OF assms, of input] byte_run_le[of s input] all e
    by (cases "byte_run s input")
       (auto simp: scan_byte_run[OF assms] chunk_is_done_def)
qed

theorem scan_in_pieces_witness:
  "feed chunk_scan_input chunk_new [''5'', [CR], [LF] @ ''hel'', ''lo'' @ CRLF @ ''0'', CRLF @ [CR], [LF] @ ''next'']
   = chunk_scan_input chunk_new (concat [''5'', [CR], [LF] @ ''hel'', ''lo'' @ CRLF @ ''0'', CRLF @ [CR], [LF] @ ''next''])"
  by (rule scan_in_pieces[OF wf_scan_new])

theorem scan_total_witness:
  "case chunk_scan_input chunk_new (''5'' @ CRLF @ ''hel'') of
     Inl e \<Rightarrow> \<exists>msg. e = Failed (Malformed msg)
   | Inr ((n, d), s') \<Rightarrow> wf_scan s' \<and> n \<le> length (''5'' @ CRLF @ ''hel'') \<and> (d \<or> n = length (''5'' @ CRLF @ ''hel''))"
  using scan_total[OF wf_scan_new, of "''5'' @ CRLF @ ''hel''"] by blast

end
