(* ===== verification/Conn.thy ===== *)
theory Conn
  imports Tls Pool Route_Glue Chunked Framing
begin

text \<open>
  The data of one core of the uring engine, \<open>crates/ramjet-engine/src/engine/worker.rs\<close>: completion
  tags, the body still to come, a client connection with the exchange it runs, what a descriptor is
  used for, and the worker. A descriptor is an integer and an instant a number of nanoseconds. The
  parts of a mirrored request are the \<open>http\<close> crate's, a type parameter. Buffers are their contents;
  their reuse between operations has no effect on them.

  What the worker does to the outside is the list \<open>wk_log\<close>: operations given to the reactor with
  their tags, system calls made directly, descriptors lent to the connect watcher, copies given to
  the mirror, connections given to the other engine. How each turns out is decided by functions of
  that list, the parameters of \<open>wenv\<close>.
\<close>

section \<open>Tags\<close>

definition K_ACCEPT :: u8 where "K_ACCEPT = 1"
definition K_ADMIN_ACCEPT :: u8 where "K_ADMIN_ACCEPT = 2"
definition K_INTAKE :: u8 where "K_INTAKE = 3"
definition K_NOTIFY :: u8 where "K_NOTIFY = 4"
definition K_DOWN_READ :: u8 where "K_DOWN_READ = 5"
definition K_DOWN_WRITE :: u8 where "K_DOWN_WRITE = 6"
definition K_UP_READ :: u8 where "K_UP_READ = 7"
definition K_UP_WRITE :: u8 where "K_UP_WRITE = 8"
definition K_ADMIN_READ :: u8 where "K_ADMIN_READ = 9"
definition K_ADMIN_WRITE :: u8 where "K_ADMIN_WRITE = 10"
definition K_CLOSE :: u8 where "K_CLOSE = 11"
definition K_ACCEPT_TLS :: u8 where "K_ACCEPT_TLS = 12"
definition K_INTAKE_TLS :: u8 where "K_INTAKE_TLS = 13"

lemmas kind_defs = K_ACCEPT_def K_ADMIN_ACCEPT_def K_INTAKE_def K_NOTIFY_def K_DOWN_READ_def K_DOWN_WRITE_def
  K_UP_READ_def K_UP_WRITE_def K_ADMIN_READ_def K_ADMIN_WRITE_def K_CLOSE_def K_ACCEPT_TLS_def K_INTAKE_TLS_def

text \<open>An \<open>i32\<close> descriptor as 32 bits.\<close>

definition fd_word :: "raw_fd \<Rightarrow> u32" where "fd_word fd = word_of_int fd"

definition tag :: "u8 \<Rightarrow> u32 \<Rightarrow> raw_fd \<Rightarrow> u64" where
  "tag kind generation fd =
     or (or (push_bit 56 (ucast kind)) (push_bit 32 (ucast (and generation 0x00FFFFFF)))) (ucast (fd_word fd))"

definition tag_kind :: "u64 \<Rightarrow> u8" where
  "tag_kind user = ucast (drop_bit 56 user)"

definition tag_generation :: "u64 \<Rightarrow> u32" where
  "tag_generation user = ucast (and (drop_bit 32 user) 0x00FFFFFF)"

definition tag_fd :: "u64 \<Rightarrow> raw_fd" where
  "tag_fd user = sint (ucast (and user 0xFFFFFFFF) :: u32)"

section \<open>The body still to come\<close>

datatype body_left = BodyDone | BodyLength u64 | BodyChunked chunk_scan | BodyUntilClose

fun body_left_new :: "framing \<Rightarrow> body_left" where
  "body_left_new Empty = BodyDone"
| "body_left_new (Length n) = BodyLength n"
| "body_left_new Chunked = BodyChunked chunk_new"
| "body_left_new UntilClose = BodyUntilClose"

text \<open>The scanner's \<open>unreachable!\<close> is never reached; it is reported like any malformed body here.\<close>

fun fault_error :: "fault \<Rightarrow> codec_error" where
  "fault_error (Failed e) = e"
| "fault_error Panicked = Malformed ''unreachable''"

fun body_take :: "body_left \<Rightarrow> bytes \<Rightarrow> codec_error + (nat \<times> bool) \<times> body_left" where
  "body_take BodyDone input = Inr ((0, True), BodyDone)"
| "body_take (BodyLength left) input =
     (let n = min left (of_nat (length input)); left' = left - n in Inr ((unat n, left' = 0), BodyLength left'))"
| "body_take (BodyChunked sc) input =
     (case chunk_scan_input sc input of
        Inl e \<Rightarrow> Inl (fault_error e)
      | Inr (r, sc2) \<Rightarrow> Inr (r, BodyChunked sc2))"
| "body_take BodyUntilClose input = Inr ((length input, False), BodyUntilClose)"

definition body_is_done :: "body_left \<Rightarrow> bool" where
  "body_is_done b \<longleftrightarrow> b = BodyDone"

section \<open>A connection\<close>

datatype phase = PhHead | PhConnecting | PhExchanging | PhRelaying | PhTunnel | PhClosing

record 'p mirror_copy =
  mc_parts :: 'p
  mc_body :: bytes
  mc_protocol :: backend_protocol
  mc_too_large :: bool

record ('r, 'p, 'a, 'd, 'c) conn =
  cn_peer :: ip_addr
  cn_phase :: phase
  cn_tls :: "('a, 'd, 'c) session option"
  cn_scheme :: string
  cn_hand_off :: bool
  cn_preface :: "bytes option"
  cn_inbox :: bytes
  cn_outbox :: bytes
  cn_reading :: bool
  cn_writing :: bool
  cn_client_eof :: bool
  cn_head :: head
  cn_head_consumed :: bool
  cn_request_head :: bytes
  cn_request_body :: body_left
  cn_method_was_head :: bool
  cn_client_keep_alive :: bool
  cn_upstream :: "raw_fd option"
  cn_up_inbox :: bytes
  cn_up_outbox :: bytes
  cn_up_reading :: bool
  cn_up_writing :: bool
  cn_up_ready :: bool
  cn_up_borrowed :: bool
  cn_up_head :: head
  cn_response_body :: body_left
  cn_response_head_seen :: bool
  cn_upstream_keep_alive :: bool
  cn_upstream_eof :: bool
  cn_upgrade :: "bytes option"
  cn_snapshot :: "'r route_table option"
  cn_route_stats :: "u32 option"
  cn_canaried :: bool
  cn_mirror :: "'p mirror_copy option"
  cn_stats_index :: u32
  cn_endpoint_index :: nat
  cn_endpoint_count :: nat
  cn_inflight_held :: bool
  cn_targets :: "socket_addr list"
  cn_attempt :: nat
  cn_replayable :: bool
  cn_from_pool :: bool
  cn_pool_retry_used :: bool
  cn_committed :: bool
  cn_dispatched_at :: "nat option"
  cn_deadline :: "nat option"
  cn_counted :: bool
  cn_drain_counted :: bool

definition CLIENT_IDLE :: nat where "CLIENT_IDLE = 300 * 1000000000"

definition MAX_PENDING :: nat where "MAX_PENDING = 256 * 1024"

definition conn_new :: "ip_addr \<Rightarrow> ('a, 'd, 'c) session option \<Rightarrow> ('r, 'p, 'a, 'd, 'c) conn" where
  "conn_new peer tls =
     \<lparr> cn_peer = peer, cn_phase = PhHead, cn_tls = tls, cn_scheme = (if tls \<noteq> None then ''https'' else ''http''),
       cn_hand_off = False, cn_preface = None, cn_inbox = [], cn_outbox = [], cn_reading = False, cn_writing = False,
       cn_client_eof = False, cn_head = head_default, cn_head_consumed = False, cn_request_head = [],
       cn_request_body = BodyDone, cn_method_was_head = False, cn_client_keep_alive = True, cn_upstream = None,
       cn_up_inbox = [], cn_up_outbox = [], cn_up_reading = False, cn_up_writing = False, cn_up_ready = False,
       cn_up_borrowed = False, cn_up_head = head_default, cn_response_body = BodyDone, cn_response_head_seen = False,
       cn_upstream_keep_alive = True, cn_upstream_eof = False, cn_upgrade = None, cn_snapshot = None,
       cn_route_stats = None, cn_canaried = False, cn_mirror = None, cn_stats_index = 0, cn_endpoint_index = 0,
       cn_endpoint_count = 0, cn_inflight_held = False, cn_targets = [], cn_attempt = 0, cn_replayable = False,
       cn_from_pool = False, cn_pool_retry_used = False, cn_committed = False, cn_dispatched_at = None,
       cn_deadline = None, cn_counted = False, cn_drain_counted = False \<rparr>"

definition conn_reset :: "('r, 'p, 'a, 'd, 'c) conn \<Rightarrow> ('r, 'p, 'a, 'd, 'c) conn" where
  "conn_reset c = c\<lparr>
     cn_phase := PhHead, cn_head := head_reset (cn_head c), cn_head_consumed := False, cn_up_head := head_reset (cn_up_head c),
     cn_request_head := [], cn_request_body := BodyDone, cn_response_body := BodyDone, cn_response_head_seen := False,
     cn_upstream_keep_alive := True, cn_upstream_eof := False, cn_upgrade := None, cn_method_was_head := False,
     cn_snapshot := None, cn_route_stats := None, cn_canaried := False, cn_mirror := None, cn_targets := [],
     cn_attempt := 0, cn_replayable := False, cn_from_pool := False, cn_pool_retry_used := False, cn_committed := False,
     cn_dispatched_at := None, cn_deadline := None, cn_counted := False, cn_up_inbox := [], cn_up_outbox := [] \<rparr>"

text \<open>What is queued for the client: under TLS the ciphertext counts, and for the bound both do.\<close>

definition has_pending_out :: "('r, 'p, 'a, 'd, 'c) conn \<Rightarrow> bool" where
  "has_pending_out c = (case cn_tls c of Some s \<Rightarrow> ts_wire_out s \<noteq> [] | None \<Rightarrow> cn_outbox c \<noteq> [])"

definition pending_out_len :: "('r, 'p, 'a, 'd, 'c) conn \<Rightarrow> nat" where
  "pending_out_len c =
     (case cn_tls c of Some s \<Rightarrow> length (cn_outbox c) + length (ts_wire_out s) | None \<Rightarrow> length (cn_outbox c))"

definition wants_client_bytes :: "('r, 'p, 'a, 'd, 'c) conn \<Rightarrow> bool" where
  "wants_client_bytes c =
     (if cn_client_eof c \<or> cn_phase c = PhClosing then False
      else case cn_phase c of
             PhHead \<Rightarrow> True
           | PhConnecting \<Rightarrow> \<not> body_is_done (cn_request_body c) \<and> length (cn_up_outbox c) < MAX_PENDING
           | PhExchanging \<Rightarrow> \<not> body_is_done (cn_request_body c) \<and> length (cn_up_outbox c) < MAX_PENDING
           | PhTunnel \<Rightarrow> length (cn_up_outbox c) < MAX_PENDING
           | PhRelaying \<Rightarrow> False
           | PhClosing \<Rightarrow> False)"

definition wants_upstream_bytes :: "('r, 'p, 'a, 'd, 'c) conn \<Rightarrow> bool" where
  "wants_upstream_bytes c \<longleftrightarrow>
     cn_upstream c \<noteq> None \<and> cn_up_ready c \<and> cn_phase c \<notin> {PhHead, PhClosing} \<and> \<not> cn_upstream_eof c
     \<and> pending_out_len c < MAX_PENDING"

definition seal :: "('a, 'd, 'c, 'f) rustls \<Rightarrow> ('r, 'p, 'a, 'd, 'c) conn \<Rightarrow> ('r, 'p, 'a, 'd, 'c) conn" where
  "seal R c =
     (case cn_tls c of
        None \<Rightarrow> c
      | Some s \<Rightarrow>
          if cn_outbox c = [] then c
          else let (sent, s') = tls_seal R (cn_outbox c) s
               in c\<lparr> cn_tls := Some s', cn_outbox := drop sent (cn_outbox c) \<rparr>)"

definition H2_PREFACE :: bytes where
  "H2_PREFACE = ''PRI * HTTP/2.0'' @ CRLF @ CRLF @ ''SM'' @ CRLF @ CRLF"

definition is_h2_preface :: "bytes \<Rightarrow> bool" where
  "is_h2_preface bs = (let seen = min (length bs) (length H2_PREFACE) in 0 < seen \<and> take seen bs = take seen H2_PREFACE)"

section \<open>The worker\<close>

record admin_conn =
  ad_fd :: raw_fd
  ad_inbox :: bytes
  ad_outbox :: bytes
  ad_head :: head
  ad_reading :: bool
  ad_writing :: bool
  ad_drain_counted :: bool

datatype ('r, 'p, 'a, 'd, 'c) slot =
    SlotEmpty | Taken | Client "('r, 'p, 'a, 'd, 'c) conn" | UpstreamOf raw_fd | IdleTo socket_addr | Abandoned
  | AdminSlot admin_conn

datatype op = OpRead raw_fd | OpWrite raw_fd bytes | OpAccept raw_fd | OpClose raw_fd

datatype 'p effect =
    Submitted op u64 | SysClose raw_fd | ShutdownWrite raw_fd | Dial socket_addr | Watch raw_fd nat
  | LaneSkipped | LaneFailed | LaneQueued 'p bytes backend_protocol
  | HandOff raw_fd bytes ip_addr bool | EndlessRecursion

record intake =
  in_fd :: raw_fd
  in_tls :: bool
  in_channel :: bool

record ('r, 'p, 'a, 'd, 'c) worker =
  wk_slots :: "raw_fd \<Rightarrow> ('r, 'p, 'a, 'd, 'c) slot"
  wk_high_water :: nat
  wk_generations :: "raw_fd \<Rightarrow> u32"
  wk_pool :: pool
  wk_intakes :: "intake list"
  wk_intake_partial :: "(raw_fd \<times> bytes) list"
  wk_admin :: "raw_fd option"
  wk_notify :: raw_fd
  wk_notes :: bytes
  wk_drain_deadline :: "nat option"
  wk_drain_inflight :: nat
  wk_drain_expired :: bool
  wk_table :: "'r route_table"
  wk_heap :: heap
  wk_routes :: "route_slot list"
  wk_metrics :: core_metrics
  wk_rng :: u64
  wk_ready :: bool
  wk_shutdown :: bool
  wk_log :: "'p effect list"

text \<open>
  The configuration and what lies outside: the libraries, and the outcome of each effect by the
  effects before it. \<open>we_parts_for\<close> builds the parts of a mirrored copy with the \<open>http\<close> crate;
  \<open>we_metrics_page\<close> renders the counters of all cores.
\<close>

record ('r, 'p, 'a, 'd, 'c, 'f) wenv =
  we_core :: nat
  we_is_match :: "'r \<Rightarrow> string \<Rightarrow> bool"
  we_encoder :: encoder
  we_rustls :: "('a, 'd, 'c, 'f) rustls"
  we_parts_for :: "bytes \<Rightarrow> socket_addr \<Rightarrow> string option \<Rightarrow> 'p option"
  we_tls_config :: "'f option"
  we_proxy_protocol :: "nat option"
  we_dispatch :: bool
  we_mirror :: bool
  we_mirror_max_body :: nat
  we_max_connect_attempts :: nat
  we_connect_timeout :: nat
  we_response_timeout :: nat
  we_shutdown_grace :: nat
  we_submits :: "'p effect list \<Rightarrow> op \<Rightarrow> bool"
  we_connects :: "'p effect list \<Rightarrow> socket_addr \<Rightarrow> (raw_fd \<times> bool) option"
  we_watches :: "'p effect list \<Rightarrow> raw_fd \<Rightarrow> bool"
  we_handoffs :: "'p effect list \<Rightarrow> bool"
  we_peer_addr :: "raw_fd \<Rightarrow> ip_addr option"
  we_nonblocking :: "raw_fd \<Rightarrow> bool"
  we_metrics_page :: "u64 \<Rightarrow> bytes"

definition set_slot :: "raw_fd \<Rightarrow> ('r, 'p, 'a, 'd, 'c) slot \<Rightarrow> ('r, 'p, 'a, 'd, 'c) worker \<Rightarrow> ('r, 'p, 'a, 'd, 'c) worker" where
  "set_slot fd x w = w\<lparr> wk_slots := (wk_slots w)(fd := x), wk_high_water := max (wk_high_water w) (nat fd + 1) \<rparr>"

abbreviation put_client :: "raw_fd \<Rightarrow> ('r, 'p, 'a, 'd, 'c) conn \<Rightarrow> ('r, 'p, 'a, 'd, 'c) worker \<Rightarrow> ('r, 'p, 'a, 'd, 'c) worker" where
  "put_client fd c \<equiv> set_slot fd (Client c)"

definition log_effect :: "'p effect \<Rightarrow> ('r, 'p, 'a, 'd, 'c) worker \<Rightarrow> ('r, 'p, 'a, 'd, 'c) worker" where
  "log_effect e w = w\<lparr> wk_log := wk_log w @ [e] \<rparr>"

definition on_metrics :: "(core_metrics \<Rightarrow> core_metrics) \<Rightarrow> ('r, 'p, 'a, 'd, 'c) worker \<Rightarrow> ('r, 'p, 'a, 'd, 'c) worker" where
  "on_metrics f w = w\<lparr> wk_metrics := f (wk_metrics w) \<rparr>"

definition bump_generation :: "raw_fd \<Rightarrow> ('r, 'p, 'a, 'd, 'c) worker \<Rightarrow> ('r, 'p, 'a, 'd, 'c) worker" where
  "bump_generation fd w =
     w\<lparr> wk_generations := (wk_generations w)(fd := and (wk_generations w fd + 1) 0x00FFFFFF) \<rparr>"

text \<open>\<open>submit_with\<close>: whether the reactor took the operation.\<close>

definition submit :: "('r, 'p, 'a, 'd, 'c, 'f) wenv \<Rightarrow> u8 \<Rightarrow> raw_fd \<Rightarrow> op \<Rightarrow> ('r, 'p, 'a, 'd, 'c) worker
    \<Rightarrow> bool \<times> ('r, 'p, 'a, 'd, 'c) worker" where
  "submit E kind fd op w =
     (if we_submits E (wk_log w) op then (True, log_effect (Submitted op (tag kind (wk_generations w fd) fd)) w)
      else (False, w))"

definition slot_counted :: "('r, 'p, 'a, 'd, 'c) slot \<Rightarrow> bool" where
  "slot_counted s = (case s of Client c \<Rightarrow> cn_drain_counted c | AdminSlot a \<Rightarrow> ad_drain_counted a | _ \<Rightarrow> False)"

definition close_fd :: "('r, 'p, 'a, 'd, 'c, 'f) wenv \<Rightarrow> raw_fd \<Rightarrow> ('r, 'p, 'a, 'd, 'c) worker \<Rightarrow> ('r, 'p, 'a, 'd, 'c) worker" where
  "close_fd E fd w =
     (let w1 = (if slot_counted (wk_slots w fd) then w\<lparr> wk_drain_inflight := wk_drain_inflight w - 1 \<rparr> else w);
          w2 = set_slot fd SlotEmpty (bump_generation fd w1)
      in snd (submit E K_CLOSE fd (OpClose fd) w2))"

text \<open>A connection taken out of its slot; a slot that holds none is emptied.\<close>

definition with_client ::
    "raw_fd \<Rightarrow> 'x \<Rightarrow> (('r, 'p, 'a, 'd, 'c) conn \<Rightarrow> ('r, 'p, 'a, 'd, 'c) worker \<Rightarrow> 'x \<times> ('r, 'p, 'a, 'd, 'c) worker)
      \<Rightarrow> ('r, 'p, 'a, 'd, 'c) worker \<Rightarrow> 'x \<times> ('r, 'p, 'a, 'd, 'c) worker" where
  "with_client fd none f w =
     (case wk_slots w fd of
        Client c \<Rightarrow> f c (set_slot fd Taken w)
      | _ \<Rightarrow> (none, set_slot fd SlotEmpty w))"

end
