(* ===== verification/Exchange.thy ===== *)
theory Exchange
  imports Conn
begin

text \<open>
  The state machine of a client connection, \<open>crates/ramjet-engine/src/engine/worker.rs\<close>: from a
  request head in the inbox to the response in the outbox. Each function takes the descriptor and
  the worker, as the methods do; \<open>now\<close> is what the clock says while a completion is handled. The
  methods' \<open>io::Result\<close> is always \<open>Ok\<close> here. Where the code ends in a call of \<open>advance\<close> from inside
  \<open>open_upstream\<close>, the function returns \<open>True\<close> and the caller makes the call.
\<close>

section \<open>Submission\<close>

definition with_conn ::
    "raw_fd \<Rightarrow> (('r, 'p, 'a, 'd, 'c) conn \<Rightarrow> ('r, 'p, 'a, 'd, 'c) worker \<Rightarrow> ('r, 'p, 'a, 'd, 'c) worker)
      \<Rightarrow> ('r, 'p, 'a, 'd, 'c) worker \<Rightarrow> ('r, 'p, 'a, 'd, 'c) worker" where
  "with_conn fd f w = snd (with_client fd () (\<lambda>c w. ((), f c w)) w)"

text \<open>
  \<open>hand_off\<close>. It is called with \<open>hand_off\<close> set. Without a queue to the other engine it would close
  the connection through \<open>drive\<close>, which sees \<open>hand_off\<close> and calls it again, without end.
\<close>

definition hand_off_conn :: "('r, 'p, 'a, 'd, 'c, 'f) wenv \<Rightarrow> raw_fd \<Rightarrow> ('r, 'p, 'a, 'd, 'c) worker \<Rightarrow> ('r, 'p, 'a, 'd, 'c) worker" where
  "hand_off_conn E fd = with_conn fd (\<lambda>c w.
     if \<not> we_dispatch E then log_effect EndlessRecursion (put_client fd (c\<lparr> cn_phase := PhClosing \<rparr>) w)
     else
       let prefix = (case cn_tls c of Some s \<Rightarrow> into_replay s | None \<Rightarrow> cn_inbox c);
           w1 = set_slot fd SlotEmpty (bump_generation fd w);
           taken = we_handoffs E (wk_log w1);
           w2 = log_effect (HandOff fd prefix (cn_peer c) (cn_scheme c = ''https'')) w1
       in if taken then on_metrics core_connection_closed (on_metrics core_dispatched_away w2)
          else on_metrics core_connection_closed (log_effect (SysClose fd) w2))"

definition drive_down_write ::
    "('r, 'p, 'a, 'd, 'c, 'f) wenv \<Rightarrow> raw_fd \<Rightarrow> ('r, 'p, 'a, 'd, 'c) conn \<times> ('r, 'p, 'a, 'd, 'c) worker
      \<Rightarrow> ('r, 'p, 'a, 'd, 'c) conn \<times> ('r, 'p, 'a, 'd, 'c) worker" where
  "drive_down_write E fd = (\<lambda>(c, w).
     if \<not> cn_writing c \<and> has_pending_out c
     then let (buf, c1) = (case cn_tls c of
                             Some s \<Rightarrow> (ts_wire_out s, c\<lparr> cn_tls := Some (s\<lparr> ts_wire_out := [] \<rparr>) \<rparr>)
                           | None \<Rightarrow> (cn_outbox c, c\<lparr> cn_outbox := [] \<rparr>));
              (ok, w1) = submit E K_DOWN_WRITE fd (OpWrite fd buf) w
          in (if ok then c1\<lparr> cn_writing := True \<rparr> else c1\<lparr> cn_phase := PhClosing \<rparr>, w1)
     else (c, w))"

definition drive_up_write ::
    "('r, 'p, 'a, 'd, 'c, 'f) wenv \<Rightarrow> ('r, 'p, 'a, 'd, 'c) conn \<times> ('r, 'p, 'a, 'd, 'c) worker
      \<Rightarrow> ('r, 'p, 'a, 'd, 'c) conn \<times> ('r, 'p, 'a, 'd, 'c) worker" where
  "drive_up_write E = (\<lambda>(c, w).
     case cn_upstream c of
       None \<Rightarrow> (c, w)
     | Some up \<Rightarrow>
         if cn_up_ready c \<and> \<not> cn_up_writing c \<and> cn_up_outbox c \<noteq> []
         then let (ok, w1) = submit E K_UP_WRITE up (OpWrite up (cn_up_outbox c)) w;
                  c1 = c\<lparr> cn_up_outbox := [] \<rparr>
              in (if ok then c1\<lparr> cn_up_writing := True \<rparr> else c1\<lparr> cn_phase := PhClosing \<rparr>, w1)
         else (c, w))"

definition drive_up_read ::
    "('r, 'p, 'a, 'd, 'c, 'f) wenv \<Rightarrow> ('r, 'p, 'a, 'd, 'c) conn \<times> ('r, 'p, 'a, 'd, 'c) worker
      \<Rightarrow> ('r, 'p, 'a, 'd, 'c) conn \<times> ('r, 'p, 'a, 'd, 'c) worker" where
  "drive_up_read E = (\<lambda>(c, w).
     case cn_upstream c of
       None \<Rightarrow> (c, w)
     | Some up \<Rightarrow>
         if \<not> cn_up_reading c \<and> wants_upstream_bytes c
         then let (ok, w1) = submit E K_UP_READ up (OpRead up) w in (c\<lparr> cn_up_reading := ok \<rparr>, w1)
         else (c, w))"

definition drive_down_read ::
    "('r, 'p, 'a, 'd, 'c, 'f) wenv \<Rightarrow> raw_fd \<Rightarrow> ('r, 'p, 'a, 'd, 'c) conn \<times> ('r, 'p, 'a, 'd, 'c) worker
      \<Rightarrow> ('r, 'p, 'a, 'd, 'c) conn \<times> ('r, 'p, 'a, 'd, 'c) worker" where
  "drive_down_read E fd = (\<lambda>(c, w).
     if \<not> cn_reading c \<and> wants_client_bytes c
     then let (ok, w1) = submit E K_DOWN_READ fd (OpRead fd) w in (c\<lparr> cn_reading := ok \<rparr>, w1)
     else (c, w))"

definition drive :: "('r, 'p, 'a, 'd, 'c, 'f) wenv \<Rightarrow> raw_fd \<Rightarrow> ('r, 'p, 'a, 'd, 'c) worker \<Rightarrow> ('r, 'p, 'a, 'd, 'c) worker" where
  "drive E fd = with_conn fd (\<lambda>c0 w0.
     if cn_hand_off c0 then hand_off_conn E fd (put_client fd c0 w0)
     else
       let (c, w) = drive_down_read E fd (drive_up_read E (drive_up_write E
                      (drive_down_write E fd (seal (we_rustls E) c0, w0))));
           finished = (cn_phase c = PhClosing \<and> \<not> cn_writing c \<and> \<not> has_pending_out c);
           w1 = put_client fd c w
       in if finished
          then let w2 = (case cn_upstream c of
                           None \<Rightarrow> w1
                         | Some up \<Rightarrow> if cn_up_borrowed c then set_slot up Abandoned w1 else close_fd E up w1)
               in close_fd E fd (on_metrics core_connection_closed w2)
          else w1)"

section \<open>Accounting\<close>

definition on_conn_route ::
    "('r, 'p, 'a, 'd, 'c) conn \<Rightarrow> (route_slot \<Rightarrow> route_slot) \<Rightarrow> ('r, 'p, 'a, 'd, 'c) worker \<Rightarrow> ('r, 'p, 'a, 'd, 'c) worker" where
  "on_conn_route c f w =
     (case Option.bind (cn_route_stats c) (\<lambda>i. Option.bind (cn_snapshot c) (\<lambda>t. route_stats_slot (rt_routes t) i)) of
        None \<Rightarrow> w
      | Some a \<Rightarrow> w\<lparr> wk_routes := (wk_routes w)[a := f (wk_routes w ! a)] \<rparr>)"

definition conn_response ::
    "('r, 'p, 'a, 'd, 'c, 'f) wenv \<Rightarrow> u16 \<Rightarrow> ('r, 'p, 'a, 'd, 'c) conn \<times> ('r, 'p, 'a, 'd, 'c) worker
      \<Rightarrow> ('r, 'p, 'a, 'd, 'c) conn \<times> ('r, 'p, 'a, 'd, 'c) worker" where
  "conn_response E status = (\<lambda>(c, w).
     if cn_counted c then (c, w)
     else (c\<lparr> cn_counted := True \<rparr>,
           on_conn_route c (recorder_response (we_core E) (cn_canaried c) status) (on_metrics (core_response status) w)))"

definition conn_latency ::
    "('r, 'p, 'a, 'd, 'c, 'f) wenv \<Rightarrow> nat \<Rightarrow> ('r, 'p, 'a, 'd, 'c) conn \<Rightarrow> ('r, 'p, 'a, 'd, 'c) worker \<Rightarrow> ('r, 'p, 'a, 'd, 'c) worker" where
  "conn_latency E nanos c w =
     on_conn_route c (recorder_latency (we_core E) (cn_canaried c) (nanos div 1000)) (on_metrics (core_latency nanos) w)"

text \<open>\<open>dispatched_at.take()\<close> with the latency it gives.\<close>

definition take_latency ::
    "('r, 'p, 'a, 'd, 'c, 'f) wenv \<Rightarrow> nat \<Rightarrow> ('r, 'p, 'a, 'd, 'c) conn \<times> ('r, 'p, 'a, 'd, 'c) worker
      \<Rightarrow> ('r, 'p, 'a, 'd, 'c) conn \<times> ('r, 'p, 'a, 'd, 'c) worker" where
  "take_latency E now = (\<lambda>(c, w).
     case cn_dispatched_at c of
       None \<Rightarrow> (c, w)
     | Some started \<Rightarrow> (c\<lparr> cn_dispatched_at := None \<rparr>, conn_latency E (now - started) (c\<lparr> cn_dispatched_at := None \<rparr>) w))"

definition inflight_index :: "('r, 'p, 'a, 'd, 'c) conn \<Rightarrow> nat" where
  "inflight_index c = (cn_endpoint_index c + cn_attempt c) mod max (cn_endpoint_count c) 1"

text \<open>The counter of the current attempt, by its address.\<close>

definition inflight_counter :: "('r, 'p, 'a, 'd, 'c) conn \<Rightarrow> heap \<Rightarrow> nat option" where
  "inflight_counter c hp =
     Option.bind (cn_snapshot c) (\<lambda>t. Option.bind (stats_slot (rt_stats t) (cn_stats_index c))
       (\<lambda>a. get_at (sl_inflight (hp_slots hp ! a)) (inflight_index c)))"

definition hold_inflight ::
    "('r, 'p, 'a, 'd, 'c) conn \<times> ('r, 'p, 'a, 'd, 'c) worker \<Rightarrow> ('r, 'p, 'a, 'd, 'c) conn \<times> ('r, 'p, 'a, 'd, 'c) worker" where
  "hold_inflight = (\<lambda>(c, w).
     if cn_inflight_held c then (c, w)
     else case inflight_counter c (wk_heap w) of
            None \<Rightarrow> (c, w)
          | Some a \<Rightarrow> (c\<lparr> cn_inflight_held := True \<rparr>, w\<lparr> wk_heap := fetch_add a 1 (wk_heap w) \<rparr>))"

definition release_inflight ::
    "('r, 'p, 'a, 'd, 'c) conn \<times> ('r, 'p, 'a, 'd, 'c) worker \<Rightarrow> ('r, 'p, 'a, 'd, 'c) conn \<times> ('r, 'p, 'a, 'd, 'c) worker" where
  "release_inflight = (\<lambda>(c, w).
     if \<not> cn_inflight_held c then (c, w)
     else (c\<lparr> cn_inflight_held := False \<rparr>,
           case inflight_counter c (wk_heap w) of
             None \<Rightarrow> w
           | Some a \<Rightarrow> w\<lparr> wk_heap := fetch_add a (- 1) (wk_heap w) \<rparr>))"

section \<open>Refusing\<close>

definition without_upstream :: "('r, 'p, 'a, 'd, 'c) conn \<Rightarrow> ('r, 'p, 'a, 'd, 'c) conn" where
  "without_upstream c = c\<lparr> cn_upstream := None, cn_up_reading := False, cn_up_writing := False, cn_up_ready := False \<rparr>"

definition fail_unsupported ::
    "('r, 'p, 'a, 'd, 'c, 'f) wenv \<Rightarrow> raw_fd \<Rightarrow> u16 \<Rightarrow> bytes \<Rightarrow> bool \<Rightarrow> string option
      \<Rightarrow> ('r, 'p, 'a, 'd, 'c) worker \<Rightarrow> ('r, 'p, 'a, 'd, 'c) worker" where
  "fail_unsupported E fd status body close0 unsupported = with_conn fd (\<lambda>c0 w0.
     let (c1, w1) = release_inflight (c0, w0);
         w2 = (case cn_upstream c1 of
                 None \<Rightarrow> w1
               | Some up \<Rightarrow> if cn_up_borrowed c1 then set_slot up Abandoned w1 else close_fd E up w1);
         c2 = without_upstream c1;
         close = (close0 \<or> \<not> cn_client_keep_alive c2 \<or> \<not> body_is_done (cn_request_body c2));
         c3 = (if \<not> close \<and> \<not> cn_head_consumed c2
               then c2\<lparr> cn_inbox := drop (hd_len (cn_head c2)) (cn_inbox c2), cn_head_consumed := True \<rparr> else c2);
         (c4, w4) = conn_response E status (c3, w2);
         out = (if cn_method_was_head c4
                then write_static_head_only_unsupported (we_encoder E) (cn_outbox c4) status (length body) close unsupported
                else write_static_unsupported (we_encoder E) (cn_outbox c4) status body close unsupported);
         c5 = c4\<lparr> cn_outbox := out \<rparr>
     in put_client fd (if close then c5\<lparr> cn_phase := PhClosing \<rparr> else conn_reset c5) w4)"

definition fail ::
    "('r, 'p, 'a, 'd, 'c, 'f) wenv \<Rightarrow> raw_fd \<Rightarrow> u16 \<Rightarrow> bytes \<Rightarrow> bool \<Rightarrow> ('r, 'p, 'a, 'd, 'c) worker \<Rightarrow> ('r, 'p, 'a, 'd, 'c) worker" where
  "fail E fd status body close = fail_unsupported E fd status body close None"

definition fail_codec :: "('r, 'p, 'a, 'd, 'c, 'f) wenv \<Rightarrow> raw_fd \<Rightarrow> codec_error \<Rightarrow> ('r, 'p, 'a, 'd, 'c) worker \<Rightarrow> ('r, 'p, 'a, 'd, 'c) worker" where
  "fail_codec E fd e =
     fail E fd (of_nat (error_status e)) (bad_request_body (we_encoder E) (error_status e) (error_detail e)) True"

definition exhausted :: "('r, 'p, 'a, 'd, 'c, 'f) wenv \<Rightarrow> raw_fd \<Rightarrow> ('r, 'p, 'a, 'd, 'c) worker \<Rightarrow> ('r, 'p, 'a, 'd, 'c) worker" where
  "exhausted E fd w = drive E fd (fail E fd 502 CONNECT_FAILED False w)"

section \<open>Mirroring\<close>

definition plan_mirror ::
    "('r, 'p, 'a, 'd, 'c, 'f) wenv \<Rightarrow> 'r route_table \<Rightarrow> mirror_spec option \<Rightarrow> framing
      \<Rightarrow> ('r, 'p, 'a, 'd, 'c) conn \<times> ('r, 'p, 'a, 'd, 'c) worker \<Rightarrow> ('r, 'p, 'a, 'd, 'c) conn \<times> ('r, 'p, 'a, 'd, 'c) worker" where
  "plan_mirror E t spec framing = (\<lambda>(c0, w).
     let c = c0\<lparr> cn_mirror := None \<rparr> in
     case spec of
       None \<Rightarrow> (c, w)
     | Some sp \<Rightarrow>
         if \<not> we_mirror E then (c, w)
         else if \<not> (case framing of Empty \<Rightarrow> True | Length _ \<Rightarrow> True | _ \<Rightarrow> False) then (c, log_effect LaneSkipped w)
         else
           (case table_backend t (ms_backend sp) of
              None \<Rightarrow> (c, w)
            | Some b \<Rightarrow>
                if be_endpoints b = [] then (c, log_effect LaneFailed w)
                else
                  (let (word, rng) = next_u64 (wk_rng w);
                       (hp, picked) = select_endpoint (wk_heap w) b (rt_stats t) word;
                       w1 = w\<lparr> wk_rng := rng, wk_heap := hp \<rparr> in
                   case picked of
                     None \<Rightarrow> (c, log_effect LaneFailed w1)
                   | Some (index, _) \<Rightarrow>
                       (case get_at (be_endpoints b) index of
                          None \<Rightarrow> (c, log_effect LaneFailed w1)
                        | Some endpoint \<Rightarrow>
                            (case we_parts_for E (cn_request_head c) (ep_addr endpoint) (ms_host sp) of
                               None \<Rightarrow> (c, log_effect LaneFailed w1)
                             | Some parts \<Rightarrow>
                                 (c\<lparr> cn_mirror := Some \<lparr> mc_parts = parts, mc_body = [],
                                       mc_protocol = be_protocol b, mc_too_large = False \<rparr> \<rparr>, w1))))))"

definition mirror_body :: "('r, 'p, 'a, 'd, 'c, 'f) wenv \<Rightarrow> bytes \<Rightarrow> ('r, 'p, 'a, 'd, 'c) conn \<Rightarrow> ('r, 'p, 'a, 'd, 'c) conn" where
  "mirror_body E bs c =
     (case cn_mirror c of
        None \<Rightarrow> c
      | Some copy \<Rightarrow>
          if mc_too_large copy then c
          else if length (mc_body copy) + length bs > we_mirror_max_body E
          then c\<lparr> cn_mirror := Some (copy\<lparr> mc_body := [], mc_too_large := True \<rparr>) \<rparr>
          else c\<lparr> cn_mirror := Some (copy\<lparr> mc_body := mc_body copy @ bs \<rparr>) \<rparr>)"

definition send_mirror ::
    "('r, 'p, 'a, 'd, 'c, 'f) wenv \<Rightarrow> ('r, 'p, 'a, 'd, 'c) conn \<times> ('r, 'p, 'a, 'd, 'c) worker
      \<Rightarrow> ('r, 'p, 'a, 'd, 'c) conn \<times> ('r, 'p, 'a, 'd, 'c) worker" where
  "send_mirror E = (\<lambda>(c, w).
     case cn_mirror c of
       None \<Rightarrow> (c, w)
     | Some copy \<Rightarrow>
         (c\<lparr> cn_mirror := None \<rparr>,
          if \<not> we_mirror E then w
          else if mc_too_large copy then log_effect LaneSkipped w
          else log_effect (LaneQueued (mc_parts copy) (mc_body copy) (mc_protocol copy)) w))"

section \<open>Opening an upstream\<close>

datatype opened = ODone | OAdvance | OExhausted | ORetry | OOpen

text \<open>One turn of \<open>open_upstream\<close>: what it ends in.\<close>

definition open_step ::
    "('r, 'p, 'a, 'd, 'c, 'f) wenv \<Rightarrow> nat \<Rightarrow> raw_fd \<Rightarrow> ('r, 'p, 'a, 'd, 'c) worker \<Rightarrow> opened \<times> ('r, 'p, 'a, 'd, 'c) worker" where
  "open_step E now fd = with_client fd ODone (\<lambda>c0 w0.
     case get_at (cn_targets c0) (cn_attempt c0) of
       None \<Rightarrow> (OExhausted, put_client fd c0 w0)
     | Some addr \<Rightarrow>
         (let (c, w) = hold_inflight (c0\<lparr> cn_dispatched_at := Some now, cn_deadline := Some (now + we_response_timeout E) \<rparr>, w0);
              (pooled, pool) = pool_take addr (wk_pool w);
              w1 = w\<lparr> wk_pool := pool \<rparr> in
          case pooled of
            Some up \<Rightarrow>
              (OAdvance, put_client fd (c\<lparr> cn_upstream := Some up, cn_up_reading := True, cn_up_ready := True,
                                           cn_from_pool := True, cn_phase := PhExchanging \<rparr>)
                           (set_slot up (UpstreamOf fd) w1))
          | None \<Rightarrow>
              (let w2 = log_effect (Dial addr) w1 in
               case we_connects E (wk_log w2) addr of
                 None \<Rightarrow> (ORetry, put_client fd c (on_metrics core_connect_failure w2))
               | Some (up, at_once) \<Rightarrow>
                   (let c1 = c\<lparr> cn_upstream := Some up, cn_up_reading := False, cn_up_ready := at_once, cn_from_pool := False \<rparr>;
                        w3 = set_slot up (UpstreamOf fd) w2 in
                    if at_once then (OAdvance, put_client fd (c1\<lparr> cn_phase := PhExchanging \<rparr>) w3)
                    else if we_watches E (wk_log w3) up
                    then (ODone, put_client fd (c1\<lparr> cn_up_borrowed := True, cn_phase := PhConnecting \<rparr>)
                                   (log_effect (Watch up (now + we_connect_timeout E)) w3))
                    else (ORetry, put_client fd (c1\<lparr> cn_upstream := None \<rparr>)
                                    (on_metrics core_connect_failure (log_effect (SysClose up) (set_slot up SlotEmpty w3))))))))"

text \<open>The decision of \<open>retry_or_fail\<close>, up to its call of \<open>open_upstream\<close> or \<open>exhausted\<close>.\<close>

definition retry_step ::
    "('r, 'p, 'a, 'd, 'c, 'f) wenv \<Rightarrow> raw_fd \<Rightarrow> ('r, 'p, 'a, 'd, 'c) worker \<Rightarrow> opened \<times> ('r, 'p, 'a, 'd, 'c) worker" where
  "retry_step E fd = with_client fd ODone (\<lambda>c0 w0.
     let (c, w) = release_inflight (c0, w0);
         resend = (\<lambda>c. c\<lparr> cn_up_outbox := cn_request_head c, cn_up_inbox := [], cn_up_reading := False, cn_up_writing := False,
                           cn_up_ready := False, cn_response_head_seen := False, cn_up_head := head_reset (cn_up_head c),
                           cn_phase := PhExchanging \<rparr>) in
     if cn_from_pool c \<and> \<not> cn_pool_retry_used c \<and> \<not> cn_committed c \<and> cn_replayable c
     then (OOpen, put_client fd (resend (c\<lparr> cn_from_pool := False, cn_pool_retry_used := True \<rparr>)) w)
     else if cn_committed c \<or> length (cn_targets c) \<le> cn_attempt c + 1
     then (OExhausted, put_client fd c w)
     else (OOpen, put_client fd (resend (c\<lparr> cn_attempt := cn_attempt c + 1 \<rparr>)) (on_metrics core_retry w)))"

text \<open>What can still be tried.\<close>

definition tries_left :: "raw_fd \<Rightarrow> ('r, 'p, 'a, 'd, 'c) worker \<Rightarrow> nat" where
  "tries_left fd w =
     (case wk_slots w fd of
        Client c \<Rightarrow> 2 * (length (cn_targets c) - cn_attempt c) + (if cn_pool_retry_used c then 0 else 1)
      | _ \<Rightarrow> 0)"

lemma set_slot_same [simp]: "wk_slots (set_slot fd x w) fd = x"
  by (simp add: set_slot_def)

lemma hold_keeps [simp]:
  "cn_targets (fst (hold_inflight (c, w))) = cn_targets c" "cn_attempt (fst (hold_inflight (c, w))) = cn_attempt c"
  "cn_pool_retry_used (fst (hold_inflight (c, w))) = cn_pool_retry_used c"
  "cn_inbox (fst (hold_inflight (c, w))) = cn_inbox c" "cn_up_inbox (fst (hold_inflight (c, w))) = cn_up_inbox c"
  by (simp_all add: hold_inflight_def split: option.split)

lemma release_keeps [simp]:
  "cn_targets (fst (release_inflight (c, w))) = cn_targets c" "cn_attempt (fst (release_inflight (c, w))) = cn_attempt c"
  "cn_pool_retry_used (fst (release_inflight (c, w))) = cn_pool_retry_used c"
  "cn_inbox (fst (release_inflight (c, w))) = cn_inbox c" "cn_up_inbox (fst (release_inflight (c, w))) = cn_up_inbox c"
  by (simp_all add: release_inflight_def)

lemma open_step_left:
  assumes "open_step E now fd w = (ORetry, w')"
  shows "tries_left fd w' = tries_left fd w \<and> (\<exists>c. wk_slots w' fd = Client c \<and> cn_attempt c < length (cn_targets c))"
proof (cases "wk_slots w fd")
  case (Client c0)
  let ?c = "c0\<lparr> cn_dispatched_at := Some now, cn_deadline := Some (now + we_response_timeout E) \<rparr>"
  obtain c w1 where h: "hold_inflight (?c, set_slot fd Taken w) = (c, w1)" by fastforce
  have k: "cn_targets c = cn_targets c0" "cn_attempt c = cn_attempt c0" "cn_pool_retry_used c = cn_pool_retry_used c0"
    using hold_keeps(1-3)[of ?c "set_slot fd Taken w"] unfolding h by simp_all
  from assms Client k show ?thesis
    by (auto simp: open_step_def with_client_def h tries_left_def Let_def
        split: option.splits prod.splits if_splits)
qed (use assms in \<open>simp_all add: open_step_def with_client_def\<close>)

lemma retry_step_left:
  assumes "retry_step E fd w = (OOpen, w')" "\<exists>c. wk_slots w fd = Client c \<and> cn_attempt c < length (cn_targets c)"
  shows "tries_left fd w' < tries_left fd w"
proof -
  from assms(2) obtain c0 where c0: "wk_slots w fd = Client c0" "cn_attempt c0 < length (cn_targets c0)" by blast
  obtain c w1 where r: "release_inflight (c0, set_slot fd Taken w) = (c, w1)" by fastforce
  have k: "cn_targets c = cn_targets c0" "cn_attempt c = cn_attempt c0" "cn_pool_retry_used c = cn_pool_retry_used c0"
    using release_keeps(1-3)[of c0 "set_slot fd Taken w"] unfolding r by simp_all
  from assms(1) c0 k show ?thesis
    by (auto simp: retry_step_def with_client_def r tries_left_def Let_def split: if_splits)
qed

lemma reopen_left:
  assumes "(ORetry, w1) = open_step E now fd w" "(OOpen, w2) = retry_step E fd w1"
  shows "tries_left fd w2 < tries_left fd w"
  using open_step_left[OF assms(1)[symmetric]] retry_step_left[OF assms(2)[symmetric]] by auto

function open_upstream ::
    "('r, 'p, 'a, 'd, 'c, 'f) wenv \<Rightarrow> nat \<Rightarrow> raw_fd \<Rightarrow> ('r, 'p, 'a, 'd, 'c) worker \<Rightarrow> bool \<times> ('r, 'p, 'a, 'd, 'c) worker" where
  "open_upstream E now fd w =
     (case open_step E now fd w of
        (OAdvance, w1) \<Rightarrow> (True, w1)
      | (OExhausted, w1) \<Rightarrow> (False, exhausted E fd w1)
      | (ORetry, w1) \<Rightarrow>
          (case retry_step E fd w1 of
             (OOpen, w2) \<Rightarrow> open_upstream E now fd w2
           | (OExhausted, w2) \<Rightarrow> (False, exhausted E fd w2)
           | (_, w2) \<Rightarrow> (False, w2))
      | (_, w1) \<Rightarrow> (False, w1))"
  by pat_completeness auto
termination
  by (relation "measure (\<lambda>(E, now, fd, w). tries_left fd w)")
     (auto intro: reopen_left)

declare open_upstream.simps [simp del]

definition retry_or_fail ::
    "('r, 'p, 'a, 'd, 'c, 'f) wenv \<Rightarrow> nat \<Rightarrow> raw_fd \<Rightarrow> ('r, 'p, 'a, 'd, 'c) worker \<Rightarrow> bool \<times> ('r, 'p, 'a, 'd, 'c) worker" where
  "retry_or_fail E now fd w =
     (case retry_step E fd w of
        (OOpen, w1) \<Rightarrow> open_upstream E now fd w1
      | (OExhausted, w1) \<Rightarrow> (False, exhausted E fd w1)
      | (_, w1) \<Rightarrow> (False, w1))"

section \<open>Routing\<close>

text \<open>What \<open>route_request\<close> makes of an endpoint: the rewritten head, the copy for the mirror, the head consumed.\<close>

definition start_exchange ::
    "('r, 'p, 'a, 'd, 'c, 'f) wenv \<Rightarrow> 'r route_table \<Rightarrow> 'r matched \<Rightarrow> framing \<Rightarrow> nat \<Rightarrow> socket_addr list
      \<Rightarrow> ('r, 'p, 'a, 'd, 'c) conn \<times> ('r, 'p, 'a, 'd, 'c) worker \<Rightarrow> ('r, 'p, 'a, 'd, 'c) conn \<times> ('r, 'p, 'a, 'd, 'c) worker" where
  "start_exchange E t m framing index targets = (\<lambda>(c, w).
     let b = ma_backend m;
         (head_out, rng) = write_upstream_request [] (cn_head c) (cn_inbox c)
            \<lparr> ho_client = cn_peer c, ho_scheme = cn_scheme c \<rparr> (hd targets) framing False (cn_upgrade c) (wk_rng w);
         c1 = c\<lparr> cn_targets := targets, cn_stats_index := be_stats_index b, cn_endpoint_index := index,
                  cn_endpoint_count := length (be_endpoints b), cn_replayable := (framing = Empty), cn_attempt := 0,
                  cn_request_head := head_out \<rparr>;
         (c2, w2) = plan_mirror E t (ma_mirror m) framing (c1, w\<lparr> wk_rng := rng \<rparr>);
         (c3, w3) = (if body_is_done (cn_request_body c2) then send_mirror E (c2, w2) else (c2, w2))
     in (c3\<lparr> cn_inbox := drop (hd_len (cn_head c3)) (cn_inbox c3), cn_head_consumed := True, cn_snapshot := Some t,
             cn_phase := PhExchanging, cn_up_outbox := cn_request_head c3 \<rparr>, w3))"

definition route_matched ::
    "('r, 'p, 'a, 'd, 'c, 'f) wenv \<Rightarrow> nat \<Rightarrow> raw_fd \<Rightarrow> 'r route_table \<Rightarrow> framing \<Rightarrow> 'r matched
      \<Rightarrow> ('r, 'p, 'a, 'd, 'c) conn \<Rightarrow> ('r, 'p, 'a, 'd, 'c) worker \<Rightarrow> bool \<times> ('r, 'p, 'a, 'd, 'c) worker" where
  "route_matched E now fd t framing m c0 w =
     (let b = ma_backend m;
          c = c0\<lparr> cn_route_stats := ma_route m, cn_canaried := ma_canaried m \<rparr> in
      if be_protocol b = H2c
      then (False, fail_unsupported E fd 502 NO_H2C_UPSTREAM False (Some UNSUPPORTED_H2C_UPSTREAM)
                     (on_metrics core_unsupported_h2c (put_client fd c w)))
      else if is_grpc (cn_head c) (cn_inbox c)
      then (False, fail_unsupported E fd 502 GRPC False (Some UNSUPPORTED_GRPC)
                     (on_metrics core_unsupported_grpc (put_client fd c w)))
      else
        case first_endpoint (wk_heap w) t b (wk_rng w) of
          ((hp, None), rng) \<Rightarrow>
            (False, fail E fd 503 NO_ENDPOINT False (put_client fd c (w\<lparr> wk_heap := hp, wk_rng := rng \<rparr>)))
        | ((hp, Some (index, _)), rng) \<Rightarrow>
            (let w1 = w\<lparr> wk_heap := hp, wk_rng := rng \<rparr>;
                 allowed = attempts_allowed framing (length (be_endpoints b)) (we_max_connect_attempts E);
                 targets = targets_of b index allowed in
             if targets = [] then (False, fail E fd 503 NO_ENDPOINT False (put_client fd (c\<lparr> cn_targets := [] \<rparr>) w1))
             else (let (c1, w2) = start_exchange E t m framing index targets (c, w1)
                   in open_upstream E now fd (put_client fd c1 w2))))"

definition route_request ::
    "('r, 'p, 'a, 'd, 'c, 'f) wenv \<Rightarrow> nat \<Rightarrow> raw_fd \<Rightarrow> ('r, 'p, 'a, 'd, 'c) worker \<Rightarrow> bool \<times> ('r, 'p, 'a, 'd, 'c) worker" where
  "route_request E now fd = with_client fd False (\<lambda>c0 w0.
     case request_framing (cn_head c0) (cn_inbox c0) of
       Inl e \<Rightarrow> (False, fail_codec E fd e (put_client fd c0 w0))
     | Inr framing \<Rightarrow>
         (let h = cn_head c0; buf = cn_inbox c0;
              c = c0\<lparr> cn_request_body := body_left_new framing,
                      cn_client_keep_alive := keep_alive h buf (head_version h) \<and> \<not> cn_client_eof c0,
                      cn_method_was_head := (case head_method h buf of Some m \<Rightarrow> eq_ignore_ascii_case m ''HEAD'' | None \<Rightarrow> False),
                      cn_upgrade := upgrade_protocol h buf \<rparr>;
              t = wk_table w0;
              host = opt_or [] (routing_host h buf) in
          case hd_start h of
            StatusLine _ _ _ \<Rightarrow> (False, fail E fd 400 NO_ROUTE True (put_client fd c w0))
          | RequestLine _ target _ \<Rightarrow>
              (let path = opt_or ''/'' (routing_path target buf) in
               case engine_match_request (we_is_match E) t host path h buf (wk_rng w0) of
                 (None, rng) \<Rightarrow>
                   (False, fail E fd 404 NO_ROUTE False (put_client fd c (on_metrics core_route_miss (w0\<lparr> wk_rng := rng \<rparr>))))
               | (Some m, rng) \<Rightarrow> route_matched E now fd t framing m c (w0\<lparr> wk_rng := rng \<rparr>))))"

definition parse_request ::
    "('r, 'p, 'a, 'd, 'c, 'f) wenv \<Rightarrow> nat \<Rightarrow> raw_fd \<Rightarrow> ('r, 'p, 'a, 'd, 'c) worker \<Rightarrow> bool \<times> ('r, 'p, 'a, 'd, 'c) worker" where
  "parse_request E now fd = with_client fd False (\<lambda>c w.
     if is_h2_preface (cn_inbox c)
     then (if we_dispatch E then (False, hand_off_conn E fd (put_client fd (c\<lparr> cn_hand_off := True \<rparr>) w))
           else (False, fail E fd 502 NO_HTTP2 True (put_client fd c w)))
     else case parse_request_head (cn_inbox c) (cn_head c) of
            (Inr False, h) \<Rightarrow>
              (False, put_client fd (let c1 = c\<lparr> cn_head := h \<rparr> in if cn_client_eof c then c1\<lparr> cn_phase := PhClosing \<rparr> else c1) w)
          | (Inl e, h) \<Rightarrow> (False, fail_codec E fd e (put_client fd (c\<lparr> cn_head := h \<rparr>) w))
          | (Inr True, h) \<Rightarrow> route_request E now fd (put_client fd (c\<lparr> cn_head := h \<rparr>) w))"

section \<open>The end of an exchange\<close>

text \<open>\<open>finish_response\<close>: the upstream is pooled or closed and the connection made ready.\<close>

definition release_upstream ::
    "('r, 'p, 'a, 'd, 'c, 'f) wenv \<Rightarrow> nat \<Rightarrow> ('r, 'p, 'a, 'd, 'c) conn \<Rightarrow> raw_fd
      \<Rightarrow> ('r, 'p, 'a, 'd, 'c) worker \<Rightarrow> ('r, 'p, 'a, 'd, 'c) worker" where
  "release_upstream E now c up w =
     (let clean = (cn_up_inbox c = [] \<and> \<not> cn_up_writing c) in
      case (cn_upstream_keep_alive c \<and> clean, get_at (cn_targets c) (cn_attempt c)) of
        (True, Some addr) \<Rightarrow>
          (let w1 = set_slot up (IdleTo addr) w;
               (refused, pool) = pool_put now addr up (wk_pool w1);
               w2 = w1\<lparr> wk_pool := pool \<rparr> in
           case refused of
             Some fd' \<Rightarrow> close_fd E fd' w2
           | None \<Rightarrow>
               if cn_up_reading c then w2
               else (let (ok, w3) = submit E K_UP_READ up (OpRead up) w2 in
                     if ok then w3
                     else close_fd E up (w3\<lparr> wk_pool := snd (pool_remove addr up (wk_pool w3)) \<rparr>)))
      | _ \<Rightarrow> close_fd E up w)"

definition finish_response :: "('r, 'p, 'a, 'd, 'c, 'f) wenv \<Rightarrow> nat \<Rightarrow> raw_fd \<Rightarrow> ('r, 'p, 'a, 'd, 'c) worker \<Rightarrow> ('r, 'p, 'a, 'd, 'c) worker" where
  "finish_response E now fd = with_conn fd (\<lambda>c0 w0.
     let (c, w) = release_inflight (c0, w0);
         w1 = (case cn_upstream c of None \<Rightarrow> w | Some up \<Rightarrow> release_upstream E now c up w);
         c1 = conn_reset (without_upstream c)
     in put_client fd (if cn_client_keep_alive c then c1 else c1\<lparr> cn_phase := PhClosing \<rparr>) w1)"

definition drop_upstream :: "('r, 'p, 'a, 'd, 'c, 'f) wenv \<Rightarrow> raw_fd \<Rightarrow> ('r, 'p, 'a, 'd, 'c) conn \<Rightarrow> ('r, 'p, 'a, 'd, 'c) worker \<Rightarrow> ('r, 'p, 'a, 'd, 'c) worker" where
  "drop_upstream E fd c w =
     (case cn_upstream c of
        None \<Rightarrow> put_client fd c w
      | Some up \<Rightarrow> close_fd E up (put_client fd (c\<lparr> cn_upstream := None \<rparr>) w))"

text \<open>\<open>upstream_failed\<close> once the client has a status: the truncated response is ended by closing.\<close>

definition end_truncated :: "('r, 'p, 'a, 'd, 'c, 'f) wenv \<Rightarrow> raw_fd \<Rightarrow> ('r, 'p, 'a, 'd, 'c) worker \<Rightarrow> ('r, 'p, 'a, 'd, 'c) worker" where
  "end_truncated E fd = with_conn fd (\<lambda>c w. drive E fd (drop_upstream E fd (c\<lparr> cn_phase := PhClosing \<rparr>) w))"

definition upstream_failed ::
    "('r, 'p, 'a, 'd, 'c, 'f) wenv \<Rightarrow> nat \<Rightarrow> raw_fd \<Rightarrow> ('r, 'p, 'a, 'd, 'c) worker \<Rightarrow> bool \<times> ('r, 'p, 'a, 'd, 'c) worker" where
  "upstream_failed E now fd w =
     (case wk_slots w fd of
        Client c \<Rightarrow>
          if cn_response_head_seen c then (False, end_truncated E fd w)
          else retry_or_fail E now fd (drop_upstream E fd c (set_slot fd Taken w))
      | _ \<Rightarrow> (False, set_slot fd SlotEmpty w))"

definition upstream_garbage :: "('r, 'p, 'a, 'd, 'c, 'f) wenv \<Rightarrow> raw_fd \<Rightarrow> ('r, 'p, 'a, 'd, 'c) worker \<Rightarrow> ('r, 'p, 'a, 'd, 'c) worker" where
  "upstream_garbage E fd w =
     (case wk_slots w fd of
        Client c \<Rightarrow>
          if cn_response_head_seen c then end_truncated E fd w
          else drive E fd (fail E fd 502 UPSTREAM_FAILED True
                 (drop_upstream E fd (c\<lparr> cn_committed := True \<rparr>) (set_slot fd Taken w)))
      | _ \<Rightarrow> w)"

section \<open>Relaying\<close>

definition begin_tunnel :: "('r, 'p, 'a, 'd, 'c, 'f) wenv \<Rightarrow> nat \<Rightarrow> raw_fd \<Rightarrow> ('r, 'p, 'a, 'd, 'c) worker \<Rightarrow> ('r, 'p, 'a, 'd, 'c) worker" where
  "begin_tunnel E now fd = with_conn fd (\<lambda>c w.
     case cn_upgrade c of
       None \<Rightarrow> drive E fd (fail E fd 502 UPGRADE_FAILED True (put_client fd c w))
     | Some asked \<Rightarrow>
         (let protocol = opt_or asked (upgrade_protocol (cn_up_head c) (cn_up_inbox c));
              c1 = c\<lparr> cn_outbox := write_downstream_response (en_reason (we_encoder E)) (cn_outbox c) (cn_up_head c) (cn_up_inbox c)
                                    Empty False (Some protocol),
                      cn_up_inbox := drop (hd_len (cn_up_head c)) (cn_up_inbox c) \<rparr>;
              c2 = c1\<lparr> cn_outbox := cn_outbox c1 @ cn_up_inbox c1, cn_up_inbox := [],
                       cn_up_outbox := cn_up_outbox c1 @ cn_inbox c1, cn_inbox := [],
                       cn_response_head_seen := True, cn_committed := True, cn_phase := PhTunnel, cn_deadline := None,
                       cn_upstream_keep_alive := False \<rparr>;
              (c3, w3) = conn_response E 101 (take_latency E now (c2, w))
          in put_client fd c3 w3))"

definition pump_tunnel :: "('r, 'p, 'a, 'd, 'c, 'f) wenv \<Rightarrow> raw_fd \<Rightarrow> ('r, 'p, 'a, 'd, 'c) worker \<Rightarrow> bool \<times> ('r, 'p, 'a, 'd, 'c) worker" where
  "pump_tunnel E fd = with_client fd False (\<lambda>c w.
     let moved = (cn_inbox c \<noteq> [] \<or> cn_up_inbox c \<noteq> []);
         c1 = c\<lparr> cn_up_outbox := cn_up_outbox c @ cn_inbox c, cn_inbox := [],
                 cn_outbox := cn_outbox c @ cn_up_inbox c, cn_up_inbox := [] \<rparr>;
         w1 = (if cn_client_eof c1 \<and> cn_up_outbox c1 = [] \<and> \<not> cn_up_writing c1
               then case cn_upstream c1 of None \<Rightarrow> w | Some up \<Rightarrow> log_effect (ShutdownWrite up) w
               else w);
         (c2, w2) = (if cn_upstream_eof c1 \<and> cn_outbox c1 = [] \<and> \<not> cn_writing c1
                     then case cn_tls c1 of
                            Some s \<Rightarrow> (c1\<lparr> cn_tls := Some (send_close_notify (we_rustls E) s), cn_phase := PhClosing \<rparr>, w1)
                          | None \<Rightarrow> if cn_client_eof c1 then (c1\<lparr> cn_phase := PhClosing \<rparr>, w1)
                                    else (c1, log_effect (ShutdownWrite fd) w1)
                     else (c1, w1))
     in (moved, put_client fd c2 w2))"

text \<open>The head of a response: framed, rewritten and counted. From here the exchange is committed.\<close>

definition accept_response ::
    "('r, 'p, 'a, 'd, 'c, 'f) wenv \<Rightarrow> nat \<Rightarrow> framing \<Rightarrow> ('r, 'p, 'a, 'd, 'c) conn \<times> ('r, 'p, 'a, 'd, 'c) worker
      \<Rightarrow> ('r, 'p, 'a, 'd, 'c) conn \<times> ('r, 'p, 'a, 'd, 'c) worker" where
  "accept_response E now framing cw =
     (let (c, w) = take_latency E now cw;
          h = cn_up_head c; buf = cn_up_inbox c;
          status = opt_or 502 (head_status h);
          c1 = c\<lparr> cn_upstream_keep_alive := keep_alive h buf (head_version h) \<and> allows_reuse framing,
                  cn_client_keep_alive := cn_client_keep_alive c \<and> framing \<noteq> UntilClose \<rparr>;
          c2 = c1\<lparr> cn_outbox := write_downstream_response (en_reason (we_encoder E)) (cn_outbox c1) h buf framing
                                  (\<not> cn_client_keep_alive c1) None,
                   cn_up_inbox := drop (hd_len h) buf, cn_response_body := body_left_new framing,
                   cn_response_head_seen := True, cn_phase := PhRelaying, cn_committed := True,
                   cn_deadline := Some (now + we_response_timeout E) \<rparr>
      in conn_response E status (c2, w))"

text \<open>Body bytes, verbatim; a complete response ends the exchange.\<close>

definition relay_body ::
    "('r, 'p, 'a, 'd, 'c, 'f) wenv \<Rightarrow> nat \<Rightarrow> raw_fd \<Rightarrow> ('r, 'p, 'a, 'd, 'c) conn \<Rightarrow> ('r, 'p, 'a, 'd, 'c) worker
      \<Rightarrow> bool \<times> ('r, 'p, 'a, 'd, 'c) worker" where
  "relay_body E now fd c w =
     (let ended = (\<lambda>moved c. if cn_response_head_seen c \<and> body_is_done (cn_response_body c)
                             then (True, finish_response E now fd (put_client fd c w)) else (moved, put_client fd c w)) in
      if \<not> body_is_done (cn_response_body c) \<and> cn_up_inbox c \<noteq> []
      then case body_take (cn_response_body c) (cn_up_inbox c) of
             Inl _ \<Rightarrow> (False, upstream_garbage E fd (put_client fd c w))
           | Inr ((n, over), b) \<Rightarrow>
               ended (0 < n) (c\<lparr> cn_outbox := cn_outbox c @ take n (cn_up_inbox c), cn_up_inbox := drop n (cn_up_inbox c),
                                 cn_response_body := (if over then BodyDone else b) \<rparr>)
      else ended False c)"

definition parse_response ::
    "('r, 'p, 'a, 'd, 'c, 'f) wenv \<Rightarrow> nat \<Rightarrow> raw_fd \<Rightarrow> ('r, 'p, 'a, 'd, 'c) worker \<Rightarrow> bool \<times> ('r, 'p, 'a, 'd, 'c) worker" where
  "parse_response E now fd = with_client fd False (\<lambda>c w.
     if cn_up_inbox c = [] then (False, put_client fd c w)
     else if cn_response_head_seen c then relay_body E now fd c w
     else
       (let (parsed, h) = parse_response_head (cn_up_inbox c) (cn_up_head c);
            c1 = c\<lparr> cn_up_head := h \<rparr> in
        case parsed of
          Inr False \<Rightarrow> (False, put_client fd c1 w)
        | Inl _ \<Rightarrow> (False, upstream_garbage E fd (put_client fd c1 w))
        | Inr True \<Rightarrow>
            if is_switching_protocols h then (True, begin_tunnel E now fd (put_client fd c1 w))
            else (case response_framing h (cn_up_inbox c1) (cn_method_was_head c1) of
                    Inl _ \<Rightarrow> (False, upstream_garbage E fd (put_client fd c1 w))
                  | Inr framing \<Rightarrow> (let (c2, w2) = accept_response E now framing (c1, w) in relay_body E now fd c2 w2))))"

definition EARLY_END :: bytes where
  "EARLY_END = ''400 Bad Request: the request body ended early'' @ LF"

definition pump_bodies ::
    "('r, 'p, 'a, 'd, 'c, 'f) wenv \<Rightarrow> nat \<Rightarrow> raw_fd \<Rightarrow> ('r, 'p, 'a, 'd, 'c) worker \<Rightarrow> bool \<times> ('r, 'p, 'a, 'd, 'c) worker" where
  "pump_bodies E now fd = with_client fd False (\<lambda>c w.
     let go = (\<lambda>progressed c w.
           if \<not> body_is_done (cn_request_body c) \<and> cn_client_eof c \<and> cn_inbox c = []
           then (False, fail E fd 400 EARLY_END True (put_client fd c w))
           else (let (moved, w') = parse_response E now fd (put_client fd c w) in (moved \<or> progressed, w'))) in
     if \<not> body_is_done (cn_request_body c) \<and> cn_inbox c \<noteq> []
     then case body_take (cn_request_body c) (cn_inbox c) of
            Inl e \<Rightarrow> (False, fail_codec E fd e (put_client fd c w))
          | Inr ((n, over), b) \<Rightarrow>
              (let bs = take n (cn_inbox c);
                   c1 = mirror_body E bs (c\<lparr> cn_up_outbox := cn_up_outbox c @ bs, cn_request_body := b \<rparr>);
                   c2 = c1\<lparr> cn_inbox := drop n (cn_inbox c) \<rparr>;
                   (c3, w3) = (if over then send_mirror E (c2\<lparr> cn_request_body := BodyDone \<rparr>, w) else (c2, w))
               in go (0 < n) c3 w3)
     else go False c w)"

section \<open>Advancing\<close>

text \<open>The bytes a connection can still be moved forward by.\<close>

definition work :: "raw_fd \<Rightarrow> ('r, 'p, 'a, 'd, 'c) worker \<Rightarrow> nat" where
  "work fd w =
     (case wk_slots w fd of
        Client c \<Rightarrow> if cn_phase c = PhClosing then 0 else Suc (length (cn_inbox c) + length (cn_up_inbox c))
      | _ \<Rightarrow> 0)"

lemma slots_kept [simp]:
  "wk_slots (log_effect e w) = wk_slots w" "wk_slots (on_metrics f w) = wk_slots w"
  "wk_slots (bump_generation fd w) = wk_slots w" "wk_slots (on_conn_route c g w) = wk_slots w"
  "wk_slots (conn_latency E n c w) = wk_slots w" "wk_slots (snd (submit E k fd op w)) = wk_slots w"
  by (simp_all add: log_effect_def on_metrics_def bump_generation_def on_conn_route_def conn_latency_def submit_def split: option.split)

lemma submit_slots: "submit E k fd op w = (ok, w') \<Longrightarrow> wk_slots w' = wk_slots w"
  using slots_kept(6)[of E k fd op w] by simp

lemma slots_set: "wk_slots (set_slot fd x w) = (wk_slots w)(fd := x)"
  by (simp add: set_slot_def)

lemma slots_close: "wk_slots (close_fd E fd w) = (wk_slots w)(fd := SlotEmpty)"
  by (simp add: close_fd_def Let_def slots_set)

lemma work_cong: "wk_slots w fd = wk_slots w' fd \<Longrightarrow> work fd w = work fd w'"
  by (simp add: work_def)

lemma work_close: "work fd (close_fd E up w) \<le> work fd w"
  by (simp add: work_def slots_close)

lemma work_put [simp]:
  "work fd (put_client fd c w) = (if cn_phase c = PhClosing then 0 else Suc (length (cn_inbox c) + length (cn_up_inbox c)))"
  by (simp add: work_def)

lemma pairs_keep_slots [simp]:
  "wk_slots (snd (hold_inflight (c, w))) = wk_slots w" "wk_slots (snd (release_inflight (c, w))) = wk_slots w"
  "wk_slots (snd (take_latency E now (c, w))) = wk_slots w" "wk_slots (snd (conn_response E status (c, w))) = wk_slots w"
  "wk_slots (snd (send_mirror E (c, w))) = wk_slots w"
  by (simp_all add: hold_inflight_def release_inflight_def take_latency_def conn_response_def send_mirror_def split: option.split)

lemma pairs_keep_conn [simp]:
  "cn_inbox (fst (take_latency E now (c, w))) = cn_inbox c" "cn_up_inbox (fst (take_latency E now (c, w))) = cn_up_inbox c"
  "cn_inbox (fst (conn_response E status (c, w))) = cn_inbox c" "cn_up_inbox (fst (conn_response E status (c, w))) = cn_up_inbox c"
  "cn_phase (fst (conn_response E status (c, w))) = cn_phase c"
  "cn_inbox (fst (send_mirror E (c, w))) = cn_inbox c" "cn_up_inbox (fst (send_mirror E (c, w))) = cn_up_inbox c"
  "cn_phase (fst (send_mirror E (c, w))) = cn_phase c"
  "cn_inbox (fst (plan_mirror E t spec framing (c, w))) = cn_inbox c" "cn_up_inbox (fst (plan_mirror E t spec framing (c, w))) = cn_up_inbox c"
  "cn_head (fst (plan_mirror E t spec framing (c, w))) = cn_head c" "cn_head (fst (send_mirror E (c, w))) = cn_head c"
  "cn_inbox (mirror_body E bs c) = cn_inbox c" "cn_up_inbox (mirror_body E bs c) = cn_up_inbox c"
  "cn_phase (mirror_body E bs c) = cn_phase c"
  by (simp_all add: take_latency_def conn_response_def send_mirror_def plan_mirror_def mirror_body_def Let_def
      split: option.split prod.split)

lemma fail_closing: "work fd (fail_unsupported E fd status body True unsupported w) = 0"
  by (cases "wk_slots w fd")
     (simp_all add: fail_unsupported_def with_conn_def with_client_def Let_def case_prod_beta, simp_all add: work_def)

text \<open>\<open>drive\<close> moves no byte between the buffers that count.\<close>

lemma seal_keeps [simp]: "cn_inbox (seal R c) = cn_inbox c" "cn_up_inbox (seal R c) = cn_up_inbox c" "cn_phase (seal R c) = cn_phase c"
  by (simp_all add: seal_def split: option.split prod.split)

definition moves_on :: "('r, 'p, 'a, 'd, 'c) conn \<times> ('r, 'p, 'a, 'd, 'c) worker \<Rightarrow> ('r, 'p, 'a, 'd, 'c) conn \<times> ('r, 'p, 'a, 'd, 'c) worker \<Rightarrow> bool" where
  "moves_on x y \<longleftrightarrow> cn_inbox (fst y) = cn_inbox (fst x) \<and> cn_up_inbox (fst y) = cn_up_inbox (fst x)
     \<and> (cn_phase (fst y) = cn_phase (fst x) \<or> cn_phase (fst y) = PhClosing)"

lemma moves_on_drive:
  "moves_on x (drive_down_write E fd x)" "moves_on x (drive_up_write E x)" "moves_on x (drive_up_read E x)" "moves_on x (drive_down_read E fd x)"
  by (cases x; simp add: moves_on_def drive_down_write_def drive_up_write_def drive_up_read_def drive_down_read_def Let_def case_prod_beta split: option.split)+

lemma work_drive: "work fd (drive E fd w) \<le> work fd w"
proof (cases "wk_slots w fd")
  case (Client c0)
  show ?thesis
  proof (cases "cn_hand_off c0")
    case True
    with Client show ?thesis
      by (simp add: drive_def with_conn_def with_client_def hand_off_conn_def Let_def)
         (simp add: work_def slots_set)
  next
    case False
    let ?x = "(seal (we_rustls E) c0, set_slot fd Taken w)"
    let ?y = "drive_down_read E fd (drive_up_read E (drive_up_write E (drive_down_write E fd ?x)))"
    have y: "cn_inbox (fst ?y) = cn_inbox c0" "cn_up_inbox (fst ?y) = cn_up_inbox c0"
      "cn_phase (fst ?y) = cn_phase c0 \<or> cn_phase (fst ?y) = PhClosing"
      using moves_on_drive(1)[of ?x E fd] moves_on_drive(2)[of "drive_down_write E fd ?x" E]
        moves_on_drive(3)[of "drive_up_write E (drive_down_write E fd ?x)" E]
        moves_on_drive(4)[of "drive_up_read E (drive_up_write E (drive_down_write E fd ?x))" E fd]
      by (simp_all add: moves_on_def) metis
    obtain c w1 where yy: "?y = (c, w1)" by fastforce
    from y have "work fd (put_client fd c w1) \<le> work fd w" unfolding yy using Client by (auto simp: work_def)
    moreover have "drive E fd w = (if cn_phase c = PhClosing \<and> \<not> cn_writing c \<and> \<not> has_pending_out c
        then close_fd E fd (on_metrics core_connection_closed (case cn_upstream c of None \<Rightarrow> put_client fd c w1
               | Some up \<Rightarrow> if cn_up_borrowed c then set_slot up Abandoned (put_client fd c w1) else close_fd E up (put_client fd c w1)))
        else put_client fd c w1)"
      using Client False by (simp add: drive_def with_conn_def with_client_def yy Let_def)
    moreover have "work fd (close_fd E fd v) = 0" for v by (simp add: work_def slots_close)
    ultimately show ?thesis by presburger
  qed
qed (simp_all add: drive_def with_conn_def with_client_def work_def)

definition held_bytes :: "raw_fd \<Rightarrow> ('r, 'p, 'a, 'd, 'c) worker \<Rightarrow> nat" where
  "held_bytes fd w = (case wk_slots w fd of Client c \<Rightarrow> length (cn_inbox c) + length (cn_up_inbox c) | _ \<Rightarrow> 0)"

lemma work_held: "work fd w \<le> Suc (held_bytes fd w)"
  by (simp add: work_def held_bytes_def split: slot.split)

lemma held_put [simp]: "held_bytes fd (put_client fd c w) = length (cn_inbox c) + length (cn_up_inbox c)"
  by (simp add: held_bytes_def)

lemma open_step_held: "open_step E now fd w = (r, w') \<Longrightarrow> held_bytes fd w' \<le> held_bytes fd w"
proof (cases "wk_slots w fd")
  case (Client c0)
  let ?c = "c0\<lparr> cn_dispatched_at := Some now, cn_deadline := Some (now + we_response_timeout E) \<rparr>"
  obtain c w1 where h: "hold_inflight (?c, set_slot fd Taken w) = (c, w1)" by fastforce
  have k: "cn_inbox c = cn_inbox c0" "cn_up_inbox c = cn_up_inbox c0"
    using hold_keeps(4,5)[of ?c "set_slot fd Taken w"] h by simp_all
  assume "open_step E now fd w = (r, w')"
  with Client k show ?thesis
    by (auto simp: open_step_def with_client_def h Let_def held_bytes_def[of fd w] split: option.splits prod.splits if_splits)
qed (auto simp: open_step_def with_client_def held_bytes_def)

lemma retry_step_held: "retry_step E fd w = (r, w') \<Longrightarrow> held_bytes fd w' \<le> held_bytes fd w"
proof (cases "wk_slots w fd")
  case (Client c0)
  obtain c w1 where h: "release_inflight (c0, set_slot fd Taken w) = (c, w1)" by fastforce
  have k: "cn_inbox c = cn_inbox c0" "cn_up_inbox c = cn_up_inbox c0"
    using release_keeps(4,5)[of c0 "set_slot fd Taken w"] h by simp_all
  assume "retry_step E fd w = (r, w')"
  with Client k show ?thesis
    by (auto simp: retry_step_def with_client_def h Let_def held_bytes_def[of fd w] split: if_splits)
qed (auto simp: retry_step_def with_client_def held_bytes_def)

lemma open_upstream_held: "open_upstream E now fd w = (True, w') \<Longrightarrow> held_bytes fd w' \<le> held_bytes fd w"
proof (induction E now fd w arbitrary: w' rule: open_upstream.induct)
  case (1 E now fd w)
  obtain r1 w1 where o: "open_step E now fd w = (r1, w1)" by fastforce
  obtain r2 w2 where s: "retry_step E fd w1 = (r2, w2)" by fastforce
  note res = 1(2)[unfolded open_upstream.simps[of E now fd w] o]
  show ?case
  proof (cases r1)
    case ORetry
    with res s have "r2 = OOpen" "open_upstream E now fd w2 = (True, w')" by (simp_all split: opened.splits)
    from 1(1)[OF o[symmetric] ORetry s[symmetric] this] open_step_held[OF o] retry_step_held[OF s]
    show ?thesis by linarith
  qed (use res open_step_held[OF o] in simp_all)
qed

lemma find_head_end_pos: "find_head_end buf h = (Inr (Some e), h') \<Longrightarrow> 4 \<le> e"
  by (auto simp: find_head_end_def Let_def split: option.splits if_splits)

lemma parse_request_head_len: "parse_request_head buf h = (Inr True, h') \<Longrightarrow> 0 < hd_len h'"
  by (auto simp: parse_request_head_def Let_def split: sum.splits option.splits prod.splits dest!: find_head_end_pos)

lemma parse_request_head_some: "parse_request_head buf h = (Inr True, h') \<Longrightarrow> buf \<noteq> []"
  by (auto simp: parse_request_head_def find_head_end_def Let_def split: sum.splits option.splits prod.splits if_splits)

lemma start_exchange_bytes:
  assumes "start_exchange E t m framing index targets (c, w) = (c', w')"
  shows "cn_inbox c' = drop (hd_len (cn_head c)) (cn_inbox c) \<and> cn_up_inbox c' = cn_up_inbox c"
proof -
  obtain head_out rng where wr: "write_upstream_request [] (cn_head c) (cn_inbox c)
      \<lparr> ho_client = cn_peer c, ho_scheme = cn_scheme c \<rparr> (hd targets) framing False (cn_upgrade c) (wk_rng w) = (head_out, rng)" by fastforce
  let ?c1 = "c\<lparr> cn_targets := targets, cn_stats_index := be_stats_index (ma_backend m), cn_endpoint_index := index,
      cn_endpoint_count := length (be_endpoints (ma_backend m)), cn_replayable := (framing = Empty), cn_attempt := 0,
      cn_request_head := head_out \<rparr>"
  obtain c2 w2 where p: "plan_mirror E t (ma_mirror m) framing (?c1, w\<lparr> wk_rng := rng \<rparr>) = (c2, w2)" by fastforce
  obtain c3 w3 where s: "(if body_is_done (cn_request_body c2) then send_mirror E (c2, w2) else (c2, w2)) = (c3, w3)" by fastforce
  have "cn_inbox c2 = cn_inbox c" "cn_up_inbox c2 = cn_up_inbox c" "cn_head c2 = cn_head c"
    using pairs_keep_conn(9-11)[of E t "ma_mirror m" framing ?c1 "w\<lparr> wk_rng := rng \<rparr>"] unfolding p by simp_all
  moreover have "cn_inbox c3 = cn_inbox c2" "cn_up_inbox c3 = cn_up_inbox c2" "cn_head c3 = cn_head c2"
    using s by (auto simp: send_mirror_def split: if_splits option.splits)
  ultimately show ?thesis using assms by (simp add: start_exchange_def wr p s Let_def) auto
qed

lemma route_matched_held:
  assumes "route_matched E now fd t framing m c w = (True, w')" "0 < hd_len (cn_head c)" "cn_inbox c \<noteq> []"
  shows "held_bytes fd w' < length (cn_inbox c) + length (cn_up_inbox c)"
proof -
  let ?c = "c\<lparr> cn_route_stats := ma_route m, cn_canaried := ma_canaried m \<rparr>"
  obtain hp picked rng where f: "first_endpoint (wk_heap w) t (ma_backend m) (wk_rng w) = ((hp, picked), rng)" by (metis prod.collapse)
  from assms(1) obtain index ep where i: "picked = Some (index, ep)"
    by (cases picked) (auto simp: route_matched_def f Let_def split: if_splits)
  let ?w1 = "w\<lparr> wk_heap := hp, wk_rng := rng \<rparr>"
  let ?ts = "targets_of (ma_backend m) index (attempts_allowed framing (length (be_endpoints (ma_backend m))) (we_max_connect_attempts E))"
  obtain c1 w2 where s: "start_exchange E t m framing index ?ts (?c, ?w1) = (c1, w2)" by fastforce
  from assms(1) have "open_upstream E now fd (put_client fd c1 w2) = (True, w')"
    by (simp add: route_matched_def f i s Let_def split: if_splits)
  from open_upstream_held[OF this] start_exchange_bytes[OF s] assms(2,3) show ?thesis
    by (cases "cn_inbox c") (auto simp: le_less_trans)
qed

lemma parse_request_work:
  assumes "parse_request E now fd w = (True, w')" "wk_slots w fd = Client c" "cn_phase c = PhHead"
  shows "work fd w' < work fd w"
proof -
  obtain r h where ph: "parse_request_head (cn_inbox c) (cn_head c) = (r, h)" by fastforce
  let ?c = "c\<lparr> cn_head := h \<rparr>"
  let ?w = "put_client fd ?c (set_slot fd Taken w)"
  from assms(1,2) ph have r: "r = Inr True" "route_request E now fd ?w = (True, w')"
    by (auto simp: parse_request_def with_client_def split: if_splits sum.splits bool.splits)
  note pos = parse_request_head_len[OF ph[unfolded r(1)]] parse_request_head_some[OF ph[unfolded r(1)]]
  from r(2) obtain framing c1 w1 m t where "route_matched E now fd t framing m c1 w1 = (True, w')"
    "cn_inbox c1 = cn_inbox c" "cn_up_inbox c1 = cn_up_inbox c" "cn_head c1 = h"
    unfolding route_request_def with_client_def
    by (simp add: Let_def split: sum.splits start_line.splits prod.splits option.splits)
  with route_matched_held[of E now fd t framing m c1 w1 w'] pos
  have "held_bytes fd w' < length (cn_inbox c) + length (cn_up_inbox c)" by simp
  with work_held[of fd w'] assms(2,3) show ?thesis by (simp add: work_def[of fd w])
qed

lemma take_latency_keeps [simp]:
  "cn_up_head (fst (take_latency E now (c, w))) = cn_up_head c"
  by (simp add: take_latency_def split: option.split)

lemma finish_work:
  assumes "wk_slots w fd = Client c" "cn_up_inbox c = u"
  shows "work fd (finish_response E now fd w) \<le> Suc (length (cn_inbox c))"
proof -
  obtain c1 w1 where r: "release_inflight (c, set_slot fd Taken w) = (c1, w1)" by fastforce
  have "cn_inbox c1 = cn_inbox c" using release_keeps(4)[of c "set_slot fd Taken w"] r by simp
  then show ?thesis using assms(1)
    by (simp add: finish_response_def with_conn_def with_client_def r Let_def conn_reset_def without_upstream_def)
qed

lemma end_truncated_work: "work fd (end_truncated E fd w) = 0"
proof (cases "wk_slots w fd")
  case (Client c)
  have "work fd (drop_upstream E fd (c\<lparr> cn_phase := PhClosing \<rparr>) v) = 0" for v
    using work_close[of fd E _ "put_client fd (c\<lparr> cn_phase := PhClosing, cn_upstream := None \<rparr>) v"]
    by (simp add: drop_upstream_def split: option.split)
  then show ?thesis using work_drive[of fd E] Client
    by (simp add: end_truncated_def with_conn_def with_client_def) (metis le_zero_eq)
qed (simp_all add: end_truncated_def with_conn_def with_client_def work_def)

lemma drive_fail_work: "work fd (drive E fd (fail E fd status body True w)) = 0"
  using work_drive[of fd E "fail E fd status body True w"] by (simp add: fail_def fail_closing)

lemma garbage_work: "work fd (upstream_garbage E fd w) = 0"
  by (cases "wk_slots w fd") (simp_all add: upstream_garbage_def end_truncated_work drive_fail_work, simp_all add: work_def)

lemma relay_body_work:
  assumes "relay_body E now fd c w = (b, w')" "cn_phase c \<noteq> PhClosing"
  shows "work fd w' \<le> Suc (length (cn_inbox c) + length (cn_up_inbox c))
    \<and> (b \<longrightarrow> cn_up_inbox c = [] \<or> work fd w' < Suc (length (cn_inbox c) + length (cn_up_inbox c)))"
proof -
  have fin: "work fd (finish_response E now fd (put_client fd c1 w)) \<le> Suc (length (cn_inbox c1))" for c1
    by (rule finish_work[OF _ refl]) simp
  show ?thesis
  proof (cases "\<not> body_is_done (cn_response_body c) \<and> cn_up_inbox c \<noteq> []")
    case True
    then obtain x xs where u: "cn_up_inbox c = x # xs" by (cases "cn_up_inbox c") auto
    show ?thesis
    proof (cases "body_take (cn_response_body c) (cn_up_inbox c)")
      case (Inl e)
      with assms(1) True garbage_work[of fd E "put_client fd c w"] u show ?thesis
        by (auto simp: relay_body_def)
    next
      case (Inr r)
      obtain n over bl where r: "r = ((n, over), bl)" by (metis prod.collapse)
      let ?c = "c\<lparr> cn_outbox := cn_outbox c @ take n (cn_up_inbox c), cn_up_inbox := drop n (cn_up_inbox c),
                   cn_response_body := (if over then BodyDone else bl) \<rparr>"
      from assms(1) True Inr r have e: "(if cn_response_head_seen ?c \<and> body_is_done (cn_response_body ?c)
           then (True, finish_response E now fd (put_client fd ?c w)) else (0 < n, put_client fd ?c w)) = (b, w')"
        unfolding relay_body_def Let_def by simp
      show ?thesis
      proof (cases "cn_response_head_seen ?c \<and> body_is_done (cn_response_body ?c)")
        case True
        with e fin[of ?c] u show ?thesis by auto
      next
        case False
        with e u assms(2) show ?thesis by auto
      qed
    qed
  next
    case False
    from assms(1) False have e: "(if cn_response_head_seen c \<and> body_is_done (cn_response_body c)
           then (True, finish_response E now fd (put_client fd c w)) else (False, put_client fd c w)) = (b, w')"
      unfolding relay_body_def Let_def by (simp split: if_splits)
    show ?thesis
    proof (cases "cn_response_head_seen c \<and> body_is_done (cn_response_body c)")
      case True
      with e fin[of c] show ?thesis by (cases "cn_up_inbox c") auto
    next
      case False
      with e assms(2) show ?thesis by auto
    qed
  qed
qed

lemma parse_response_head_len: "parse_response_head buf h = (Inr True, h') \<Longrightarrow> 0 < hd_len h'"
  by (auto simp: parse_response_head_def Let_def split: sum.splits option.splits prod.splits dest!: find_head_end_pos)

lemma accept_keeps:
  assumes "accept_response E now framing (c, w) = (c', w')"
  shows "cn_inbox c' = cn_inbox c \<and> cn_up_inbox c' = drop (hd_len (cn_up_head c)) (cn_up_inbox c) \<and> cn_phase c' = PhRelaying"
proof -
  obtain c1 w1 where l: "take_latency E now (c, w) = (c1, w1)" by fastforce
  have k: "cn_inbox c1 = cn_inbox c" "cn_up_inbox c1 = cn_up_inbox c" "cn_up_head c1 = cn_up_head c"
    using pairs_keep_conn(1,2)[of E now c w] take_latency_keeps[of E now c w] unfolding l by simp_all
  from assms show ?thesis
    unfolding accept_response_def l Let_def prod.case
    by (auto simp: k conn_response_def split: if_splits)
qed

lemma begin_tunnel_work:
  assumes "wk_slots w fd = Client c"
  shows "work fd (begin_tunnel E now fd w) \<le> 1"
proof (cases "cn_upgrade c")
  case None
  with assms show ?thesis
    by (simp add: begin_tunnel_def with_conn_def with_client_def drive_fail_work)
next
  case (Some asked)
  with assms show ?thesis
    by (simp add: begin_tunnel_def with_conn_def with_client_def Let_def case_prod_beta)
       (simp add: conn_response_def take_latency_def split: option.split)
qed

lemma parse_response_work:
  assumes "parse_response E now fd w = (b, w')"
    and "wk_slots w fd = Client c" "cn_phase c \<noteq> PhClosing"
  shows "work fd w' \<le> work fd w \<and> (b \<longrightarrow> work fd w' < work fd w)"
proof (cases "cn_up_inbox c = []")
  case True
  with assms show ?thesis by (auto simp: parse_response_def with_client_def work_def[of fd w])
next
  case False
  have w: "work fd w = Suc (length (cn_inbox c) + length (cn_up_inbox c))" using assms(2,3) by (simp add: work_def)
  show ?thesis
  proof (cases "cn_response_head_seen c")
    case True
    with assms False have "relay_body E now fd c (set_slot fd Taken w) = (b, w')"
      by (simp add: parse_response_def with_client_def)
    from relay_body_work[OF this assms(3)] False w show ?thesis by auto
  next
    case nseen: False
    obtain r h where ph: "parse_response_head (cn_up_inbox c) (cn_up_head c) = (r, h)" by fastforce
    let ?c = "c\<lparr> cn_up_head := h \<rparr>" and ?w = "set_slot fd Taken w"
    consider (wait) "r = Inr False" | (bad) e where "r = Inl e" | (full) "r = Inr True"
      by (metis (full_types) old.sum.exhaust)
    then show ?thesis
    proof cases
      case wait
      with assms False nseen ph show ?thesis by (auto simp: parse_response_def with_client_def w)
    next
      case bad
      with assms False nseen ph garbage_work[of fd E "put_client fd ?c ?w"] show ?thesis
        by (auto simp: parse_response_def with_client_def w)
    next
      case full
      note pos = parse_response_head_len[OF ph[unfolded full]]
      show ?thesis
      proof (cases "is_switching_protocols h")
        case True
        with assms False nseen ph full have "w' = begin_tunnel E now fd (put_client fd ?c ?w)"
          by (simp add: parse_response_def with_client_def)
        then show ?thesis
          using begin_tunnel_work[of "put_client fd ?c ?w" fd ?c E now] w False by (cases "cn_up_inbox c") simp_all
      next
        case nswitch: False
        show ?thesis
        proof (cases "response_framing h (cn_up_inbox c) (cn_method_was_head c)")
          case (Inl e)
          with assms False nseen ph full nswitch garbage_work[of fd E "put_client fd ?c ?w"] show ?thesis
            by (auto simp: parse_response_def with_client_def w)
        next
          case (Inr framing)
          obtain c2 w2 where a: "accept_response E now framing (?c, ?w) = (c2, w2)" by fastforce
          from assms False nseen ph full nswitch Inr a have "relay_body E now fd c2 w2 = (b, w')"
            by (simp add: parse_response_def with_client_def)
          from relay_body_work[OF this] accept_keeps[OF a] pos False w show ?thesis
            by (cases "cn_up_inbox c") auto
        qed
      qed
    qed
  qed
qed

lemma fail_codec_work: "work fd (fail_codec E fd e w) = 0"
  by (simp add: fail_codec_def fail_def fail_closing)

lemma pump_go_work:
  assumes "(if \<not> body_is_done (cn_request_body c) \<and> cn_client_eof c \<and> cn_inbox c = []
      then (False, fail E fd 400 EARLY_END True (put_client fd c w))
      else (let (moved, w') = parse_response E now fd (put_client fd c w) in (moved \<or> progressed, w'))) = (b, w2)"
    and "cn_phase c \<noteq> PhClosing"
  shows "work fd w2 \<le> Suc (length (cn_inbox c) + length (cn_up_inbox c))
    \<and> (b \<and> \<not> progressed \<longrightarrow> work fd w2 < Suc (length (cn_inbox c) + length (cn_up_inbox c)))"
proof (cases "\<not> body_is_done (cn_request_body c) \<and> cn_client_eof c \<and> cn_inbox c = []")
  case True
  with assms(1) show ?thesis by (auto simp: fail_def fail_closing)
next
  case False
  obtain moved w' where p: "parse_response E now fd (put_client fd c w) = (moved, w')" by fastforce
  from parse_response_work[OF p set_slot_same assms(2)] assms False p show ?thesis by auto
qed

lemma pump_bodies_work:
  assumes "pump_bodies E now fd w = (True, w')" "wk_slots w fd = Client c" "cn_phase c \<noteq> PhClosing"
  shows "work fd w' < work fd w"
proof -
  have w: "work fd w = Suc (length (cn_inbox c) + length (cn_up_inbox c))" using assms(2,3) by (simp add: work_def)
  let ?w = "set_slot fd Taken w"
  show ?thesis
  proof (cases "\<not> body_is_done (cn_request_body c) \<and> cn_inbox c \<noteq> []")
    case True
    show ?thesis
    proof (cases "body_take (cn_request_body c) (cn_inbox c)")
      case (Inl e)
      with assms True show ?thesis by (simp add: pump_bodies_def with_client_def)
    next
      case (Inr r)
      obtain n over bl where r: "r = ((n, over), bl)" by (metis prod.collapse)
      let ?bs = "take n (cn_inbox c)"
      let ?c2 = "(mirror_body E ?bs (c\<lparr> cn_up_outbox := cn_up_outbox c @ ?bs, cn_request_body := bl \<rparr>))\<lparr> cn_inbox := drop n (cn_inbox c) \<rparr>"
      obtain c3 w3 where s: "(if over then send_mirror E (?c2\<lparr> cn_request_body := BodyDone \<rparr>, ?w) else (?c2, ?w)) = (c3, w3)" by fastforce
      have k: "cn_inbox c3 = drop n (cn_inbox c)" "cn_up_inbox c3 = cn_up_inbox c" "cn_phase c3 = cn_phase c"
        using s by (auto simp: send_mirror_def split: if_splits option.splits)
      have go: "(if \<not> body_is_done (cn_request_body c3) \<and> cn_client_eof c3 \<and> cn_inbox c3 = []
          then (False, fail E fd 400 EARLY_END True (put_client fd c3 w3))
          else (let (moved, w') = parse_response E now fd (put_client fd c3 w3) in (moved \<or> 0 < n, w'))) = (True, w')"
        using assms(1,2) True by (simp add: pump_bodies_def with_client_def Inr r Let_def s)
      from pump_go_work[OF go] k assms(3) True w show ?thesis by (cases "n = 0"; cases "cn_inbox c") auto
    qed
  next
    case False
    have go: "(if \<not> body_is_done (cn_request_body c) \<and> cn_client_eof c \<and> cn_inbox c = []
          then (False, fail E fd 400 EARLY_END True (put_client fd c ?w))
          else (let (moved, w') = parse_response E now fd (put_client fd c ?w) in (moved \<or> False, w'))) = (True, w')"
      using assms(1,2) False by (auto simp: pump_bodies_def with_client_def Let_def)
    from pump_go_work[OF go assms(3)] w show ?thesis by simp
  qed
qed

lemma pump_tunnel_work:
  assumes "pump_tunnel E fd w = (True, w')" "wk_slots w fd = Client c" "cn_phase c \<noteq> PhClosing"
  shows "work fd w' < work fd w"
  using assms
  by (auto simp: pump_tunnel_def with_client_def Let_def case_prod_beta work_def[of fd w] split: option.splits if_splits)

text \<open>The measure: every turn of the loop moves a byte, ends an exchange or consumes a head.\<close>

function advance :: "('r, 'p, 'a, 'd, 'c, 'f) wenv \<Rightarrow> nat \<Rightarrow> raw_fd \<Rightarrow> ('r, 'p, 'a, 'd, 'c) worker \<Rightarrow> ('r, 'p, 'a, 'd, 'c) worker" where
  "advance E now fd w =
     (case wk_slots w fd of
        Client c \<Rightarrow>
          (if cn_phase c = PhHead then
             (case parse_request E now fd w of
                (True, w1) \<Rightarrow> drive E fd (advance E now fd w1)
              | (False, w1) \<Rightarrow> drive E fd w1)
           else if cn_phase c = PhConnecting \<or> cn_phase c = PhClosing then drive E fd w
           else
             (case (if cn_phase c = PhTunnel then pump_tunnel E fd w else pump_bodies E now fd w) of
                (True, w1) \<Rightarrow> advance E now fd w1
              | (False, w1) \<Rightarrow> drive E fd w1))
      | _ \<Rightarrow> w)"
  by pat_completeness auto
termination
proof (relation "measure (\<lambda>(E, now, fd, w). work fd w)", goal_cases)
  case (2 E now fd w c b w1)
  then show ?case using parse_request_work[of E now fd w w1 c] by auto
next
  case (3 E now fd w c b w1)
  then show ?case using pump_tunnel_work[of E fd w w1 c] pump_bodies_work[of E now fd w w1 c]
    by (auto split: if_splits)
qed simp

declare advance.simps [simp del]

text \<open>What the callers of \<open>open_upstream\<close> outside \<open>advance\<close> do with its answer.\<close>

definition advance_if :: "('r, 'p, 'a, 'd, 'c, 'f) wenv \<Rightarrow> nat \<Rightarrow> raw_fd \<Rightarrow> bool \<times> ('r, 'p, 'a, 'd, 'c) worker \<Rightarrow> ('r, 'p, 'a, 'd, 'c) worker" where
  "advance_if E now fd r = (if fst r then advance E now fd (snd r) else snd r)"

end
