(* ===== verification/Helper.thy ===== *)
theory Helper
  imports Pool "HOL-Library.Multiset"
begin

text \<open>
  The thread that waits for connects, \<open>crates/ramjet-engine/src/helper.rs\<close>: the notes it writes into
  a core's pipe, the reader that reassembles them, and one turn of its loop over what \<open>poll\<close>
  reported. \<open>poll\<close>, \<open>SO_ERROR\<close>, the job channel and the outcome of each write are parameters;
  error numbers are Linux's.
\<close>

section \<open>Notes\<close>

definition NOTE_LEN :: nat where "NOTE_LEN = 12"

datatype pipe_note = Tick | Connected raw_fd int

definition to_le :: "u32 \<Rightarrow> bytes" where
  "to_le w = map (\<lambda>i. char_of (unat w div 256 ^ i mod 256)) [0..<4]"

definition from_le :: "bytes \<Rightarrow> u32" where
  "from_le bs = of_nat (foldr (\<lambda>c n. byte_val c + 256 * n) bs 0)"

fun note_encode :: "pipe_note \<Rightarrow> bytes" where
  "note_encode Tick = to_le 0 @ to_le 0 @ to_le 0"
| "note_encode (Connected fd err) = to_le (word_of_int fd) @ to_le 1 @ to_le (word_of_int err)"

definition note_decode :: "bytes \<Rightarrow> pipe_note option" where
  "note_decode bs =
     (if length bs < NOTE_LEN then None
      else let fd = sint (from_le (take 4 bs)); kind = from_le (take 4 (drop 4 bs)); err = sint (from_le (take 4 (drop 8 bs)))
           in Some (if kind = 1 then Connected fd err else Tick))"

text \<open>The loop over a partial note completed by a read.\<close>

function drain_notes :: "bytes \<Rightarrow> pipe_note list \<times> bytes" where
  "drain_notes partial =
     (if length partial < NOTE_LEN then ([], partial)
      else let (notes, rest) = drain_notes (drop NOTE_LEN partial)
           in (case note_decode (take NOTE_LEN partial) of Some n \<Rightarrow> n # notes | None \<Rightarrow> notes, rest))"
  by pat_completeness auto
termination by (relation "measure length") (auto simp: NOTE_LEN_def)

declare drain_notes.simps [simp del]

definition note_feed :: "bytes \<Rightarrow> bytes \<Rightarrow> pipe_note list \<times> bytes" where
  "note_feed partial bs =
     (if partial \<noteq> [] then drain_notes (partial @ bs)
      else let whole = length bs div NOTE_LEN * NOTE_LEN
           in (concat (map (\<lambda>i. case note_decode (take NOTE_LEN (drop (i * NOTE_LEN) bs)) of Some n \<Rightarrow> [n] | None \<Rightarrow> [])
                  [0..<length bs div NOTE_LEN]),
               drop whole bs))"

section \<open>One turn\<close>

record job =
  jo_fd :: raw_fd
  jo_core :: nat
  jo_deadline :: nat

record revents =
  rv_in :: bool
  rv_out :: bool
  rv_err :: bool
  rv_hup :: bool
  rv_nval :: bool

definition no_events :: revents where
  "no_events = \<lparr> rv_in = False, rv_out = False, rv_err = False, rv_hup = False, rv_nval = False \<rparr>"

record helper =
  he_pending :: "job list"
  he_backlog :: "bytes list list"
  he_next_tick :: nat

text \<open>What is polled: the wake pipe, the pending sockets, the pipes that owe something.\<close>

definition poll_fds :: "raw_fd \<Rightarrow> raw_fd list \<Rightarrow> helper \<Rightarrow> raw_fd list" where
  "poll_fds wake writers s =
     [wake] @ map jo_fd (he_pending s)
     @ map fst (filter (\<lambda>(_, queue). queue \<noteq> []) (zip writers (he_backlog s)))"

definition poll_timeout :: "nat \<Rightarrow> helper \<Rightarrow> nat" where
  "poll_timeout now s =
     (let wait = fold (\<lambda>job wait. min wait (jo_deadline job - now)) (he_pending s) (he_next_tick s - now)
      in min (wait div 1000000) 1000)"

definition push_note :: "nat \<Rightarrow> pipe_note \<Rightarrow> helper \<Rightarrow> helper" where
  "push_note core n s = s\<lparr> he_backlog := (he_backlog s)[core := he_backlog s ! core @ [note_encode n]] \<rparr>"

text \<open>How a connect ended. \<open>SO_ERROR\<close> is a code, or an error with its number when it has one.\<close>

definition connect_error :: "(raw_fd \<Rightarrow> int option + int) \<Rightarrow> raw_fd \<Rightarrow> revents \<Rightarrow> bool \<Rightarrow> int" where
  "connect_error socket_error fd ev timed_out =
     (if rv_nval ev then 9
      else if timed_out \<and> ev = no_events then 110
      else case socket_error fd of
             Inr code \<Rightarrow> if code = 0 \<and> (rv_err ev \<or> rv_hup ev) then 104 else code
           | Inl number \<Rightarrow> opt_or 5 number)"

definition swap_remove :: "nat \<Rightarrow> 'x list \<Rightarrow> 'x list" where
  "swap_remove i xs = (if i = length xs - 1 then butlast xs else (butlast xs)[i := last xs])"

text \<open>The walk over the jobs \<open>i - 1, ..., 0\<close>; \<open>events\<close> is what \<open>poll\<close> said, by position.\<close>

fun retire :: "(raw_fd \<Rightarrow> int option + int) \<Rightarrow> nat \<Rightarrow> revents list \<Rightarrow> nat \<Rightarrow> helper \<Rightarrow> helper" where
  "retire socket_error now events 0 s = s"
| "retire socket_error now events (Suc i) s =
     (let ev = opt_or no_events (get_at events (i + 1));
          job = he_pending s ! i;
          timed_out = (jo_deadline job \<le> now)
      in retire socket_error now events i
           (if ev = no_events \<and> \<not> timed_out then s
            else push_note (jo_core job) (Connected (jo_fd job) (connect_error socket_error (jo_fd job) ev timed_out))
                   (s\<lparr> he_pending := swap_remove i (he_pending s) \<rparr>)))"

definition add_ticks :: "nat \<Rightarrow> nat \<Rightarrow> helper \<Rightarrow> helper" where
  "add_ticks now tick s =
     (if he_next_tick s \<le> now
      then s\<lparr> he_next_tick := now + tick,
              he_backlog := map (\<lambda>queue. if queue = [] then [note_encode Tick] else queue) (he_backlog s) \<rparr>
      else s)"

datatype written = WroteAll | WrotePart | WouldBlock | WriteError

text \<open>One core's queue: what is written to its pipe and what stays. \<open>outcome\<close> answers the n-th write.\<close>

function flush_queue :: "(nat \<Rightarrow> written) \<Rightarrow> bool \<Rightarrow> nat \<Rightarrow> nat \<Rightarrow> bytes list \<Rightarrow> bytes \<times> bytes list" where
  "flush_queue outcome blocking n attempts queue =
     (case queue of
        [] \<Rightarrow> ([], [])
      | front # rest \<Rightarrow>
          (case outcome n of
             WroteAll \<Rightarrow> (let (out, left) = flush_queue outcome blocking (Suc n) attempts rest in (front @ out, left))
           | WrotePart \<Rightarrow> ([], [])
           | WouldBlock \<Rightarrow> if \<not> blocking \<or> attempts + 1 > 100 then ([], queue)
                           else flush_queue outcome blocking (Suc n) (attempts + 1) queue
           | WriteError \<Rightarrow> ([], [])))"
  by pat_completeness auto
termination
  by (relation "measures [\<lambda>(outcome, blocking, n, attempts, queue). length queue,
                          \<lambda>(outcome, blocking, n, attempts, queue). 101 - attempts]") auto

declare flush_queue.simps [simp del]

text \<open>All the queues, one after the other; \<open>outcome core\<close> answers the writes to that core's pipe.\<close>

definition flush_all :: "(nat \<Rightarrow> nat \<Rightarrow> written) \<Rightarrow> bool \<Rightarrow> bytes list list \<Rightarrow> bytes list \<times> bytes list list" where
  "flush_all outcome blocking backlog =
     (let done = map (\<lambda>(core, queue). flush_queue (outcome core) blocking 0 0 queue) (List.enumerate 0 backlog)
      in (map fst done, map snd done))"

text \<open>A turn after \<open>poll\<close> has returned: the jobs received, whether to stop, and the walk.\<close>

definition turn ::
    "(raw_fd \<Rightarrow> int option + int) \<Rightarrow> revents list \<Rightarrow> job list \<Rightarrow> bool \<Rightarrow> nat \<Rightarrow> nat \<Rightarrow> helper \<Rightarrow> bool \<times> helper" where
  "turn socket_error events received disconnected now tick s =
     (let wake = opt_or no_events (get_at events 0);
          s1 = s\<lparr> he_pending := he_pending s @ received \<rparr>
      in if rv_hup wake \<or> rv_err wake \<or> rv_nval wake \<or> disconnected
         then (True, fold (\<lambda>job s. push_note (jo_core job) (Connected (jo_fd job) 125) s) (he_pending s1) (s1\<lparr> he_pending := [] \<rparr>))
         else (False, add_ticks now tick (retire socket_error now events (length (he_pending s1)) s1)))"

text \<open>The turn with its writes: what each pipe received, whether the thread ends, what it keeps.\<close>

definition turn_and_flush where
  "turn_and_flush socket_error outcome events received disconnected now tick s =
     (let (stopping, s1) = turn socket_error events received disconnected now tick s;
          (sent, left) = flush_all outcome stopping (he_backlog s1)
      in (sent, stopping, s1\<lparr> he_backlog := left \<rparr>))"

section \<open>Notes survive the pipe\<close>

lemma to_le_length [simp]: "length (to_le w) = 4" by (simp add: to_le_def)

lemma base256_roundtrip:
  "n < 256 ^ k \<Longrightarrow>
   foldr (\<lambda>c n. byte_val c + 256 * n) (map (\<lambda>i. char_of (n div 256 ^ i mod 256)) [0..<k]) 0 = n"
proof (induction k arbitrary: n)
  case (Suc k)
  have *: "map (\<lambda>i. char_of (n div 256 ^ i mod 256)) [0..<Suc k]
    = char_of (n mod 256) # map (\<lambda>i. char_of (n div 256 div 256 ^ i mod 256) :: char) [0..<k]"
    by (simp add: upt_conv_Cons map_Suc_upt [symmetric] div_mult2_eq comp_def del: upt_Suc)
  have "n div 256 < 256 ^ k" using Suc.prems by (simp add: less_mult_imp_div_less mult.commute)
  from Suc.IH [OF this] show ?case unfolding * by simp
qed simp

lemma from_le_to_le [simp]: "from_le (to_le w) = w"
proof -
  have "unat w < 256 ^ 4" using unsigned_less [of w] by simp
  from base256_roundtrip [OF this] show ?thesis by (simp add: from_le_def to_le_def)
qed

fun note_ok :: "pipe_note \<Rightarrow> bool" where
  "note_ok Tick \<longleftrightarrow> True"
| "note_ok (Connected fd err) \<longleftrightarrow> - (2 ^ 31) \<le> fd \<and> fd < 2 ^ 31 \<and> - (2 ^ 31) \<le> err \<and> err < 2 ^ 31"

lemma sint_in_range: "- (2 ^ 31) \<le> i \<Longrightarrow> i < 2 ^ 31 \<Longrightarrow> sint (word_of_int i :: u32) = i"
  by (simp add: signed_of_int signed_take_bit_int_eq_self)

lemma note_encode_length [simp]: "length (note_encode n) = NOTE_LEN"
  by (cases n) (simp_all add: NOTE_LEN_def)

lemma note_decode_encode [simp]: "note_ok n \<Longrightarrow> note_decode (note_encode n) = Some n"
  by (cases n) (simp_all add: note_decode_def NOTE_LEN_def sint_in_range Let_def)

lemma NOTE_LEN_pos [simp]: "0 < NOTE_LEN" by (simp add: NOTE_LEN_def)

lemma NOTE_LEN_nonzero [simp]: "NOTE_LEN \<noteq> 0" by (simp add: NOTE_LEN_def)

text \<open>The whole notes of a read are split as the loop over a partial note splits them.\<close>

lemma drain_notes_chunks:
  "drain_notes bs =
     (concat (map (\<lambda>i. case note_decode (take NOTE_LEN (drop (i * NOTE_LEN) bs)) of Some n \<Rightarrow> [n] | None \<Rightarrow> [])
        [0..<length bs div NOTE_LEN]),
      drop (length bs div NOTE_LEN * NOTE_LEN) bs)"
proof (induction bs rule: drain_notes.induct)
  case (1 bs)
  show ?case
  proof (cases "length bs < NOTE_LEN")
    case True
    then show ?thesis by (subst drain_notes.simps) simp
  next
    case False
    then have q: "length bs div NOTE_LEN = Suc (length (drop NOTE_LEN bs) div NOTE_LEN)"
      by (simp add: le_div_geq)
    show ?thesis
      using 1 [OF False] False unfolding q
      by (subst drain_notes.simps)
         (simp add: upt_conv_Cons map_Suc_upt [symmetric] comp_def add.commute del: upt_Suc split: option.splits)
  qed
qed

lemma drain_notes_rest: "length (snd (drain_notes bs)) < NOTE_LEN"
  by (simp add: drain_notes_chunks minus_div_mult_eq_mod)

lemma note_feed_drain: "note_feed partial bs = drain_notes (partial @ bs)"
  by (simp add: note_feed_def drain_notes_chunks Let_def)

text \<open>What the drain leaves is less than a note, and extra input takes up where it stopped.\<close>

lemma drain_notes_append:
  "drain_notes bs = (ns, rest) \<Longrightarrow>
   drain_notes (bs @ extra) = (ns @ fst (drain_notes (rest @ extra)), snd (drain_notes (rest @ extra)))"
proof (induction bs arbitrary: ns rest rule: drain_notes.induct)
  case (1 bs)
  show ?case
  proof (cases "length bs < NOTE_LEN")
    case True
    then show ?thesis using 1(2) by (simp add: drain_notes.simps [of bs])
  next
    case False
    obtain ns' where *: "drain_notes (drop NOTE_LEN bs) = (ns', rest)"
        "ns = (case note_decode (take NOTE_LEN bs) of Some n \<Rightarrow> n # ns' | None \<Rightarrow> ns')"
      using 1(2) False by (subst (asm) drain_notes.simps) (auto split: prod.splits option.splits)
    show ?thesis
      using 1(1) [OF False *(1)] *(2) False
      by (subst drain_notes.simps) (simp split: option.splits)
  qed
qed

text \<open>The reader over a run of reads.\<close>

definition feed_reads :: "bytes list \<Rightarrow> pipe_note list \<times> bytes" where
  "feed_reads reads =
     fold (\<lambda>bs (ns, partial). let (extra, rest) = note_feed partial bs in (ns @ extra, rest)) reads ([], [])"

lemma feed_reads_from:
  "fold (\<lambda>bs (ns, partial). let (extra, rest) = note_feed partial bs in (ns @ extra, rest)) reads (ns, partial)
   = (ns @ fst (drain_notes (partial @ concat reads)), snd (drain_notes (partial @ concat reads)))"
  if "length partial < NOTE_LEN"
  using that
proof (induction reads arbitrary: ns partial)
  case Nil
  then show ?case by (simp add: drain_notes.simps [of partial])
next
  case (Cons bs reads)
  obtain extra rest where *: "drain_notes (partial @ bs) = (extra, rest)" by fastforce
  have "length rest < NOTE_LEN"
    using drain_notes_rest [of "partial @ bs"] * by simp
  from Cons.IH [OF this] drain_notes_append [OF *, of "concat reads"] *
  show ?case by (simp add: note_feed_drain)
qed

lemma drain_encoded: "list_all note_ok ns \<Longrightarrow> drain_notes (concat (map note_encode ns)) = (ns, [])"
proof (induction ns)
  case (Cons n ns)
  then show ?case by (subst drain_notes.simps) simp
qed (simp add: drain_notes.simps)

declare note_encode.simps [simp del]

text \<open>C31. \<open>NoteReader::feed\<close>: however the pipe splits the notes the helper wrote, a core reads exactly
those notes, in order, and keeps no partial note at the end.\<close>

theorem notes_survive_any_split:
  assumes "list_all note_ok ns" "concat reads = concat (map note_encode ns)"
  shows "feed_reads reads = (ns, [])"
  using feed_reads_from [where partial = "[]" and ns = "[]" and reads = reads] assms by (simp add: feed_reads_def drain_encoded)

theorem notes_survive_any_split_witness:
  "feed_reads [take 5 (note_encode (Connected 9 61)), drop 5 (note_encode (Connected 9 61) @ note_encode Tick)]
   = ([Connected 9 61, Tick], [])"
  by (rule notes_survive_any_split) (simp_all add: note_encode.simps)

section \<open>A note for every job\<close>

text \<open>The descriptors a queued note is about, and everything the helper holds: the sockets it watches
and the ones whose note is still queued.\<close>

fun note_fds :: "pipe_note option \<Rightarrow> raw_fd list" where
  "note_fds (Some (Connected fd err)) = [fd]"
| "note_fds _ = []"

definition queued_fds :: "bytes list \<Rightarrow> raw_fd multiset" where
  "queued_fds queue = mset (concat (map (\<lambda>b. note_fds (note_decode b)) queue))"

definition holds :: "helper \<Rightarrow> raw_fd multiset" where
  "holds s = mset (map jo_fd (he_pending s)) + sum_list (map queued_fds (he_backlog s))"

definition job_ok :: "nat \<Rightarrow> job \<Rightarrow> bool" where
  "job_ok cores job \<longleftrightarrow> jo_core job < cores \<and> - (2 ^ 31) \<le> jo_fd job \<and> jo_fd job < 2 ^ 31"

definition errors_ok :: "(raw_fd \<Rightarrow> int option + int) \<Rightarrow> bool" where
  "errors_ok socket_error \<longleftrightarrow>
     (\<forall>fd. case socket_error fd of Inr code \<Rightarrow> - (2 ^ 31) \<le> code \<and> code < 2 ^ 31
                                | Inl number \<Rightarrow> - (2 ^ 31) \<le> opt_or 5 number \<and> opt_or 5 number < 2 ^ 31)"

lemma connect_error_range:
  assumes "errors_ok socket_error"
  shows "- (2 ^ 31) \<le> connect_error socket_error fd ev timed_out \<and> connect_error socket_error fd ev timed_out < 2 ^ 31"
  using assms [unfolded errors_ok_def, rule_format, of fd]
  by (cases "socket_error fd") (auto simp: connect_error_def)

lemma queued_fds_snoc [simp]: "queued_fds (queue @ [b]) = queued_fds queue + mset (note_fds (note_decode b))"
  by (simp add: queued_fds_def)

lemma sum_list_update_add:
  "i < length xs \<Longrightarrow> f y = f (xs ! i) + d \<Longrightarrow> sum_list (map f (xs[i := y])) = sum_list (map f xs) + (d :: 'x multiset)"
  by (induction xs arbitrary: i) (auto split: nat.splits simp: nth_Cons)

lemma holds_push_note:
  "core < length (he_backlog s) \<Longrightarrow> note_ok (Connected fd err) \<Longrightarrow>
   holds (push_note core (Connected fd err) s) = add_mset fd (holds s)"
  by (simp add: holds_def push_note_def sum_list_update_add [where d = "{#fd#}"])

lemma push_note_simps [simp]:
  "he_pending (push_note core n s) = he_pending s"
  "length (he_backlog (push_note core n s)) = length (he_backlog s)"
  by (simp_all add: push_note_def)

lemma mset_swap_remove:
  assumes "i < length xs"
  shows "add_mset (xs ! i) (mset (swap_remove i xs)) = mset xs"
proof (cases "i = length xs - 1")
  case True
  with assms have "xs = butlast xs @ [xs ! i]" by (metis append_butlast_last_id last_conv_nth length_0_conv not_less_zero)
  then have "mset xs = mset (butlast xs @ [xs ! i])" by simp
  with True show ?thesis by (simp add: swap_remove_def)
next
  case False
  with assms have i: "i < length (butlast xs)" "xs \<noteq> []" by auto
  have "mset xs = add_mset (last xs) (mset (butlast xs))"
    using i(2) by (metis append_butlast_last_id mset.simps(2) mset_append union_commute add_mset_add_single mset.simps(1))
  moreover have "xs ! i \<in># mset (butlast xs)" using i by (metis in_multiset_in_set nth_butlast nth_mem)
  ultimately show ?thesis
    using i False by (simp add: swap_remove_def mset_update nth_butlast)
qed

lemma set_swap_remove: "i < length xs \<Longrightarrow> set (swap_remove i xs) \<subseteq> set xs"
  using mset_swap_remove [of i xs] by (metis insertI2 set_mset_add_mset_insert set_mset_mset subsetI)

lemma length_swap_remove: "i < length xs \<Longrightarrow> length (swap_remove i xs) = length xs - 1"
  by (simp add: swap_remove_def)

lemma retire_holds:
  assumes "errors_ok socket_error" "i \<le> length (he_pending s)"
    "list_all (job_ok (length (he_backlog s))) (he_pending s)"
  shows "holds (retire socket_error now events i s) = holds s \<and>
    length (he_backlog (retire socket_error now events i s)) = length (he_backlog s)"
  using assms(2,3)
proof (induction i arbitrary: s)
  case (Suc i)
  define ev where "ev = opt_or no_events (get_at events (i + 1))"
  define job where "job = he_pending s ! i"
  define err where "err = connect_error socket_error (jo_fd job) ev (jo_deadline job \<le> now)"
  define after where "after = (if ev = no_events \<and> \<not> jo_deadline job \<le> now then s
     else push_note (jo_core job) (Connected (jo_fd job) err) (s\<lparr> he_pending := swap_remove i (he_pending s) \<rparr>))"
  have i: "i < length (he_pending s)" using Suc.prems by simp
  have ok: "job_ok (length (he_backlog s)) job" using Suc.prems i by (simp add: job_def list_all_length)
  have step: "retire socket_error now events (Suc i) s = retire socket_error now events i after"
    by (simp add: after_def ev_def job_def err_def Let_def)
  have same: "holds after = holds s"
  proof (cases "ev = no_events \<and> \<not> jo_deadline job \<le> now")
    case False
    have "holds (s\<lparr> he_pending := swap_remove i (he_pending s) \<rparr>) + {#jo_fd job#} = holds s"
      using arg_cong [OF mset_swap_remove [OF i], of "image_mset jo_fd"] by (simp add: holds_def job_def)
    then show ?thesis
      using False ok connect_error_range [OF assms(1)]
      by (simp add: after_def holds_push_note job_ok_def err_def)
  qed (simp add: after_def)
  have "i \<le> length (he_pending after)" "list_all (job_ok (length (he_backlog after))) (he_pending after)"
    using Suc.prems i set_swap_remove [OF i] by (auto simp: after_def length_swap_remove list_all_iff)
  from Suc.IH [OF this] same show ?case unfolding step by (simp add: after_def)
qed simp

lemma add_ticks_holds: "holds (add_ticks now tick s) = holds s"
proof -
  have "queued_fds (if queue = [] then [note_encode Tick] else queue) = queued_fds queue" for queue
    by (auto simp: queued_fds_def )
  then show ?thesis by (simp add: add_ticks_def holds_def comp_def)
qed

lemma cancel_holds:
  "list_all (job_ok (length (he_backlog s))) jobs \<Longrightarrow>
   holds (fold (\<lambda>job s. push_note (jo_core job) (Connected (jo_fd job) 125) s) jobs s) = holds s + mset (map jo_fd jobs)"
  by (induction jobs arbitrary: s) (auto simp: holds_push_note job_ok_def)

text \<open>C32. A turn of the helper loses no socket and answers none twice: what it watches or owes a note
about after a turn is exactly what it held before, plus the jobs it received. It holds on the way
out as well, where every connect still pending is answered with \<open>ECANCELED\<close>.\<close>

theorem turn_conserves_sockets:
  assumes "errors_ok socket_error"
    "list_all (job_ok (length (he_backlog s))) (he_pending s)" "list_all (job_ok (length (he_backlog s))) received"
  shows "holds (snd (turn socket_error events received disconnected now tick s)) = holds s + mset (map jo_fd received)"
proof -
  let ?s1 = "s\<lparr> he_pending := he_pending s @ received \<rparr>"
  have s1: "holds ?s1 = holds s + mset (map jo_fd received)" by (simp add: holds_def)
  have drained: "holds (?s1\<lparr> he_pending := [] \<rparr>) + mset (map jo_fd (he_pending ?s1)) = holds ?s1"
    by (simp add: holds_def)
  have ok: "list_all (job_ok (length (he_backlog s))) (he_pending s @ received)" using assms by simp
  have "holds (fold (\<lambda>job s. push_note (jo_core job) (Connected (jo_fd job) 125) s) (he_pending s @ received)
           (?s1\<lparr> he_pending := [] \<rparr>)) = holds ?s1"
    using cancel_holds [of "?s1\<lparr> he_pending := [] \<rparr>" "he_pending s @ received"] ok drained by simp
  moreover have "holds (add_ticks now tick (retire socket_error now events (length (he_pending ?s1)) ?s1)) = holds ?s1"
    using retire_holds [OF assms(1), of "length (he_pending ?s1)" ?s1] ok by (simp add: add_ticks_holds)
  ultimately show ?thesis unfolding s1 turn_def Let_def by simp
qed

theorem turn_conserves_sockets_witness:
  "holds (snd (turn (\<lambda>_. Inr 0) [no_events, no_events] [\<lparr> jo_fd = 8, jo_core = 0, jo_deadline = 70 \<rparr>] False 50 250
       \<lparr> he_pending = [\<lparr> jo_fd = 7, jo_core = 0, jo_deadline = 40 \<rparr>], he_backlog = [[]], he_next_tick = 300 \<rparr>))
   = holds \<lparr> he_pending = [\<lparr> jo_fd = 7, jo_core = 0, jo_deadline = 40 \<rparr>], he_backlog = [[]], he_next_tick = 300 \<rparr>
     + mset (map jo_fd [\<lparr> jo_fd = 8, jo_core = 0, jo_deadline = 70 \<rparr>])"
  by (rule turn_conserves_sockets) (simp_all add: errors_ok_def job_ok_def)

section \<open>Deadlines are kept\<close>

lemma drop_swap_remove:
  "i < length xs \<Longrightarrow> set (drop i (swap_remove i xs)) \<subseteq> set (drop (Suc i) xs)"
proof (cases "i = length xs - 1")
  case False
  assume i: "i < length xs"
  with False have "drop i (swap_remove i xs) = last xs # drop (Suc i) (butlast xs)"
    by (simp add: swap_remove_def Cons_nth_drop_Suc [symmetric])
  moreover have "last xs \<in> set (drop (Suc i) xs)"
    using i False by (metis One_nat_def Suc_lessI diff_Suc_1 drop_eq_Nil last_drop last_in_set linorder_not_le)
  moreover have "set (drop (Suc i) (butlast xs)) \<subseteq> set (drop (Suc i) xs)"
    by (simp add: drop_butlast) (meson in_set_butlastD subsetI)
  ultimately show ?thesis by auto
qed (simp add: swap_remove_def)

lemma retire_deadlines:
  "i \<le> length (he_pending s) \<Longrightarrow> (\<And>job. job \<in> set (drop i (he_pending s)) \<Longrightarrow> now < jo_deadline job) \<Longrightarrow>
   list_all (\<lambda>job. now < jo_deadline job) (he_pending (retire socket_error now events i s))"
proof (induction i arbitrary: s)
  case 0
  then show ?case by (simp add: list_all_iff)
next
  case (Suc i)
  have i: "i < length (he_pending s)" using Suc.prems by simp
  have tail: "set (drop i (he_pending s)) = insert (he_pending s ! i) (set (drop (Suc i) (he_pending s)))"
    using i by (metis Cons_nth_drop_Suc list.simps(15))
  show ?case
    using Suc.prems i tail drop_swap_remove [OF i]
    by (auto simp: Let_def length_swap_remove intro!: Suc.IH)
qed

text \<open>C33. No connect outlives its deadline: after a turn that does not end the thread, every socket
the helper still watches has its deadline ahead of it, whatever \<open>poll\<close> reported.\<close>

theorem no_connect_outlives_its_deadline:
  assumes "turn socket_error events received disconnected now tick s = (False, s1)"
  shows "list_all (\<lambda>job. now < jo_deadline job) (he_pending s1)"
  using assms retire_deadlines [of "length (he_pending s @ received)" "s\<lparr> he_pending := he_pending s @ received \<rparr>"]
  by (auto simp: turn_def Let_def add_ticks_def split: if_splits)

theorem no_connect_outlives_its_deadline_witness:
  "list_all (\<lambda>job. (50 :: nat) < jo_deadline job)
     (he_pending (snd (turn (\<lambda>_. Inr 0) [no_events, no_events, no_events] [] False 50 250
       \<lparr> he_pending = [\<lparr> jo_fd = 7, jo_core = 0, jo_deadline = 40 \<rparr>, \<lparr> jo_fd = 8, jo_core = 0, jo_deadline = 90 \<rparr>],
         he_backlog = [[]], he_next_tick = 300 \<rparr>)))"
  by (rule no_connect_outlives_its_deadline [where disconnected = False and received = "[]" and tick = 250
        and socket_error = "\<lambda>_. Inr 0" and events = "[no_events, no_events, no_events]"
        and s = "\<lparr> he_pending = [\<lparr> jo_fd = 7, jo_core = 0, jo_deadline = 40 \<rparr>, \<lparr> jo_fd = 8, jo_core = 0, jo_deadline = 90 \<rparr>],
                   he_backlog = [[]], he_next_tick = 300 \<rparr>"])
     (simp add: turn_def no_events_def prod_eq_iff get_at_def opt_or_def Let_def)

section \<open>A socket that was never polled\<close>

text \<open>Where a core's pipe already owes notes and nothing is pending, \<open>poll\<close> is asked about the
wake pipe and that pipe alone. A job received after it returned takes position 0, so the pipe's
\<open>POLLOUT\<close> at position 1 is read as the new socket's: it is reported connected, although \<open>poll\<close> was
never asked about it and its handshake may still be under way (\<open>SO_ERROR\<close> is 0 until it fails).\<close>

theorem unpolled_socket_reported_connected:
  assumes "he_pending s = []" "socket_error (jo_fd job) = Inr 0"
    "\<not> (rv_hup wake \<or> rv_err wake \<or> rv_nval wake)" "now < he_next_tick s" "now < jo_deadline job"
  shows "turn socket_error [wake, no_events\<lparr> rv_out := True \<rparr>] [job] False now tick s
    = (False, push_note (jo_core job) (Connected (jo_fd job) 0) (s\<lparr> he_pending := [] \<rparr>))"
  using assms
  by (simp add: turn_def no_events_def add_ticks_def push_note_def swap_remove_def connect_error_def get_at_def opt_or_def Let_def)

theorem unpolled_socket_reported_connected_witness:
  "poll_fds 3 [4] \<lparr> he_pending = [], he_backlog = [[note_encode Tick]], he_next_tick = 300 \<rparr> = [3, 4] \<and>
   turn (\<lambda>_. Inr 0) [no_events, no_events\<lparr> rv_out := True \<rparr>] [\<lparr> jo_fd = 8, jo_core = 0, jo_deadline = 90 \<rparr>] False 50 250
     \<lparr> he_pending = [], he_backlog = [[note_encode Tick]], he_next_tick = 300 \<rparr>
   = (False, push_note (jo_core \<lparr> jo_fd = 8, jo_core = 0, jo_deadline = 90 \<rparr>)
               (Connected (jo_fd \<lparr> jo_fd = 8, jo_core = 0, jo_deadline = 90 \<rparr>) 0)
               (\<lparr> he_pending = [], he_backlog = [[note_encode Tick]], he_next_tick = 300 \<rparr>\<lparr> he_pending := [] \<rparr>))"
  by (rule conjI, simp add: poll_fds_def)
     (rule unpolled_socket_reported_connected, simp_all add: no_events_def)

end
