(* ===== verification/Proxy_Protocol.thy ===== *)
theory Proxy_Protocol
  imports Ip_Addr
begin

text \<open>
  \<open>crates/ramjet-proxy/src/proxy_protocol.rs\<close>: the PROXY protocol header, versions 1 and 2,
  in front of a connection.

  The parser is a total function of the bytes so far. \<open>read_header\<close> drives it over a stream:
  \<open>poll\<close> is the stream's \<open>poll_read\<close> with the room it is given, answering bytes, an error, or
  nothing before the deadline; \<open>room\<close> is the spare capacity the growing buffer offers. The
  returned \<open>Prefixed\<close> stream replays the surplus and then reads the inner stream.
\<close>

section \<open>Model\<close>

definition V1_SIGNATURE :: bytes where
  "V1_SIGNATURE = ''PROXY ''"

definition V1_MAX_LEN :: nat where
  "V1_MAX_LEN = 107"

definition V2_SIGNATURE :: bytes where
  "V2_SIGNATURE =
     [CHR 0x0D, CHR 0x0A, CHR 0x0D, CHR 0x0A, CHR 0x00, CHR 0x0D,
      CHR 0x0A, CHR 0x51, CHR 0x55, CHR 0x49, CHR 0x54, CHR 0x0A]"

definition V2_PREAMBLE_LEN :: nat where
  "V2_PREAMBLE_LEN = 16"

definition V2_INET_LEN :: nat where
  "V2_INET_LEN = 12"

definition V2_INET6_LEN :: nat where
  "V2_INET6_LEN = 36"

definition MAX_HEADER_LEN :: nat where
  "MAX_HEADER_LEN = V2_PREAMBLE_LEN + 65535"

datatype parsed = Incomplete | Done nat "socket_addr option"

datatype header_error = Signature | Malformed string

datatype accept_error = AcceptIo string | AcceptTimeout | AcceptHeader header_error

fun header_error_display :: "header_error \<Rightarrow> string" where
  "header_error_display Signature = ''no PROXY protocol signature''"
| "header_error_display (Malformed why) = ''malformed PROXY header: '' @ why"

fun accept_error_display :: "accept_error \<Rightarrow> string" where
  "accept_error_display (AcceptIo e) = ''reading a PROXY header failed: '' @ e"
| "accept_error_display AcceptTimeout = ''no complete PROXY header before the deadline''"
| "accept_error_display (AcceptHeader e) = header_error_display e"

fun signature_matches :: "bytes \<Rightarrow> bytes \<Rightarrow> header_error + bool" where
  "signature_matches input [] = Inr True"
| "signature_matches [] (e # es) = Inr False"
| "signature_matches (b # bs) (e # es) = (if b = e then signature_matches bs es else Inl Signature)"

definition port :: "string \<Rightarrow> header_error + u16" where
  "port field =
     (if field = [] \<or> \<not> list_all is_ascii_digit field
      then Inl (Malformed ''a v1 port is not a decimal number'')
      else ok_or (Malformed ''a v1 port is outside 0-65535'') (parse_u16 field))"

text \<open>The client address of a v1 line, by its family.\<close>

definition v1_client :: "string \<Rightarrow> string \<Rightarrow> string \<Rightarrow> u16 \<Rightarrow> header_error + socket_addr" where
  "v1_client family source destination source_port =
     (if family = ''TCP4'' then
        (case (parse_ipv4 source, parse_ipv4 destination) of
           (Some a, Some _) \<Rightarrow> Inr (SocketAddr a source_port)
         | _ \<Rightarrow> Inl (Malformed ''a TCP4 line names a non-IPv4 address''))
      else if family = ''TCP6'' then
        (case (parse_ipv6 source, parse_ipv6 destination) of
           (Some a, Some _) \<Rightarrow> Inr (SocketAddr a source_port)
         | _ \<Rightarrow> Inl (Malformed ''a TCP6 line names a non-IPv6 address''))
      else Inl (Malformed ''a v1 line names a protocol other than TCP4, TCP6 or UNKNOWN''))"

text \<open>What the fields of a v1 line say, after its signature and before its CRLF.\<close>

definition v1_fields :: "bytes \<Rightarrow> header_error + socket_addr option" where
  "v1_fields raw =
     (case from_utf8 raw of
        None \<Rightarrow> Inl (Malformed ''a v1 line is not ASCII'')
      | Some fields \<Rightarrow>
          if fields = ''UNKNOWN'' \<or> starts_with ''UNKNOWN '' fields then Inr None
          else (case split_on (CHR '' '') fields of
                  family # source # destination # source_port # destination_port # more_fields \<Rightarrow>
                    if more_fields \<noteq> [] then Inl (Malformed ''a v1 line has trailing fields'')
                    else sum_bind (port source_port) (\<lambda>sp.
                         sum_bind (port destination_port) (\<lambda>_.
                         sum_bind (v1_client family source destination sp) (\<lambda>a. Inr (Some a))))
                | _ \<Rightarrow> Inl (Malformed ''a v1 line is missing fields'')))"

text \<open>The line whose carriage return is at \<open>cr\<close>.\<close>

definition v1_line :: "bytes \<Rightarrow> nat \<Rightarrow> header_error + parsed" where
  "v1_line input cr =
     (case get_at input (cr + 1) of
        None \<Rightarrow> Inr Incomplete
      | Some b \<Rightarrow>
          if b \<noteq> CHR 0x0A then Inl (Malformed ''a v1 line contains a bare CR'')
          else case get_range input (length V1_SIGNATURE) cr of
                 None \<Rightarrow> Inr Incomplete
               | Some fields \<Rightarrow> sum_bind (v1_fields fields) (\<lambda>client. Inr (Done (cr + 2) client)))"

definition parse_v1 :: "bytes \<Rightarrow> header_error + parsed" where
  "parse_v1 input =
     sum_bind (signature_matches input V1_SIGNATURE) (\<lambda>whole.
       if \<not> whole then Inr Incomplete
       else let searchable = min (length input) (V1_MAX_LEN - 1)
            in case position (\<lambda>b. b = CHR 0x0D) (take searchable input) of
                 None \<Rightarrow>
                   if searchable = V1_MAX_LEN - 1
                   then Inl (Malformed ''a v1 line reached its 107-byte limit without a CRLF'')
                   else Inr Incomplete
               | Some cr \<Rightarrow> v1_line input cr)"

definition proxied_address :: "nat \<Rightarrow> bytes \<Rightarrow> header_error + socket_addr option" where
  "proxied_address family_protocol body =
     (let family = family_protocol div 16
      in if family = 0 then Inr None
         else if family = 1 then
           (case (get_prefix body 4, get_range body 8 10, get_range body 10 V2_INET_LEN) of
              (Some [a, b, c, d], Some [high, low], Some _) \<Rightarrow>
                Inr (Some (SocketAddr (IPv4 (byte_word a) (byte_word b) (byte_word c) (byte_word d))
                           (from_be_bytes (byte_word high) (byte_word low))))
            | _ \<Rightarrow> Inl (Malformed ''a v2 INET header is shorter than its 12-byte address block''))
         else if family = 2 then
           (case (get_prefix body 16, get_range body 32 34, get_range body 34 V2_INET6_LEN) of
              (Some address, Some [high, low], Some _) \<Rightarrow>
                if length address = 16
                then Inr (Some (SocketAddr (IPv6 (map byte_word address)) (from_be_bytes (byte_word high) (byte_word low))))
                else Inl (Malformed ''a v2 INET6 address is not sixteen bytes'')
            | _ \<Rightarrow> Inl (Malformed ''a v2 INET6 header is shorter than its 36-byte address block''))
         else if family = 3 then Inr None
         else Inl (Malformed ''a v2 header declares an unknown address family''))"

definition parse_v2 :: "bytes \<Rightarrow> header_error + parsed" where
  "parse_v2 input =
     sum_bind (signature_matches input V2_SIGNATURE) (\<lambda>whole.
       if \<not> whole then Inr Incomplete
       else case get_at input 12 of None \<Rightarrow> Inr Incomplete | Some version_command \<Rightarrow>
         if byte_val version_command div 16 \<noteq> 2
         then Inl (Malformed ''a v2 header declares a version other than 2'')
         else if byte_val version_command mod 16 > 1
         then Inl (Malformed ''a v2 header declares a command other than LOCAL or PROXY'')
         else case get_at input 13 of None \<Rightarrow> Inr Incomplete | Some family_protocol \<Rightarrow>
           (case get_range input 14 16 of
              Some [high, low] \<Rightarrow>
                (let consumed = V2_PREAMBLE_LEN + unat (from_be_bytes (byte_word high) (byte_word low))
                 in case get_range input V2_PREAMBLE_LEN consumed of
                      None \<Rightarrow> Inr Incomplete
                    | Some body \<Rightarrow>
                        sum_bind (if byte_val version_command mod 16 = 1
                                  then proxied_address (byte_val family_protocol) body else Inr None)
                          (\<lambda>client. Inr (Done consumed client)))
            | _ \<Rightarrow> Inr Incomplete))"

definition parse :: "bytes \<Rightarrow> header_error + parsed" where
  "parse input =
     (case input of
        [] \<Rightarrow> Inr Incomplete
      | b # _ \<Rightarrow>
          if b = CHR 0x0D then parse_v2 input
          else if b = CHR ''P'' then parse_v1 input
          else Inl Signature)"

section \<open>The parser never changes its mind\<close>

lemma signature_matches_cases:
  "signature_matches input sig = Inr True \<longleftrightarrow> (\<exists>r. input = sig @ r)"
  "signature_matches input sig = Inr False \<Longrightarrow> length input < length sig"
  by (induction input sig rule: signature_matches.induct) (auto split: if_splits)

lemma signature_matches_append:
  "signature_matches input sig \<noteq> Inr False \<Longrightarrow> signature_matches (input @ more) sig = signature_matches input sig"
  by (induction input sig rule: signature_matches.induct) auto

lemma position_append:
  "position p xs = Some i \<Longrightarrow> position p (xs @ ys) = Some i"
  by (induction xs arbitrary: i) (auto split: if_splits)

lemma get_at_append: "get_at xs i = Some x \<Longrightarrow> get_at (xs @ ys) i = Some x"
  by (auto simp: nth_append)

lemma get_range_append: "get_range xs i j = Some r \<Longrightarrow> get_range (xs @ ys) i j = Some r"
  by (auto simp: get_range_def split: if_splits)

lemma v1_line_stable:
  "v1_line input cr \<noteq> Inr Incomplete \<Longrightarrow> v1_line (input @ more) cr = v1_line input cr"
  by (auto simp: v1_line_def get_at_def get_range_def nth_append split: option.splits if_splits)

lemma parse_v1_whole:
  "parse_v1 (V1_SIGNATURE @ r) =
     (let input = V1_SIGNATURE @ r; searchable = min (length input) (V1_MAX_LEN - 1)
      in case position (\<lambda>b. b = CHR 0x0D) (take searchable input) of
           None \<Rightarrow>
             if searchable = V1_MAX_LEN - 1
             then Inl (Malformed ''a v1 line reached its 107-byte limit without a CRLF'')
             else Inr Incomplete
         | Some cr \<Rightarrow> v1_line input cr)"
proof -
  have "signature_matches (V1_SIGNATURE @ r) V1_SIGNATURE = Inr True"
    using signature_matches_cases(1) by blast
  then show ?thesis by (simp only: parse_v1_def sum_bind.simps Let_def not_True_eq_False if_False)
qed

lemma parse_v1_stable:
  assumes "parse_v1 input \<noteq> Inr Incomplete"
  shows "parse_v1 (input @ more) = parse_v1 input"
proof -
  from assms have sig: "signature_matches input V1_SIGNATURE \<noteq> Inr False"
    by (auto simp: parse_v1_def)
  show ?thesis
  proof (cases "signature_matches input V1_SIGNATURE")
    case (Inl e)
    with signature_matches_append[OF sig, of more] show ?thesis by (simp add: parse_v1_def)
  next
    case (Inr w)
    with sig have "signature_matches input V1_SIGNATURE = Inr True" by (cases w) auto
    then obtain r where input: "input = V1_SIGNATURE @ r" using signature_matches_cases(1) by blast
    let ?n = "min (length input) (V1_MAX_LEN - 1)" and ?m = "min (length (input @ more)) (V1_MAX_LEN - 1)"
    have split: "take ?m (input @ more) = take ?n input @ take (?m - ?n) (drop ?n (input @ more))"
      by (cases "length input \<le> V1_MAX_LEN - 1") auto
    note here = parse_v1_whole[of r, folded input]
      and there = parse_v1_whole[of "r @ more", unfolded append_assoc[symmetric], folded input]
    show ?thesis
    proof (cases "position (\<lambda>b. b = CHR 0x0D) (take ?n input)")
      case None
      with assms have "?n = V1_MAX_LEN - 1" by (simp add: here Let_def split: if_splits)
      then have "V1_MAX_LEN - 1 \<le> length input" by simp
      with None show ?thesis by (simp add: here there Let_def)
    next
      case (Some cr)
      then have found: "position (\<lambda>b. b = CHR 0x0D) (take ?m (input @ more)) = Some cr"
        unfolding split by (rule position_append)
      from assms Some have "v1_line input cr \<noteq> Inr Incomplete" by (simp add: here Let_def)
      from v1_line_stable[OF this] Some found show ?thesis by (simp add: here there Let_def del: length_append)
    qed
  qed
qed

text \<open>A v2 header behind its signature: the four bytes of the preamble, then the body.\<close>

definition v2_body :: "char \<Rightarrow> char \<Rightarrow> char \<Rightarrow> char \<Rightarrow> bytes \<Rightarrow> header_error + parsed" where
  "v2_body vc fp high low r =
     (let len = unat (from_be_bytes (byte_word high) (byte_word low))
      in if length r < len then Inr Incomplete
         else sum_bind (if byte_val vc mod 16 = 1 then proxied_address (byte_val fp) (take len r) else Inr None)
                (\<lambda>client. Inr (Done (V2_PREAMBLE_LEN + len) client)))"

definition vc_error :: "char \<Rightarrow> header_error option" where
  "vc_error vc =
     (if byte_val vc div 16 \<noteq> 2 then Some (Malformed ''a v2 header declares a version other than 2'')
      else if byte_val vc mod 16 > 1
      then Some (Malformed ''a v2 header declares a command other than LOCAL or PROXY'') else None)"

lemma length_V2_SIGNATURE [simp]: "length V2_SIGNATURE = 12"
  by (simp add: V2_SIGNATURE_def)

lemma parse_v2_whole:
  "parse_v2 (V2_SIGNATURE @ r) =
     (case r of
        [] \<Rightarrow> Inr Incomplete
      | vc # r1 \<Rightarrow>
          (case vc_error vc of
             Some e \<Rightarrow> Inl e
           | None \<Rightarrow> (case r1 of fp # high # low # r2 \<Rightarrow> v2_body vc fp high low r2 | _ \<Rightarrow> Inr Incomplete)))"
proof -
  have sig: "signature_matches (V2_SIGNATURE @ r) V2_SIGNATURE = Inr True"
    using signature_matches_cases(1) by blast
  let ?i = "V2_SIGNATURE @ r"
  have at: "get_at ?i (12 + k) = get_at r k" "get_range ?i (12 + j) (12 + k) = get_range r j k" for j k
    by (auto simp: get_at_def get_range_def nth_append)
  have eq: "get_at ?i 12 = get_at r 0" "get_at ?i 13 = get_at r 1" "get_range ?i 14 16 = get_range r 2 4"
    "get_range ?i V2_PREAMBLE_LEN (V2_PREAMBLE_LEN + n) = get_range r 4 (4 + n)" for n
    using at(1)[of 0] at(1)[of 1] at(2)[of 2 4] at(2)[of 4 "4 + n"] by (simp_all add: V2_PREAMBLE_LEN_def)
  consider "r = []" | vc where "r = [vc]" | vc fp where "r = [vc, fp]" | vc fp high where "r = [vc, fp, high]"
    | vc fp high low r2 where "r = vc # fp # high # low # r2"
    by (metis list.exhaust)
  then show ?thesis
    unfolding parse_v2_def sig sum_bind.simps eq Let_def
    by cases (simp_all add: vc_error_def v2_body_def get_at_def get_range_def Let_def take_Suc_conv_app_nth numeral_2_eq_2)
qed

lemma v2_body_stable: "v2_body vc fp high low r \<noteq> Inr Incomplete \<Longrightarrow>
    v2_body vc fp high low (r @ more) = v2_body vc fp high low r"
  by (auto simp: v2_body_def Let_def split: if_splits)

lemma parse_v2_stable:
  assumes "parse_v2 input \<noteq> Inr Incomplete"
  shows "parse_v2 (input @ more) = parse_v2 input"
proof -
  from assms have sig: "signature_matches input V2_SIGNATURE \<noteq> Inr False"
    by (auto simp: parse_v2_def)
  show ?thesis
  proof (cases "signature_matches input V2_SIGNATURE")
    case (Inl e)
    with signature_matches_append[OF sig, of more] show ?thesis by (simp add: parse_v2_def)
  next
    case (Inr w)
    with sig have "signature_matches input V2_SIGNATURE = Inr True" by (cases w) auto
    then obtain r where input: "input = V2_SIGNATURE @ r" using signature_matches_cases(1) by blast
    from assms show ?thesis
      unfolding input append_assoc parse_v2_whole
      by (auto split: list.splits option.splits simp: v2_body_stable)
  qed
qed

lemma parse_stable:
  "parse input \<noteq> Inr Incomplete \<Longrightarrow> parse (input @ more) = parse input"
  using parse_v1_stable[of input more] parse_v2_stable[of input more]
  by (cases input) (auto simp: parse_def split: if_splits)

text \<open>The carriage return the v1 parser finds lies behind the signature.\<close>

lemma v1_cr_position:
  "position (\<lambda>b. b = CHR 0x0D) (take n (V1_SIGNATURE @ r)) = Some cr \<longleftrightarrow>
     (\<exists>fields r'. r = fields @ CHR 0x0D # r' \<and> CHR 0x0D \<notin> set fields
        \<and> cr = length V1_SIGNATURE + length fields \<and> cr < n)" (is "?L \<longleftrightarrow> ?R")
proof
  assume ?L
  then have cr: "cr < n" "cr < length (V1_SIGNATURE @ r)" "(V1_SIGNATURE @ r) ! cr = CHR 0x0D"
    and before: "\<And>j. j < cr \<Longrightarrow> (V1_SIGNATURE @ r) ! j \<noteq> CHR 0x0D"
    by (auto simp: position_Some_iff simp del: take_append)
  have "length V1_SIGNATURE \<le> cr"
  proof (rule ccontr)
    assume "\<not> ?thesis"
    then have "cr < length V1_SIGNATURE" by simp
    then have "V1_SIGNATURE ! cr \<in> set V1_SIGNATURE" by (rule nth_mem)
    moreover from \<open>cr < length V1_SIGNATURE\<close> cr(3) have "V1_SIGNATURE ! cr = CHR 0x0D" by (simp add: nth_append)
    ultimately have "CHR 0x0D \<in> set V1_SIGNATURE" by simp
    then show False by (simp add: V1_SIGNATURE_def)
  qed
  then obtain k where k: "cr = length V1_SIGNATURE + k" by (metis le_iff_add)
  with cr have "k < length r" "r ! k = CHR 0x0D" by (simp_all add: nth_append)
  moreover have "CHR 0x0D \<notin> set (take k r)"
  proof
    assume "CHR 0x0D \<in> set (take k r)"
    then obtain j where "j < k" "r ! j = CHR 0x0D" by (auto simp: in_set_conv_nth)
    with before[of "length V1_SIGNATURE + j"] k show False by (simp add: nth_append)
  qed
  ultimately show ?R using k cr(1) id_take_nth_drop[of k r]
    by (intro exI[of _ "take k r"] exI[of _ "drop (Suc k) r"]) auto
next
  assume ?R
  then obtain fields r' where r: "r = fields @ CHR 0x0D # r'" "CHR 0x0D \<notin> set fields"
    and cr: "cr = length V1_SIGNATURE + length fields" "cr < n" by blast
  then have "j < cr \<Longrightarrow> (V1_SIGNATURE @ r) ! j \<in> set (V1_SIGNATURE @ fields)" for j
    by (auto simp: nth_append)
  moreover have "CHR 0x0D \<notin> set (V1_SIGNATURE @ fields)" using r(2) by (simp add: V1_SIGNATURE_def)
  ultimately have "\<forall>j < cr. (V1_SIGNATURE @ r) ! j \<noteq> CHR 0x0D" by metis
  moreover have "cr < length (V1_SIGNATURE @ r)" "(V1_SIGNATURE @ r) ! cr = CHR 0x0D"
    using r cr by (simp_all add: nth_append)
  ultimately show ?L using cr(2) by (simp add: position_Some_iff del: take_append append_assoc)
qed

lemma parse_v1_Incomplete_short:
  assumes "parse_v1 input = Inr Incomplete"
  shows "length input < V1_MAX_LEN"
proof (cases "\<exists>r. input = V1_SIGNATURE @ r")
  case True
  then obtain r where input: "input = V1_SIGNATURE @ r" by blast
  let ?n = "min (length input) (V1_MAX_LEN - 1)"
  note parse = assms[unfolded input parse_v1_whole, folded input, unfolded Let_def]
  show ?thesis
  proof (cases "position (\<lambda>b. b = CHR 0x0D) (take ?n input)")
    case None
    with parse show ?thesis by (auto simp: V1_MAX_LEN_def split: if_splits)
  next
    case (Some cr)
    from Some[unfolded input v1_cr_position] have "length V1_SIGNATURE \<le> cr" "cr < ?n"
      unfolding input by auto
    moreover from Some parse have "v1_line input cr = Inr Incomplete" by simp
    ultimately have "length input \<le> cr + 1"
      by (cases "cr + 1 < length input") (simp_all add: v1_line_def get_at_def get_range_def sum_bind_Inr_iff split: if_splits)
    with \<open>cr < ?n\<close> show ?thesis by linarith
  qed
next
  case False
  then have "signature_matches input V1_SIGNATURE = Inr False"
    using assms signature_matches_cases(1)[of input V1_SIGNATURE]
    by (cases "signature_matches input V1_SIGNATURE") (auto simp: parse_v1_def)
  from signature_matches_cases(2)[OF this] show ?thesis by (simp add: V1_SIGNATURE_def V1_MAX_LEN_def)
qed

lemma u16_less: "unat (w :: u16) < 65536"
  using unsigned_less[of w, where ?'a = nat] by simp

lemma parse_v2_Incomplete_short:
  assumes "parse_v2 input = Inr Incomplete"
  shows "length input < MAX_HEADER_LEN"
proof (cases "\<exists>r. input = V2_SIGNATURE @ r")
  case True
  then obtain r where input: "input = V2_SIGNATURE @ r" by blast
  have "length r2 < 65535" if "v2_body vc fp high low r2 = Inr Incomplete" for vc fp high low r2
  proof -
    from that have "length r2 < unat (from_be_bytes (byte_word high) (byte_word low))"
      by (simp add: v2_body_def Let_def sum_bind_Inr_iff split: if_splits)
    then show ?thesis using u16_less[of "from_be_bytes (byte_word high) (byte_word low)"] by linarith
  qed
  then have "length r < 65539"
    using assms unfolding input parse_v2_whole by (auto split: list.splits option.splits)
  then show ?thesis by (simp add: input MAX_HEADER_LEN_def V2_PREAMBLE_LEN_def)
next
  case False
  then have "signature_matches input V2_SIGNATURE = Inr False"
    using assms signature_matches_cases(1)[of input V2_SIGNATURE]
    by (cases "signature_matches input V2_SIGNATURE") (auto simp: parse_v2_def)
  from signature_matches_cases(2)[OF this] show ?thesis
    by (simp add: MAX_HEADER_LEN_def V2_PREAMBLE_LEN_def)
qed

lemma parse_Incomplete_short: "parse input = Inr Incomplete \<Longrightarrow> length input < MAX_HEADER_LEN"
  using parse_v1_Incomplete_short[of input] parse_v2_Incomplete_short[of input]
  by (auto simp: parse_def MAX_HEADER_LEN_def V2_PREAMBLE_LEN_def V1_MAX_LEN_def split: list.splits if_splits)


section \<open>What the parser accepts\<close>

text \<open>
  The headers of the protocol and the client each one names. A version 1 line is at most 107
  bytes long with its signature and CRLF; a version 2 header carries the length of its body, and
  what follows the address block there is metadata.
\<close>

definition port_text :: "string \<Rightarrow> u16 \<Rightarrow> bool" where
  "port_text f p \<longleftrightarrow> f \<noteq> [] \<and> list_all is_ascii_digit f \<and> digits_val f < 65536 \<and> p = of_nat (digits_val f)"

inductive v1_text :: "bytes \<Rightarrow> socket_addr option \<Rightarrow> bool" where
  unknown: "v1_text ''UNKNOWN'' None"
| unknown_rest: "utf8_bytes (map byte_val rest) \<Longrightarrow> v1_text (''UNKNOWN '' @ rest) None"
| tcp4: "port_text sp p \<Longrightarrow> port_text dp q \<Longrightarrow>
    v1_text (''TCP4 '' @ show_ipv4 a b c d @ '' '' @ show_ipv4 e f g h @ '' '' @ sp @ '' '' @ dp)
      (Some (SocketAddr (IPv4 a b c d) p))"
| tcp6: "parse_ipv6 src = Some a \<Longrightarrow> parse_ipv6 dst = Some b \<Longrightarrow> port_text sp p \<Longrightarrow> port_text dp q \<Longrightarrow>
    v1_text (''TCP6 '' @ src @ '' '' @ dst @ '' '' @ sp @ '' '' @ dp) (Some (SocketAddr a p))"

inductive v2_block :: "nat \<Rightarrow> bytes \<Rightarrow> socket_addr option \<Rightarrow> bool" where
  unspec: "v2_block 0 body None"
| inet: "length dst = 4 \<Longrightarrow> length dport = 2 \<Longrightarrow>
    v2_block 1 ([a, b, c, d] @ dst @ [high, low] @ dport @ tlvs)
      (Some (SocketAddr (IPv4 (byte_word a) (byte_word b) (byte_word c) (byte_word d))
             (from_be_bytes (byte_word high) (byte_word low))))"
| inet6: "length src = 16 \<Longrightarrow> length dst = 16 \<Longrightarrow> length dport = 2 \<Longrightarrow>
    v2_block 2 (src @ dst @ [high, low] @ dport @ tlvs)
      (Some (SocketAddr (IPv6 (map byte_word src)) (from_be_bytes (byte_word high) (byte_word low))))"
| unix: "v2_block 3 body None"

inductive proxy_header :: "bytes \<Rightarrow> socket_addr option \<Rightarrow> bool" where
  v1: "CHR 0x0D \<notin> set fields \<Longrightarrow> length fields + 8 \<le> 107 \<Longrightarrow> v1_text fields client \<Longrightarrow>
    proxy_header (V1_SIGNATURE @ fields @ [CHR 0x0D, CHR 0x0A]) client"
| v2_local: "length body = byte_val high * 256 + byte_val low \<Longrightarrow>
    proxy_header (V2_SIGNATURE @ [CHR 0x20, fp, high, low] @ body) None"
| v2_proxy: "length body = byte_val high * 256 + byte_val low \<Longrightarrow>
    v2_block (byte_val fp div 16) body client \<Longrightarrow>
    proxy_header (V2_SIGNATURE @ [CHR 0x21, fp, high, low] @ body) client"

lemma port_iff: "port f = Inr p \<longleftrightarrow> port_text f p"
proof (cases "f \<noteq> [] \<and> list_all is_ascii_digit f")
  case True
  then have "parse_unsigned 16 f = (if digits_val f < 65536 then Some (digits_val f) else None)"
    by (cases f) (auto simp: parse_unsigned_def Let_def dest: digit_not_plus)
  with True show ?thesis by (auto simp: port_def port_text_def parse_u16_def)
qed (auto simp: port_def port_text_def)

fun join_with :: "char \<Rightarrow> string list \<Rightarrow> string" where
  "join_with c [] = []"
| "join_with c [p] = p"
| "join_with c (p # ps) = p @ c # join_with c ps"

lemma join_split_on: "join_with c (split_on c s) = s"
proof (induction s)
  case (Cons x xs)
  then show ?case by (cases "split_on c xs"; cases "tl (split_on c xs)") auto
qed simp

lemma utf8_ascii: "list_all (\<lambda>c. byte_val c < 128) s \<Longrightarrow> utf8_bytes (map byte_val s)"
  unfolding utf8_bytes_def by (induction s) auto

lemma digit_plain: "is_ascii_digit c \<Longrightarrow> byte_val c < 128 \<and> c \<noteq> CHR '' ''"
  by (auto simp: is_ascii_digit_def)

definition plain :: "string \<Rightarrow> bool" where
  "plain s \<longleftrightarrow> list_all (\<lambda>c. byte_val c < 128 \<and> c \<noteq> CHR '' '') s"

lemma plain_parts:
  "list_all ip_char s \<Longrightarrow> plain s" "port_text s p \<Longrightarrow> plain s" "plain ''TCP4''" "plain ''TCP6''"
  by (auto simp: plain_def port_text_def list_all_iff dest: ip_char_plain digit_plain)

lemma plain_facts:
  "plain s \<Longrightarrow> CHR '' '' \<notin> set s" "plain s \<Longrightarrow> list_all (\<lambda>c. byte_val c < 128) s"
  by (auto simp: plain_def list_all_iff)

lemma v1_fields_five:
  assumes "plain f" "plain s" "plain d" "plain sp" "plain dp" "f \<noteq> ''UNKNOWN''"
  shows "v1_fields (f @ '' '' @ s @ '' '' @ d @ '' '' @ sp @ '' '' @ dp) =
     sum_bind (port sp) (\<lambda>p. sum_bind (port dp) (\<lambda>_. sum_bind (v1_client f s d p) (\<lambda>a. Inr (Some a))))"
proof -
  let ?l = "f @ '' '' @ s @ '' '' @ d @ '' '' @ sp @ '' '' @ dp"
  note nosp = assms(1-5)[THEN plain_facts(1)]
  have "from_utf8 ?l = Some ?l"
    using assms(1-5)[THEN plain_facts(2)] utf8_ascii[of ?l] by (simp add: from_utf8_def)
  moreover have split: "split_on (CHR '' '') ?l = [f, s, d, sp, dp]"
    using nosp by (simp add: split_on_append split_on_no_sep)
  moreover have "\<not> starts_with ''UNKNOWN '' ?l"
  proof
    assume "starts_with ''UNKNOWN '' ?l"
    then obtain r where "?l = ''UNKNOWN'' @ CHR '' '' # r" by (auto simp: starts_with_iff)
    then have "split_on (CHR '' '') ?l = ''UNKNOWN'' # split_on (CHR '' '') r"
      by (simp only: split_on_append) (simp add: split_on_append)
    with split assms(6) show False by simp
  qed
  moreover have "?l \<noteq> ''UNKNOWN''"
  proof
    assume "?l = ''UNKNOWN''"
    then have "CHR '' '' \<in> set ''UNKNOWN''" by (metis in_set_conv_decomp append_Cons append_Nil append_assoc)
    then show False by simp
  qed
  ultimately show ?thesis by (simp add: v1_fields_def)
qed


lemma v1_fields_iff: "v1_fields raw = Inr client \<longleftrightarrow> v1_text raw client"
proof
  assume acc: "v1_fields raw = Inr client"
  then have utf8: "utf8_bytes (map byte_val raw)"
    by (auto simp: v1_fields_def from_utf8_def split: option.splits if_splits)
  show "v1_text raw client"
  proof (cases "raw = ''UNKNOWN'' \<or> starts_with ''UNKNOWN '' raw")
    case True
    with acc utf8 have "client = None" by (simp add: v1_fields_def from_utf8_def)
    moreover have "v1_text raw None" if "raw = ''UNKNOWN '' @ rest" for rest
      using utf8 unfolding that by (intro unknown_rest) (simp add: utf8_bytes_def)
    ultimately show ?thesis using True unknown by (auto simp only: starts_with_iff)
  next
    case False
    with acc utf8 obtain f s d sp dp p q a where split: "split_on (CHR '' '') raw = [f, s, d, sp, dp]"
      and ports: "port sp = Inr p" "port dp = Inr q" and cl: "v1_client f s d p = Inr a" "client = Some a"
      by (auto simp: v1_fields_def from_utf8_def sum_bind_Inr_iff split: list.splits if_splits)
    have raw: "raw = f @ '' '' @ s @ '' '' @ d @ '' '' @ sp @ '' '' @ dp"
      using join_split_on[of "CHR '' ''" raw] by (simp add: split)
    note ports = ports[unfolded port_iff]
    from cl(1) consider a' b' where "f = ''TCP4''" "parse_ipv4 s = Some a'" "parse_ipv4 d = Some b'" "a = SocketAddr a' p"
      | a' b' where "f = ''TCP6''" "parse_ipv6 s = Some a'" "parse_ipv6 d = Some b'" "a = SocketAddr a' p"
      by (auto simp: v1_client_def split: if_splits option.splits)
    then show ?thesis
    proof cases
      case 1
      from parse_ipv4_IPv4[OF 1(2)] parse_ipv4_IPv4[OF 1(3)] obtain x1 x2 x3 x4 y1 y2 y3 y4
        where "a' = IPv4 x1 x2 x3 x4" "b' = IPv4 y1 y2 y3 y4" by blast
      with 1 have "s = show_ipv4 x1 x2 x3 x4" "d = show_ipv4 y1 y2 y3 y4" "a = SocketAddr (IPv4 x1 x2 x3 x4) p"
        by (simp_all add: parse_ipv4_iff)
      with tcp4[OF ports] show ?thesis unfolding raw cl(2) 1(1) by simp
    next
      case 2
      with tcp6[OF 2(2,3) ports] show ?thesis unfolding raw cl(2) by simp
    qed
  qed
next
  assume "v1_text raw client"
  then show "v1_fields raw = Inr client"
  proof cases
    case unknown
    have "utf8_bytes (map byte_val ''UNKNOWN'')" by code_simp
    with unknown show ?thesis by (simp add: v1_fields_def from_utf8_def)
  next
    case (unknown_rest rest)
    then have "utf8_bytes (map byte_val (''UNKNOWN '' @ rest))" by (simp add: utf8_bytes_def)
    with unknown_rest show ?thesis by (simp add: v1_fields_def from_utf8_def starts_with_def)
  next
    case (tcp4 sp p dp q a b c d e f g h)
    have "v1_client ''TCP4'' (show_ipv4 a b c d) (show_ipv4 e f g h) p = Inr (SocketAddr (IPv4 a b c d) p)"
      by (simp add: v1_client_def parse_ipv4_iff[THEN iffD2, OF refl])
    with tcp4 v1_fields_five[OF plain_parts(3) plain_parts(1)[OF show_ipv4_chars] plain_parts(1)[OF show_ipv4_chars]
        plain_parts(2)[OF tcp4(3)] plain_parts(2)[OF tcp4(4)]] show ?thesis
      by (simp add: port_iff[THEN iffD2])
  next
    case (tcp6 src a dst b sp p dp q)
    have "v1_client ''TCP6'' src dst p = Inr (SocketAddr a p)" using tcp6 by (simp add: v1_client_def)
    with tcp6 v1_fields_five[OF plain_parts(4) plain_parts(1)[OF parse_ipv6_chars[OF tcp6(3)]]
        plain_parts(1)[OF parse_ipv6_chars[OF tcp6(4)]] plain_parts(2)[OF tcp6(5)] plain_parts(2)[OF tcp6(6)]]
    show ?thesis by (simp add: port_iff[THEN iffD2])
  qed
qed

lemma parse_v1_iff:
  "parse_v1 input = Inr (Done n client) \<longleftrightarrow>
     (\<exists>fields rest. input = (V1_SIGNATURE @ fields @ [CHR 0x0D, CHR 0x0A]) @ rest \<and> n = length fields + 8
        \<and> CHR 0x0D \<notin> set fields \<and> length fields + 8 \<le> 107 \<and> v1_text fields client)" (is "?L \<longleftrightarrow> ?R")
proof
  assume ?L
  then have "signature_matches input V1_SIGNATURE = Inr True"
    by (auto simp: parse_v1_def sum_bind_Inr_iff split: if_splits)
  then obtain r where input: "input = V1_SIGNATURE @ r" using signature_matches_cases(1) by blast
  let ?n = "min (length input) (V1_MAX_LEN - 1)"
  from \<open>?L\<close> obtain cr where pos: "position (\<lambda>b. b = CHR 0x0D) (take ?n input) = Some cr"
    and line: "v1_line input cr = Inr (Done n client)"
    unfolding input parse_v1_whole Let_def by (auto split: option.splits if_splits)
  from pos[unfolded input v1_cr_position] obtain fields r' where r: "r = fields @ CHR 0x0D # r'"
    "CHR 0x0D \<notin> set fields" "cr = length V1_SIGNATURE + length fields" "cr < ?n" unfolding input by auto
  have "get_at input (cr + 1) = get_at r' 0" by (simp add: input r get_at_def nth_append)
  with line obtain r2 where r': "r' = CHR 0x0A # r2"
    by (cases r') (auto simp: v1_line_def get_at_def split: option.splits if_splits)
  have "get_range input (length V1_SIGNATURE) cr = Some fields" by (simp add: input r get_range_def)
  with line \<open>get_at input (cr + 1) = _\<close> r' have "v1_fields fields = Inr client" "n = cr + 2"
    by (auto simp: v1_line_def get_at_def sum_bind_Inr_iff split: if_splits)
  with r r' input show ?R
    by (intro exI[of _ fields] exI[of _ r2]) (simp add: v1_fields_iff V1_SIGNATURE_def V1_MAX_LEN_def)
next
  assume ?R
  then obtain fields rest where input: "input = V1_SIGNATURE @ fields @ CHR 0x0D # CHR 0x0A # rest"
    and f: "n = length fields + 8" "CHR 0x0D \<notin> set fields" "length fields + 8 \<le> 107" "v1_text fields client" by auto
  let ?n = "min (length input) (V1_MAX_LEN - 1)" and ?cr = "length V1_SIGNATURE + length fields"
  have six: "length V1_SIGNATURE = 6" by (simp add: V1_SIGNATURE_def)
  with f input have "?cr < ?n" by (simp add: V1_MAX_LEN_def)
  with f have pos: "position (\<lambda>b. b = CHR 0x0D) (take ?n input) = Some ?cr"
    unfolding input by (subst v1_cr_position) auto
  moreover have "v1_line input ?cr = Inr (Done n client)"
    using f six by (simp add: v1_line_def input get_at_def get_range_def nth_append v1_fields_iff[THEN iffD2])
  ultimately show ?L
    using parse_v1_whole[of "fields @ CHR 0x0D # CHR 0x0A # rest", folded input] by (simp add: Let_def)
qed


lemma get_prefix_Some: "get_prefix xs n = Some p \<longleftrightarrow> (\<exists>r. xs = p @ r \<and> length p = n)"
  by (auto simp: get_prefix_def intro: exI[of _ "drop n xs"])

lemma get_range_Some:
  "get_range xs i j = Some p \<longleftrightarrow> (\<exists>a r. xs = a @ p @ r \<and> length a = i \<and> length p + i = j)"
proof
  assume "get_range xs i j = Some p"
  then have "i \<le> j" "j \<le> length xs" and p: "p = take (j - i) (drop i xs)" by (auto simp: get_range_def split: if_splits)
  then have "xs = take i xs @ p @ drop (j - i) (drop i xs)" by (simp only: p append_take_drop_id)
  with \<open>i \<le> j\<close> \<open>j \<le> length xs\<close> p show "\<exists>a r. xs = a @ p @ r \<and> length a = i \<and> length p + i = j"
    by (intro exI[of _ "take i xs"] exI[of _ "drop (j - i) (drop i xs)"]) simp
qed (auto simp: get_range_def)

lemma get_rangeI: "xs = a @ p @ r \<Longrightarrow> length a = i \<Longrightarrow> length p + i = j \<Longrightarrow> get_range xs i j = Some p"
  unfolding get_range_Some by blast

lemma get_range_adjacent:
  assumes "get_range xs i j = Some p" "get_range xs j k = Some q"
  shows "xs = take i xs @ p @ q @ drop k xs" "length p + i = j" "length q + j = k" "k \<le> length xs"
proof -
  from assms have le: "i \<le> j" "j \<le> k" "k \<le> length xs"
    and p: "p = take (j - i) (drop i xs)" and q: "q = take (k - j) (drop j xs)"
    by (auto simp: get_range_def split: if_splits)
  have "drop j xs = q @ drop k xs" unfolding q using le append_take_drop_id[of "k - j" "drop j xs"] by simp
  moreover have "drop i xs = p @ drop j xs" unfolding p using le append_take_drop_id[of "j - i" "drop i xs"] by simp
  ultimately show "xs = take i xs @ p @ q @ drop k xs" by (metis append_take_drop_id)
  show "length p + i = j" "length q + j = k" "k \<le> length xs" using le by (simp_all add: p q)
qed

lemma length_two: "length xs = 2 \<longleftrightarrow> (\<exists>a b. xs = [a, b])"
  by (auto simp: numeral_2_eq_2 length_Suc_conv)

lemma length_four: "length xs = 4 \<longleftrightarrow> (\<exists>a b c d. xs = [a, b, c, d])"
  by (auto simp: numeral_eq_Suc length_Suc_conv)

lemma proxied_address_iff: "proxied_address fp body = Inr client \<longleftrightarrow> v2_block (fp div 16) body client"
proof
  assume acc: "proxied_address fp body = Inr client"
  then consider "fp div 16 = 0" "client = None" | "fp div 16 = 1" | "fp div 16 = 2" | "fp div 16 = 3" "client = None"
    by (auto simp: proxied_address_def Let_def split: if_splits)
  then show "v2_block (fp div 16) body client"
  proof cases
    case 2
    with acc obtain a b c d high low x where p: "get_prefix body 4 = Some [a, b, c, d]"
      "get_range body 8 10 = Some [high, low]" "get_range body 10 12 = Some x"
      "client = Some (SocketAddr (IPv4 (byte_word a) (byte_word b) (byte_word c) (byte_word d)) (from_be_bytes (byte_word high) (byte_word low)))"
      by (auto simp: proxied_address_def V2_INET_LEN_def split: option.splits list.splits)
    then obtain r where r: "body = [a, b, c, d] @ r" by (auto simp: get_prefix_Some)
    from get_range_adjacent[OF p(2,3)]
    have "body = take 8 body @ [high, low] @ x @ drop 12 body" "length x = 2" "12 \<le> length body" by simp_all
    moreover from this r have "take 8 body = [a, b, c, d] @ take 4 r" "length (take 4 r) = 4" by auto
    ultimately show ?thesis using inet[of "take 4 r" x a b c d high low "drop 12 body"] 2 p(4) by simp
  next
    case 3
    with acc obtain src high low x where p: "get_prefix body 16 = Some src" "length src = 16"
      "get_range body 32 34 = Some [high, low]" "get_range body 34 36 = Some x"
      "client = Some (SocketAddr (IPv6 (map byte_word src)) (from_be_bytes (byte_word high) (byte_word low)))"
      by (auto simp: proxied_address_def V2_INET6_LEN_def split: option.splits list.splits if_splits)
    then obtain r where r: "body = src @ r" by (auto simp: get_prefix_Some)
    from get_range_adjacent[OF p(3,4)]
    have "body = take 32 body @ [high, low] @ x @ drop 36 body" "length x = 2" "36 \<le> length body" by simp_all
    moreover from this r p(2) have "take 32 body = src @ take 16 r" "length (take 16 r) = 16" by auto
    ultimately show ?thesis using inet6[of src "take 16 r" x high low "drop 36 body"] 3 p(2,5) by simp
  qed (auto intro: v2_block.intros)
next
  assume "v2_block (fp div 16) body client"
  then show "proxied_address fp body = Inr client"
  proof cases
    case (inet dst dport a b c d high low tlvs)
    have "get_prefix body 4 = Some [a, b, c, d]" using inet by (simp add: get_prefix_def)
    moreover have "get_range body 8 10 = Some [high, low]"
      using inet by (intro get_rangeI[of _ "[a, b, c, d] @ dst" _ "dport @ tlvs"]) simp_all
    moreover have "get_range body 10 12 = Some dport"
      using inet by (intro get_rangeI[of _ "[a, b, c, d] @ dst @ [high, low]" _ tlvs]) simp_all
    ultimately show ?thesis using inet by (simp add: proxied_address_def V2_INET_LEN_def)
  next
    case (inet6 src dst dport high low tlvs)
    have "get_prefix body 16 = Some src" using inet6 by (simp add: get_prefix_def)
    moreover have "get_range body 32 34 = Some [high, low]"
      using inet6 by (intro get_rangeI[of _ "src @ dst" _ "dport @ tlvs"]) simp_all
    moreover have "get_range body 34 36 = Some dport"
      using inet6 by (intro get_rangeI[of _ "src @ dst @ [high, low]" _ tlvs]) simp_all
    ultimately show ?thesis using inet6 by (simp add: proxied_address_def V2_INET6_LEN_def)
  qed (simp_all add: proxied_address_def)
qed

lemma be_length: "unat (from_be_bytes (byte_word high) (byte_word low)) = byte_val high * 256 + byte_val low"
proof -
  have "byte_val high < 256" "byte_val low < 256" by simp_all
  then have "byte_val high * 256 + byte_val low < 65536" by linarith
  moreover have "unat (byte_word c) = byte_val c" for c by (simp add: byte_word_def byte_word_cases)
  ultimately show ?thesis unfolding from_be_bytes_def by (simp only: unat_of_nat) simp
qed

lemma vc_error_None: "vc_error vc = None \<longleftrightarrow> vc = CHR 0x20 \<or> vc = CHR 0x21"
proof -
  have "vc_error vc = None \<longleftrightarrow> byte_val vc = 32 \<or> byte_val vc = 33"
    by (simp add: vc_error_def) presburger
  also have "\<dots> \<longleftrightarrow> vc = CHR 0x20 \<or> vc = CHR 0x21"
    using byte_val_eq_iff[of vc "CHR 0x20"] byte_val_eq_iff[of vc "CHR 0x21"] by (simp del: byte_val_eq_iff)
  finally show ?thesis .
qed

lemma v2_body_iff:
  "v2_body vc fp high low r = Inr (Done n client) \<longleftrightarrow>
     (\<exists>body rest. r = body @ rest \<and> length body = byte_val high * 256 + byte_val low \<and> n = 16 + length body
        \<and> (if byte_val vc mod 16 = 1 then v2_block (byte_val fp div 16) body client else client = None))"
  (is "_ \<longleftrightarrow> (\<exists>body rest. ?P body rest)")
proof
  let ?len = "byte_val high * 256 + byte_val low"
  assume "v2_body vc fp high low r = Inr (Done n client)"
  then have "?P (take ?len r) (drop ?len r)"
    by (auto simp: v2_body_def be_length Let_def sum_bind_Inr_iff V2_PREAMBLE_LEN_def proxied_address_iff split: if_splits)
  then show "\<exists>body rest. ?P body rest" by blast
next
  assume "\<exists>body rest. ?P body rest"
  then obtain body rest where r: "r = body @ rest" and b: "length body = byte_val high * 256 + byte_val low"
    "n = 16 + length body" and cl: "if byte_val vc mod 16 = 1 then v2_block (byte_val fp div 16) body client else client = None"
    by blast
  from cl have "(if byte_val vc mod 16 = 1 then proxied_address (byte_val fp) body else Inr None) = Inr client"
    by (simp add: proxied_address_iff[THEN iffD2] split: if_splits)
  with b show "v2_body vc fp high low r = Inr (Done n client)"
    unfolding v2_body_def be_length Let_def by (simp only: r) (simp add: V2_PREAMBLE_LEN_def b(1)[symmetric] split: if_splits)
qed

lemma parse_v2_iff:
  "parse_v2 input = Inr (Done n client) \<longleftrightarrow>
     (\<exists>vc fp high low body rest. input = (V2_SIGNATURE @ [vc, fp, high, low] @ body) @ rest
        \<and> length body = byte_val high * 256 + byte_val low \<and> n = 16 + length body
        \<and> (vc = CHR 0x20 \<and> client = None \<or> vc = CHR 0x21 \<and> v2_block (byte_val fp div 16) body client))"
  (is "_ \<longleftrightarrow> ?R")
proof
  assume acc: "parse_v2 input = Inr (Done n client)"
  then have "signature_matches input V2_SIGNATURE = Inr True"
    by (auto simp: parse_v2_def sum_bind_Inr_iff split: if_splits)
  then obtain r where input: "input = V2_SIGNATURE @ r" using signature_matches_cases(1) by blast
  from acc obtain vc fp high low r2 where r: "r = vc # fp # high # low # r2" "vc_error vc = None"
    and body: "v2_body vc fp high low r2 = Inr (Done n client)"
    unfolding input parse_v2_whole by (auto split: list.splits option.splits)
  from r(2) have vc: "vc = CHR 0x20 \<or> vc = CHR 0x21" by (simp add: vc_error_None)
  from body obtain b rest where b: "r2 = b @ rest" "length b = byte_val high * 256 + byte_val low" "n = 16 + length b"
    "if byte_val vc mod 16 = 1 then v2_block (byte_val fp div 16) b client else client = None"
    unfolding v2_body_iff by blast
  have "input = (V2_SIGNATURE @ [vc, fp, high, low] @ b) @ rest" by (simp add: input r b(1))
  moreover from vc b(4) have "vc = CHR 0x20 \<and> client = None \<or> vc = CHR 0x21 \<and> v2_block (byte_val fp div 16) b client"
    by auto
  ultimately show ?R using b(2,3) by blast
next
  assume ?R
  then obtain vc fp high low body rest where input: "input = V2_SIGNATURE @ vc # fp # high # low # body @ rest"
    and b: "length body = byte_val high * 256 + byte_val low" "n = 16 + length body"
    and vc: "vc = CHR 0x20 \<and> client = None \<or> vc = CHR 0x21 \<and> v2_block (byte_val fp div 16) body client" by auto
  from vc have ok: "vc_error vc = None" by (auto simp: vc_error_None)
  from vc have "if byte_val vc mod 16 = 1 then v2_block (byte_val fp div 16) body client else client = None" by auto
  with b have "v2_body vc fp high low (body @ rest) = Inr (Done n client)" unfolding v2_body_iff by blast
  with ok show "parse_v2 input = Inr (Done n client)" unfolding input parse_v2_whole by simp
qed

lemma parse_Done_iff:
  "parse input = Inr (Done n client) \<longleftrightarrow>
     (\<exists>h rest. input = h @ rest \<and> n = length h \<and> proxy_header h client)"
proof
  assume acc: "parse input = Inr (Done n client)"
  then consider "parse_v2 input = Inr (Done n client)" | "parse_v1 input = Inr (Done n client)"
    by (auto simp: parse_def split: list.splits if_splits)
  then show "\<exists>h rest. input = h @ rest \<and> n = length h \<and> proxy_header h client"
  proof cases
    case 1
    then obtain vc fp high low body rest where input: "input = (V2_SIGNATURE @ [vc, fp, high, low] @ body) @ rest"
      and b: "length body = byte_val high * 256 + byte_val low" "n = 16 + length body"
      and vc: "vc = CHR 0x20 \<and> client = None \<or> vc = CHR 0x21 \<and> v2_block (byte_val fp div 16) body client"
      unfolding parse_v2_iff by blast
    from vc have "proxy_header (V2_SIGNATURE @ [vc, fp, high, low] @ body) client"
      using v2_local[OF b(1)] v2_proxy[OF b(1)] by blast
    moreover have "n = length (V2_SIGNATURE @ [vc, fp, high, low] @ body)" using b(2) by simp
    ultimately show ?thesis using input by blast
  next
    case 2
    then obtain fields rest where "input = (V1_SIGNATURE @ fields @ [CHR 0x0D, CHR 0x0A]) @ rest"
      "n = length fields + 8" and f: "CHR 0x0D \<notin> set fields" "length fields + 8 \<le> 107" "v1_text fields client"
      unfolding parse_v1_iff by blast
    moreover have "length V1_SIGNATURE = 6" by (simp add: V1_SIGNATURE_def)
    ultimately show ?thesis using v1[OF f]
      by (intro exI[of _ "V1_SIGNATURE @ fields @ [CHR 0x0D, CHR 0x0A]"] exI[of _ rest]) simp
  qed
next
  assume "\<exists>h rest. input = h @ rest \<and> n = length h \<and> proxy_header h client"
  then obtain h rest where input: "input = h @ rest" "n = length h" and h: "proxy_header h client" by blast
  have first: "parse (V1_SIGNATURE @ x) = parse_v1 (V1_SIGNATURE @ x)" "parse (V2_SIGNATURE @ x) = parse_v2 (V2_SIGNATURE @ x)" for x
    by (simp_all add: parse_def V1_SIGNATURE_def V2_SIGNATURE_def)
  from h show "parse input = Inr (Done n client)"
  proof cases
    case (v1 fields)
    then show ?thesis unfolding input append_assoc v1(1) first parse_v1_iff by (fastforce simp: V1_SIGNATURE_def)
  next
    case (v2_local body high low fp)
    then have "n = 16 + length body" using input(2) by simp
    then show ?thesis unfolding input(1) append_assoc v2_local(1) first parse_v2_iff using v2_local(2,3)
      by (intro exI[of _ "CHR 0x20"] exI[of _ fp] exI[of _ high] exI[of _ low] exI[of _ body] exI[of _ rest]) simp
  next
    case (v2_proxy body high low fp)
    then have "n = 16 + length body" using input(2) by simp
    then show ?thesis unfolding input(1) append_assoc v2_proxy(1) first parse_v2_iff using v2_proxy(2,3)
      by (intro exI[of _ "CHR 0x21"] exI[of _ fp] exI[of _ high] exI[of _ low] exI[of _ body] exI[of _ rest]) simp
  qed
qed


lemma header_of_parse:
  "parse input = Inr (Done n client) \<Longrightarrow> \<exists>h rest. input = h @ rest \<and> n = length h \<and> proxy_header h client"
  by (simp only: parse_Done_iff)

text \<open>
  C15. The parser answers \<open>Done\<close> with a length and a client exactly when the input starts with a
  header of the protocol of that length that names that client, in either version; what follows
  the header is never looked at.
\<close>

theorem parse_accepts_headers:
  "parse input = Inr (Done n client) \<longleftrightarrow>
     (\<exists>h rest. input = h @ rest \<and> n = length h \<and> proxy_header h client)"
  by (rule parse_Done_iff)

section \<open>Reading the header off a stream\<close>

type_synonym 's poll = "nat \<Rightarrow> 's \<Rightarrow> (string + bytes) option \<times> 's"

function read_header ::
  "(nat \<Rightarrow> nat) \<Rightarrow> 's poll \<Rightarrow> bytes \<Rightarrow> 's \<Rightarrow> (accept_error + socket_addr option \<times> bytes) option \<times> 's" where
  "read_header room poll buffer s =
     (case parse buffer of
        Inl e \<Rightarrow> (Some (Inl (AcceptHeader e)), s)
      | Inr (Done consumed client) \<Rightarrow> (Some (Inr (client, drop consumed buffer)), s)
      | Inr Incomplete \<Rightarrow>
          (case poll (room (length buffer)) s of
             (None, s') \<Rightarrow> (None, s')
           | (Some (Inl e), s') \<Rightarrow> (Some (Inl (AcceptIo e)), s')
           | (Some (Inr bs), s') \<Rightarrow>
               if bs = []
               then (Some (Inl (AcceptIo ''the connection closed before a complete PROXY header'')), s')
               else read_header room poll (buffer @ bs) s'))"
  by pat_completeness auto
termination
  by (relation "measure (\<lambda>(room, poll, buffer, s). MAX_HEADER_LEN - length buffer)")
    (auto dest!: parse_Incomplete_short intro: diff_less_mono2)

declare read_header.simps [simp del]

record 's prefixed =
  pf_prefix :: bytes
  pf_inner :: 's

definition buffered :: "'s prefixed \<Rightarrow> nat" where
  "buffered p = length (pf_prefix p)"

definition prefixed_poll :: "'s poll \<Rightarrow> 's prefixed poll" where
  "prefixed_poll poll room p =
     (if pf_prefix p \<noteq> []
      then (let n = min (length (pf_prefix p)) room
            in (Some (Inr (take n (pf_prefix p))), p\<lparr> pf_prefix := drop n (pf_prefix p) \<rparr>))
      else (let (answer, s') = poll room (pf_inner p) in (answer, p\<lparr> pf_inner := s' \<rparr>)))"

definition accept :: "(nat \<Rightarrow> nat) \<Rightarrow> 's poll \<Rightarrow> 's \<Rightarrow> accept_error + 's prefixed \<times> socket_addr option" where
  "accept room poll s =
     (case read_header room poll [] s of
        (None, _) \<Rightarrow> Inl AcceptTimeout
      | (Some (Inl e), _) \<Rightarrow> Inl e
      | (Some (Inr (client, leftover)), s') \<Rightarrow> Inr (\<lparr> pf_prefix = leftover, pf_inner = s' \<rparr>, client))"

text \<open>Successive reads into buffers of the given sizes, up to the first that has no bytes to give.\<close>

fun deliver :: "'s poll \<Rightarrow> nat list \<Rightarrow> 's \<Rightarrow> bytes \<times> 's" where
  "deliver poll [] s = ([], s)"
| "deliver poll (n # ns) s =
     (case poll n s of
        (Some (Inr bs), s') \<Rightarrow> (let (rest, t) = deliver poll ns s' in (bs @ rest, t))
      | _ \<Rightarrow> ([], s))"

definition prefixed_content :: "('s \<Rightarrow> bytes) \<Rightarrow> 's prefixed \<Rightarrow> bytes" where
  "prefixed_content content p = pf_prefix p @ content (pf_inner p)"

text \<open>
  What a client relies on of an \<open>AsyncRead\<close>: \<open>content\<close> is what the stream still has to give,
  and a read hands over its front.
\<close>

locale byte_source =
  fixes poll :: "'s poll" and content :: "'s \<Rightarrow> bytes"
  assumes poll_front: "poll n s = (Some (Inr bs), s') \<Longrightarrow> content s = bs @ content s'"
begin

lemma deliver_front: "deliver poll ns s = (bs, s') \<Longrightarrow> content s = bs @ content s'"
proof (induction ns arbitrary: s bs)
  case (Cons n ns)
  then show ?case
    by (fastforce split: prod.splits option.splits sum.splits dest: poll_front simp: Let_def)
qed simp

lemma prefixed_front:
  "prefixed_poll poll n p = (Some (Inr bs), p') \<Longrightarrow> prefixed_content content p = bs @ prefixed_content content p'"
  by (auto simp: prefixed_poll_def prefixed_content_def Let_def split: if_splits prod.splits dest: poll_front)

lemma read_header_front:
  assumes "read_header room q buffer s = (Some (Inr (client, leftover)), s')" "q = poll"
  shows "\<exists>n. parse (buffer @ content s) = Inr (Done n client)
           \<and> leftover @ content s' = drop n (buffer @ content s)"
  using assms
proof (induction room q buffer s rule: read_header.induct)
  case (1 room q buffer s)
  note run = "1.prems"(1)[unfolded read_header.simps[of room q buffer s]]
  show ?case
  proof (cases "parse buffer")
    case (Inr r)
    show ?thesis
    proof (cases r)
      case (Done n c)
      with Inr parse_stable[of buffer "content s"] header_of_parse[of buffer n c] run show ?thesis by auto
    next
      case Incomplete
      obtain answer t where polled: "q (room (length buffer)) s = (answer, t)" by (cases "q (room (length buffer)) s")
      with run Inr Incomplete obtain bs where bs: "answer = Some (Inr bs)" "bs \<noteq> []"
        and rest: "read_header room q (buffer @ bs) t = (Some (Inr (client, leftover)), s')"
        by (auto split: option.splits sum.splits if_splits)
      from poll_front polled bs "1.prems"(2) have "content s = bs @ content t" by simp
      moreover from "1.IH"[OF Inr Incomplete polled[symmetric] bs(1) refl bs(2) rest "1.prems"(2)]
      obtain n where "parse ((buffer @ bs) @ content t) = Inr (Done n client)"
        "leftover @ content s' = drop n ((buffer @ bs) @ content t)" by blast
      ultimately show ?thesis by auto
    qed
  qed (use run in simp)
qed

end

text \<open>
  A socket: what it will report, in order. A read takes what fits and leaves the rest; with
  nothing more to report it stays pending.
\<close>

type_synonym socket = "(string + bytes) list"

fun socket_poll :: "socket poll" where
  "socket_poll n [] = (None, [])"
| "socket_poll n (Inl e # s) = (Some (Inl e), s)"
| "socket_poll n (Inr bs # s) =
     (if length bs \<le> n then (Some (Inr bs), s) else (Some (Inr (take n bs)), Inr (drop n bs) # s))"

fun socket_content :: "socket \<Rightarrow> bytes" where
  "socket_content [] = []"
| "socket_content (Inl e # s) = socket_content s"
| "socket_content (Inr bs # s) = bs @ socket_content s"

lemma socket_front: "socket_poll n s = (Some (Inr bs), s') \<Longrightarrow> socket_content s = bs @ socket_content s'"
  by (induction n s rule: socket_poll.induct) (auto split: if_splits)

interpretation sock: byte_source socket_poll socket_content
  by unfold_locales (rule socket_front)

interpretation pfx: byte_source "prefixed_poll socket_poll" "prefixed_content socket_content"
  by unfold_locales (rule sock.prefixed_front)

text \<open>
  No byte of the connection is lost, repeated or reordered: when a connection is accepted,
  what it sent is a header naming the accepted client, then exactly the bytes the application
  has read from the returned stream so far, then what that stream still has to give, however
  the reads of either side are sized.
\<close>

theorem accept_preserves_stream:
  assumes "accept room socket_poll s = Inr (p, client)"
    and "deliver (prefixed_poll socket_poll) ns p = (bs, p')"
  shows "\<exists>h. proxy_header h client \<and> socket_content s = h @ bs @ prefixed_content socket_content p'"
proof -
  from assms(1) obtain leftover s' where "read_header room socket_poll [] s = (Some (Inr (client, leftover)), s')"
    and p: "p = \<lparr> pf_prefix = leftover, pf_inner = s' \<rparr>"
    by (auto simp: accept_def split: prod.splits option.splits sum.splits)
  from sock.read_header_front[OF this(1) refl] obtain n
    where "parse (socket_content s) = Inr (Done n client)" and left: "leftover @ socket_content s' = drop n (socket_content s)"
    by auto
  then obtain h rest where h: "socket_content s = h @ rest" "n = length h" "proxy_header h client"
    using header_of_parse by blast
  have "prefixed_content socket_content p = rest" using left h by (simp add: p prefixed_content_def)
  with pfx.deliver_front[OF assms(2)] h show ?thesis by auto
qed


lemma read_header_pieces:
  assumes "s = map Inr chunks" "[] \<notin> set chunks" "\<And>n. 0 < room n" "q = socket_poll"
  shows "case parse (buffer @ concat chunks) of
           Inl e \<Rightarrow> fst (read_header room q buffer s) = Some (Inl (AcceptHeader e))
         | Inr Incomplete \<Rightarrow> fst (read_header room q buffer s) = None
         | Inr (Done n client) \<Rightarrow> (\<exists>rest s'. read_header room q buffer s = (Some (Inr (client, rest)), s')
             \<and> rest @ socket_content s' = drop n (buffer @ concat chunks))"
  using assms
proof (induction room q buffer s arbitrary: chunks rule: read_header.induct)
  case (1 room q buffer s)
  have content: "socket_content s = concat chunks" unfolding "1.prems"(1) by (induction chunks) auto
  show ?case
  proof (cases "parse buffer = Inr Incomplete")
    case False
    note same = parse_stable[OF False, of "concat chunks"]
    show ?thesis
    proof (cases "parse buffer")
      case (Inl e)
      then show ?thesis by (simp add: same read_header.simps)
    next
      case (Inr r)
      with False obtain n c where "parse buffer = Inr (Done n c)" by (cases r) auto
      with header_of_parse[of buffer n c] show ?thesis by (auto simp: same read_header.simps content)
    qed
  next
    case True
    show ?thesis
    proof (cases chunks)
      case Nil
      with True "1.prems" show ?thesis by (simp add: read_header.simps[of room socket_poll buffer "[]"])
    next
      case (Cons c cs)
      let ?n = "room (length buffer)"
      let ?bs = "take ?n c" and ?rest = "if length c \<le> ?n then cs else drop ?n c # cs"
      have polled: "q ?n s = (Some (Inr ?bs), map Inr ?rest)" and bs: "?bs \<noteq> []"
        using "1.prems" Cons by auto
      have step: "read_header room q buffer s = read_header room q (buffer @ ?bs) (map Inr ?rest)"
        using True polled bs by (subst read_header.simps) simp
      have cat: "buffer @ concat chunks = (buffer @ ?bs) @ concat ?rest" using Cons by simp
      have "[] \<notin> set ?rest" using "1.prems"(2) Cons by auto
      from "1.IH"[OF True refl polled[symmetric] refl refl bs refl this "1.prems"(3,4)]
      show ?thesis unfolding step cat by simp
    qed
  qed
qed

text \<open>
  C16. Reading the header terminates, and its outcome does not depend on how the bytes arrive: over
  non-empty reads of any sizes it is the parser's answer on all the bytes, with the deadline
  reached exactly when they end inside a header.
\<close>

theorem accept_in_pieces:
  assumes "[] \<notin> set chunks" "\<And>n. 0 < room n"
  shows "case parse (concat chunks) of
           Inl e \<Rightarrow> accept room socket_poll (map Inr chunks) = Inl (AcceptHeader e)
         | Inr Incomplete \<Rightarrow> accept room socket_poll (map Inr chunks) = Inl AcceptTimeout
         | Inr (Done n client) \<Rightarrow> (\<exists>p. accept room socket_poll (map Inr chunks) = Inr (p, client)
             \<and> prefixed_content socket_content p = drop n (concat chunks))"
  using read_header_pieces[where buffer = "[]" and room = room, OF refl assms(1) assms(2) refl]
  by (auto simp: accept_def prefixed_content_def split: sum.splits parsed.splits prod.splits option.splits)

definition sample_line :: bytes where
  "sample_line = ''PROXY TCP4 192.0.2.7 10.0.0.1 51234 443'' @ [CHR 0x0D, CHR 0x0A]"

lemma sample_header: "proxy_header sample_line (Some (SocketAddr (IPv4 192 0 2 7) 51234))"
proof -
  have shown: "show_ipv4 192 0 2 7 = ''192.0.2.7''" "show_ipv4 10 0 0 1 = ''10.0.0.1''" by code_simp+
  have ports: "port_text ''51234'' 51234" "port_text ''443'' 443"
    by (simp_all add: port_text_def ascii_defs digits_val_def digit_val_def)
  from v1[OF _ _ tcp4[OF ports, of 192 0 2 7 10 0 0 1]] show ?thesis
    by (simp add: sample_line_def V1_SIGNATURE_def shown)
qed

lemma sample_parse: "parse (sample_line @ rest) = Inr (Done 41 (Some (SocketAddr (IPv4 192 0 2 7) 51234)))"
proof -
  have "length sample_line = 41" by (simp add: sample_line_def)
  then show ?thesis unfolding parse_Done_iff using sample_header by (intro exI[of _ sample_line] exI[of _ rest]) simp
qed

theorem accept_in_pieces_witness:
  "\<exists>p. accept (\<lambda>_. 20) socket_poll (map Inr [take 3 sample_line, drop 3 sample_line @ ''GET'', '' /''])
         = Inr (p, Some (SocketAddr (IPv4 192 0 2 7) 51234))
     \<and> prefixed_content socket_content p = ''GET /''"
proof -
  let ?chunks = "[take 3 sample_line, drop 3 sample_line @ ''GET'', '' /'']"
  have ne: "[] \<notin> set ?chunks" by (simp add: sample_line_def)
  have all: "concat ?chunks = sample_line @ ''GET /''" by simp
  have "length sample_line = 41" by (simp add: sample_line_def)
  with accept_in_pieces[OF ne, of "\<lambda>_. 20", unfolded all sample_parse] show ?thesis by simp
qed

theorem accept_preserves_stream_witness:
  "\<exists>p p' h. accept (\<lambda>_. 64) socket_poll [Inr (sample_line @ ''GET /'')] = Inr (p, Some (SocketAddr (IPv4 192 0 2 7) 51234))
     \<and> deliver (prefixed_poll socket_poll) [3] p = (''GET'', p')
     \<and> proxy_header h (Some (SocketAddr (IPv4 192 0 2 7) 51234))
     \<and> socket_content [Inr (sample_line @ ''GET /'')] = h @ ''GET'' @ prefixed_content socket_content p'"
proof -
  let ?p = "\<lparr> pf_prefix = ''GET /'', pf_inner = [] :: socket \<rparr>" and ?p' = "\<lparr> pf_prefix = '' /'', pf_inner = [] :: socket \<rparr>"
  have len: "length sample_line = 41" by (simp add: sample_line_def)
  have "parse [] = Inr Incomplete" by (simp add: parse_def)
  then have acc: "accept (\<lambda>_. 64) socket_poll [Inr (sample_line @ ''GET /'')] = Inr (?p, Some (SocketAddr (IPv4 192 0 2 7) 51234))"
    by (simp add: accept_def read_header.simps sample_parse len)
  have del: "deliver (prefixed_poll socket_poll) [3] ?p = (''GET'', ?p')" by (simp add: prefixed_poll_def)
  from accept_preserves_stream[OF acc del] acc del show ?thesis by blast
qed

end
