(* ===== verification/Events.thy ===== *)
theory Events
  imports Exchange Helper Proxy_Protocol
begin

text \<open>
  The completion handlers of a core, \<open>crates/ramjet-engine/src/engine/worker.rs\<close>: accepting,
  reading and writing for clients, upstreams and the admin endpoint, the notes of the connect
  watcher, the clock and the shutdown. \<open>Exchange\<close> is the state machine they drive.

  A handler that may end the core returns whether it goes on, with the worker; the others cannot
  fail. A completion carries its tag, its result (a count or a descriptor, or an error number) and
  the buffer it gave back. Looking at an unused slot extends the sweeps' range by empty slots in
  the code, which has no effect, and is not modelled.
\<close>

section \<open>Starting\<close>

definition worker_new ::
    "nat \<Rightarrow> nat \<Rightarrow> 'r route_table \<Rightarrow> heap \<Rightarrow> route_slot list \<Rightarrow> core_metrics \<Rightarrow> u64 \<Rightarrow> bool \<Rightarrow> bool
      \<Rightarrow> intake list \<Rightarrow> raw_fd option \<Rightarrow> raw_fd \<Rightarrow> ('r, 'p, 'a, 'd, 'c) worker" where
  "worker_new max_idle idle_timeout t hp routes metrics rng readiness shutdown intakes admin notify =
     \<lparr> wk_slots = (\<lambda>_. SlotEmpty), wk_high_water = 0, wk_generations = (\<lambda>_. 0), wk_pool = pool_new max_idle idle_timeout,
       wk_intakes = intakes, wk_intake_partial = [], wk_admin = admin, wk_notify = notify, wk_notes = [],
       wk_drain_deadline = None, wk_drain_inflight = 0, wk_drain_expired = False, wk_table = t, wk_heap = hp,
       wk_routes = routes, wk_metrics = metrics, wk_rng = rng, wk_ready = readiness, wk_shutdown = shutdown, wk_log = [] \<rparr>"

datatype role = RoleClient bool | RoleAdmin

fun accept_kind :: "role \<Rightarrow> u8" where
  "accept_kind RoleAdmin = K_ADMIN_ACCEPT"
| "accept_kind (RoleClient False) = K_ACCEPT"
| "accept_kind (RoleClient True) = K_ACCEPT_TLS"

record completion =
  cp_user :: u64
  cp_result :: "int option + int"
  cp_buf :: "bytes option"

text \<open>The bytes a read delivered, when it delivered any.\<close>

definition arrived :: "int option + int \<Rightarrow> bytes \<Rightarrow> bytes option" where
  "arrived result buf =
     (case result of Inr n \<Rightarrow> if 0 < n then Some (take (nat n) buf) else None | Inl _ \<Rightarrow> None)"

definition arm_notify :: "('r, 'p, 'a, 'd, 'c, 'f) wenv \<Rightarrow> ('r, 'p, 'a, 'd, 'c) worker \<Rightarrow> bool \<times> ('r, 'p, 'a, 'd, 'c) worker" where
  "arm_notify E w = submit E K_NOTIFY (wk_notify w) (OpRead (wk_notify w)) w"

definition arm_accept :: "('r, 'p, 'a, 'd, 'c, 'f) wenv \<Rightarrow> raw_fd \<Rightarrow> u8 \<Rightarrow> ('r, 'p, 'a, 'd, 'c) worker \<Rightarrow> bool \<times> ('r, 'p, 'a, 'd, 'c) worker" where
  "arm_accept E fd k w = submit E k fd (OpAccept fd) w"

definition arm_intake :: "('r, 'p, 'a, 'd, 'c, 'f) wenv \<Rightarrow> raw_fd \<Rightarrow> bool \<Rightarrow> ('r, 'p, 'a, 'd, 'c) worker \<Rightarrow> bool \<times> ('r, 'p, 'a, 'd, 'c) worker" where
  "arm_intake E fd tls w = submit E (if tls then K_INTAKE_TLS else K_INTAKE) fd (OpRead fd) w"

definition start_client ::
    "('r, 'p, 'a, 'd, 'c, 'f) wenv \<Rightarrow> nat \<Rightarrow> raw_fd \<Rightarrow> bool \<Rightarrow> ('r, 'p, 'a, 'd, 'c) worker \<Rightarrow> ('r, 'p, 'a, 'd, 'c) worker" where
  "start_client E now fd tls w =
     (if \<not> we_nonblocking E fd then log_effect (SysClose fd) w
      else
        let peer = opt_or (IPv4 0 0 0 0) (we_peer_addr E fd);
            w1 = bump_generation fd w;
            c = (conn_new peer (if tls then Some (session_new (we_rustls E)) else None))\<lparr> cn_deadline := Some (now + CLIENT_IDLE) \<rparr>;
            c1 = (case we_proxy_protocol E of
                    None \<Rightarrow> c
                  | Some timeout \<Rightarrow> c\<lparr> cn_preface := Some [], cn_deadline := Some (now + timeout) \<rparr>)
        in drive E fd (on_metrics core_connection_opened (put_client fd c1 w1)))"

section \<open>The admin endpoint\<close>

definition write_admin :: "encoder \<Rightarrow> bytes \<Rightarrow> u16 \<Rightarrow> bytes \<Rightarrow> string option \<Rightarrow> bool \<Rightarrow> bytes" where
  "write_admin N out status body content_type head =
     (let headers = [(''Content-Type'', opt_or ''text/plain; charset=utf-8'' content_type), (''Connection'', ''close'')]
      in out @ opt_or BARE_500 (if head then en_head_only N status headers (length body) else en_response N status headers body))"

definition admin_response :: "('r, 'p, 'a, 'd, 'c, 'f) wenv \<Rightarrow> ('r, 'p, 'a, 'd, 'c) worker \<Rightarrow> admin_conn \<Rightarrow> bytes" where
  "admin_response E w a =
     (let method = opt_or [] (head_method (ad_head a) (ad_inbox a));
          target = opt_or [] (head_target (ad_head a) (ad_inbox a));
          path = hd (split_on (CHR ''?'') target);
          head_only = eq_ignore_ascii_case method ''HEAD'';
          answer = (\<lambda>status body content_type. write_admin (we_encoder E) [] status body content_type head_only) in
      if \<not> eq_ignore_ascii_case method ''GET'' \<and> \<not> head_only then answer 405 (''method not allowed'' @ LF) None
      else if path = ''/metrics''
      then answer 200 (we_metrics_page E (rt_generation (wk_table w))) (Some ''text/plain; version=0.0.4; charset=utf-8'')
      else if path = ''/healthz'' then answer 200 (''ok'' @ LF) None
      else if path = ''/readyz''
      then (if wk_ready w then answer 200 (''ready'' @ LF) None else answer 503 (''not ready'' @ LF) None)
      else answer 404 (''not found'' @ LF) None)"

definition with_admin ::
    "raw_fd \<Rightarrow> (admin_conn \<Rightarrow> ('r, 'p, 'a, 'd, 'c) worker \<Rightarrow> ('r, 'p, 'a, 'd, 'c) worker)
      \<Rightarrow> ('r, 'p, 'a, 'd, 'c) worker \<Rightarrow> ('r, 'p, 'a, 'd, 'c) worker" where
  "with_admin fd f w =
     (case wk_slots w fd of
        AdminSlot a \<Rightarrow> f a (set_slot fd Taken w)
      | _ \<Rightarrow> set_slot fd SlotEmpty w)"

definition drive_admin :: "('r, 'p, 'a, 'd, 'c, 'f) wenv \<Rightarrow> raw_fd \<Rightarrow> ('r, 'p, 'a, 'd, 'c) worker \<Rightarrow> ('r, 'p, 'a, 'd, 'c) worker" where
  "drive_admin E fd = with_admin fd (\<lambda>a w.
     if \<not> ad_writing a \<and> ad_outbox a \<noteq> []
     then let (ok, w1) = submit E K_ADMIN_WRITE fd (OpWrite fd (ad_outbox a)) w;
              a1 = a\<lparr> ad_outbox := [] \<rparr>
          in set_slot fd (AdminSlot (if ok then a1\<lparr> ad_writing := True \<rparr> else a1)) w1
     else if \<not> ad_reading a \<and> \<not> ad_writing a \<and> ad_outbox a = []
     then let (ok, w1) = submit E K_ADMIN_READ fd (OpRead fd) w
          in set_slot fd (AdminSlot (if ok then a\<lparr> ad_reading := True \<rparr> else a)) w1
     else set_slot fd (AdminSlot a) w)"

definition start_admin :: "('r, 'p, 'a, 'd, 'c, 'f) wenv \<Rightarrow> raw_fd \<Rightarrow> ('r, 'p, 'a, 'd, 'c) worker \<Rightarrow> ('r, 'p, 'a, 'd, 'c) worker" where
  "start_admin E fd w =
     (if \<not> we_nonblocking E fd then log_effect (SysClose fd) w
      else drive_admin E fd (set_slot fd (AdminSlot
             \<lparr> ad_fd = fd, ad_inbox = [], ad_outbox = [], ad_head = head_default, ad_reading = False,
               ad_writing = False, ad_drain_counted = False \<rparr>) (bump_generation fd w)))"

definition on_admin_read ::
    "('r, 'p, 'a, 'd, 'c, 'f) wenv \<Rightarrow> raw_fd \<Rightarrow> completion \<Rightarrow> ('r, 'p, 'a, 'd, 'c) worker \<Rightarrow> ('r, 'p, 'a, 'd, 'c) worker" where
  "on_admin_read E fd cp w0 =
     (case cp_buf cp of
        None \<Rightarrow> w0
      | Some buf \<Rightarrow> with_admin fd (\<lambda>a0 w.
          case arrived (cp_result cp) buf of
            None \<Rightarrow> close_fd E fd w
          | Some bs \<Rightarrow>
              (let a = a0\<lparr> ad_reading := False, ad_inbox := ad_inbox a0 @ bs \<rparr>;
                   (parsed, h) = parse_request_head (ad_inbox a) (ad_head a);
                   a1 = a\<lparr> ad_head := h \<rparr>;
                   a2 = (case parsed of
                           Inr False \<Rightarrow> a1
                         | Inl _ \<Rightarrow> a1\<lparr> ad_outbox := write_static_unsupported (we_encoder E) (ad_outbox a1) 400 (''bad request'' @ LF) True None \<rparr>
                         | Inr True \<Rightarrow> a1\<lparr> ad_outbox := ad_outbox a1 @ admin_response E w a1 \<rparr>)
               in drive_admin E fd (set_slot fd (AdminSlot a2) w))) w0)"

definition on_admin_write ::
    "('r, 'p, 'a, 'd, 'c, 'f) wenv \<Rightarrow> raw_fd \<Rightarrow> completion \<Rightarrow> ('r, 'p, 'a, 'd, 'c) worker \<Rightarrow> ('r, 'p, 'a, 'd, 'c) worker" where
  "on_admin_write E fd cp = with_admin fd (\<lambda>a0 w.
     let a = a0\<lparr> ad_writing := False \<rparr>;
         w1 = set_slot fd (AdminSlot a) w
     in if ad_outbox a = [] \<or> isl (cp_result cp) then close_fd E fd w1 else drive_admin E fd w1)"

section \<open>The client's bytes\<close>

datatype preface = PrefaceDone bytes | PrefaceMore | PrefaceRejected

definition consume_preface ::
    "nat \<Rightarrow> bytes \<Rightarrow> ('r, 'p, 'a, 'd, 'c) conn \<Rightarrow> preface \<times> ('r, 'p, 'a, 'd, 'c) conn" where
  "consume_preface now bs c =
     (case cn_preface c of
        None \<Rightarrow> (PrefaceDone [], c)
      | Some seen \<Rightarrow>
          (let input = seen @ bs; c1 = c\<lparr> cn_preface := Some input \<rparr> in
           case Proxy_Protocol.parse input of
             Inr Incomplete \<Rightarrow> (PrefaceMore, c1)
           | Inr (Done consumed client) \<Rightarrow>
               (PrefaceDone (drop consumed input),
                (case client of None \<Rightarrow> c1 | Some addr \<Rightarrow> c1\<lparr> cn_peer := sa_ip addr \<rparr>)
                  \<lparr> cn_preface := None, cn_deadline := Some (now + CLIENT_IDLE) \<rparr>)
           | Inl _ \<Rightarrow> (PrefaceRejected, c1\<lparr> cn_outbox := [], cn_phase := PhClosing, cn_client_eof := True \<rparr>)))"

text \<open>The end of \<open>ingest\<close>: a handshake that has just finished is counted once.\<close>

definition count_handshake ::
    "('r, 'p, 'a, 'd, 'c, 'f) wenv \<Rightarrow> ('r, 'p, 'a, 'd, 'c) conn \<times> ('r, 'p, 'a, 'd, 'c) worker
      \<Rightarrow> ('r, 'p, 'a, 'd, 'c) conn \<times> ('r, 'p, 'a, 'd, 'c) worker" where
  "count_handshake E = (\<lambda>(c, w).
     case cn_tls c of
       None \<Rightarrow> (c, w)
     | Some s \<Rightarrow> (let (fresh, s1) = take_established (we_rustls E) s
                 in (c\<lparr> cn_tls := Some s1 \<rparr>, if fresh then on_metrics core_tls_handshake w else w)))"

definition tls_failed ::
    "('a, 'd, 'c) session \<Rightarrow> ('r, 'p, 'a, 'd, 'c) conn \<times> ('r, 'p, 'a, 'd, 'c) worker
      \<Rightarrow> ('r, 'p, 'a, 'd, 'c) conn \<times> ('r, 'p, 'a, 'd, 'c) worker" where
  "tls_failed s = (\<lambda>(c, w). (c\<lparr> cn_tls := Some s, cn_phase := PhClosing \<rparr>, on_metrics core_tls_handshake_failure w))"

definition ingest ::
    "('r, 'p, 'a, 'd, 'c, 'f) wenv \<Rightarrow> nat \<Rightarrow> bytes \<Rightarrow> ('r, 'p, 'a, 'd, 'c) conn \<times> ('r, 'p, 'a, 'd, 'c) worker
      \<Rightarrow> ('r, 'p, 'a, 'd, 'c) conn \<times> ('r, 'p, 'a, 'd, 'c) worker" where
  "ingest E now bs = (\<lambda>(c0, w).
     case (if cn_preface c0 = None then (PrefaceDone bs, c0) else consume_preface now bs c0) of
       (PrefaceDone rest, c) \<Rightarrow>
         (case cn_tls c of
            None \<Rightarrow> (c\<lparr> cn_inbox := cn_inbox c @ rest \<rparr>, w)
          | Some s \<Rightarrow>
              (let R = we_rustls E;
                   (step, plain, s1) = tls_feed R rest (cn_inbox c) s;
                   c1 = c\<lparr> cn_inbox := plain, cn_tls := Some s1 \<rparr> in
               case step of
                 None \<Rightarrow> tls_failed (tls_kill s1) (c1, w)
               | Some (HelloStep offer) \<Rightarrow>
                   if offer = OfferHttp2 \<and> we_dispatch E then (c1\<lparr> cn_hand_off := True \<rparr>, w)
                   else (case we_tls_config E of
                           None \<Rightarrow> tls_failed (tls_kill s1) (c1, w)
                         | Some config \<Rightarrow>
                             (let (ok, plain2, s2) = tls_accept R config plain s1;
                                  c2 = c1\<lparr> cn_inbox := plain2, cn_tls := Some s2 \<rparr>
                              in if ok then count_handshake E (c2, on_metrics core_dispatched_here w)
                                 else tls_failed s2 (c2, w)))
               | Some _ \<Rightarrow> count_handshake E (c1, w)))
     | (_, c) \<Rightarrow> (c, w))"

text \<open>What a read's result makes of a connection.\<close>

definition client_read ::
    "('r, 'p, 'a, 'd, 'c, 'f) wenv \<Rightarrow> nat \<Rightarrow> int option + int \<Rightarrow> bytes
      \<Rightarrow> ('r, 'p, 'a, 'd, 'c) conn \<times> ('r, 'p, 'a, 'd, 'c) worker \<Rightarrow> ('r, 'p, 'a, 'd, 'c) conn \<times> ('r, 'p, 'a, 'd, 'c) worker" where
  "client_read E now result buf = (\<lambda>(c, w).
     case result of
       Inr n \<Rightarrow>
         if 0 < n
         then let (c1, w1) = ingest E now (take (nat n) buf) (c, w)
              in (if cn_preface c1 = None then c1\<lparr> cn_deadline := Some (now + CLIENT_IDLE) \<rparr> else c1, w1)
         else (case cn_tls c of
                 None \<Rightarrow> (c\<lparr> cn_client_eof := True \<rparr>, w)
               | Some s \<Rightarrow>
                   if tls_established (we_rustls E) s then (c\<lparr> cn_client_eof := True \<rparr>, w)
                   else (c\<lparr> cn_client_eof := True, cn_tls := Some (tls_kill s) \<rparr>, on_metrics core_tls_handshake_failure w))
     | Inl _ \<Rightarrow>
         (c\<lparr> cn_client_eof := True, cn_outbox := [],
             cn_tls := map_option (\<lambda>s. tls_kill (s\<lparr> ts_wire_out := [] \<rparr>)) (cn_tls c), cn_phase := PhClosing \<rparr>, w))"

definition on_client_read ::
    "('r, 'p, 'a, 'd, 'c, 'f) wenv \<Rightarrow> nat \<Rightarrow> raw_fd \<Rightarrow> completion \<Rightarrow> ('r, 'p, 'a, 'd, 'c) worker \<Rightarrow> ('r, 'p, 'a, 'd, 'c) worker" where
  "on_client_read E now fd cp w0 =
     (case (cp_buf cp, wk_slots w0 fd) of
        (None, _) \<Rightarrow> w0
      | (Some buf, Client c) \<Rightarrow>
          (let (c1, w1) = client_read E now (cp_result cp) buf (c\<lparr> cn_reading := False \<rparr>, set_slot fd Taken w0)
           in advance E now fd (put_client fd c1 w1))
      | _ \<Rightarrow> set_slot fd SlotEmpty w0)"

definition on_client_write ::
    "('r, 'p, 'a, 'd, 'c, 'f) wenv \<Rightarrow> nat \<Rightarrow> raw_fd \<Rightarrow> completion \<Rightarrow> ('r, 'p, 'a, 'd, 'c) worker \<Rightarrow> ('r, 'p, 'a, 'd, 'c) worker" where
  "on_client_write E now fd cp = with_conn fd (\<lambda>c0 w.
     let c = c0\<lparr> cn_writing := False \<rparr>
     in advance E now fd (put_client fd (if isl (cp_result cp) then c\<lparr> cn_outbox := [], cn_phase := PhClosing \<rparr> else c) w))"

section \<open>The upstream\<close>

definition on_upstream_eof ::
    "('r, 'p, 'a, 'd, 'c, 'f) wenv \<Rightarrow> nat \<Rightarrow> raw_fd \<Rightarrow> ('r, 'p, 'a, 'd, 'c) worker \<Rightarrow> ('r, 'p, 'a, 'd, 'c) worker" where
  "on_upstream_eof E now down = with_conn down (\<lambda>c w.
     if cn_phase c = PhTunnel
     then advance E now down (put_client down (c\<lparr> cn_upstream_eof := True, cn_up_reading := False \<rparr>) w)
     else if cn_response_head_seen c \<and> cn_response_body c = BodyUntilClose
     then advance E now down (finish_response E now down
            (put_client down (c\<lparr> cn_outbox := cn_outbox c @ cn_up_inbox c, cn_up_inbox := [],
                                 cn_response_body := BodyDone, cn_upstream_keep_alive := False \<rparr>) w))
     else advance_if E now down (upstream_failed E now down (put_client down c w)))"

definition on_upstream_read ::
    "('r, 'p, 'a, 'd, 'c, 'f) wenv \<Rightarrow> nat \<Rightarrow> raw_fd \<Rightarrow> completion \<Rightarrow> ('r, 'p, 'a, 'd, 'c) worker \<Rightarrow> ('r, 'p, 'a, 'd, 'c) worker" where
  "on_upstream_read E now up cp w0 =
     (case cp_buf cp of
        None \<Rightarrow> w0
      | Some buf \<Rightarrow>
          (case wk_slots w0 up of
             UpstreamOf down \<Rightarrow>
               with_conn down (\<lambda>c0 w.
                 let c = c0\<lparr> cn_up_reading := False \<rparr> in
                 case arrived (cp_result cp) buf of
                   Some bs \<Rightarrow> advance E now down (put_client down (c\<lparr> cn_up_inbox := cn_up_inbox c @ bs \<rparr>) w)
                 | None \<Rightarrow>
                     (case cp_result cp of
                        Inr _ \<Rightarrow> on_upstream_eof E now down (put_client down c w)
                      | Inl _ \<Rightarrow> advance_if E now down (upstream_failed E now down (put_client down c w)))) w0
           | IdleTo addr \<Rightarrow> close_fd E up (w0\<lparr> wk_pool := snd (pool_remove addr up (wk_pool w0)) \<rparr>)
           | _ \<Rightarrow> w0))"

definition on_upstream_write ::
    "('r, 'p, 'a, 'd, 'c, 'f) wenv \<Rightarrow> nat \<Rightarrow> raw_fd \<Rightarrow> completion \<Rightarrow> ('r, 'p, 'a, 'd, 'c) worker \<Rightarrow> ('r, 'p, 'a, 'd, 'c) worker" where
  "on_upstream_write E now up cp w0 =
     (case wk_slots w0 up of
        UpstreamOf down \<Rightarrow>
          with_conn down (\<lambda>c0 w.
            let c = c0\<lparr> cn_up_writing := False \<rparr> in
            if isl (cp_result cp) then advance_if E now down (upstream_failed E now down (put_client down c w))
            else advance E now down (put_client down (c\<lparr> cn_up_ready := True \<rparr>) w)) w0
      | _ \<Rightarrow> w0)"

definition on_connected ::
    "('r, 'p, 'a, 'd, 'c, 'f) wenv \<Rightarrow> nat \<Rightarrow> raw_fd \<Rightarrow> int \<Rightarrow> ('r, 'p, 'a, 'd, 'c) worker \<Rightarrow> ('r, 'p, 'a, 'd, 'c) worker" where
  "on_connected E now up err w0 =
     (case wk_slots w0 up of
        UpstreamOf down \<Rightarrow>
          (case wk_slots w0 down of
             Client c0 \<Rightarrow>
               (let c = c0\<lparr> cn_up_borrowed := False \<rparr>; w = set_slot down Taken w0 in
                if err = 0
                then advance E now down (put_client down (c\<lparr> cn_up_ready := True, cn_phase := PhExchanging \<rparr>) w)
                else advance_if E now down (retry_or_fail E now down
                       (put_client down (c\<lparr> cn_upstream := None \<rparr>)
                         (on_metrics core_connect_failure (log_effect (SysClose up) (set_slot up SlotEmpty w))))))
           | _ \<Rightarrow> log_effect (SysClose up) (set_slot up SlotEmpty (set_slot down SlotEmpty w0)))
      | _ \<Rightarrow> log_effect (SysClose up) (set_slot up SlotEmpty w0))"

section \<open>The clock\<close>

definition tick_client ::
    "('r, 'p, 'a, 'd, 'c, 'f) wenv \<Rightarrow> nat \<Rightarrow> raw_fd \<Rightarrow> ('r, 'p, 'a, 'd, 'c) worker \<Rightarrow> ('r, 'p, 'a, 'd, 'c) worker" where
  "tick_client E now fd w =
     (case wk_slots w fd of
        Client c \<Rightarrow>
          if \<not> (case cn_deadline c of None \<Rightarrow> False | Some d \<Rightarrow> d \<le> now) then w
          else if cn_phase c = PhExchanging \<or> cn_phase c = PhConnecting
          then drive E fd (fail E fd 504 TIMEOUT True (on_metrics core_timeout w))
          else if cn_phase c = PhHead then close_fd E fd (on_metrics core_connection_closed w)
          else put_client fd (c\<lparr> cn_deadline := Some (now + we_response_timeout E) \<rparr>) w
      | _ \<Rightarrow> w)"

definition on_tick :: "('r, 'p, 'a, 'd, 'c, 'f) wenv \<Rightarrow> nat \<Rightarrow> ('r, 'p, 'a, 'd, 'c) worker \<Rightarrow> ('r, 'p, 'a, 'd, 'c) worker" where
  "on_tick E now w =
     (if (case wk_drain_deadline w of None \<Rightarrow> False | Some deadline \<Rightarrow> 0 < wk_drain_inflight w \<and> deadline \<le> now)
      then w\<lparr> wk_drain_expired := True \<rparr>
      else
        let (expired, pool) = pool_expire now (wk_pool w);
            w1 = fold (close_fd E) expired (w\<lparr> wk_pool := pool \<rparr>)
        in fold (\<lambda>i. tick_client E now (int i)) [0..<wk_high_water w1] w1)"

section \<open>Arrivals\<close>

definition on_accept ::
    "('r, 'p, 'a, 'd, 'c, 'f) wenv \<Rightarrow> nat \<Rightarrow> raw_fd \<Rightarrow> completion \<Rightarrow> role
      \<Rightarrow> ('r, 'p, 'a, 'd, 'c) worker \<Rightarrow> bool \<times> ('r, 'p, 'a, 'd, 'c) worker" where
  "on_accept E now listener cp role w =
     (let go = (\<lambda>accepted.
           if wk_drain_deadline w \<noteq> None
           then (True, case accepted of None \<Rightarrow> w | Some fd \<Rightarrow> log_effect (SysClose fd) w)
           else (let (armed, w1) = arm_accept E listener (accept_kind role) w in
                 if \<not> armed then (False, w1)
                 else case accepted of
                        None \<Rightarrow> (True, w1)
                      | Some fd \<Rightarrow> (True, case role of RoleAdmin \<Rightarrow> start_admin E fd w1
                                                  | RoleClient tls \<Rightarrow> start_client E now fd tls w1)))
      in case cp_result cp of
           Inr fd \<Rightarrow> go (Some fd)
         | Inl e \<Rightarrow> if e \<in> {Some 103, Some 104, Some 22, Some 4} then go None else (True, w))"

text \<open>The numbers in a channel's bytes, four bytes each, and the bytes of an incomplete one.\<close>

function intake_numbers :: "bytes \<Rightarrow> raw_fd list \<times> bytes" where
  "intake_numbers partial =
     (if length partial < 4 then ([], partial)
      else let (ready, rest) = intake_numbers (drop 4 partial) in (sint (from_le (take 4 partial)) # ready, rest))"
  by pat_completeness auto
termination by (relation "measure length") auto

declare intake_numbers.simps [simp del]

definition take_numbers :: "raw_fd \<Rightarrow> bytes \<Rightarrow> (raw_fd \<times> bytes) list \<Rightarrow> raw_fd list \<times> (raw_fd \<times> bytes) list" where
  "take_numbers fd bs partials =
     (case position (\<lambda>p. fst p = fd) partials of
        None \<Rightarrow> ([], partials)
      | Some i \<Rightarrow> (let (ready, rest) = intake_numbers (snd (partials ! i) @ bs) in (ready, partials[i := (fd, rest)])))"

definition on_intake ::
    "('r, 'p, 'a, 'd, 'c, 'f) wenv \<Rightarrow> nat \<Rightarrow> raw_fd \<Rightarrow> completion \<Rightarrow> bool
      \<Rightarrow> ('r, 'p, 'a, 'd, 'c) worker \<Rightarrow> bool \<times> ('r, 'p, 'a, 'd, 'c) worker" where
  "on_intake E now fd cp tls w =
     (case cp_buf cp of
        None \<Rightarrow> (True, w)
      | Some buf \<Rightarrow>
          (case arrived (cp_result cp) buf of
             None \<Rightarrow> (True, w\<lparr> wk_shutdown := True \<rparr>)
           | Some bs \<Rightarrow>
               (let (ready, partials) = take_numbers fd bs (wk_intake_partial w);
                    w1 = w\<lparr> wk_intake_partial := partials \<rparr> in
                if wk_drain_deadline w1 \<noteq> None then (True, fold (\<lambda>accepted. log_effect (SysClose accepted)) ready w1)
                else arm_intake E fd tls (fold (\<lambda>accepted. start_client E now accepted tls) ready w1))))"

definition on_notify ::
    "('r, 'p, 'a, 'd, 'c, 'f) wenv \<Rightarrow> nat \<Rightarrow> completion \<Rightarrow> ('r, 'p, 'a, 'd, 'c) worker \<Rightarrow> bool \<times> ('r, 'p, 'a, 'd, 'c) worker" where
  "on_notify E now cp w =
     (case cp_buf cp of
        None \<Rightarrow> (True, w)
      | Some buf \<Rightarrow>
          (case arrived (cp_result cp) buf of
             None \<Rightarrow> (True, w)
           | Some bs \<Rightarrow>
               (let (notes, partial) = note_feed (wk_notes w) bs
                in arm_notify E (fold (\<lambda>n. case n of Tick \<Rightarrow> on_tick E now | Connected up err \<Rightarrow> on_connected E now up err)
                                   notes (w\<lparr> wk_notes := partial \<rparr>)))))"

section \<open>Shutdown\<close>

definition drain_client :: "('r, 'p, 'a, 'd, 'c, 'f) wenv \<Rightarrow> raw_fd \<Rightarrow> ('r, 'p, 'a, 'd, 'c) worker \<Rightarrow> ('r, 'p, 'a, 'd, 'c) worker" where
  "drain_client E fd w =
     (case wk_slots w fd of
        Client c \<Rightarrow>
          (let serving = (cn_phase c \<in> {PhConnecting, PhExchanging, PhRelaying} \<or> cn_writing c \<or> has_pending_out c);
               keep = (serving \<and> cn_phase c \<noteq> PhTunnel) in
           if \<not> keep then close_fd E fd (on_metrics core_connection_closed w)
           else let c1 = c\<lparr> cn_client_keep_alive := False \<rparr>;
                    c2 = (if cn_phase c1 = PhHead then c1\<lparr> cn_phase := PhClosing \<rparr> else c1)
                in (put_client fd (c2\<lparr> cn_drain_counted := True \<rparr>) w)\<lparr> wk_drain_inflight := wk_drain_inflight w + 1 \<rparr>)
      | _ \<Rightarrow> w)"

definition drain_admin :: "('r, 'p, 'a, 'd, 'c, 'f) wenv \<Rightarrow> raw_fd \<Rightarrow> ('r, 'p, 'a, 'd, 'c) worker \<Rightarrow> ('r, 'p, 'a, 'd, 'c) worker" where
  "drain_admin E fd w =
     (case wk_slots w fd of
        AdminSlot a \<Rightarrow>
          if ad_writing a \<or> ad_outbox a \<noteq> []
          then (set_slot fd (AdminSlot (a\<lparr> ad_drain_counted := True \<rparr>)) w)\<lparr> wk_drain_inflight := wk_drain_inflight w + 1 \<rparr>
          else close_fd E fd w
      | _ \<Rightarrow> w)"

definition drain_slot :: "('r, 'p, 'a, 'd, 'c, 'f) wenv \<Rightarrow> raw_fd \<Rightarrow> ('r, 'p, 'a, 'd, 'c) worker \<Rightarrow> ('r, 'p, 'a, 'd, 'c) worker" where
  "drain_slot E fd w =
     (case wk_slots w fd of Client _ \<Rightarrow> drain_client E fd w | AdminSlot _ \<Rightarrow> drain_admin E fd w | _ \<Rightarrow> w)"

text \<open>The descriptors that stop arrivals, and the pool, closed.\<close>

definition close_intakes :: "('r, 'p, 'a, 'd, 'c, 'f) wenv \<Rightarrow> ('r, 'p, 'a, 'd, 'c) worker \<Rightarrow> ('r, 'p, 'a, 'd, 'c) worker" where
  "close_intakes E w = fold (close_fd E) (map in_fd (wk_intakes w)) w"

definition close_admin :: "('r, 'p, 'a, 'd, 'c, 'f) wenv \<Rightarrow> ('r, 'p, 'a, 'd, 'c) worker \<Rightarrow> ('r, 'p, 'a, 'd, 'c) worker" where
  "close_admin E w = (case wk_admin w of None \<Rightarrow> w | Some fd \<Rightarrow> close_fd E fd (w\<lparr> wk_admin := None \<rparr>))"

definition close_idle :: "('r, 'p, 'a, 'd, 'c, 'f) wenv \<Rightarrow> ('r, 'p, 'a, 'd, 'c) worker \<Rightarrow> ('r, 'p, 'a, 'd, 'c) worker" where
  "close_idle E w =
     (if pool_is_empty (wk_pool w) then w
      else let (idle, pool) = pool_drain (wk_pool w) in fold (close_fd E) idle (w\<lparr> wk_pool := pool \<rparr>))"

definition begin_drain :: "('r, 'p, 'a, 'd, 'c, 'f) wenv \<Rightarrow> nat \<Rightarrow> ('r, 'p, 'a, 'd, 'c) worker \<Rightarrow> ('r, 'p, 'a, 'd, 'c) worker" where
  "begin_drain E now w =
     (let w1 = (close_intakes E (w\<lparr> wk_drain_deadline := Some (now + we_shutdown_grace E) \<rparr>))
                 \<lparr> wk_intakes := [], wk_intake_partial := [] \<rparr>;
          w2 = close_idle E (close_admin E w1)
      in fold (\<lambda>i. drain_slot E (int i)) [0..<wk_high_water w2] w2)"

text \<open>\<open>teardown\<close>, up to the completions it then waits for and drops.\<close>

definition teardown :: "('r, 'p, 'a, 'd, 'c, 'f) wenv \<Rightarrow> ('r, 'p, 'a, 'd, 'c) worker \<Rightarrow> ('r, 'p, 'a, 'd, 'c) worker" where
  "teardown E w =
     (let w1 = close_idle E w;
          w2 = fold (\<lambda>i w. case wk_slots w (int i) of
                             Client _ \<Rightarrow> close_fd E (int i) w | AdminSlot _ \<Rightarrow> close_fd E (int i) w
                           | UpstreamOf _ \<Rightarrow> close_fd E (int i) w | IdleTo _ \<Rightarrow> close_fd E (int i) w
                           | _ \<Rightarrow> w) [0..<wk_high_water w1] w1
      in close_fd E (wk_notify w2) (close_admin E (close_intakes E w2)))"

section \<open>A completion\<close>

definition dispatch ::
    "('r, 'p, 'a, 'd, 'c, 'f) wenv \<Rightarrow> nat \<Rightarrow> completion \<Rightarrow> ('r, 'p, 'a, 'd, 'c) worker \<Rightarrow> bool \<times> ('r, 'p, 'a, 'd, 'c) worker" where
  "dispatch E now cp w =
     (let k = tag_kind (cp_user cp); fd = tag_fd (cp_user cp) in
      if k \<noteq> K_CLOSE \<and> tag_generation (cp_user cp) \<noteq> wk_generations w fd
      then (True, case cp_result cp of
                    Inr accepted \<Rightarrow> if k \<in> {K_ACCEPT, K_ACCEPT_TLS, K_ADMIN_ACCEPT} then log_effect (SysClose accepted) w else w
                  | Inl _ \<Rightarrow> w)
      else if k = K_ACCEPT then on_accept E now fd cp (RoleClient False) w
      else if k = K_ACCEPT_TLS then on_accept E now fd cp (RoleClient True) w
      else if k = K_ADMIN_ACCEPT then on_accept E now fd cp RoleAdmin w
      else if k = K_INTAKE then on_intake E now fd cp False w
      else if k = K_INTAKE_TLS then on_intake E now fd cp True w
      else if k = K_NOTIFY then on_notify E now cp w
      else (True,
        if k = K_DOWN_READ then on_client_read E now fd cp w
        else if k = K_DOWN_WRITE then on_client_write E now fd cp w
        else if k = K_UP_READ then on_upstream_read E now fd cp w
        else if k = K_UP_WRITE then on_upstream_write E now fd cp w
        else if k = K_ADMIN_READ then on_admin_read E fd cp w
        else if k = K_ADMIN_WRITE then on_admin_write E fd cp w
        else w))"

text \<open>The operations armed before the loop, the state its head leaves, and the answer it gives.\<close>

fun arm_intakes :: "('r, 'p, 'a, 'd, 'c, 'f) wenv \<Rightarrow> intake list \<Rightarrow> ('r, 'p, 'a, 'd, 'c) worker \<Rightarrow> bool \<times> ('r, 'p, 'a, 'd, 'c) worker" where
  "arm_intakes E [] w = (True, w)"
| "arm_intakes E (i # is) w =
     (let (ok, w1) =
            (if in_channel i
             then arm_intake E (in_fd i) (in_tls i) (w\<lparr> wk_intake_partial := wk_intake_partial w @ [(in_fd i, [])] \<rparr>)
             else arm_accept E (in_fd i) (if in_tls i then K_ACCEPT_TLS else K_ACCEPT) w)
      in if ok then arm_intakes E is w1 else (False, w1))"

definition run_start :: "('r, 'p, 'a, 'd, 'c, 'f) wenv \<Rightarrow> ('r, 'p, 'a, 'd, 'c) worker \<Rightarrow> bool \<times> ('r, 'p, 'a, 'd, 'c) worker" where
  "run_start E w =
     (case arm_notify E w of
        (False, w1) \<Rightarrow> (False, w1)
      | (True, w1) \<Rightarrow>
          (case arm_intakes E (wk_intakes w1) w1 of
             (False, w2) \<Rightarrow> (False, w2)
           | (True, w2) \<Rightarrow>
               (case wk_admin w2 of None \<Rightarrow> (True, w2) | Some fd \<Rightarrow> arm_accept E fd K_ADMIN_ACCEPT w2)))"

definition loop_head :: "('r, 'p, 'a, 'd, 'c, 'f) wenv \<Rightarrow> nat \<Rightarrow> ('r, 'p, 'a, 'd, 'c) worker \<Rightarrow> ('r, 'p, 'a, 'd, 'c) worker" where
  "loop_head E now w = (if wk_drain_deadline w = None \<and> wk_shutdown w then begin_drain E now w else w)"

definition loop_over :: "('r, 'p, 'a, 'd, 'c) worker \<Rightarrow> bool" where
  "loop_over w \<longleftrightarrow> wk_drain_deadline w \<noteq> None \<and> (wk_drain_inflight w = 0 \<or> wk_drain_expired w)"

fun dispatch_all ::
    "('r, 'p, 'a, 'd, 'c, 'f) wenv \<Rightarrow> nat \<Rightarrow> completion list \<Rightarrow> ('r, 'p, 'a, 'd, 'c) worker \<Rightarrow> bool \<times> ('r, 'p, 'a, 'd, 'c) worker" where
  "dispatch_all E now [] w = (True, w)"
| "dispatch_all E now (cp # cps) w =
     (case dispatch E now cp w of (True, w1) \<Rightarrow> dispatch_all E now cps w1 | (False, w1) \<Rightarrow> (False, w1))"

end
