(* ===== verification/Serving.thy ===== *)
theory Serving
  imports Events "HOL-Library.Sublist"
begin

text \<open>
  Properties of a core of the uring engine, over \<open>Exchange\<close> and \<open>Events\<close>: completion tags, what is
  dialled and armed, the clock, the drain, and the accounting of an exchange that ends early.
\<close>

section \<open>A core for the examples\<close>

type_synonym demo_worker = "(nat, unit, unit, unit, unit) worker"
type_synonym demo_env = "(nat, unit, unit, unit, unit, unit) wenv"

text \<open>Libraries that answer nothing, every connect under way, no TLS.\<close>

definition demo_rustls :: "(unit, unit, unit, unit) rustls" where
  "demo_rustls =
     \<lparr> acceptor_default = (), acceptor_read_tls = (\<lambda>_ _. None), acceptor_accept = AcceptMore, client_alpn = (\<lambda>_. None),
       into_connection = (\<lambda>_ _. Inl []), conn_read_tls = (\<lambda>_ _. None), process_new_packets = (\<lambda>c. (True, c)),
       read_plain = (\<lambda>c. ([], c)), write_records = (\<lambda>c. ([], c)), writer_write = (\<lambda>_ _. None),
       is_handshaking = (\<lambda>_. True), close_notify = (\<lambda>c. c) \<rparr>"

definition demo_env :: demo_env where
  "demo_env =
     \<lparr> we_core = 0, we_is_match = (\<lambda>_ _. True),
       we_encoder = \<lparr> en_response = (\<lambda>status _ body. Some body), en_head_only = (\<lambda>_ _ _. Some []), en_reason = (\<lambda>_. ''OK'') \<rparr>,
       we_rustls = demo_rustls, we_parts_for = (\<lambda>_ _ _. None), we_tls_config = None, we_proxy_protocol = None,
       we_dispatch = False, we_mirror = False, we_mirror_max_body = 0, we_max_connect_attempts = 3,
       we_connect_timeout = 1000000000, we_response_timeout = 30000000000, we_shutdown_grace = 1000000000,
       we_submits = (\<lambda>_ _. True), we_connects = (\<lambda>log _. Some (int (length log) + 10, False)),
       we_watches = (\<lambda>_ _. True), we_handoffs = (\<lambda>_. True), we_peer_addr = (\<lambda>_. None), we_nonblocking = (\<lambda>_. True),
       we_metrics_page = (\<lambda>_. []) \<rparr>"

definition demo_worker :: demo_worker where
  "demo_worker = worker_new 4 90000000000 sample_table sample_heap [route_slot_default] core_default 1 True False [] None 3"

definition demo_conn :: "(nat, unit, unit, unit, unit) conn" where
  "demo_conn = conn_new (IPv4 127 0 0 1) None"

lemma demo_worker_simps [simp]:
  "wk_slots demo_worker = (\<lambda>_. SlotEmpty)" "wk_generations demo_worker = (\<lambda>_. 0)" "wk_drain_deadline demo_worker = None"
  "wk_drain_inflight demo_worker = 0"
  by (simp_all add: demo_worker_def worker_new_def)

section \<open>Tags\<close>

lemma tag_fd_word:
  assumes "- (2 ^ 31) \<le> fd" "fd < 2 ^ 31"
  shows "sint (fd_word fd) = fd"
  using sint_in_range [of fd] assms by (simp add: fd_word_def)

lemma tag_fields:
  fixes kind :: u8 and g f :: u32
  defines "t \<equiv> or (or (push_bit 56 (ucast kind)) (push_bit 32 (ucast (and g 0x00FFFFFF)))) (ucast f) :: u64"
  shows "ucast (drop_bit 56 t) = kind" "ucast (and (drop_bit 32 t) 0x00FFFFFF) = and g 0x00FFFFFF"
    "ucast (and t 0xFFFFFFFF) = f"
proof -
  have m24: "(0x00FFFFFF :: 'x::len word) = mask 24" and m32: "(0xFFFFFFFF :: 'x::len word) = mask 32"
    by (simp_all add: mask_eq_exp_minus_1)
  show "ucast (drop_bit 56 t) = kind"
    unfolding t_def m24 by (rule bit_word_eqI) (auto simp: bit_simps dest: bit_imp_le_length)
  show "ucast (and (drop_bit 32 t) 0x00FFFFFF) = and g 0x00FFFFFF"
    unfolding t_def m24 by (rule bit_word_eqI) (auto simp: bit_simps dest: bit_imp_le_length)
  show "ucast (and t 0xFFFFFFFF) = f"
    unfolding t_def m24 m32 by (rule bit_word_eqI) (auto simp: bit_simps dest: bit_imp_le_length)
qed

text \<open>A completion's tag gives back what it was made of: the kind, the descriptor, and the
generation's 24 bits, none of which reaches into another field.\<close>

theorem tag_roundtrip:
  assumes "- (2 ^ 31) \<le> fd" "fd < 2 ^ 31"
  shows "(tag_kind (tag kind g fd), tag_generation (tag kind g fd), tag_fd (tag kind g fd)) = (kind, and g 0x00FFFFFF, fd)"
  unfolding tag_kind_def tag_generation_def tag_fd_def tag_def tag_fields tag_fd_word [OF assms] ..

theorem tag_roundtrip_witness:
  "(tag_kind (tag K_UP_WRITE 0x01FFFFFF (- 1)), tag_generation (tag K_UP_WRITE 0x01FFFFFF (- 1)),
    tag_fd (tag K_UP_WRITE 0x01FFFFFF (- 1))) = (K_UP_WRITE, and 0x01FFFFFF 0x00FFFFFF, - 1)"
  by (rule tag_roundtrip) simp_all

lemma mask24: "and g 0x00FFFFFF = take_bit 24 (g :: u32)"
  by (simp add: take_bit_eq_mask mask_eq_exp_minus_1)

lemma unat_take24: "unat (take_bit 24 (x :: u32)) = unat x mod 2 ^ 24"
  by (simp only: unsigned_take_bit_eq) (simp add: take_bit_eq_mod)

lemma inc24: "take_bit 24 (take_bit 24 x + 1) = take_bit 24 (x + 1 :: u32)"
proof -
  have "(a mod 2 ^ 24 + 1) mod 2 ^ 32 mod 2 ^ 24 = (a + 1) mod 2 ^ 32 mod (2 ^ 24 :: nat)" for a
    by (simp add: mod_mod_cancel mod_simps)
  then show ?thesis by (simp add: word_unat_eq_iff unat_take24 unat_word_ariths)
qed

lemma bumps:
  "take_bit 24 (wk_generations w fd) = wk_generations w fd \<Longrightarrow>
   wk_generations ((bump_generation fd ^^ n) w) fd = take_bit 24 (wk_generations w fd + of_nat n)"
proof (induction n)
  case (Suc n)
  have "take_bit 24 (take_bit 24 (wk_generations w fd + of_nat n) + 1) = take_bit 24 (wk_generations w fd + of_nat (Suc n))"
    using inc24 [of "wk_generations w fd + of_nat n"] by (simp add: ac_simps)
  with Suc show ?case by (simp add: bump_generation_def mask24)
qed simp

lemma bumps_differ:
  fixes g :: u32
  assumes "take_bit 24 g = g" "0 < n" "n < 2 ^ 24"
  shows "take_bit 24 (g + of_nat n) \<noteq> g"
proof
  assume *: "take_bit 24 (g + of_nat n) = g"
  have n: "unat (of_nat n :: u32) = n" using assms(3) by (simp add: unsigned_of_nat take_bit_nat_eq_self)
  have g: "unat g < 2 ^ 24" by (metis assms(1) unsigned_take_bit_eq take_bit_nat_less_exp)
  have "unat (g + of_nat n) = unat g + n" using g n assms(3) by (simp add: unat_word_ariths)
  with * have "(unat g + n) mod 2 ^ 24 = unat g" by (metis unsigned_take_bit_eq take_bit_eq_mod)
  then show False using g assms(2,3) by (simp add: mod_if split: if_splits)
qed

text \<open>
  What may happen to the number of a descriptor: \<open>close_fd\<close>; a change of generation without a close, as
  in \<open>start_client\<close>, \<open>start_admin\<close> and \<open>hand_off\<close>; and anything that leaves its generation alone. The
  counts are of the closes and of all changes.
\<close>

inductive lived ::
  "('r, 'p, 'a, 'd, 'c, 'f) wenv \<Rightarrow> raw_fd \<Rightarrow> ('r, 'p, 'a, 'd, 'c) worker \<Rightarrow> nat \<Rightarrow> nat \<Rightarrow> ('r, 'p, 'a, 'd, 'c) worker \<Rightarrow> bool"
  for E fd w where
  start: "lived E fd w 0 0 w"
| other: "lived E fd w m n v \<Longrightarrow> wk_generations u fd = wk_generations v fd \<Longrightarrow> lived E fd w m n u"
| closed: "lived E fd w m n v \<Longrightarrow> lived E fd w (Suc m) (Suc n) (close_fd E fd v)"
| opened: "lived E fd w m n v \<Longrightarrow> lived E fd w m (Suc n) (bump_generation fd v)"

lemma bump_at: "wk_generations (bump_generation fd v) fd = and (wk_generations v fd + 1) 0x00FFFFFF"
  by (simp add: bump_generation_def)

lemma close_generation: "wk_generations (close_fd E fd v) fd = wk_generations (bump_generation fd v) fd"
  by (simp add: close_fd_def Let_def submit_def log_effect_def set_slot_def bump_generation_def)

lemma lived_generation:
  assumes "lived E fd w m n v" "take_bit 24 (wk_generations w fd) = wk_generations w fd"
  shows "m \<le> n \<and> wk_generations v fd = take_bit 24 (wk_generations w fd + of_nat n)"
proof -
  have "m \<le> n \<and> wk_generations v fd = wk_generations ((bump_generation fd ^^ n) w) fd"
    using assms(1) by induction (simp_all add: bump_at close_generation)
  with bumps[OF assms(2), of n] show ?thesis by simp
qed

text \<open>C35. A completion of any operation on a descriptor that has been closed since it was submitted, and
whose number has since seen fewer than \<open>2 ^ 24\<close> changes of hands, is not delivered to whatever has
the number now: the worker is as it was, except that a socket a stale accept brought is closed.\<close>

theorem stale_completion_ignored:
  assumes "cp_user cp = tag kind (wk_generations w fd) fd" "- (2 ^ 31) \<le> fd" "fd < 2 ^ 31" "wk_generations w fd < 2 ^ 24"
    and "lived E fd w closes changes w'" "0 < closes" "changes < 2 ^ 24"
  shows "dispatch E now cp w' =
    (True, case cp_result cp of
             Inr accepted \<Rightarrow> if kind \<in> {K_ACCEPT, K_ACCEPT_TLS, K_ADMIN_ACCEPT} then log_effect (SysClose accepted) w' else w'
           | Inl _ \<Rightarrow> w')"
proof -
  let ?g = "wk_generations w fd"
  have g: "take_bit 24 ?g = ?g"
    using assms(4) by (simp add: word_unat_eq_iff unat_take24 word_less_nat_alt)
  have t: "tag_kind (cp_user cp) = kind" "tag_generation (cp_user cp) = ?g" "tag_fd (cp_user cp) = fd"
    unfolding assms(1) tag_kind_def tag_generation_def tag_fd_def tag_def tag_fields tag_fd_word [OF assms(2,3)]
    by (simp_all add: mask24 g)
  have "wk_generations w' fd \<noteq> ?g"
    using lived_generation[OF assms(5) g] bumps_differ[OF g _ assms(7)] assms(6) by simp
  with t show ?thesis
    by (cases "kind = K_CLOSE") (simp_all add: dispatch_def Let_def kind_defs split: sum.split)
qed

theorem stale_completion_ignored_witness:
  "dispatch demo_env 0
     \<lparr> cp_user = tag K_DOWN_READ (wk_generations demo_worker 7) 7, cp_result = Inr 4, cp_buf = Some ''late'' \<rparr>
     (put_client 7 demo_conn (bump_generation 7 (close_fd demo_env 7 demo_worker)))
   = (True, put_client 7 demo_conn (bump_generation 7 (close_fd demo_env 7 demo_worker)))"
proof -
  have "lived demo_env 7 demo_worker 1 2 (put_client 7 demo_conn (bump_generation 7 (close_fd demo_env 7 demo_worker)))"
    by (rule lived.other[where v = "bump_generation 7 (close_fd demo_env 7 demo_worker)"])
       (use lived.opened[OF lived.closed[OF lived.start]] in \<open>simp_all add: numeral_2_eq_2 set_slot_def\<close>)
  from stale_completion_ignored[where kind = K_DOWN_READ, OF _ _ _ _ this] show ?thesis by (simp add: kind_defs)
qed

section \<open>What an operation adds to the log\<close>

text \<open>A kind of effect that serving a connection never adds: an accept, or a dial.\<close>

definition apart :: "('p effect \<Rightarrow> bool) \<Rightarrow> bool" where
  "apart P \<longleftrightarrow> (\<forall>fd u. \<not> P (Submitted (OpRead fd) u)) \<and> (\<forall>fd bs u. \<not> P (Submitted (OpWrite fd bs) u))
     \<and> (\<forall>fd u. \<not> P (Submitted (OpClose fd) u)) \<and> (\<forall>fd. \<not> P (SysClose fd))
     \<and> (\<forall>fd bs ip tls. \<not> P (HandOff fd bs ip tls)) \<and> \<not> P EndlessRecursion"

definition seen :: "('p effect \<Rightarrow> bool) \<Rightarrow> ('r, 'p, 'a, 'd, 'c) worker \<Rightarrow> 'p effect list" where
  "seen P w = filter P (wk_log w)"

lemma seen_simps [simp]:
  "seen P (set_slot fd x w) = seen P w" "seen P (on_metrics f w) = seen P w" "seen P (bump_generation fd w) = seen P w"
  "seen P (log_effect e w) = seen P w @ (if P e then [e] else [])"
  "seen P (w\<lparr> wk_pool := pool \<rparr>) = seen P w" "seen P (w\<lparr> wk_heap := hp \<rparr>) = seen P w"
  "seen P (w\<lparr> wk_routes := rs \<rparr>) = seen P w" "seen P (w\<lparr> wk_drain_inflight := n \<rparr>) = seen P w"
  "seen P (w\<lparr> wk_drain_expired := b \<rparr>) = seen P w" "seen P (w\<lparr> wk_rng := r \<rparr>) = seen P w"
  by (simp_all add: seen_def set_slot_def on_metrics_def bump_generation_def log_effect_def)

lemma seen_submit: "\<not> P (Submitted op (tag kind (wk_generations w fd) fd)) \<Longrightarrow> seen P (snd (submit E kind fd op w)) = seen P w"
  by (simp add: submit_def)

lemma seen_pairs [simp]:
  "seen P (snd (hold_inflight (c, w))) = seen P w" "seen P (snd (release_inflight (c, w))) = seen P w"
  "seen P (snd (conn_response E status (c, w))) = seen P w"
  by (simp_all add: hold_inflight_def release_inflight_def conn_response_def on_conn_route_def split: option.split)

lemma seen_close [simp]: "apart P \<Longrightarrow> seen P (close_fd E fd w) = seen P w"
  by (simp add: close_fd_def Let_def seen_submit apart_def)

lemma seen_fold_close [simp]: "apart P \<Longrightarrow> seen P (fold (close_fd E) fds w) = seen P w"
  by (induction fds arbitrary: w) simp_all

lemma seen_drives [simp]:
  assumes "apart P"
  shows "seen P (snd (drive_down_write E fd x)) = seen P (snd x)" "seen P (snd (drive_up_write E x)) = seen P (snd x)"
    "seen P (snd (drive_up_read E x)) = seen P (snd x)" "seen P (snd (drive_down_read E fd x)) = seen P (snd x)"
  using assms
  by (cases x; simp add: drive_down_write_def drive_up_write_def drive_up_read_def drive_down_read_def Let_def
        case_prod_beta seen_submit apart_def split: option.split)+

lemma seen_with_conn:
  assumes "\<And>c v. seen P v = seen P w \<Longrightarrow> seen P (f c v) = seen P w"
  shows "seen P (with_conn fd f w) = seen P w"
  by (simp add: with_conn_def with_client_def assms split: slot.split)

lemma seen_hand_off [simp]: "apart P \<Longrightarrow> seen P (hand_off_conn E fd w) = seen P w"
  unfolding hand_off_conn_def by (rule seen_with_conn) (simp add: Let_def apart_def)

lemma seen_drive [simp]: "apart P \<Longrightarrow> seen P (drive E fd w) = seen P w"
  unfolding drive_def by (rule seen_with_conn) (simp add: Let_def case_prod_beta split: option.split)

lemma seen_fail_unsupported [simp]: "apart P \<Longrightarrow> seen P (fail_unsupported E fd status body close unsupported w) = seen P w"
  unfolding fail_unsupported_def by (rule seen_with_conn) (simp add: Let_def case_prod_beta split: option.split)

lemma seen_fail [simp]: "apart P \<Longrightarrow> seen P (fail E fd status body close w) = seen P w"
  by (simp add: fail_def)

lemma seen_exhausted [simp]: "apart P \<Longrightarrow> seen P (exhausted E fd w) = seen P w"
  by (simp add: exhausted_def)

lemma seen_tick_client [simp]: "apart P \<Longrightarrow> seen P (tick_client E now fd w) = seen P w"
  by (simp add: tick_client_def split: slot.split)

lemma seen_on_tick [simp]: "apart P \<Longrightarrow> seen P (on_tick E now w) = seen P w"
proof -
  assume P: "apart P"
  have "seen P (fold (\<lambda>i. tick_client E now (int i)) is v) = seen P v" for "is" v
    using P by (induction "is" arbitrary: v) simp_all
  then show ?thesis using P by (simp add: on_tick_def Let_def case_prod_beta)
qed

section \<open>A listener that ran out of descriptors\<close>

fun is_accept :: "'p effect \<Rightarrow> bool" where
  "is_accept (Submitted (OpAccept _) _) = True"
| "is_accept _ = False"

lemma apart_accept [simp]: "apart is_accept"
  by (simp add: apart_def)

text \<open>An accept that fails for want of descriptors (\<open>EMFILE\<close>, 24) arms no other, and neither does
any number of ticks after it: the listener stays deaf.\<close>

theorem listener_stays_deaf:
  assumes "cp_result cp = Inl (Some 24)" "cp_user cp = tag K_ACCEPT (wk_generations w fd) fd"
    "- (2 ^ 31) \<le> fd" "fd < 2 ^ 31" "wk_generations w fd < 2 ^ 24"
  shows "seen is_accept (fold (on_tick E) ticks (snd (dispatch E now cp w))) = seen is_accept w"
proof -
  have g: "take_bit 24 (wk_generations w fd) = wk_generations w fd"
    using assms(5) by (simp add: word_unat_eq_iff unat_take24 word_less_nat_alt)
  have "tag_kind (cp_user cp) = K_ACCEPT" "tag_generation (cp_user cp) = wk_generations w fd" "tag_fd (cp_user cp) = fd"
    unfolding assms(2) tag_kind_def tag_generation_def tag_fd_def tag_def tag_fields tag_fd_word [OF assms(3,4)]
    by (simp_all add: mask24 g)
  with assms(1) have "snd (dispatch E now cp w) = w" by (simp add: dispatch_def on_accept_def Let_def)
  moreover have "seen is_accept (fold (on_tick E) ticks v) = seen is_accept v" for v
    by (induction ticks arbitrary: v) simp_all
  ultimately show ?thesis by simp
qed

theorem listener_stays_deaf_witness:
  "seen is_accept (fold (on_tick demo_env) [1, 2, 3] (snd (dispatch demo_env 0
     \<lparr> cp_user = tag K_ACCEPT (wk_generations demo_worker 5) 5, cp_result = Inl (Some 24), cp_buf = None \<rparr> demo_worker)))
   = seen is_accept demo_worker"
  by (rule listener_stays_deaf [where fd = 5]) simp_all

section \<open>Dialling\<close>

fun is_dial :: "'p effect \<Rightarrow> bool" where
  "is_dial (Dial _) = True"
| "is_dial _ = False"

lemma apart_dial [simp]: "apart is_dial"
  by (simp add: apart_def)

lemma hold_keeps_pool [simp]:
  "cn_from_pool (fst (hold_inflight (c, w))) = cn_from_pool c"
  "cn_committed (fst (hold_inflight (c, w))) = cn_committed c"
  "cn_replayable (fst (hold_inflight (c, w))) = cn_replayable c"
  by (simp_all add: hold_inflight_def split: option.split)

lemma release_keeps_pool [simp]:
  "cn_from_pool (fst (release_inflight (c, w))) = cn_from_pool c"
  "cn_committed (fst (release_inflight (c, w))) = cn_committed c"
  "cn_replayable (fst (release_inflight (c, w))) = cn_replayable c"
  by (simp_all add: release_inflight_def)

text \<open>Whether a failure may still be put down to a stale pooled connection, and the same endpoint dialled.\<close>

definition pool_retry_open :: "('r, 'p, 'a, 'd, 'c) conn \<Rightarrow> bool" where
  "pool_retry_open c \<longleftrightarrow> cn_from_pool c \<and> \<not> cn_pool_retry_used c \<and> \<not> cn_committed c \<and> cn_replayable c"

lemma open_step_dials:
  assumes "open_step E now fd w = (r, w')" "wk_slots w fd = Client c"
  shows "\<exists>ds. seen is_dial w' = seen is_dial w @ map Dial ds \<and> (ds = [] \<or> cn_attempt c < length (cn_targets c) \<and> ds = [cn_targets c ! cn_attempt c])"
    and "r = ORetry \<Longrightarrow> cn_attempt c < length (cn_targets c) \<and> (\<exists>c'. wk_slots w' fd = Client c' \<and> cn_targets c' = cn_targets c
          \<and> cn_attempt c' = cn_attempt c \<and> (pool_retry_open c' \<longrightarrow> pool_retry_open c))"
proof -
  let ?c = "c\<lparr> cn_dispatched_at := Some now, cn_deadline := Some (now + we_response_timeout E) \<rparr>"
  obtain c1 w1 where h: "hold_inflight (?c, set_slot fd Taken w) = (c1, w1)" by fastforce
  have k: "cn_targets c1 = cn_targets c" "cn_attempt c1 = cn_attempt c" "cn_from_pool c1 = cn_from_pool c"
    "cn_pool_retry_used c1 = cn_pool_retry_used c" "cn_committed c1 = cn_committed c" "cn_replayable c1 = cn_replayable c" "seen is_dial w1 = seen is_dial w"
    using hold_keeps(1-3)[of ?c "set_slot fd Taken w"] hold_keeps_pool[of ?c "set_slot fd Taken w"]
      seen_pairs(1)[of is_dial ?c "set_slot fd Taken w"] unfolding h by simp_all
  have "(\<exists>ds. seen is_dial w' = seen is_dial w @ map Dial ds \<and> (ds = [] \<or> cn_attempt c < length (cn_targets c) \<and> ds = [cn_targets c ! cn_attempt c]))
    \<and> (r = ORetry \<longrightarrow> cn_attempt c < length (cn_targets c) \<and> (\<exists>c'. wk_slots w' fd = Client c' \<and> cn_targets c' = cn_targets c
          \<and> cn_attempt c' = cn_attempt c \<and> (pool_retry_open c' \<longrightarrow> pool_retry_open c)))"
  proof (cases "get_at (cn_targets c) (cn_attempt c)")
    case None
    with assms show ?thesis by (auto simp: open_step_def with_client_def intro!: exI[of _ "[]"])
  next
    case (Some addr)
    then have l: "cn_attempt c < length (cn_targets c)" "addr = cn_targets c ! cn_attempt c" by auto
    have dial: "\<exists>ds. seen is_dial w' = seen is_dial w @ map Dial ds \<and> (ds = [] \<or> ds = [addr])"
    proof (cases "\<exists>up. fst (pool_take addr (wk_pool w1)) = Some up")
      case True
      with assms Some k show ?thesis
        by (auto simp: open_step_def with_client_def h Let_def simp del: get_at_Some split: prod.splits intro!: exI[of _ "[]"])
    next
      case False
      with assms Some k show ?thesis
        by (auto simp: open_step_def with_client_def h Let_def simp del: get_at_Some split: option.splits prod.splits if_splits
            intro!: exI[of _ "[addr]"])
    qed
    from assms Some k have "r = ORetry \<longrightarrow> (\<exists>c'. wk_slots w' fd = Client c' \<and> cn_targets c' = cn_targets c
          \<and> cn_attempt c' = cn_attempt c \<and> (pool_retry_open c' \<longrightarrow> pool_retry_open c))"
      by (auto simp: l open_step_def with_client_def h Let_def pool_retry_open_def simp del: get_at_Some split: option.splits prod.splits if_splits)
    with dial l show ?thesis by blast
  qed
  then show "\<exists>ds. seen is_dial w' = seen is_dial w @ map Dial ds \<and> (ds = [] \<or> cn_attempt c < length (cn_targets c) \<and> ds = [cn_targets c ! cn_attempt c])"
    "r = ORetry \<Longrightarrow> cn_attempt c < length (cn_targets c) \<and> (\<exists>c'. wk_slots w' fd = Client c' \<and> cn_targets c' = cn_targets c
          \<and> cn_attempt c' = cn_attempt c \<and> (pool_retry_open c' \<longrightarrow> pool_retry_open c))" by simp_all
qed

lemma retry_step_dials:
  assumes "retry_step E fd w = (r, w')" "wk_slots w fd = Client c"
  shows "seen is_dial w' = seen is_dial w"
    and "r = OOpen \<Longrightarrow> \<exists>c'. wk_slots w' fd = Client c' \<and> cn_targets c' = cn_targets c \<and> \<not> pool_retry_open c'
          \<and> (cn_attempt c' = Suc (cn_attempt c) \<or> pool_retry_open c \<and> cn_attempt c' = cn_attempt c)"
proof -
  obtain c1 w1 where h: "release_inflight (c, set_slot fd Taken w) = (c1, w1)" by fastforce
  have k: "cn_targets c1 = cn_targets c" "cn_attempt c1 = cn_attempt c" "cn_from_pool c1 = cn_from_pool c"
    "cn_pool_retry_used c1 = cn_pool_retry_used c" "cn_committed c1 = cn_committed c" "cn_replayable c1 = cn_replayable c" "seen is_dial w1 = seen is_dial w"
    using release_keeps(1-3)[of c "set_slot fd Taken w"] release_keeps_pool[of c "set_slot fd Taken w"]
      seen_pairs(2)[of is_dial c "set_slot fd Taken w"] unfolding h by simp_all
  from assms k show "seen is_dial w' = seen is_dial w" by (auto simp: retry_step_def with_client_def h Let_def split: if_splits)
  assume "r = OOpen"
  with assms k show "\<exists>c'. wk_slots w' fd = Client c' \<and> cn_targets c' = cn_targets c \<and> \<not> pool_retry_open c'
          \<and> (cn_attempt c' = Suc (cn_attempt c) \<or> pool_retry_open c \<and> cn_attempt c' = cn_attempt c)"
    by (auto simp: retry_step_def with_client_def h Let_def pool_retry_open_def split: if_splits)
qed

lemma drop_nth_subseq: "i < length xs \<Longrightarrow> subseq ds (drop (Suc i) xs) \<Longrightarrow> subseq (xs ! i # ds) (drop i xs)"
  by (simp add: Cons_nth_drop_Suc[symmetric])

lemma drop_Suc_subseq: "subseq (drop (Suc i) xs) (drop i xs)"
  by (cases "i < length xs") (auto simp: Cons_nth_drop_Suc[symmetric] intro: subseq_Cons')

lemma open_upstream_dials:
  "wk_slots w fd = Client c \<Longrightarrow> \<not> pool_retry_open c \<Longrightarrow>
   \<exists>ds. seen is_dial (snd (open_upstream E now fd w)) = seen is_dial w @ map Dial ds \<and> subseq ds (drop (cn_attempt c) (cn_targets c))"
proof (induction E now fd w arbitrary: c rule: open_upstream.induct)
  case (1 E now fd w)
  obtain r1 w1 where o: "open_step E now fd w = (r1, w1)" by fastforce
  obtain r2 w2 where s: "retry_step E fd w1 = (r2, w2)" by fastforce
  obtain ds where ds: "seen is_dial w1 = seen is_dial w @ map Dial ds"
    "ds = [] \<or> cn_attempt c < length (cn_targets c) \<and> ds = [cn_targets c ! cn_attempt c]"
    using open_step_dials(1)[OF o 1(2)] by blast
  have first: "subseq ds (drop (cn_attempt c) (cn_targets c))"
    using ds(2) drop_nth_subseq[of "cn_attempt c" "cn_targets c" "[]"] by auto
  show ?case
  proof (cases "r1 = ORetry")
    case True
    with open_step_dials(2)[OF o 1(2)] obtain c1 where c1: "wk_slots w1 fd = Client c1" "cn_targets c1 = cn_targets c"
      "cn_attempt c1 = cn_attempt c" "\<not> pool_retry_open c1" using 1(3) by blast
    note same = retry_step_dials(1)[OF s c1(1)]
    show ?thesis
    proof (cases "r2 = OOpen")
      case op: True
      with retry_step_dials(2)[OF s c1(1)] c1 obtain c2 where c2: "wk_slots w2 fd = Client c2" "cn_targets c2 = cn_targets c"
        "cn_attempt c2 = Suc (cn_attempt c)" "\<not> pool_retry_open c2" by auto
      obtain es where es: "seen is_dial (snd (open_upstream E now fd w2)) = seen is_dial w2 @ map Dial es"
        "subseq es (drop (Suc (cn_attempt c)) (cn_targets c))"
        using 1(1)[OF o[symmetric] True s[symmetric] op c2(1,4)] c2(2,3) by auto
      have "subseq (ds @ es) (drop (cn_attempt c) (cn_targets c))"
      proof (cases "ds = []")
        case True
        with subseq_order.order_trans[OF es(2) drop_Suc_subseq] show ?thesis by simp
      next
        case False
        with ds(2) drop_nth_subseq[OF _ es(2)] show ?thesis by auto
      qed
      then show ?thesis
        using es(1) ds(1) same by (intro exI[of _ "ds @ es"]) (simp add: open_upstream.simps[of E now fd w] o s True op)
    next
      case False
      then show ?thesis
        using ds(1) same first by (intro exI[of _ ds]) (cases r2; simp add: open_upstream.simps[of E now fd w] o s True)
    qed
  next
    case False
    then show ?thesis
      using ds(1) first by (intro exI[of _ ds]) (cases r1; simp add: open_upstream.simps[of E now fd w] o)
  qed
qed

text \<open>C36. However connecting fails, an endpoint of the request is dialled at most once: the addresses dialled
while an upstream is opened are a subsequence of the targets from the current attempt on, each place
of that list at most once and in its order, unless the connection still has the one retry of a stale pooled
connection. A failure later in the exchange dials a subsequence of the targets after the current one,
or from the current one if that retry is used for it.\<close>

theorem dials_bounded:
  assumes "wk_slots w fd = Client c"
  shows "(\<not> pool_retry_open c \<longrightarrow>
      (\<exists>ds. seen is_dial (snd (open_upstream E now fd w)) = seen is_dial w @ map Dial ds
          \<and> subseq ds (drop (cn_attempt c) (cn_targets c))))
    \<and> (\<exists>ds. seen is_dial (snd (retry_or_fail E now fd w)) = seen is_dial w @ map Dial ds
          \<and> subseq ds (drop (if pool_retry_open c then cn_attempt c else Suc (cn_attempt c)) (cn_targets c)))"
proof -
  obtain r w1 where s: "retry_step E fd w = (r, w1)" by fastforce
  note same = retry_step_dials(1)[OF s assms]
  have "\<exists>ds. seen is_dial (snd (retry_or_fail E now fd w)) = seen is_dial w @ map Dial ds
          \<and> subseq ds (drop (if pool_retry_open c then cn_attempt c else Suc (cn_attempt c)) (cn_targets c))"
  proof (cases "r = OOpen")
    case True
    with retry_step_dials(2)[OF s assms] obtain c1 where c1: "wk_slots w1 fd = Client c1" "cn_targets c1 = cn_targets c" "\<not> pool_retry_open c1"
      "cn_attempt c1 = Suc (cn_attempt c) \<or> pool_retry_open c \<and> cn_attempt c1 = cn_attempt c" by blast
    obtain ds where ds: "seen is_dial (snd (open_upstream E now fd w1)) = seen is_dial w1 @ map Dial ds"
      "subseq ds (drop (cn_attempt c1) (cn_targets c))"
      using open_upstream_dials[OF c1(1,3)] c1(2) by metis
    have "subseq ds (drop (if pool_retry_open c then cn_attempt c else Suc (cn_attempt c)) (cn_targets c))"
    proof (cases "cn_attempt c1 = Suc (cn_attempt c)")
      case True
      with ds(2) have "subseq ds (drop (Suc (cn_attempt c)) (cn_targets c))" by simp
      with subseq_order.order_trans[OF this drop_Suc_subseq] show ?thesis by simp
    next
      case False
      with ds(2) c1(4) show ?thesis by simp
    qed
    then show ?thesis using ds(1) same by (intro exI[of _ ds]) (simp add: retry_or_fail_def s True)
  next
    case False
    then show ?thesis using same by (intro exI[of _ "[]"]) (cases r; simp add: retry_or_fail_def s)
  qed
  with open_upstream_dials[OF assms] show ?thesis by blast
qed

theorem dials_bounded_witness:
  "\<exists>ds. seen is_dial (snd (open_upstream demo_env 0 7 (put_client 7 (demo_conn\<lparr> cn_targets := [addr_a, addr_b] \<rparr>) demo_worker)))
     = seen is_dial (put_client 7 (demo_conn\<lparr> cn_targets := [addr_a, addr_b] \<rparr>) demo_worker) @ map Dial ds
     \<and> subseq ds [addr_a, addr_b]"
proof -
  have "\<not> pool_retry_open (demo_conn\<lparr> cn_targets := [addr_a, addr_b] \<rparr>)" "cn_attempt demo_conn = 0"
    by (simp_all add: demo_conn_def conn_new_def pool_retry_open_def)
  with dials_bounded[OF set_slot_same[of 7 "Client (demo_conn\<lparr> cn_targets := [addr_a, addr_b] \<rparr>)" demo_worker], where E = demo_env and now = 0] show ?thesis
    by simp
qed

text \<open>A later moment of an exchange whose response was accepted: the flags stand until the next request.\<close>

lemma take_latency_flags [simp]:
  "cn_committed (fst (conn_response E status (c, w))) = cn_committed c"
  "cn_response_head_seen (fst (conn_response E status (c, w))) = cn_response_head_seen c"
  by (simp_all add: conn_response_def)

lemma accept_response_flags:
  "cn_committed (fst (accept_response E now framing cw))" "cn_response_head_seen (fst (accept_response E now framing cw))"
  by (simp_all add: accept_response_def Let_def case_prod_beta)

lemma end_truncated_dials: "seen is_dial (end_truncated E fd w) = seen is_dial w"
  unfolding end_truncated_def by (rule seen_with_conn) (simp add: drop_upstream_def split: option.split)

text \<open>C37. Once a response has been accepted, nothing is sent again. Accepting it sets the flags of the
connection; while they stand, whatever ends the exchange badly (an upstream read or write that fails,
an upstream that closes early, a response that cannot be parsed, a retry) dials no endpoint.\<close>

theorem committed_never_resent:
  assumes "fst (accept_response E t framing cw) = c1"
    and "wk_slots w down = Client c" "cn_committed c = cn_committed c1" "cn_response_head_seen c = cn_response_head_seen c1"
  shows "seen is_dial (snd (upstream_failed E now down w)) = seen is_dial w
    \<and> seen is_dial (upstream_garbage E down w) = seen is_dial w
    \<and> seen is_dial (snd (retry_or_fail E now down w)) = seen is_dial w
    \<and> (wk_slots w up = UpstreamOf down \<and> isl (cp_result cp) \<longrightarrow>
         seen is_dial (on_upstream_read E now up cp w) = seen is_dial w
         \<and> seen is_dial (on_upstream_write E now up cp w) = seen is_dial w)
    \<and> (cn_phase c \<noteq> PhTunnel \<and> cn_response_body c \<noteq> BodyUntilClose \<longrightarrow>
         seen is_dial (on_upstream_eof E now down w) = seen is_dial w)"
proof -
  have c: "cn_committed c" "cn_response_head_seen c" using assms(1,3,4) accept_response_flags[of E t framing cw] by auto
  obtain c2 w2 where h: "release_inflight (c, set_slot down Taken w) = (c2, w2)" by fastforce
  have k: "cn_committed c2" "seen is_dial w2 = seen is_dial w"
    using release_keeps_pool(2)[of c "set_slot down Taken w"] seen_pairs(2)[of is_dial c "set_slot down Taken w"] c(1) unfolding h by simp_all
  have failed: "upstream_failed E now down v = (False, end_truncated E down v)" if "wk_slots v down = Client d" "cn_response_head_seen d" for v d
    using that by (simp add: upstream_failed_def)
  have "seen is_dial (snd (retry_or_fail E now down w)) = seen is_dial w"
    using assms(2) k by (simp add: retry_or_fail_def retry_step_def with_client_def h Let_def)
  moreover have "seen is_dial (on_upstream_read E now up cp w) = seen is_dial w \<and> seen is_dial (on_upstream_write E now up cp w) = seen is_dial w"
    if up: "wk_slots w up = UpstreamOf down" "isl (cp_result cp)"
  proof -
    obtain e where e: "cp_result cp = Inl e" using up(2) by (cases "cp_result cp") simp_all
    have "seen is_dial (on_upstream_read E now up cp w) = seen is_dial w"
      using up(1) assms(2) c(2)
      by (simp add: on_upstream_read_def e arrived_def with_conn_def with_client_def advance_if_def failed end_truncated_dials Let_def
          split: option.split)
    moreover have "seen is_dial (on_upstream_write E now up cp w) = seen is_dial w"
      using up(1) assms(2) c(2)
      by (simp add: on_upstream_write_def e with_conn_def with_client_def advance_if_def failed end_truncated_dials Let_def)
    ultimately show ?thesis ..
  qed
  moreover have "seen is_dial (on_upstream_eof E now down w) = seen is_dial w"
    if "cn_phase c \<noteq> PhTunnel" "cn_response_body c \<noteq> BodyUntilClose"
    using that assms(2) c(2)
    by (simp add: on_upstream_eof_def with_conn_def with_client_def advance_if_def failed end_truncated_dials)
  ultimately show ?thesis
    using failed[OF assms(2) c(2)] assms(2) c(2) by (simp add: end_truncated_dials upstream_garbage_def)
qed

theorem committed_never_resent_witness:
  "seen is_dial (snd (upstream_failed demo_env 0 7
     (put_client 7 (fst (accept_response demo_env 0 Empty (demo_conn, demo_worker))) demo_worker)))
   = seen is_dial (put_client 7 (fst (accept_response demo_env 0 Empty (demo_conn, demo_worker))) demo_worker)"
  using committed_never_resent[where E = demo_env and c = "fst (accept_response demo_env 0 Empty (demo_conn, demo_worker))",
      OF refl set_slot_same refl refl] by blast

section \<open>Clients\<close>

text \<open>A request whose first byte arrives on its own is taken for HTTP/2 when that byte is \<open>P\<close>: the
preface test accepts every prefix, so a \<open>POST\<close>, \<open>PUT\<close> or \<open>PATCH\<close> cut after one byte is refused with
502 and its connection ended, while the same request read in one piece is not.\<close>

theorem split_post_refused:
  assumes "wk_slots w fd = Client c" "cn_inbox c = take 1 request" "request \<in> {''POST /'', ''PUT /'', ''PATCH /''}"
    "\<not> we_dispatch E"
  shows "parse_request E now fd w = (False, fail E fd 502 NO_HTTP2 True (put_client fd c (set_slot fd Taken w)))
    \<and> \<not> is_h2_preface request"
  using assms by (auto simp: parse_request_def with_client_def is_h2_preface_def H2_PREFACE_def Let_def)

theorem split_post_refused_witness:
  "parse_request demo_env 0 7 (put_client 7 (demo_conn\<lparr> cn_inbox := take 1 ''POST /'' \<rparr>) demo_worker)
     = (False, fail demo_env 7 502 NO_HTTP2 True (put_client 7 (demo_conn\<lparr> cn_inbox := take 1 ''POST /'' \<rparr>)
         (set_slot 7 Taken (put_client 7 (demo_conn\<lparr> cn_inbox := take 1 ''POST /'' \<rparr>) demo_worker))))
   \<and> \<not> is_h2_preface ''POST /''"
  by (rule split_post_refused [OF set_slot_same]) (simp_all add: demo_env_def)

text \<open>What closing a connection leaves of the counters of requests in flight: all of them.\<close>

lemma heap_simps [simp]:
  "wk_heap (set_slot fd x w) = wk_heap w" "wk_heap (on_metrics f w) = wk_heap w" "wk_heap (bump_generation fd w) = wk_heap w"
  "wk_heap (log_effect e w) = wk_heap w" "wk_heap (snd (submit E kind fd op w)) = wk_heap w"
  by (simp_all add: set_slot_def on_metrics_def bump_generation_def log_effect_def submit_def)

lemma heap_close [simp]: "wk_heap (close_fd E fd w) = wk_heap w"
  by (simp add: close_fd_def Let_def)

lemma heap_drives [simp]:
  "wk_heap (snd (drive_down_write E fd x)) = wk_heap (snd x)" "wk_heap (snd (drive_up_write E x)) = wk_heap (snd x)"
  "wk_heap (snd (drive_up_read E x)) = wk_heap (snd x)" "wk_heap (snd (drive_down_read E fd x)) = wk_heap (snd x)"
  by (cases x; simp add: drive_down_write_def drive_up_write_def drive_up_read_def drive_down_read_def Let_def
        case_prod_beta split: option.split)+

lemma heap_drive [simp]: "wk_heap (drive E fd w) = wk_heap w"
  by (simp add: drive_def hand_off_conn_def with_conn_def with_client_def Let_def case_prod_beta split: slot.split option.split)

lemma closing_down_write: "\<not> has_pending_out (fst x) \<Longrightarrow> drive_down_write E fd x = x"
  by (cases x) (simp add: drive_down_write_def)

lemma closing_up_write:
  "cn_phase (fst x) = PhClosing \<Longrightarrow> cn_phase (fst (drive_up_write E x)) = PhClosing"
  "cn_writing (fst (drive_up_write E x)) = cn_writing (fst x)" "has_pending_out (fst (drive_up_write E x)) = has_pending_out (fst x)"
  by (cases x; simp add: drive_up_write_def case_prod_beta Let_def has_pending_out_def split: option.split)+

lemma closing_reads:
  "cn_phase (fst x) = PhClosing \<Longrightarrow> drive_up_read E x = x" "cn_phase (fst x) = PhClosing \<Longrightarrow> drive_down_read E fd x = x"
  by (cases x; simp add: drive_up_read_def drive_down_read_def wants_upstream_bytes_def wants_client_bytes_def split: option.split)+

lemma drive_closing:
  assumes "wk_slots w fd = Client c" "cn_phase c = PhClosing" "\<not> cn_writing c" "\<not> has_pending_out c" "cn_outbox c = []" "\<not> cn_hand_off c"
  shows "wk_slots (drive E fd w) fd = SlotEmpty"
proof -
  have sealed: "seal (we_rustls E) c = c" using assms(5) by (simp add: seal_def split: option.split)
  let ?x = "(c, set_slot fd Taken w)"
  obtain c1 w1 where u: "drive_up_write E ?x = (c1, w1)" by fastforce
  have 1: "drive_down_write E fd ?x = ?x" using closing_down_write[of ?x] assms(4) by simp
  have 2: "cn_phase c1 = PhClosing" "\<not> cn_writing c1" "\<not> has_pending_out c1" using closing_up_write[where x = ?x and E = E] assms(2-4) u by simp_all
  have "drive_up_read E (c1, w1) = (c1, w1)" "drive_down_read E fd (c1, w1) = (c1, w1)"
    using closing_reads[of "(c1, w1)"] 2 by simp_all
  with 1 2 u sealed assms(1,6) show ?thesis
    by (simp add: drive_def with_conn_def with_client_def slots_close Let_def)
qed

text \<open>C39. A client that resets its connection in the middle of an exchange is closed without its
request in flight being given back: the endpoint's counter stays as it was, although the connection
that held it is gone.\<close>

theorem reset_client_leaks_inflight:
  assumes "wk_slots w fd = Client c" "cn_inflight_held c" "\<not> cn_writing c" "\<not> cn_hand_off c"
    "cp_result cp = Inl e" "cp_buf cp = Some buf"
  shows "wk_slots (on_client_read E now fd cp w) fd = SlotEmpty \<and> wk_heap (on_client_read E now fd cp w) = wk_heap w"
proof -
  let ?c = "c\<lparr> cn_reading := False, cn_client_eof := True, cn_outbox := [],
               cn_tls := map_option (\<lambda>s. tls_kill (s\<lparr> ts_wire_out := [] \<rparr>)) (cn_tls c), cn_phase := PhClosing \<rparr>"
  let ?w = "put_client fd ?c (set_slot fd Taken w)"
  have "on_client_read E now fd cp w = advance E now fd ?w"
    using assms by (simp add: on_client_read_def client_read_def)
  also have "\<dots> = drive E fd ?w" by (subst advance.simps) simp
  moreover have "\<not> has_pending_out ?c" by (simp add: has_pending_out_def tls_kill_def split: option.split)
  ultimately show ?thesis using drive_closing[of ?w fd ?c E] assms(3,4) by simp
qed

theorem reset_client_leaks_inflight_witness:
  "wk_slots (on_client_read demo_env 0 7 \<lparr> cp_user = 0, cp_result = Inl (Some 104), cp_buf = Some [] \<rparr>
       (put_client 7 (demo_conn\<lparr> cn_phase := PhExchanging, cn_inflight_held := True \<rparr>) demo_worker)) 7 = SlotEmpty
   \<and> wk_heap (on_client_read demo_env 0 7 \<lparr> cp_user = 0, cp_result = Inl (Some 104), cp_buf = Some [] \<rparr>
       (put_client 7 (demo_conn\<lparr> cn_phase := PhExchanging, cn_inflight_held := True \<rparr>) demo_worker))
     = wk_heap (put_client 7 (demo_conn\<lparr> cn_phase := PhExchanging, cn_inflight_held := True \<rparr>) demo_worker)"
  by (rule reset_client_leaks_inflight [OF set_slot_same]) (simp_all add: demo_conn_def conn_new_def)

section \<open>The end of an exchange\<close>

lemma release_conn [simp]:
  "cn_client_keep_alive (fst (release_inflight (c, w))) = cn_client_keep_alive c"
  "cn_outbox (fst (release_inflight (c, w))) = cn_outbox c"
  by (simp_all add: release_inflight_def)

lemma finish_response_slot:
  assumes "wk_slots w fd = Client c" "cn_client_keep_alive c"
  shows "\<exists>c1. wk_slots (finish_response E now fd w) fd = Client c1 \<and> cn_phase c1 = PhHead \<and> cn_inbox c1 = cn_inbox c
    \<and> cn_outbox c1 = cn_outbox c \<and> cn_upstream c1 = None \<and> cn_request_body c1 = BodyDone \<and> cn_deadline c1 = None"
proof -
  obtain c1 w1 where r: "release_inflight (c, set_slot fd Taken w) = (c1, w1)" by fastforce
  have "cn_client_keep_alive c1 = cn_client_keep_alive c" "cn_inbox c1 = cn_inbox c" "cn_outbox c1 = cn_outbox c"
    using release_conn[of c "set_slot fd Taken w"] release_keeps(4)[of c "set_slot fd Taken w"] unfolding r by simp_all
  with assms show ?thesis
    by (simp add: finish_response_def with_conn_def with_client_def r Let_def conn_reset_def without_upstream_def)
qed

text \<open>A keep-alive connection that has answered a request is on no clock: whatever the time, the
sweep for idle connections leaves it alone until its client sends something.\<close>

theorem idle_after_exchange_never_swept:
  assumes "wk_slots w fd = Client c" "cn_client_keep_alive c"
  shows "tick_client E t fd (finish_response E now fd w) = finish_response E now fd w"
  using finish_response_slot [OF assms, of E now] by (auto simp: tick_client_def)

theorem idle_after_exchange_never_swept_witness:
  "tick_client demo_env (10 ^ 15) 7 (finish_response demo_env 5 7 (put_client 7 (demo_conn\<lparr> cn_phase := PhRelaying \<rparr>) demo_worker))
   = finish_response demo_env 5 7 (put_client 7 (demo_conn\<lparr> cn_phase := PhRelaying \<rparr>) demo_worker)"
  by (rule idle_after_exchange_never_swept [OF set_slot_same]) (simp add: demo_conn_def conn_new_def)

text \<open>An answer that completes before its request's body does ends the exchange all the same: what
is left of the body is in the inbox of a connection that expects a request head and knows of no body.\<close>

theorem early_answer_desyncs:
  assumes "wk_slots w fd = Client c" "cn_client_keep_alive c" "\<not> body_is_done (cn_request_body c)"
  shows "\<exists>c1. wk_slots (finish_response E now fd w) fd = Client c1 \<and> cn_phase c1 = PhHead
    \<and> cn_inbox c1 = cn_inbox c \<and> body_is_done (cn_request_body c1)"
  using finish_response_slot [OF assms(1,2), of E now] by (auto simp: body_is_done_def)

theorem early_answer_desyncs_witness:
  "\<exists>c1. wk_slots (finish_response demo_env 5 7 (put_client 7
        (demo_conn\<lparr> cn_phase := PhRelaying, cn_request_body := BodyLength 30, cn_inbox := ''GET /admin HTTP/1.1'' \<rparr>) demo_worker)) 7 = Client c1
     \<and> cn_phase c1 = PhHead
     \<and> cn_inbox c1 = cn_inbox (demo_conn\<lparr> cn_phase := PhRelaying, cn_request_body := BodyLength 30, cn_inbox := ''GET /admin HTTP/1.1'' \<rparr>)
     \<and> body_is_done (cn_request_body c1)"
  by (rule early_answer_desyncs [OF set_slot_same]) (simp_all add: demo_conn_def conn_new_def body_is_done_def)

text \<open>While an exchange waits for its answer, a further read of the request's body puts it on the
idle clock of five minutes: until that has passed it is not answered 504, however short the response
timeout and however long ago it was due.\<close>

theorem body_read_lifts_timeout:
  assumes "cn_preface c = None" "cn_tls c = None" "cn_phase c = PhExchanging" "0 < n" "t < now + CLIENT_IDLE"
    "client_read E now (Inr n) buf (c, w) = (c1, w1)"
  shows "tick_client E t fd (put_client fd c1 w1) = put_client fd c1 w1 \<and> cn_phase c1 = PhExchanging"
  using assms by (auto simp: client_read_def ingest_def tick_client_def)

theorem body_read_lifts_timeout_witness:
  "tick_client demo_env 200000000000 7 (put_client 7 (fst (client_read demo_env 0 (Inr 4) ''body''
        (demo_conn\<lparr> cn_phase := PhExchanging, cn_deadline := Some 30000000000 \<rparr>, demo_worker)))
      (snd (client_read demo_env 0 (Inr 4) ''body'' (demo_conn\<lparr> cn_phase := PhExchanging, cn_deadline := Some 30000000000 \<rparr>, demo_worker))))
    = put_client 7 (fst (client_read demo_env 0 (Inr 4) ''body''
        (demo_conn\<lparr> cn_phase := PhExchanging, cn_deadline := Some 30000000000 \<rparr>, demo_worker)))
      (snd (client_read demo_env 0 (Inr 4) ''body'' (demo_conn\<lparr> cn_phase := PhExchanging, cn_deadline := Some 30000000000 \<rparr>, demo_worker)))
   \<and> cn_phase (fst (client_read demo_env 0 (Inr 4) ''body'' (demo_conn\<lparr> cn_phase := PhExchanging, cn_deadline := Some 30000000000 \<rparr>, demo_worker)))
     = PhExchanging"
  by (rule body_read_lifts_timeout [where n = 4 and now = 0 and buf = "''body''" and w = demo_worker
        and c = "demo_conn\<lparr> cn_phase := PhExchanging, cn_deadline := Some 30000000000 \<rparr>"])
     (simp_all add: demo_conn_def conn_new_def CLIENT_IDLE_def)

section \<open>An interim response\<close>

definition CONTINUE :: bytes where
  "CONTINUE = ''HTTP/1.1 100 Continue'' @ CRLF @ CRLF"

definition continue_head :: head where
  "continue_head = \<lparr> hd_start = StatusLine 100 (span_at 13 8) Http11, hd_headers = [], hd_len = 25, hd_scanned = 0 \<rparr>"

lemma continue_parses:
  "parse_response_head CONTINUE head_default = (Inr True, continue_head)" "is_switching_protocols continue_head = False"
  "response_framing continue_head CONTINUE False = Inr Empty" "response_framing continue_head CONTINUE True = Inr Empty"
  by code_simp+

lemma accept_response_empty:
  assumes "accept_response E now Empty (c, w) = (c1, w1)"
  shows "cn_response_body c1 = BodyDone \<and> cn_response_head_seen c1 \<and> cn_client_keep_alive c1 = cn_client_keep_alive c"
proof -
  obtain c0 w0 where l: "take_latency E now (c, w) = (c0, w0)" by fastforce
  have "cn_client_keep_alive c0 = cn_client_keep_alive c"
    using l by (auto simp: take_latency_def split: option.splits)
  with assms show ?thesis
    by (auto simp: accept_response_def l Let_def conn_response_def split: if_splits)
qed

text \<open>C38. An upstream's \<open>100 Continue\<close> is taken for the answer: the exchange ends with it, the upstream
is given up, and the connection waits for the next request's head, whatever part of the request's
body has yet to be sent.\<close>

theorem interim_response_ends_exchange:
  assumes "wk_slots w fd = Client c" "cn_up_inbox c = CONTINUE" "cn_up_head c = head_default" "\<not> cn_response_head_seen c"
    "cn_client_keep_alive c"
  shows "\<exists>c1. wk_slots (snd (parse_response E now fd w)) fd = Client c1 \<and> cn_phase c1 = PhHead \<and> cn_upstream c1 = None
    \<and> cn_inbox c1 = cn_inbox c \<and> body_is_done (cn_request_body c1)"
proof -
  let ?c = "c\<lparr> cn_up_head := continue_head \<rparr>"
  obtain c1 w1 where a: "accept_response E now Empty (?c, set_slot fd Taken w) = (c1, w1)" by fastforce
  have framing: "response_framing continue_head CONTINUE (cn_method_was_head c) = Inr Empty"
    using continue_parses(3,4) by (cases "cn_method_was_head c") simp_all
  have "snd (parse_response E now fd w) = finish_response E now fd (put_client fd c1 w1)"
    using assms framing accept_response_empty [OF a]
    by (simp add: parse_response_def with_client_def continue_parses relay_body_def body_is_done_def a, simp add: CONTINUE_def)
  then show ?thesis
    using finish_response_slot [OF set_slot_same, of c1 E now fd w1] accept_response_empty [OF a] accept_keeps [OF a] assms(5)
    by (auto simp: body_is_done_def)
qed

theorem interim_response_ends_exchange_witness:
  "\<exists>c1. wk_slots (snd (parse_response demo_env 0 7 (put_client 7
        (demo_conn\<lparr> cn_phase := PhExchanging, cn_request_body := BodyLength 30, cn_up_inbox := CONTINUE \<rparr>) demo_worker))) 7 = Client c1
     \<and> cn_phase c1 = PhHead \<and> cn_upstream c1 = None
     \<and> cn_inbox c1 = cn_inbox (demo_conn\<lparr> cn_phase := PhExchanging, cn_request_body := BodyLength 30, cn_up_inbox := CONTINUE \<rparr>)
     \<and> body_is_done (cn_request_body c1)"
  by (rule interim_response_ends_exchange [OF set_slot_same]) (simp_all add: demo_conn_def conn_new_def)

section \<open>The drain\<close>

text \<open>What the drain may leave in a slot: what it waits for, and no connection that waits for a request.\<close>

definition drained :: "('r, 'p, 'a, 'd, 'c) slot \<Rightarrow> bool" where
  "drained s \<longleftrightarrow> (case s of
     Client c \<Rightarrow> cn_drain_counted c \<and> \<not> cn_client_keep_alive c \<and> cn_phase c \<noteq> PhHead \<and> cn_phase c \<noteq> PhTunnel
       \<and> (cn_phase c \<noteq> PhClosing \<or> cn_writing c \<or> has_pending_out c)
   | AdminSlot a \<Rightarrow> ad_drain_counted a \<and> (ad_writing a \<or> ad_outbox a \<noteq> [])
   | _ \<Rightarrow> True)"

lemma inflight_close:
  "wk_drain_inflight (close_fd E fd w) = wk_drain_inflight w - (if slot_counted (wk_slots w fd) then 1 else 0)"
  by (simp add: close_fd_def Let_def submit_def log_effect_def set_slot_def bump_generation_def)

lemma high_water_close: "wk_high_water w \<le> wk_high_water (close_fd E fd w)"
  by (simp add: close_fd_def Let_def submit_def log_effect_def set_slot_def bump_generation_def)

lemma counted_empty [simp]: "\<not> slot_counted SlotEmpty"
  by (simp add: slot_counted_def)

lemma on_metrics_drain [simp]: "wk_drain_inflight (on_metrics f w) = wk_drain_inflight w"
  by (simp add: on_metrics_def)

lemma slots_drain_set: "wk_slots (v\<lparr> wk_drain_inflight := n \<rparr>) = wk_slots v"
  by simp

lemma drain_slot_effect:
  assumes "\<not> slot_counted (wk_slots w fd)"
  shows "\<exists>s. wk_slots (drain_slot E fd w) = (wk_slots w)(fd := s) \<and> drained s
    \<and> wk_drain_inflight (drain_slot E fd w) = wk_drain_inflight w + (if slot_counted s then 1 else 0)"
proof (cases "wk_slots w fd")
  case (Client c)
  show ?thesis
  proof (cases "(cn_phase c \<in> {PhConnecting, PhExchanging, PhRelaying} \<or> cn_writing c \<or> has_pending_out c) \<and> cn_phase c \<noteq> PhTunnel")
    case True
    define c2 where "c2 = (let c1 = c\<lparr> cn_client_keep_alive := False \<rparr> in (if cn_phase c1 = PhHead then c1\<lparr> cn_phase := PhClosing \<rparr> else c1)\<lparr> cn_drain_counted := True \<rparr>)"
    have "drained (Client c2)"
      using True by (cases "cn_tls c") (auto simp: c2_def drained_def Let_def has_pending_out_def)
    moreover have "drain_slot E fd w = (put_client fd c2 w)\<lparr> wk_drain_inflight := wk_drain_inflight w + 1 \<rparr>"
      using True Client by (simp add: drain_slot_def drain_client_def c2_def Let_def)
    moreover have "slot_counted (Client c2)" by (simp add: c2_def slot_counted_def Let_def)
    ultimately show ?thesis by (intro exI[of _ "Client c2"]) (simp add: slots_set)
  next
    case False
    then have "drain_slot E fd w = close_fd E fd (on_metrics core_connection_closed w)"
      using Client by (auto simp: drain_slot_def drain_client_def Let_def)
    then show ?thesis
      using assms by (intro exI[of _ SlotEmpty]) (simp add: slots_close drained_def inflight_close)
  qed
next
  case (AdminSlot a)
  show ?thesis
  proof (cases "ad_writing a \<or> ad_outbox a \<noteq> []")
    case True
    then show ?thesis using AdminSlot
      by (intro exI[of _ "AdminSlot (a\<lparr> ad_drain_counted := True \<rparr>)"])
         (auto simp: drain_slot_def drain_admin_def drained_def slot_counted_def slots_set)
  next
    case False
    then show ?thesis using AdminSlot assms
      by (intro exI[of _ SlotEmpty]) (simp add: drain_slot_def drain_admin_def slots_close drained_def inflight_close)
  qed
qed (intro exI[of _ "wk_slots w fd"], simp add: drain_slot_def drained_def slot_counted_def fun_upd_idem)+

lemma drain_slots:
  assumes "\<forall>fd. \<not> slot_counted (wk_slots w fd)"
  shows "(\<forall>i<n. drained (wk_slots (fold (\<lambda>i. drain_slot E (int i)) [0..<n] w) (int i)))
    \<and> (\<forall>fd. fd < 0 \<or> int n \<le> fd \<longrightarrow> wk_slots (fold (\<lambda>i. drain_slot E (int i)) [0..<n] w) fd = wk_slots w fd)
    \<and> wk_drain_inflight (fold (\<lambda>i. drain_slot E (int i)) [0..<n] w)
        = wk_drain_inflight w + card {i. i < n \<and> slot_counted (wk_slots (fold (\<lambda>i. drain_slot E (int i)) [0..<n] w) (int i))}"
proof (induction n)
  case (Suc n)
  let ?v = "fold (\<lambda>i. drain_slot E (int i)) [0..<n] w"
  have "\<not> slot_counted (wk_slots ?v (int n))" using Suc.IH assms by simp
  from drain_slot_effect [OF this, of E] obtain s where
    s: "wk_slots (drain_slot E (int n) ?v) = (wk_slots ?v)(int n := s)" "drained s"
      "wk_drain_inflight (drain_slot E (int n) ?v) = wk_drain_inflight ?v + (if slot_counted s then 1 else 0)" by blast
  have "{i. i < Suc n \<and> slot_counted (((wk_slots ?v)(int n := s)) (int i))}
      = {i. i < n \<and> slot_counted (wk_slots ?v (int i))} \<union> (if slot_counted s then {n} else {})"
    by (auto simp: less_Suc_eq)
  then have "card {i. i < Suc n \<and> slot_counted (((wk_slots ?v)(int n := s)) (int i))}
      = card {i. i < n \<and> slot_counted (wk_slots ?v (int i))} + (if slot_counted s then 1 else 0)"
    by (simp add: card_insert_if)
  with Suc.IH s show ?case by (auto simp: less_Suc_eq)
qed simp

lemma close_idle_parts:
  "wk_slots (fold (close_fd E) fds w) fd \<in> {wk_slots w fd, SlotEmpty}"
  "wk_high_water w \<le> wk_high_water (fold (close_fd E) fds w)"
  "\<forall>fd. \<not> slot_counted (wk_slots w fd) \<Longrightarrow> wk_drain_inflight (fold (close_fd E) fds w) = wk_drain_inflight w"
proof (induction fds arbitrary: w)
  case (Cons x fds)
  {
    case 1
    show ?case using Cons.IH(1) [of "close_fd E x w"] by (auto simp: slots_close split: if_splits)
  next
    case 2
    show ?case using Cons.IH(2) [of "close_fd E x w"] high_water_close [of w E x] by simp
  next
    case 3
    then show ?case using Cons.IH(3) [of "close_fd E x w"] by (simp add: slots_close inflight_close)
  }
qed simp_all

lemma begin_drain_start:
  assumes "\<forall>fd. \<not> slot_counted (wk_slots w fd)" "wk_drain_inflight w = 0"
  shows "\<exists>v. begin_drain E now w = fold (\<lambda>i. drain_slot E (int i)) [0..<wk_high_water v] v
    \<and> (\<forall>fd. wk_slots v fd \<in> {wk_slots w fd, SlotEmpty}) \<and> wk_high_water w \<le> wk_high_water v \<and> wk_drain_inflight v = 0"
proof -
  define w1 where "w1 = (close_intakes E (w\<lparr> wk_drain_deadline := Some (now + we_shutdown_grace E) \<rparr>))\<lparr> wk_intakes := [], wk_intake_partial := [] \<rparr>"
  let ?w2 = "close_admin E w1" and ?w3 = "close_idle E (close_admin E w1)"
  have 1: "wk_slots w1 fd \<in> {wk_slots w fd, SlotEmpty}" "wk_high_water w \<le> wk_high_water w1" "wk_drain_inflight w1 = 0" for fd
    using close_idle_parts [where E = E and fds = "map in_fd (wk_intakes w)" and w = "w\<lparr> wk_drain_deadline := Some (now + we_shutdown_grace E) \<rparr>"] assms
    by (simp_all add: close_intakes_def w1_def)
  have n1: "\<not> slot_counted (wk_slots w1 fd)" for fd using 1(1)[of fd] assms(1) by auto
  have 2: "wk_slots ?w2 fd \<in> {wk_slots w fd, SlotEmpty} \<and> wk_high_water w \<le> wk_high_water ?w2 \<and> wk_drain_inflight ?w2 = 0" for fd
  proof (cases "wk_admin w1")
    case (Some a)
    then have e: "?w2 = close_fd E a (w1\<lparr> wk_admin := None \<rparr>)" by (simp add: close_admin_def)
    show ?thesis
      using 1(1)[of fd] 1(2,3) n1[of a] high_water_close [of "w1\<lparr> wk_admin := None \<rparr>" E a] unfolding e by (simp add: slots_close inflight_close)
  qed (use 1 in \<open>simp add: close_admin_def\<close>)
  have n2: "\<not> slot_counted (wk_slots ?w2 fd)" for fd using 2[of fd] assms(1) by auto
  obtain idle pool where d: "pool_drain (wk_pool ?w2) = (idle, pool)" by fastforce
  have 3: "wk_slots ?w3 fd \<in> {wk_slots w fd, SlotEmpty}" "wk_high_water w \<le> wk_high_water ?w3" "wk_drain_inflight ?w3 = 0" for fd
    using close_idle_parts(1) [where E = E and fds = idle and w = "?w2\<lparr> wk_pool := pool \<rparr>" and fd = fd]
      close_idle_parts(2,3) [where E = E and fds = idle and w = "?w2\<lparr> wk_pool := pool \<rparr>"] 2[of fd] n2
    by (simp_all add: close_idle_def d) auto
  have "begin_drain E now w = fold (\<lambda>i. drain_slot E (int i)) [0..<wk_high_water ?w3] ?w3"
    unfolding begin_drain_def Let_def w1_def ..
  with 3 show ?thesis by blast
qed

text \<open>C34. After \<open>begin_drain\<close> every connection left is carrying something for its client, ends with it,
and is counted exactly once: none waits for a request, no tunnel stays, and the number the loop
counts down from is the number of connections left to count.\<close>

theorem drain_counts_what_it_keeps:
  assumes "\<forall>fd. \<not> slot_counted (wk_slots w fd)" "wk_drain_inflight w = 0"
    "\<forall>fd. fd < 0 \<or> int (wk_high_water w) \<le> fd \<longrightarrow> wk_slots w fd = SlotEmpty"
  shows "(\<forall>fd. drained (wk_slots (begin_drain E now w) fd))
    \<and> int (wk_drain_inflight (begin_drain E now w)) = int (card {fd. slot_counted (wk_slots (begin_drain E now w) fd)})"
proof -
  from begin_drain_start [OF assms(1,2), where E = E and now = now] obtain v where
    v: "begin_drain E now w = fold (\<lambda>i. drain_slot E (int i)) [0..<wk_high_water v] v" (is "_ = ?d")
      "\<forall>fd. wk_slots v fd \<in> {wk_slots w fd, SlotEmpty}" "wk_high_water w \<le> wk_high_water v" "wk_drain_inflight v = 0" by blast
  have nc: "\<forall>fd. \<not> slot_counted (wk_slots v fd)"
  proof
    fix fd
    from v(2) have "wk_slots v fd = wk_slots w fd \<or> wk_slots v fd = SlotEmpty" by blast
    then show "\<not> slot_counted (wk_slots v fd)" using assms(1) by auto
  qed
  note D = drain_slots [OF nc, of "wk_high_water v" E]
  have out: "wk_slots ?d fd = SlotEmpty" if "fd < 0 \<or> int (wk_high_water v) \<le> fd" for fd
  proof -
    have "wk_slots w fd = SlotEmpty" using that v(3) assms(3) by auto
    moreover have "wk_slots v fd = wk_slots w fd \<or> wk_slots v fd = SlotEmpty" using v(2) by blast
    ultimately show ?thesis using D that by metis
  qed
  have all: "drained (wk_slots ?d fd)" for fd
  proof (cases "fd < 0 \<or> int (wk_high_water v) \<le> fd")
    case True
    then show ?thesis by (simp add: out drained_def)
  next
    case False
    then have "nat fd < wk_high_water v" "int (nat fd) = fd" by auto
    with D show ?thesis by metis
  qed
  have "{fd. slot_counted (wk_slots ?d fd)} = int ` {i. i < wk_high_water v \<and> slot_counted (wk_slots ?d (int i))}" (is "?l = ?r")
  proof
    show "?l \<subseteq> ?r"
    proof
      fix fd assume c: "fd \<in> ?l"
      then have "\<not> (fd < 0 \<or> int (wk_high_water v) \<le> fd)" using out by fastforce
      then have "nat fd < wk_high_water v" "fd = int (nat fd)" by auto
      moreover from c this have "slot_counted (wk_slots ?d (int (nat fd)))" by simp
      ultimately show "fd \<in> ?r" by blast
    qed
  qed auto
  then have "card {fd. slot_counted (wk_slots ?d fd)} = card {i. i < wk_high_water v \<and> slot_counted (wk_slots ?d (int i))}"
    by (simp add: card_image inj_on_def)
  with D v(4) all show ?thesis unfolding v(1) by simp
qed

theorem drain_counts_what_it_keeps_witness:
  "(\<forall>fd. drained (wk_slots (begin_drain demo_env 9 (put_client 7 (demo_conn\<lparr> cn_phase := PhRelaying \<rparr>) (put_client 8 demo_conn demo_worker))) fd))
   \<and> int (wk_drain_inflight (begin_drain demo_env 9 (put_client 7 (demo_conn\<lparr> cn_phase := PhRelaying \<rparr>) (put_client 8 demo_conn demo_worker))))
     = int (card {fd. slot_counted (wk_slots (begin_drain demo_env 9
          (put_client 7 (demo_conn\<lparr> cn_phase := PhRelaying \<rparr>) (put_client 8 demo_conn demo_worker))) fd)})"
  by (rule drain_counts_what_it_keeps)
     (auto simp: set_slot_def slot_counted_def demo_conn_def conn_new_def demo_worker_def worker_new_def)

section \<open>Handing a connection over\<close>

lemma feed_live_replay: "feed_live R cipher clear s = (ok, clear', s') \<Longrightarrow> ts_replay s' = ts_replay s"
  by (auto simp: feed_live_def pump_into_def Let_def split: tls_state.splits prod.splits if_splits)

lemma accept_forgets_replay:
  assumes "tls_accept R config clear s = (True, clear', s')" "ts_state s = TlsReady d"
  shows "ts_replay s' = []"
  using assms by (auto simp: tls_accept_def pump_into_def Let_def split: sum.splits prod.splits bool.splits if_splits dest!: feed_live_replay)

text \<open>A connection whose TLS session this engine has accepted and whose plaintext then starts like
the HTTP/2 preface is given to the other engine with no bytes at all: the session's replay was
dropped when it was accepted, and the decrypted bytes and the session itself do not travel.\<close>

theorem live_session_handed_off_empty:
  assumes "wk_slots w fd = Client c" "cn_tls c = Some s'" "is_h2_preface (cn_inbox c)" "we_dispatch E"
    "tls_accept R config clear s = (True, clear', s')" "ts_state s = TlsReady d"
  shows "HandOff fd [] (cn_peer c) (cn_scheme c = ''https'') \<in> set (wk_log (snd (parse_request E now fd w)))"
proof -
  have "ts_replay s' = []" by (rule accept_forgets_replay) (fact assms(5,6))+
  with assms(1-4) show ?thesis
    by (simp add: parse_request_def with_client_def hand_off_conn_def with_conn_def Let_def into_replay_def
        log_effect_def on_metrics_def)
qed

text \<open>rustls that takes a hello and then reads it as it comes.\<close>

definition eager_rustls :: "(unit, unit, unit, unit) rustls" where
  "eager_rustls = demo_rustls\<lparr> acceptor_accept := (\<lambda>_. AcceptDone ()), into_connection := (\<lambda>_ _. Inr ()), is_handshaking := (\<lambda>_. False) \<rparr>"

definition ready_session :: "(unit, unit, unit) session" where
  "ready_session = \<lparr> ts_state = TlsReady (), ts_replay = ''hello'', ts_pending = [], ts_wire_out = [], ts_offer = Some OfferHttp11, ts_counted = False \<rparr>"

theorem live_session_handed_off_empty_witness:
  "HandOff 7 [] (cn_peer (demo_conn\<lparr> cn_tls := Some (snd (snd (tls_accept eager_rustls () [] ready_session))), cn_inbox := ''P'' \<rparr>))
      (cn_scheme (demo_conn\<lparr> cn_tls := Some (snd (snd (tls_accept eager_rustls () [] ready_session))), cn_inbox := ''P'' \<rparr>) = ''https'')
   \<in> set (wk_log (snd (parse_request (demo_env\<lparr> we_dispatch := True \<rparr>) 0 7 (put_client 7
        (demo_conn\<lparr> cn_tls := Some (snd (snd (tls_accept eager_rustls () [] ready_session))), cn_inbox := ''P'' \<rparr>) demo_worker))))"
  by (rule live_session_handed_off_empty [OF set_slot_same,
        where R = eager_rustls and config = "()" and clear = "[]" and clear' = "[]" and s = ready_session and d = "()"])
     (simp_all add: is_h2_preface_def H2_PREFACE_def tls_accept_def ready_session_def eager_rustls_def demo_rustls_def pump_into_def)

end
