(* ===== verification/Diff.thy ===== *)
theory Diff
  imports Table "HOL-Library.Multiset"
begin

text \<open>
  What changed between two published tables, \<open>crates/ramjet-controller/src/diff.rs\<close>. The code's
  \<open>BTreeMap\<close>s are association lists in the order of their keys; the hash maps of a table are visited in
  the order of its lists, which nothing below depends on.
\<close>

section \<open>Ordered maps\<close>

fun btree_insert :: "'k::linorder \<Rightarrow> 'v \<Rightarrow> ('k \<times> 'v) list \<Rightarrow> ('k \<times> 'v) list" where
  "btree_insert k v [] = [(k, v)]"
| "btree_insert k v ((k', v') # m) =
     (if k < k' then (k, v) # (k', v') # m else if k = k' then (k, v) # m else (k', v') # btree_insert k v m)"

definition btree_collect :: "('k::linorder \<times> 'v) list \<Rightarrow> ('k \<times> 'v) list" where
  "btree_collect xs = fold (\<lambda>(k, v). btree_insert k v) xs []"

definition btree_wf :: "('k::linorder \<times> 'v) list \<Rightarrow> bool" where
  "btree_wf m \<longleftrightarrow> sorted_wrt (<) (map fst m)"

lemma set_btree_insert: "fst ` set (btree_insert k v m) = insert k (fst ` set m)"
  by (induction k v m rule: btree_insert.induct) auto

lemma btree_wf_insert: "btree_wf m \<Longrightarrow> btree_wf (btree_insert k v m)"
proof (induction k v m rule: btree_insert.induct)
  case (2 k v k' v' m)
  then show ?case using set_btree_insert [of k v m] by (auto simp: btree_wf_def)
qed (simp add: btree_wf_def)

lemma map_of_btree_insert: "btree_wf m \<Longrightarrow> map_of (btree_insert k v m) = (map_of m)(k \<mapsto> v)"
proof (induction k v m rule: btree_insert.induct)
  case (2 k v k' v' m)
  have "map_of m k = None" if "k < k'"
    using that 2(2) by (auto simp: btree_wf_def map_of_eq_None_iff)
  with 2 show ?case by (auto simp: btree_wf_def fun_eq_iff)
qed simp

lemma btree_fold:
  "btree_wf m \<Longrightarrow> btree_wf (fold (\<lambda>(k, v). btree_insert k v) xs m)
    \<and> map_of (fold (\<lambda>(k, v). btree_insert k v) xs m) = map_of m ++ map_of (rev xs)"
proof (induction xs arbitrary: m)
  case (Cons x xs)
  then show ?case using btree_wf_insert [OF Cons.prems] map_of_btree_insert [OF Cons.prems]
    by (cases x) (auto simp: fun_eq_iff map_add_def split: option.split)
qed simp

lemma btree_collect_wf [simp]: "btree_wf (btree_collect xs)"
  and map_of_btree_collect: "map_of (btree_collect xs) = map_of (rev xs)"
  using btree_fold [of "[]" xs] by (simp_all add: btree_collect_def) (simp_all add: btree_wf_def)

lemma btree_distinct: "btree_wf m \<Longrightarrow> distinct (map fst m)"
  by (simp add: btree_wf_def strict_sorted_iff)

lemma btree_eqI:
  assumes "btree_wf m" "btree_wf m'" "map_of m = map_of m'"
  shows "m = m'"
proof -
  have d: "distinct (map fst m)" "distinct (map fst m')" using assms btree_distinct by auto
  have "set m = set m'" using assms(3) d by (metis map_of_eq_Some_iff subrelI subset_antisym)
  moreover have "sorted (map fst m)" "sorted (map fst m')" using assms by (simp_all add: btree_wf_def strict_sorted_iff)
  ultimately show ?thesis using d
    by (intro map_sorted_distinct_set_unique [of fst]) (simp_all add: distinct_map)
qed

section \<open>The two sides\<close>

record route_target =
  rg_backend :: string
  rg_endpoints :: nat
  rg_protocol :: backend_protocol
  rg_mirror :: "string option"

type_synonym route_key3 = "string \<times> string \<times> string"

definition mirror_text :: "'r route_table \<Rightarrow> mirror_spec \<Rightarrow> string" where
  "mirror_text t m =
     (let target = (case table_backend t (ms_backend m) of None \<Rightarrow> [] | Some b \<Rightarrow> be_name b);
          percent = show_nat (unat (ms_percent m))
      in case ms_host m of
           Some host \<Rightarrow> target @ '' ('' @ percent @ ''%, host '' @ host @ '')''
         | None \<Rightarrow> target @ '' ('' @ percent @ ''%)'')"

definition route_item :: "'r route_table \<Rightarrow> route_host \<times> 'r path_rule \<Rightarrow> route_key3 \<times> route_target" where
  "route_item t = (\<lambda>(host, rule).
     let b = table_backend t (pr_backend rule)
     in ((route_host_display host, pr_path rule, path_type_as_str (pr_path_type rule)),
         \<lparr> rg_backend = (case b of None \<Rightarrow> [] | Some b \<Rightarrow> be_name b),
           rg_endpoints = (case b of None \<Rightarrow> 0 | Some b \<Rightarrow> length (be_endpoints b)),
           rg_protocol = (case b of None \<Rightarrow> Http1 | Some b \<Rightarrow> be_protocol b),
           rg_mirror = map_option (mirror_text t) (rule_mirror rule) \<rparr>))"

definition routes_of :: "'r route_table option \<Rightarrow> (route_key3 \<times> route_target) list" where
  "routes_of table = (case table of None \<Rightarrow> [] | Some t \<Rightarrow> btree_collect (map (route_item t) (table_routes t)))"

definition hosts_of :: "'r route_table option \<Rightarrow> (string \<times> unit) list" where
  "hosts_of table =
     (case table of None \<Rightarrow> [] | Some t \<Rightarrow> btree_collect (map (\<lambda>(host, _). (route_host_display host, ())) (virtual_hosts t)))"

definition certs_of :: "'r route_table option \<Rightarrow> (string \<times> u64) list" where
  "certs_of table =
     (case table of None \<Rightarrow> [] | Some t \<Rightarrow> btree_collect (map (\<lambda>(host, i). (route_host_display host, i)) (sni_entries (rt_tls t))))"

definition default_backend_name :: "'r route_table \<Rightarrow> string option" where
  "default_backend_name t = map_option be_name (Option.bind (rt_default_backend t) (table_backend t))"

section \<open>The difference\<close>

record config_diff =
  df_from :: "u64 option"
  df_to :: u64
  df_routes_added :: "string list"
  df_routes_removed :: "string list"
  df_backends_changed :: "string list"
  df_certs_rotated :: "string list"
  df_hosts_added :: "string list"
  df_hosts_removed :: "string list"
  df_mirrors_added :: "string list"
  df_mirrors_removed :: "string list"
  df_default_backend_changed :: bool
  df_default_backend :: "string option"
  df_certs_added :: nat
  df_certs_removed :: nat

definition ARROW :: string where "ARROW = '' -> ''"

definition route_label :: "route_key3 \<Rightarrow> string" where
  "route_label k = fst k @ '' '' @ fst (snd k)"

definition describe :: "route_key3 \<Rightarrow> route_target \<Rightarrow> string" where
  "describe k target = route_label k @ ARROW @ rg_backend target"

text \<open>The line for a route that both sides have, when what it sends to differs.\<close>

definition backend_change :: "route_key3 \<Rightarrow> route_target \<Rightarrow> route_target \<Rightarrow> string list" where
  "backend_change k was target =
     (if rg_backend was \<noteq> rg_backend target
      then [route_label k @ '': '' @ rg_backend was @ ARROW @ rg_backend target]
      else if rg_protocol was \<noteq> rg_protocol target
      then [route_label k @ '': '' @ protocol_as_str (rg_protocol was) @ ARROW @ protocol_as_str (rg_protocol target) @ '' upstream'']
      else if rg_endpoints was \<noteq> rg_endpoints target
      then [route_label k @ '': '' @ show_nat (rg_endpoints was) @ ARROW @ show_nat (rg_endpoints target) @ '' endpoints'']
      else [])"

definition mirror_line :: "route_key3 \<Rightarrow> string option \<Rightarrow> string list" where
  "mirror_line k m = (case m of None \<Rightarrow> [] | Some text \<Rightarrow> [route_label k @ ARROW @ text])"

definition route_diff :: "(route_key3 \<times> route_target) list \<Rightarrow> (route_key3 \<times> route_target) list \<Rightarrow> config_diff \<Rightarrow> config_diff" where
  "route_diff before after d0 =
     (let one = (\<lambda>(k, target) d.
            let was = map_of before k;
                d1 = (case was of
                        None \<Rightarrow> d\<lparr> df_routes_added := df_routes_added d @ [describe k target] \<rparr>
                      | Some w \<Rightarrow> d\<lparr> df_backends_changed := df_backends_changed d @ backend_change k w target \<rparr>);
                had = Option.bind was rg_mirror
            in if had \<noteq> rg_mirror target
               then d1\<lparr> df_mirrors_added := df_mirrors_added d1 @ mirror_line k (rg_mirror target),
                        df_mirrors_removed := df_mirrors_removed d1 @ mirror_line k had \<rparr>
               else d1);
          gone = (\<lambda>(k, target) d.
            if map_of after k = None
            then d\<lparr> df_routes_removed := df_routes_removed d @ [describe k target],
                    df_mirrors_removed := df_mirrors_removed d @ mirror_line k (rg_mirror target) \<rparr>
            else d)
      in fold gone before (fold one after d0))"

definition cert_diff :: "(string \<times> u64) list \<Rightarrow> (string \<times> u64) list \<Rightarrow> config_diff \<Rightarrow> config_diff" where
  "cert_diff before after d0 =
     (let one = (\<lambda>(host, i) d.
            case map_of before host of
              None \<Rightarrow> d\<lparr> df_certs_added := df_certs_added d + 1, df_certs_rotated := df_certs_rotated d @ [host] \<rparr>
            | Some was \<Rightarrow> if was \<noteq> i then d\<lparr> df_certs_rotated := df_certs_rotated d @ [host] \<rparr> else d);
          gone = (\<lambda>(host, _) d.
            if map_of after host = None
            then d\<lparr> df_certs_removed := df_certs_removed d + 1, df_certs_rotated := df_certs_rotated d @ [host] \<rparr>
            else d)
      in fold gone before (fold one after d0))"

definition diff_default :: config_diff where
  "diff_default =
     \<lparr> df_from = None, df_to = 0, df_routes_added = [], df_routes_removed = [], df_backends_changed = [], df_certs_rotated = [],
       df_hosts_added = [], df_hosts_removed = [], df_mirrors_added = [], df_mirrors_removed = [], df_default_backend_changed = False,
       df_default_backend = None, df_certs_added = 0, df_certs_removed = 0 \<rparr>"

text \<open>The keys of one set that the other lacks, in order.\<close>

definition btree_difference :: "('k \<times> 'v) list \<Rightarrow> ('k \<times> 'w) list \<Rightarrow> 'k list" where
  "btree_difference a b = filter (\<lambda>k. map_of b k = None) (map fst a)"

definition sort_diff :: "config_diff \<Rightarrow> config_diff" where
  "sort_diff d = d\<lparr>
     df_routes_added := sort (df_routes_added d), df_routes_removed := sort (df_routes_removed d),
     df_backends_changed := sort (df_backends_changed d), df_certs_rotated := sort (df_certs_rotated d),
     df_hosts_added := sort (df_hosts_added d), df_hosts_removed := sort (df_hosts_removed d),
     df_mirrors_added := sort (df_mirrors_added d), df_mirrors_removed := sort (df_mirrors_removed d) \<rparr>"

definition diff_compute :: "'r route_table option \<Rightarrow> 'r route_table \<Rightarrow> config_diff" where
  "diff_compute previous t =
     (let d = route_diff (routes_of previous) (routes_of (Some t))
                (diff_default\<lparr> df_from := map_option rt_generation previous, df_to := rt_generation t \<rparr>);
          d1 = d\<lparr> df_hosts_added := btree_difference (hosts_of (Some t)) (hosts_of previous),
                  df_hosts_removed := btree_difference (hosts_of previous) (hosts_of (Some t)) \<rparr>;
          d2 = cert_diff (certs_of previous) (certs_of (Some t)) d1;
          now = default_backend_name t
      in sort_diff (d2\<lparr> df_default_backend := now,
                        df_default_backend_changed := (Option.bind previous default_backend_name \<noteq> now) \<rparr>))"

definition diff_is_empty :: "config_diff \<Rightarrow> bool" where
  "diff_is_empty d \<longleftrightarrow>
     df_routes_added d = [] \<and> df_routes_removed d = [] \<and> df_backends_changed d = [] \<and> df_certs_rotated d = []
     \<and> df_hosts_added d = [] \<and> df_hosts_removed d = [] \<and> df_mirrors_added d = [] \<and> df_mirrors_removed d = []
     \<and> \<not> df_default_backend_changed d"

section \<open>The summary\<close>

definition count_part :: "nat \<times> string \<times> string \<Rightarrow> string list" where
  "count_part = (\<lambda>(count, singular, plural).
     if 0 < count then [show_nat count @ '' '' @ (if count = 1 then singular else plural)] else [])"

fun join_parts :: "string list \<Rightarrow> string" where
  "join_parts [] = []"
| "join_parts [p] = p"
| "join_parts (p # ps) = p @ '', '' @ join_parts ps"

text \<open>The arrow of the generations is U+2192 in UTF-8.\<close>

definition diff_summary :: "config_diff \<Rightarrow> string" where
  "diff_summary d =
     (let replaced = length (df_certs_rotated d) - (df_certs_added d + df_certs_removed d);
          parts = concat (map count_part
            [(length (df_routes_added d), ''route added'', ''routes added''),
             (length (df_routes_removed d), ''route removed'', ''routes removed''),
             (length (df_backends_changed d), ''backend changed'', ''backends changed''),
             (length (df_hosts_added d), ''host added'', ''hosts added''),
             (length (df_hosts_removed d), ''host removed'', ''hosts removed''),
             (length (df_mirrors_added d), ''mirror added'', ''mirrors added''),
             (length (df_mirrors_removed d), ''mirror removed'', ''mirrors removed''),
             (df_certs_added d, ''cert added'', ''certs added''),
             (df_certs_removed d, ''cert removed'', ''certs removed''),
             (replaced, ''cert rotated'', ''certs rotated'')])
            @ (if df_default_backend_changed d
               then [case df_default_backend d of Some backend \<Rightarrow> ''default backend now '' @ backend
                                                | None \<Rightarrow> ''default backend cleared'']
               else [])
      in (if parts = [] then ''no visible change'' else join_parts parts)
         @ '' (gen '' @ show_nat (unat (opt_or 0 (df_from d))) @ [CHR 0xE2, CHR 0x86, CHR 0x92] @ show_nat (unat (df_to d)) @ '')'')"

datatype json_value = JText string | JList "string list"

definition diff_to_json :: "config_diff \<Rightarrow> (string \<times> json_value) list" where
  "diff_to_json d =
     [(''summary'', JText (diff_summary d)), (''routes_added'', JList (df_routes_added d)),
      (''routes_removed'', JList (df_routes_removed d)), (''backends_changed'', JList (df_backends_changed d)),
      (''certs_rotated'', JList (df_certs_rotated d)), (''hosts_added'', JList (df_hosts_added d)),
      (''hosts_removed'', JList (df_hosts_removed d)), (''mirrors_added'', JList (df_mirrors_added d)),
      (''mirrors_removed'', JList (df_mirrors_removed d))]"

section \<open>What an empty difference means\<close>

text \<open>The lines each entry of the newer side gives.\<close>

definition added_line :: "(route_key3 \<times> route_target) list \<Rightarrow> route_key3 \<times> route_target \<Rightarrow> string list" where
  "added_line before = (\<lambda>(k, target). if map_of before k = None then [describe k target] else [])"

definition changed_line :: "(route_key3 \<times> route_target) list \<Rightarrow> route_key3 \<times> route_target \<Rightarrow> string list" where
  "changed_line before = (\<lambda>(k, target). case map_of before k of None \<Rightarrow> [] | Some was \<Rightarrow> backend_change k was target)"

definition mirror_moved :: "(route_key3 \<times> route_target) list \<Rightarrow> route_key3 \<times> route_target \<Rightarrow> bool" where
  "mirror_moved before = (\<lambda>(k, target). Option.bind (map_of before k) rg_mirror \<noteq> rg_mirror target)"

definition mirror_added_line :: "(route_key3 \<times> route_target) list \<Rightarrow> route_key3 \<times> route_target \<Rightarrow> string list" where
  "mirror_added_line before = (\<lambda>x. if mirror_moved before x then mirror_line (fst x) (rg_mirror (snd x)) else [])"

definition mirror_removed_line :: "(route_key3 \<times> route_target) list \<Rightarrow> route_key3 \<times> route_target \<Rightarrow> string list" where
  "mirror_removed_line before =
     (\<lambda>x. if mirror_moved before x then mirror_line (fst x) (Option.bind (map_of before (fst x)) rg_mirror) else [])"

definition gone_line :: "(route_key3 \<times> route_target) list \<Rightarrow> route_key3 \<times> route_target \<Rightarrow> string list" where
  "gone_line after = (\<lambda>(k, target). if map_of after k = None then [describe k target] else [])"

definition mirror_gone_line :: "(route_key3 \<times> route_target) list \<Rightarrow> route_key3 \<times> route_target \<Rightarrow> string list" where
  "mirror_gone_line after = (\<lambda>(k, target). if map_of after k = None then mirror_line k (rg_mirror target) else [])"

lemmas line_defs = added_line_def changed_line_def mirror_moved_def mirror_added_line_def mirror_removed_line_def
  gone_line_def mirror_gone_line_def

lemma route_diff_lines:
  "route_diff before after d =
     d\<lparr> df_routes_added := df_routes_added d @ concat (map (added_line before) after),
        df_routes_removed := df_routes_removed d @ concat (map (gone_line after) before),
        df_backends_changed := df_backends_changed d @ concat (map (changed_line before) after),
        df_mirrors_added := df_mirrors_added d @ concat (map (mirror_added_line before) after),
        df_mirrors_removed := df_mirrors_removed d @ concat (map (mirror_removed_line before) after) @ concat (map (mirror_gone_line after) before) \<rparr>"
proof -
  define one where "one = (\<lambda>(k, target) (d :: config_diff).
            let was = map_of before k;
                d1 = (case was of
                        None \<Rightarrow> d\<lparr> df_routes_added := df_routes_added d @ [describe k target] \<rparr>
                      | Some w \<Rightarrow> d\<lparr> df_backends_changed := df_backends_changed d @ backend_change k w target \<rparr>);
                had = Option.bind was rg_mirror
            in if had \<noteq> rg_mirror target
               then d1\<lparr> df_mirrors_added := df_mirrors_added d1 @ mirror_line k (rg_mirror target),
                        df_mirrors_removed := df_mirrors_removed d1 @ mirror_line k had \<rparr>
               else d1)"
  define gone where "gone = (\<lambda>(k, target) (d :: config_diff).
            if map_of after k = None
            then d\<lparr> df_routes_removed := df_routes_removed d @ [describe k target],
                    df_mirrors_removed := df_mirrors_removed d @ mirror_line k (rg_mirror target) \<rparr>
            else d)"
  have step: "one x d = d\<lparr> df_routes_added := df_routes_added d @ added_line before x,
        df_backends_changed := df_backends_changed d @ changed_line before x,
        df_mirrors_added := df_mirrors_added d @ mirror_added_line before x,
        df_mirrors_removed := df_mirrors_removed d @ mirror_removed_line before x \<rparr>" for x d
    by (cases x) (simp add: one_def line_defs Let_def split: option.split)
  have drop: "gone x d = d\<lparr> df_routes_removed := df_routes_removed d @ gone_line after x,
        df_mirrors_removed := df_mirrors_removed d @ mirror_gone_line after x \<rparr>" for x d
    by (cases x) (simp add: gone_def line_defs)
  have 1: "fold one xs d = d\<lparr> df_routes_added := df_routes_added d @ concat (map (added_line before) xs),
        df_backends_changed := df_backends_changed d @ concat (map (changed_line before) xs),
        df_mirrors_added := df_mirrors_added d @ concat (map (mirror_added_line before) xs),
        df_mirrors_removed := df_mirrors_removed d @ concat (map (mirror_removed_line before) xs) \<rparr>" for xs d
    by (induction xs arbitrary: d) (simp_all add: step)
  have 2: "fold gone xs d = d\<lparr> df_routes_removed := df_routes_removed d @ concat (map (gone_line after) xs),
        df_mirrors_removed := df_mirrors_removed d @ concat (map (mirror_gone_line after) xs) \<rparr>" for xs d
    by (induction xs arbitrary: d) (simp_all add: drop)
  have "route_diff before after d = fold gone before (fold one after d)"
    unfolding route_diff_def Let_def one_def gone_def ..
  then show ?thesis by (simp add: 1 2)
qed

definition cert_line :: "(string \<times> u64) list \<Rightarrow> string \<times> u64 \<Rightarrow> string list" where
  "cert_line before = (\<lambda>(host, i). if map_of before host = Some i then [] else [host])"

lemma cert_diff_lines:
  "\<exists>added removed. cert_diff before after d =
     d\<lparr> df_certs_rotated := df_certs_rotated d @ concat (map (cert_line before) after)
          @ concat (map (\<lambda>(host, _). if map_of after host = None then [host] else []) before),
        df_certs_added := added, df_certs_removed := removed \<rparr>"
proof -
  define one where "one = (\<lambda>(host, i) (d :: config_diff).
            case map_of before host of
              None \<Rightarrow> d\<lparr> df_certs_added := df_certs_added d + 1, df_certs_rotated := df_certs_rotated d @ [host] \<rparr>
            | Some was \<Rightarrow> if was \<noteq> i then d\<lparr> df_certs_rotated := df_certs_rotated d @ [host] \<rparr> else d)"
  define gone where "gone = (\<lambda>(host :: string, _ :: u64) (d :: config_diff).
            if map_of after host = None
            then d\<lparr> df_certs_removed := df_certs_removed d + 1, df_certs_rotated := df_certs_rotated d @ [host] \<rparr>
            else d)"
  have 1: "\<exists>a. fold one xs d = d\<lparr> df_certs_rotated := df_certs_rotated d @ concat (map (cert_line before) xs), df_certs_added := a \<rparr>" for xs d
  proof (induction xs arbitrary: d)
    case Nil
    show ?case by (rule exI[of _ "df_certs_added d"]) simp
  next
    case (Cons x xs)
    obtain a where a: "one x d = d\<lparr> df_certs_rotated := df_certs_rotated d @ cert_line before x, df_certs_added := a \<rparr>"
    proof (cases "map_of before (fst x)")
      case None
      then show ?thesis by (intro that[of "df_certs_added d + 1"]) (cases x, simp add: one_def cert_line_def)
    next
      case (Some was)
      then show ?thesis by (intro that[of "df_certs_added d"]) (cases x, auto simp: one_def cert_line_def)
    qed
    with Cons.IH[of "one x d"] show ?case by auto
  qed
  have 2: "\<exists>r. fold gone xs d = d\<lparr> df_certs_rotated := df_certs_rotated d
      @ concat (map (\<lambda>(host, _). if map_of after host = None then [host] else []) xs), df_certs_removed := r \<rparr>" for xs d
  proof (induction xs arbitrary: d)
    case Nil
    show ?case by (rule exI[of _ "df_certs_removed d"]) simp
  next
    case (Cons x xs)
    obtain r where r: "gone x d = d\<lparr> df_certs_rotated := df_certs_rotated d
        @ (case x of (host, _) \<Rightarrow> if map_of after host = None then [host] else []), df_certs_removed := r \<rparr>"
    proof (cases "map_of after (fst x)")
      case None
      then show ?thesis by (intro that[of "df_certs_removed d + 1"]) (cases x, simp add: gone_def)
    next
      case (Some i)
      then show ?thesis by (intro that[of "df_certs_removed d"]) (cases x, simp add: gone_def)
    qed
    with Cons.IH[of "gone x d"] show ?case by auto
  qed
  have "cert_diff before after d = fold gone before (fold one after d)"
    unfolding cert_diff_def Let_def one_def gone_def ..
  moreover obtain a where "fold one after d = d\<lparr> df_certs_rotated := df_certs_rotated d @ concat (map (cert_line before) after), df_certs_added := a \<rparr>"
    using 1 by blast
  moreover obtain r where "fold gone before (fold one after d) = (fold one after d)\<lparr> df_certs_rotated := df_certs_rotated (fold one after d)
      @ concat (map (\<lambda>(host, _). if map_of after host = None then [host] else []) before), df_certs_removed := r \<rparr>"
    using 2 by blast
  ultimately show ?thesis by (intro exI[of _ a] exI[of _ r]) simp
qed

lemma map_of_same:
  assumes "\<And>k v. (k, v) \<in> set b \<Longrightarrow> map_of a k = Some v" "\<And>k v. (k, v) \<in> set a \<Longrightarrow> map_of b k \<noteq> None"
  shows "map_of a = map_of b"
proof
  fix k
  show "map_of a k = map_of b k"
  proof (cases "map_of b k")
    case None
    then show ?thesis using assms(2) map_of_SomeD by (metis not_Some_eq)
  next
    case (Some v)
    then show ?thesis using assms(1) map_of_SomeD by metis
  qed
qed

lemma wf_sides [simp]: "btree_wf (routes_of table)" "btree_wf (hosts_of table)" "btree_wf (certs_of table)"
  by (simp_all add: routes_of_def hosts_of_def certs_of_def split: option.split) (simp_all add: btree_wf_def)

lemma map_of_member: "btree_wf m \<Longrightarrow> (k, v) \<in> set m \<Longrightarrow> map_of m k = Some v"
  using btree_distinct by (metis map_of_eq_Some_iff)

lemma btree_same_iff:
  assumes "btree_wf a" "btree_wf b"
  shows "a = b \<longleftrightarrow> (\<forall>(k, v) \<in> set b. map_of a k = Some v) \<and> (\<forall>(k, v) \<in> set a. map_of b k \<noteq> None)"
proof
  show "a = b \<Longrightarrow> (\<forall>(k, v) \<in> set b. map_of a k = Some v) \<and> (\<forall>(k, v) \<in> set a. map_of b k \<noteq> None)"
    using assms(2) by (auto simp: map_of_member)
  assume "(\<forall>(k, v) \<in> set b. map_of a k = Some v) \<and> (\<forall>(k, v) \<in> set a. map_of b k \<noteq> None)"
  then have "map_of a = map_of b" by (intro map_of_same) auto
  with assms show "a = b" by (rule btree_eqI)
qed

text \<open>No line about an entry means the entry is there unchanged.\<close>

lemma entry_lines_empty:
  "added_line before (k, target) = [] \<and> changed_line before (k, target) = []
     \<and> mirror_added_line before (k, target) = [] \<and> mirror_removed_line before (k, target) = []
   \<longleftrightarrow> map_of before k = Some target"
  by (cases "map_of before k")
     (auto simp: line_defs backend_change_def mirror_line_def split: option.splits if_splits)

lemma concat_map_Nil: "concat (map f xs) = [] \<longleftrightarrow> (\<forall>x \<in> set xs. f x = [])"
  by auto

lemma route_lines_empty:
  assumes "btree_wf before" "btree_wf after"
  shows "concat (map (added_line before) after) = [] \<and> concat (map (gone_line after) before) = []
     \<and> concat (map (changed_line before) after) = [] \<and> concat (map (mirror_added_line before) after) = []
     \<and> concat (map (mirror_removed_line before) after) @ concat (map (mirror_gone_line after) before) = []
   \<longleftrightarrow> before = after"
proof -
  have here: "added_line before x = [] \<and> changed_line before x = [] \<and> mirror_added_line before x = [] \<and> mirror_removed_line before x = []
      \<longleftrightarrow> map_of before (fst x) = Some (snd x)" for x
    using entry_lines_empty [of before "fst x" "snd x"] by simp
  have gone: "gone_line after x = [] \<and> mirror_gone_line after x = [] \<longleftrightarrow> map_of after (fst x) \<noteq> None" for x
    by (cases x) (auto simp: gone_line_def mirror_gone_line_def)
  have same: "before = after \<longleftrightarrow> (\<forall>x \<in> set after. map_of before (fst x) = Some (snd x)) \<and> (\<forall>x \<in> set before. map_of after (fst x) \<noteq> None)"
    unfolding btree_same_iff [OF assms] by (simp add: case_prod_beta)
  show ?thesis
    unfolding same here [symmetric] gone [symmetric] append_is_Nil_conv concat_map_Nil ball_conj_distrib
    by argo
qed

lemma cert_lines_empty:
  assumes "btree_wf before" "btree_wf after"
  shows "concat (map (cert_line before) after)
     @ concat (map (\<lambda>(host, _). if map_of after host = None then [host] else []) before) = [] \<longleftrightarrow> before = after"
  unfolding btree_same_iff [OF assms] by (auto simp: cert_line_def split: if_splits)

lemma host_lines_empty:
  assumes "btree_wf before" "btree_wf after"
  shows "btree_difference after before = [] \<and> btree_difference before after = [] \<longleftrightarrow> before = (after :: (string \<times> unit) list)"
  unfolding btree_same_iff [OF assms] by (auto simp: btree_difference_def filter_empty_conv)

lemma sort_Nil_iff: "sort xs = [] \<longleftrightarrow> xs = []"
  by (metis set_empty set_sort)

text \<open>C40. A difference is empty exactly when the two generations show the same: the same routes with
the same backends, protocols, endpoint counts and mirrors, the same hosts, the same certificates
and the same default backend. Nothing of that can change without a line, and no line appears
without a change.\<close>

theorem diff_empty_iff:
  "diff_is_empty (diff_compute previous t) \<longleftrightarrow>
     (routes_of previous, hosts_of previous, certs_of previous, Option.bind previous default_backend_name)
     = (routes_of (Some t), hosts_of (Some t), certs_of (Some t), default_backend_name t)"
proof -
  let ?d = "route_diff (routes_of previous) (routes_of (Some t)) (diff_default\<lparr> df_from := map_option rt_generation previous, df_to := rt_generation t \<rparr>)"
  let ?d1 = "?d\<lparr> df_hosts_added := btree_difference (hosts_of (Some t)) (hosts_of previous),
                  df_hosts_removed := btree_difference (hosts_of previous) (hosts_of (Some t)) \<rparr>"
  obtain a r where c: "cert_diff (certs_of previous) (certs_of (Some t)) ?d1 =
     ?d1\<lparr> df_certs_rotated := df_certs_rotated ?d1 @ concat (map (cert_line (certs_of previous)) (certs_of (Some t)))
          @ concat (map (\<lambda>(host, _). if map_of (certs_of (Some t)) host = None then [host] else []) (certs_of previous)),
        df_certs_added := a, df_certs_removed := r \<rparr>"
    using cert_diff_lines by blast
  show ?thesis
    using route_lines_empty [of "routes_of previous" "routes_of (Some t)"] host_lines_empty [of "hosts_of previous" "hosts_of (Some t)"]
      cert_lines_empty [of "certs_of previous" "certs_of (Some t)"]
    unfolding diff_compute_def Let_def c
    by (simp add: diff_is_empty_def sort_diff_def sort_Nil_iff route_diff_lines diff_default_def) blast
qed

end
