(* ===== verification/Spec2Isabelle.thy ===== *)
theory Spec2Isabelle
  imports Builder Promotion Translate Hop_Headers Civil_Time Bodies Scrape Serving Diff
begin

text \<open>
  A verification development of ramjet-ingress, a Kubernetes ingress controller and proxy written
  in Rust (the crates under \<open>crates/\<close>). Every definition is a shallow translation of the function it
  names; the theorems are about those definitions.

  \<^bold>\<open>The program.\<close> The controller (\<open>ramjet-controller\<close>) watches Ingress, IngressClass, Service,
  EndpointSlice and Secret objects and translates a snapshot of them into a configuration: a route
  table, the keys of its certificates and the canaries to promote. The route table belongs to the
  router (\<open>ramjet-router\<close>), which both engines share: it normalises host names, matches a host and a
  path to a rule, decides canaries and mirrors, picks an endpoint and keeps counters. The hyper engine
  (\<open>ramjet-proxy\<close>) and the uring engine (\<open>ramjet-engine\<close>) forward requests by that table; the proxy
  crate also keeps the history of published generations with its pin, the certificate store and the
  PROXY protocol reader. The daemon (\<open>ramjet-ingressd\<close>) publishes each configuration to the engines and
  runs the loop that promotes healthy canaries by patching annotations, which the controller reads back.
  \<open>ramjet-top\<close> is a terminal client of the admin API.

  \<^bold>\<open>The theories\<close>, each with the files it models:

  \<^item> \<^verbatim>\<open>Prelude\<close>: machine integers, byte strings and the parts of the Rust standard library in use;
    \<^verbatim>\<open>Ip_Addr\<close>: the standard library's addresses, their parser, printer and order; \<^verbatim>\<open>F64\<close>: the binary64
    operations the promotion gates use.
  \<^item> \<^verbatim>\<open>Host\<close> (\<open>router/host.rs\<close>): normalisation of a \<open>Host\<close> value, parent domains, FxHash.
    \<^verbatim>\<open>Path_Rules\<close> (\<open>path.rs\<close>, \<open>canary.rs\<close>, \<open>mirror.rs\<close>): rules, their precedence, canary and mirror decisions.
    \<^verbatim>\<open>Stats\<close> (\<open>stats.rs\<close>): the counters in a heap of shared cells, in-flight guards, rebuilds.
    \<^verbatim>\<open>Backend\<close> (\<open>backend.rs\<close>): the weighted ring and endpoint selection. \<^verbatim>\<open>Table\<close> (\<open>table.rs\<close>, \<open>tls.rs\<close>): the
    route table, host tiers and certificate names. \<^verbatim>\<open>Builder\<close> (\<open>builder.rs\<close>): building a table. The
    theorems: matching implements an abstract choice of the best matching rule; a built table is
    well formed and holds exactly the registered rules; counters survive rebuilds and in-flight
    counts equal the outstanding guards; round robin gives exact shares.
  \<^item> \<^verbatim>\<open>Codec\<close>, \<^verbatim>\<open>Head\<close>, \<^verbatim>\<open>Chunked\<close>, \<^verbatim>\<open>Framing\<close> (\<open>engine/codec/\<close>): the HTTP/1 parser with its resumable
    cursor, the chunked-body scanner and body framing. The theorems: each accepts exactly its grammar,
    reads back what was written, and gives the same answer however the bytes are cut into reads;
    framing is unambiguous.
  \<^item> \<^verbatim>\<open>Rng\<close> (\<open>rng.rs\<close> of both engines): the random source. \<^verbatim>\<open>Hop_Headers\<close> (\<open>engine/headers.rs\<close>): the heads
    sent upstream and downstream; what is written parses back to the intended fields and keeps the
    framing of the body, except when \<open>Connection\<close> names \<open>Content-Length\<close>. \<^verbatim>\<open>Pool\<close> (\<open>engine/engine/pool.rs\<close>):
    idle connections, with the conservation of descriptors.
  \<^item> \<^verbatim>\<open>Tls\<close> (\<open>engine/tls.rs\<close>): a TLS session without a socket; one that was not accepted replays exactly
    what it was fed. \<^verbatim>\<open>Route_Glue\<close> (\<open>engine/route.rs\<close>, \<open>limits.rs\<close>): the decision for a request, equal to
    the hyper engine's for header values both read alike, and the responses the engine invents. \<^verbatim>\<open>Helper\<close> (\<open>engine/helper.rs\<close>): the thread
    that waits for connects; it loses and repeats no note, and no connect outlives its deadline.
  \<^item> The worker of the uring engine (\<open>engine/engine/worker.rs\<close>): \<^verbatim>\<open>Conn\<close> holds its data, \<^verbatim>\<open>Exchange\<close> the state
    machine of a client connection, a method of the code per definition, \<^verbatim>\<open>Events\<close> the handlers of
    completions, ticks and the drain. What a core does to the outside is a log of effects; the
    reactor's answers and the outcome of every call are functions of that log. \<^verbatim>\<open>Serving\<close> proves that
    stale completions change nothing, that the endpoints of a request are dialled in order, each at most
    once, and none once it is answered, that the drain counts exactly what it keeps, and what the code does in the
    cases its comments do not foresee: interim responses, resets, early answers, split methods.
  \<^item> \<^verbatim>\<open>Proxy_Protocol\<close> (\<open>proxy/proxy_protocol.rs\<close>): both header versions, the read loop and the replaying
    stream. \<^verbatim>\<open>History\<close> (\<open>proxy/history.rs\<close>, \<open>tls.rs\<close>): generations, pins, publication. \<^verbatim>\<open>Civil_Time\<close>: the
    timestamps \<open>history.rs\<close> writes and \<open>top/rfc3339.rs\<close> reads back.
  \<^item> \<^verbatim>\<open>Forward\<close> (\<open>proxy/forward.rs\<close>, \<open>upstream.rs\<close>, parts of \<open>mirror.rs\<close>): the hyper engine's handling of a
    request, from routing through retries to the recorded outcome. \<^verbatim>\<open>Bodies\<close> (\<open>body.rs\<close>, parts of \<open>http3.rs\<close>
    and \<open>mirror.rs\<close>): request bodies and what mirroring does to them. \<^verbatim>\<open>Proxy_Headers\<close> (\<open>headers.rs\<close>): the
    header rewriting. The theorems: each request is counted once and gives its in-flight count back;
    failover reaches the first endpoint that answers; the primary gets the whole body.
  \<^item> \<^verbatim>\<open>Metrics\<close> (\<open>proxy/metrics.rs\<close>, \<open>engine/metrics.rs\<close>): the counters of both engines and their Prometheus
    text, which agree. \<^verbatim>\<open>Scrape\<close> (\<open>top/prom.rs\<close>): the reader of that text, which gets the numbers back.
  \<^item> \<^verbatim>\<open>Annotations\<close> (\<open>controller/annotations.rs\<close>): every annotation. \<^verbatim>\<open>Cluster\<close> (\<open>snapshot.rs\<close>, \<open>config.rs\<close>,
    \<open>class.rs\<close>, \<open>digest.rs\<close>, \<open>endpoints.rs\<close>, \<open>tls.rs\<close>): the objects and what is looked up in them.
    \<^verbatim>\<open>Translate\<close> (\<open>translate.rs\<close>): the whole translation pass. The theorems: the pass is total on validated
    input, warns about every faulty object, is deterministic, serves each route for the oldest Ingress that asks for it, and publishes the
    key of every certificate the table can name. \<^verbatim>\<open>Diff\<close> (\<open>diff.rs\<close>): what changed between two
    published tables; the difference is empty exactly when nothing it shows changed.
  \<^item> \<^verbatim>\<open>Promotion\<close> (\<open>ingressd/promotion.rs\<close>, parts of \<open>controller/annotate.rs\<close> and \<open>audit.rs\<close>): the promotion
    decision, the pass over all canaries and the patches, which read back as what was decided.

  \<^bold>\<open>Parameters.\<close> Code outside the repository is an argument of the definitions that use it: regular
  expression compilation and matching, the iteration order of hash maps, the clock, standard reason
  phrases, rustls, the header maps and the client of the hyper engine, the reactor and the system
  calls, and the results of API calls. Where a theorem needs something of one (a map is iterated
  over all of its entries, say) it is a hypothesis with a witness.

  \<^bold>\<open>Bounds.\<close> Machine integers have their width. Loops are structural recursions or have a termination
  proof; no definition takes fuel. Lengths and buffer offsets are natural numbers, limited where the
  code limits them (\<open>MAX_HEAD\<close>, \<open>MAX_HEADERS\<close>, \<open>MAX_HOST_LEN\<close>).

  \<^bold>\<open>Not modelled.\<close> The blocking loops and system calls of both engines (\<open>engine.rs\<close>, \<open>sys.rs\<close>, \<open>server.rs\<close>,
  the accept loops of \<open>http3.rs\<close>, \<open>listener.rs\<close>): their effects are those of io_uring, tokio, hyper and
  quinn. The watch streams and API writes of the controller (\<open>watch.rs\<close>, \<open>audit.rs\<close>, \<open>status.rs\<close>), the
  daemon's start-up and argument parsing, the admin API's JSON and the terminal user interface are
  presentation and I/O. Tests and benchmarks are not models of anything.
\<close>

end
